(* ===== verification/Prelude.thy ===== *)
theory Prelude
  imports Main "HOL-Library.Word" "HOL-Library.Monad_Syntax"
begin

text \<open>
  Shared vocabulary of the development: the machine integer types of the C sources, the error
  numbers, byte-order conversions (little- and big-endian), byte-buffer reads and writes (the
  model's \<open>memcpy\<close>), and the generic lemmas on lists and words the components use.
  Facts that unfold the byte conversions are collected in \<open>byte_defs\<close>; facts about the length
  and the elements of buffers are in \<open>buf_simps\<close>.
\<close>

unbundle bit_operations_syntax

named_theorems byte_defs "unfolding rules of the byte-order conversions"
named_theorems buf_simps "length and element facts of byte buffers"

section \<open>Machine integers and error numbers\<close>

type_synonym u8 = "8 word"
type_synonym u16 = "16 word"
type_synonym u32 = "32 word"
type_synonym u64 = "64 word"

type_synonym bytes = "u8 list"

text \<open>The error numbers the sources return, always negated, so \<open>Inl EIO\<close> stands for \<open>-EIO\<close>.\<close>

datatype errno =
    EPERM | ENOENT | EIO | ENXIO | EAGAIN | ENOMEM | EFAULT | EBUSY | ENODEV | EINVAL | ENOSPC
  | EBADMSG | EMSGSIZE | ETIMEDOUT | EOVERFLOW

section \<open>Byte order\<close>

text \<open>\<open>(uint8_t)(v >> n)\<close>: the byte of a word that starts at bit \<open>n\<close>.\<close>

abbreviation byte_at :: "nat \<Rightarrow> 'a::len word \<Rightarrow> u8" where
  "byte_at n v \<equiv> ucast (drop_bit n v)"

definition le16 :: "bytes \<Rightarrow> u16" where [byte_defs]:
  "le16 p = ucast (p ! 0) OR push_bit 8 (ucast (p ! 1))"

definition le32 :: "bytes \<Rightarrow> u32" where [byte_defs]:
  "le32 p = ucast (p ! 0) OR push_bit 8 (ucast (p ! 1)) OR push_bit 16 (ucast (p ! 2))
            OR push_bit 24 (ucast (p ! 3))"

definition be16 :: "bytes \<Rightarrow> u16" where [byte_defs]:
  "be16 p = push_bit 8 (ucast (p ! 0)) OR ucast (p ! 1)"

definition be32 :: "bytes \<Rightarrow> u32" where [byte_defs]:
  "be32 p = push_bit 24 (ucast (p ! 0)) OR push_bit 16 (ucast (p ! 1)) OR push_bit 8 (ucast (p ! 2))
            OR ucast (p ! 3)"

definition le16_bytes :: "u16 \<Rightarrow> bytes" where [byte_defs]:
  "le16_bytes v = [byte_at 0 v, byte_at 8 v]"

definition le32_bytes :: "u32 \<Rightarrow> bytes" where [byte_defs]:
  "le32_bytes v = [byte_at 0 v, byte_at 8 v, byte_at 16 v, byte_at 24 v]"

definition be16_bytes :: "u16 \<Rightarrow> bytes" where [byte_defs]:
  "be16_bytes v = [byte_at 8 v, byte_at 0 v]"

definition be32_bytes :: "u32 \<Rightarrow> bytes" where [byte_defs]:
  "be32_bytes v = [byte_at 24 v, byte_at 16 v, byte_at 8 v, byte_at 0 v]"

lemma length_byte_conversions [simp, buf_simps]:
  "length (le16_bytes v) = 2" "length (le32_bytes w) = 4"
  "length (be16_bytes v) = 2" "length (be32_bytes w) = 4"
  by (simp_all add: byte_defs)

lemma le16_le16_bytes [simp]: "le16 (le16_bytes v @ xs) = v"
  by (rule bit_word_eqI) (auto simp: byte_defs bit_simps)

lemma le32_le32_bytes [simp]: "le32 (le32_bytes v @ xs) = v"
proof (rule bit_word_eqI)
  fix n assume "n < LENGTH(32)"
  then consider "n < 8" | "8 \<le> n" "n < 16" | "16 \<le> n" "n < 24" | "24 \<le> n" "n < 32" by fastforce
  then show "bit (le32 (le32_bytes v @ xs)) n = bit v n"
    by cases (auto simp: byte_defs bit_simps)
qed

lemma be16_be16_bytes [simp]: "be16 (be16_bytes v @ xs) = v"
  by (rule bit_word_eqI) (auto simp: byte_defs bit_simps)

lemma be32_be32_bytes [simp]: "be32 (be32_bytes v @ xs) = v"
proof (rule bit_word_eqI)
  fix n assume "n < LENGTH(32)"
  then consider "n < 8" | "8 \<le> n" "n < 16" | "16 \<le> n" "n < 24" | "24 \<le> n" "n < 32" by fastforce
  then show "bit (be32 (be32_bytes v @ xs)) n = bit v n"
    by cases (auto simp: byte_defs bit_simps)
qed

lemma le16_bytes_self [simp]: "le16 (le16_bytes v) = v"
  using le16_le16_bytes [of v "[]"] by simp

lemma le32_bytes_self [simp]: "le32 (le32_bytes v) = v"
  using le32_le32_bytes [of v "[]"] by simp

lemma be16_bytes_self [simp]: "be16 (be16_bytes v) = v"
  using be16_be16_bytes [of v "[]"] by simp

lemma be32_bytes_self [simp]: "be32 (be32_bytes v) = v"
  using be32_be32_bytes [of v "[]"] by simp

lemma le32_bytes_le32: "length p = 4 \<Longrightarrow> le32_bytes (le32 p) = p"
proof -
  assume "length p = 4"
  then obtain a b c d where p: "p = [a, b, c, d]" by (auto simp: numeral_eq_Suc length_Suc_conv)
  show ?thesis
    by (auto simp: p le32_def le32_bytes_def bit_eq_iff bit_simps dest: bit_imp_le_length)
qed

section \<open>Byte buffers\<close>

text \<open>\<open>slice off n buf\<close> is what \<open>memcpy(dst, buf + off, n)\<close> copies; \<open>buf_write off data buf\<close> is the
  buffer after \<open>memcpy(buf + off, data, length data)\<close>.\<close>

definition slice :: "nat \<Rightarrow> nat \<Rightarrow> 'a list \<Rightarrow> 'a list" where
  "slice off n xs = take n (drop off xs)"

definition buf_write :: "nat \<Rightarrow> 'a list \<Rightarrow> 'a list \<Rightarrow> 'a list" where
  "buf_write off data buf = take off buf @ data @ drop (off + length data) buf"

lemma length_slice [simp, buf_simps]: "length (slice off n xs) = min n (length xs - off)"
  by (simp add: slice_def)

lemma nth_slice [simp, buf_simps]:
  "i < n \<Longrightarrow> off + i < length xs \<Longrightarrow> slice off n xs ! i = xs ! (off + i)"
  by (simp add: slice_def)

lemma slice_0 [simp]: "slice off 0 xs = []"
  by (simp add: slice_def)

lemma slice_all [simp]: "slice 0 (length xs) xs = xs"
  by (simp add: slice_def)

lemma length_buf_write [simp, buf_simps]:
  "off + length data \<le> length buf \<Longrightarrow> length (buf_write off data buf) = length buf"
  by (simp add: buf_write_def)

lemma nth_buf_write [buf_simps]:
  assumes "off + length data \<le> length buf" "i < length buf"
  shows "buf_write off data buf ! i
           = (if off \<le> i \<and> i < off + length data then data ! (i - off) else buf ! i)"
proof -
  have "min (length buf) off = off" using assms by simp
  then show ?thesis using assms by (auto simp: buf_write_def nth_append)
qed

lemma slice_eqI:
  assumes "n \<le> length xs - off" "length ys = n" "\<And>i. i < n \<Longrightarrow> xs ! (off + i) = ys ! i"
  shows "slice off n xs = ys"
proof (rule nth_equalityI)
  show "length (slice off n xs) = length ys" using assms by simp
next
  fix i assume "i < length (slice off n xs)"
  then have "i < n" "off + i < length xs" using assms(1) by auto
  then show "slice off n xs ! i = ys ! i" using assms(3) by simp
qed

lemma slice_buf_write_same [simp]:
  "off + length data \<le> length buf \<Longrightarrow> n = length data \<Longrightarrow> slice off n (buf_write off data buf) = data"
  by (simp add: slice_def buf_write_def)

lemma slice_buf_write_other:
  assumes "off + length data \<le> length buf" "a + n \<le> length buf" "a + n \<le> off \<or> off + length data \<le> a"
  shows "slice a n (buf_write off data buf) = slice a n buf"
  using assms by (intro slice_eqI) (auto simp: nth_buf_write)

lemma slice_append_left [simp]: "off + n \<le> length xs \<Longrightarrow> slice off n (xs @ ys) = slice off n xs"
  by (simp add: slice_def)

lemma slice_append_right [simp]: "length xs \<le> off \<Longrightarrow> slice off n (xs @ ys) = slice (off - length xs) n ys"
  by (simp add: slice_def)

lemma slice_slice: "b + m \<le> n \<Longrightarrow> slice b m (slice a n xs) = slice (a + b) m xs"
  by (simp add: slice_def drop_take add.commute min_def)

lemma slice_split: "slice off (m + n) xs = slice off m xs @ slice (off + m) n xs"
  by (simp add: slice_def take_add add.commute)

lemma slice_map_upt:
  "off + n \<le> b - a \<Longrightarrow> slice off n (map f [a..<b]) = map f [a + off..<a + off + n]"
proof (rule slice_eqI)
  fix i assume "off + n \<le> b - a" "i < n"
  then show "map f [a..<b] ! (off + i) = map f [a + off..<a + off + n] ! i"
    by (simp add: add.assoc)
qed auto

section \<open>Addresses\<close>

lemma unat_add_of_nat:
  "unat (x :: 'a::len word) + n < 2 ^ LENGTH('a) \<Longrightarrow> unat (x + of_nat n) = unat x + n"
  by (simp add: unat_word_ariths(1) unat_of_nat)

lemma unat_take_bit: "unat (take_bit k x) = unat (x :: 'a::len word) mod 2 ^ k"
proof -
  have "unat (take_bit k x) = take_bit k (unat x)" by (rule unsigned_take_bit_eq)
  then show ?thesis by (simp only: take_bit_eq_mod)
qed

lemma minus_align: "x - (x AND NOT (mask k)) = take_bit k (x :: 'a::len word)"
proof -
  have "(x AND NOT (mask k)) AND take_bit k x = 0" by (auto simp: bit_eq_iff bit_simps)
  then have "(x AND NOT (mask k)) + take_bit k x = (x AND NOT (mask k)) XOR take_bit k x"
    by (rule disjunctive_add_eq_xor)
  also have "\<dots> = x" by (auto simp: bit_eq_iff bit_simps)
  finally show ?thesis by (simp add: algebra_simps)
qed

lemma unat_minus_align: "unat (x - (x AND NOT (mask k))) = unat (x :: 'a::len word) mod 2 ^ k"
  unfolding minus_align by (rule unat_take_bit)

lemma unat_align: "unat (x AND NOT (mask k)) = unat (x :: 'a::len word) div 2 ^ k * 2 ^ k"
proof -
  have "x AND NOT (mask k) = x - take_bit k x" using minus_align [of x k] by (simp add: algebra_simps)
  then have "unat (x AND NOT (mask k)) = unat x - unat x mod 2 ^ k"
    by (simp only: unat_take_bit unat_sub word_le_nat_alt mod_less_eq_dividend)
  then show ?thesis by (simp add: minus_mod_eq_div_mult)
qed

text \<open>An aligned block that holds an address below a multiple of the block size ends below it too.\<close>

lemma block_end: "(a :: nat) < sz \<Longrightarrow> sz mod n = 0 \<Longrightarrow> a div n * n + n \<le> sz"
proof -
  assume "a < sz" "sz mod n = 0"
  then obtain k where "sz = k * n" by (metis mod_0_imp_dvd dvd_def mult.commute)
  then have "a div n < k" using \<open>a < sz\<close> by (metis less_mult_imp_div_less)
  then have "Suc (a div n) * n \<le> k * n" by (intro mult_le_mono1) simp
  then show ?thesis using \<open>sz = k * n\<close> by simp
qed

end
