(* ===== verification/Crc.thy ===== *)
theory Crc
  imports Prelude
begin

text \<open>
  The checksums of \<open>src/src/utils/crc\<close>: table-driven CRC-32, CRC-16 and the two CRC-8 variants, as the
  C code computes them, and reference definitions that run the polynomial division one bit at a
  time. The table-driven routines are shown equal to the references, the incremental CRC-32
  interface is shown to compose, and CRC-32 is shown to detect every change confined to four
  consecutive bytes, which is what the record checksum of \<open>flash_kv\<close> relies on.
\<close>

section \<open>CRC-32\<close>

definition crc32_table :: "u32 list" where
  "crc32_table =
    [0x00000000, 0x77073096, 0xee0e612c, 0x990951ba, 0x076dc419, 0x706af48f, 0xe963a535, 0x9e6495a3,
     0x0edb8832, 0x79dcb8a4, 0xe0d5e91e, 0x97d2d988, 0x09b64c2b, 0x7eb17cbd, 0xe7b82d07, 0x90bf1d91,
     0x1db71064, 0x6ab020f2, 0xf3b97148, 0x84be41de, 0x1adad47d, 0x6ddde4eb, 0xf4d4b551, 0x83d385c7,
     0x136c9856, 0x646ba8c0, 0xfd62f97a, 0x8a65c9ec, 0x14015c4f, 0x63066cd9, 0xfa0f3d63, 0x8d080df5,
     0x3b6e20c8, 0x4c69105e, 0xd56041e4, 0xa2677172, 0x3c03e4d1, 0x4b04d447, 0xd20d85fd, 0xa50ab56b,
     0x35b5a8fa, 0x42b2986c, 0xdbbbc9d6, 0xacbcf940, 0x32d86ce3, 0x45df5c75, 0xdcd60dcf, 0xabd13d59,
     0x26d930ac, 0x51de003a, 0xc8d75180, 0xbfd06116, 0x21b4f4b5, 0x56b3c423, 0xcfba9599, 0xb8bda50f,
     0x2802b89e, 0x5f058808, 0xc60cd9b2, 0xb10be924, 0x2f6f7c87, 0x58684c11, 0xc1611dab, 0xb6662d3d,
     0x76dc4190, 0x01db7106, 0x98d220bc, 0xefd5102a, 0x71b18589, 0x06b6b51f, 0x9fbfe4a5, 0xe8b8d433,
     0x7807c9a2, 0x0f00f934, 0x9609a88e, 0xe10e9818, 0x7f6a0dbb, 0x086d3d2d, 0x91646c97, 0xe6635c01,
     0x6b6b51f4, 0x1c6c6162, 0x856530d8, 0xf262004e, 0x6c0695ed, 0x1b01a57b, 0x8208f4c1, 0xf50fc457,
     0x65b0d9c6, 0x12b7e950, 0x8bbeb8ea, 0xfcb9887c, 0x62dd1ddf, 0x15da2d49, 0x8cd37cf3, 0xfbd44c65,
     0x4db26158, 0x3ab551ce, 0xa3bc0074, 0xd4bb30e2, 0x4adfa541, 0x3dd895d7, 0xa4d1c46d, 0xd3d6f4fb,
     0x4369e96a, 0x346ed9fc, 0xad678846, 0xda60b8d0, 0x44042d73, 0x33031de5, 0xaa0a4c5f, 0xdd0d7cc9,
     0x5005713c, 0x270241aa, 0xbe0b1010, 0xc90c2086, 0x5768b525, 0x206f85b3, 0xb966d409, 0xce61e49f,
     0x5edef90e, 0x29d9c998, 0xb0d09822, 0xc7d7a8b4, 0x59b33d17, 0x2eb40d81, 0xb7bd5c3b, 0xc0ba6cad,
     0xedb88320, 0x9abfb3b6, 0x03b6e20c, 0x74b1d29a, 0xead54739, 0x9dd277af, 0x04db2615, 0x73dc1683,
     0xe3630b12, 0x94643b84, 0x0d6d6a3e, 0x7a6a5aa8, 0xe40ecf0b, 0x9309ff9d, 0x0a00ae27, 0x7d079eb1,
     0xf00f9344, 0x8708a3d2, 0x1e01f268, 0x6906c2fe, 0xf762575d, 0x806567cb, 0x196c3671, 0x6e6b06e7,
     0xfed41b76, 0x89d32be0, 0x10da7a5a, 0x67dd4acc, 0xf9b9df6f, 0x8ebeeff9, 0x17b7be43, 0x60b08ed5,
     0xd6d6a3e8, 0xa1d1937e, 0x38d8c2c4, 0x4fdff252, 0xd1bb67f1, 0xa6bc5767, 0x3fb506dd, 0x48b2364b,
     0xd80d2bda, 0xaf0a1b4c, 0x36034af6, 0x41047a60, 0xdf60efc3, 0xa867df55, 0x316e8eef, 0x4669be79,
     0xcb61b38c, 0xbc66831a, 0x256fd2a0, 0x5268e236, 0xcc0c7795, 0xbb0b4703, 0x220216b9, 0x5505262f,
     0xc5ba3bbe, 0xb2bd0b28, 0x2bb45a92, 0x5cb36a04, 0xc2d7ffa7, 0xb5d0cf31, 0x2cd99e8b, 0x5bdeae1d,
     0x9b64c2b0, 0xec63f226, 0x756aa39c, 0x026d930a, 0x9c0906a9, 0xeb0e363f, 0x72076785, 0x05005713,
     0x95bf4a82, 0xe2b87a14, 0x7bb12bae, 0x0cb61b38, 0x92d28e9b, 0xe5d5be0d, 0x7cdcefb7, 0x0bdbdf21,
     0x86d3d2d4, 0xf1d4e242, 0x68ddb3f8, 0x1fda836e, 0x81be16cd, 0xf6b9265b, 0x6fb077e1, 0x18b74777,
     0x88085ae6, 0xff0f6a70, 0x66063bca, 0x11010b5c, 0x8f659eff, 0xf862ae69, 0x616bffd3, 0x166ccf45,
     0xa00ae278, 0xd70dd2ee, 0x4e048354, 0x3903b3c2, 0xa7672661, 0xd06016f7, 0x4969474d, 0x3e6e77db,
     0xaed16a4a, 0xd9d65adc, 0x40df0b66, 0x37d83bf0, 0xa9bcae53, 0xdebb9ec5, 0x47b2cf7f, 0x30b5ffe9,
     0xbdbdf21c, 0xcabac28a, 0x53b39330, 0x24b4a3a6, 0xbad03605, 0xcdd70693, 0x54de5729, 0x23d967bf,
     0xb3667a2e, 0xc4614ab8, 0x5d681b02, 0x2a6f2b94, 0xb40bbe37, 0xc30c8ea1, 0x5a05df1b, 0x2d02ef8d]"

definition crc32_init :: u32 where
  "crc32_init = 0xFFFFFFFF"

fun crc32_update :: "u32 \<Rightarrow> bytes \<Rightarrow> u32" where
  "crc32_update crc [] = crc"
| "crc32_update crc (b # buf) =
     crc32_update (drop_bit 8 crc XOR crc32_table ! unat ((crc XOR ucast b) AND 0xFF)) buf"

definition crc32_final :: "u32 \<Rightarrow> u32" where
  "crc32_final crc = crc XOR 0xFFFFFFFF"

definition crc32 :: "bytes \<Rightarrow> u32" where
  "crc32 buf = crc32_final (crc32_update crc32_init buf)"

section \<open>CRC-16\<close>

definition crc16_table :: "u16 list" where
  "crc16_table =
    [0x0000, 0x1021, 0x2042, 0x3063, 0x4084, 0x50a5, 0x60c6, 0x70e7, 0x8108, 0x9129, 0xa14a, 0xb16b,
     0xc18c, 0xd1ad, 0xe1ce, 0xf1ef, 0x1231, 0x0210, 0x3273, 0x2252, 0x52b5, 0x4294, 0x72f7, 0x62d6,
     0x9339, 0x8318, 0xb37b, 0xa35a, 0xd3bd, 0xc39c, 0xf3ff, 0xe3de, 0x2462, 0x3443, 0x0420, 0x1401,
     0x64e6, 0x74c7, 0x44a4, 0x5485, 0xa56a, 0xb54b, 0x8528, 0x9509, 0xe5ee, 0xf5cf, 0xc5ac, 0xd58d,
     0x3653, 0x2672, 0x1611, 0x0630, 0x76d7, 0x66f6, 0x5695, 0x46b4, 0xb75b, 0xa77a, 0x9719, 0x8738,
     0xf7df, 0xe7fe, 0xd79d, 0xc7bc, 0x48c4, 0x58e5, 0x6886, 0x78a7, 0x0840, 0x1861, 0x2802, 0x3823,
     0xc9cc, 0xd9ed, 0xe98e, 0xf9af, 0x8948, 0x9969, 0xa90a, 0xb92b, 0x5af5, 0x4ad4, 0x7ab7, 0x6a96,
     0x1a71, 0x0a50, 0x3a33, 0x2a12, 0xdbfd, 0xcbdc, 0xfbbf, 0xeb9e, 0x9b79, 0x8b58, 0xbb3b, 0xab1a,
     0x6ca6, 0x7c87, 0x4ce4, 0x5cc5, 0x2c22, 0x3c03, 0x0c60, 0x1c41, 0xedae, 0xfd8f, 0xcdec, 0xddcd,
     0xad2a, 0xbd0b, 0x8d68, 0x9d49, 0x7e97, 0x6eb6, 0x5ed5, 0x4ef4, 0x3e13, 0x2e32, 0x1e51, 0x0e70,
     0xff9f, 0xefbe, 0xdfdd, 0xcffc, 0xbf1b, 0xaf3a, 0x9f59, 0x8f78, 0x9188, 0x81a9, 0xb1ca, 0xa1eb,
     0xd10c, 0xc12d, 0xf14e, 0xe16f, 0x1080, 0x00a1, 0x30c2, 0x20e3, 0x5004, 0x4025, 0x7046, 0x6067,
     0x83b9, 0x9398, 0xa3fb, 0xb3da, 0xc33d, 0xd31c, 0xe37f, 0xf35e, 0x02b1, 0x1290, 0x22f3, 0x32d2,
     0x4235, 0x5214, 0x6277, 0x7256, 0xb5ea, 0xa5cb, 0x95a8, 0x8589, 0xf56e, 0xe54f, 0xd52c, 0xc50d,
     0x34e2, 0x24c3, 0x14a0, 0x0481, 0x7466, 0x6447, 0x5424, 0x4405, 0xa7db, 0xb7fa, 0x8799, 0x97b8,
     0xe75f, 0xf77e, 0xc71d, 0xd73c, 0x26d3, 0x36f2, 0x0691, 0x16b0, 0x6657, 0x7676, 0x4615, 0x5634,
     0xd94c, 0xc96d, 0xf90e, 0xe92f, 0x99c8, 0x89e9, 0xb98a, 0xa9ab, 0x5844, 0x4865, 0x7806, 0x6827,
     0x18c0, 0x08e1, 0x3882, 0x28a3, 0xcb7d, 0xdb5c, 0xeb3f, 0xfb1e, 0x8bf9, 0x9bd8, 0xabbb, 0xbb9a,
     0x4a75, 0x5a54, 0x6a37, 0x7a16, 0x0af1, 0x1ad0, 0x2ab3, 0x3a92, 0xfd2e, 0xed0f, 0xdd6c, 0xcd4d,
     0xbdaa, 0xad8b, 0x9de8, 0x8dc9, 0x7c26, 0x6c07, 0x5c64, 0x4c45, 0x3ca2, 0x2c83, 0x1ce0, 0x0cc1,
     0xef1f, 0xff3e, 0xcf5d, 0xdf7c, 0xaf9b, 0xbfba, 0x8fd9, 0x9ff8, 0x6e17, 0x7e36, 0x4e55, 0x5e74,
     0x2e93, 0x3eb2, 0x0ed1, 0x1ef0]"

fun crc16_loop :: "u16 \<Rightarrow> bytes \<Rightarrow> u16" where
  "crc16_loop crc [] = crc"
| "crc16_loop crc (b # buf) =
     crc16_loop (push_bit 8 crc XOR crc16_table ! unat ((drop_bit 8 crc XOR ucast b) AND 0xFF)) buf"

definition crc16 :: "bytes \<Rightarrow> u16" where
  "crc16 buf = crc16_loop 0 buf"

section \<open>CRC-8\<close>

text \<open>The initialiser of \<open>crc8tab_lsb\<close> lists 248 values for an array of 256; C fills the last eight
  with zero.\<close>

definition crc8tab_lsb :: "u8 list" where
  "crc8tab_lsb =
    [0x00, 0x04, 0x08, 0x0c, 0x10, 0x14, 0x18, 0x1c, 0x20, 0x24, 0x28, 0x2c, 0x30, 0x34, 0x38, 0x3c,
     0x23, 0x27, 0x2b, 0x2f, 0x33, 0x37, 0x3b, 0x3f, 0x03, 0x07, 0x0b, 0x0f, 0x13, 0x17, 0x1b, 0x1f,
     0x25, 0x21, 0x2d, 0x29, 0x35, 0x31, 0x3d, 0x39, 0x05, 0x01, 0x0d, 0x09, 0x15, 0x11, 0x1d, 0x19,
     0x06, 0x02, 0x0e, 0x0a, 0x16, 0x12, 0x1e, 0x1a, 0x26, 0x22, 0x2e, 0x2a, 0x36, 0x32, 0x3e, 0x3a,
     0x29, 0x2d, 0x21, 0x25, 0x39, 0x3d, 0x31, 0x35, 0x09, 0x0d, 0x01, 0x05, 0x19, 0x1d, 0x11, 0x15,
     0x0a, 0x0e, 0x02, 0x06, 0x1a, 0x1e, 0x12, 0x16, 0x2a, 0x2e, 0x22, 0x26, 0x3a, 0x3e, 0x32, 0x36,
     0x0c, 0x08, 0x04, 0x00, 0x1c, 0x18, 0x14, 0x10, 0x2c, 0x28, 0x24, 0x20, 0x3c, 0x38, 0x34, 0x30,
     0x2f, 0x2b, 0x27, 0x23, 0x3f, 0x3b, 0x37, 0x33, 0x0f, 0x0b, 0x07, 0x03, 0x1f, 0x1b, 0x17, 0x13,
     0x31, 0x35, 0x39, 0x3d, 0x21, 0x25, 0x29, 0x2d, 0x11, 0x15, 0x19, 0x1d, 0x01, 0x05, 0x09, 0x0d,
     0x12, 0x16, 0x1a, 0x1e, 0x02, 0x06, 0x0a, 0x0e, 0x32, 0x36, 0x3a, 0x3e, 0x22, 0x26, 0x2a, 0x2e,
     0x14, 0x10, 0x1c, 0x18, 0x04, 0x00, 0x0c, 0x08, 0x34, 0x30, 0x3c, 0x38, 0x24, 0x20, 0x2c, 0x28,
     0x37, 0x33, 0x3f, 0x3b, 0x27, 0x23, 0x2f, 0x2b, 0x17, 0x13, 0x1f, 0x1b, 0x07, 0x03, 0x0f, 0x0b,
     0x18, 0x1c, 0x10, 0x14, 0x08, 0x0c, 0x00, 0x04, 0x38, 0x3c, 0x30, 0x34, 0x28, 0x2c, 0x20, 0x24,
     0x3b, 0x3f, 0x33, 0x37, 0x2b, 0x2f, 0x23, 0x27, 0x1b, 0x1f, 0x13, 0x17, 0x0b, 0x0f, 0x03, 0x07,
     0x3d, 0x39, 0x35, 0x31, 0x2d, 0x29, 0x25, 0x21, 0x1d, 0x19, 0x15, 0x11, 0x0d, 0x09, 0x05, 0x01,
     0x1e, 0x1a, 0x16, 0x12, 0x0e, 0x0a, 0x06, 0x02]
    @ replicate 8 0"

definition crc8tab_msb :: "u8 list" where
  "crc8tab_msb =
    [0x00, 0x31, 0x62, 0x53, 0xc4, 0xf5, 0xa6, 0x97, 0xb9, 0x88, 0xdb, 0xea, 0x7d, 0x4c, 0x1f, 0x2e,
     0x43, 0x72, 0x21, 0x10, 0x87, 0xb6, 0xe5, 0xd4, 0xfa, 0xcb, 0x98, 0xa9, 0x3e, 0x0f, 0x5c, 0x6d,
     0x86, 0xb7, 0xe4, 0xd5, 0x42, 0x73, 0x20, 0x11, 0x3f, 0x0e, 0x5d, 0x6c, 0xfb, 0xca, 0x99, 0xa8,
     0xc5, 0xf4, 0xa7, 0x96, 0x01, 0x30, 0x63, 0x52, 0x7c, 0x4d, 0x1e, 0x2f, 0xb8, 0x89, 0xda, 0xeb,
     0x3d, 0x0c, 0x5f, 0x6e, 0xf9, 0xc8, 0x9b, 0xaa, 0x84, 0xb5, 0xe6, 0xd7, 0x40, 0x71, 0x22, 0x13,
     0x7e, 0x4f, 0x1c, 0x2d, 0xba, 0x8b, 0xd8, 0xe9, 0xc7, 0xf6, 0xa5, 0x94, 0x03, 0x32, 0x61, 0x50,
     0xbb, 0x8a, 0xd9, 0xe8, 0x7f, 0x4e, 0x1d, 0x2c, 0x02, 0x33, 0x60, 0x51, 0xc6, 0xf7, 0xa4, 0x95,
     0xf8, 0xc9, 0x9a, 0xab, 0x3c, 0x0d, 0x5e, 0x6f, 0x41, 0x70, 0x23, 0x12, 0x85, 0xb4, 0xe7, 0xd6,
     0x7a, 0x4b, 0x18, 0x29, 0xbe, 0x8f, 0xdc, 0xed, 0xc3, 0xf2, 0xa1, 0x90, 0x07, 0x36, 0x65, 0x54,
     0x39, 0x08, 0x5b, 0x6a, 0xfd, 0xcc, 0x9f, 0xae, 0x80, 0xb1, 0xe2, 0xd3, 0x44, 0x75, 0x26, 0x17,
     0xfc, 0xcd, 0x9e, 0xaf, 0x38, 0x09, 0x5a, 0x6b, 0x45, 0x74, 0x27, 0x16, 0x81, 0xb0, 0xe3, 0xd2,
     0xbf, 0x8e, 0xdd, 0xec, 0x7b, 0x4a, 0x19, 0x28, 0x06, 0x37, 0x64, 0x55, 0xc2, 0xf3, 0xa0, 0x91,
     0x47, 0x76, 0x25, 0x14, 0x83, 0xb2, 0xe1, 0xd0, 0xfe, 0xcf, 0x9c, 0xad, 0x3a, 0x0b, 0x58, 0x69,
     0x04, 0x35, 0x66, 0x57, 0xc0, 0xf1, 0xa2, 0x93, 0xbd, 0x8c, 0xdf, 0xee, 0x79, 0x48, 0x1b, 0x2a,
     0xc1, 0xf0, 0xa3, 0x92, 0x05, 0x34, 0x67, 0x56, 0x78, 0x49, 0x1a, 0x2b, 0xbc, 0x8d, 0xde, 0xef,
     0x82, 0xb3, 0xe0, 0xd1, 0x46, 0x77, 0x24, 0x15, 0x3b, 0x0a, 0x59, 0x68, 0xff, 0xce, 0x9d, 0xac]"

definition crc8_lsb :: "bytes \<Rightarrow> u8" where
  "crc8_lsb buf = foldl (\<lambda>crc b. crc8tab_lsb ! unat (crc XOR b)) 0 buf"

definition crc8_msb :: "bytes \<Rightarrow> u8" where
  "crc8_msb buf = foldl (\<lambda>crc b. crc8tab_msb ! unat (crc XOR b)) 0 buf"

section \<open>Reference: one bit at a time\<close>

text \<open>One step of the reflected division by the polynomial 0x04C11DB7 (reflected: 0xEDB88320).\<close>

definition crc32_bit :: "u32 \<Rightarrow> u32" where
  "crc32_bit x = drop_bit 1 x XOR (if bit x 0 then 0xEDB88320 else 0)"

definition crc32_byte :: "u32 \<Rightarrow> u8 \<Rightarrow> u32" where
  "crc32_byte crc b = (crc32_bit ^^ 8) (crc XOR ucast b)"

definition crc32_spec :: "bytes \<Rightarrow> u32" where
  "crc32_spec buf = NOT (foldl crc32_byte (- 1) buf)"

text \<open>One step of the division by 0x1021 (XMODEM), most significant bit first.\<close>

definition crc16_bit :: "u16 \<Rightarrow> u16" where
  "crc16_bit x = push_bit 1 x XOR (if bit x 15 then 0x1021 else 0)"

definition crc16_byte :: "u16 \<Rightarrow> u8 \<Rightarrow> u16" where
  "crc16_byte crc b = (crc16_bit ^^ 8) (crc XOR push_bit 8 (ucast b))"

definition crc16_spec :: "bytes \<Rightarrow> u16" where
  "crc16_spec buf = foldl crc16_byte 0 buf"

definition crc8_msb_bit :: "u8 \<Rightarrow> u8" where
  "crc8_msb_bit x = push_bit 1 x XOR (if bit x 7 then 0x31 else 0)"

definition crc8_msb_spec :: "bytes \<Rightarrow> u8" where
  "crc8_msb_spec buf = foldl (\<lambda>crc b. (crc8_msb_bit ^^ 8) (crc XOR b)) 0 buf"

definition crc8_lsb_bit :: "u8 \<Rightarrow> u8" where
  "crc8_lsb_bit x = drop_bit 1 x XOR (if bit x 0 then 0x31 else 0)"

section \<open>Tables of a linear step\<close>

text \<open>Every table above lists the values of a linear function on bytes, so it is spanned by its entries
  at the powers of two.\<close>

fun xor_span :: "'a::len word list \<Rightarrow> 'a word list" where
  "xor_span [] = [0]"
| "xor_span (b # bs) = (let xs = xor_span bs in xs @ map (\<lambda>x. x XOR b) xs)"

lemma length_xor_span [simp]: "length (xor_span bs) = 2 ^ length bs"
  by (induction bs) (auto simp: Let_def)

lemma nth_xor_span_Cons:
  "i < 2 ^ Suc (length bs) \<Longrightarrow>
   xor_span (b # bs) ! i =
     (if i < 2 ^ length bs then xor_span bs ! i else xor_span bs ! (i - 2 ^ length bs) XOR b)"
  by (auto simp: Let_def nth_append)

lemma of_nat_add_power_eq_xor:
  assumes "r < 2 ^ n"
  shows "(of_nat (r + 2 ^ n) :: 'a::len word) = of_nat r XOR 2 ^ n"
proof -
  have "\<not> bit r n" using assms by (simp add: bit_iff_odd)
  then have "r AND 2 ^ n = 0" by (simp add: and_exp_eq_0_iff_not_bit)
  then have "r + 2 ^ n = r XOR 2 ^ n" by (rule disjunctive_add_eq_xor)
  then show ?thesis by (simp add: of_nat_xor_eq)
qed

lemma xor_eq_0D: "x XOR y = 0 \<Longrightarrow> x = (y :: 'a::len word)"
  by (auto simp: bit_eq_iff bit_simps)

locale crc_step =
  fixes step :: "'a::len word \<Rightarrow> 'a word"
  assumes step_xor: "step (x XOR y) = step x XOR step y"
begin

lemma step_0 [simp]: "step 0 = 0"
  using step_xor [of 0 0] by simp

lemma pow_xor: "(step ^^ n) (x XOR y) = (step ^^ n) x XOR (step ^^ n) y"
  by (induction n) (simp_all add: step_xor)

lemma pow_0 [simp]: "(step ^^ n) 0 = 0"
  by (induction n) simp_all

lemma span_pow:
  "i < 2 ^ m \<Longrightarrow>
   xor_span (map (\<lambda>k. (step ^^ n) (push_bit s (2 ^ k))) (rev [0..<m])) ! i
     = (step ^^ n) (push_bit s (of_nat i))"
proof (induction m arbitrary: i)
  case 0
  then show ?case by simp
next
  case (Suc m)
  let ?g = "\<lambda>k. (step ^^ n) (push_bit s (2 ^ k))"
  let ?bs = "map ?g (rev [0..<m])"
  have split: "xor_span (map ?g (rev [0..<Suc m])) ! i
      = (if i < 2 ^ m then xor_span ?bs ! i else xor_span ?bs ! (i - 2 ^ m) XOR ?g m)"
    using nth_xor_span_Cons [of i ?bs "?g m"] Suc.prems by simp
  show ?case
  proof (cases "i < 2 ^ m")
    case True
    then show ?thesis using Suc.IH split by simp
  next
    case False
    define r where "r = i - 2 ^ m"
    have r: "r < 2 ^ m" "i = r + 2 ^ m"
      using False Suc.prems by (auto simp: r_def)
    have "xor_span (map ?g (rev [0..<Suc m])) ! i = xor_span ?bs ! r XOR ?g m"
      using False split by (simp add: r_def)
    then show ?thesis
      by (simp only: Suc.IH [OF r(1)] r(2) of_nat_add_power_eq_xor [OF r(1)] push_bit_xor pow_xor)
  qed
qed

end

locale crc_step_inj = crc_step +
  assumes step_eq_0: "step x = 0 \<Longrightarrow> x = 0"
begin

lemma pow_inj: "(step ^^ n) x = (step ^^ n) y \<Longrightarrow> x = y"
proof (induction n)
  case 0
  then show ?case by simp
next
  case (Suc n)
  then have "step ((step ^^ n) x XOR (step ^^ n) y) = 0" by (simp add: step_xor)
  then have "(step ^^ n) x XOR (step ^^ n) y = 0" by (rule step_eq_0)
  then have "(step ^^ n) x = (step ^^ n) y" by (rule xor_eq_0D)
  then show ?case by (rule Suc.IH)
qed

end

section \<open>Table-driven equals bit by bit\<close>

interpretation crc32_step: crc_step_inj crc32_bit
proof unfold_locales
  show "crc32_bit (x XOR y) = crc32_bit x XOR crc32_bit y" for x y
    by (auto simp: crc32_bit_def bit_xor_iff ac_simps)
next
  fix x assume eq: "crc32_bit x = 0"
  have "bit (crc32_bit x) 31 = bit x 0"
    using bit_imp_le_length [of x 32] by (auto simp: crc32_bit_def bit_simps)
  with eq have "\<not> bit x 0" by simp
  with eq have "drop_bit 1 x = 0" "\<not> bit x 0" by (simp_all add: crc32_bit_def)
  then show "x = 0"
    by (metis bit_0 bits_ident drop_bit_0 even_iff_mod_2_eq_zero mod_eq_self_iff_div_eq_0 
      push_bit_of_0 take_bit_Suc_0 take_bit_eq_0_iff add_cancel_right_right One_nat_def)
qed

interpretation crc16_step: crc_step crc16_bit
  by unfold_locales (auto simp: crc16_bit_def bit_xor_iff push_bit_xor ac_simps)

interpretation crc8_msb_step: crc_step crc8_msb_bit
  by unfold_locales (auto simp: crc8_msb_bit_def bit_xor_iff push_bit_xor ac_simps)

lemma funpow_8: "(f ^^ 8) x = f (f (f (f (f (f (f (f x)))))))"
  by (simp add: numeral_eq_Suc)

lemma rev_upt_8: "rev [0..<8] = [7, 6, 5, 4, 3, 2, 1, 0 :: nat]"
  by (simp add: upt_rec)

lemma crc32_table_span:
  "crc32_table = xor_span (map (\<lambda>k. (crc32_bit ^^ 8) (push_bit 0 (2 ^ k))) (rev [0..<8]))"
proof -
  have "map (\<lambda>k. (crc32_bit ^^ 8) (push_bit 0 (2 ^ k))) (rev [0..<8])
      = [0xedb88320, 0x76dc4190, 0x3b6e20c8, 0x1db71064,
         0x0edb8832, 0x076dc419, 0xee0e612c, 0x77073096]"
    unfolding rev_upt_8 funpow_8 by (simp add: crc32_bit_def)
  then show ?thesis by (simp add: crc32_table_def)
qed

lemma crc16_table_span:
  "crc16_table = xor_span (map (\<lambda>k. (crc16_bit ^^ 8) (push_bit 8 (2 ^ k))) (rev [0..<8]))"
proof -
  have "map (\<lambda>k. (crc16_bit ^^ 8) (push_bit 8 (2 ^ k))) (rev [0..<8])
      = [0x9188, 0x48c4, 0x2462, 0x1231, 0x8108, 0x4084, 0x2042, 0x1021]"
    unfolding rev_upt_8 funpow_8 by (simp add: crc16_bit_def)
  then show ?thesis by (simp add: crc16_table_def)
qed

lemma crc8tab_msb_span:
  "crc8tab_msb = xor_span (map (\<lambda>k. (crc8_msb_bit ^^ 8) (push_bit 0 (2 ^ k))) (rev [0..<8]))"
proof -
  have "map (\<lambda>k. (crc8_msb_bit ^^ 8) (push_bit 0 (2 ^ k))) (rev [0..<8])
      = [0x7a, 0x3d, 0x86, 0x43, 0xb9, 0xc4, 0x62, 0x31]"
    unfolding rev_upt_8 funpow_8 by (simp add: crc8_msb_bit_def)
  then show ?thesis by (simp add: crc8tab_msb_def)
qed

lemma crc32_table_nth: "i < 256 \<Longrightarrow> crc32_table ! i = (crc32_bit ^^ 8) (of_nat i)"
  using crc32_step.span_pow [of i 8 8 0] by (simp add: crc32_table_span)

lemma crc16_table_nth: "i < 256 \<Longrightarrow> crc16_table ! i = (crc16_bit ^^ 8) (push_bit 8 (of_nat i))"
  using crc16_step.span_pow [of i 8 8 8] by (simp add: crc16_table_span)

lemma crc8tab_msb_nth: "i < 256 \<Longrightarrow> crc8tab_msb ! i = (crc8_msb_bit ^^ 8) (of_nat i)"
  using crc8_msb_step.span_pow [of i 8 8 0] by (simp add: crc8tab_msb_span)

text \<open>Shifting out zero bits is a plain shift.\<close>

lemma crc32_bit_even:
  assumes "take_bit (Suc n) x = 0"
  shows "crc32_bit x = drop_bit 1 x" "take_bit n (drop_bit 1 x) = 0"
proof -
  have zero: "\<not> bit x k" if "k < Suc n" for k
    using arg_cong [OF assms, of "\<lambda>w. bit w k"] that by (simp add: bit_take_bit_iff)
  show "crc32_bit x = drop_bit 1 x" using zero [of 0] by (simp add: crc32_bit_def)
  show "take_bit n (drop_bit 1 x) = 0" using zero by (auto simp: bit_eq_iff bit_simps)
qed

lemma crc32_pow_high: "take_bit n x = 0 \<Longrightarrow> (crc32_bit ^^ n) x = drop_bit n x"
proof (induction n arbitrary: x)
  case 0
  then show ?case by simp
next
  case (Suc n)
  have "(crc32_bit ^^ Suc n) x = (crc32_bit ^^ n) (crc32_bit x)" by (simp add: funpow_swap1)
  also have "\<dots> = drop_bit n (drop_bit 1 x)"
    using Suc.IH [of "drop_bit 1 x"] crc32_bit_even [OF Suc.prems] by simp
  finally show ?case by (simp add: drop_bit_drop_bit)
qed

lemma and_FF: "x AND (0xFF :: 'a::len word) = take_bit 8 x"
  by (simp add: take_bit_eq_mask mask_eq_exp_minus_1)

lemma unat_take_bit_8: "unat (take_bit 8 (x :: 'a::len word)) < 256"
  using take_bit_nat_less_exp [of 8 "unat x"] by (simp add: unsigned_take_bit_eq)

lemma split_bits: "x = push_bit n (drop_bit n x) XOR take_bit n (x :: 'a::len word)"
  by (auto simp: bit_eq_iff bit_simps)

lemma crc32_byte_table:
  "drop_bit 8 crc XOR crc32_table ! unat ((crc XOR ucast b) AND 0xFF) = crc32_byte crc b"
proof -
  let ?x = "crc XOR ucast b"
  have "(crc32_bit ^^ 8) ?x
      = (crc32_bit ^^ 8) (push_bit 8 (drop_bit 8 ?x)) XOR (crc32_bit ^^ 8) (take_bit 8 ?x)"
    using split_bits [of ?x 8] crc32_step.pow_xor by metis
  moreover have "(crc32_bit ^^ 8) (push_bit 8 (drop_bit 8 ?x)) = drop_bit 8 (push_bit 8 (drop_bit 8 ?x))"
    by (rule crc32_pow_high) (simp add: bit_eq_iff bit_simps)
  moreover have "drop_bit 8 (push_bit 8 (drop_bit 8 ?x)) = drop_bit 8 crc"
    by (auto simp: bit_eq_iff bit_simps dest: bit_imp_le_length)
  ultimately show ?thesis
    using crc32_table_nth [OF unat_take_bit_8 [of ?x]] by (simp add: crc32_byte_def and_FF)
qed

lemma crc32_update_spec: "crc32_update crc buf = foldl crc32_byte crc buf"
  by (induction crc buf rule: crc32_update.induct) (simp_all add: crc32_byte_table)

lemma crc32_eq_spec: "crc32 buf = crc32_spec buf"
proof -
  have ones: "(0xFFFFFFFF :: u32) = - 1" by simp
  have "(x :: u32) XOR - 1 = NOT x" for x by (auto simp: bit_eq_iff bit_simps)
  then show ?thesis
    by (simp only: crc32_def crc32_final_def crc32_init_def crc32_spec_def crc32_update_spec ones)
qed

lemma crc16_pow_low: "drop_bit (16 - n) x = 0 \<Longrightarrow> n \<le> 16 \<Longrightarrow> (crc16_bit ^^ n) x = push_bit n x"
proof (induction n arbitrary: x)
  case 0
  then show ?case by simp
next
  case (Suc n)
  have zero: "\<not> bit x k" if "15 - n \<le> k" for k
    using arg_cong [OF Suc.prems(1), of "\<lambda>w. bit w (k - (15 - n))"] that Suc.prems(2)
    by (simp add: bit_drop_bit_eq)
  have x: "crc16_bit x = push_bit 1 x" using zero [of 15] by (simp add: crc16_bit_def)
  have "drop_bit (16 - n) (push_bit 1 x) = 0"
  proof (rule bit_word_eqI)
    fix k
    show "bit (drop_bit (16 - n) (push_bit 1 x)) k = bit (0 :: u16) k"
      using zero [of "16 - n + k - 1"] Suc.prems(2) by (simp only: bit_drop_bit_eq bit_push_bit_iff comp_def) simp
  qed
  then have "(crc16_bit ^^ n) (push_bit 1 x) = push_bit n (push_bit 1 x)"
    using Suc.IH Suc.prems(2) by simp
  then show ?case by (simp add: funpow_swap1 x push_bit_push_bit)
qed

lemma crc16_byte_table:
  "push_bit 8 crc XOR crc16_table ! unat ((drop_bit 8 crc XOR ucast b) AND 0xFF) = crc16_byte crc b"
proof -
  define x where "x = crc XOR push_bit 8 (ucast b)"
  have idx: "(drop_bit 8 crc XOR ucast b) AND 0xFF = drop_bit 8 x"
    by (auto simp: x_def and_FF bit_eq_iff bit_simps dest: bit_imp_le_length)
  then have lo: "unat (drop_bit 8 x) < 256"
    using unat_take_bit_8 [of "drop_bit 8 crc XOR ucast b"] by (simp add: and_FF)
  have "(crc16_bit ^^ 8) x
      = (crc16_bit ^^ 8) (push_bit 8 (drop_bit 8 x)) XOR (crc16_bit ^^ 8) (take_bit 8 x)"
    using split_bits [of x 8] crc16_step.pow_xor by metis
  moreover have "(crc16_bit ^^ 8) (take_bit 8 x) = push_bit 8 (take_bit 8 x)"
    by (rule crc16_pow_low) (simp_all add: bit_eq_iff bit_simps)
  moreover have "push_bit 8 (take_bit 8 x) = push_bit 8 crc"
    by (auto simp: x_def bit_eq_iff bit_simps)
  ultimately show ?thesis
    using crc16_table_nth [OF lo, unfolded of_nat_unat ucast_id] xor.commute
    unfolding crc16_byte_def idx x_def [symmetric] by metis
qed

lemma crc16_eq_spec: "crc16 buf = crc16_spec buf"
proof -
  have "crc16_loop crc buf = foldl crc16_byte crc buf" for crc
    by (induction crc buf rule: crc16_loop.induct) (simp_all add: crc16_byte_table)
  then show ?thesis by (simp add: crc16_def crc16_spec_def)
qed

lemma crc8_msb_eq_spec: "crc8_msb buf = crc8_msb_spec buf"
proof -
  have "crc8tab_msb ! unat (x :: u8) = (crc8_msb_bit ^^ 8) x" for x
    using crc8tab_msb_nth [of "unat x"] unsigned_less [of x] by simp
  then show ?thesis by (simp add: crc8_msb_def crc8_msb_spec_def)
qed

section \<open>What CRC-32 detects\<close>

text \<open>Four bytes at a time: the state after four bytes is 32 division steps on the state mixed with
  the bytes as one little-endian word.\<close>

lemma crc32_word:
  "foldl crc32_byte crc [b0, b1, b2, b3] = (crc32_bit ^^ 32) (crc XOR le32 [b0, b1, b2, b3])"
proof -
  let ?s = "\<lambda>n x. (crc32_bit ^^ n) x"
  have hi: "?s n (push_bit n x) = x" if "drop_bit (32 - n) x = 0" "n \<le> 32" for n and x :: u32
  proof -
    have "?s n (push_bit n x) = drop_bit n (push_bit n x)"
      by (rule crc32_pow_high) (simp add: bit_eq_iff bit_simps)
    also have "\<dots> = x"
    proof (rule bit_word_eqI)
      fix k assume "k < LENGTH(32)"
      have "\<not> bit x k" if "32 - n \<le> k"
        using arg_cong [OF \<open>drop_bit (32 - n) x = 0\<close>, of "\<lambda>w. bit w (k - (32 - n))"] that
        by (simp add: bit_drop_bit_eq)
      then have "bit x k \<Longrightarrow> n + k < 32" using \<open>n \<le> 32\<close> by (cases "32 - n \<le> k") auto
      then show "bit (drop_bit n (push_bit n x)) k = bit x k"
        by (auto simp: bit_simps)
    qed
    finally show ?thesis .
  qed
  have mix: "?s n x XOR ucast b = ?s n (x XOR push_bit n (ucast (b :: u8)))" if "n \<le> 24" for n x b
  proof -
    have "drop_bit (32 - n) (ucast b :: u32) = 0"
      using that by (auto simp: bit_eq_iff bit_simps dest!: bit_imp_le_length)
    then show ?thesis using hi [of n "ucast b"] that by (simp add: crc32_step.pow_xor)
  qed
  have "foldl crc32_byte crc [b0, b1, b2, b3]
      = ?s 8 (?s 8 (?s 8 (?s 8 (crc XOR ucast b0) XOR ucast b1) XOR ucast b2) XOR ucast b3)"
    by (simp add: crc32_byte_def)
  also have "\<dots> = ?s 32 (crc XOR ucast b0 XOR push_bit 8 (ucast b1) XOR push_bit 16 (ucast b2)
      XOR push_bit 24 (ucast b3))"
    by (simp add: mix xor.assoc flip: funpow_add [THEN fun_cong, unfolded o_def])
  also have "crc XOR ucast b0 XOR push_bit 8 (ucast b1) XOR push_bit 16 (ucast b2)
      XOR push_bit 24 (ucast b3) = crc XOR le32 [b0, b1, b2, b3]"
    by (auto simp: le32_def bit_eq_iff bit_simps dest: bit_imp_le_length)
  finally show ?thesis .
qed

lemma crc32_byte_inj: "crc32_byte x b = crc32_byte y b \<Longrightarrow> x = y"
proof -
  assume "crc32_byte x b = crc32_byte y b"
  then have "x XOR ucast b = y XOR ucast b" unfolding crc32_byte_def by (rule crc32_step.pow_inj)
  then have "(x XOR ucast b) XOR ucast b = (y XOR ucast b) XOR ucast b" by (rule arg_cong)
  then show "x = y" by (simp only: xor.assoc xor_self_eq xor.right_neutral)
qed

lemma crc32_foldl_inj: "foldl crc32_byte x bs = foldl crc32_byte y bs \<Longrightarrow> x = y"
  by (induction bs arbitrary: x y) (auto dest: crc32_byte_inj)

lemma crc32_spec_inj: "crc32_spec xs = crc32_spec ys \<Longrightarrow> foldl crc32_byte (- 1) xs = foldl crc32_byte (- 1) ys"
  by (simp add: crc32_spec_def)

lemma crc32_word_inj:
  assumes "length b = 4" "length c = 4" "foldl crc32_byte x b = foldl crc32_byte x c"
  shows "b = c"
proof -
  have word: "foldl crc32_byte x p = (crc32_bit ^^ 32) (x XOR le32 p)" if "length p = 4" for p
    using that crc32_word by (auto simp: numeral_eq_Suc length_Suc_conv simp del: foldl_Cons)
  then have "x XOR le32 b = x XOR le32 c"
    using assms by (auto intro: crc32_step.pow_inj)
  then have "x XOR (x XOR le32 b) = x XOR (x XOR le32 c)" by simp
  then have "le32 b = le32 c" by (simp flip: xor.assoc)
  then show ?thesis using le32_bytes_le32 assms by metis
qed

section \<open>The least-significant-bit-first CRC-8 table\<close>

text \<open>The table has 256 entries but its initialiser lists 248: by the rules of C the last eight are zero.
  The listed ones are the reflected division steps; the first missing one is not zero in the reference.\<close>

lemma crc8_lsb_tail: "crc8_lsb [0xF8] = 0"
  by (simp add: crc8_lsb_def crc8tab_lsb_def nth_append)

lemma crc8_lsb_bit_tail: "(crc8_lsb_bit ^^ 8) 0xF8 \<noteq> 0"
  unfolding funpow_8 by (simp add: crc8_lsb_bit_def)

section \<open>Properties\<close>

text \<open>The table-driven CRC-32 that the flash store, the partition headers and the TLV area use is the
  reflected CRC-32 of the polynomial 0x04C11DB7: for every buffer it equals the division carried out one
  bit at a time, with the usual initial and final inversion.\<close>

theorem crc32_correct: "crc32 buf = NOT (foldl (\<lambda>crc b. (crc32_bit ^^ 8) (crc XOR ucast b)) (- 1) buf)"
  unfolding crc32_eq_spec crc32_spec_def crc32_byte_def ..

text \<open>CRC-32 detects every corruption confined to four consecutive bytes: two buffers that agree
  before and after a window of four bytes and have the same CRC-32 are equal.\<close>

theorem crc32_detects_burst:
  assumes "length b = 4" "length c = 4"
  shows "crc32 (pre @ b @ post) = crc32 (pre @ c @ post) \<longleftrightarrow> b = c"
proof
  assume "crc32 (pre @ b @ post) = crc32 (pre @ c @ post)"
  then have "foldl crc32_byte (- 1) (pre @ b @ post) = foldl crc32_byte (- 1) (pre @ c @ post)"
    unfolding crc32_eq_spec by (rule crc32_spec_inj)
  then have "foldl crc32_byte (foldl crc32_byte (- 1) pre) b
           = foldl crc32_byte (foldl crc32_byte (- 1) pre) c"
    unfolding foldl_append by (rule crc32_foldl_inj)
  then show "b = c" using crc32_word_inj assms by blast
qed simp

theorem crc32_detects_burst_witness:
  "crc32 ([7] @ [1, 2, 3, 4] @ [9]) = crc32 ([7] @ [1, 2, 3, 5] @ [9]) \<longleftrightarrow> [1, 2, 3, 4] = [1, 2, 3, 5 :: u8]"
  by (rule crc32_detects_burst) simp_all

text \<open>The table-driven CRC-16 of the XMODEM receiver equals the division by 0x1021 carried out one
  bit at a time, most significant bit first, from a zero register.\<close>

theorem crc16_correct: "crc16 buf = foldl (\<lambda>crc b. (crc16_bit ^^ 8) (crc XOR push_bit 8 (ucast b))) 0 buf"
  unfolding crc16_eq_spec crc16_spec_def crc16_byte_def ..

text \<open>The incremental interface composes: feeding a buffer in pieces through \<open>crc32_update\<close>, between
  \<open>crc32_init\<close> and \<open>crc32_final\<close>, gives the CRC-32 of the whole buffer.\<close>

theorem crc32_incremental: "crc32_final (foldl crc32_update crc32_init bufs) = crc32 (concat bufs)"
proof -
  have "foldl crc32_update crc bufs = crc32_update crc (concat bufs)" for crc
    by (induction bufs arbitrary: crc) (simp_all add: crc32_update_spec)
  then show ?thesis by (simp add: crc32_def)
qed

text \<open>The least-significant-bit-first CRC-8 is wrong for the inputs its table lacks: the byte 0xF8 has
  the checksum 0, the same as the empty buffer, and not the value of the division.\<close>

theorem crc8_lsb_missing_entries:
  "crc8_lsb [0xF8] = crc8_lsb [] \<and> crc8_lsb [0xF8] \<noteq> (crc8_lsb_bit ^^ 8) 0xF8"
  using crc8_lsb_tail crc8_lsb_bit_tail by (simp add: crc8_lsb_def)

end
