(* ===== verification/Ring_Buffer.thy ===== *)
theory Ring_Buffer
  imports Prelude "HOL-Library.Sublist"
begin

text \<open>
  The byte FIFO of \<open>src/src/platform/misc/ring_buffer\<close>: a power-of-two array with two free-running
  32-bit cursors. \<open>byte_fifo\<close> is the contract of a bounded FIFO; the ring buffer is shown to satisfy it
  across the wrap-around of the cursors. The last section splits the two operations into the stores they
  perform and interleaves a producer with a consumer in every possible way, as the task and the interrupt
  handler that share a buffer do.
\<close>

section \<open>The buffer and its operations\<close>

record ringbuf =
  rb_data :: bytes
  rb_mask :: u32
  rb_in   :: u32
  rb_out  :: u32

text \<open>\<open>RINGBUF_DECLARE(name, capacity)\<close>\<close>

definition ringbuf_declare :: "u32 \<Rightarrow> ringbuf" where
  "ringbuf_declare capacity =
     \<lparr>rb_data = replicate (unat capacity) 0, rb_mask = capacity - 1, rb_in = 0, rb_out = 0\<rparr>"

definition ringbuf_count :: "ringbuf \<Rightarrow> u32" where
  "ringbuf_count rb = rb_in rb - rb_out rb"

definition ringbuf_capacity :: "ringbuf \<Rightarrow> u32" where
  "ringbuf_capacity rb = rb_mask rb + 1"

definition ringbuf_is_empty :: "ringbuf \<Rightarrow> bool" where
  "ringbuf_is_empty rb \<longleftrightarrow> rb_in rb = rb_out rb"

definition ringbuf_is_full :: "ringbuf \<Rightarrow> bool" where
  "ringbuf_is_full rb \<longleftrightarrow> ringbuf_count rb > rb_mask rb"

text \<open>\<open>rb->data[in & rb->mask] = byte\<close>, and the single store that publishes the cursor.\<close>

definition rb_store :: "ringbuf \<Rightarrow> u32 \<Rightarrow> u8 \<Rightarrow> ringbuf" where
  "rb_store rb pos byte = rb\<lparr>rb_data := (rb_data rb)[unat (pos AND rb_mask rb) := byte]\<rparr>"

definition rb_load :: "ringbuf \<Rightarrow> u32 \<Rightarrow> u8" where
  "rb_load rb pos = rb_data rb ! unat (pos AND rb_mask rb)"

definition ringbuf_put_byte :: "ringbuf \<Rightarrow> u8 \<Rightarrow> bool \<times> ringbuf" where
  "ringbuf_put_byte rb byte =
     (if ringbuf_is_full rb then (False, rb)
      else (True, (rb_store rb (rb_in rb) byte)\<lparr>rb_in := rb_in rb + 1\<rparr>))"

definition ringbuf_get_byte :: "ringbuf \<Rightarrow> (u8 \<times> ringbuf) option" where
  "ringbuf_get_byte rb =
     (if ringbuf_is_empty rb then None
      else Some (rb_load rb (rb_out rb), rb\<lparr>rb_out := rb_out rb + 1\<rparr>))"

definition ringbuf_get_char :: "ringbuf \<Rightarrow> int \<times> ringbuf" where
  "ringbuf_get_char rb =
     (case ringbuf_get_byte rb of None \<Rightarrow> (- 1, rb) | Some (byte, rb') \<Rightarrow> (uint byte, rb'))"

section \<open>The contract of a bounded FIFO\<close>

text \<open>A producer that offers a list of bytes until one is refused, and a consumer that takes up to \<open>n\<close>.\<close>

fun put_list :: "('s \<Rightarrow> 'a \<Rightarrow> bool \<times> 's) \<Rightarrow> 's \<Rightarrow> 'a list \<Rightarrow> nat \<times> 's" where
  "put_list put s [] = (0, s)"
| "put_list put s (x # xs) =
     (case put s x of
        (False, s') \<Rightarrow> (0, s')
      | (True, s') \<Rightarrow> (case put_list put s' xs of (n, s'') \<Rightarrow> (Suc n, s'')))"

fun get_list :: "('s \<Rightarrow> ('a \<times> 's) option) \<Rightarrow> 's \<Rightarrow> nat \<Rightarrow> 'a list \<times> 's" where
  "get_list get s 0 = ([], s)"
| "get_list get s (Suc n) =
     (case get s of
        None \<Rightarrow> ([], s)
      | Some (x, s') \<Rightarrow> (case get_list get s' n of (xs, s'') \<Rightarrow> (x # xs, s'')))"

locale byte_fifo =
  fixes put :: "'s \<Rightarrow> 'a \<Rightarrow> bool \<times> 's"
    and get :: "'s \<Rightarrow> ('a \<times> 's) option"
    and ok :: "'s \<Rightarrow> bool"
    and contents :: "'s \<Rightarrow> 'a list"
    and room :: "'s \<Rightarrow> nat"
  assumes put_full: "ok s \<Longrightarrow> room s = 0 \<Longrightarrow> put s x = (False, s)"
    and put_room: "ok s \<Longrightarrow> 0 < room s \<Longrightarrow>
      \<exists>s'. put s x = (True, s') \<and> ok s' \<and> contents s' = contents s @ [x] \<and> Suc (room s') = room s"
    and get_empty: "ok s \<Longrightarrow> contents s = [] \<Longrightarrow> get s = None"
    and get_some: "ok s \<Longrightarrow> contents s = x # xs \<Longrightarrow>
      \<exists>s'. get s = Some (x, s') \<and> ok s' \<and> contents s' = xs \<and> room s' = Suc (room s)"
begin

lemma put_list_accepts:
  "ok s \<Longrightarrow> \<exists>s'. put_list put s xs = (min (length xs) (room s), s') \<and> ok s'
     \<and> contents s' = contents s @ take (room s) xs \<and> room s' = room s - length xs"
proof (induction xs arbitrary: s)
  case Nil
  then show ?case by simp
next
  case (Cons x xs)
  show ?case
  proof (cases "room s")
    case 0
    then show ?thesis using put_full [OF Cons.prems] Cons.prems by simp
  next
    case (Suc r)
    then obtain s1 where s1: "put s x = (True, s1)" "ok s1" "contents s1 = contents s @ [x]" "room s1 = r"
      using put_room [OF Cons.prems, of x] by auto
    then show ?thesis using Cons.IH [OF s1(2)] Suc by auto
  qed
qed

lemma get_list_takes:
  "ok s \<Longrightarrow> \<exists>s'. get_list get s n = (take n (contents s), s') \<and> ok s'
     \<and> contents s' = drop n (contents s) \<and> room s' = room s + min n (length (contents s))"
proof (induction n arbitrary: s)
  case 0
  then show ?case by simp
next
  case (Suc n)
  show ?case
  proof (cases "contents s")
    case Nil
    then show ?thesis using get_empty [OF Suc.prems] Suc.prems by simp
  next
    case (Cons x xs)
    then obtain s1 where s1: "get s = Some (x, s1)" "ok s1" "contents s1 = xs" "room s1 = Suc (room s)"
      using get_some [OF Suc.prems] by blast
    then show ?thesis using Suc.IH [OF s1(2)] Cons by auto
  qed
qed

lemma put_list_get_list:
  assumes "ok s" "contents s = []" "length xs \<le> room s"
  shows "fst (get_list get (snd (put_list put s xs)) (length xs)) = xs"
proof -
  obtain s1 where s1: "put_list put s xs = (length xs, s1)" "ok s1" "contents s1 = xs"
    using put_list_accepts [OF assms(1), of xs] assms(2,3) by (auto simp: min_def)
  then show ?thesis using get_list_takes [OF s1(2), of "length xs"] by auto
qed

end

section \<open>Cursors and indices\<close>

definition rb_size :: "ringbuf \<Rightarrow> nat" where
  "rb_size rb = unat (rb_mask rb) + 1"

definition ringbuf_ok :: "ringbuf \<Rightarrow> bool" where
  "ringbuf_ok rb \<longleftrightarrow> (\<exists>k \<in> {..<32}. rb_size rb = 2 ^ k) \<and> length (rb_data rb) = rb_size rb
     \<and> unat (ringbuf_count rb) \<le> rb_size rb"

definition rb_contents :: "ringbuf \<Rightarrow> bytes" where
  "rb_contents rb = map (\<lambda>i. rb_load rb (rb_out rb + of_nat i)) [0..<unat (ringbuf_count rb)]"

definition rb_room :: "ringbuf \<Rightarrow> nat" where
  "rb_room rb = rb_size rb - unat (ringbuf_count rb)"

lemma length_rb_contents [simp]: "length (rb_contents rb) = unat (ringbuf_count rb)"
  by (simp add: rb_contents_def)

lemma unat_and_mask:
  fixes x m :: u32
  assumes "unat m + 1 = 2 ^ k" "k < 32"
  shows "unat (x AND m) = unat x mod 2 ^ k"
proof -
  have "m = of_nat (2 ^ k - 1)" using assms(1) by (metis add_diff_cancel_right' of_nat_unat ucast_id)
  then have "m = mask k" by (simp add: mask_eq_exp_minus_1 of_nat_diff)
  then have "x AND m = take_bit k x" by (simp add: take_bit_eq_mask)
  then show ?thesis by (simp only: unat_take_bit)
qed

lemma unat_cursor_mod:
  fixes x :: u32
  assumes "k < 32"
  shows "unat (x + of_nat i) mod 2 ^ k = (unat x + i) mod 2 ^ k"
proof -
  have "unat (x + of_nat i) = (unat x + i) mod 2 ^ 32"
    by (simp add: unat_word_ariths(1) unat_of_nat mod_add_right_eq)
  moreover have "(2 ^ k :: nat) dvd 2 ^ 32" using assms by (intro le_imp_power_dvd) simp
  ultimately show ?thesis by (simp add: mod_mod_cancel)
qed

lemma rb_index:
  assumes "ringbuf_ok rb"
  shows "unat ((x + of_nat i) AND rb_mask rb) = (unat x + i) mod rb_size rb"
  using assms unat_and_mask [of "rb_mask rb"] unat_cursor_mod [of _ x i]
  by (auto simp: ringbuf_ok_def rb_size_def)

lemma rb_index_0: "ringbuf_ok rb \<Longrightarrow> unat (x AND rb_mask rb) = unat x mod rb_size rb"
  using rb_index [of rb x 0] by simp

lemma rb_index_less: "ringbuf_ok rb \<Longrightarrow> unat (x AND rb_mask rb) < length (rb_data rb)"
  by (simp add: rb_index_0 ringbuf_ok_def) (simp add: rb_size_def)

lemma mod_add_inj:
  fixes a i j n :: nat
  assumes "i < n" "j < n" "(a + i) mod n = (a + j) mod n"
  shows "i = j"
proof -
  have "u = v" if "u \<le> v" "v < n" "(a + v) mod n = (a + u) mod n" for u v
  proof -
    have "n dvd (a + v) - (a + u)" using that mod_eq_dvd_iff_nat [of "a + u" "a + v" n] by simp
    then show ?thesis using that dvd_imp_le [of n "v - u"] by (cases "v = u") auto
  qed
  then show ?thesis using assms by (metis nat_le_linear)
qed

lemma unat_in: "unat (rb_in rb) mod 2 ^ k = (unat (rb_out rb) + unat (ringbuf_count rb)) mod 2 ^ k" if "k < 32"
  using unat_cursor_mod [OF that, of "rb_out rb" "unat (ringbuf_count rb)"]
  by (simp add: ringbuf_count_def)

lemma rb_index_in:
  "ringbuf_ok rb \<Longrightarrow>
   unat (rb_in rb AND rb_mask rb) = (unat (rb_out rb) + unat (ringbuf_count rb)) mod rb_size rb"
  using rb_index [of rb "rb_out rb" "unat (ringbuf_count rb)"] by (simp add: ringbuf_count_def)

text \<open>A store at the write cursor of a buffer that is not full touches no byte of its contents.\<close>

lemma rb_load_store_other:
  assumes "ringbuf_ok rb" "i < unat (ringbuf_count rb)" "unat (ringbuf_count rb) < rb_size rb"
  shows "rb_load (rb_store rb (rb_in rb) b) (rb_out rb + of_nat i) = rb_load rb (rb_out rb + of_nat i)"
proof -
  have "unat (rb_in rb AND rb_mask rb) \<noteq> unat ((rb_out rb + of_nat i) AND rb_mask rb)"
    using assms mod_add_inj [of i "rb_size rb" "unat (ringbuf_count rb)" "unat (rb_out rb)"]
    unfolding rb_index [OF assms(1)] rb_index_in [OF assms(1)] by auto
  then show ?thesis by (simp add: rb_load_def rb_store_def)
qed

lemma rb_load_store_same:
  "ringbuf_ok rb \<Longrightarrow> rb_load (rb_store rb x b) x = b"
  using rb_index_less by (simp add: rb_load_def rb_store_def)

lemma rb_store_simps [simp]:
  "rb_in (rb_store rb x b) = rb_in rb" "rb_out (rb_store rb x b) = rb_out rb"
  "rb_mask (rb_store rb x b) = rb_mask rb" "rb_size (rb_store rb x b) = rb_size rb"
  "ringbuf_count (rb_store rb x b) = ringbuf_count rb"
  "ringbuf_ok (rb_store rb x b) \<longleftrightarrow> ringbuf_ok rb"
  by (simp_all add: rb_store_def rb_size_def ringbuf_count_def ringbuf_ok_def)

lemma rb_contents_store:
  "ringbuf_ok rb \<Longrightarrow> unat (ringbuf_count rb) < rb_size rb \<Longrightarrow>
   rb_contents (rb_store rb (rb_in rb) b) = rb_contents rb"
  by (auto simp: rb_contents_def rb_load_store_other)

lemma ringbuf_is_full_iff: "ringbuf_is_full rb \<longleftrightarrow> rb_size rb \<le> unat (ringbuf_count rb)"
  by (auto simp: ringbuf_is_full_def rb_size_def word_less_nat_alt)

lemma ringbuf_is_empty_iff: "ringbuf_is_empty rb \<longleftrightarrow> unat (ringbuf_count rb) = 0"
  by (simp only: ringbuf_is_empty_def ringbuf_count_def unat_eq_0 right_minus_eq)

lemma rb_size_bound: "ringbuf_ok rb \<Longrightarrow> rb_size rb < 2 ^ 32"
proof -
  assume "ringbuf_ok rb"
  then obtain k where "k < 32" "rb_size rb = 2 ^ k" by (auto simp: ringbuf_ok_def)
  then show ?thesis using power_strict_increasing [of k 32 "2 :: nat"] by simp
qed

text \<open>Publishing a cursor.\<close>

lemma rb_publish_in:
  assumes "ringbuf_ok rb" "unat (ringbuf_count rb) < rb_size rb"
  shows "ringbuf_ok (rb\<lparr>rb_in := rb_in rb + 1\<rparr>)"
    and "unat (ringbuf_count (rb\<lparr>rb_in := rb_in rb + 1\<rparr>)) = Suc (unat (ringbuf_count rb))"
    and "rb_contents (rb\<lparr>rb_in := rb_in rb + 1\<rparr>) = rb_contents rb @ [rb_load rb (rb_in rb)]"
proof -
  let ?rb = "rb\<lparr>rb_in := rb_in rb + 1\<rparr>"
  have "ringbuf_count ?rb = ringbuf_count rb + 1" by (simp add: ringbuf_count_def)
  moreover have "unat (ringbuf_count rb) + 1 < 2 ^ 32" using assms rb_size_bound by fastforce
  ultimately show n: "unat (ringbuf_count ?rb) = Suc (unat (ringbuf_count rb))"
    by (simp add: unat_word_ariths(1))
  show "ringbuf_ok ?rb" using assms n by (auto simp: ringbuf_ok_def rb_size_def)
  have "rb_load ?rb x = rb_load rb x" for x by (simp add: rb_load_def)
  then show "rb_contents ?rb = rb_contents rb @ [rb_load rb (rb_in rb)]"
    by (simp add: rb_contents_def n) (simp add: ringbuf_count_def)
qed

lemma rb_publish_out:
  assumes "ringbuf_ok rb" "0 < unat (ringbuf_count rb)"
  shows "ringbuf_ok (rb\<lparr>rb_out := rb_out rb + 1\<rparr>)"
    and "Suc (unat (ringbuf_count (rb\<lparr>rb_out := rb_out rb + 1\<rparr>))) = unat (ringbuf_count rb)"
    and "rb_contents rb = rb_load rb (rb_out rb) # rb_contents (rb\<lparr>rb_out := rb_out rb + 1\<rparr>)"
proof -
  let ?rb = "rb\<lparr>rb_out := rb_out rb + 1\<rparr>"
  have "ringbuf_count ?rb = ringbuf_count rb - 1" by (simp add: ringbuf_count_def)
  moreover have "unat (ringbuf_count rb - 1) = unat (ringbuf_count rb) - 1"
    using assms(2) by (intro unat_minus_one) auto
  ultimately show n: "Suc (unat (ringbuf_count ?rb)) = unat (ringbuf_count rb)"
    using assms(2) by simp
  show "ringbuf_ok ?rb" using assms n by (auto simp: ringbuf_ok_def rb_size_def)
  have "rb_load ?rb x = rb_load rb x" for x by (simp add: rb_load_def)
  then show "rb_contents rb = rb_load rb (rb_out rb) # rb_contents ?rb"
    by (simp add: rb_contents_def n [symmetric] map_upt_Suc add.assoc del: upt_Suc)
qed

interpretation ring: byte_fifo ringbuf_put_byte ringbuf_get_byte ringbuf_ok rb_contents rb_room
proof unfold_locales
  fix rb x assume "ringbuf_ok rb" "rb_room rb = 0"
  then show "ringbuf_put_byte rb x = (False, rb)"
    by (simp add: ringbuf_put_byte_def ringbuf_is_full_iff rb_room_def)
next
  fix rb x assume ok: "ringbuf_ok rb" "0 < rb_room rb"
  define st where "st = rb_store rb (rb_in rb) x"
  have st: "ringbuf_ok st" "unat (ringbuf_count st) < rb_size st" "rb_in st = rb_in rb"
    "rb_contents st = rb_contents rb" "rb_load st (rb_in rb) = x" "ringbuf_count st = ringbuf_count rb"
    "rb_size st = rb_size rb"
    using ok by (auto simp: st_def rb_room_def rb_contents_store rb_load_store_same)
  show "\<exists>s'. ringbuf_put_byte rb x = (True, s') \<and> ringbuf_ok s' \<and> rb_contents s' = rb_contents rb @ [x]
          \<and> Suc (rb_room s') = rb_room rb"
    using ok st rb_publish_in [OF st(1,2)]
    by (auto simp: ringbuf_put_byte_def ringbuf_is_full_iff rb_room_def rb_size_def st_def)
next
  fix rb :: ringbuf assume "ringbuf_ok rb" "rb_contents rb = []"
  then have "unat (ringbuf_count rb) = 0" by (metis length_rb_contents list.size(3))
  then show "ringbuf_get_byte rb = None"
    by (simp add: ringbuf_get_byte_def ringbuf_is_empty_iff)
next
  fix rb x xs assume ok: "ringbuf_ok rb" "rb_contents rb = x # xs"
  then have "0 < unat (ringbuf_count rb)" by (metis length_rb_contents length_greater_0_conv list.distinct(1))
  then show "\<exists>s'. ringbuf_get_byte rb = Some (x, s') \<and> ringbuf_ok s' \<and> rb_contents s' = xs
          \<and> rb_room s' = Suc (rb_room rb)"
    using ok rb_publish_out [OF ok(1)]
    by (auto simp: ringbuf_get_byte_def ringbuf_is_empty_iff rb_room_def rb_size_def ringbuf_ok_def)
qed

lemma ringbuf_declare_ok:
  assumes "unat capacity = 2 ^ k" "k < 32"
  shows "ringbuf_ok (ringbuf_declare capacity)" "rb_contents (ringbuf_declare capacity) = []"
    "rb_room (ringbuf_declare capacity) = unat capacity"
proof -
  have "capacity \<noteq> 0" using assms(1) by auto
  then have "unat (capacity - 1) + 1 = unat capacity" using unat_minus_one [of capacity] assms(1) by auto
  then show "ringbuf_ok (ringbuf_declare capacity)" "rb_contents (ringbuf_declare capacity) = []"
    "rb_room (ringbuf_declare capacity) = unat capacity"
    using assms
    by (auto simp: ringbuf_ok_def ringbuf_declare_def rb_size_def ringbuf_count_def rb_contents_def rb_room_def)
qed

section \<open>One producer and one consumer, interleaved\<close>

text \<open>Where the producer stands inside \<open>ringbuf_put_byte\<close>: past the full check with its copy of \<open>in\<close>
  (\<open>PStore\<close>), past the store into \<open>data\<close> (\<open>PPublish\<close>); and the consumer inside \<open>ringbuf_get_byte\<close>.\<close>

datatype prod_pc = PIdle | PStore u32 u8 | PPublish u32 u8
datatype cons_pc = CIdle | CLoad u32 | CPublish u32 u8

record spsc =
  sp_rb   :: ringbuf
  sp_prod :: prod_pc
  sp_cons :: cons_pc
  sp_sent :: bytes
  sp_got  :: bytes

text \<open>The bytes \<open>put\<close> accepted and \<open>get\<close> returned are recorded in \<open>sp_sent\<close> and \<open>sp_got\<close>. A full buffer
  refuses a byte and an empty one yields none without any store, so those calls are no steps.\<close>

inductive spsc_step :: "spsc \<Rightarrow> spsc \<Rightarrow> bool" where
  put_check: "sp_prod s = PIdle \<Longrightarrow> \<not> ringbuf_is_full (sp_rb s) \<Longrightarrow>
    spsc_step s (s\<lparr>sp_prod := PStore (rb_in (sp_rb s)) b\<rparr>)"
| put_store: "sp_prod s = PStore pos b \<Longrightarrow>
    spsc_step s (s\<lparr>sp_rb := rb_store (sp_rb s) pos b, sp_prod := PPublish pos b\<rparr>)"
| put_publish: "sp_prod s = PPublish pos b \<Longrightarrow>
    spsc_step s (s\<lparr>sp_rb := (sp_rb s)\<lparr>rb_in := pos + 1\<rparr>, sp_prod := PIdle, sp_sent := sp_sent s @ [b]\<rparr>)"
| get_check: "sp_cons s = CIdle \<Longrightarrow> \<not> ringbuf_is_empty (sp_rb s) \<Longrightarrow>
    spsc_step s (s\<lparr>sp_cons := CLoad (rb_out (sp_rb s))\<rparr>)"
| get_load: "sp_cons s = CLoad pos \<Longrightarrow>
    spsc_step s (s\<lparr>sp_cons := CPublish pos (rb_load (sp_rb s) pos)\<rparr>)"
| get_publish: "sp_cons s = CPublish pos b \<Longrightarrow>
    spsc_step s (s\<lparr>sp_rb := (sp_rb s)\<lparr>rb_out := pos + 1\<rparr>, sp_cons := CIdle, sp_got := sp_got s @ [b]\<rparr>)"

fun prod_ok :: "ringbuf \<Rightarrow> prod_pc \<Rightarrow> bool" where
  "prod_ok rb PIdle \<longleftrightarrow> True"
| "prod_ok rb (PStore pos b) \<longleftrightarrow> pos = rb_in rb \<and> unat (ringbuf_count rb) < rb_size rb"
| "prod_ok rb (PPublish pos b) \<longleftrightarrow>
     pos = rb_in rb \<and> unat (ringbuf_count rb) < rb_size rb \<and> rb_load rb pos = b"

fun cons_ok :: "ringbuf \<Rightarrow> cons_pc \<Rightarrow> bool" where
  "cons_ok rb CIdle \<longleftrightarrow> True"
| "cons_ok rb (CLoad pos) \<longleftrightarrow> pos = rb_out rb \<and> 0 < unat (ringbuf_count rb)"
| "cons_ok rb (CPublish pos b) \<longleftrightarrow>
     pos = rb_out rb \<and> 0 < unat (ringbuf_count rb) \<and> rb_load rb pos = b"

definition spsc_inv :: "spsc \<Rightarrow> bool" where
  "spsc_inv s \<longleftrightarrow> ringbuf_ok (sp_rb s) \<and> prod_ok (sp_rb s) (sp_prod s) \<and> cons_ok (sp_rb s) (sp_cons s)
     \<and> sp_sent s = sp_got s @ rb_contents (sp_rb s)"

definition spsc_init :: "u32 \<Rightarrow> spsc" where
  "spsc_init capacity =
     \<lparr>sp_rb = ringbuf_declare capacity, sp_prod = PIdle, sp_cons = CIdle, sp_sent = [], sp_got = []\<rparr>"

lemma prod_ok_publish_out:
  assumes "ringbuf_ok rb" "0 < unat (ringbuf_count rb)" "prod_ok rb pc"
  shows "prod_ok (rb\<lparr>rb_out := rb_out rb + 1\<rparr>) pc"
  using assms(3) rb_publish_out(2) [OF assms(1,2)]
  by (cases pc) (auto simp: rb_size_def rb_load_def)

lemma cons_ok_publish_in:
  assumes "ringbuf_ok rb" "unat (ringbuf_count rb) < rb_size rb" "cons_ok rb pc"
  shows "cons_ok (rb\<lparr>rb_in := rb_in rb + 1\<rparr>) pc"
  using assms(3) rb_publish_in(2) [OF assms(1,2)]
  by (cases pc) (auto simp: rb_size_def rb_load_def)

lemma cons_ok_store:
  assumes "ringbuf_ok rb" "unat (ringbuf_count rb) < rb_size rb" "cons_ok rb pc"
  shows "cons_ok (rb_store rb (rb_in rb) b) pc"
  using assms(3) rb_load_store_other [OF assms(1) _ assms(2), of 0]
  by (cases pc) auto

lemma spsc_inv_step: "spsc_step s s' \<Longrightarrow> spsc_inv s \<Longrightarrow> spsc_inv s'"
proof (induction rule: spsc_step.induct)
  case (put_check s b)
  then show ?case by (auto simp: spsc_inv_def ringbuf_is_full_iff not_le)
next
  case (put_store s pos b)
  then show ?case
    by (auto simp: spsc_inv_def cons_ok_store rb_contents_store rb_load_store_same)
next
  case (put_publish s pos b)
  then show ?case
    by (auto simp: spsc_inv_def cons_ok_publish_in rb_publish_in)
next
  case (get_check s)
  then show ?case by (auto simp: spsc_inv_def ringbuf_is_empty_iff)
next
  case (get_load s pos)
  then show ?case by (auto simp: spsc_inv_def)
next
  case (get_publish s pos b)
  then show ?case
    using rb_publish_out [of "sp_rb s"] by (auto simp: spsc_inv_def prod_ok_publish_out)
qed

lemma spsc_inv_reachable: "spsc_step\<^sup>*\<^sup>* s s' \<Longrightarrow> spsc_inv s \<Longrightarrow> spsc_inv s'"
  by (induction rule: rtranclp_induct) (auto intro: spsc_inv_step)

lemma spsc_init_inv: "unat capacity = 2 ^ k \<Longrightarrow> k < 32 \<Longrightarrow> spsc_inv (spsc_init capacity)"
  using ringbuf_declare_ok by (simp add: spsc_inv_def spsc_init_def)

section \<open>Properties\<close>

text \<open>(C35) The ring buffer is a bounded FIFO, for every position of the free-running cursors: of the bytes
  offered it accepts as many as there is room for and reports how many, in order and behind what it holds;
  a reader then takes the oldest bytes first and leaves the rest.\<close>

theorem ringbuf_fifo:
  assumes "ringbuf_ok rb"
  shows "\<exists>rb1 rb2. put_list ringbuf_put_byte rb xs = (min (length xs) (rb_room rb), rb1)
     \<and> get_list ringbuf_get_byte rb1 n = (take n (rb_contents rb @ take (rb_room rb) xs), rb2)
     \<and> ringbuf_ok rb1 \<and> ringbuf_ok rb2
     \<and> rb_contents rb2 = drop n (rb_contents rb @ take (rb_room rb) xs)"
proof -
  obtain rb1 where rb1: "put_list ringbuf_put_byte rb xs = (min (length xs) (rb_room rb), rb1)" "ringbuf_ok rb1"
    "rb_contents rb1 = rb_contents rb @ take (rb_room rb) xs"
    using ring.put_list_accepts [OF assms, of xs] by blast
  then show ?thesis using ring.get_list_takes [OF rb1(2), of n] by auto
qed

text \<open>The cursors of the witness are about to wrap: \<open>in\<close> has just overflowed to 1.\<close>

theorem ringbuf_fifo_witness:
  "\<exists>rb1 rb2. put_list ringbuf_put_byte
        \<lparr>rb_data = [1, 2, 3, 4], rb_mask = 3, rb_in = 1, rb_out = 0xFFFFFFFE\<rparr> [8, 9]
        = (min (length [8, 9 :: u8]) (rb_room \<lparr>rb_data = [1, 2, 3, 4], rb_mask = 3, rb_in = 1, rb_out = 0xFFFFFFFE\<rparr>), rb1)
     \<and> get_list ringbuf_get_byte rb1 3 = ([3, 4, 1], rb2)"
proof -
  let ?rb = "\<lparr>rb_data = [1, 2, 3, 4], rb_mask = 3, rb_in = 1, rb_out = 0xFFFFFFFE\<rparr>"
  have "ringbuf_ok ?rb"
    by (auto simp: ringbuf_ok_def rb_size_def ringbuf_count_def intro!: bexI [of _ 2])
  moreover have "rb_contents ?rb = [3, 4, 1]"
    by (simp add: rb_contents_def ringbuf_count_def rb_load_def upt_rec)
  ultimately show ?thesis
    using ringbuf_fifo [of ?rb "[8, 9]" 3] by auto
qed

text \<open>(C11) One producer and one consumer need no lock: however the stores of a \<open>ringbuf_put_byte\<close> and of a
  \<open>ringbuf_get_byte\<close> interleave, the bytes delivered are the bytes accepted, in order, and those not yet
  delivered are what the buffer holds.\<close>

theorem spsc_lock_free:
  assumes "unat capacity = 2 ^ k" "k < 32" "spsc_step\<^sup>*\<^sup>* (spsc_init capacity) s"
  shows "sp_sent s = sp_got s @ rb_contents (sp_rb s) \<and> prefix (sp_got s) (sp_sent s)
     \<and> unat (ringbuf_count (sp_rb s)) \<le> unat capacity"
proof -
  have inv: "spsc_inv s" using assms spsc_inv_reachable spsc_init_inv by blast
  have "rb_mask (sp_rb s) = capacity - 1"
    using assms(3)
  proof (induction rule: rtranclp_induct)
    case base
    then show ?case by (simp add: spsc_init_def ringbuf_declare_def)
  next
    case (step s s')
    show ?case using step.hyps(2) step.IH by (cases rule: spsc_step.cases) simp_all
  qed
  moreover have "capacity \<noteq> 0" using assms(1) by auto
  ultimately have "rb_size (sp_rb s) = unat capacity"
    using unat_minus_one [of capacity] assms(1) by (simp add: rb_size_def)
  then show ?thesis using inv by (auto simp: spsc_inv_def ringbuf_ok_def prefix_def)
qed

theorem spsc_lock_free_witness:
  "\<exists>s. spsc_step\<^sup>*\<^sup>* (spsc_init 2) s \<and> sp_sent s = [7] \<and> prefix (sp_got s) (sp_sent s)"
proof -
  let ?s0 = "spsc_init 2"
  define s1 where "s1 = ?s0\<lparr>sp_prod := PStore 0 7\<rparr>"
  define s2 where "s2 = s1\<lparr>sp_rb := rb_store (sp_rb s1) 0 7, sp_prod := PPublish 0 7\<rparr>"
  define s3 where "s3 = s2\<lparr>sp_rb := (sp_rb s2)\<lparr>rb_in := 0 + 1\<rparr>, sp_prod := PIdle, sp_sent := sp_sent s2 @ [7]\<rparr>"
  have "spsc_step ?s0 s1"
    using put_check [of ?s0 7]
    by (simp add: s1_def spsc_init_def ringbuf_declare_def ringbuf_is_full_def ringbuf_count_def)
  moreover have "spsc_step s1 s2" unfolding s2_def by (rule put_store) (simp add: s1_def)
  moreover have "spsc_step s2 s3" unfolding s3_def by (rule put_publish) (simp add: s2_def)
  ultimately have reach: "spsc_step\<^sup>*\<^sup>* ?s0 s3" 
    by (auto intro: converse_rtranclp_into_rtranclp)
  moreover have "sp_sent s3 = [7]" by (simp add: s3_def s2_def s1_def spsc_init_def)
  ultimately show ?thesis using spsc_lock_free [OF _ _ reach, of 1] by auto
qed

end
