(* ===== verification/Flash.thy ===== *)
theory Flash
  imports Prelude
begin

text \<open>
  The SPI flash driver of \<open>src/src/platform/drivers/hardware_flash/flash.c\<close>. The controller and the
  flash die behind it are hardware: the record \<open>platform\<close> holds the register accesses the driver makes, and
  the locale \<open>nor_flash\<close> states, over an abstract chip \<open>nor\<close>, what \<open>docs/hardware/flash.md\<close> says of them
  (READ fills the 8-word FIFO from an aligned 32-byte block, PP clears bits of one block and is suppressed
  while a block-protect bit is set, SE erases a 4 KB sector, WREN changes nothing the driver sees).
  Inside it the driver is shown to read bytes at any alignment, to write over erased bytes leaving every other
  byte alone, and to erase exactly one sector.
\<close>

section \<open>Registers\<close>

datatype flash_opcode =
    FLASH_WREN | FLASH_WRDI | FLASH_RDSR | FLASH_WRSR | FLASH_READ | FLASH_RDSR2 | FLASH_WRSR2
  | FLASH_PP | FLASH_SE | FLASH_BE1 | FLASH_BE2 | FLASH_CE | FLASH_DP | FLASH_RFDP
  | FLASH_RDID | FLASH_HPM | FLASH_CRMR | FLASH_CRMR2 | FLASH_RDSCR

fun opcode_value :: "flash_opcode \<Rightarrow> u32" where
  "opcode_value FLASH_WREN = 1"
| "opcode_value FLASH_WRDI = 2"
| "opcode_value FLASH_RDSR = 3"
| "opcode_value FLASH_WRSR = 4"
| "opcode_value FLASH_READ = 5"
| "opcode_value FLASH_RDSR2 = 6"
| "opcode_value FLASH_WRSR2 = 7"
| "opcode_value FLASH_PP = 12"
| "opcode_value FLASH_SE = 13"
| "opcode_value FLASH_BE1 = 14"
| "opcode_value FLASH_BE2 = 15"
| "opcode_value FLASH_CE = 16"
| "opcode_value FLASH_DP = 17"
| "opcode_value FLASH_RFDP = 18"
| "opcode_value FLASH_RDID = 20"
| "opcode_value FLASH_HPM = 21"
| "opcode_value FLASH_CRMR = 22"
| "opcode_value FLASH_CRMR2 = 23"
| "opcode_value FLASH_RDSCR = 28"

text \<open>
  What the firmware asks of its platform: \<open>pf_operate v\<close> stores \<open>v\<close> into \<open>operate_sw\<close> and polls \<open>busy\<close>
  until it clears, \<open>pf_push\<close> stores a word into the write FIFO, \<open>pf_pop\<close> loads one from the read FIFO,
  \<open>pf_sr\<close> and \<open>pf_jedec\<close> read the captured status byte and identification, \<open>pf_conf\<close> stores the
  configuration register, \<open>pf_wrsr_data\<close> and \<open>pf_m_value\<close> assign its fields, and \<open>pf_malloc n\<close> tells whether
  an allocation of \<open>n\<close> bytes succeeds.
\<close>

record 'h platform =
  pf_operate   :: "u32 \<Rightarrow> 'h \<Rightarrow> 'h"
  pf_push      :: "u32 \<Rightarrow> 'h \<Rightarrow> 'h"
  pf_pop       :: "'h \<Rightarrow> u32 \<times> 'h"
  pf_sr        :: "'h \<Rightarrow> u8"
  pf_jedec     :: "'h \<Rightarrow> u32"
  pf_conf      :: "u32 \<Rightarrow> 'h \<Rightarrow> 'h"
  pf_wrsr_data :: "u16 \<Rightarrow> 'h \<Rightarrow> 'h"
  pf_m_value   :: "u8 \<Rightarrow> 'h \<Rightarrow> 'h"
  pf_malloc    :: "nat \<Rightarrow> 'h \<Rightarrow> bool \<times> 'h"

text \<open>The bit fields of \<open>operate_sw\<close>: \<open>addr\<close> keeps 24 bits, \<open>op_type_sw\<close> 5, then \<open>op_sw\<close> and \<open>wp\<close>.\<close>

definition operate_word :: "u32 \<Rightarrow> flash_opcode \<Rightarrow> u32" where
  "operate_word addr opc =
     take_bit 24 addr OR push_bit 24 (take_bit 5 (opcode_value opc)) OR push_bit 29 1 OR push_bit 30 1"

definition trigger :: "'h platform \<Rightarrow> u32 \<Rightarrow> flash_opcode \<Rightarrow> 'h \<Rightarrow> 'h" where
  "trigger pf addr opc h = pf_operate pf (operate_word addr opc) h"

definition wren :: "'h platform \<Rightarrow> 'h \<Rightarrow> 'h" where
  "wren pf h = trigger pf 0 FLASH_WREN h"

text \<open>\<open>hw_write_fields(conf, .clk_conf = 5, .model_sel = 1, .crc_en = 1)\<close> is the word with 5 in the bits
  3..0, 1 in the bits 8..4 and 1 in the bit 26.\<close>

definition flash_init :: "'h platform \<Rightarrow> 'h \<Rightarrow> 'h" where
  "flash_init pf h =
     (let h = trigger pf 0 FLASH_RDID h;
          h = pf_conf pf (5 OR push_bit 4 1 OR push_bit 26 1) h
      in pf_m_value pf 0xA5 h)"

definition flash_id :: "'h platform \<Rightarrow> 'h \<Rightarrow> u32" where
  "flash_id pf h = pf_jedec pf h"

section \<open>Blocks\<close>

fun push_words :: "'h platform \<Rightarrow> u32 list \<Rightarrow> 'h \<Rightarrow> 'h" where
  "push_words pf [] h = h"
| "push_words pf (w # ws) h = push_words pf ws (pf_push pf w h)"

fun pop_words :: "'h platform \<Rightarrow> nat \<Rightarrow> 'h \<Rightarrow> u32 list \<times> 'h" where
  "pop_words pf 0 h = ([], h)"
| "pop_words pf (Suc n) h =
     (let (w, h) = pf_pop pf h; (ws, h) = pop_words pf n h in (w # ws, h))"

text \<open>A block buffer is an array of eight words, little-endian in memory.\<close>

definition words_bytes :: "u32 list \<Rightarrow> bytes" where
  "words_bytes ws = concat (map le32_bytes ws)"

definition bytes_words :: "bytes \<Rightarrow> u32 list" where
  "bytes_words buf = map (\<lambda>i. le32 (slice (4 * i) 4 buf)) [0..<8]"

definition write_block :: "'h platform \<Rightarrow> u32 \<Rightarrow> u32 list \<Rightarrow> 'h \<Rightarrow> 'h" where
  "write_block pf aligned_addr ws h =
     (let h = wren pf h; h = push_words pf ws h in trigger pf aligned_addr FLASH_PP h)"

text \<open>Aligning an address down: \<open>addr & ~FLASH_READ_BLOCK_MASK\<close>.\<close>

definition block_of :: "u32 \<Rightarrow> u32" where
  "block_of addr = addr AND NOT 31"

lemma block_of_mask: "block_of addr = addr AND NOT (mask 5)"
  by (simp add: block_of_def mask_eq_exp_minus_1)

lemma block_offset: "unat (addr - block_of addr) = unat addr mod 32"
  unfolding block_of_mask unat_minus_align by simp

lemma unat_block_of: "unat (block_of addr) = unat addr div 32 * 32"
  unfolding block_of_mask unat_align by simp

section \<open>Operations\<close>

function flash_read :: "'h platform \<Rightarrow> u32 \<Rightarrow> nat \<Rightarrow> 'h \<Rightarrow> bytes \<times> 'h" where
  "flash_read pf addr count h =
     (if count = 0 then ([], h)
      else
        let aligned_addr = block_of addr;
            block_offset = unat (addr - aligned_addr);
            available = 32 - block_offset;
            h = trigger pf aligned_addr FLASH_READ h;
            (buf, h) = pop_words pf 8 h;
            c = min available count;
            (rest, h) = flash_read pf (addr + of_nat c) (count - c) h
        in (slice block_offset c (words_bytes buf) @ rest, h))"
  by auto
termination
  by (relation "measure (\<lambda>(pf, addr, count, h). count)") (auto simp: block_offset min_def)

definition flash_read_sr1 :: "'h platform \<Rightarrow> 'h \<Rightarrow> u8 \<times> 'h" where
  "flash_read_sr1 pf h = (let h = trigger pf 0 FLASH_RDSR h in (pf_sr pf h, h))"

definition flash_read_sr2 :: "'h platform \<Rightarrow> 'h \<Rightarrow> u8 \<times> 'h" where
  "flash_read_sr2 pf h = (let h = trigger pf 0 FLASH_RDSR2 h in (pf_sr pf h, h))"

definition flash_write_sr1 :: "'h platform \<Rightarrow> u8 \<Rightarrow> 'h \<Rightarrow> 'h" where
  "flash_write_sr1 pf sr1 h =
     (let h = pf_wrsr_data pf (ucast sr1) h; h = wren pf h in trigger pf 0 FLASH_WRSR h)"

definition flash_unprotect :: "'h platform \<Rightarrow> 'h \<Rightarrow> 'h" where
  "flash_unprotect pf h =
     (let (sr, h) = flash_read_sr1 pf h in if sr AND 0xFC \<noteq> 0 then flash_write_sr1 pf 0 h else h)"

definition flash_erase_sector :: "'h platform \<Rightarrow> u32 \<Rightarrow> 'h \<Rightarrow> 'h" where
  "flash_erase_sector pf addr h =
     (let h = wren pf h in trigger pf (addr AND NOT 0xFFF) FLASH_SE h)"

text \<open>The block buffer is uninitialised before a whole block is copied into it; the copy overwrites all of
  it, so any initial value will do.\<close>

function flash_write :: "'h platform \<Rightarrow> u32 \<Rightarrow> bytes \<Rightarrow> 'h \<Rightarrow> 'h" where
  "flash_write pf addr src h =
     (if src = [] then h
      else
        let aligned_addr = block_of addr;
            block_offset = unat (addr - aligned_addr);
            available = 32 - block_offset;
            c = min available (length src);
            (buf, h) = (if block_offset \<noteq> 0 \<or> c < 32 then flash_read pf aligned_addr 32 h
                        else (replicate 32 0, h));
            buf = buf_write block_offset (take c src) buf;
            h = write_block pf aligned_addr (bytes_words buf) h
        in flash_write pf (addr + of_nat c) (drop c src) h)"
  by auto
termination
  by (relation "measure (\<lambda>(pf, addr, src, h). length src)") (auto simp: block_offset min_def)

declare flash_read.simps [simp del] flash_write.simps [simp del]

section \<open>The chip\<close>

text \<open>The state of the flash die and of the controller's FIFOs.\<close>

record nor =
  nor_mem  :: "nat \<Rightarrow> u8"
  nor_sr   :: u8
  nor_wrsr :: u16
  nor_wf   :: "u32 list"
  nor_rf   :: "u32 list"

definition mem_bytes :: "(nat \<Rightarrow> u8) \<Rightarrow> nat \<Rightarrow> nat \<Rightarrow> bytes" where
  "mem_bytes m a n = map m [a..<a + n]"

text \<open>Programming can only clear bits; erasing sets all bits of a 4 KB sector.\<close>

definition nor_program :: "(nat \<Rightarrow> u8) \<Rightarrow> nat \<Rightarrow> bytes \<Rightarrow> nat \<Rightarrow> u8" where
  "nor_program m a bs x = (if a \<le> x \<and> x < a + length bs then m x AND bs ! (x - a) else m x)"

definition nor_erase :: "(nat \<Rightarrow> u8) \<Rightarrow> nat \<Rightarrow> nat \<Rightarrow> u8" where
  "nor_erase m a x = (if a \<le> x \<and> x < a + 4096 then 0xFF else m x)"

definition nor_unlocked :: "nor \<Rightarrow> bool" where
  "nor_unlocked c \<longleftrightarrow> nor_sr c AND 0xFC = 0"

definition command :: "u32 \<Rightarrow> flash_opcode \<Rightarrow> nat \<Rightarrow> bool" where
  "command v opc a \<longleftrightarrow> bit v 29 \<and> bit v 30 \<and> take_bit 5 (drop_bit 24 v) = opcode_value opc
     \<and> unat (take_bit 24 v) = a"

text \<open>What the documentation promises of the hardware. Nothing is assumed of an erase while a protection bit
  is set, which the documentation calls uncharacterised.\<close>

locale nor_flash =
  fixes pf :: "'h platform" and chip :: "'h \<Rightarrow> nor" and size :: nat
  assumes size_bounds: "2 ^ 21 \<le> size" "size \<le> 2 ^ 24" "size mod 4096 = 0"
    and op_wren: "command v FLASH_WREN a \<Longrightarrow> chip (pf_operate pf v h) = chip h"
    and op_read: "command v FLASH_READ a \<Longrightarrow> a mod 32 = 0 \<Longrightarrow> a + 32 \<le> size \<Longrightarrow>
      chip (pf_operate pf v h) = (chip h)\<lparr>nor_rf := bytes_words (mem_bytes (nor_mem (chip h)) a 32)\<rparr>"
    and op_pp: "command v FLASH_PP a \<Longrightarrow> a mod 32 = 0 \<Longrightarrow> a + 32 \<le> size \<Longrightarrow>
      length (nor_wf (chip h)) = 8 \<Longrightarrow> nor_unlocked (chip h) \<Longrightarrow>
      chip (pf_operate pf v h) = (chip h)\<lparr>nor_mem := nor_program (nor_mem (chip h)) a
        (words_bytes (nor_wf (chip h))), nor_wf := []\<rparr>"
    and op_pp_locked: "command v FLASH_PP a \<Longrightarrow> \<not> nor_unlocked (chip h) \<Longrightarrow>
      nor_mem (chip (pf_operate pf v h)) = nor_mem (chip h) \<and> nor_sr (chip (pf_operate pf v h)) = nor_sr (chip h)"
    and op_se: "command v FLASH_SE a \<Longrightarrow> a mod 4096 = 0 \<Longrightarrow> a + 4096 \<le> size \<Longrightarrow>
      nor_unlocked (chip h) \<Longrightarrow>
      chip (pf_operate pf v h) = (chip h)\<lparr>nor_mem := nor_erase (nor_mem (chip h)) a\<rparr>"
    and op_rdsr: "command v FLASH_RDSR a \<Longrightarrow> chip (pf_operate pf v h) = chip h
      \<and> pf_sr pf (pf_operate pf v h) AND 0xFC = nor_sr (chip h) AND 0xFC"
    and op_wrsr: "command v FLASH_WRSR a \<Longrightarrow>
      chip (pf_operate pf v h) = (chip h)\<lparr>nor_sr := ucast (nor_wrsr (chip h))\<rparr>"
    and push: "chip (pf_push pf w h) = (chip h)\<lparr>nor_wf := nor_wf (chip h) @ [w]\<rparr>"
    and pop: "nor_rf (chip h) = w # ws \<Longrightarrow>
      fst (pf_pop pf h) = w \<and> chip (snd (pf_pop pf h)) = (chip h)\<lparr>nor_rf := ws\<rparr>"
    and wrsr_data: "chip (pf_wrsr_data pf x h) = (chip h)\<lparr>nor_wrsr := x\<rparr>"
    and malloc: "chip (snd (pf_malloc pf n h)) = chip h"

text \<open>The memory, the protection bits and the write FIFO: what reading leaves alone.\<close>

definition nor_view :: "nor \<Rightarrow> (nat \<Rightarrow> u8) \<times> u8 \<times> u32 list" where
  "nor_view c = (nor_mem c, nor_sr c, nor_wf c)"

lemma nor_view_simps [simp]:
  "nor_view (c\<lparr>nor_rf := ws\<rparr>) = nor_view c" "nor_view (c\<lparr>nor_wrsr := x\<rparr>) = nor_view c"
  by (simp_all add: nor_view_def)

lemma nor_viewD:
  assumes "nor_view c = nor_view d"
  shows "nor_mem c = nor_mem d" "nor_sr c = nor_sr d" "nor_wf c = nor_wf d" "nor_unlocked c = nor_unlocked d"
  using assms by (auto simp: nor_view_def nor_unlocked_def)

section \<open>Bytes and words of a block\<close>

lemma length_mem_bytes [simp, buf_simps]: "length (mem_bytes m a n) = n"
  by (simp add: mem_bytes_def)

lemma nth_mem_bytes [simp, buf_simps]: "i < n \<Longrightarrow> mem_bytes m a n ! i = m (a + i)"
  by (simp add: mem_bytes_def)

lemma mem_bytes_0 [simp]: "mem_bytes m a 0 = []"
  by (simp add: mem_bytes_def)

lemma mem_bytes_add: "mem_bytes m a (n + k) = mem_bytes m a n @ mem_bytes m (a + n) k"
  by (rule nth_equalityI) (auto simp: nth_append)

lemma slice_mem_bytes: "i + n \<le> k \<Longrightarrow> slice i n (mem_bytes m a k) = mem_bytes m (a + i) n"
  by (rule slice_eqI) (auto simp: add.assoc)

lemma mem_bytes_cong: "(\<And>x. a \<le> x \<Longrightarrow> x < a + n \<Longrightarrow> m x = m' x) \<Longrightarrow> mem_bytes m a n = mem_bytes m' a n"
  by (rule nth_equalityI) auto

lemma upt_8: "[0..<8] = [0, 1, 2, 3, 4, 5, 6, 7 :: nat]"
  by (simp add: upt_rec)

lemma length_bytes_words [simp]: "length (bytes_words buf) = 8"
  by (simp add: bytes_words_def)

lemma words_bytes_bytes_words: "length buf = 32 \<Longrightarrow> words_bytes (bytes_words buf) = buf"
proof -
  assume len: "length buf = 32"
  have "words_bytes (bytes_words buf) = concat (map (\<lambda>i. slice (4 * i) 4 buf) [0..<8])"
    by (simp add: words_bytes_def bytes_words_def o_def le32_bytes_le32 len upt_8)
  also have "\<dots> = slice 0 (4 + (4 + (4 + (4 + (4 + (4 + (4 + 4))))))) buf"
    unfolding slice_split upt_8 by simp
  also have "\<dots> = buf" using len by (simp add: slice_def)
  finally show ?thesis .
qed

lemma nor_program_append:
  "nor_program (nor_program m a xs) (a + length xs) ys = nor_program m a (xs @ ys)"
  by (rule ext) (auto simp: nor_program_def nth_append)

lemma nor_program_Nil [simp]: "nor_program m a [] = m"
  by (rule ext) (auto simp: nor_program_def)

text \<open>Programming a block with its own bytes around the new ones programs the new ones.\<close>

lemma nor_program_merge:
  assumes "off + length bs \<le> n"
  shows "nor_program m a (buf_write off bs (mem_bytes m a n)) = nor_program m (a + off) bs"
  using assms by (intro ext) (auto simp: nor_program_def nth_buf_write)

section \<open>The driver on the chip\<close>

lemma command_operate_word [simp]: "command (operate_word addr opc) opc a \<longleftrightarrow> unat (take_bit 24 addr) = a"
proof -
  have "take_bit 24 (operate_word addr opc) = take_bit 24 addr"
    by (auto simp: operate_word_def bit_eq_iff bit_simps)
  moreover have "take_bit 5 (drop_bit 24 (operate_word addr opc)) = opcode_value opc"
    by (cases opc) (auto simp: operate_word_def bit_eq_iff bit_simps)
  moreover have "bit (operate_word addr opc) 29" "bit (operate_word addr opc) 30"
    by (auto simp: operate_word_def bit_simps)
  ultimately show ?thesis by (simp add: command_def)
qed

lemma unat_take_bit_24: "unat (addr :: u32) < 2 ^ 24 \<Longrightarrow> unat (take_bit 24 addr) = unat addr"
  by (simp only: unsigned_take_bit_eq take_bit_nat_eq_self)

lemma unat_sector: "unat ((addr :: u32) AND NOT 0xFFF) = unat addr div 4096 * 4096"
proof -
  have "(0xFFF :: u32) = mask 12" by (simp add: mask_eq_exp_minus_1)
  then show ?thesis by (simp only: unat_align) simp
qed

context nor_flash
begin

lemma operate_command: "unat addr < size \<Longrightarrow> command (operate_word addr opc) opc (unat addr)"
  using size_bounds by (simp add: unat_take_bit_24)

lemma pop_words_chip:
  "nor_rf (chip h) = ws @ us \<Longrightarrow> fst (pop_words pf (length ws) h) = ws
     \<and> nor_view (chip (snd (pop_words pf (length ws) h))) = nor_view (chip h)"
proof (induction ws arbitrary: h)
  case Nil
  then show ?case by simp
next
  case (Cons w ws)
  from Cons.prems pop [of h w "ws @ us"]
  have "fst (pf_pop pf h) = w" "chip (snd (pf_pop pf h)) = (chip h)\<lparr>nor_rf := ws @ us\<rparr>" by auto
  then show ?case using Cons.IH [of "snd (pf_pop pf h)"] by (simp add: split_beta)
qed

lemma read_block:
  assumes "unat addr mod 32 = 0" "unat addr + 32 \<le> size" "h1 = trigger pf addr FLASH_READ h"
  shows "words_bytes (fst (pop_words pf 8 h1)) = mem_bytes (nor_mem (chip h)) (unat addr) 32"
    and "nor_view (chip (snd (pop_words pf 8 h1))) = nor_view (chip h)"
proof -
  let ?bs = "mem_bytes (nor_mem (chip h)) (unat addr) 32"
  have "chip h1 = (chip h)\<lparr>nor_rf := bytes_words ?bs\<rparr>"
    using assms unfolding assms(3) trigger_def by (intro op_read operate_command) auto
  then show "words_bytes (fst (pop_words pf 8 h1)) = ?bs"
    "nor_view (chip (snd (pop_words pf 8 h1))) = nor_view (chip h)"
    using pop_words_chip [of h1 "bytes_words ?bs" "[]"] by (auto simp: words_bytes_bytes_words)
qed

lemma push_words_chip: "chip (push_words pf ws h) = (chip h)\<lparr>nor_wf := nor_wf (chip h) @ ws\<rparr>"
  by (induction ws arbitrary: h) (simp_all add: push)

lemma wren_chip [simp]: "chip (wren pf h) = chip h"
  unfolding wren_def trigger_def by (rule op_wren) simp

lemma unat_step:
  "unat (addr :: u32) + n \<le> size \<Longrightarrow> unat (addr + of_nat n) = unat addr + n"
  using size_bounds by (intro unat_add_of_nat) simp

lemma size_block: "size mod 32 = 0"
proof -
  have "(32 :: nat) dvd 4096" by simp
  then show ?thesis using size_bounds(3) by (metis dvd_trans mod_0_imp_dvd dvd_imp_mod_0)
qed

lemma block_within:
  assumes "unat addr < size"
  shows "unat (block_of addr) mod 32 = 0" "unat (block_of addr) + 32 \<le> size"
  using block_end [OF assms size_block] by (simp_all add: unat_block_of)

lemma flash_read_eq:
  "unat addr + count \<le> size \<Longrightarrow>
   fst (flash_read pf addr count h) = mem_bytes (nor_mem (chip h)) (unat addr) count
   \<and> nor_view (chip (snd (flash_read pf addr count h))) = nor_view (chip h)"
proof (induction count arbitrary: addr h rule: less_induct)
  case (less count)
  show ?case
  proof (cases "count = 0")
    case True
    then show ?thesis by (simp add: flash_read.simps)
  next
    case False
    define off where "off = unat addr mod 32"
    define c where "c = min (32 - off) count"
    define h2 where "h2 = snd (pop_words pf 8 (trigger pf (block_of addr) FLASH_READ h))"
    have c: "0 < c" "c \<le> count" "off + c \<le> 32" "unat (block_of addr) + off = unat addr"
      using False by (auto simp: c_def off_def unat_block_of min_def not_le)
    have "unat addr < size" using less.prems False by simp
    note blk = read_block [OF block_within [OF this] refl, of h, folded h2_def]
    have next_addr: "unat (addr + of_nat c) = unat addr + c"
      using less.prems c(2) by (intro unat_step) simp
    note rest = less.IH [of "count - c" "addr + of_nat c" h2, unfolded next_addr]
    have "flash_read pf addr count h = (slice off c (words_bytes (fst (pop_words pf 8 (trigger pf (block_of addr) FLASH_READ h))))
        @ fst (flash_read pf (addr + of_nat c) (count - c) h2), snd (flash_read pf (addr + of_nat c) (count - c) h2))"
      using False by (subst flash_read.simps) (simp add: Let_def split_beta block_offset off_def c_def h2_def)
    then show ?thesis
      using rest c less.prems blk nor_viewD(1) [OF blk(2)] mem_bytes_add [of "nor_mem (chip h)" "unat addr" c "count - c"]
      by (simp add: slice_mem_bytes)
  qed
qed

lemmas flash_read_fst [simp] = flash_read_eq [THEN conjunct1]
lemmas flash_read_snd [simp] = flash_read_eq [THEN conjunct2]

lemma write_block_chip:
  assumes "unat addr mod 32 = 0" "unat addr + 32 \<le> size" "nor_unlocked (chip h)" "nor_wf (chip h) = []"
    "length buf = 32"
  shows "nor_view (chip (write_block pf addr (bytes_words buf) h))
       = (nor_program (nor_mem (chip h)) (unat addr) buf, nor_sr (chip h), [])"
proof -
  let ?h = "push_words pf (bytes_words buf) (wren pf h)"
  have h: "chip ?h = (chip h)\<lparr>nor_wf := bytes_words buf\<rparr>" using assms(4) by (simp add: push_words_chip)
  have "chip (pf_operate pf (operate_word addr FLASH_PP) ?h)
      = (chip ?h)\<lparr>nor_mem := nor_program (nor_mem (chip ?h)) (unat addr) (words_bytes (nor_wf (chip ?h))), nor_wf := []\<rparr>"
    using assms(1-3) by (intro op_pp operate_command) (simp_all add: h nor_unlocked_def)
  then show ?thesis
    using assms(5) by (simp add: write_block_def trigger_def Let_def h nor_view_def words_bytes_bytes_words)
qed

lemma write_block_locked:
  assumes "\<not> nor_unlocked (chip h)"
  shows "nor_mem (chip (write_block pf addr ws h)) = nor_mem (chip h)"
    "nor_sr (chip (write_block pf addr ws h)) = nor_sr (chip h)"
proof -
  have "command (operate_word addr FLASH_PP) FLASH_PP (unat (take_bit 24 addr))" by simp
  then show "nor_mem (chip (write_block pf addr ws h)) = nor_mem (chip h)"
    "nor_sr (chip (write_block pf addr ws h)) = nor_sr (chip h)"
    using assms op_pp_locked [of _ _ "push_words pf ws (wren pf h)"]
    by (simp_all add: write_block_def trigger_def Let_def push_words_chip nor_unlocked_def)
qed

text \<open>One round of the write loop: the block buffer holds the block with the new bytes in it.\<close>

lemma flash_write_unfold:
  assumes "src \<noteq> []" "unat addr + length src \<le> size"
    and "off = unat addr mod 32" "c = min (32 - off) (length src)"
  shows "\<exists>h1. nor_view (chip h1) = nor_view (chip h) \<and>
     flash_write pf addr src h = flash_write pf (addr + of_nat c) (drop c src)
       (write_block pf (block_of addr) (bytes_words (buf_write off (take c src)
         (mem_bytes (nor_mem (chip h)) (unat (block_of addr)) 32))) h1)"
proof -
  have lt: "unat addr < size" using assms(1,2) by (cases src) auto
  define part where "part \<longleftrightarrow> off \<noteq> 0 \<or> c < 32"
  define rd where "rd = flash_read pf (block_of addr) 32 h"
  have rd: "fst rd = mem_bytes (nor_mem (chip h)) (unat (block_of addr)) 32"
    "nor_view (chip (snd rd)) = nor_view (chip h)"
    using block_within(2) [OF lt] by (simp_all add: rd_def)
  have whole: "buf_write off (take c src) xs = buf_write off (take c src) ys"
    if "\<not> part" "length xs = 32" "length ys = 32" for xs ys :: bytes
    using that assms(4) by (auto simp: part_def buf_write_def)
  have "flash_write pf addr src h = flash_write pf (addr + of_nat c) (drop c src)
       (write_block pf (block_of addr) (bytes_words (buf_write off (take c src)
         (if part then fst rd else replicate 32 0))) (if part then snd rd else h))"
    by (subst flash_write.simps)
      (simp only: Let_def split_beta block_offset assms(1,3,4) rd_def part_def if_distrib [of fst]
        if_distrib [of snd] fst_conv snd_conv if_False)
  moreover have "buf_write off (take c src) (if part then fst rd else replicate 32 0)
      = buf_write off (take c src) (fst rd)"
    using whole [of "replicate 32 0" "fst rd"] by (simp add: rd)
  ultimately show ?thesis using rd by (intro exI [of _ "if part then snd rd else h"]) auto
qed

lemma flash_write_eq:
  "unat addr + length src \<le> size \<Longrightarrow> nor_unlocked (chip h) \<Longrightarrow> nor_wf (chip h) = [] \<Longrightarrow>
   nor_view (chip (flash_write pf addr src h))
     = (nor_program (nor_mem (chip h)) (unat addr) src, nor_sr (chip h), [])"
proof (induction "length src" arbitrary: addr src h rule: less_induct)
  case less
  show ?case
  proof (cases "src = []")
    case True
    then show ?thesis using less.prems by (simp add: flash_write.simps nor_view_def)
  next
    case False
    define off where "off = unat addr mod 32"
    define c where "c = min (32 - off) (length src)"
    let ?buf = "buf_write off (take c src) (mem_bytes (nor_mem (chip h)) (unat (block_of addr)) 32)"
    have c: "0 < c" "c \<le> length src" "off + c \<le> 32" "unat (block_of addr) + off = unat addr"
      using False by (auto simp: c_def off_def unat_block_of min_def not_le)
    have lt: "unat addr < size" using less.prems(1) False by (cases src) auto
    obtain h1 where h1: "nor_view (chip h1) = nor_view (chip h)"
      "flash_write pf addr src h = flash_write pf (addr + of_nat c) (drop c src)
         (write_block pf (block_of addr) (bytes_words ?buf) h1)"
      using flash_write_unfold [OF False less.prems(1) off_def c_def] by blast
    define h2 where "h2 = write_block pf (block_of addr) (bytes_words ?buf) h1"
    have "nor_view (chip h2) = (nor_program (nor_mem (chip h1)) (unat (block_of addr)) ?buf, nor_sr (chip h1), [])"
      unfolding h2_def using block_within [OF lt] nor_viewD [OF h1(1)] less.prems(2,3) c
      by (intro write_block_chip) simp_all
    also have "nor_program (nor_mem (chip h1)) (unat (block_of addr)) ?buf
        = nor_program (nor_mem (chip h)) (unat addr) (take c src)"
      using nor_viewD(1) [OF h1(1)] c nor_program_merge [of off "take c src" 32] by simp
    finally have h2: "nor_mem (chip h2) = nor_program (nor_mem (chip h)) (unat addr) (take c src)"
      "nor_sr (chip h2) = nor_sr (chip h)" "nor_wf (chip h2) = []"
      using nor_viewD(2) [OF h1(1)] by (simp_all add: nor_view_def)
    have next_addr: "unat (addr + of_nat c) = unat addr + c"
      using less.prems(1) c(2) by (intro unat_step) simp
    have "nor_view (chip (flash_write pf (addr + of_nat c) (drop c src) h2))
        = (nor_program (nor_mem (chip h2)) (unat addr + c) (drop c src), nor_sr (chip h2), [])"
      using less.hyps [of "drop c src" "addr + of_nat c" h2] c less.prems h2
      by (simp add: next_addr nor_unlocked_def)
    then show ?thesis
      using h2 c nor_program_append [of "nor_mem (chip h)" "unat addr" "take c src" "drop c src"]
      by (simp add: h1(2) h2_def)
  qed
qed

lemma flash_write_locked:
  "unat addr + length src \<le> size \<Longrightarrow> \<not> nor_unlocked (chip h) \<Longrightarrow>
   nor_mem (chip (flash_write pf addr src h)) = nor_mem (chip h)
   \<and> nor_sr (chip (flash_write pf addr src h)) = nor_sr (chip h)"
proof (induction "length src" arbitrary: addr src h rule: less_induct)
  case less
  show ?case
  proof (cases "src = []")
    case True
    then show ?thesis by (simp add: flash_write.simps)
  next
    case False
    define c where "c = min (32 - unat addr mod 32) (length src)"
    have c: "0 < c" "c \<le> length src" using False by (auto simp: c_def min_def not_le)
    obtain h1 ws where h1: "nor_view (chip h1) = nor_view (chip h)"
      "flash_write pf addr src h = flash_write pf (addr + of_nat c) (drop c src) (write_block pf (block_of addr) ws h1)"
      using flash_write_unfold [OF False less.prems(1) refl refl] c_def by blast
    define h2 where "h2 = write_block pf (block_of addr) ws h1"
    have h2: "nor_mem (chip h2) = nor_mem (chip h)" "nor_sr (chip h2) = nor_sr (chip h)"
      using write_block_locked [of h1] less.prems(2) nor_viewD [OF h1(1)] by (simp_all add: h2_def)
    then show ?thesis
      using less.hyps [of "drop c src" "addr + of_nat c" h2] c less.prems unat_step [of addr c]
      by (simp add: h1(2) h2_def nor_unlocked_def)
  qed
qed

lemma flash_erase_sector_eq:
  assumes "unat addr < size" "nor_unlocked (chip h)"
  shows "chip (flash_erase_sector pf addr h)
       = (chip h)\<lparr>nor_mem := nor_erase (nor_mem (chip h)) (unat addr div 4096 * 4096)\<rparr>"
proof -
  have "unat addr div 4096 * 4096 + 4096 \<le> size" by (rule block_end [OF assms(1) size_bounds(3)])
  then have "chip (pf_operate pf (operate_word (addr AND NOT 0xFFF) FLASH_SE) (wren pf h))
     = (chip (wren pf h))\<lparr>nor_mem := nor_erase (nor_mem (chip (wren pf h))) (unat (addr AND NOT 0xFFF))\<rparr>"
    using assms(2) by (intro op_se operate_command) (simp_all only: unat_sector wren_chip, simp_all)
  then show ?thesis by (simp only: flash_erase_sector_def trigger_def Let_def unat_sector wren_chip)
qed

lemma flash_unprotect_eq:
  "nor_unlocked (chip (flash_unprotect pf h))"
  "nor_mem (chip (flash_unprotect pf h)) = nor_mem (chip h)"
  "nor_wf (chip (flash_unprotect pf h)) = nor_wf (chip h)"
proof -
  let ?h = "pf_operate pf (operate_word 0 FLASH_RDSR) h"
  have rd: "chip ?h = chip h" "pf_sr pf ?h AND 0xFC = nor_sr (chip h) AND 0xFC"
    using op_rdsr [of "operate_word 0 FLASH_RDSR" 0 h] by auto
  have wr: "chip (flash_write_sr1 pf 0 x) = (chip x)\<lparr>nor_wrsr := 0, nor_sr := 0\<rparr>" for x
    using op_wrsr [of "operate_word 0 FLASH_WRSR" 0 "wren pf (pf_wrsr_data pf 0 x)"]
    by (simp add: flash_write_sr1_def trigger_def Let_def wrsr_data)
  show "nor_unlocked (chip (flash_unprotect pf h))" "nor_mem (chip (flash_unprotect pf h)) = nor_mem (chip h)"
    "nor_wf (chip (flash_unprotect pf h)) = nor_wf (chip h)"
    using rd wr
    by (auto simp: flash_unprotect_def flash_read_sr1_def trigger_def Let_def split_beta nor_unlocked_def)
qed

end

lemma erased_and: "(0xFF :: u8) AND x = x"
proof -
  have "(0xFF :: u8) = - 1" by simp
  then show ?thesis by (simp only: and.left_neutral)
qed

section \<open>A chip that keeps the promises\<close>

text \<open>The documented chip itself as a platform: every law of \<open>nor_flash\<close> holds of it.\<close>

definition chip_operate :: "u32 \<Rightarrow> nor \<Rightarrow> nor" where
  "chip_operate v c =
     (let opc = take_bit 5 (drop_bit 24 v); a = unat (take_bit 24 v) in
      if opc = opcode_value FLASH_READ then c\<lparr>nor_rf := bytes_words (mem_bytes (nor_mem c) a 32)\<rparr>
      else if opc = opcode_value FLASH_WRSR then c\<lparr>nor_sr := ucast (nor_wrsr c)\<rparr>
      else if opc = opcode_value FLASH_PP \<and> nor_unlocked c
        then c\<lparr>nor_mem := nor_program (nor_mem c) a (words_bytes (nor_wf c)), nor_wf := []\<rparr>
      else if opc = opcode_value FLASH_SE \<and> nor_unlocked c
        then c\<lparr>nor_mem := nor_erase (nor_mem c) a\<rparr>
      else c)"

definition chip_platform :: "nor platform" where
  "chip_platform =
     \<lparr>pf_operate = chip_operate,
      pf_push = (\<lambda>w c. c\<lparr>nor_wf := nor_wf c @ [w]\<rparr>),
      pf_pop = (\<lambda>c. case nor_rf c of [] \<Rightarrow> (0, c) | w # ws \<Rightarrow> (w, c\<lparr>nor_rf := ws\<rparr>)),
      pf_sr = nor_sr,
      pf_jedec = (\<lambda>c. 0x1C7015),
      pf_conf = (\<lambda>v c. c),
      pf_wrsr_data = (\<lambda>x c. c\<lparr>nor_wrsr := x\<rparr>),
      pf_m_value = (\<lambda>x c. c),
      pf_malloc = (\<lambda>n c. (True, c))\<rparr>"

definition blank_chip :: nor where
  "blank_chip = \<lparr>nor_mem = (\<lambda>_. 0xFF), nor_sr = 0, nor_wrsr = 0, nor_wf = [], nor_rf = []\<rparr>"

interpretation chip: nor_flash chip_platform "\<lambda>c. c" "2 ^ 21"
  by unfold_locales (auto simp: chip_platform_def chip_operate_def command_def Let_def)

section \<open>Properties\<close>

text \<open>(C14) Writing and reading back, at any alignment and length: on an unprotected chip \<open>flash_write\<close>
  over erased bytes makes \<open>flash_read\<close> return exactly the bytes written, and changes no other byte of the
  chip, although it programs whole 32-byte blocks.\<close>

theorem flash_write_read:
  assumes "nor_flash pf chip sz" "unat addr + length src \<le> sz" "nor_unlocked (chip h)" "nor_wf (chip h) = []"
    and "\<And>x. unat addr \<le> x \<Longrightarrow> x < unat addr + length src \<Longrightarrow> nor_mem (chip h) x = 0xFF"
  shows "fst (flash_read pf addr (length src) (flash_write pf addr src h)) = src
    \<and> (\<forall>x. (x < unat addr \<or> unat addr + length src \<le> x) \<longrightarrow>
          nor_mem (chip (flash_write pf addr src h)) x = nor_mem (chip h) x)"
proof -
  have mem: "nor_mem (chip (flash_write pf addr src h)) = nor_program (nor_mem (chip h)) (unat addr) src"
    using nor_flash.flash_write_eq [OF assms(1-4)] by (simp add: nor_view_def)
  moreover have "mem_bytes (nor_program (nor_mem (chip h)) (unat addr) src) (unat addr) (length src) = src"
    using assms(5) by (intro nth_equalityI) (simp_all add: nor_program_def erased_and)
  ultimately show ?thesis
    using nor_flash.flash_read_eq [OF assms(1,2)] by (simp add: nor_program_def)
qed

theorem flash_write_read_witness:
  "fst (flash_read chip_platform 0x1001E 3 (flash_write chip_platform 0x1001E [1, 2, 3] blank_chip)) = [1, 2, 3]"
proof -
  have len: "3 = length [1, 2, 3 :: u8]" by simp
  show ?thesis
    unfolding len
    by (rule flash_write_read [OF chip.nor_flash_axioms, THEN conjunct1])
      (simp_all add: blank_chip_def nor_unlocked_def)
qed

text \<open>\<open>flash_erase_sector\<close> sets every byte of the 4 KB sector that holds the address to 0xFF and
  changes no other byte; \<open>flash_unprotect\<close> always leaves a chip that accepts it.\<close>

theorem flash_erase_exact:
  assumes "nor_flash pf chip sz" "unat addr < sz"
  shows "nor_mem (chip (flash_erase_sector pf addr (flash_unprotect pf h))) x
       = (if x div 4096 = unat addr div 4096 then 0xFF else nor_mem (chip h) x)"
proof -
  have "nor_mem (chip (flash_erase_sector pf addr (flash_unprotect pf h)))
      = nor_erase (nor_mem (chip h)) (unat addr div 4096 * 4096)"
    using nor_flash.flash_erase_sector_eq [OF assms nor_flash.flash_unprotect_eq(1) [OF assms(1)]]
      nor_flash.flash_unprotect_eq(2) [OF assms(1)] by simp
  moreover have "q * 4096 \<le> x \<and> x < q * 4096 + 4096 \<longleftrightarrow> x div 4096 = q" for q
    using less_eq_div_iff_mult_less_eq [of 4096 q x] div_less_iff_less_mult [of 4096 x "Suc q"] by auto
  ultimately show ?thesis by (simp add: nor_erase_def)
qed

theorem flash_erase_exact_witness:
  "nor_mem (flash_erase_sector chip_platform 0x1FF123 (flash_unprotect chip_platform (blank_chip\<lparr>nor_mem := \<lambda>_. 0\<rparr>))) 0x1FF000
     = 0xFF"
  using flash_erase_exact [OF chip.nor_flash_axioms, of "0x1FF123" "blank_chip\<lparr>nor_mem := \<lambda>_. 0\<rparr>" "0x1FF000"]
  by simp

text \<open>While a protection bit is set, \<open>flash_write\<close> silently changes nothing.\<close>

theorem flash_write_protected:
  assumes "nor_flash pf chip sz" "unat addr + length src \<le> sz" "nor_sr (chip h) AND 0xFC \<noteq> 0"
  shows "nor_mem (chip (flash_write pf addr src h)) = nor_mem (chip h)"
  using nor_flash.flash_write_locked [OF assms(1,2)] assms(3) by (simp add: nor_unlocked_def)

theorem flash_write_protected_witness:
  "nor_mem (flash_write chip_platform 0x1FF000 [0] (blank_chip\<lparr>nor_sr := 0x7C\<rparr>)) = nor_mem (blank_chip\<lparr>nor_sr := 0x7C\<rparr>)"
  by (rule flash_write_protected [OF chip.nor_flash_axioms]) simp_all

end
