(* ===== verification/Flash_Kv.thy ===== *)
theory Flash_Kv
  imports Flash Crc
begin

text \<open>
  The key-value store of \<open>src/src/platform/misc/flash_kv\<close>: one 4 KB flash sector that holds a header and a log
  of checksummed records, appended to until it is full and then compacted. This theory holds the definitions,
  one per C function, over the flash driver of \<open>Flash\<close>; \<open>Flash_Kv_Log\<close> and \<open>Flash_Kv_Spec\<close> hold the proofs.

  The platform and its state are the arguments \<open>pf\<close> and \<open>h\<close>. A function that may stop on a failed
  \<open>assert\<close> after \<open>malloc\<close> returns \<open>None\<close> there; a negative return value is \<open>Inl\<close> of the error number.
  Offsets into the sector stay below 4096 + 264, so they are natural numbers.
\<close>

section \<open>Layout\<close>

abbreviation KV_BASE :: u32 where "KV_BASE \<equiv> 0x1FF000"
abbreviation KV_SECTOR_SIZE :: nat where "KV_SECTOR_SIZE \<equiv> 4096"
abbreviation KV_MAGIC :: u32 where "KV_MAGIC \<equiv> 0x564B4C46"
abbreviation KV_VERSION :: u32 where "KV_VERSION \<equiv> 1"
abbreviation HEADER_SIZE :: nat where "HEADER_SIZE \<equiv> 8"
abbreviation FLASH_KV_MAX_VALUE_LEN :: nat where "FLASH_KV_MAX_VALUE_LEN \<equiv> 256"
abbreviation FLASH_KV_KEY_NONE :: u16 where "FLASH_KV_KEY_NONE \<equiv> 0xFFFF"

definition RECORD_MAX_SIZE :: nat where
  "RECORD_MAX_SIZE = 4 + FLASH_KV_MAX_VALUE_LEN + 4"

definition MAX_RECORDS :: nat where
  "MAX_RECORDS = (KV_SECTOR_SIZE - HEADER_SIZE) div (4 + 4)"

datatype flash_kv_state = FLASH_KV_BLANK | FLASH_KV_FOREIGN | FLASH_KV_VALID | FLASH_KV_TORN

datatype flash_kv_record_status = FLASH_KV_RECORD_LIVE | FLASH_KV_RECORD_OLD | FLASH_KV_RECORD_DELETED

record flash_kv_record =
  rec_offset :: nat
  rec_key    :: u16
  rec_len    :: u16
  rec_value  :: bytes
  rec_status :: flash_kv_record_status

text \<open>\<open>(n + 3) & ~3\<close>\<close>

definition align4 :: "nat \<Rightarrow> nat" where
  "align4 n = (n + 3) div 4 * 4"

definition record_size :: "u16 \<Rightarrow> nat" where
  "record_size len = 4 + align4 (unat len) + 4"

definition record_crc :: "bytes \<Rightarrow> bytes \<Rightarrow> u16 \<Rightarrow> u32" where
  "record_crc head value len =
     crc32_final (crc32_update (crc32_update crc32_init (take 4 head)) (take (unat len) value))"

definition encode_record :: "u16 \<Rightarrow> bytes \<Rightarrow> u16 \<Rightarrow> bytes" where
  "encode_record key value len =
     (let size = record_size len;
          dst = replicate size 0;
          dst = buf_write 0 (le16_bytes key) dst;
          dst = buf_write 2 (le16_bytes len) dst;
          dst = (if len \<noteq> 0 then buf_write 4 (take (unat len) value) dst else dst)
      in buf_write (size - 4) (le32_bytes (record_crc dst (drop 4 dst) len)) dst)"

definition encode_header :: bytes where
  "encode_header = le32_bytes KV_MAGIC @ le32_bytes KV_VERSION"

section \<open>Scanning\<close>

definition kv_read :: "'h platform \<Rightarrow> nat \<Rightarrow> nat \<Rightarrow> 'h \<Rightarrow> bytes \<times> 'h" where
  "kv_read pf off n h = flash_read pf (KV_BASE + of_nat off) n h"

definition header_state :: "'h platform \<Rightarrow> 'h \<Rightarrow> flash_kv_state \<times> 'h" where
  "header_state pf h =
     (let (header, h) = kv_read pf 0 HEADER_SIZE h in
      (if le32 header = KV_MAGIC \<and> le32 (drop 4 header) = KV_VERSION then FLASH_KV_VALID
       else if list_ex (\<lambda>b. b \<noteq> 0xFF) header then FLASH_KV_FOREIGN
       else FLASH_KV_BLANK, h))"

text \<open>The loop of \<open>walk\<close>: it returns whether the log ends cleanly, the offset after the last valid record and the
  visitor's context. The visitor gets the key, the value (\<open>len\<close> is its length) and the offset.\<close>

type_synonym 'c kv_visitor = "'c \<Rightarrow> u16 \<Rightarrow> bytes \<Rightarrow> u16 \<Rightarrow> nat \<Rightarrow> 'c"

lemma record_size_pos: "8 \<le> record_size len"
  by (simp add: record_size_def)

function walk_loop :: "'h platform \<Rightarrow> 'c kv_visitor \<Rightarrow> 'c \<Rightarrow> nat \<Rightarrow> 'h \<Rightarrow> (bool \<times> nat \<times> 'c) \<times> 'h" where
  "walk_loop pf visit ctx off h =
     (if off = KV_SECTOR_SIZE then ((True, off, ctx), h)
      else
        let (head, h) = kv_read pf off 4 h;
            key = le16 head;
            len = le16 (drop 2 head)
        in
        if key = FLASH_KV_KEY_NONE then ((True, off, ctx), h)
        else if unat len > FLASH_KV_MAX_VALUE_LEN \<or> off + record_size len > KV_SECTOR_SIZE
        then ((False, off, ctx), h)
        else
          let (value, h) = kv_read pf (off + 4) (unat len) h;
              (crc, h) = kv_read pf (off + 4 + align4 (unat len)) 4 h
          in
          if le32 crc \<noteq> record_crc head value len then ((False, off, ctx), h)
          else walk_loop pf visit (visit ctx key value len off) (off + record_size len) h)"
  by auto
termination
proof (relation "measure (\<lambda>(pf, visit, ctx, off, h). KV_SECTOR_SIZE - off)", goal_cases)
  case 1
  show ?case by simp
next
  case (2 pf visit ctx off h p head ha key len q v hb r crc hc)
  then show ?case using record_size_pos [of len] by auto
qed

declare walk_loop.simps [simp del]

definition walk :: "'h platform \<Rightarrow> 'c kv_visitor \<Rightarrow> 'c \<Rightarrow> 'h \<Rightarrow> ((bool \<times> nat \<times> 'c) \<times> 'h) option" where
  "walk pf visit ctx h =
     (let (ok, h) = pf_malloc pf FLASH_KV_MAX_VALUE_LEN h in
      if ok then Some (walk_loop pf visit ctx HEADER_SIZE h) else None)"

text \<open>A \<open>NULL\<close> visitor.\<close>

definition no_visit :: "unit kv_visitor" where
  "no_visit ctx key value len off = ()"

function tail_is_blank :: "'h platform \<Rightarrow> nat \<Rightarrow> 'h \<Rightarrow> bool \<times> 'h" where
  "tail_is_blank pf off h =
     (if off < KV_SECTOR_SIZE then
        let n = (if KV_SECTOR_SIZE - off < 32 then KV_SECTOR_SIZE - off else 32);
            (block, h) = kv_read pf off n h
        in if list_ex (\<lambda>b. b \<noteq> 0xFF) block then (False, h) else tail_is_blank pf (off + 32) h
      else (True, h))"
  by auto
termination by (relation "measure (\<lambda>(pf, off, h). KV_SECTOR_SIZE - off)") auto

declare tail_is_blank.simps [simp del]

definition scan :: "'h platform \<Rightarrow> 'h \<Rightarrow> ((flash_kv_state \<times> nat) \<times> 'h) option" where
  "scan pf h =
     (let (header, h) = header_state pf h in
      if header \<noteq> FLASH_KV_VALID then Some ((header, 0), h)
      else case walk pf no_visit () h of
          None \<Rightarrow> None
        | Some ((clean, end_off, _), h) \<Rightarrow>
            if \<not> clean then Some ((FLASH_KV_TORN, end_off), h)
            else let (blank, h) = tail_is_blank pf end_off h in
              Some ((if blank then FLASH_KV_VALID else FLASH_KV_TORN, end_off), h))"

definition flash_kv_state_of :: "'h platform \<Rightarrow> 'h \<Rightarrow> (flash_kv_state \<times> 'h) option" where
  "flash_kv_state_of pf h = map_option (\<lambda>((st, _), h). (st, h)) (scan pf h)"

section \<open>Reading\<close>

record lookup =
  lk_key :: u16
  lk_len :: "errno + nat"
  lk_off :: nat

definition lookup_visit :: "lookup kv_visitor" where
  "lookup_visit l key value len off =
     (if key \<noteq> lk_key l then l
      else l\<lparr>lk_len := (if len \<noteq> 0 then Inr (unat len) else Inl ENOENT), lk_off := off\<rparr>)"

text \<open>The result is the return value and the bytes copied into \<open>buf\<close>, \<open>None\<close> when it is left untouched;
  \<open>buf\<close> tells whether the pointer is not \<open>NULL\<close>.\<close>

definition flash_kv_get ::
  "'h platform \<Rightarrow> u16 \<Rightarrow> bool \<Rightarrow> nat \<Rightarrow> nat \<Rightarrow> 'h \<Rightarrow> (((errno + nat) \<times> bytes option) \<times> 'h) option" where
  "flash_kv_get pf key buf sz exact_size h =
     (if key = FLASH_KV_KEY_NONE then Some ((Inl EINVAL, None), h)
      else let (st, h) = header_state pf h in
      if st \<noteq> FLASH_KV_VALID then Some ((Inl ENOENT, None), h)
      else case walk pf lookup_visit \<lparr>lk_key = key, lk_len = Inl ENOENT, lk_off = 0\<rparr> h of
          None \<Rightarrow> None
        | Some ((_, _, l), h) \<Rightarrow>
            (case lk_len l of
               Inl e \<Rightarrow> Some ((Inl e, None), h)
             | Inr n \<Rightarrow>
                 if exact_size \<noteq> 0 \<and> n \<noteq> exact_size then Some ((Inl EBADMSG, None), h)
                 else if \<not> buf then Some ((Inr n, None), h)
                 else if sz < n then Some ((Inl EMSGSIZE, None), h)
                 else let (value, h) = kv_read pf (lk_off l + 4) n h in Some ((Inr n, Some value), h)))"

text \<open>The typed reads return the error or success and the destination afterwards.\<close>

definition flash_kv_get_u8 :: "'h platform \<Rightarrow> u16 \<Rightarrow> u8 \<Rightarrow> 'h \<Rightarrow> (((errno + unit) \<times> u8) \<times> 'h) option" where
  "flash_kv_get_u8 pf key dst h =
     (case flash_kv_get pf key True 1 1 h of
        None \<Rightarrow> None
      | Some ((Inl e, _), h) \<Rightarrow> Some ((Inl e, dst), h)
      | Some ((Inr _, value), h) \<Rightarrow> Some ((Inr (), hd (the value)), h))"

definition flash_kv_get_bool :: "'h platform \<Rightarrow> u16 \<Rightarrow> bool \<Rightarrow> 'h \<Rightarrow> (((errno + unit) \<times> bool) \<times> 'h) option" where
  "flash_kv_get_bool pf key dst h =
     (case flash_kv_get_u8 pf key 0 h of
        None \<Rightarrow> None
      | Some ((Inl e, _), h) \<Rightarrow> Some ((Inl e, dst), h)
      | Some ((Inr _, value), h) \<Rightarrow> Some ((Inr (), value \<noteq> 0), h))"

definition flash_kv_get_string ::
  "'h platform \<Rightarrow> u16 \<Rightarrow> bytes \<Rightarrow> nat \<Rightarrow> 'h \<Rightarrow> (((errno + nat) \<times> bytes) \<times> 'h) option" where
  "flash_kv_get_string pf key dst sz h =
     (if sz = 0 then Some ((Inl EINVAL, dst), h)
      else case flash_kv_get pf key True (sz - 1) 0 h of
          None \<Rightarrow> None
        | Some ((Inl e, _), h) \<Rightarrow> Some ((Inl e, dst), h)
        | Some ((Inr n, value), h) \<Rightarrow>
            Some ((Inr n, if 0 < n then buf_write n [0] (buf_write 0 (the value) dst)
                          else buf_write 0 (the value) dst), h))"

section \<open>Writing\<close>

text \<open>The image under construction: the \<open>n\<close> bytes written so far (\<open>n\<close> is their number) and the overflow flag.\<close>

record image =
  im_data     :: bytes
  im_overflow :: bool

function image_drop :: "u16 \<Rightarrow> nat \<Rightarrow> bytes \<Rightarrow> bytes" where
  "image_drop key off data =
     (if off < length data then
        let size = record_size (le16 (drop (off + 2) data)) in
        if le16 (drop off data) = key
        then image_drop key off (take off data @ drop (off + size) data)
        else image_drop key (off + size) data
      else data)"
  by auto
termination
proof (relation "measure (\<lambda>(key, off, data). length data - off)", goal_cases)
  case 1
  show ?case by simp
next
  case (2 key off data size)
  then show ?case using record_size_pos [of "le16 (drop (off + 2) data)"] by simp
next
  case (3 key off data size)
  then show ?case using record_size_pos [of "le16 (drop (off + 2) data)"] by simp
qed

declare image_drop.simps [simp del]

definition image_put :: "u16 \<Rightarrow> bytes \<Rightarrow> u16 \<Rightarrow> image \<Rightarrow> bool \<times> image" where
  "image_put key value len img =
     (let img = img\<lparr>im_data := image_drop key HEADER_SIZE (im_data img)\<rparr> in
      if len = 0 then (True, img)
      else if length (im_data img) + record_size len > KV_SECTOR_SIZE then (False, img)
      else (True, img\<lparr>im_data := im_data img @ encode_record key value len\<rparr>))"

definition collect_visit :: "image kv_visitor" where
  "collect_visit img key value len off =
     (let (ok, img) = image_put key value len img in if ok then img else img\<lparr>im_overflow := True\<rparr>)"

function verify_loop :: "'h platform \<Rightarrow> nat \<Rightarrow> bytes \<Rightarrow> nat \<Rightarrow> 'h \<Rightarrow> (errno + unit) \<times> 'h" where
  "verify_loop pf off src done_n h =
     (if done_n < length src then
        let n = (if length src - done_n < 32 then length src - done_n else 32);
            (block, h) = kv_read pf (off + done_n) n h
        in if block \<noteq> slice done_n n src then (Inl EIO, h)
           else verify_loop pf off src (done_n + 32) h
      else (Inr (), h))"
  by auto
termination by (relation "measure (\<lambda>(pf, off, src, done_n, h). length src - done_n)") auto

declare verify_loop.simps [simp del]

definition write_verified :: "'h platform \<Rightarrow> nat \<Rightarrow> bytes \<Rightarrow> 'h \<Rightarrow> (errno + unit) \<times> 'h" where
  "write_verified pf off src h =
     (let h = flash_write pf (KV_BASE + of_nat off) src h in verify_loop pf off src 0 h)"

definition rebuild ::
  "'h platform \<Rightarrow> flash_kv_state \<Rightarrow> u16 \<Rightarrow> bytes \<Rightarrow> u16 \<Rightarrow> 'h \<Rightarrow> ((errno + unit) \<times> 'h) option" where
  "rebuild pf st key value len h =
     (let (ok, h) = pf_malloc pf KV_SECTOR_SIZE h in
      if \<not> ok then Some (Inl ENOMEM, h)
      else
        let img = \<lparr>im_data = encode_header, im_overflow = False\<rparr> in
        case (if st = FLASH_KV_VALID \<or> st = FLASH_KV_TORN
              then map_option (\<lambda>((_, _, img), h). (img, h)) (walk pf collect_visit img h)
              else Some (img, h)) of
          None \<Rightarrow> None
        | Some (img, h) \<Rightarrow>
            if im_overflow img then Some (Inl ENOSPC, h)
            else case image_put key value len img of
                (False, _) \<Rightarrow> Some (Inl ENOSPC, h)
              | (True, img) \<Rightarrow>
                  Some (write_verified pf 0 (im_data img) (flash_erase_sector pf KV_BASE h)))"

definition append_record ::
  "'h platform \<Rightarrow> u16 \<Rightarrow> bytes \<Rightarrow> u16 \<Rightarrow> 'h \<Rightarrow> ((errno + unit) \<times> 'h) option" where
  "append_record pf key value len h =
     (case scan pf h of
        None \<Rightarrow> None
      | Some ((st, end_off), h) \<Rightarrow>
          if st = FLASH_KV_VALID \<and> end_off + record_size len \<le> KV_SECTOR_SIZE then
            let (ok, h) = pf_malloc pf RECORD_MAX_SIZE h in
            if \<not> ok then Some (Inl ENOMEM, h)
            else Some (write_verified pf end_off (encode_record key value len) h)
          else rebuild pf st key value len h)"

definition flash_kv_erase_key :: "'h platform \<Rightarrow> u16 \<Rightarrow> 'h \<Rightarrow> ((errno + unit) \<times> 'h) option" where
  "flash_kv_erase_key pf key h =
     (case flash_kv_get pf key False 0 0 h of
        None \<Rightarrow> None
      | Some ((Inl e, _), h) \<Rightarrow> if e = ENOENT then Some (Inr (), h) else Some (Inl e, h)
      | Some ((Inr _, _), h) \<Rightarrow> append_record pf key [] 0 h)"

text \<open>\<open>data\<close> is \<open>None\<close> for a \<open>NULL\<close> pointer, otherwise the \<open>len\<close> bytes it points to.\<close>

definition flash_kv_set ::
  "'h platform \<Rightarrow> u16 \<Rightarrow> bytes option \<Rightarrow> nat \<Rightarrow> 'h \<Rightarrow> ((errno + unit) \<times> 'h) option" where
  "flash_kv_set pf key data len h =
     (if key = FLASH_KV_KEY_NONE \<or> len > FLASH_KV_MAX_VALUE_LEN \<or> (len \<noteq> 0 \<and> data = None)
      then Some (Inl EINVAL, h)
      else if len = 0 then flash_kv_erase_key pf key h
      else
        let (ok, h) = pf_malloc pf len h in
        if \<not> ok then Some (Inl ENOMEM, h)
        else case flash_kv_get pf key True len 0 h of
            None \<Rightarrow> None
          | Some ((r, current), h) \<Rightarrow>
              if r = Inr len \<and> current = Some (take len (the data)) then Some (Inr (), h)
              else append_record pf key (the data) (of_nat len) h)"

function erase_check :: "'h platform \<Rightarrow> nat \<Rightarrow> 'h \<Rightarrow> (errno + unit) \<times> 'h" where
  "erase_check pf off h =
     (if off < KV_SECTOR_SIZE then
        let (block, h) = kv_read pf off 32 h in
        if list_ex (\<lambda>b. b \<noteq> 0xFF) block then (Inl EIO, h) else erase_check pf (off + 32) h
      else (Inr (), h))"
  by auto
termination by (relation "measure (\<lambda>(pf, off, h). KV_SECTOR_SIZE - off)") auto

declare erase_check.simps [simp del]

definition flash_kv_erase :: "'h platform \<Rightarrow> 'h \<Rightarrow> (errno + unit) \<times> 'h" where
  "flash_kv_erase pf h =
     (let h = flash_unprotect pf h; h = flash_erase_sector pf KV_BASE h in erase_check pf 0 h)"

definition flash_kv_set_u8 :: "'h platform \<Rightarrow> u16 \<Rightarrow> u8 \<Rightarrow> 'h \<Rightarrow> ((errno + unit) \<times> 'h) option" where
  "flash_kv_set_u8 pf key value h = flash_kv_set pf key (Some [value]) 1 h"

definition flash_kv_set_bool :: "'h platform \<Rightarrow> u16 \<Rightarrow> bool \<Rightarrow> 'h \<Rightarrow> ((errno + unit) \<times> 'h) option" where
  "flash_kv_set_bool pf key value h = flash_kv_set_u8 pf key (if value then 1 else 0) h"

text \<open>The string is given without its terminator.\<close>

definition flash_kv_set_string :: "'h platform \<Rightarrow> u16 \<Rightarrow> bytes \<Rightarrow> 'h \<Rightarrow> ((errno + unit) \<times> 'h) option" where
  "flash_kv_set_string pf key src h = flash_kv_set pf key (Some src) (length src) h"

section \<open>Listing\<close>

text \<open>The table of the newest offset of each key, as far as it is filled.\<close>

type_synonym latest = "u16 \<times> u16"

fun latest_update :: "u16 \<Rightarrow> u16 \<Rightarrow> latest list \<Rightarrow> latest list" where
  "latest_update key off [] = [(key, off)]"
| "latest_update key off ((k, v) # table) =
     (if k = key then (k, off) # table else (k, v) # latest_update key off table)"

definition latest_visit :: "latest list kv_visitor" where
  "latest_visit table key value len off = latest_update key (of_nat off) table"

definition report_status :: "latest list \<Rightarrow> u16 \<Rightarrow> u16 \<Rightarrow> nat \<Rightarrow> flash_kv_record_status" where
  "report_status table key len off =
     (if list_ex (\<lambda>(k, v). k = key \<and> unat v = off) table
      then if len \<noteq> 0 then FLASH_KV_RECORD_LIVE else FLASH_KV_RECORD_DELETED
      else FLASH_KV_RECORD_OLD)"

definition report_visit :: "latest list \<Rightarrow> flash_kv_record list kv_visitor" where
  "report_visit table out key value len off =
     out @ [\<lparr>rec_offset = off, rec_key = key, rec_len = len, rec_value = value,
              rec_status = report_status table key len off\<rparr>]"

text \<open>The result lists the records the caller's visitor is called with, and the value of \<open>*used\<close>.\<close>

definition flash_kv_foreach ::
  "'h platform \<Rightarrow> 'h \<Rightarrow> ((flash_kv_state \<times> flash_kv_record list \<times> nat) \<times> 'h) option" where
  "flash_kv_foreach pf h =
     (case scan pf h of
        None \<Rightarrow> None
      | Some ((st, _), h) \<Rightarrow>
          if st \<noteq> FLASH_KV_VALID \<and> st \<noteq> FLASH_KV_TORN then Some ((st, [], 0), h)
          else
            let (ok, h) = pf_malloc pf (MAX_RECORDS * 4) h in
            if \<not> ok then None
            else case walk pf latest_visit [] h of
                None \<Rightarrow> None
              | Some ((_, _, table), h) \<Rightarrow>
                  (case walk pf (report_visit table) [] h of
                     None \<Rightarrow> None
                   | Some ((_, end_off, out), h) \<Rightarrow> Some ((st, out, end_off), h)))"

end
