(* ===== verification/Flash_Kv_Log.thy ===== *)
theory Flash_Kv_Log
  imports Flash_Kv
begin

text \<open>
  The log of the key-value store as a pure function of the sector's bytes. \<open>parse_log\<close> lists the records
  the loop of \<open>walk\<close> accepts; the lemmas show that an encoded record parses back, that a log is not
  affected by what is written behind its end, and that the image built by a compaction holds the live
  records. \<open>kv_map\<close> is the map from keys to values that a log stands for.
\<close>

section \<open>Sizes\<close>

lemma align4_bounds: "n \<le> align4 n" "align4 n \<le> n + 3" "align4 n mod 4 = 0" "4 dvd align4 n"
  unfolding align4_def by presburger+

lemma record_size_mod [simp]: "record_size len mod 4 = 0"
  unfolding record_size_def align4_def by presburger

lemma record_size_bound: "unat len \<le> 256 \<Longrightarrow> record_size len \<le> 264"
  unfolding record_size_def align4_def by presburger

lemma record_size_ge: "unat len + 8 \<le> record_size len"
  using align4_bounds(1) [of "unat len"] by (simp add: record_size_def)

section \<open>Parsing the log\<close>

type_synonym kv_rec = "u16 \<times> bytes \<times> u16 \<times> nat"

function parse_log :: "bytes \<Rightarrow> nat \<Rightarrow> kv_rec list \<times> bool \<times> nat" where
  "parse_log sec off =
     (if off = KV_SECTOR_SIZE then ([], True, off)
      else
        let head = slice off 4 sec; key = le16 head; len = le16 (drop 2 head) in
        if key = FLASH_KV_KEY_NONE then ([], True, off)
        else if unat len > FLASH_KV_MAX_VALUE_LEN \<or> off + record_size len > KV_SECTOR_SIZE
        then ([], False, off)
        else
          let v = slice (off + 4) (unat len) sec; crc = slice (off + 4 + align4 (unat len)) 4 sec in
          if le32 crc \<noteq> record_crc head v len then ([], False, off)
          else let (rs, clean, e) = parse_log sec (off + record_size len)
               in ((key, v, len, off) # rs, clean, e))"
  by auto
termination
proof (relation "measure (\<lambda>(sec, off). KV_SECTOR_SIZE - off)", goal_cases)
  case 1
  show ?case by simp
next
  case (2 sec off head key len v crc)
  then show ?case using record_size_pos [of len] by auto
qed

declare parse_log.simps [simp del]

abbreviation log_recs :: "bytes \<Rightarrow> nat \<Rightarrow> kv_rec list" where
  "log_recs sec off \<equiv> fst (parse_log sec off)"

abbreviation log_clean :: "bytes \<Rightarrow> nat \<Rightarrow> bool" where
  "log_clean sec off \<equiv> fst (snd (parse_log sec off))"

abbreviation log_end :: "bytes \<Rightarrow> nat \<Rightarrow> nat" where
  "log_end sec off \<equiv> snd (snd (parse_log sec off))"

text \<open>The three ways a step of the parser can go.\<close>

definition rec_at :: "bytes \<Rightarrow> nat \<Rightarrow> u16 \<Rightarrow> bytes \<Rightarrow> u16 \<Rightarrow> bool" where
  "rec_at sec off key v len \<longleftrightarrow>
     off \<noteq> KV_SECTOR_SIZE \<and> key = le16 (slice off 4 sec) \<and> len = le16 (drop 2 (slice off 4 sec))
     \<and> key \<noteq> FLASH_KV_KEY_NONE \<and> unat len \<le> FLASH_KV_MAX_VALUE_LEN \<and> off + record_size len \<le> KV_SECTOR_SIZE
     \<and> v = slice (off + 4) (unat len) sec
     \<and> le32 (slice (off + 4 + align4 (unat len)) 4 sec) = record_crc (slice off 4 sec) v len"

lemma parse_log_rec:
  "rec_at sec off key v len \<Longrightarrow>
   parse_log sec off = ((key, v, len, off) # log_recs sec (off + record_size len),
     log_clean sec (off + record_size len), log_end sec (off + record_size len))"
  by (subst parse_log.simps) (auto simp: rec_at_def Let_def split_beta)

lemma parse_log_stop:
  "\<nexists>key v len. rec_at sec off key v len \<Longrightarrow> log_recs sec off = [] \<and> log_end sec off = off"
  by (subst (1 2) parse_log.simps) (auto simp: rec_at_def Let_def)

lemma rec_atD:
  assumes "rec_at sec off key v len"
  shows "off + record_size len \<le> KV_SECTOR_SIZE" "key \<noteq> FLASH_KV_KEY_NONE" "unat len \<le> 256"
    "v = slice (off + 4) (unat len) sec"
  using assms unfolding rec_at_def by blast+

lemma rec_at_less: "rec_at sec off key v len \<Longrightarrow> off + 8 \<le> KV_SECTOR_SIZE"
  using record_size_pos [of len] rec_atD(1) by fastforce

lemma log_induct [consumes 1, case_names stop step]:
  assumes "off \<le> KV_SECTOR_SIZE"
    and "\<And>off. off \<le> KV_SECTOR_SIZE \<Longrightarrow> \<nexists>key v len. rec_at sec off key v len \<Longrightarrow> P off"
    and "\<And>off key v len. off \<le> KV_SECTOR_SIZE \<Longrightarrow> rec_at sec off key v len \<Longrightarrow> P (off + record_size len) \<Longrightarrow> P off"
  shows "P off"
  using assms(1)
proof (induction "KV_SECTOR_SIZE - off" arbitrary: off rule: less_induct)
  case less
  show ?case
  proof (cases "\<exists>key v len. rec_at sec off key v len")
    case True
    then obtain key v len where r: "rec_at sec off key v len" by blast
    then have "off + record_size len \<le> KV_SECTOR_SIZE" "KV_SECTOR_SIZE - (off + record_size len) < KV_SECTOR_SIZE - off"
      using rec_at_less [OF r] record_size_pos [of len] by (auto simp: rec_at_def)
    then show ?thesis using less.hyps assms(3) [OF less.prems r] by blast
  qed (use assms(2) less.prems in blast)
qed

lemma log_end_bounds:
  assumes "off \<le> KV_SECTOR_SIZE"
  shows "off \<le> log_end sec off \<and> log_end sec off \<le> KV_SECTOR_SIZE \<and> log_end sec off mod 4 = off mod 4"
  using assms
proof (induction off rule: log_induct [of _ sec])
  case (stop off)
  then show ?case using parse_log_stop by simp
next
  case (step off key v len)
  moreover have "(off + record_size len) mod 4 = off mod 4"
    by (simp add: mod_add_right_eq [of off "record_size len", symmetric])
  ultimately show ?case by (simp add: parse_log_rec [OF step(2)])
qed

text \<open>What a record of the log is: its bytes are in the sector.\<close>

lemma log_recs_wf:
  assumes "off \<le> KV_SECTOR_SIZE" "length sec = KV_SECTOR_SIZE" "(key, v, len, o') \<in> set (log_recs sec off)"
  shows "v = slice (o' + 4) (unat len) sec \<and> length v = unat len \<and> unat len \<le> 256 \<and> key \<noteq> FLASH_KV_KEY_NONE
     \<and> off \<le> o' \<and> o' + record_size len \<le> KV_SECTOR_SIZE"
  using assms
proof (induction off rule: log_induct [of _ sec])
  case (stop off)
  then show ?case using parse_log_stop by simp
next
  case (step off key' v' len')
  then show ?case
    using record_size_ge [of len'] by (auto simp: parse_log_rec [OF step(2)] rec_at_def)
qed

text \<open>Bytes from the end of the log on do not matter to the records before it.\<close>

lemma rec_at_cong:
  assumes "rec_at sec off key v len" "length sec = KV_SECTOR_SIZE" "length sec' = KV_SECTOR_SIZE"
    and "\<And>i. i < off + record_size len \<Longrightarrow> sec' ! i = sec ! i"
  shows "rec_at sec' off key v len"
proof -
  have eq: "slice a n sec' = slice a n sec" if "a + n \<le> off + record_size len" for a n
    using that assms by (intro slice_eqI) (auto simp: rec_at_def)
  have "slice off 4 sec' = slice off 4 sec" "slice (off + 4) (unat len) sec' = slice (off + 4) (unat len) sec"
    "slice (off + 4 + align4 (unat len)) 4 sec' = slice (off + 4 + align4 (unat len)) 4 sec"
    by (rule eq, use align4_bounds(1) [of "unat len"] in \<open>simp add: record_size_def\<close>)+
  then show ?thesis using assms(1) by (auto simp: rec_at_def)
qed

lemma parse_log_extend:
  assumes "off \<le> KV_SECTOR_SIZE" "length sec = KV_SECTOR_SIZE" "length sec' = KV_SECTOR_SIZE"
    and "\<And>i. i < log_end sec off \<Longrightarrow> sec' ! i = sec ! i"
  shows "log_recs sec' off = log_recs sec off @ log_recs sec' (log_end sec off)
     \<and> log_clean sec' off = log_clean sec' (log_end sec off) \<and> log_end sec' off = log_end sec' (log_end sec off)"
  using assms
proof (induction off rule: log_induct [of _ sec])
  case (stop off)
  then show ?case using parse_log_stop by simp
next
  case (step off key v len)
  have e: "log_end sec off = log_end sec (off + record_size len)" by (simp add: parse_log_rec [OF step(2)])
  have "off + record_size len \<le> log_end sec (off + record_size len)"
    using log_end_bounds [of "off + record_size len" sec] rec_atD(1) [OF step(2)] by simp
  then have "rec_at sec' off key v len"
    using step.prems e by (intro rec_at_cong [OF step(2)]) auto
  then show ?case using step.IH step.prems e by (simp add: parse_log_rec [OF step(2)] parse_log_rec)
qed

section \<open>Encoding\<close>

lemma unat_le_256 [simp]: "unat (of_nat n :: u16) = n" if "n \<le> 256"
  using that by (simp add: unat_of_nat)

lemma encode_record_eq:
  assumes "length v = unat len"
  shows "encode_record key v len = le16_bytes key @ le16_bytes len @ v @ replicate (align4 (unat len) - unat len) 0
     @ le32_bytes (record_crc (le16_bytes key @ le16_bytes len) v len)"
proof -
  define pad where "pad = align4 (unat len) - unat len"
  define body where "body = le16_bytes key @ le16_bytes len @ v @ replicate pad 0"
  have pad: "align4 (unat len) = unat len + pad" using align4_bounds(1) [of "unat len"] by (simp add: pad_def)
  have sz: "record_size len = length body + 4" using assms pad by (simp add: record_size_def body_def)
  have zeros: "replicate (record_size len) (0 :: u8) = replicate 2 0 @ replicate 2 0 @ replicate (unat len) 0
      @ replicate pad 0 @ replicate 4 0"
    by (simp add: record_size_def pad flip: replicate_add)
  define dst where "dst = buf_write 2 (le16_bytes len) (buf_write 0 (le16_bytes key) (replicate (record_size len) 0))"
  have dst: "dst = le16_bytes key @ le16_bytes len @ replicate (unat len) 0 @ replicate pad 0 @ replicate 4 0"
    unfolding dst_def zeros by (simp add: buf_write_def)
  have full: "(if len \<noteq> 0 then buf_write 4 (take (unat len) v) dst else dst) = body @ replicate 4 0"
    using assms by (auto simp: dst buf_write_def body_def)
  have "record_crc (body @ replicate 4 0) (drop 4 (body @ replicate 4 0)) len
      = record_crc (le16_bytes key @ le16_bytes len) v len"
    using assms by (simp add: record_crc_def body_def)
  then show ?thesis
    unfolding encode_record_def Let_def
    unfolding dst_def [symmetric] full
    unfolding sz by (simp add: buf_write_def) (simp add: body_def pad_def)
qed

lemma length_encode_record: "length v = unat len \<Longrightarrow> length (encode_record key v len) = record_size len"
  using align4_bounds(1) [of "unat len"] by (simp add: encode_record_eq record_size_def)

text \<open>A record that is in the sector as it was encoded is accepted by the parser.\<close>

lemma rec_at_encode:
  assumes "slice off (record_size len) sec = encode_record key v len"
    and "length v = unat len" "unat len \<le> 256" "key \<noteq> FLASH_KV_KEY_NONE" "off + record_size len \<le> KV_SECTOR_SIZE"
  shows "rec_at sec off key v len"
proof -
  let ?r = "encode_record key v len"
  define pad where "pad = align4 (unat len) - unat len"
  have pad: "align4 (unat len) = unat len + pad" using align4_bounds(1) [of "unat len"] by (simp add: pad_def)
  have r: "?r = le16_bytes key @ le16_bytes len @ v @ replicate pad 0
      @ le32_bytes (record_crc (le16_bytes key @ le16_bytes len) v len)"
    using encode_record_eq [OF assms(2)] by (simp add: pad_def)
  have part: "slice (off + a) n sec = slice a n ?r" if "a + n \<le> record_size len" for a n
    using that by (simp flip: assms(1) add: slice_slice)
  have "slice (off + 0) 4 sec = le16_bytes key @ le16_bytes len"
    using record_size_pos [of len] by (subst part) (simp_all add: r slice_def)
  moreover have "slice (off + 4) (unat len) sec = v"
    using record_size_ge [of len] assms(2) by (subst part) (simp_all add: r slice_def)
  moreover have "slice (off + (4 + align4 (unat len))) 4 sec
      = le32_bytes (record_crc (le16_bytes key @ le16_bytes len) v len)"
    using assms(2) by (subst part) (simp_all add: record_size_def r slice_def pad)
  ultimately show ?thesis
    using assms(3-5) record_size_pos [of len] by (simp add: rec_at_def add.assoc)
qed

text \<open>Parsing goes on cleanly to the end of the sector or to the first blank head.\<close>

lemma parse_log_blank:
  assumes "length sec = KV_SECTOR_SIZE" "off \<le> KV_SECTOR_SIZE" "off mod 4 = 0"
    and "\<forall>i. off \<le> i \<longrightarrow> i < KV_SECTOR_SIZE \<longrightarrow> sec ! i = 0xFF"
  shows "parse_log sec off = ([], True, off)"
proof (cases "off = KV_SECTOR_SIZE")
  case True
  then show ?thesis by (simp add: parse_log.simps)
next
  case False
  then have "off + 4 \<le> KV_SECTOR_SIZE" using assms(2,3) by presburger
  then have "slice off 4 sec = replicate 4 0xFF"
    using assms(1,4) by (intro slice_eqI) auto
  moreover have "le16 (replicate 4 0xFF) = FLASH_KV_KEY_NONE" by (simp add: le16_def)
  ultimately show ?thesis using False by (subst parse_log.simps) (simp only: Let_def if_True if_False simp_thms)
qed

section \<open>The map a log stands for\<close>

fun kv_apply :: "(u16 \<rightharpoonup> bytes) \<Rightarrow> kv_rec \<Rightarrow> u16 \<rightharpoonup> bytes" where
  "kv_apply m (key, v, len, off) = m(key := (if len = 0 then None else Some v))"

definition kv_map :: "kv_rec list \<Rightarrow> u16 \<rightharpoonup> bytes" where
  "kv_map rs = foldl kv_apply Map.empty rs"

lemma kv_map_snoc: "kv_map (rs @ [r]) = kv_apply (kv_map rs) r"
  by (simp add: kv_map_def)

definition header_valid :: "bytes \<Rightarrow> bool" where
  "header_valid sec \<longleftrightarrow> le32 (slice 0 8 sec) = KV_MAGIC \<and> le32 (drop 4 (slice 0 8 sec)) = KV_VERSION"

definition kv_abs :: "bytes \<Rightarrow> u16 \<rightharpoonup> bytes" where
  "kv_abs sec = (if header_valid sec then kv_map (log_recs sec HEADER_SIZE) else Map.empty)"

section \<open>Appending a record\<close>

lemma append_parse:
  assumes "length sec = KV_SECTOR_SIZE" "e = log_end sec HEADER_SIZE"
    and "\<forall>i. e \<le> i \<longrightarrow> i < KV_SECTOR_SIZE \<longrightarrow> sec ! i = 0xFF"
    and "length v = unat len" "unat len \<le> 256" "key \<noteq> FLASH_KV_KEY_NONE" "e + record_size len \<le> KV_SECTOR_SIZE"
    and "sec' = buf_write e (encode_record key v len) sec"
  shows "log_recs sec' HEADER_SIZE = log_recs sec HEADER_SIZE @ [(key, v, len, e)]"
    "log_clean sec' HEADER_SIZE" "log_end sec' HEADER_SIZE = e + record_size len"
proof -
  have len': "length sec' = KV_SECTOR_SIZE"
    using assms(1,4,7,8) by (simp add: length_encode_record)
  have old: "sec' ! i = sec ! i" if "i < e \<or> e + record_size len \<le> i" "i < KV_SECTOR_SIZE" for i
    using that assms(1,4,7,8) by (auto simp: length_encode_record nth_buf_write)
  have e: "e \<le> KV_SECTOR_SIZE" "e mod 4 = 0"
    using log_end_bounds [of 8 sec] assms(2) by simp_all
  have "rec_at sec' e key v len"
    using assms by (intro rec_at_encode) (simp_all add: length_encode_record)
  note r = parse_log_rec [OF this]
  have "(e + record_size len) mod 4 = 0"
    using e(2) by (simp add: mod_add_eq [of e 4 "record_size len", symmetric])
  moreover have "\<forall>i. e + record_size len \<le> i \<longrightarrow> i < KV_SECTOR_SIZE \<longrightarrow> sec' ! i = 0xFF"
    using old assms(3) by simp
  ultimately have "parse_log sec' (e + record_size len) = ([], True, e + record_size len)"
    using len' assms(7) by (intro parse_log_blank)
  with r have "parse_log sec' e = ([(key, v, len, e)], True, e + record_size len)" by simp
  then show "log_recs sec' HEADER_SIZE = log_recs sec HEADER_SIZE @ [(key, v, len, e)]"
    "log_clean sec' HEADER_SIZE" "log_end sec' HEADER_SIZE = e + record_size len"
    using parse_log_extend [of 8 sec sec'] old e(1) assms(1,2) len' by simp_all
qed

section \<open>Compaction\<close>

type_synonym kv_item = "u16 \<times> bytes"

abbreviation item_len :: "bytes \<Rightarrow> u16" where
  "item_len v \<equiv> of_nat (length v)"

definition enc_items :: "kv_item list \<Rightarrow> bytes" where
  "enc_items xs = concat (map (\<lambda>(k, v). encode_record k v (item_len v)) xs)"

definition items_size :: "kv_item list \<Rightarrow> nat" where
  "items_size xs = sum_list (map (\<lambda>(k, v). record_size (item_len v)) xs)"

definition good_item :: "kv_item \<Rightarrow> bool" where
  "good_item x \<longleftrightarrow> snd x \<noteq> [] \<and> length (snd x) \<le> 256 \<and> fst x \<noteq> FLASH_KV_KEY_NONE"

fun log_of :: "nat \<Rightarrow> kv_item list \<Rightarrow> kv_rec list" where
  "log_of off [] = []"
| "log_of off ((k, v) # xs) = (k, v, item_len v, off) # log_of (off + record_size (item_len v)) xs"

lemma enc_items_simps [simp]:
  "enc_items [] = []" "enc_items ((k, v) # xs) = encode_record k v (item_len v) @ enc_items xs"
  "enc_items (xs @ ys) = enc_items xs @ enc_items ys"
  by (simp_all add: enc_items_def)

lemma items_size_simps [simp]:
  "items_size [] = 0" "items_size ((k, v) # xs) = record_size (item_len v) + items_size xs"
  "items_size (xs @ ys) = items_size xs + items_size ys"
  by (simp_all add: items_size_def)

lemma length_enc_items: "\<forall>x \<in> set xs. good_item x \<Longrightarrow> length (enc_items xs) = items_size xs"
  by (induction xs) (auto simp: length_encode_record good_item_def)

lemma items_size_mod [simp]: "items_size xs mod 4 = 0"
proof (induction xs)
  case (Cons x xs)
  then show ?case by (cases x) (simp add: mod_add_eq [of "record_size _" 4, symmetric])
qed simp

lemma parse_enc_items:
  assumes "\<forall>x \<in> set xs. good_item x" "length pre mod 4 = 0"
    and "length pre + items_size xs + m = KV_SECTOR_SIZE"
  shows "parse_log (pre @ enc_items xs @ replicate m 0xFF) (length pre)
       = (log_of (length pre) xs, True, length pre + items_size xs)"
  using assms
proof (induction xs arbitrary: pre)
  case Nil
  then show ?case by (simp add: parse_log_blank nth_append)
next
  case (Cons x xs)
  obtain k v where x: "x = (k, v)" by fastforce
  let ?len = "item_len v" and ?r = "encode_record k v (item_len v)"
  let ?sec = "pre @ enc_items (x # xs) @ replicate m 0xFF"
  have good: "length v = unat ?len" "unat ?len \<le> 256" "k \<noteq> FLASH_KV_KEY_NONE" "\<forall>x \<in> set xs. good_item x"
    using Cons.prems(1) by (auto simp: x good_item_def)
  have r: "length ?r = record_size ?len" using good(1) by (rule length_encode_record)
  have sec: "?sec = (pre @ ?r) @ enc_items xs @ replicate m 0xFF" by (simp add: x)
  have "slice (length pre) (record_size ?len) ?sec = ?r" by (simp add: x slice_def flip: r)
  then have "rec_at ?sec (length pre) k v ?len"
    using good Cons.prems(3) by (intro rec_at_encode) (simp_all add: x)
  then have "parse_log ?sec (length pre) = ((k, v, ?len, length pre) # log_recs ?sec (length pre + record_size ?len),
     log_clean ?sec (length pre + record_size ?len), log_end ?sec (length pre + record_size ?len))"
    by (rule parse_log_rec)
  moreover have "parse_log ?sec (length pre + record_size ?len)
      = (log_of (length pre + record_size ?len) xs, True, length pre + record_size ?len + items_size xs)"
    using Cons.IH [of "pre @ ?r"] good(4) Cons.prems(2,3)
    by (simp add: sec r x mod_add_eq [of "length pre" 4 "record_size ?len", symmetric])
  ultimately show ?case by (simp add: x)
qed

lemma le16_drop_record:
  assumes "length v = unat len"
  shows "le16 (encode_record k v len @ ys) = k" "le16 (drop 2 (encode_record k v len @ ys)) = len"
  using assms by (simp_all add: encode_record_eq)

lemma image_drop_items:
  assumes "\<forall>x \<in> set xs. good_item x"
  shows "image_drop key (length pre) (pre @ enc_items xs) = pre @ enc_items (filter (\<lambda>x. fst x \<noteq> key) xs)"
  using assms
proof (induction xs arbitrary: pre)
  case Nil
  then show ?case by (simp add: image_drop.simps)
next
  case (Cons x xs)
  obtain k v where x: "x = (k, v)" by fastforce
  let ?r = "encode_record k v (item_len v)" and ?data = "pre @ enc_items (x # xs)"
  have good: "length v = unat (item_len v)" using Cons.prems by (auto simp: x good_item_def)
  have r: "length ?r = record_size (item_len v)" using good by (rule length_encode_record)
  have lt: "length pre < length ?data" using r record_size_pos [of "item_len v"] by (simp add: x)
  have k: "le16 (drop (length pre) ?data) = k" using le16_drop_record(1) [OF good] by (simp add: x)
  have l: "le16 (drop (length pre + 2) ?data) = item_len v"
    using le16_drop_record(2) [OF good, of k "enc_items xs"] by (simp add: x)
  have cut: "take (length pre) ?data @ drop (length pre + record_size (item_len v)) ?data = pre @ enc_items xs"
    by (simp add: x flip: r)
  have skip: "?data = (pre @ ?r) @ enc_items xs" "length pre + record_size (item_len v) = length (pre @ ?r)"
    using r by (simp_all add: x)
  show ?case
  proof (cases "k = key")
    case True
    then have "image_drop key (length pre) ?data = image_drop key (length pre) (pre @ enc_items xs)"
      by (subst image_drop.simps) (simp only: lt k l cut Let_def if_True simp_thms)
    then show ?thesis using Cons True by (simp add: x)
  next
    case False
    then have "image_drop key (length pre) ?data = image_drop key (length (pre @ ?r)) ((pre @ ?r) @ enc_items xs)"
      by (subst image_drop.simps) (simp only: lt k l Let_def if_True if_False simp_thms skip [symmetric])
    also have "\<dots> = (pre @ ?r) @ enc_items (filter (\<lambda>x. fst x \<noteq> key) xs)"
      using Cons by (intro Cons.IH) simp
    finally show ?thesis using False by (simp add: x)
  qed
qed

text \<open>The live items: what collecting the records of a log leaves in the image.\<close>

definition drop_key :: "u16 \<Rightarrow> kv_item list \<Rightarrow> kv_item list" where
  "drop_key key xs = filter (\<lambda>x. fst x \<noteq> key) xs"

definition put_item :: "u16 \<Rightarrow> bytes \<Rightarrow> kv_item list \<Rightarrow> kv_item list" where
  "put_item key v xs = drop_key key xs @ (if v = [] then [] else [(key, v)])"

definition live :: "kv_rec list \<Rightarrow> kv_item list" where
  "live rs = foldl (\<lambda>xs (key, v, len, off). put_item key v xs) [] rs"

definition good_rec :: "kv_rec \<Rightarrow> bool" where
  "good_rec r \<longleftrightarrow> (case r of (key, v, len, off) \<Rightarrow>
     length v = unat len \<and> unat len \<le> 256 \<and> key \<noteq> FLASH_KV_KEY_NONE)"

definition recs_size :: "kv_rec list \<Rightarrow> nat" where
  "recs_size rs = sum_list (map (\<lambda>(key, v, len, off). record_size len) rs)"

lemma item_len_eq:
  assumes "length v = unat (len :: u16)"
  shows "item_len v = len" "v = [] \<longleftrightarrow> len = 0"
proof -
  show "item_len v = len" using assms by simp
  show "v = [] \<longleftrightarrow> len = 0" using assms by (metis length_0_conv unat_eq_0)
qed

lemma live_snoc: "live (rs @ [(key, v, len, off)]) = put_item key v (live rs)"
  by (simp add: live_def)

lemma good_rec_len:
  assumes "good_rec (key, v, len, off)"
  shows "item_len v = len" "v = [] \<longleftrightarrow> len = 0"
  using assms item_len_eq by (auto simp: good_rec_def)

lemma items_size_drop_key: "items_size (drop_key key xs) \<le> items_size xs"
proof (induction xs)
  case (Cons x xs)
  then show ?case by (cases x) (auto simp: drop_key_def)
qed (simp add: drop_key_def)

lemma live_good: "\<forall>r \<in> set rs. good_rec r \<Longrightarrow> \<forall>x \<in> set (live rs). good_item x"
proof (induction rs rule: rev_induct)
  case (snoc r rs)
  then show ?case
    by (cases r) (auto simp: live_snoc put_item_def drop_key_def good_item_def good_rec_def)
qed (simp add: live_def)

lemma live_distinct: "distinct (map fst (live rs))"
proof (induction rs rule: rev_induct)
  case (snoc r rs)
  then show ?case
    by (cases r) (auto simp: live_snoc put_item_def drop_key_def distinct_map_filter)
qed (simp add: live_def)

lemma live_size: "\<forall>r \<in> set rs. good_rec r \<Longrightarrow> items_size (live rs) \<le> recs_size rs"
proof (induction rs rule: rev_induct)
  case (snoc r rs)
  obtain key v len off where r: "r = (key, v, len, off)" by (metis prod.exhaust)
  have "items_size (put_item key v (live rs)) \<le> items_size (live rs) + record_size len"
    using items_size_drop_key [of key "live rs"] good_rec_len(1) [of key v len off] snoc.prems
    by (auto simp: put_item_def r)
  then show ?case using snoc by (simp add: r live_snoc recs_size_def)
qed (simp add: live_def recs_size_def)

lemma map_of_drop_key: "map_of (drop_key key xs) = (map_of xs)(key := None)"
  by (induction xs) (auto simp: drop_key_def)

lemma map_of_put_item:
  "map_of (put_item key v xs) = (map_of xs)(key := (if v = [] then None else Some v))"
  by (rule ext) (auto simp: put_item_def map_of_drop_key map_add_def split: option.splits)

lemma map_of_live: "\<forall>r \<in> set rs. good_rec r \<Longrightarrow> map_of (live rs) = kv_map rs"
proof (induction rs rule: rev_induct)
  case (snoc r rs)
  obtain key v len off where r: "r = (key, v, len, off)" by (metis prod.exhaust)
  then have "v = [] \<longleftrightarrow> len = 0" using snoc.prems good_rec_len(2) [of key v len off] by simp
  then show ?case using snoc by (simp add: r live_snoc kv_map_snoc map_of_put_item)
qed (simp add: live_def kv_map_def)

lemma kv_map_log_of:
  assumes "\<forall>x \<in> set xs. good_item x" "distinct (map fst xs)"
  shows "kv_map (log_of off xs) = map_of xs"
proof -
  have "foldl kv_apply m (log_of off xs) = m ++ map_of xs" for m
    using assms
  proof (induction xs arbitrary: off m)
    case (Cons x xs)
    obtain k v where x: "x = (k, v)" by fastforce
    have "item_len v \<noteq> 0"
      using Cons.prems(1) unat_le_256 [of "length v"] by (auto simp: x good_item_def simp del: unat_le_256)
    moreover have "k \<notin> dom (map_of xs)" using Cons.prems(2) by (simp add: x dom_map_of_conv_image_fst)
    ultimately show ?case
      using Cons by (intro ext) (auto simp: x map_add_def split: option.splits)
  qed simp
  then show ?thesis by (simp add: kv_map_def)
qed

lemma length_encode_header [simp]: "length encode_header = 8"
  by (simp add: encode_header_def)

lemma image_put_items:
  assumes "\<forall>x \<in> set xs. good_item x" "im_data img = encode_header @ enc_items xs"
    and "length v = unat len" "unat len \<le> 256"
  shows "image_put key v len img =
     (if len \<noteq> 0 \<and> HEADER_SIZE + items_size (drop_key key xs) + record_size len > KV_SECTOR_SIZE
      then (False, img\<lparr>im_data := encode_header @ enc_items (drop_key key xs)\<rparr>)
      else (True, img\<lparr>im_data := encode_header @ enc_items (put_item key v xs)\<rparr>))"
proof -
  have "image_drop key 8 (encode_header @ enc_items xs) = encode_header @ enc_items (drop_key key xs)"
    using image_drop_items [OF assms(1), of key encode_header] by (simp add: drop_key_def)
  moreover have "length (enc_items (drop_key key xs)) = items_size (drop_key key xs)"
    using assms(1) by (intro length_enc_items) (auto simp: drop_key_def)
  moreover have "v = [] \<longleftrightarrow> len = 0" "item_len v = len" using item_len_eq [OF assms(3)] by simp_all
  ultimately show ?thesis
    using assms(2,3) by (auto simp: image_put_def Let_def put_item_def)
qed

lemma put_item_size:
  assumes "length v = unat len" "unat len \<le> 256"
  shows "items_size (put_item key v xs)
       = items_size (drop_key key xs) + (if len = 0 then 0 else record_size len)"
proof -
  have "v = [] \<longleftrightarrow> len = 0" "item_len v = len" using item_len_eq [OF assms(1)] by simp_all
  then show ?thesis by (simp add: put_item_def)
qed

text \<open>Collecting the records of a log never overflows the image: the live ones take no more room than all.\<close>

lemma collect_items:
  assumes "\<forall>r \<in> set rs. good_rec r" "HEADER_SIZE + recs_size rs \<le> KV_SECTOR_SIZE"
  shows "foldl (\<lambda>img (key, v, len, off). collect_visit img key v len off)
       \<lparr>im_data = encode_header, im_overflow = False\<rparr> rs
     = \<lparr>im_data = encode_header @ enc_items (live rs), im_overflow = False\<rparr>"
  using assms
proof (induction rs rule: rev_induct)
  case Nil
  then show ?case by (simp add: live_def)
next
  case (snoc r rs)
  obtain key v len off where r: "r = (key, v, len, off)" by (metis prod.exhaust)
  have good: "\<forall>r \<in> set rs. good_rec r" "length v = unat len" "unat len \<le> 256"
    using snoc.prems(1) by (auto simp: r good_rec_def)
  have sz: "HEADER_SIZE + recs_size rs + record_size len \<le> KV_SECTOR_SIZE"
    using snoc.prems(2) by (simp add: r recs_size_def)
  have "HEADER_SIZE + items_size (drop_key key (live rs)) + record_size len \<le> KV_SECTOR_SIZE"
    using sz items_size_drop_key [of key "live rs"] live_size [OF good(1)] by linarith
  then show ?case
    using snoc.IH good sz image_put_items [OF live_good [OF good(1)] _ good(2,3), where key = key]
    by (simp add: r live_snoc collect_visit_def)
qed

lemma log_recs_good:
  assumes "length sec = KV_SECTOR_SIZE"
  shows "\<forall>r \<in> set (log_recs sec HEADER_SIZE). good_rec r"
  using log_recs_wf [OF _ assms, of 8] by (auto simp: good_rec_def)

lemma log_recs_size:
  assumes "off \<le> KV_SECTOR_SIZE"
  shows "off + recs_size (log_recs sec off) = log_end sec off"
  using assms
proof (induction off rule: log_induct [of _ sec])
  case (stop off)
  then show ?case using parse_log_stop by (simp add: recs_size_def)
next
  case (step off key v len)
  then show ?case by (simp add: parse_log_rec [OF step(2)] recs_size_def)
qed

end
