(* ===== verification/Flash_Kv_Spec.thy ===== *)
theory Flash_Kv_Spec
  imports Flash_Kv_Log
begin

text \<open>
  What the key-value store promises. On a platform that keeps the laws of \<open>nor_flash\<close>, every operation is
  described by the map \<open>kv_abs\<close> its sector stands for: reading returns the map's value, setting updates the map at
  one key, whatever state the sector was in (blank, foreign, valid or torn), and reports lack of space exactly
  when the live records and the new one do not fit. An append that is cut off between two programmed blocks
  loses no other key.
\<close>

section \<open>The sector\<close>

definition sector :: "nor \<Rightarrow> bytes" where
  "sector c = mem_bytes (nor_mem c) 0x1FF000 KV_SECTOR_SIZE"

lemma length_sector [simp]: "length (sector c) = KV_SECTOR_SIZE"
  by (simp add: sector_def)

lemma sector_view: "nor_view c = nor_view d \<Longrightarrow> sector c = sector d"
  using nor_viewD(1) [of c d] by (simp add: sector_def)

lemma unat_kv_addr: "off \<le> KV_SECTOR_SIZE \<Longrightarrow> unat (KV_BASE + of_nat off) = 0x1FF000 + off"
proof -
  assume off: "off \<le> KV_SECTOR_SIZE"
  have base: "unat KV_BASE = 0x1FF000" by simp
  then have "unat KV_BASE + off < 2 ^ LENGTH(32)" using off by (simp only: base) simp
  then show ?thesis by (simp only: unat_add_of_nat base)
qed

lemma slice_sector: "off + n \<le> KV_SECTOR_SIZE \<Longrightarrow> slice off n (sector c) = mem_bytes (nor_mem c) (0x1FF000 + off) n"
  by (simp add: sector_def slice_mem_bytes)

abbreviation visit_rec :: "'c kv_visitor \<Rightarrow> 'c \<Rightarrow> kv_rec \<Rightarrow> 'c" where
  "visit_rec visit \<equiv> \<lambda>ctx (key, v, len, off). visit ctx key v len off"

definition blank_from :: "bytes \<Rightarrow> nat \<Rightarrow> bool" where
  "blank_from sec off \<longleftrightarrow> (\<forall>i. off \<le> i \<longrightarrow> i < KV_SECTOR_SIZE \<longrightarrow> sec ! i = 0xFF)"

definition kv_state :: "bytes \<Rightarrow> flash_kv_state" where
  "kv_state sec =
     (if \<not> header_valid sec
      then if list_ex (\<lambda>b. b \<noteq> 0xFF) (slice 0 8 sec) then FLASH_KV_FOREIGN else FLASH_KV_BLANK
      else if log_clean sec HEADER_SIZE \<and> blank_from sec (log_end sec HEADER_SIZE) then FLASH_KV_VALID
      else FLASH_KV_TORN)"

lemma list_ex_slice:
  assumes "off + n \<le> length xs"
  shows "list_ex P (slice off n xs) \<longleftrightarrow> (\<exists>i. off \<le> i \<and> i < off + n \<and> P (xs ! i))"
proof
  assume "list_ex P (slice off n xs)"
  then obtain j where "j < n" "P (slice off n xs ! j)" using assms by (auto simp: list_ex_length)
  then show "\<exists>i. off \<le> i \<and> i < off + n \<and> P (xs ! i)" using assms by (intro exI [of _ "off + j"]) auto
next
  assume "\<exists>i. off \<le> i \<and> i < off + n \<and> P (xs ! i)"
  then obtain i where "off \<le> i" "i < off + n" "P (xs ! i)" by blast
  then show "list_ex P (slice off n xs)"
    using assms nth_slice [of "i - off" n off xs] by (auto simp: list_ex_length intro!: exI [of _ "i - off"])
qed

section \<open>Reading the sector\<close>

context nor_flash
begin

lemma kv_read_eq:
  assumes "off + n \<le> KV_SECTOR_SIZE"
  obtains h' where "kv_read pf off n h = (slice off n (sector (chip h)), h')" "nor_view (chip h') = nor_view (chip h)"
proof -
  have bound: "unat (KV_BASE + of_nat off) + n \<le> size"
    using assms size_bounds(1) by (simp add: unat_kv_addr)
  have "kv_read pf off n h = (slice off n (sector (chip h)), snd (kv_read pf off n h))"
    using assms flash_read_eq [OF bound, of h] by (intro prod_eqI) (simp_all add: kv_read_def slice_sector unat_kv_addr)
  then show ?thesis
    using that flash_read_eq [OF bound, of h] by (simp add: kv_read_def)
qed

lemma header_state_eq:
  obtains h' where "nor_view (chip h') = nor_view (chip h)"
    "header_state pf h = (if header_valid (sector (chip h)) then FLASH_KV_VALID
       else if list_ex (\<lambda>b. b \<noteq> 0xFF) (slice 0 8 (sector (chip h))) then FLASH_KV_FOREIGN else FLASH_KV_BLANK, h')"
proof -
  obtain h' where "kv_read pf 0 8 h = (slice 0 8 (sector (chip h)), h')" "nor_view (chip h') = nor_view (chip h)"
    by (rule kv_read_eq [of 0 8 h]) simp
  then show ?thesis by (intro that) (simp_all add: header_state_def header_valid_def)
qed

lemma walk_loop_eq:
  "off \<le> KV_SECTOR_SIZE \<Longrightarrow> off mod 4 = 0 \<Longrightarrow>
   \<exists>h'. nor_view (chip h') = nor_view (chip h) \<and>
     walk_loop pf visit ctx off h =
       ((log_clean (sector (chip h)) off, log_end (sector (chip h)) off,
         foldl (visit_rec visit) ctx (log_recs (sector (chip h)) off)), h')"
proof (induction "KV_SECTOR_SIZE - off" arbitrary: off ctx h rule: less_induct)
  case less
  define sec where "sec = sector (chip h)"
  show ?case
  proof (cases "off = KV_SECTOR_SIZE")
    case True
    then show ?thesis by (simp add: walk_loop.simps parse_log.simps)
  next
    case False
    then have "off + 4 \<le> KV_SECTOR_SIZE" using less.prems by presburger
    then obtain h1 where h1: "kv_read pf off 4 h = (slice off 4 sec, h1)" "nor_view (chip h1) = nor_view (chip h)"
      by (rule kv_read_eq [of off 4 h, folded sec_def])
    define key where "key = le16 (slice off 4 sec)"
    define len where "len = le16 (drop 2 (slice off 4 sec))"
    note step = walk_loop.simps [of pf visit ctx off h] h1(1) parse_log.simps [of sec off]
    show ?thesis
    proof (cases "key = FLASH_KV_KEY_NONE \<or> unat len > 256 \<or> off + record_size len > KV_SECTOR_SIZE")
      case True
      then show ?thesis
        using False h1(2) by (auto simp: step Let_def key_def len_def simp flip: sec_def)
    next
      case ok: False
      have sec1: "sector (chip h1) = sec" using sector_view [OF h1(2)] by (simp add: sec_def)
      have fits: "off + 4 + unat len \<le> KV_SECTOR_SIZE" "off + 4 + align4 (unat len) + 4 \<le> KV_SECTOR_SIZE"
        using ok record_size_ge [of len] by (auto simp: record_size_def)
      obtain h2 where h2: "kv_read pf (off + 4) (unat len) h1 = (slice (off + 4) (unat len) sec, h2)"
        "nor_view (chip h2) = nor_view (chip h1)"
        using kv_read_eq [OF fits(1), of h1] sec1 by auto
      have sec2: "sector (chip h2) = sec" using sector_view [OF h2(2)] sec1 by simp
      obtain h3 where h3: "kv_read pf (off + 4 + align4 (unat len)) 4 h2 = (slice (off + 4 + align4 (unat len)) 4 sec, h3)"
        "nor_view (chip h3) = nor_view (chip h2)"
        using kv_read_eq [OF fits(2), of h2] sec2 by auto
      have sec3: "sector (chip h3) = sec" using sector_view [OF h3(2)] sec2 by simp
      have view: "nor_view (chip h3) = nor_view (chip h)" using h1(2) h2(2) h3(2) by simp
      show ?thesis
      proof (cases "rec_at sec off key (slice (off + 4) (unat len) sec) len")
        case True
        let ?ctx = "visit ctx key (slice (off + 4) (unat len) sec) len off"
        have m: "(off + record_size len) mod 4 = 0"
          using less.prems(2) by (simp add: mod_add_eq [of off 4 "record_size len", symmetric])
        have "KV_SECTOR_SIZE - (off + record_size len) < KV_SECTOR_SIZE - off"
          using rec_at_less [OF True] record_size_pos [of len] by linarith
        note IH = less.hyps [of "off + record_size len" h3 ?ctx, OF this, unfolded sec3]
        have "walk_loop pf visit ctx off h = walk_loop pf visit ?ctx (off + record_size len) h3"
          using False True ok h2(1) h3(1)
          by (simp add: step Let_def rec_at_def flip: key_def len_def)
        moreover have "\<exists>h'. nor_view (chip h') = nor_view (chip h3) \<and>
            walk_loop pf visit ?ctx (off + record_size len) h3 =
              ((log_clean sec (off + record_size len), log_end sec (off + record_size len),
                foldl (visit_rec visit) ?ctx (log_recs sec (off + record_size len))), h')"
          using IH m rec_atD(1) [OF True] by blast
        ultimately show ?thesis
          using view by (simp add: parse_log_rec [OF True] flip: sec_def)
      next
        case bad: False
        then have "le32 (slice (off + 4 + align4 (unat len)) 4 sec)
            \<noteq> record_crc (slice off 4 sec) (slice (off + 4) (unat len) sec) len"
          using False ok by (simp add: rec_at_def key_def len_def)
        then show ?thesis
          using False ok view h2(1) h3(1)
          by (simp add: step Let_def flip: key_def len_def sec_def)
      qed
    qed
  qed
qed

lemma tail_is_blank_eq:
  "\<exists>h'. nor_view (chip h') = nor_view (chip h) \<and>
     tail_is_blank pf off h = (blank_from (sector (chip h)) off, h')"
proof (induction "KV_SECTOR_SIZE - off" arbitrary: off h rule: less_induct)
  case less
  show ?case
  proof (cases "off < KV_SECTOR_SIZE")
    case False
    then show ?thesis by (auto simp: tail_is_blank.simps blank_from_def)
  next
    case True
    define n where "n = (if KV_SECTOR_SIZE - off < 32 then KV_SECTOR_SIZE - off else 32)"
    have n: "off + n \<le> KV_SECTOR_SIZE" "0 < n" "off + n = min KV_SECTOR_SIZE (off + 32)"
      using True by (auto simp: n_def)
    obtain h1 where h1: "kv_read pf off n h = (slice off n (sector (chip h)), h1)" "nor_view (chip h1) = nor_view (chip h)"
      by (rule kv_read_eq [OF n(1)])
    have step: "tail_is_blank pf off h = (if list_ex (\<lambda>b. b \<noteq> 0xFF) (slice off n (sector (chip h))) then (False, h1)
        else tail_is_blank pf (off + 32) h1)"
      using True h1(1) by (subst tail_is_blank.simps) (simp add: Let_def flip: n_def)
    have ex: "list_ex (\<lambda>b. b \<noteq> 0xFF) (slice off n (sector (chip h)))
        \<longleftrightarrow> (\<exists>i. off \<le> i \<and> i < off + n \<and> sector (chip h) ! i \<noteq> 0xFF)"
      using n(1) by (intro list_ex_slice) simp
    have "blank_from (sector (chip h)) off \<longleftrightarrow>
        \<not> list_ex (\<lambda>b. b \<noteq> 0xFF) (slice off n (sector (chip h))) \<and> blank_from (sector (chip h)) (off + 32)"
      unfolding ex blank_from_def n(3) by (auto simp: not_less)
    moreover have "sector (chip h1) = sector (chip h)" using sector_view [OF h1(2)] .
    ultimately show ?thesis
      using less.hyps [of "off + 32" h1] True h1(2) step by (auto split: if_splits)
  qed
qed

end

section \<open>Lookups\<close>

text \<open>The result of \<open>flash_kv_get\<close> in terms of the map.\<close>

definition kv_get_spec :: "(u16 \<rightharpoonup> bytes) \<Rightarrow> u16 \<Rightarrow> bool \<Rightarrow> nat \<Rightarrow> nat \<Rightarrow> (errno + nat) \<times> bytes option" where
  "kv_get_spec m key buf sz exact_size =
     (case m key of
        None \<Rightarrow> (Inl ENOENT, None)
      | Some v \<Rightarrow>
          if exact_size \<noteq> 0 \<and> length v \<noteq> exact_size then (Inl EBADMSG, None)
          else if \<not> buf then (Inr (length v), None)
          else if sz < length v then (Inl EMSGSIZE, None)
          else (Inr (length v), Some v))"

lemma lookup_fold:
  assumes "\<forall>r \<in> set rs. good_rec r"
    and "l = foldl (visit_rec lookup_visit) \<lparr>lk_key = key, lk_len = Inl ENOENT, lk_off = 0\<rparr> rs"
  shows "lk_key l = key \<and> (case kv_map rs key of None \<Rightarrow> lk_len l = Inl ENOENT
     | Some v \<Rightarrow> lk_len l = Inr (length v) \<and> (\<exists>len. (key, v, len, lk_off l) \<in> set rs))"
  using assms
proof (induction rs arbitrary: l rule: rev_induct)
  case Nil
  then show ?case by (simp add: kv_map_def)
next
  case (snoc r rs)
  obtain k v len off where r: "r = (k, v, len, off)" by (metis prod.exhaust)
  define l0 where "l0 = foldl (visit_rec lookup_visit) \<lparr>lk_key = key, lk_len = Inl ENOENT, lk_off = 0\<rparr> rs"
  have l: "l = lookup_visit l0 k v len off" using snoc.prems(2) by (simp add: r l0_def)
  note IH = snoc.IH [OF _ l0_def] 
  have v: "length v = unat len" using snoc.prems(1) by (simp add: r good_rec_def)
  show ?case
  proof (cases "k = key")
    case True
    then show ?thesis using IH snoc.prems(1) v by (auto simp: l r lookup_visit_def kv_map_snoc)
  next
    case False
    then show ?thesis using IH snoc.prems(1)
      by (auto simp: l r lookup_visit_def kv_map_snoc split: option.splits)
  qed
qed

section \<open>Writing\<close>

lemma sector_program:
  assumes "off + length src \<le> KV_SECTOR_SIZE"
    and "\<And>i. off \<le> i \<Longrightarrow> i < off + length src \<Longrightarrow> sector c ! i = 0xFF"
    and "nor_mem c' = nor_program (nor_mem c) (0x1FF000 + off) src"
  shows "sector c' = buf_write off src (sector c)"
proof (rule nth_equalityI)
  show "length (sector c') = length (buf_write off src (sector c))" using assms(1) by simp
next
  fix i assume "i < length (sector c')"
  then have i: "i < KV_SECTOR_SIZE" by simp
  then have "sector c' ! i = nor_program (nor_mem c) (0x1FF000 + off) src (0x1FF000 + i)"
    by (simp add: sector_def assms(3))
  moreover have "nor_mem c (0x1FF000 + i) = sector c ! i" using i by (simp add: sector_def)
  ultimately show "sector c' ! i = buf_write off src (sector c) ! i"
    using assms(1,2) i by (auto simp: nth_buf_write nor_program_def erased_and)
qed

definition kv_items :: "bytes \<Rightarrow> kv_item list" where
  "kv_items sec = (if header_valid sec then live (log_recs sec HEADER_SIZE) else [])"

text \<open>Whether the records of the other keys and the new one fit in the sector.\<close>

definition kv_fits :: "bytes \<Rightarrow> u16 \<Rightarrow> u16 \<Rightarrow> bool" where
  "kv_fits sec key len \<longleftrightarrow>
     len = 0 \<or> HEADER_SIZE + items_size (drop_key key (kv_items sec)) + record_size len \<le> KV_SECTOR_SIZE"

lemma kv_items_good: "length sec = KV_SECTOR_SIZE \<Longrightarrow> \<forall>x \<in> set (kv_items sec). good_item x"
  using live_good [OF log_recs_good] by (simp add: kv_items_def)

lemma kv_items_distinct: "distinct (map fst (kv_items sec))"
  by (simp add: kv_items_def live_distinct)

lemma map_of_kv_items: "length sec = KV_SECTOR_SIZE \<Longrightarrow> map_of (kv_items sec) = kv_abs sec"
  using map_of_live [OF log_recs_good] by (simp add: kv_items_def kv_abs_def)

lemma kv_items_size:
  assumes "length sec = KV_SECTOR_SIZE" "header_valid sec"
  shows "HEADER_SIZE + items_size (kv_items sec) \<le> log_end sec HEADER_SIZE"
  using live_size [OF log_recs_good [OF assms(1)]] log_recs_size [of 8 sec] assms(2)
  by (simp add: kv_items_def)

text \<open>The sector a compaction writes.\<close>

lemma compacted_sector:
  assumes "\<forall>x \<in> set xs. good_item x" "distinct (map fst xs)" "HEADER_SIZE + items_size xs \<le> KV_SECTOR_SIZE"
    and "sec = encode_header @ enc_items xs @ replicate (KV_SECTOR_SIZE - HEADER_SIZE - items_size xs) 0xFF"
  shows "kv_abs sec = map_of xs" "kv_state sec = FLASH_KV_VALID"
proof -
  have p: "parse_log sec 8 = (log_of 8 xs, True, 8 + items_size xs)"
    using parse_enc_items [of xs encode_header "KV_SECTOR_SIZE - HEADER_SIZE - items_size xs"] assms by simp
  have len: "length (enc_items xs) = items_size xs" by (rule length_enc_items [OF assms(1)])
  have "slice 0 8 sec = encode_header" by (simp add: assms(4) slice_def)
  then have h: "header_valid sec" by (simp add: header_valid_def encode_header_def)
  then show "kv_abs sec = map_of xs" using p assms(1,2) by (simp add: kv_abs_def kv_map_log_of)
  have "blank_from sec (8 + items_size xs)"
    using len assms(3) by (auto simp: blank_from_def assms(4) nth_append)
  then show "kv_state sec = FLASH_KV_VALID" using h p by (simp add: kv_state_def)
qed

lemma put_item_good:
  assumes "\<forall>x \<in> set xs. good_item x" "length v \<le> 256" "key \<noteq> FLASH_KV_KEY_NONE"
  shows "\<forall>x \<in> set (put_item key v xs). good_item x"
  using assms by (auto simp: put_item_def drop_key_def good_item_def)

lemma put_item_distinct: "distinct (map fst xs) \<Longrightarrow> distinct (map fst (put_item key v xs))"
  by (auto simp: put_item_def drop_key_def distinct_map_filter)

lemma kv_fits_size:
  assumes "length sec = KV_SECTOR_SIZE" "length v = unat len" "unat len \<le> 256" "kv_fits sec key len"
  shows "8 + items_size (put_item key v (kv_items sec)) \<le> KV_SECTOR_SIZE"
proof (cases "len = 0")
  case True
  then show ?thesis
    using put_item_size [OF assms(2,3)] items_size_drop_key [of key "kv_items sec"]
      kv_items_size [OF assms(1)] log_end_bounds [of 8 sec]
    by (cases "header_valid sec") (simp_all add: kv_items_def)
qed (use assms(4) put_item_size [OF assms(2,3)] in \<open>simp add: kv_fits_def\<close>)

text \<open>A change of the store at one key that leaves the rest of the chip alone.\<close>

definition kv_updated :: "nor \<Rightarrow> nor \<Rightarrow> u16 \<Rightarrow> bytes \<Rightarrow> bool" where
  "kv_updated c c' key v \<longleftrightarrow>
     kv_abs (sector c') = (kv_abs (sector c))(key := (if v = [] then None else Some v))
     \<and> kv_state (sector c') = FLASH_KV_VALID \<and> nor_sr c' = nor_sr c \<and> nor_wf c' = []
     \<and> (\<forall>x. x < 0x1FF000 \<or> 0x200000 \<le> x \<longrightarrow> nor_mem c' x = nor_mem c x)"

text \<open>The same without the state of the log, which a call that finds the value already there leaves as it is.\<close>

definition kv_changed :: "nor \<Rightarrow> nor \<Rightarrow> u16 \<Rightarrow> bytes \<Rightarrow> bool" where
  "kv_changed c c' key v \<longleftrightarrow>
     kv_abs (sector c') = (kv_abs (sector c))(key := (if v = [] then None else Some v))
     \<and> nor_sr c' = nor_sr c \<and> nor_wf c' = []
     \<and> (\<forall>x. x < 0x1FF000 \<or> 0x200000 \<le> x \<longrightarrow> nor_mem c' x = nor_mem c x)"

lemma kv_updated_changed: "kv_updated c c' key v \<Longrightarrow> kv_changed c c' key v"
  by (simp add: kv_updated_def kv_changed_def)

lemma kv_changed_same:
  assumes "nor_view c' = nor_view c" "nor_wf c = []" "kv_abs (sector c) key = (if v = [] then None else Some v)"
  shows "kv_changed c c' key v"
  using assms sector_view [OF assms(1)] nor_viewD [OF assms(1)] by (auto simp: kv_changed_def)

lemma kv_fits_same:
  assumes "length sec = KV_SECTOR_SIZE" "kv_abs sec key = Some v"
  shows "kv_fits sec key (item_len v)"
proof -
  have "items_size (drop_key key xs) + record_size (item_len v) \<le> items_size xs" if "map_of xs key = Some v" for xs
    using that
  proof (induction xs)
    case (Cons x xs)
    then show ?case
      using items_size_drop_key [of key xs] by (cases x) (auto simp: drop_key_def split: if_splits)
  qed simp
  from this [of "kv_items sec"] have "items_size (drop_key key (kv_items sec)) + record_size (item_len v) \<le> items_size (kv_items sec)"
    using assms map_of_kv_items by simp
  moreover have "header_valid sec" using assms(2) by (auto simp: kv_abs_def split: if_splits)
  ultimately show ?thesis
    using kv_items_size [OF assms(1)] log_end_bounds [of 8 sec] by (simp add: kv_fits_def)
qed

lemma kv_updated_view:
  assumes "nor_view c1 = nor_view c"
  shows "kv_updated c1 c' key v \<longleftrightarrow> kv_updated c c' key v"
  using sector_view [OF assms] nor_viewD [OF assms] by (simp add: kv_updated_def)

context nor_flash
begin

lemma verify_loop_eq:
  assumes "off + length src \<le> KV_SECTOR_SIZE"
  shows "\<exists>h'. nor_view (chip h') = nor_view (chip h) \<and> verify_loop pf off src d h =
     (if \<forall>i. d \<le> i \<longrightarrow> i < length src \<longrightarrow> sector (chip h) ! (off + i) = src ! i then Inr () else Inl EIO, h')"
proof (induction "length src - d" arbitrary: d h rule: less_induct)
  case less
  show ?case
  proof (cases "d < length src")
    case False
    then show ?thesis by (auto simp: verify_loop.simps)
  next
    case True
    define n where "n = (if length src - d < 32 then length src - d else 32)"
    have n: "off + d + n \<le> KV_SECTOR_SIZE" "d + n = min (length src) (d + 32)"
      using True assms by (auto simp: n_def)
    then have n_src: "min n (length src - d) = n" "min n (KV_SECTOR_SIZE - (off + d)) = n" by auto
    let ?sec = "sector (chip h)"
    obtain h1 where h1: "kv_read pf (off + d) n h = (slice (off + d) n ?sec, h1)" "nor_view (chip h1) = nor_view (chip h)"
      by (rule kv_read_eq [OF n(1)])
    have step: "verify_loop pf off src d h = (if slice (off + d) n ?sec \<noteq> slice d n src then (Inl EIO, h1)
        else verify_loop pf off src (d + 32) h1)"
      using True h1(1) by (subst verify_loop.simps) (simp add: Let_def flip: n_def)
    have "slice (off + d) n ?sec = slice d n src \<longleftrightarrow> (\<forall>j < n. ?sec ! (off + d + j) = src ! (d + j))"
      using n(1) n_src by (auto simp: list_eq_iff_nth_eq)
    also have "\<dots> \<longleftrightarrow> (\<forall>i. d \<le> i \<longrightarrow> i < d + n \<longrightarrow> ?sec ! (off + i) = src ! i)"
      by (auto simp: add.assoc) (metis add_less_cancel_left le_Suc_ex)
    finally have "(\<forall>i. d \<le> i \<longrightarrow> i < length src \<longrightarrow> ?sec ! (off + i) = src ! i) \<longleftrightarrow>
        slice (off + d) n ?sec = slice d n src \<and>
        (\<forall>i. d + 32 \<le> i \<longrightarrow> i < length src \<longrightarrow> ?sec ! (off + i) = src ! i)"
      unfolding n(2) by (auto simp: not_le) (meson not_le)
    moreover have "sector (chip h1) = ?sec" using sector_view [OF h1(2)] .
    ultimately show ?thesis
      using less.hyps [of "d + 32" h1] True h1(2) step by (auto split: if_splits)
  qed
qed

lemma write_verified_eq:
  assumes "off + length src \<le> KV_SECTOR_SIZE" "nor_unlocked (chip h)" "nor_wf (chip h) = []"
    and "\<And>i. off \<le> i \<Longrightarrow> i < off + length src \<Longrightarrow> sector (chip h) ! i = 0xFF"
  shows "\<exists>h'. write_verified pf off src h = (Inr (), h')
     \<and> nor_view (chip h') = (nor_program (nor_mem (chip h)) (0x1FF000 + off) src, nor_sr (chip h), [])
     \<and> sector (chip h') = buf_write off src (sector (chip h))"
proof -
  have addr: "unat (KV_BASE + of_nat off) = 0x1FF000 + off" using assms(1) by (intro unat_kv_addr) simp
  define h1 where "h1 = flash_write pf (KV_BASE + of_nat off) src h"
  have h1: "nor_view (chip h1) = (nor_program (nor_mem (chip h)) (0x1FF000 + off) src, nor_sr (chip h), [])"
    using flash_write_eq [of "KV_BASE + of_nat off" src h] assms size_bounds(1) by (simp add: addr h1_def)
  have sec1: "sector (chip h1) = buf_write off src (sector (chip h))"
    using assms(1,4) h1 by (intro sector_program) (simp_all add: nor_view_def)
  have "sector (chip h1) ! (off + i) = src ! i" if "i < length src" for i
    using that assms(1) by (simp add: sec1 nth_buf_write)
  then obtain h2 where "nor_view (chip h2) = nor_view (chip h1)" "verify_loop pf off src 0 h1 = (Inr (), h2)"
    using verify_loop_eq [OF assms(1), of h1 0] by auto
  then show ?thesis
    using h1 sec1 sector_view [of "chip h2" "chip h1"] by (auto simp: write_verified_def simp flip: h1_def)
qed

end

section \<open>With memory to allocate\<close>

text \<open>A platform whose allocations succeed.\<close>

locale kv_platform = nor_flash +
  assumes malloc_ok: "fst (pf_malloc pf n h)"
begin

lemma malloc_eq:
  obtains h' where "pf_malloc pf n h = (True, h')" "nor_view (chip h') = nor_view (chip h)"
proof -
  have "pf_malloc pf n h = (True, snd (pf_malloc pf n h))" using malloc_ok by (intro prod_eqI) auto
  then show ?thesis using that malloc [of n h] by simp
qed

lemma walk_eq:
  "\<exists>h'. nor_view (chip h') = nor_view (chip h) \<and>
     walk pf visit ctx h =
       Some ((log_clean (sector (chip h)) HEADER_SIZE, log_end (sector (chip h)) HEADER_SIZE,
         foldl (visit_rec visit) ctx (log_recs (sector (chip h)) HEADER_SIZE)), h')"
proof -
  obtain h1 where h1: "pf_malloc pf 256 h = (True, h1)" "nor_view (chip h1) = nor_view (chip h)"
    by (rule malloc_eq)
  then show ?thesis
    using walk_loop_eq [of 8 h1 visit ctx] sector_view [OF h1(2)] by (simp add: walk_def)
qed

lemma scan_eq:
  "\<exists>h'. nor_view (chip h') = nor_view (chip h) \<and>
     scan pf h = Some ((kv_state (sector (chip h)),
       if header_valid (sector (chip h)) then log_end (sector (chip h)) HEADER_SIZE else 0), h')"
proof -
  define sec where "sec = sector (chip h)"
  obtain h1 where h1: "nor_view (chip h1) = nor_view (chip h)"
    "header_state pf h = (if header_valid sec then FLASH_KV_VALID
       else if list_ex (\<lambda>b. b \<noteq> 0xFF) (slice 0 8 sec) then FLASH_KV_FOREIGN else FLASH_KV_BLANK, h1)"
    unfolding sec_def by (rule header_state_eq)
  have sec1: "sector (chip h1) = sec" using sector_view [OF h1(1)] by (simp add: sec_def)
  obtain h2 where h2: "nor_view (chip h2) = nor_view (chip h1)"
    "walk pf no_visit () h1 = Some ((log_clean sec 8, log_end sec 8, ()), h2)"
    using walk_eq [of h1 no_visit "()", unfolded sec1] by auto
  have sec2: "sector (chip h2) = sec" using sector_view [OF h2(1)] sec1 by simp
  obtain h3 where h3: "nor_view (chip h3) = nor_view (chip h2)"
    "tail_is_blank pf (log_end sec 8) h2 = (blank_from sec (log_end sec 8), h3)"
    using tail_is_blank_eq [of h2 "log_end sec 8", unfolded sec2] by auto
  show ?thesis
    using h1 h2 h3 by (cases "header_valid sec"; cases "log_clean sec 8")
      (auto simp: scan_def kv_state_def simp flip: sec_def)
qed

lemma get_eq:
  assumes "key \<noteq> FLASH_KV_KEY_NONE"
  shows "\<exists>h'. nor_view (chip h') = nor_view (chip h) \<and>
     flash_kv_get pf key buf sz exact_size h
       = Some (kv_get_spec (kv_abs (sector (chip h))) key buf sz exact_size, h')"
proof -
  define sec where "sec = sector (chip h)"
  let ?rs = "log_recs sec HEADER_SIZE"
  obtain h1 where h1: "nor_view (chip h1) = nor_view (chip h)"
    "header_state pf h = (if header_valid sec then FLASH_KV_VALID
       else if list_ex (\<lambda>b. b \<noteq> 0xFF) (slice 0 8 sec) then FLASH_KV_FOREIGN else FLASH_KV_BLANK, h1)"
    unfolding sec_def by (rule header_state_eq)
  have sec1: "sector (chip h1) = sec" using sector_view [OF h1(1)] by (simp add: sec_def)
  define l where "l = foldl (visit_rec lookup_visit) \<lparr>lk_key = key, lk_len = Inl ENOENT, lk_off = 0\<rparr> ?rs"
  obtain h2 where h2: "nor_view (chip h2) = nor_view (chip h1)"
    "walk pf lookup_visit \<lparr>lk_key = key, lk_len = Inl ENOENT, lk_off = 0\<rparr> h1
       = Some ((log_clean sec 8, log_end sec 8, l), h2)"
    using walk_eq [of h1 lookup_visit _, unfolded sec1] by (auto simp: l_def)
  have sec2: "sector (chip h2) = sec" using sector_view [OF h2(1)] sec1 by simp
  have good: "\<forall>r \<in> set ?rs. good_rec r" by (rule log_recs_good) (simp add: sec_def)
  note look = lookup_fold [OF good l_def]
  show ?thesis
  proof (cases "header_valid sec \<and> kv_map ?rs key \<noteq> None")
    case False
    then show ?thesis
      using assms h1 h2 look
      by (auto simp: flash_kv_get_def kv_abs_def kv_get_spec_def simp flip: sec_def)
  next
    case True
    then obtain v where v: "kv_map ?rs key = Some v" by blast
    then obtain len where len: "lk_len l = Inr (length v)" "(key, v, len, lk_off l) \<in> set ?rs"
      using look by auto
    have wf: "v = slice (lk_off l + 4) (unat len) sec" "length v = unat len" "lk_off l + 4 + length v \<le> KV_SECTOR_SIZE"
      using log_recs_wf [OF _ _ len(2)] record_size_ge [of len] by (auto simp: sec_def)
    obtain h3 where h3: "kv_read pf (lk_off l + 4) (length v) h2 = (v, h3)" "nor_view (chip h3) = nor_view (chip h2)"
      using kv_read_eq [OF wf(3), of h2] wf(1,2) sec2 by metis
    then show ?thesis
      using assms True h1 h2 v len
      by (auto simp: flash_kv_get_def kv_abs_def kv_get_spec_def simp flip: sec_def)
  qed
qed

text \<open>Erasing the sector and writing a compacted image.\<close>

lemma compact_write:
  assumes "nor_unlocked (chip h)" "nor_wf (chip h) = []"
    and "\<forall>x \<in> set xs. good_item x" "distinct (map fst xs)" "8 + items_size xs \<le> KV_SECTOR_SIZE"
    and "map_of xs = (kv_abs (sector (chip h)))(key := (if v = [] then None else Some v))"
  shows "\<exists>h'. write_verified pf 0 (encode_header @ enc_items xs) (flash_erase_sector pf KV_BASE h) = (Inr (), h')
     \<and> kv_updated (chip h) (chip h') key v"
proof -
  have len_xs: "length (enc_items xs) = items_size xs" by (rule length_enc_items [OF assms(3)])
  define h3 where "h3 = flash_erase_sector pf KV_BASE h"
  have c3: "chip h3 = (chip h)\<lparr>nor_mem := nor_erase (nor_mem (chip h)) 0x1FF000\<rparr>"
    using flash_erase_sector_eq [of KV_BASE h] size_bounds(1) assms(1) by (simp add: h3_def)
  have blank: "sector (chip h3) = replicate KV_SECTOR_SIZE 0xFF"
    by (rule nth_equalityI) (simp_all add: sector_def c3 nor_erase_def)
  have ready: "nor_unlocked (chip h3)" "nor_wf (chip h3) = []" "\<And>i. i < KV_SECTOR_SIZE \<Longrightarrow> sector (chip h3) ! i = 0xFF"
    using assms(1,2) by (simp_all only: blank nth_replicate) (simp_all add: c3 nor_unlocked_def)
  obtain h4 where h4: "write_verified pf 0 (encode_header @ enc_items xs) h3 = (Inr (), h4)"
    "nor_view (chip h4) = (nor_program (nor_mem (chip h3)) 0x1FF000 (encode_header @ enc_items xs), nor_sr (chip h3), [])"
    "sector (chip h4) = buf_write 0 (encode_header @ enc_items xs) (sector (chip h3))"
    using write_verified_eq [of 0 "encode_header @ enc_items xs" h3] assms(5) len_xs ready by auto
  have sec4: "sector (chip h4) = encode_header @ enc_items xs @ replicate (KV_SECTOR_SIZE - 8 - items_size xs) 0xFF"
    unfolding h4(3) blank by (simp add: buf_write_def len_xs)
  have "nor_mem (chip h4) x = nor_mem (chip h) x" if "x < 0x1FF000 \<or> 0x200000 \<le> x" for x
    using that h4(2) assms(5) len_xs by (auto simp: nor_view_def c3 nor_program_def nor_erase_def)
  then have "kv_updated (chip h) (chip h4) key v"
    using compacted_sector [OF assms(3-5) sec4] assms(6) h4(2) by (simp add: kv_updated_def nor_view_def c3)
  then show ?thesis using h4(1) by (auto simp: h3_def)
qed

lemma rebuild_eq:
  fixes h defines "sec \<equiv> sector (chip h)"
  assumes "nor_unlocked (chip h)" "nor_wf (chip h) = []"
    and "length v = unat len" "unat len \<le> 256" "key \<noteq> FLASH_KV_KEY_NONE"
  shows "\<exists>h'. rebuild pf (kv_state sec) key v len h = Some (if kv_fits sec key len then Inr () else Inl ENOSPC, h')
     \<and> (if kv_fits sec key len then kv_updated (chip h) (chip h') key v else nor_view (chip h') = nor_view (chip h))"
proof -
  let ?img = "\<lparr>im_data = encode_header, im_overflow = False\<rparr>"
  have lsec: "length sec = KV_SECTOR_SIZE" by (simp add: sec_def)
  obtain h1 where h1: "pf_malloc pf KV_SECTOR_SIZE h = (True, h1)" "nor_view (chip h1) = nor_view (chip h)"
    by (rule malloc_eq)
  have sec1: "sector (chip h1) = sec" using sector_view [OF h1(2)] by (simp add: sec_def)
  define img where "img = \<lparr>im_data = encode_header @ enc_items (kv_items sec), im_overflow = False\<rparr>"
  have state: "kv_state sec = FLASH_KV_VALID \<or> kv_state sec = FLASH_KV_TORN \<longleftrightarrow> header_valid sec"
    by (auto simp: kv_state_def)
  have "HEADER_SIZE + recs_size (log_recs sec 8) \<le> KV_SECTOR_SIZE"
    using log_recs_size [of 8 sec] log_end_bounds [of 8 sec] by simp
  then have "foldl (visit_rec collect_visit) ?img (log_recs sec 8) = img" if "header_valid sec"
    using collect_items [OF log_recs_good [OF lsec]] that by (simp add: img_def kv_items_def)
  then obtain h2 where h2: "nor_view (chip h2) = nor_view (chip h1)"
    "(if kv_state sec = FLASH_KV_VALID \<or> kv_state sec = FLASH_KV_TORN
      then map_option (\<lambda>((_, _, img), h). (img, h)) (walk pf collect_visit ?img h1) else Some (?img, h1)) = Some (img, h2)"
    using walk_eq [of h1 collect_visit ?img] sec1
    by (cases "header_valid sec") (auto simp: state img_def kv_items_def)
  have view2: "nor_view (chip h2) = nor_view (chip h)" using h1(2) h2(1) by simp
  have sec2: "sector (chip h2) = sec" using sector_view [OF view2] by (simp add: sec_def)
  note put = image_put_items [OF kv_items_good [OF lsec] _ assms(4,5), of img key]
  show ?thesis
  proof (cases "kv_fits sec key len")
    case False
    then have "image_put key v len img = (False, img\<lparr>im_data := encode_header @ enc_items (drop_key key (kv_items sec))\<rparr>)"
      using put by (simp add: img_def kv_fits_def)
    then show ?thesis
      using False h1(1) h2(2) view2 by (simp add: rebuild_def img_def)
  next
    case True
    define xs where "xs = put_item key v (kv_items sec)"
    have "length v \<le> 256" using assms(4,5) by simp
    then have xs: "\<forall>x \<in> set xs. good_item x" "distinct (map fst xs)"
      unfolding xs_def
      by (rule put_item_good [OF kv_items_good [OF lsec] _ assms(6)])
        (rule put_item_distinct [OF kv_items_distinct])
    have sz: "8 + items_size xs \<le> KV_SECTOR_SIZE"
      using kv_fits_size [OF lsec assms(4,5) True] by (simp add: xs_def)
    have "map_of xs = (kv_abs sec)(key := (if v = [] then None else Some v))"
      using map_of_kv_items [OF lsec] by (simp add: xs_def map_of_put_item)
    then obtain h4 where "write_verified pf 0 (encode_header @ enc_items xs) (flash_erase_sector pf KV_BASE h2) = (Inr (), h4)"
      "kv_updated (chip h2) (chip h4) key v"
      using compact_write [of h2 xs key v] nor_viewD [OF view2] assms(2,3) xs sz sec2 by auto
    moreover have "image_put key v len img = (True, img\<lparr>im_data := encode_header @ enc_items xs\<rparr>)"
      using put True by (auto simp: img_def kv_fits_def xs_def)
    ultimately show ?thesis
      using True h1(1) h2(2) kv_updated_view [OF view2] by (simp add: rebuild_def img_def)
  qed
qed

lemma append_in_place:
  assumes "kv_state (sector (chip h)) = FLASH_KV_VALID" "e = log_end (sector (chip h)) HEADER_SIZE"
    and "e + record_size len \<le> KV_SECTOR_SIZE" "nor_unlocked (chip h)" "nor_wf (chip h) = []"
    and "length v = unat len" "unat len \<le> 256" "key \<noteq> FLASH_KV_KEY_NONE"
  shows "\<exists>h'. write_verified pf e (encode_record key v len) h = (Inr (), h') \<and> kv_updated (chip h) (chip h') key v"
proof -
  define sec where "sec = sector (chip h)"
  have st: "header_valid sec" "blank_from sec e"
    using assms(1,2) by (auto simp: kv_state_def sec_def split: if_splits)
  then have blank: "\<forall>i. e \<le> i \<longrightarrow> i < KV_SECTOR_SIZE \<longrightarrow> sec ! i = 0xFF" by (simp add: blank_from_def)
  obtain h' where h': "write_verified pf e (encode_record key v len) h = (Inr (), h')"
    "nor_view (chip h') = (nor_program (nor_mem (chip h)) (0x1FF000 + e) (encode_record key v len), nor_sr (chip h), [])"
    "sector (chip h') = buf_write e (encode_record key v len) sec"
    using write_verified_eq [of e "encode_record key v len" h] assms(3-6) blank
    by (auto simp: length_encode_record sec_def)
  let ?sec = "sector (chip h')"
  note app = append_parse [of sec e v len key ?sec, OF _ _ blank assms(6-8) assms(3) h'(3)]
  have "8 \<le> e" using log_end_bounds [of 8 sec] assms(2) by (simp add: sec_def)
  then have "slice 0 8 ?sec = slice 0 8 sec"
    unfolding h'(3) using assms(3,6) by (intro slice_buf_write_other) (simp_all add: length_encode_record sec_def)
  then have hv: "header_valid ?sec" using st(1) by (simp add: header_valid_def)
  have "blank_from ?sec (e + record_size len)"
    unfolding h'(3) blank_from_def using blank assms(3,6)
    by (auto simp: nth_buf_write length_encode_record sec_def)
  then have "kv_state ?sec = FLASH_KV_VALID" using app hv assms(2) by (simp add: kv_state_def sec_def)
  moreover have "kv_abs ?sec = (kv_abs sec)(key := (if v = [] then None else Some v))"
    using app(1) hv st(1) assms(2) item_len_eq(2) [OF assms(6)] by (simp add: kv_abs_def kv_map_snoc sec_def)
  moreover have "nor_mem (chip h') x = nor_mem (chip h) x" if "x < 0x1FF000 \<or> 0x200000 \<le> x" for x
    using that h'(2) assms(3,6) by (auto simp: nor_view_def nor_program_def length_encode_record)
  ultimately show ?thesis
    using h' by (auto simp: kv_updated_def nor_view_def sec_def)
qed

lemma kv_fits_append:
  assumes "length sec = KV_SECTOR_SIZE" "header_valid sec" "log_end sec HEADER_SIZE + record_size len \<le> KV_SECTOR_SIZE"
  shows "kv_fits sec key len"
  using kv_items_size [OF assms(1,2)] items_size_drop_key [of key "kv_items sec"] assms(3)
  unfolding kv_fits_def by linarith

lemma append_eq:
  assumes "nor_unlocked (chip h)" "nor_wf (chip h) = []"
    and "length v = unat len" "unat len \<le> 256" "key \<noteq> FLASH_KV_KEY_NONE"
  shows "\<exists>h'. append_record pf key v len h =
       Some (if kv_fits (sector (chip h)) key len then Inr () else Inl ENOSPC, h')
     \<and> (if kv_fits (sector (chip h)) key len then kv_updated (chip h) (chip h') key v
        else nor_view (chip h') = nor_view (chip h))"
proof -
  define sec where "sec = sector (chip h)"
  obtain h1 where h1: "nor_view (chip h1) = nor_view (chip h)"
    "scan pf h = Some ((kv_state sec, if header_valid sec then log_end sec HEADER_SIZE else 0), h1)"
    using scan_eq [of h] by (auto simp: sec_def)
  have sec1: "sector (chip h1) = sec" using sector_view [OF h1(1)] by (simp add: sec_def)
  note v1 = nor_viewD [OF h1(1)]
  show ?thesis
  proof (cases "kv_state sec = FLASH_KV_VALID \<and> log_end sec HEADER_SIZE + record_size len \<le> KV_SECTOR_SIZE")
    case True
    then have hv: "header_valid sec" by (auto simp: kv_state_def split: if_splits)
    obtain h2 where h2: "pf_malloc pf RECORD_MAX_SIZE h1 = (True, h2)" "nor_view (chip h2) = nor_view (chip h1)"
      by (rule malloc_eq)
    have view2: "nor_view (chip h2) = nor_view (chip h)" using h1(1) h2(2) by simp
    have sec2: "sector (chip h2) = sec" using sector_view [OF view2] by (simp add: sec_def)
    obtain h3 where "write_verified pf (log_end sec HEADER_SIZE) (encode_record key v len) h2 = (Inr (), h3)"
      "kv_updated (chip h2) (chip h3) key v"
      using append_in_place [of h2 "log_end sec HEADER_SIZE" len v key] True assms nor_viewD [OF view2] sec2 by auto
    moreover have "kv_fits sec key len" using True hv by (intro kv_fits_append) (simp_all add: sec_def)
    ultimately show ?thesis
      using True hv h1(2) h2(1) kv_updated_view [OF view2] by (simp add: append_record_def flip: sec_def)
  next
    case False
    then have "append_record pf key v len h = rebuild pf (kv_state sec) key v len h1"
      using h1(2) by (auto simp: append_record_def kv_state_def split: if_splits)
    then show ?thesis
      using rebuild_eq [of h1 v len key] assms v1 sec1 kv_updated_view [OF h1(1)] h1(1)
      by (auto simp flip: sec_def split: if_splits)
  qed
qed

lemma set_eq:
  assumes "nor_unlocked (chip h)" "nor_wf (chip h) = []"
    and "key \<noteq> FLASH_KV_KEY_NONE" "v \<noteq> []" "length v \<le> 256"
  shows "\<exists>h'. flash_kv_set pf key (Some v) (length v) h =
       Some (if kv_fits (sector (chip h)) key (item_len v) then Inr () else Inl ENOSPC, h')
     \<and> (if kv_fits (sector (chip h)) key (item_len v) then kv_changed (chip h) (chip h') key v
        else nor_view (chip h') = nor_view (chip h))"
proof -
  define sec where "sec = sector (chip h)"
  obtain h1 where h1: "pf_malloc pf (length v) h = (True, h1)" "nor_view (chip h1) = nor_view (chip h)"
    by (rule malloc_eq)
  define g where "g = kv_get_spec (kv_abs sec) key True (length v) 0"
  obtain h2 where h2: "nor_view (chip h2) = nor_view (chip h1)" "flash_kv_get pf key True (length v) 0 h1 = Some (g, h2)"
    using get_eq [OF assms(3), of h1 True "length v" 0] sector_view [OF h1(2)] by (auto simp: g_def sec_def)
  have view2: "nor_view (chip h2) = nor_view (chip h)" using h1(2) h2(1) by simp
  have sec2: "sector (chip h2) = sec" using sector_view [OF view2] by (simp add: sec_def)
  have same: "fst g = Inr (length v) \<and> snd g = Some v \<longleftrightarrow> kv_abs sec key = Some v"
    by (auto simp: g_def kv_get_spec_def split: option.splits)
  have step: "flash_kv_set pf key (Some v) (length v) h =
      (if kv_abs sec key = Some v then Some (Inr (), h2) else append_record pf key v (item_len v) h2)"
    using assms(3-5) h1(1) h2(2) same by (cases g) (auto simp: flash_kv_set_def)
  show ?thesis
  proof (cases "kv_abs sec key = Some v")
    case True
    then show ?thesis
      using step kv_fits_same [of sec key v] kv_changed_same [OF view2 assms(2), of key v] assms(4)
      by (auto simp: sec_def)
  next
    case False
    have "length v = unat (item_len v)" "unat (item_len v) \<le> 256" using assms(5) by simp_all
    then show ?thesis
      using False step append_eq [of h2 v "item_len v" key] assms(1-3) nor_viewD [OF view2] sec2 view2
        kv_updated_view [OF view2] kv_updated_changed
      by (auto simp flip: sec_def split: if_splits)
  qed
qed

lemma erase_key_eq:
  assumes "nor_unlocked (chip h)" "nor_wf (chip h) = []" "key \<noteq> FLASH_KV_KEY_NONE"
  shows "\<exists>h'. flash_kv_erase_key pf key h = Some (Inr (), h') \<and> kv_changed (chip h) (chip h') key []"
proof -
  define sec where "sec = sector (chip h)"
  define g where "g = kv_get_spec (kv_abs sec) key False 0 0"
  obtain h1 where h1: "nor_view (chip h1) = nor_view (chip h)" "flash_kv_get pf key False 0 0 h = Some (g, h1)"
    using get_eq [OF assms(3), of h False 0 0] by (auto simp: g_def sec_def)
  show ?thesis
  proof (cases "kv_abs sec key")
    case None
    then show ?thesis
      using h1 kv_changed_same [OF h1(1) assms(2), of key "[]"]
      by (auto simp: flash_kv_erase_key_def g_def kv_get_spec_def sec_def)
  next
    case (Some v)
    have "flash_kv_erase_key pf key h = append_record pf key [] 0 h1"
      using h1(2) Some by (simp add: flash_kv_erase_key_def g_def kv_get_spec_def)
    then show ?thesis
      using append_eq [of h1 "[]" 0 key] assms nor_viewD [OF h1(1)] kv_updated_view [OF h1(1)] kv_updated_changed
      by (auto simp: kv_fits_def)
  qed
qed

end

context nor_flash
begin

lemma erase_check_eq:
  "off mod 32 = 0 \<Longrightarrow> \<exists>h'. nor_view (chip h') = nor_view (chip h) \<and>
     erase_check pf off h = (if blank_from (sector (chip h)) off then Inr () else Inl EIO, h')"
proof (induction "KV_SECTOR_SIZE - off" arbitrary: off h rule: less_induct)
  case less
  show ?case
  proof (cases "off < KV_SECTOR_SIZE")
    case False
    then show ?thesis by (auto simp: erase_check.simps blank_from_def)
  next
    case True
    have fits: "off + 32 \<le> KV_SECTOR_SIZE"
    proof -
      obtain k where k: "off = 32 * k" using less.prems by auto
      then have "k < 128" using True by simp
      then show ?thesis using k by simp
    qed
    obtain h1 where h1: "kv_read pf off 32 h = (slice off 32 (sector (chip h)), h1)" "nor_view (chip h1) = nor_view (chip h)"
      by (rule kv_read_eq [OF fits])
    have step: "erase_check pf off h = (if list_ex (\<lambda>b. b \<noteq> 0xFF) (slice off 32 (sector (chip h))) then (Inl EIO, h1)
        else erase_check pf (off + 32) h1)"
      using True h1(1) by (subst erase_check.simps) simp
    have ex: "list_ex (\<lambda>b. b \<noteq> 0xFF) (slice off 32 (sector (chip h)))
        \<longleftrightarrow> (\<exists>i. off \<le> i \<and> i < off + 32 \<and> sector (chip h) ! i \<noteq> 0xFF)"
      using fits by (intro list_ex_slice) simp
    have "blank_from (sector (chip h)) off \<longleftrightarrow>
        \<not> list_ex (\<lambda>b. b \<noteq> 0xFF) (slice off 32 (sector (chip h))) \<and> blank_from (sector (chip h)) (off + 32)"
      unfolding ex blank_from_def using fits by (auto simp: not_less)
    moreover have "sector (chip h1) = sector (chip h)" using sector_view [OF h1(2)] .
    ultimately show ?thesis
      using less.hyps [of "off + 32" h1] less.prems True h1(2) step by (auto split: if_splits)
  qed
qed

lemma erase_eq:
  "\<exists>h'. flash_kv_erase pf h = (Inr (), h') \<and> sector (chip h') = replicate KV_SECTOR_SIZE 0xFF
     \<and> (\<forall>x. x < 0x1FF000 \<or> 0x200000 \<le> x \<longrightarrow> nor_mem (chip h') x = nor_mem (chip h) x)"
proof -
  define h2 where "h2 = flash_erase_sector pf KV_BASE (flash_unprotect pf h)"
  have c2: "nor_mem (chip h2) = nor_erase (nor_mem (chip h)) 0x1FF000"
    using flash_erase_sector_eq [of KV_BASE "flash_unprotect pf h"] flash_unprotect_eq [of h] size_bounds(1)
    by (simp add: h2_def)
  have blank: "sector (chip h2) = replicate KV_SECTOR_SIZE 0xFF"
    by (rule nth_equalityI) (simp_all add: sector_def c2 nor_erase_def)
  have "blank_from (sector (chip h2)) 0" unfolding blank_from_def by (simp only: blank nth_replicate) simp
  then obtain h3 where "nor_view (chip h3) = nor_view (chip h2)" "erase_check pf 0 h2 = (Inr (), h3)"
    using erase_check_eq [of 0 h2] by auto
  moreover from this have "sector (chip h3) = sector (chip h2)" "nor_mem (chip h3) = nor_mem (chip h2)"
    using sector_view nor_viewD(1) by blast+
  ultimately show ?thesis
    using blank c2 by (auto simp: flash_kv_erase_def nor_erase_def simp flip: h2_def)
qed

end

end
