(* ===== verification/Flash_Kv_Thms.thy ===== *)
theory Flash_Kv_Thms
  imports Flash_Kv_Spec
begin

text \<open>
  Listing the store, interrupted appends and protected flash; then the properties of the key-value store,
  stated over the C functions of \<open>Flash_Kv\<close> and the hypotheses on the platform only.
\<close>

section \<open>Listing\<close>

definition last_off :: "kv_rec list \<Rightarrow> u16 \<rightharpoonup> nat" where
  "last_off rs = foldl (\<lambda>m (key, v, len, off). m(key \<mapsto> off)) Map.empty rs"

lemma last_off_snoc: "last_off (rs @ [(key, v, len, off)]) = (last_off rs)(key \<mapsto> off)"
  by (simp add: last_off_def)

lemma latest_update_keys:
  "set (map fst (latest_update key off table)) = insert key (set (map fst table))"
proof (induction key off table rule: latest_update.induct)
  case (2 key off k v table)
  then show ?case by (cases "k = key") (simp_all add: insert_commute del: set_map)
qed simp

lemma latest_update_distinct: "distinct (map fst table) \<Longrightarrow> distinct (map fst (latest_update key off table))"
proof (induction key off table rule: latest_update.induct)
  case (2 key off k v table)
  then show ?case by (cases "k = key") (simp_all add: latest_update_keys del: set_map)
qed simp

lemma latest_update_map: "map_of (latest_update key off table) = (map_of table)(key \<mapsto> off)"
  by (induction key off table rule: latest_update.induct) (auto simp: fun_upd_twist)

lemma length_latest_update: "length (latest_update key off table) \<le> Suc (length table)"
  by (induction key off table rule: latest_update.induct) auto

lemma latest_fold:
  "table = foldl (visit_rec latest_visit) [] rs \<Longrightarrow>
   distinct (map fst table) \<and> map_of table = (\<lambda>k. map_option of_nat (last_off rs k)) \<and> length table \<le> length rs"
proof (induction rs arbitrary: table rule: rev_induct)
  case Nil
  then show ?case by (auto simp: last_off_def)
next
  case (snoc r rs)
  obtain key v len off where r: "r = (key, v, len, off)" by (metis prod.exhaust)
  define t where "t = foldl (visit_rec latest_visit) [] rs"
  have t: "distinct (map fst t)" "map_of t = (\<lambda>k. map_option of_nat (last_off rs k))" "length t \<le> length rs"
    using snoc.IH [OF t_def] by simp_all
  have table: "table = latest_update key (of_nat off) t" using snoc.prems by (simp add: r t_def latest_visit_def)
  have "map_of table = (\<lambda>k. map_option of_nat (last_off (rs @ [r]) k))"
    by (rule ext) (simp add: table r t(2) last_off_snoc latest_update_map)
  moreover have "length table \<le> length (rs @ [r])"
    using t(3) length_latest_update [of key "of_nat off" t] by (simp add: table)
  ultimately show ?case using latest_update_distinct [OF t(1)] by (simp add: table)
qed

lemma report_status_eq:
  assumes "table = foldl (visit_rec latest_visit) [] rs" "\<forall>(k, v, len, off) \<in> set rs. off < KV_SECTOR_SIZE"
    and "off < KV_SECTOR_SIZE"
  shows "report_status table key len off =
     (if last_off rs key = Some off then if len \<noteq> 0 then FLASH_KV_RECORD_LIVE else FLASH_KV_RECORD_DELETED
      else FLASH_KV_RECORD_OLD)"
proof -
  note tab = latest_fold [OF assms(1)]
  have range: "o' < KV_SECTOR_SIZE" if "last_off rs key = Some o'" for o'
  proof -
    have "\<exists>v len. (key, v, len, o') \<in> set rs"
      using that
    proof (induction rs rule: rev_induct)
      case (snoc r rs)
      then show ?case by (cases r) (auto simp: last_off_snoc split: if_splits)
    qed (simp add: last_off_def)
    then show ?thesis using assms(2) by auto
  qed
  have u: "unat (of_nat o' :: u16) = o'" if "o' < KV_SECTOR_SIZE" for o'
    using that by (simp add: unat_of_nat)
  have "list_ex (\<lambda>(k, w). k = key \<and> unat w = off) table \<longleftrightarrow> (\<exists>w. map_of table key = Some w \<and> unat w = off)"
    using map_of_eq_Some_iff [of table key] tab by (fastforce simp: list_ex_iff)
  also have "\<dots> \<longleftrightarrow> last_off rs key = Some off"
    using tab range u assms(3) by auto
  finally show ?thesis by (simp add: report_status_def)
qed

lemma log_offs_distinct:
  assumes "off \<le> KV_SECTOR_SIZE" "length sec = KV_SECTOR_SIZE"
  shows "distinct (map (\<lambda>r. snd (snd (snd r))) (log_recs sec off))"
  using assms
proof (induction off rule: log_induct [of _ sec])
  case (stop off)
  then show ?case using parse_log_stop by simp
next
  case (step off key v len)
  have "off + record_size len \<le> o'" if "(k, v', len', o') \<in> set (log_recs sec (off + record_size len))" for k v' len' o'
    using log_recs_wf [OF _ step.prems that] rec_atD(1) [OF step(2)] by simp
  then have "off \<notin> (\<lambda>r. snd (snd (snd r))) ` set (log_recs sec (off + record_size len))"
    using record_size_pos [of len] by fastforce
  then show ?case using step.IH step.prems by (simp add: parse_log_rec [OF step(2)])
qed

lemma kv_map_last:
  assumes "distinct (map (\<lambda>r. snd (snd (snd r))) rs)"
  shows "kv_map rs key = Some v \<longleftrightarrow> (\<exists>len off. (key, v, len, off) \<in> set rs \<and> last_off rs key = Some off \<and> len \<noteq> 0)"
  using assms
proof (induction rs rule: rev_induct)
  case Nil
  then show ?case by (simp add: kv_map_def)
next
  case (snoc r rs)
  obtain k w len off where r: "r = (k, w, len, off)" by (metis prod.exhaust)
  have "last_off rs key' = Some o' \<Longrightarrow> \<exists>v' len'. (key', v', len', o') \<in> set rs" for key' o'
  proof (induction rs rule: rev_induct)
    case (snoc r rs)
    then show ?case by (cases r) (auto simp: last_off_snoc split: if_splits)
  qed (simp add: last_off_def)
  moreover have "\<forall>(k', v', len', o') \<in> set rs. o' \<noteq> off" using snoc.prems by (force simp: r)
  ultimately show ?case
    using snoc by (cases "k = key") (auto simp: r kv_map_snoc last_off_snoc)
qed

lemma log_recs_bound:
  assumes "length sec = KV_SECTOR_SIZE"
  shows "length (log_recs sec HEADER_SIZE) \<le> MAX_RECORDS"
proof -
  have "8 * length rs \<le> recs_size rs" for rs
  proof (induction rs)
    case (Cons r rs)
    obtain k v len o' where "r = (k, v, len, o')" by (metis prod.exhaust)
    then show ?case using Cons record_size_pos [of len] by (simp add: recs_size_def)
  qed (simp add: recs_size_def)
  from this [of "log_recs sec 8"] show ?thesis
    using log_recs_size [of 8 sec] log_end_bounds [of 8 sec] by (simp add: MAX_RECORDS_def)
qed

definition kv_listed :: "bytes \<Rightarrow> flash_kv_record list" where
  "kv_listed sec = map (\<lambda>(key, v, len, off).
     \<lparr>rec_offset = off, rec_key = key, rec_len = len, rec_value = v,
      rec_status = (if last_off (log_recs sec HEADER_SIZE) key = Some off
        then if len \<noteq> 0 then FLASH_KV_RECORD_LIVE else FLASH_KV_RECORD_DELETED
        else FLASH_KV_RECORD_OLD)\<rparr>) (log_recs sec HEADER_SIZE)"

lemma listed_live:
  "(\<exists>r \<in> set (kv_listed sec). rec_key r = key \<and> rec_value r = v \<and> rec_status r = FLASH_KV_RECORD_LIVE) \<longleftrightarrow>
   (\<exists>len off. (key, v, len, off) \<in> set (log_recs sec HEADER_SIZE)
      \<and> last_off (log_recs sec HEADER_SIZE) key = Some off \<and> len \<noteq> 0)"
proof -
  have "(\<exists>r \<in> set (kv_listed sec). rec_key r = key \<and> rec_value r = v \<and> rec_status r = FLASH_KV_RECORD_LIVE) \<longleftrightarrow>
    (\<exists>r \<in> set (log_recs sec HEADER_SIZE). fst r = key \<and> fst (snd r) = v
      \<and> last_off (log_recs sec HEADER_SIZE) key = Some (snd (snd (snd r))) \<and> fst (snd (snd r)) \<noteq> 0)"
    unfolding kv_listed_def set_map bex_simps(7) by (intro bex_cong refl) (auto split: if_splits)
  then show ?thesis by force
qed

lemma report_fold:
  "foldl (visit_rec (report_visit table)) out rs = out @ map (\<lambda>(key, v, len, off).
     \<lparr>rec_offset = off, rec_key = key, rec_len = len, rec_value = v,
      rec_status = report_status table key len off\<rparr>) rs"
  by (induction rs arbitrary: out) (auto simp: report_visit_def)

context kv_platform
begin

lemma foreach_eq:
  "\<exists>h'. nor_view (chip h') = nor_view (chip h) \<and> flash_kv_foreach pf h =
     Some ((kv_state (sector (chip h)),
       if header_valid (sector (chip h)) then kv_listed (sector (chip h)) else [],
       if header_valid (sector (chip h)) then log_end (sector (chip h)) HEADER_SIZE else 0), h')"
proof -
  define sec where "sec = sector (chip h)"
  define rs where "rs = log_recs sec HEADER_SIZE"
  have lsec: "length sec = KV_SECTOR_SIZE" by (simp add: sec_def)
  obtain h1 where h1: "nor_view (chip h1) = nor_view (chip h)"
    "scan pf h = Some ((kv_state sec, if header_valid sec then log_end sec HEADER_SIZE else 0), h1)"
    using scan_eq [of h] by (auto simp: sec_def)
  obtain h2 where h2: "pf_malloc pf (MAX_RECORDS * 4) h1 = (True, h2)" "nor_view (chip h2) = nor_view (chip h1)"
    by (rule malloc_eq)
  have sec2: "sector (chip h2) = sec" using sector_view [of "chip h2" "chip h"] h1(1) h2(2) by (simp add: sec_def)
  define table where "table = foldl (visit_rec latest_visit) [] rs"
  obtain h3 where h3: "nor_view (chip h3) = nor_view (chip h2)"
    "walk pf latest_visit [] h2 = Some ((log_clean sec 8, log_end sec 8, table), h3)"
    using walk_eq [of h2 latest_visit "[]", unfolded sec2] by (auto simp: table_def rs_def)
  have sec3: "sector (chip h3) = sec" using sector_view [OF h3(1)] sec2 by simp
  obtain h4 where h4: "nor_view (chip h4) = nor_view (chip h3)"
    "walk pf (report_visit table) [] h3 =
       Some ((log_clean sec 8, log_end sec 8, foldl (visit_rec (report_visit table)) [] rs), h4)"
    using walk_eq [of h3 "report_visit table" "[]", unfolded sec3] by (auto simp: rs_def)
  have offs: "off < KV_SECTOR_SIZE" if "(k, v, len, off) \<in> set rs" for k v len off
    using log_recs_wf [of 8 sec k v len off] lsec that record_size_pos [of len] by (simp add: rs_def)
  then have all_offs: "\<forall>(k, v, len, off) \<in> set rs. off < KV_SECTOR_SIZE" by blast
  have "foldl (visit_rec (report_visit table)) [] rs = kv_listed sec"
    using report_status_eq [OF table_def all_offs] offs
    by (auto simp: report_fold kv_listed_def simp flip: rs_def)
  moreover have "(kv_state sec = FLASH_KV_VALID \<or> kv_state sec = FLASH_KV_TORN) = header_valid sec"
    by (auto simp: kv_state_def)
  ultimately show ?thesis
    using h1 h2 h3 h4 by (cases "header_valid sec") (auto simp: flash_kv_foreach_def simp flip: sec_def)
qed

end

section \<open>Interrupted appends\<close>

text \<open>\<open>flash_write\<close> programs block by block: writing up to a block boundary and going on from there is the same
  as writing everything, so the states in between are those of a write of a prefix.\<close>

lemma next_block:
  fixes a n :: nat
  assumes "(a + n) mod 32 = 0"
  shows "0 < 32 - a mod 32" "n \<noteq> 0 \<Longrightarrow> 32 - a mod 32 \<le> n" "(a + (32 - a mod 32)) mod 32 = 0"
proof -
  have a: "a = 32 * (a div 32) + a mod 32" by simp
  show "0 < 32 - a mod 32" by simp
  have "a + (32 - a mod 32) = 32 * (a div 32) + 32"
    using a mod_less_divisor [of 32 a] by linarith
  then show "(a + (32 - a mod 32)) mod 32 = 0" by simp
  show "32 - a mod 32 \<le> n" if "n \<noteq> 0"
  proof (rule ccontr)
    assume "\<not> 32 - a mod 32 \<le> n"
    then have "(a mod 32 + n) mod 32 = a mod 32 + n" by simp
    then show False using assms that by (simp add: mod_add_left_eq)
  qed
qed

lemma flash_write_prefix:
  assumes "(unat addr + n) mod 32 = 0" "n \<le> length src" "unat addr + length src < 2 ^ 32"
  shows "flash_write pf addr src h = flash_write pf (addr + of_nat n) (drop n src) (flash_write pf addr (take n src) h)"
  using assms
proof (induction n arbitrary: addr src h rule: less_induct)
  case (less n)
  show ?case
  proof (cases "n = 0")
    case True
    then show ?thesis by (simp add: flash_write.simps [of pf addr "[]"])
  next
    case False
    define c where "c = 32 - unat addr mod 32"
    have c: "0 < c" "c \<le> n" "(unat addr + c) mod 32 = 0"
      using next_block [OF less.prems(1)] False by (simp_all add: c_def)
    have addr': "unat (addr + of_nat c) = unat addr + c"
      using less.prems c by (intro unat_add_of_nat) simp
    define rd where "rd = (if unat addr mod 32 \<noteq> 0 \<or> c < 32 then flash_read pf (block_of addr) 32 h else (replicate 32 0, h))"
    define h1 where "h1 = write_block pf (block_of addr)
      (bytes_words (buf_write (unat addr mod 32) (take c src) (fst rd))) (snd rd)"
    have first: "flash_write pf addr xs h = flash_write pf (addr + of_nat c) (drop c xs) h1"
      if "c \<le> length xs" "take c xs = take c src" for xs
    proof -
      have mn: "min (32 - unat addr mod 32) (length xs) = c" and ne: "(xs = []) = False"
        using that(1) c(1) by (auto simp: c_def)
      show ?thesis
        by (subst flash_write.simps) (simp only: Let_def split_beta block_offset mn ne that(2) if_False rd_def h1_def)
    qed
    have "flash_write pf addr src h = flash_write pf (addr + of_nat c) (drop c src) h1"
      using less.prems(2) c(2) by (intro first) simp_all
    also have "\<dots> = flash_write pf (addr + of_nat c + of_nat (n - c)) (drop (n - c) (drop c src))
        (flash_write pf (addr + of_nat c) (take (n - c) (drop c src)) h1)"
      using less.prems c by (intro less.IH) (simp_all add: addr')
    also have "flash_write pf (addr + of_nat c) (take (n - c) (drop c src)) h1 = flash_write pf addr (take n src) h"
      using less.prems(2) c(2) first [of "take n src"] by (simp add: drop_take min_def)
    also have "addr + of_nat c + of_nat (n - c) = addr + of_nat n" using c(2) by (simp add: of_nat_diff)
    also have "drop (n - c) (drop c src) = drop n src" using c(2) by simp
    finally show ?thesis .
  qed
qed

lemma torn_append:
  assumes "length sec = KV_SECTOR_SIZE" "e = log_end sec HEADER_SIZE"
    and "\<forall>i. e \<le> i \<longrightarrow> i < KV_SECTOR_SIZE \<longrightarrow> sec ! i = 0xFF"
    and "length v = unat len" "e + record_size len \<le> KV_SECTOR_SIZE" "n mod 4 = 0"
    and "sec' = buf_write e (take n (encode_record key v len)) sec"
  shows "\<exists>rs'. log_recs sec' HEADER_SIZE = log_recs sec HEADER_SIZE @ rs' \<and> (\<forall>(k, v', len', o') \<in> set rs'. k = key)"
proof -
  let ?r = "encode_record key v len"
  have lr: "length ?r = record_size len" using assms(4) by (rule length_encode_record)
  have len': "length sec' = KV_SECTOR_SIZE" using assms(1,5,7) lr by simp
  have nth': "sec' ! i = (if e \<le> i \<and> i < e + min n (record_size len) then ?r ! (i - e) else sec ! i)"
    if "i < KV_SECTOR_SIZE" for i
    using that assms(1,5,7) lr by (auto simp: nth_buf_write)
  have e: "e \<le> KV_SECTOR_SIZE" "e mod 4 = 0" using log_end_bounds [of 8 sec] assms(2) by simp_all
  have ext: "log_recs sec' 8 = log_recs sec 8 @ log_recs sec' e"
    using parse_log_extend [of 8 sec sec'] nth' e(1) assms(1,2) len' by simp
  have "\<forall>(k, v', len', o') \<in> set (log_recs sec' e). k = key"
  proof (cases "\<exists>k v' l. rec_at sec' e k v' l")
    case False
    then show ?thesis using parse_log_stop [of sec' e] by simp
  next
    case True
    then obtain k v' l where r: "rec_at sec' e k v' l" by blast
    have e4: "e + 4 \<le> KV_SECTOR_SIZE" using rec_at_less [OF r] by simp
    have "n \<noteq> 0"
    proof
      assume "n = 0"
      then have "slice e 4 sec' = replicate 4 0xFF"
        using e4 nth' assms(3) len' by (intro slice_eqI) auto
      then show False using r by (auto simp: rec_at_def le16_def)
    qed
    then have n4: "4 \<le> min n (record_size len)" using assms(6) record_size_pos [of len] by (cases n) (auto, presburger)
    have "slice e 4 sec' = take 4 ?r"
      using n4 nth' e4 len' lr record_size_pos [of len] by (intro slice_eqI) auto
    also have "\<dots> = le16_bytes key @ le16_bytes len" using assms(4) by (simp add: encode_record_eq)
    finally have hd: "k = key" "l = len" using r by (auto simp: rec_at_def)
    have "\<forall>i. e + record_size len \<le> i \<longrightarrow> i < KV_SECTOR_SIZE \<longrightarrow> sec' ! i = 0xFF"
      using nth' assms(3) by auto
    moreover have "(e + record_size len) mod 4 = 0"
      using e(2) by (simp add: mod_add_eq [of e 4 "record_size len", symmetric])
    ultimately have "parse_log sec' (e + record_size len) = ([], True, e + record_size len)"
      using len' assms(5) by (intro parse_log_blank)
    then show ?thesis using parse_log_rec [OF r] hd by simp
  qed
  then show ?thesis using ext by blast
qed

lemma kv_map_other:
  assumes "\<forall>(k, v, len, off) \<in> set rs'. k = key" "k' \<noteq> key"
  shows "kv_map (rs @ rs') k' = kv_map rs k'"
  using assms(1)
proof (induction rs' rule: rev_induct)
  case (snoc r rs')
  then show ?case
    using assms(2) kv_map_snoc [of "rs @ rs'" r] by (cases r) auto
qed simp

section \<open>Protected flash\<close>

context kv_platform
begin

lemma write_verified_locked:
  assumes "off + length src \<le> KV_SECTOR_SIZE" "\<not> nor_unlocked (chip h)"
    and "i < length src" "sector (chip h) ! (off + i) \<noteq> src ! i"
  shows "\<exists>h'. write_verified pf off src h = (Inl EIO, h') \<and> nor_mem (chip h') = nor_mem (chip h)"
proof -
  have addr: "unat (KV_BASE + of_nat off) = 0x1FF000 + off" using assms(1) by (intro unat_kv_addr) simp
  define h1 where "h1 = flash_write pf (KV_BASE + of_nat off) src h"
  have mem: "nor_mem (chip h1) = nor_mem (chip h)"
    using flash_write_locked [of "KV_BASE + of_nat off" src h] assms(1,2) size_bounds(1) by (simp add: addr h1_def)
  then have "sector (chip h1) = sector (chip h)" by (simp add: sector_def)
  then obtain h2 where h2: "nor_view (chip h2) = nor_view (chip h1)" "verify_loop pf off src 0 h1 = (Inl EIO, h2)"
    using verify_loop_eq [OF assms(1), of h1 0] assms(3,4) by (auto split: if_splits)
  then show ?thesis
    using mem nor_viewD(1) [OF h2(1)] by (simp add: write_verified_def flip: h1_def)
qed

lemma append_locked:
  assumes "kv_state (sector (chip h)) = FLASH_KV_VALID"
    and "log_end (sector (chip h)) HEADER_SIZE + record_size len \<le> KV_SECTOR_SIZE"
    and "\<not> nor_unlocked (chip h)" "length v = unat len" "key \<noteq> FLASH_KV_KEY_NONE"
  shows "\<exists>h'. append_record pf key v len h = Some (Inl EIO, h') \<and> nor_mem (chip h') = nor_mem (chip h)"
proof -
  define sec where "sec = sector (chip h)"
  define e where "e = log_end sec HEADER_SIZE"
  have st: "header_valid sec" "blank_from sec e"
    using assms(1) by (auto simp: kv_state_def sec_def e_def split: if_splits)
  obtain h1 where h1: "nor_view (chip h1) = nor_view (chip h)" "scan pf h = Some ((FLASH_KV_VALID, e), h1)"
    using scan_eq [of h] st assms(1) by (auto simp: sec_def e_def)
  obtain h2 where h2: "pf_malloc pf RECORD_MAX_SIZE h1 = (True, h2)" "nor_view (chip h2) = nor_view (chip h1)"
    by (rule malloc_eq)
  have view2: "nor_view (chip h2) = nor_view (chip h)" using h1(1) h2(2) by simp
  note v2 = nor_viewD [OF view2]
  have sec2: "sector (chip h2) = sec" using sector_view [OF view2] by (simp add: sec_def)
  let ?r = "encode_record key v len"
  have lr: "length ?r = record_size len" using assms(4) by (rule length_encode_record)
  have fits: "e + length ?r \<le> KV_SECTOR_SIZE" using assms(2) lr by (simp add: e_def sec_def)
  have "\<exists>i < 2. ?r ! i \<noteq> 0xFF"
  proof (rule ccontr)
    assume "\<not> (\<exists>i < 2. ?r ! i \<noteq> 0xFF)"
    then have "le16 ?r = 0xFFFF" by (simp add: le16_def)
    then show False using le16_drop_record(1) [OF assms(4), of key "[]"] assms(5) by simp
  qed
  then obtain i where i: "i < 2" "?r ! i \<noteq> 0xFF" by blast
  then have "i < length ?r" "sector (chip h2) ! (e + i) \<noteq> ?r ! i"
    using st(2) fits lr record_size_pos [of len] by (auto simp: sec2 blank_from_def)
  then obtain h3 where "write_verified pf e ?r h2 = (Inl EIO, h3)" "nor_mem (chip h3) = nor_mem (chip h2)"
    using write_verified_locked [OF fits, of h2] assms(3) v2(4) by blast
  then show ?thesis
    using h1(2) h2(1) assms(2) v2(1) by (simp add: append_record_def e_def sec_def)
qed

end

interpretation chip_kv: kv_platform chip_platform "\<lambda>c. c" "2 ^ 21"
  by unfold_locales (simp add: chip_platform_def)

lemma blank_sector: "sector blank_chip = replicate KV_SECTOR_SIZE 0xFF"
  by (rule nth_equalityI) (simp_all add: sector_def blank_chip_def)

lemma blank_not_valid: "\<not> header_valid (sector blank_chip)"
proof -
  have "slice 0 8 (sector blank_chip) = replicate 8 0xFF"
    by (rule slice_eqI) (simp_all add: sector_def blank_chip_def)
  then show ?thesis by (simp add: header_valid_def le32_def)
qed

lemma blank_abs: "kv_abs (sector blank_chip) = Map.empty"
  by (simp add: kv_abs_def blank_not_valid)

lemma blank_fits: "unat len \<le> 256 \<Longrightarrow> kv_fits (sector blank_chip) key len"
  using record_size_bound [of len] by (simp add: kv_fits_def kv_items_def blank_not_valid drop_key_def)

lemma blank_ready: "nor_unlocked blank_chip" "nor_wf blank_chip = []"
  by (simp_all add: blank_chip_def nor_unlocked_def)

section \<open>Properties\<close>

text \<open>(C1) \<open>flash_kv_set\<close> implements the update of a map, whatever the sector holds before (blank, another
  owner's data, a valid log, a log with a torn tail): with an unprotected chip it returns 0 exactly when the live
  records of the other keys and the new record fit in the sector, and then the map the sector stands for is
  updated at this key only; otherwise it returns \<open>-ENOSPC\<close> and no byte of the flash has changed. Flash outside
  the sector is never touched.\<close>

theorem flash_kv_set_correct:
  assumes "kv_platform pf chip sz" "nor_unlocked (chip h)" "nor_wf (chip h) = []"
    and "key \<noteq> FLASH_KV_KEY_NONE" "v \<noteq> []" "length v \<le> 256"
  shows "\<exists>h'. flash_kv_set pf key (Some v) (length v) h =
       Some (if kv_fits (sector (chip h)) key (item_len v) then Inr () else Inl ENOSPC, h')
     \<and> (if kv_fits (sector (chip h)) key (item_len v)
        then kv_abs (sector (chip h')) = (kv_abs (sector (chip h)))(key \<mapsto> v)
          \<and> (\<forall>x. x < 0x1FF000 \<or> 0x200000 \<le> x \<longrightarrow> nor_mem (chip h') x = nor_mem (chip h) x)
        else nor_mem (chip h') = nor_mem (chip h))"
  using kv_platform.set_eq [OF assms] assms(5)
  by (auto simp: kv_changed_def nor_view_def split: if_splits)

theorem flash_kv_set_correct_witness:
  "\<exists>h'. flash_kv_set chip_platform 1 (Some [7]) (length [7 :: u8]) blank_chip = Some (Inr (), h')
     \<and> kv_abs (sector h') = [1 \<mapsto> [7]]"
  using flash_kv_set_correct [OF chip_kv.kv_platform_axioms blank_ready, of 1 "[7]"]
  by (auto simp: blank_fits blank_abs)

text \<open>(C2) \<open>flash_kv_get\<close> returns what the map holds, on every branch: \<open>-ENOENT\<close> for a key that is not set or was
  removed, \<open>-EBADMSG\<close> for another length than the one asked for, \<open>-EMSGSIZE\<close> when the buffer is too short,
  and otherwise the length and, when a buffer is given, the value; on an error no byte is copied, and the
  flash is never changed.\<close>

theorem flash_kv_get_correct:
  assumes "kv_platform pf chip sz" "key \<noteq> FLASH_KV_KEY_NONE"
  shows "\<exists>h'. flash_kv_get pf key buf blen exact_size h =
       Some (case kv_abs (sector (chip h)) key of
           None \<Rightarrow> (Inl ENOENT, None)
         | Some v \<Rightarrow>
             if exact_size \<noteq> 0 \<and> length v \<noteq> exact_size then (Inl EBADMSG, None)
             else if \<not> buf then (Inr (length v), None)
             else if blen < length v then (Inl EMSGSIZE, None)
             else (Inr (length v), Some v), h')
     \<and> nor_mem (chip h') = nor_mem (chip h)"
  using kv_platform.get_eq [OF assms, of h buf blen exact_size]
  by (auto simp: kv_get_spec_def nor_view_def)

theorem flash_kv_get_correct_witness:
  "\<exists>h'. flash_kv_get chip_platform 5 True 10 0 blank_chip = Some ((Inl ENOENT, None), h') \<and> nor_mem h' = nor_mem blank_chip"
  using flash_kv_get_correct [OF chip_kv.kv_platform_axioms, of 5 True 10 0 blank_chip] by (simp add: blank_abs)

text \<open>Setting then getting: after a \<open>flash_kv_set\<close> that returned 0, \<open>flash_kv_get\<close> of that key with a
  buffer that is long enough returns the value set, and of any other key what it returned before.\<close>

theorem flash_kv_set_get:
  assumes "kv_platform pf chip sz" "nor_unlocked (chip h)" "nor_wf (chip h) = []"
    and "v \<noteq> []" "k \<noteq> FLASH_KV_KEY_NONE"
    and "flash_kv_set pf key (Some v) (length v) h = Some (Inr (), h1)"
  shows "map_option fst (flash_kv_get pf k True blen exact_size h1) =
     (if k = key then if exact_size \<noteq> 0 \<and> length v \<noteq> exact_size then Some (Inl EBADMSG, None)
        else if blen < length v then Some (Inl EMSGSIZE, None) else Some (Inr (length v), Some v)
      else map_option fst (flash_kv_get pf k True blen exact_size h))"
proof -
  have ok: "key \<noteq> FLASH_KV_KEY_NONE" "length v \<le> 256"
    using assms(6) by (auto simp: flash_kv_set_def split: if_splits)
  have "kv_changed (chip h) (chip h1) key v"
    using kv_platform.set_eq [OF assms(1-3) ok(1) assms(4) ok(2)] assms(6) by (auto split: if_splits)
  then show ?thesis
    using kv_platform.get_eq [OF assms(1,5), of h1 True blen exact_size]
      kv_platform.get_eq [OF assms(1,5), of h True blen exact_size] assms(4)
    by (auto simp: kv_changed_def kv_get_spec_def)
qed

theorem flash_kv_set_get_witness:
  "\<exists>h1. flash_kv_set chip_platform 1 (Some [7]) (length [7 :: u8]) blank_chip = Some (Inr (), h1)
     \<and> map_option fst (flash_kv_get chip_platform 1 True 4 0 h1) = Some (Inr 1, Some [7])"
proof -
  obtain h1 where h1: "flash_kv_set chip_platform 1 (Some [7]) (length [7 :: u8]) blank_chip = Some (Inr (), h1)"
    using chip_kv.set_eq [OF blank_ready, of 1 "[7]"] by (auto simp: blank_fits)
  then show ?thesis
    using flash_kv_set_get [OF chip_kv.kv_platform_axioms blank_ready _ _ h1, of 1 4 0] by auto
qed

text \<open>Storing the value that is already there writes nothing: no erase and no program cycle is spent.\<close>

theorem flash_kv_set_unchanged:
  assumes "kv_platform pf chip sz" "key \<noteq> FLASH_KV_KEY_NONE" "kv_abs (sector (chip h)) key = Some v"
  shows "\<exists>h'. flash_kv_set pf key (Some v) (length v) h = Some (Inr (), h') \<and> nor_view (chip h') = nor_view (chip h)"
proof -
  have "header_valid (sector (chip h))" using assms(3) by (auto simp: kv_abs_def split: if_splits)
  then have "(key, v) \<in> set (kv_items (sector (chip h)))"
    using assms(3) map_of_kv_items [of "sector (chip h)"] map_of_SomeD by fastforce
  then have v: "v \<noteq> []" "length v \<le> 256"
    using kv_items_good [of "sector (chip h)"] by (auto simp: good_item_def)
  obtain h1 where h1: "pf_malloc pf (length v) h = (True, h1)" "nor_view (chip h1) = nor_view (chip h)"
    by (rule kv_platform.malloc_eq [OF assms(1)])
  have "\<exists>h2. nor_view (chip h2) = nor_view (chip h1)
      \<and> flash_kv_get pf key True (length v) 0 h1 = Some ((Inr (length v), Some v), h2)"
    using kv_platform.get_eq [OF assms(1,2), of h1 True "length v" 0] sector_view [OF h1(2)] assms(3)
    by (simp add: kv_get_spec_def)
  then show ?thesis using assms(2) v h1 by (auto simp: flash_kv_set_def)
qed

theorem flash_kv_set_unchanged_witness:
  "\<exists>h1 h2. flash_kv_set chip_platform 1 (Some [7]) (length [7 :: u8]) h1 = Some (Inr (), h2) \<and> nor_view h2 = nor_view h1"
proof -
  obtain h1 where h1: "kv_changed blank_chip h1 1 [7]"
    using chip_kv.set_eq [OF blank_ready, of 1 "[7]"] by (auto simp: blank_fits)
  then show ?thesis
    using flash_kv_set_unchanged [OF chip_kv.kv_platform_axioms, of 1 h1 "[7]"] by (auto simp: kv_changed_def)
qed

text \<open>\<open>flash_kv_erase_key\<close> removes the key from the map and nothing else, always succeeds on an unprotected
  chip (removal needs no space: a full log is compacted), and does nothing for a key that is not set.\<close>

theorem flash_kv_erase_key_correct:
  assumes "kv_platform pf chip sz" "nor_unlocked (chip h)" "nor_wf (chip h) = []" "key \<noteq> FLASH_KV_KEY_NONE"
  shows "\<exists>h'. flash_kv_erase_key pf key h = Some (Inr (), h')
     \<and> kv_abs (sector (chip h')) = (kv_abs (sector (chip h)))(key := None)
     \<and> (\<forall>x. x < 0x1FF000 \<or> 0x200000 \<le> x \<longrightarrow> nor_mem (chip h') x = nor_mem (chip h) x)"
  using kv_platform.erase_key_eq [OF assms] by (auto simp: kv_changed_def)

theorem flash_kv_erase_key_correct_witness:
  "\<exists>h'. flash_kv_erase_key chip_platform 3 blank_chip = Some (Inr (), h') \<and> kv_abs (sector h') 3 = None"
  using flash_kv_erase_key_correct [OF chip_kv.kv_platform_axioms blank_ready, of 3] by auto

text \<open>\<open>flash_kv_erase\<close> clears protection, erases the sector and returns 0: the store is blank afterwards and
  every other byte of the flash is as it was. It does not depend on memory or on the state of the chip.\<close>

theorem flash_kv_erase_correct:
  assumes "nor_flash pf chip sz"
  shows "\<exists>h'. flash_kv_erase pf h = (Inr (), h')
     \<and> kv_state (sector (chip h')) = FLASH_KV_BLANK \<and> kv_abs (sector (chip h')) = Map.empty
     \<and> (\<forall>x. x < 0x1FF000 \<or> 0x200000 \<le> x \<longrightarrow> nor_mem (chip h') x = nor_mem (chip h) x)"
proof -
  have "\<not> list_ex (\<lambda>b. b \<noteq> 0xFF) (slice 0 8 (sector blank_chip))"
    using list_ex_slice [of 0 8 "sector blank_chip" "\<lambda>b. b \<noteq> 0xFF"]
    by (simp add: sector_def blank_chip_def)
  then have "kv_state (replicate KV_SECTOR_SIZE 0xFF) = FLASH_KV_BLANK"
    using blank_not_valid by (simp add: kv_state_def flip: blank_sector)
  then show ?thesis
    using nor_flash.erase_eq [OF assms, of h] blank_abs by (auto simp flip: blank_sector)
qed

theorem flash_kv_erase_correct_witness:
  "\<exists>h'. flash_kv_erase chip_platform (blank_chip\<lparr>nor_mem := \<lambda>_. 0, nor_sr := 0x7C\<rparr>) = (Inr (), h')
     \<and> kv_state (sector h') = FLASH_KV_BLANK"
  using flash_kv_erase_correct [OF chip.nor_flash_axioms] by blast

text \<open>\<open>flash_kv_foreach\<close> reports every record of the log in order, and the records it marks live are exactly
  the map: a key has the value \<open>v\<close> if and only if one reported record is live with that key and value. Its
  table of newest offsets never holds more entries than were allocated.\<close>

theorem flash_kv_foreach_correct:
  assumes "kv_platform pf chip sz"
  shows "\<exists>h' out used. flash_kv_foreach pf h = Some ((kv_state (sector (chip h)), out, used), h')
     \<and> nor_mem (chip h') = nor_mem (chip h)
     \<and> (kv_abs (sector (chip h)) key = Some v \<longleftrightarrow>
          (\<exists>r \<in> set out. rec_key r = key \<and> rec_value r = v \<and> rec_status r = FLASH_KV_RECORD_LIVE))
     \<and> distinct (map rec_offset out)
     \<and> length (foldl (visit_rec latest_visit) [] (log_recs (sector (chip h)) HEADER_SIZE)) \<le> MAX_RECORDS"
proof -
  define sec where "sec = sector (chip h)"
  have lsec: "length sec = KV_SECTOR_SIZE" by (simp add: sec_def)
  have dist: "distinct (map (\<lambda>r. snd (snd (snd r))) (log_recs sec HEADER_SIZE))"
    using lsec by (intro log_offs_distinct) simp_all
  have "kv_map (log_recs sec HEADER_SIZE) key = Some v \<longleftrightarrow>
      (\<exists>r \<in> set (kv_listed sec). rec_key r = key \<and> rec_value r = v \<and> rec_status r = FLASH_KV_RECORD_LIVE)"
    using kv_map_last [OF dist, of key v] listed_live [of sec key v] by simp
  moreover have "map rec_offset (kv_listed sec) = map (\<lambda>r. snd (snd (snd r))) (log_recs sec HEADER_SIZE)"
    by (auto simp: kv_listed_def)
  moreover have "length (foldl (visit_rec latest_visit) [] (log_recs sec HEADER_SIZE)) \<le> MAX_RECORDS"
    using latest_fold [OF refl, of "log_recs sec HEADER_SIZE"] log_recs_bound [OF lsec] by linarith
  ultimately show ?thesis
    using kv_platform.foreach_eq [OF assms, of h] dist
    by (cases "header_valid sec") (auto simp: kv_abs_def nor_view_def simp flip: sec_def)
qed

theorem flash_kv_foreach_correct_witness:
  "\<exists>h' out used. flash_kv_foreach chip_platform blank_chip = Some ((kv_state (sector blank_chip), out, used), h')
     \<and> \<not> (\<exists>r \<in> set out. rec_key r = 1 \<and> rec_value r = [7] \<and> rec_status r = FLASH_KV_RECORD_LIVE)"
  using flash_kv_foreach_correct [OF chip_kv.kv_platform_axioms, of blank_chip 1 "[7]"] by (auto simp: blank_abs)

text \<open>(C3) An append that is cut off by a power loss between two programmed blocks loses nothing but itself: in
  every state the flash passes through while \<open>flash_write\<close> programs the new record, each other key has the value
  it had before. (The write up to a block boundary and the write of the rest compose to the whole write.)\<close>

theorem append_power_loss:
  assumes "nor_flash pf chip sz" "kv_state (sector (chip h)) = FLASH_KV_VALID"
    and "nor_unlocked (chip h)" "nor_wf (chip h) = []" "length v = unat len" "k \<noteq> key"
    and "e = log_end (sector (chip h)) HEADER_SIZE" "e + record_size len \<le> KV_SECTOR_SIZE"
    and "(0x1FF000 + e + n) mod 32 = 0" "n \<le> record_size len"
    and "h1 = flash_write pf (KV_BASE + of_nat e) (take n (encode_record key v len)) h"
  shows "flash_write pf (KV_BASE + of_nat e) (encode_record key v len) h
       = flash_write pf (KV_BASE + of_nat e + of_nat n) (drop n (encode_record key v len)) h1
     \<and> kv_abs (sector (chip h1)) k = kv_abs (sector (chip h)) k"
proof -
  define sec where "sec = sector (chip h)"
  let ?r = "encode_record key v len"
  have lr: "length ?r = record_size len" using assms(5) by (rule length_encode_record)
  have addr: "unat (KV_BASE + of_nat e) = 0x1FF000 + e" using assms(8) by (intro unat_kv_addr) simp
  have st: "header_valid sec" "blank_from sec e"
    using assms(2,7) by (auto simp: kv_state_def sec_def split: if_splits)
  then have blank: "\<forall>i. e \<le> i \<longrightarrow> i < KV_SECTOR_SIZE \<longrightarrow> sec ! i = 0xFF" by (simp add: blank_from_def)
  have "2 ^ 21 \<le> sz" using assms(1) by (simp add: nor_flash_def)
  then have "nor_view (chip h1) = (nor_program (nor_mem (chip h)) (0x1FF000 + e) (take n ?r), nor_sr (chip h), [])"
    using nor_flash.flash_write_eq [OF assms(1), of "KV_BASE + of_nat e" "take n ?r" h] assms(3,4,8,10,11) lr
    by (simp add: addr)
  then have sec1: "sector (chip h1) = buf_write e (take n ?r) sec"
    using blank assms(8,10) lr unfolding sec_def by (intro sector_program) (simp_all add: nor_view_def)
  have e: "8 \<le> e" "e mod 4 = 0" using log_end_bounds [of 8 sec] assms(7) by (simp_all add: sec_def)
  then have n4: "n mod 4 = 0" using assms(9) by presburger
  obtain rs' where rs': "log_recs (sector (chip h1)) 8 = log_recs sec 8 @ rs'" "\<forall>(k, v', len', o') \<in> set rs'. k = key"
    using torn_append [of sec e v len n "sector (chip h1)" key] assms(5,7,8) blank n4 sec1 by (auto simp: sec_def)
  have "slice 0 8 (sector (chip h1)) = slice 0 8 sec"
    unfolding sec1 using e(1) assms(8) lr by (intro slice_buf_write_other) (simp_all add: sec_def)
  then have "kv_abs (sector (chip h1)) k = kv_abs sec k"
    using st(1) rs'(1) kv_map_other [OF rs'(2) assms(6)] by (simp add: kv_abs_def header_valid_def)
  moreover have "flash_write pf (KV_BASE + of_nat e) ?r h
      = flash_write pf (KV_BASE + of_nat e + of_nat n) (drop n ?r) h1"
    unfolding assms(11) using assms(8-10) lr by (intro flash_write_prefix) (simp_all add: addr)
  ultimately show ?thesis by (simp add: sec_def)
qed

text \<open>A chip whose store holds the header and an empty log.\<close>

definition header_chip :: nor where
  "header_chip = blank_chip\<lparr>nor_mem := \<lambda>x. if 0x1FF000 \<le> x \<and> x < 0x1FF008 then encode_header ! (x - 0x1FF000) else 0xFF\<rparr>"

lemma header_chip_sector: "sector header_chip = encode_header @ enc_items [] @ replicate (KV_SECTOR_SIZE - 8 - items_size []) 0xFF"
  by (rule nth_equalityI) (auto simp: sector_def header_chip_def nth_append)

lemma header_chip_state:
  "kv_state (sector header_chip) = FLASH_KV_VALID" "kv_abs (sector header_chip) = Map.empty"
  "log_end (sector header_chip) HEADER_SIZE = 8"
  using compacted_sector [OF _ _ _ header_chip_sector] parse_enc_items [of "[]" encode_header "KV_SECTOR_SIZE - 8"]
    header_chip_sector by simp_all

theorem append_power_loss_witness:
  "kv_abs (sector (flash_write chip_platform (KV_BASE + of_nat 8)
       (take 24 (encode_record 1 (replicate 17 5) 17)) header_chip)) 2 = None"
proof -
  have "record_size 17 = 28" by (simp add: record_size_def align4_def)
  moreover have "nor_unlocked header_chip" "nor_wf header_chip = []"
    using blank_ready by (simp_all add: header_chip_def nor_unlocked_def)
  ultimately show ?thesis
    using append_power_loss [OF chip.nor_flash_axioms, of header_chip "replicate 17 5" 17 2 1 8 24, OF _ _ _ _ _ _ _ _ _ refl]
    by (simp add: header_chip_state)
qed

text \<open>Setting a value on protected flash is reported: when the record would be appended, \<open>flash_kv_set\<close> of a new
  value returns \<open>-EIO\<close>, because the silently ignored write is read back, and the flash is unchanged.\<close>

theorem flash_kv_set_protected:
  assumes "kv_platform pf chip sz" "nor_sr (chip h) AND 0xFC \<noteq> 0" "key \<noteq> FLASH_KV_KEY_NONE" "v \<noteq> []" "length v \<le> 256"
    and "kv_state (sector (chip h)) = FLASH_KV_VALID" "kv_abs (sector (chip h)) key \<noteq> Some v"
    and "log_end (sector (chip h)) HEADER_SIZE + record_size (item_len v) \<le> KV_SECTOR_SIZE"
  shows "\<exists>h'. flash_kv_set pf key (Some v) (length v) h = Some (Inl EIO, h') \<and> nor_mem (chip h') = nor_mem (chip h)"
proof -
  obtain h1 where h1: "pf_malloc pf (length v) h = (True, h1)" "nor_view (chip h1) = nor_view (chip h)"
    by (rule kv_platform.malloc_eq [OF assms(1)])
  define g where "g = kv_get_spec (kv_abs (sector (chip h))) key True (length v) 0"
  obtain h2 where h2: "nor_view (chip h2) = nor_view (chip h1)" "flash_kv_get pf key True (length v) 0 h1 = Some (g, h2)"
    using kv_platform.get_eq [OF assms(1,3), of h1 True "length v" 0] sector_view [OF h1(2)] by (auto simp: g_def)
  have view2: "nor_view (chip h2) = nor_view (chip h)" using h1(2) h2(1) by simp
  have "flash_kv_set pf key (Some v) (length v) h = append_record pf key v (item_len v) h2"
    using assms(3-5,7) h1(1) h2(2)
    by (cases g) (auto simp: flash_kv_set_def g_def kv_get_spec_def split: option.splits if_splits)
  moreover have "\<exists>h3. append_record pf key v (item_len v) h2 = Some (Inl EIO, h3) \<and> nor_mem (chip h3) = nor_mem (chip h2)"
    using assms sector_view [OF view2] nor_viewD [OF view2]
    by (intro kv_platform.append_locked) (simp_all add: nor_unlocked_def)
  ultimately show ?thesis using nor_viewD(1) [OF view2] by simp
qed

theorem flash_kv_set_protected_witness:
  "\<exists>h'. flash_kv_set chip_platform 1 (Some [7]) (length [7 :: u8]) (header_chip\<lparr>nor_sr := 0x7C\<rparr>) = Some (Inl EIO, h')
     \<and> nor_mem h' = nor_mem header_chip"
proof -
  have sec: "sector (header_chip\<lparr>nor_sr := 0x7C\<rparr>) = sector header_chip" by (simp add: sector_def)
  have "record_size (item_len [7 :: u8]) = 12" by (simp add: record_size_def align4_def)
  then show ?thesis
    using flash_kv_set_protected [OF chip_kv.kv_platform_axioms, of "header_chip\<lparr>nor_sr := 0x7C\<rparr>" 1 "[7]"]
    by (simp add: sec header_chip_state)
qed

text \<open>Strings come back terminated: after a \<open>flash_kv_set_string\<close> that returned 0, \<open>flash_kv_get_string\<close>
  into a buffer of \<open>blen\<close> bytes with room for the terminator stores the string and a zero byte and leaves the rest
  of the buffer alone.\<close>

theorem flash_kv_string_roundtrip:
  assumes "kv_platform pf chip sz" "nor_unlocked (chip h)" "nor_wf (chip h) = []" "str \<noteq> []"
    and "flash_kv_set_string pf key str h = Some (Inr (), h1)" "length str < blen" "blen \<le> length dst"
  shows "map_option fst (flash_kv_get_string pf key dst blen h1)
       = Some (Inr (length str), str @ [0] @ drop (length str + 1) dst)"
proof -
  have ok: "key \<noteq> FLASH_KV_KEY_NONE" "length str \<le> 256"
    using assms(4,5) by (auto simp: flash_kv_set_string_def flash_kv_set_def split: if_splits)
  have "kv_changed (chip h) (chip h1) key str"
    using kv_platform.set_eq [OF assms(1-3) ok(1) assms(4) ok(2)] assms(5)
    by (auto simp: flash_kv_set_string_def split: if_splits)
  then have "kv_abs (sector (chip h1)) key = Some str" using assms(4) by (simp add: kv_changed_def)
  then obtain h2 where "flash_kv_get pf key True (blen - 1) 0 h1 = Some ((Inr (length str), Some str), h2)"
    using kv_platform.get_eq [OF assms(1) ok(1), of h1 True "blen - 1" 0] assms(6) by (auto simp: kv_get_spec_def)
  then show ?thesis
    using assms(4,6,7) by (simp add: flash_kv_get_string_def buf_write_def)
qed

theorem flash_kv_string_roundtrip_witness:
  "\<exists>h1. flash_kv_set_string chip_platform 2 [65, 66] blank_chip = Some (Inr (), h1)
     \<and> map_option fst (flash_kv_get_string chip_platform 2 [9, 9, 9, 9] 4 h1) = Some (Inr 2, [65, 66, 0, 9])"
proof -
  obtain h1 where h1: "flash_kv_set_string chip_platform 2 [65, 66] blank_chip = Some (Inr (), h1)"
    using chip_kv.set_eq [OF blank_ready, of 2 "[65, 66]"] by (auto simp: blank_fits flash_kv_set_string_def)
  then show ?thesis
    using flash_kv_string_roundtrip [OF chip_kv.kv_platform_axioms blank_ready _ h1, of 4 "[9, 9, 9, 9]"]
    by (simp add: numeral_2_eq_2)
qed

end
