(* ===== verification/Tlv.thy ===== *)
theory Tlv
  imports Prelude
begin

text \<open>
  The TLV reader of \<open>src/src/platform/misc/tlv/tlv.c\<close>, which walks the calibration blob, and the schema of
  \<open>manual_cal.c\<close> that names its containers. The \<open>read\<close> callback is a parameter. The walk uses fuel, one
  unit per entry on a path, because it need not end: an entry whose length makes \<open>payload_offset + len\<close> wrap
  around 32 bits sends it back. It is shown to return the entries of every well-formed blob, to return at all
  and to stay inside its range when no such length occurs, and to run forever on a blob that has one.
\<close>

section \<open>Header and walk\<close>

datatype tlv_rc = TLV_OK | TLV_ERR_NO_MAGIC | TLV_ERR_TOO_LARGE | TLV_ERR_READ

record tlv_entry =
  te_type           :: u32
  te_len            :: u32
  te_payload_offset :: u32
  te_depth          :: u32

abbreviation TLV_MAGIC :: u32 where "TLV_MAGIC \<equiv> 0x00564c54"

type_synonym tlv_read = "u32 \<Rightarrow> nat \<Rightarrow> bytes option"

definition tlv_read_header :: "tlv_read \<Rightarrow> u32 \<Rightarrow> u32 \<Rightarrow> tlv_rc \<times> u32 option" where
  "tlv_read_header read start bound =
     (case read start 8 of
        None \<Rightarrow> (TLV_ERR_READ, None)
      | Some header \<Rightarrow>
          if le32 header \<noteq> TLV_MAGIC then (TLV_ERR_NO_MAGIC, None)
          else let total_len = le32 (drop 4 header) in
            if total_len > bound then (TLV_ERR_TOO_LARGE, None) else (TLV_OK, Some total_len))"

text \<open>The result lists the entries in the order \<open>visit\<close> is called with them.\<close>

fun walk_range :: "nat \<Rightarrow> tlv_read \<Rightarrow> (u32 \<Rightarrow> bool) \<Rightarrow> u32 \<Rightarrow> u32 \<Rightarrow> u32 \<Rightarrow> (tlv_rc \<times> tlv_entry list) option" where
  "walk_range 0 read is_container addr end_addr depth = None"
| "walk_range (Suc fuel) read is_container addr end_addr depth =
     (if \<not> addr < end_addr then Some (TLV_OK, [])
      else case read addr 8 of
          None \<Rightarrow> Some (TLV_ERR_READ, [])
        | Some header \<Rightarrow>
            let entry = \<lparr>te_type = le32 header, te_len = le32 (drop 4 header),
                         te_payload_offset = addr + 8, te_depth = depth\<rparr>
            in
            if te_payload_offset entry + te_len entry > end_addr then Some (TLV_ERR_TOO_LARGE, [])
            else
              case (if is_container (te_type entry)
                    then walk_range fuel read is_container (te_payload_offset entry)
                           (te_payload_offset entry + te_len entry) (depth + 1)
                    else Some (TLV_OK, [])) of
                None \<Rightarrow> None
              | Some (rc, inner) \<Rightarrow>
                  if rc \<noteq> TLV_OK then Some (rc, entry # inner)
                  else
                    case walk_range fuel read is_container (te_payload_offset entry + te_len entry) end_addr depth of
                      None \<Rightarrow> None
                    | Some (rc, rest) \<Rightarrow> Some (rc, entry # inner @ rest))"

definition tlv_walk :: "nat \<Rightarrow> tlv_read \<Rightarrow> (u32 \<Rightarrow> bool) \<Rightarrow> u32 \<Rightarrow> u32 \<Rightarrow> (tlv_rc \<times> tlv_entry list) option" where
  "tlv_walk fuel read is_container start len = walk_range fuel read is_container start (start + len) 0"

section \<open>The calibration schema\<close>

definition tlv_manual_cal_is_container :: "u32 \<Rightarrow> bool" where
  "tlv_manual_cal_is_container t \<longleftrightarrow> t = 0x11111100 \<or> t = 0x22222200"

datatype cal_decoder =
    Decode_u32_dec | Decode_u32_hex | Decode_mac | Decode_lpfcap | Decode_enable_flags | Decode_byte_array
  | Decode_cali_status

definition cal_fields :: "(u32 \<times> string \<times> cal_decoder option) list" where
  "cal_fields =
     [(0x11111100, ''TXID'', None),
      (0x11111101, ''TXID_ID'', Some Decode_u32_dec),
      (0x11111102, ''TXID_MAC'', Some Decode_mac),
      (0x11111103, ''TXID_THERMAL'', Some Decode_u32_dec),
      (0x11111104, ''TXID_CHANNEL'', Some Decode_u32_dec),
      (0x11111105, ''TXID_XTAL'', Some Decode_u32_dec),
      (0x11111106, ''TXID_ADC'', Some Decode_u32_hex),
      (0x11111107, ''TXID_LPFCAP'', Some Decode_lpfcap),
      (0x22222200, ''TXPWR_TAB_TAB'', None),
      (0x22222201, ''TXPWR_ENABLE_ID'', Some Decode_enable_flags),
      (0x22222202, ''TXPWR_TAB_B_ID'', Some Decode_byte_array),
      (0x22222203, ''TXPWR_TAB_G_ID'', Some Decode_byte_array),
      (0x22222204, ''TXPWR_TAB_N_ID'', Some Decode_byte_array),
      (0x22222205, ''TXPWR_TAB_DIF_GN20_ID'', Some Decode_u32_dec),
      (0x22222206, ''TXPWR_TAB_DIF_GN40_ID'', Some Decode_u32_dec),
      (0x22222207, ''TXPWR_TAB_BLE_ID'', Some Decode_byte_array),
      (0x22222208, ''TXPWR_TAB_CALI_STATUTS'', Some Decode_cali_status)]"

definition cal_lookup :: "u32 \<Rightarrow> (string \<times> cal_decoder option) option" where
  "cal_lookup t = map_of cal_fields t"

definition tlv_manual_cal_name :: "u32 \<Rightarrow> string option" where
  "tlv_manual_cal_name t = map_option fst (cal_lookup t)"

text \<open>The containers of the schema are its fields without a decoder.\<close>

lemma cal_containers:
  "cal_lookup t = Some (name, None) \<Longrightarrow> tlv_manual_cal_is_container t"
  by (auto simp: cal_lookup_def cal_fields_def tlv_manual_cal_is_container_def split: if_splits)

section \<open>Well-formed blobs\<close>

datatype tlv = TLV_Leaf u32 bytes | TLV_Node u32 "tlv list"

fun tlv_payload :: "tlv \<Rightarrow> bytes" and tlv_encode :: "tlv \<Rightarrow> bytes" where
  "tlv_payload (TLV_Leaf t p) = p"
| "tlv_payload (TLV_Node t ts) = concat (map tlv_encode ts)"
| "tlv_encode (TLV_Leaf t p) = le32_bytes t @ le32_bytes (of_nat (length p)) @ p"
| "tlv_encode (TLV_Node t ts) =
     le32_bytes t @ le32_bytes (of_nat (length (concat (map tlv_encode ts)))) @ concat (map tlv_encode ts)"

fun tlv_type :: "tlv \<Rightarrow> u32" where
  "tlv_type (TLV_Leaf t p) = t"
| "tlv_type (TLV_Node t ts) = t"

text \<open>The entries of a blob at an offset, in the order of the walk.\<close>

fun tlv_entries :: "nat \<Rightarrow> u32 \<Rightarrow> tlv \<Rightarrow> tlv_entry list"
and tlvs_entries :: "nat \<Rightarrow> u32 \<Rightarrow> tlv list \<Rightarrow> tlv_entry list" where
  "tlv_entries off depth (TLV_Leaf t p) =
     [\<lparr>te_type = t, te_len = of_nat (length p), te_payload_offset = of_nat (off + 8), te_depth = depth\<rparr>]"
| "tlv_entries off depth (TLV_Node t ts) =
     \<lparr>te_type = t, te_len = of_nat (length (concat (map tlv_encode ts))), te_payload_offset = of_nat (off + 8),
      te_depth = depth\<rparr> # tlvs_entries (off + 8) (depth + 1) ts"
| "tlvs_entries off depth [] = []"
| "tlvs_entries off depth (t # ts) = tlv_entries off depth t @ tlvs_entries (off + length (tlv_encode t)) depth ts"

fun tlv_wf :: "(u32 \<Rightarrow> bool) \<Rightarrow> tlv \<Rightarrow> bool" where
  "tlv_wf is_container (TLV_Leaf t p) \<longleftrightarrow> \<not> is_container t"
| "tlv_wf is_container (TLV_Node t ts) \<longleftrightarrow> is_container t \<and> list_all (tlv_wf is_container) ts"

text \<open>Reading from a buffer in memory.\<close>

definition buf_read :: "bytes \<Rightarrow> tlv_read" where
  "buf_read buf off n = (if unat off + n \<le> length buf then Some (slice (unat off) n buf) else None)"

lemma tlv_encode_eq: "tlv_encode t = le32_bytes (tlv_type t) @ le32_bytes (of_nat (length (tlv_payload t))) @ tlv_payload t"
  by (cases t) simp_all

lemma length_tlv_encode: "length (tlv_encode t) = 8 + length (tlv_payload t)"
  by (simp add: tlv_encode_eq)

lemma unat_of_nat_32: "n < 2 ^ 32 \<Longrightarrow> unat (of_nat n :: u32) = n"
  by (simp add: unat_of_nat)

text \<open>One entry of the buffer is read back.\<close>

lemma read_entry:
  assumes "buf = pre @ tlv_encode t @ post" "length buf < 2 ^ 32"
  shows "buf_read buf (of_nat (length pre)) 8
       = Some (le32_bytes (tlv_type t) @ le32_bytes (of_nat (length (tlv_payload t))))"
proof -
  have "unat (of_nat (length pre) :: u32) = length pre"
    using assms by (intro unat_of_nat_32) simp
  moreover have "slice (length pre) 8 buf = le32_bytes (tlv_type t) @ le32_bytes (of_nat (length (tlv_payload t)))"
    by (simp add: assms(1) tlv_encode_eq slice_def)
  ultimately show ?thesis using assms(1) by (simp add: buf_read_def length_tlv_encode)
qed

lemma of_nat_less_32: "a < 2 ^ 32 \<Longrightarrow> b < 2 ^ 32 \<Longrightarrow> (of_nat a :: u32) < of_nat b \<longleftrightarrow> a < b"
  by (simp add: word_less_nat_alt unat_of_nat)

lemma walk_entries:
  assumes "list_all (tlv_wf isc) ts" "buf = pre @ concat (map tlv_encode ts) @ post" "length buf < 2 ^ 32"
    and "length (concat (map tlv_encode ts)) < fuel"
  shows "walk_range fuel (buf_read buf) isc (of_nat (length pre))
       (of_nat (length pre + length (concat (map tlv_encode ts)))) depth = Some (TLV_OK, tlvs_entries (length pre) depth ts)"
  using assms
proof (induction fuel arbitrary: pre ts post depth)
  case 0
  then show ?case by simp
next
  case (Suc fuel)
  show ?case
  proof (cases ts)
    case Nil
    then show ?thesis by simp
  next
    case (Cons t ts')
    define total where "total = length (concat (map tlv_encode ts))"
    define rest where "rest = concat (map tlv_encode ts') @ post"
    define len where "len = length (tlv_payload t)"
    have enc: "concat (map tlv_encode ts) = tlv_encode t @ concat (map tlv_encode ts')" by (simp add: Cons)
    have total: "total = 8 + len + length (concat (map tlv_encode ts'))"
      by (simp add: total_def enc length_tlv_encode len_def)
    have buf: "buf = pre @ tlv_encode t @ rest" using Suc.prems(2) by (simp add: enc rest_def)
    have bound: "length pre + total < 2 ^ 32" using Suc.prems(2,3) by (simp add: total_def)
    have lt: "(of_nat (length pre) :: u32) < of_nat (length pre + total)"
      using bound total by (subst of_nat_less_32) simp_all
    have nxt: "(of_nat (length pre) + 8 + of_nat len :: u32) = of_nat (length pre + (8 + len))" by simp
    have fits: "\<not> of_nat (length pre + total) < (of_nat (length pre) + 8 + of_nat len :: u32)"
      unfolding nxt using bound total by (subst of_nat_less_32) simp_all
    let ?in = "if isc (tlv_type t) then walk_range fuel (buf_read buf) isc (of_nat (length pre) + 8)
      (of_nat (length pre) + 8 + of_nat len) (depth + 1) else Some (TLV_OK, [])"
    have inner: "\<exists>es. ?in = Some (TLV_OK, es) \<and> tlv_entries (length pre) depth t
        = \<lparr>te_type = tlv_type t, te_len = of_nat len, te_payload_offset = of_nat (length pre) + 8, te_depth = depth\<rparr> # es"
    proof (cases t)
      case (TLV_Leaf ty p)
      then show ?thesis using Suc.prems(1) by (simp add: Cons len_def)
    next
      case (TLV_Node ty ks)
      have "walk_range fuel (buf_read buf) isc (of_nat (length (pre @ take 8 (tlv_encode t))))
          (of_nat (length (pre @ take 8 (tlv_encode t)) + length (concat (map tlv_encode ks)))) (depth + 1)
          = Some (TLV_OK, tlvs_entries (length (pre @ take 8 (tlv_encode t))) (depth + 1) ks)"
        using Suc.prems(1,3,4) total
        by (intro Suc.IH [of _ _ rest]) (simp_all add: Cons TLV_Node buf len_def flip: total_def)
      then show ?thesis using Suc.prems(1) by (simp add: Cons TLV_Node len_def add.assoc add.commute [of _ 8])
    qed
    have "walk_range fuel (buf_read buf) isc (of_nat (length (pre @ tlv_encode t)))
        (of_nat (length (pre @ tlv_encode t) + length (concat (map tlv_encode ts')))) depth
        = Some (TLV_OK, tlvs_entries (length (pre @ tlv_encode t)) depth ts')"
      using Suc.prems total by (intro Suc.IH [of _ _ post]) (simp_all add: Cons length_tlv_encode flip: total_def)
    then have sib: "walk_range fuel (buf_read buf) isc (of_nat (length pre) + 8 + of_nat len) (of_nat (length pre + total)) depth
        = Some (TLV_OK, tlvs_entries (length pre + length (tlv_encode t)) depth ts')"
      unfolding nxt by (simp add: total length_tlv_encode len_def add.assoc)
    obtain es where es: "?in = Some (TLV_OK, es)" "tlv_entries (length pre) depth t
        = \<lparr>te_type = tlv_type t, te_len = of_nat len, te_payload_offset = of_nat (length pre) + 8, te_depth = depth\<rparr> # es"
      using inner by blast
    show ?thesis
      unfolding total_def [symmetric] walk_range.simps
      using lt fits read_entry [OF buf Suc.prems(3), folded len_def] es sib
      by (cases "isc (tlv_type t)") (simp_all add: Let_def Cons del: of_nat_add)
  qed
qed

section \<open>Termination and bounds\<close>

definition tlv_no_wrap :: "tlv_read \<Rightarrow> bool" where
  "tlv_no_wrap read \<longleftrightarrow> (\<forall>a hdr. read a 8 = Some hdr \<longrightarrow> unat a + 8 + unat (le32 (drop 4 hdr)) < 2 ^ 32)"

definition entry_within :: "u32 \<Rightarrow> u32 \<Rightarrow> tlv_entry \<Rightarrow> bool" where
  "entry_within lo hi e \<longleftrightarrow> unat lo + 8 \<le> unat (te_payload_offset e)
     \<and> unat (te_payload_offset e) + unat (te_len e) \<le> unat hi"

lemma entry_within_mono:
  "entry_within lo hi e \<Longrightarrow> unat lo' \<le> unat lo \<Longrightarrow> unat hi \<le> unat hi' \<Longrightarrow> entry_within lo' hi' e"
  by (simp add: entry_within_def)

lemma unat_add3:
  "unat (a :: u32) + 8 + unat l < 2 ^ 32 \<Longrightarrow> unat (a + 8) = unat a + 8 \<and> unat (a + 8 + l) = unat a + 8 + unat l"
  by (simp add: unat_word_ariths(1))

lemma walk_range_returns:
  assumes "tlv_no_wrap read" "unat end_addr - unat addr < fuel"
  shows "\<exists>rc es. walk_range fuel read isc addr end_addr depth = Some (rc, es) \<and> (\<forall>e \<in> set es. entry_within addr end_addr e)"
  using assms(2)
proof (induction fuel arbitrary: addr end_addr depth)
  case 0
  then show ?case by simp
next
  case (Suc fuel)
  show ?case
  proof (cases "addr < end_addr \<and> read addr 8 \<noteq> None")
    case False
    then show ?thesis by auto
  next
    case True
    then obtain hdr where hdr: "read addr 8 = Some hdr" by blast
    define l where "l = le32 (drop 4 hdr)"
    have sum: "unat (addr + 8) = unat addr + 8" "unat (addr + 8 + l) = unat addr + 8 + unat l"
      using assms(1) hdr unat_add3 [of addr l] by (auto simp: tlv_no_wrap_def l_def)
    show ?thesis
    proof (cases "end_addr < addr + 8 + l")
      case True
      then show ?thesis using \<open>addr < end_addr \<and> read addr 8 \<noteq> None\<close> hdr by (simp add: Let_def flip: l_def)
    next
      case False
      then have le: "unat addr + 8 + unat l \<le> unat end_addr" using sum by (simp add: word_less_nat_alt)
      define e where "e = \<lparr>te_type = le32 hdr, te_len = l, te_payload_offset = addr + 8, te_depth = depth\<rparr>"
      have e: "entry_within addr end_addr e" using sum le by (simp add: e_def entry_within_def)
      obtain rc1 es1 where inner: "(if isc (le32 hdr) then walk_range fuel read isc (addr + 8) (addr + 8 + l) (depth + 1)
          else Some (TLV_OK, [])) = Some (rc1, es1)" "\<forall>e \<in> set es1. entry_within (addr + 8) (addr + 8 + l) e"
      proof (cases "isc (le32 hdr)")
        case True
        have "unat (addr + 8 + l) - unat (addr + 8) < fuel" using Suc.prems le sum by linarith
        then show ?thesis using Suc.IH [of "addr + 8 + l" "addr + 8" "depth + 1"] that True by auto
      qed (use that in simp)
      obtain rc2 es2 where sib: "walk_range fuel read isc (addr + 8 + l) end_addr depth = Some (rc2, es2)"
        "\<forall>e \<in> set es2. entry_within (addr + 8 + l) end_addr e"
      proof -
        have "unat end_addr - unat (addr + 8 + l) < fuel" using Suc.prems le sum by linarith
        then show ?thesis using Suc.IH [of end_addr "addr + 8 + l" depth] that by blast
      qed
      have "walk_range (Suc fuel) read isc addr end_addr depth =
          Some (if rc1 \<noteq> TLV_OK then (rc1, e # es1) else (rc2, e # es1 @ es2))"
        using True False hdr inner(1) sib(1)
        by (cases "isc (le32 hdr)") (auto simp: Let_def e_def simp flip: l_def)
      moreover have "\<forall>x \<in> set (e # es1 @ es2). entry_within addr end_addr x"
        using e inner(2) sib(2) sum le by (auto intro: entry_within_mono)
      ultimately show ?thesis by auto
    qed
  qed
qed

section \<open>Properties\<close>

text \<open>The walk of a well-formed blob returns \<open>TLV_OK\<close> and visits exactly its entries, containers before their
  contents, each with its type, length, payload offset and depth.\<close>

theorem tlv_walk_entries:
  assumes "list_all (tlv_wf is_container) ts" "buf = pre @ concat (map tlv_encode ts) @ post" "length buf < 2 ^ 32"
    and "length (concat (map tlv_encode ts)) < fuel"
  shows "tlv_walk fuel (buf_read buf) is_container (of_nat (length pre)) (of_nat (length (concat (map tlv_encode ts))))
       = Some (TLV_OK, tlvs_entries (length pre) 0 ts)"
  using walk_entries [OF assms, of 0] by (simp add: tlv_walk_def)

theorem tlv_walk_entries_witness:
  "tlv_walk 100 (buf_read (concat (map tlv_encode [TLV_Node 0x11111100 [TLV_Leaf 0x11111101 [1, 2, 3, 4]]])))
     tlv_manual_cal_is_container (of_nat (length ([] :: bytes)))
     (of_nat (length (concat (map tlv_encode [TLV_Node 0x11111100 [TLV_Leaf 0x11111101 [1, 2, 3, 4]]]))))
   = Some (TLV_OK, tlvs_entries (length ([] :: bytes)) 0 [TLV_Node 0x11111100 [TLV_Leaf 0x11111101 [1, 2, 3, 4]]])"
  by (rule tlv_walk_entries [where post = "[]"]) (simp_all add: tlv_manual_cal_is_container_def)

text \<open>Where no entry's length makes its end wrap around 32 bits, the walk returns, within as many entries on a
  path as the range has bytes, and every entry it visits lies inside the range it was given.\<close>

theorem tlv_walk_returns:
  assumes "tlv_no_wrap read" "unat start + unat len < 2 ^ 32" "unat len < fuel"
  shows "\<exists>rc es. tlv_walk fuel read is_container start len = Some (rc, es)
     \<and> (\<forall>e \<in> set es. entry_within start (start + len) e)"
proof -
  have "unat (start + len) = unat start + unat len" using assms(2) by (simp add: unat_word_ariths(1))
  then show ?thesis
    unfolding tlv_walk_def using assms(3) by (intro walk_range_returns [OF assms(1)]) simp
qed

theorem tlv_walk_returns_witness:
  "\<exists>rc es. tlv_walk 20 (\<lambda>a n. if a = 0 then Some [1, 0, 0, 0, 0, 0, 0, 0] else None) tlv_manual_cal_is_container 0 8
       = Some (rc, es) \<and> (\<forall>e \<in> set es. entry_within 0 (0 + 8) e)"
  by (rule tlv_walk_returns) (simp_all add: tlv_no_wrap_def le32_def)

text \<open>(C30) The bounds check of the walk wraps around: on a blob whose first entry has the length 0xFFFFFFF8 the check
  passes and the walk goes back to that entry, so it never returns, however long it runs.\<close>

theorem tlv_walk_hangs:
  "tlv_walk fuel (buf_read (le32_bytes 1 @ le32_bytes 0xFFFFFFF8)) tlv_manual_cal_is_container 0 8 = None"
proof -
  have hdr: "buf_read (le32_bytes 1 @ le32_bytes 0xFFFFFFF8) 0 8 = Some (le32_bytes 1 @ le32_bytes 0xFFFFFFF8)"
    by (simp add: buf_read_def slice_def)
  have wrap: "(4294967296 :: u32) = 0" by simp
  have leaf: "\<not> tlv_manual_cal_is_container 1" by (simp add: tlv_manual_cal_is_container_def)
  have "walk_range fuel (buf_read (le32_bytes 1 @ le32_bytes 0xFFFFFFF8)) tlv_manual_cal_is_container 0 8 0 = None"
    by (induction fuel) (simp_all add: hdr leaf wrap Let_def)
  then show ?thesis by (simp add: tlv_walk_def)
qed

end
