(* ===== verification/Dhcp_Leases.thy ===== *)
theory Dhcp_Leases
  imports Prelude
begin

text \<open>
  The lease table of \<open>src/src/platform/misc/dhcp_server/dhcp_leases.c\<close>: which client holds which of the four
  addresses of the pool. \<open>lease_table\<close> is the contract the DHCP server relies on; the table is shown to keep it, with
  the invariant that no two slots in use have the same hardware address.
\<close>

section \<open>The table\<close>

abbreviation DHCP_POOL_SIZE :: nat where "DHCP_POOL_SIZE \<equiv> 4"

record dhcp_lease =
  le_used :: bool
  le_mac  :: bytes
  le_seen :: u32

record dhcp_leases =
  dl_slot  :: "dhcp_lease list"
  dl_clock :: u32

definition dhcp_leases_clear :: dhcp_leases where
  "dhcp_leases_clear =
     \<lparr>dl_slot = replicate DHCP_POOL_SIZE \<lparr>le_used = False, le_mac = replicate 6 0, le_seen = 0\<rparr>, dl_clock = 0\<rparr>"

definition assign :: "dhcp_leases \<Rightarrow> nat \<Rightarrow> bytes \<Rightarrow> dhcp_leases" where
  "assign t i mac =
     t\<lparr>dl_slot := (dl_slot t)[i := \<lparr>le_used = True, le_mac = mac, le_seen = dl_clock t + 1\<rparr>],
       dl_clock := dl_clock t + 1\<rparr>"

text \<open>The loop of \<open>dhcp_leases_find\<close> from slot \<open>i\<close> on; \<open>None\<close> is -1.\<close>

fun find_from :: "nat \<Rightarrow> dhcp_lease list \<Rightarrow> bytes \<Rightarrow> nat option" where
  "find_from i [] mac = None"
| "find_from i (l # ls) mac = (if \<not> le_used l \<or> le_mac l \<noteq> mac then find_from (i + 1) ls mac else Some i)"

definition dhcp_leases_find :: "dhcp_leases \<Rightarrow> bytes \<Rightarrow> nat option \<times> dhcp_leases" where
  "dhcp_leases_find t mac =
     (case find_from 0 (dl_slot t) mac of
        None \<Rightarrow> (None, t)
      | Some i \<Rightarrow>
          (Some i, t\<lparr>dl_slot := (dl_slot t)[i := (dl_slot t ! i)\<lparr>le_seen := dl_clock t + 1\<rparr>],
                     dl_clock := dl_clock t + 1\<rparr>))"

text \<open>The loop of \<open>dhcp_leases_take\<close>: the first free slot, else the one seen longest ago.\<close>

fun take_from :: "dhcp_lease list \<Rightarrow> nat \<Rightarrow> nat \<Rightarrow> dhcp_lease list \<Rightarrow> nat" where
  "take_from slots oldest i [] = oldest"
| "take_from slots oldest i (l # ls) =
     (if \<not> le_used l then i
      else take_from slots (if le_seen l < le_seen (slots ! oldest) then i else oldest) (i + 1) ls)"

definition dhcp_leases_take :: "dhcp_leases \<Rightarrow> bytes \<Rightarrow> nat \<times> dhcp_leases" where
  "dhcp_leases_take t mac =
     (case dhcp_leases_find t mac of
        (Some i, t) \<Rightarrow> (i, t)
      | (None, t) \<Rightarrow> let i = take_from (dl_slot t) 0 0 (dl_slot t) in (i, assign t i mac))"

text \<open>A slot number is an \<open>int\<close> in the code; the out-of-range ones, -1 included, are refused.\<close>

definition dhcp_leases_claim :: "dhcp_leases \<Rightarrow> int \<Rightarrow> bytes \<Rightarrow> bool \<times> dhcp_leases" where
  "dhcp_leases_claim t slot mac =
     (if slot < 0 \<or> slot \<ge> int DHCP_POOL_SIZE \<or> le_used (dl_slot t ! nat slot) then (False, t)
      else (True, assign t (nat slot) mac))"

definition dhcp_leases_release :: "dhcp_leases \<Rightarrow> int \<Rightarrow> dhcp_leases" where
  "dhcp_leases_release t slot =
     (if slot < 0 \<or> slot \<ge> int DHCP_POOL_SIZE then t
      else t\<lparr>dl_slot := (dl_slot t)[nat slot := (dl_slot t ! nat slot)\<lparr>le_used := False\<rparr>]\<rparr>)"

section \<open>The contract\<close>

locale lease_table =
  fixes ok :: "'t \<Rightarrow> bool"
    and holder :: "'t \<Rightarrow> nat \<Rightarrow> 'm option"
    and find :: "'t \<Rightarrow> 'm \<Rightarrow> nat option \<times> 't"
    and take :: "'t \<Rightarrow> 'm \<Rightarrow> nat \<times> 't"
    and claim :: "'t \<Rightarrow> int \<Rightarrow> 'm \<Rightarrow> bool \<times> 't"
    and release :: "'t \<Rightarrow> int \<Rightarrow> 't"
    and pool :: nat
  assumes holder_pool: "ok t \<Longrightarrow> holder t i = Some m \<Longrightarrow> i < pool"
    and holder_unique: "ok t \<Longrightarrow> holder t i = Some m \<Longrightarrow> holder t j = Some m \<Longrightarrow> i = j"
    and find_ok: "ok t \<Longrightarrow> ok (snd (find t m)) \<and> holder (snd (find t m)) = holder t"
    and find_iff: "ok t \<Longrightarrow> fst (find t m) = Some i \<longleftrightarrow> holder t i = Some m"
    and take_ok: "ok t \<Longrightarrow> ok (snd (take t m)) \<and> holder (snd (take t m)) = (holder t)(fst (take t m) \<mapsto> m)"
    and take_own: "ok t \<Longrightarrow> holder t i = Some m \<Longrightarrow> fst (take t m) = i"
    and take_free: "ok t \<Longrightarrow> \<forall>i. holder t i \<noteq> Some m \<Longrightarrow> i < pool \<Longrightarrow> holder t i = None \<Longrightarrow>
      holder t (fst (take t m)) = None"
    and claim_ok: "ok t \<Longrightarrow> \<forall>j. holder t j \<noteq> Some m \<Longrightarrow> ok (snd (claim t s m))"
    and claim_iff: "ok t \<Longrightarrow> fst (claim t s m) \<longleftrightarrow> 0 \<le> s \<and> s < int pool \<and> holder t (nat s) = None"
    and claim_holder: "ok t \<Longrightarrow> holder (snd (claim t s m)) =
      (if 0 \<le> s \<and> s < int pool \<and> holder t (nat s) = None then (holder t)(nat s \<mapsto> m) else holder t)"
    and release_ok: "ok t \<Longrightarrow> ok (release t s)"
    and release_holder: "ok t \<Longrightarrow> holder (release t s) =
      (if 0 \<le> s \<and> s < int pool then (holder t)(nat s := None) else holder t)"
begin

lemma take_pool: "ok t \<Longrightarrow> fst (take t m) < pool"
  by (metis fun_upd_same holder_pool take_ok)

lemma take_only:
  "ok t \<Longrightarrow> holder (snd (take t m)) i = Some m \<longleftrightarrow> i = fst (take t m)"
  by (metis fun_upd_same holder_unique take_ok)

lemma find_take:
  "ok t \<Longrightarrow> fst (find (snd (take t m)) m) = Some (fst (take t m))"
  by (metis fun_upd_same find_iff take_ok)

end

section \<open>The table keeps the contract\<close>

definition leases_holder :: "dhcp_leases \<Rightarrow> nat \<Rightarrow> bytes option" where
  "leases_holder t i =
     (if i < length (dl_slot t) \<and> le_used (dl_slot t ! i) then Some (le_mac (dl_slot t ! i)) else None)"

definition leases_ok :: "dhcp_leases \<Rightarrow> bool" where
  "leases_ok t \<longleftrightarrow> length (dl_slot t) = DHCP_POOL_SIZE
     \<and> (\<forall>i < DHCP_POOL_SIZE. \<forall>j < DHCP_POOL_SIZE. le_used (dl_slot t ! i) \<longrightarrow> le_used (dl_slot t ! j) \<longrightarrow>
          le_mac (dl_slot t ! i) = le_mac (dl_slot t ! j) \<longrightarrow> i = j)"

lemma leases_ok_holder:
  "leases_ok t \<longleftrightarrow> length (dl_slot t) = DHCP_POOL_SIZE
     \<and> (\<forall>i j m. leases_holder t i = Some m \<longrightarrow> leases_holder t j = Some m \<longrightarrow> i = j)"
  by (auto simp: leases_ok_def leases_holder_def split: if_splits)

lemma find_from_Some:
  "find_from i ls mac = Some j \<Longrightarrow> i \<le> j \<and> j < i + length ls \<and> le_used (ls ! (j - i)) \<and> le_mac (ls ! (j - i)) = mac"
proof (induction i ls mac rule: find_from.induct)
  case (2 i l ls mac)
  then show ?case by (auto simp: nth_Cons' split: if_splits)
qed simp

lemma find_from_None:
  "find_from i ls mac = None \<Longrightarrow> k < length ls \<Longrightarrow> le_used (ls ! k) \<Longrightarrow> le_mac (ls ! k) \<noteq> mac"
proof (induction i ls mac arbitrary: k rule: find_from.induct)
  case (2 i l ls mac)
  then show ?case by (cases k) (auto split: if_splits)
qed simp

lemma find_from_iff:
  assumes "leases_ok t"
  shows "find_from 0 (dl_slot t) mac = Some i \<longleftrightarrow> leases_holder t i = Some mac"
proof
  assume "find_from 0 (dl_slot t) mac = Some i"
  then show "leases_holder t i = Some mac" using find_from_Some [of 0 "dl_slot t" mac i] by (simp add: leases_holder_def)
next
  assume h: "leases_holder t i = Some mac"
  show "find_from 0 (dl_slot t) mac = Some i"
  proof (cases "find_from 0 (dl_slot t) mac")
    case None
    then show ?thesis using h find_from_None [of 0 "dl_slot t" mac i] by (auto simp: leases_holder_def split: if_splits)
  next
    case (Some j)
    then have "leases_holder t j = Some mac"
      using find_from_Some [of 0 "dl_slot t" mac j] by (simp add: leases_holder_def)
    then show ?thesis using Some h assms by (auto simp: leases_ok_holder)
  qed
qed

lemma holder_assign:
  "i < length (dl_slot t) \<Longrightarrow> leases_holder (assign t i mac) = (leases_holder t)(i \<mapsto> mac)"
  by (auto simp: leases_holder_def assign_def nth_list_update)

lemma holder_find: "leases_holder (snd (dhcp_leases_find t mac)) = leases_holder t"
proof (rule ext)
  fix j
  show "leases_holder (snd (dhcp_leases_find t mac)) j = leases_holder t j"
    by (cases "find_from 0 (dl_slot t) mac")
      (auto simp: leases_holder_def dhcp_leases_find_def nth_list_update dest!: find_from_Some split: if_splits)
qed

lemma length_slots:
  "length (dl_slot (assign t i mac)) = length (dl_slot t)"
  "length (dl_slot (snd (dhcp_leases_find t mac))) = length (dl_slot t)"
  by (auto simp: assign_def dhcp_leases_find_def split: option.splits)

text \<open>The choice of \<open>dhcp_leases_take\<close>: a free slot if there is one, otherwise a slot seen no later than any other.\<close>

lemma take_from_range:
  "oldest < n \<Longrightarrow> i + length ls \<le> n \<Longrightarrow> take_from slots oldest i ls < n"
proof (induction slots oldest i ls rule: take_from.induct)
  case (2 slots oldest i l ls)
  then show ?case by simp
qed simp

lemma take_from_free:
  "k < length ls \<Longrightarrow> \<not> le_used (ls ! k) \<Longrightarrow>
   \<exists>j. take_from slots oldest i ls = i + j \<and> j < length ls \<and> \<not> le_used (ls ! j) \<and> (\<forall>j' < j. le_used (ls ! j'))"
proof (induction slots oldest i ls arbitrary: k rule: take_from.induct)
  case (2 slots oldest i l ls)
  show ?case
  proof (cases "le_used l")
    case True
    then obtain k' where "k = Suc k'" "k' < length ls" "\<not> le_used (ls ! k')" using 2(2,3) by (cases k) auto
    then obtain j where "take_from slots (if le_seen l < le_seen (slots ! oldest) then i else oldest) (i + 1) ls = i + 1 + j"
      "j < length ls" "\<not> le_used (ls ! j)" "\<forall>j' < j. le_used (ls ! j')"
      using 2(1) [of k'] True by blast
    then show ?thesis using True by (intro exI [of _ "Suc j"]) (auto simp: less_Suc_eq_0_disj)
  qed (auto intro: exI [of _ 0])
qed simp

lemma take_from_oldest:
  assumes "\<forall>l \<in> set ls. le_used l" "\<And>k. k < length ls \<Longrightarrow> ls ! k = slots ! (i + k)"
    and "\<And>k. k < i \<Longrightarrow> le_seen (slots ! oldest) \<le> le_seen (slots ! k)"
    and "k < i + length ls"
  shows "le_seen (slots ! take_from slots oldest i ls) \<le> le_seen (slots ! k)"
  using assms
proof (induction slots oldest i ls rule: take_from.induct)
  case (2 slots oldest i l ls)
  let ?o = "if le_seen l < le_seen (slots ! oldest) then i else oldest"
  have l: "l = slots ! i" using 2(3) [of 0] by simp
  have "le_seen (slots ! ?o) \<le> le_seen (slots ! k')" if "k' < i + 1" for k'
  proof (cases "k' = i")
    case False
    then show ?thesis using 2(4) [of k'] that l by auto
  qed (use l in auto)
  moreover have "ls ! k' = slots ! (i + 1 + k')" if "k' < length ls" for k'
    using 2(3) [of "Suc k'"] that by simp
  ultimately show ?case using 2(1) 2(2) 2(5) by simp
qed simp

lemma take_assigns:
  assumes "leases_ok t"
  shows "leases_ok (snd (dhcp_leases_take t m))
     \<and> leases_holder (snd (dhcp_leases_take t m)) = (leases_holder t)(fst (dhcp_leases_take t m) \<mapsto> m)"
proof (cases "find_from 0 (dl_slot t) m")
  case None
  define i where "i = take_from (dl_slot t) 0 0 (dl_slot t)"
  have i: "i < length (dl_slot t)"
    using assms take_from_range [of 0 DHCP_POOL_SIZE 0 "dl_slot t" "dl_slot t"] by (simp add: leases_ok_def i_def)
  have "\<forall>j. leases_holder t j \<noteq> Some m" using None find_from_iff [OF assms, of m] by fastforce
  then have "leases_ok (assign t i m)" using assms i by (auto simp: leases_ok_holder holder_assign length_slots)
  then show ?thesis
    using None i by (simp add: dhcp_leases_take_def dhcp_leases_find_def holder_assign flip: i_def)
next
  case (Some i)
  then have h: "leases_holder t i = Some m" using find_from_iff [OF assms] by simp
  have "dhcp_leases_take t m = (i, snd (dhcp_leases_find t m))"
    using Some by (simp add: dhcp_leases_take_def dhcp_leases_find_def)
  then show ?thesis
    using h assms by (auto simp: leases_ok_holder holder_find length_slots)
qed

interpretation leases: lease_table leases_ok leases_holder dhcp_leases_find dhcp_leases_take dhcp_leases_claim
  dhcp_leases_release DHCP_POOL_SIZE
proof (unfold_locales, goal_cases)
  case (1 t i m)
  then show ?case by (auto simp: leases_ok_def leases_holder_def split: if_splits)
next
  case (2 t i m j)
  then show ?case by (auto simp: leases_ok_holder)
next
  case (3 t m)
  then show ?case by (auto simp: leases_ok_holder holder_find length_slots)
next
  case (4 t m i)
  have "fst (dhcp_leases_find t m) = find_from 0 (dl_slot t) m"
    by (simp add: dhcp_leases_find_def split: option.splits)
  then show ?case using find_from_iff [OF 4] by simp
next
  case (5 t m)
  then show ?case by (rule take_assigns)
next
  case (6 t i m)
  then have "find_from 0 (dl_slot t) m = Some i" using find_from_iff by simp
  then show ?case by (simp add: dhcp_leases_take_def dhcp_leases_find_def)
next
  case (7 t m i)
  then have n: "find_from 0 (dl_slot t) m = None" using find_from_iff [OF 7(1)] by (metis option.exhaust)
  obtain j where "take_from (dl_slot t) 0 0 (dl_slot t) = j" "j < length (dl_slot t)" "\<not> le_used (dl_slot t ! j)"
    using take_from_free [of i "dl_slot t" "dl_slot t" 0 0] 7 by (auto simp: leases_ok_def leases_holder_def split: if_splits)
  then show ?case using n by (simp add: dhcp_leases_take_def dhcp_leases_find_def leases_holder_def)
next
  case (8 t m s)
  then show ?case
    by (auto simp: dhcp_leases_claim_def leases_ok_holder holder_assign length_slots split: if_splits)
next
  case (9 t s m)
  then show ?case
    by (auto simp: dhcp_leases_claim_def leases_ok_def leases_holder_def nat_less_iff)
next
  case (10 t s m)
  then show ?case
    by (auto simp: dhcp_leases_claim_def leases_ok_def holder_assign nat_less_iff)
      (auto simp: leases_holder_def nat_less_iff)
next
  case (11 t s)
  then show ?case
    by (auto simp: dhcp_leases_release_def leases_ok_def nth_list_update split: if_splits)
next
  case (12 t s)
  then show ?case
    by (auto simp: dhcp_leases_release_def leases_ok_def leases_holder_def nth_list_update nat_less_iff)
qed

lemma leases_clear_ok: "leases_ok dhcp_leases_clear" "leases_holder dhcp_leases_clear i = None"
  by (auto simp: leases_ok_def leases_holder_def dhcp_leases_clear_def)

section \<open>Properties\<close>

text \<open>\<open>dhcp_leases_take\<close> never fails and picks as documented: the slot the client already holds; else the
  first free slot; else the slot whose client asked longest ago. It makes the client the only holder of that
  slot, and the only slot the client holds, and leaves the others alone.\<close>

theorem dhcp_leases_take_choice:
  assumes "leases_ok t" "dhcp_leases_take t mac = (i, t')"
  shows "i < DHCP_POOL_SIZE \<and> leases_ok t' \<and> leases_holder t' = (leases_holder t)(i \<mapsto> mac)
     \<and> (leases_holder t i = Some mac
        \<or> leases_holder t i = None \<and> (\<forall>j < i. leases_holder t j \<noteq> None)
        \<or> (\<forall>j < DHCP_POOL_SIZE. leases_holder t j \<noteq> None \<and> le_seen (dl_slot t ! i) \<le> le_seen (dl_slot t ! j)))"
proof -
  have len: "length (dl_slot t) = DHCP_POOL_SIZE" using assms(1) by (simp add: leases_ok_def)
  have i: "i < DHCP_POOL_SIZE" "leases_ok t'" "leases_holder t' = (leases_holder t)(i \<mapsto> mac)"
    using leases.take_pool [OF assms(1), of mac] take_assigns [OF assms(1), of mac] assms(2) by simp_all
  moreover have "leases_holder t i = Some mac
        \<or> leases_holder t i = None \<and> (\<forall>j < i. leases_holder t j \<noteq> None)
        \<or> (\<forall>j < DHCP_POOL_SIZE. leases_holder t j \<noteq> None \<and> le_seen (dl_slot t ! i) \<le> le_seen (dl_slot t ! j))"
  proof (cases "find_from 0 (dl_slot t) mac")
    case (Some k)
    then have k: "leases_holder t k = Some mac" using find_from_iff [OF assms(1)] by simp
    then have "i = k" using leases.take_own [OF assms(1) k] assms(2) by simp
    then show ?thesis using k by simp
  next
    case None
    then have pick: "i = take_from (dl_slot t) 0 0 (dl_slot t)"
      using assms(2) by (simp add: dhcp_leases_take_def dhcp_leases_find_def Let_def)
    show ?thesis
    proof (cases "\<exists>k < DHCP_POOL_SIZE. \<not> le_used (dl_slot t ! k)")
      case True
      then obtain k where "k < length (dl_slot t)" "\<not> le_used (dl_slot t ! k)" using len by auto
      then have "i < length (dl_slot t) \<and> \<not> le_used (dl_slot t ! i) \<and> (\<forall>j < i. le_used (dl_slot t ! j))"
        using take_from_free [of k "dl_slot t" "dl_slot t" 0 0] pick by auto
      then have "leases_holder t i = None \<and> (\<forall>j < i. leases_holder t j \<noteq> None)"
        by (simp add: leases_holder_def)
      then show ?thesis by blast
    next
      case False
      then have "\<forall>l \<in> set (dl_slot t). le_used l" using len by (auto simp: in_set_conv_nth)
      then have "le_seen (dl_slot t ! i) \<le> le_seen (dl_slot t ! j)" if "j < DHCP_POOL_SIZE" for j
        using take_from_oldest [of "dl_slot t" "dl_slot t" 0 0 j] that len by (simp add: pick)
      moreover have "leases_holder t j \<noteq> None" if "j < DHCP_POOL_SIZE" for j
        using False len that by (simp add: leases_holder_def)
      ultimately show ?thesis by blast
    qed
  qed
  ultimately show ?thesis by blast
qed

theorem dhcp_leases_take_choice_witness:
  "\<exists>t'. dhcp_leases_take dhcp_leases_clear [1, 2, 3, 4, 5, 6] = (0, t') \<and> leases_holder t' 0 = Some [1, 2, 3, 4, 5, 6]"
proof -
  have "dhcp_leases_take dhcp_leases_clear [1, 2, 3, 4, 5, 6]
      = (0, assign dhcp_leases_clear 0 [1, 2, 3, 4, 5, 6])"
    by (simp add: dhcp_leases_take_def dhcp_leases_find_def dhcp_leases_clear_def numeral_eq_Suc)
  from dhcp_leases_take_choice [OF leases_clear_ok(1) this] this show ?thesis by auto
qed

end
