(* ===== verification/Dhcp_Server.thy ===== *)
theory Dhcp_Server
  imports Dhcp_Leases
begin

text \<open>
  The DHCP server of \<open>src/src/platform/misc/dhcp_server/dhcp_server.c\<close>: the option parser, the reply builder and
  the message handler over the lease table, and the start/stop protocol of its task. The interface's address
  and netmask are data of the state; a packet sent is appended to \<open>ds_sent\<close>. Every load from the request goes
  through \<open>fetch\<close>, which yields \<open>None\<close> outside the message, so that reading beyond it is a value of the
  model. lwIP's sockets and FreeRTOS are outside the model but for the outcomes of their calls.
\<close>

section \<open>State and messages\<close>

abbreviation BOOTP_FIXED_LEN :: nat where "BOOTP_FIXED_LEN \<equiv> 236"
abbreviation OPTIONS_OFFSET :: nat where "OPTIONS_OFFSET \<equiv> 240"
abbreviation REPLY_LEN :: nat where "REPLY_LEN \<equiv> 300"
abbreviation LEASE_SECONDS :: u32 where "LEASE_SECONDS \<equiv> 3600"

abbreviation MSG_DISCOVER :: u8 where "MSG_DISCOVER \<equiv> 1"
abbreviation MSG_OFFER :: u8 where "MSG_OFFER \<equiv> 2"
abbreviation MSG_REQUEST :: u8 where "MSG_REQUEST \<equiv> 3"
abbreviation MSG_ACK :: u8 where "MSG_ACK \<equiv> 5"
abbreviation MSG_NAK :: u8 where "MSG_NAK \<equiv> 6"
abbreviation MSG_RELEASE :: u8 where "MSG_RELEASE \<equiv> 7"

record dhcp_server_state =
  ds_server_addr :: u32
  ds_netmask     :: u32
  ds_leases      :: dhcp_leases
  ds_sent        :: "bytes list"

definition slot_addr :: "dhcp_server_state \<Rightarrow> nat \<Rightarrow> u32" where
  "slot_addr st slot = ds_server_addr st + 1 + of_nat slot"

section \<open>Replies\<close>

text \<open>The message under construction and the offset \<open>o\<close> points to.\<close>

definition put_option :: "u8 \<Rightarrow> bytes \<Rightarrow> bytes \<times> nat \<Rightarrow> bytes \<times> nat" where
  "put_option code data mo =
     (case mo of (m, o') \<Rightarrow> (buf_write o' ([code, of_nat (length data)] @ data) m, o' + 2 + length data))"

definition put_option32 :: "u8 \<Rightarrow> u32 \<Rightarrow> bytes \<times> nat \<Rightarrow> bytes \<times> nat" where
  "put_option32 code v mo = put_option code (be32_bytes v) mo"

definition reply_bytes :: "dhcp_server_state \<Rightarrow> bytes \<Rightarrow> u8 \<Rightarrow> u32 \<Rightarrow> bytes" where
  "reply_bytes st req mtype yiaddr =
     (let server = ds_server_addr st;
          m = replicate REPLY_LEN 0;
          m = buf_write 0 [2, 1, 6] m;
          m = buf_write 4 (slice 4 4 req) m;
          m = buf_write 10 (slice 10 2 req) m;
          m = buf_write 16 (be32_bytes yiaddr) m;
          m = buf_write 20 (be32_bytes server) m;
          m = buf_write 28 (slice 28 16 req) m;
          m = buf_write BOOTP_FIXED_LEN [0x63, 0x82, 0x53, 0x63] m;
          mo = put_option 53 [mtype] (m, OPTIONS_OFFSET);
          mo = put_option32 54 server mo;
          mo = (if mtype \<noteq> MSG_NAK then
                  put_option32 6 server (put_option32 3 server (put_option32 1 (ds_netmask st)
                    (put_option32 51 LEASE_SECONDS mo)))
                else mo);
          (m, o') = mo
      in take (o' + 1) (buf_write o' [255] m))"

definition reply :: "dhcp_server_state \<Rightarrow> bytes \<Rightarrow> u8 \<Rightarrow> u32 \<Rightarrow> dhcp_server_state" where
  "reply st req mtype yiaddr = st\<lparr>ds_sent := ds_sent st @ [reply_bytes st req mtype yiaddr]\<rparr>"

section \<open>Requests\<close>

definition fetch :: "bytes \<Rightarrow> nat \<Rightarrow> nat \<Rightarrow> u8 option" where
  "fetch req len i = (if i < len \<and> i < length req then Some (req ! i) else None)"

definition fetch32 :: "bytes \<Rightarrow> nat \<Rightarrow> nat \<Rightarrow> u32 option" where
  "fetch32 req len i = (if i + 4 \<le> len \<and> i + 4 \<le> length req then Some (be32 (slice i 4 req)) else None)"

text \<open>The loop over the options. \<open>None\<close>: a load outside the message; \<open>Some None\<close>: a malformed option list, so the
  message is ignored; otherwise the message type and the requested address found. The index is a \<open>uint16_t\<close>; it
  stays at most \<open>len\<close>, so it does not wrap.\<close>

function parse_options :: "bytes \<Rightarrow> nat \<Rightarrow> nat \<Rightarrow> u8 \<Rightarrow> u32 \<Rightarrow> (u8 \<times> u32) option option" where
  "parse_options req len i mtype requested =
     (if \<not> i < len then Some (Some (mtype, requested))
      else case fetch req len i of
          None \<Rightarrow> None
        | Some code \<Rightarrow>
            if code = 255 then Some (Some (mtype, requested))
            else if code = 0 then parse_options req len (i + 1) mtype requested
            else if i + 2 > len then Some None
            else case fetch req len (i + 1) of
                None \<Rightarrow> None
              | Some n \<Rightarrow>
                  if i + 2 + unat n > len then Some None
                  else case (if code = 53 \<and> n = 1 then fetch req len (i + 2) else Some mtype) of
                      None \<Rightarrow> None
                    | Some mtype \<Rightarrow>
                        (case (if code = 50 \<and> n = 4 then fetch32 req len (i + 2) else Some requested) of
                           None \<Rightarrow> None
                         | Some requested \<Rightarrow> parse_options req len (i + 2 + unat n) mtype requested))"
  by auto
termination by (relation "measure (\<lambda>(req, len, i, mtype, requested). len - i)") auto

declare parse_options.simps [simp del]

definition slot_int :: "nat option \<Rightarrow> int" where
  "slot_int s = (case s of None \<Rightarrow> - 1 | Some i \<Rightarrow> int i)"

definition on_discover :: "dhcp_server_state \<Rightarrow> bytes \<Rightarrow> bytes \<Rightarrow> nat option \<Rightarrow> dhcp_server_state" where
  "on_discover st req mac slot =
     (let (i, leases) = (case slot of None \<Rightarrow> dhcp_leases_take (ds_leases st) mac | Some i \<Rightarrow> (i, ds_leases st));
          st = st\<lparr>ds_leases := leases\<rparr>
      in reply st req MSG_OFFER (slot_addr st i))"

definition on_request :: "dhcp_server_state \<Rightarrow> bytes \<Rightarrow> bytes \<Rightarrow> nat option \<Rightarrow> u32 \<Rightarrow> dhcp_server_state" where
  "on_request st req mac slot requested =
     (let requested = (if requested = 0 then be32 (slice 12 4 req) else requested);
          server = ds_server_addr st;
          (slot, st) =
            (if slot = None \<and> requested > server \<and> requested \<le> server + of_nat DHCP_POOL_SIZE then
               let wanted = unat (requested - server - 1);
                   (ok, leases) = dhcp_leases_claim (ds_leases st) (int wanted) mac
               in (if ok then Some wanted else slot, st\<lparr>ds_leases := leases\<rparr>)
             else (slot, st))
      in if (case slot of None \<Rightarrow> False | Some i \<Rightarrow> requested = slot_addr st i)
         then reply st req MSG_ACK requested
         else reply st req MSG_NAK 0)"

text \<open>\<open>None\<close> is a load outside the message. The fixed fields of \<open>req\<close> are inside the message for every message the
  task passes on, which has at least 243 bytes.\<close>

definition on_message :: "dhcp_server_state \<Rightarrow> bytes \<Rightarrow> nat \<Rightarrow> dhcp_server_state option" where
  "on_message st req len =
     (case parse_options req len OPTIONS_OFFSET 0 0 of
        None \<Rightarrow> None
      | Some None \<Rightarrow> Some st
      | Some (Some (mtype, requested)) \<Rightarrow>
          if len < 44 \<or> length req < 44 then None
          else
            let mac = slice 28 6 req;
                (slot, leases) = dhcp_leases_find (ds_leases st) mac;
                st = st\<lparr>ds_leases := leases\<rparr>
            in
            Some (if mtype = MSG_DISCOVER then on_discover st req mac slot
                  else if mtype = MSG_REQUEST then on_request st req mac slot requested
                  else if mtype = MSG_RELEASE then st\<lparr>ds_leases := dhcp_leases_release (ds_leases st) (slot_int slot)\<rparr>
                  else st))"

text \<open>What the task does with one received packet of \<open>length req\<close> bytes (at most 600, the size of the buffer).\<close>

definition dhcp_server_packet :: "dhcp_server_state \<Rightarrow> bytes \<Rightarrow> dhcp_server_state option" where
  "dhcp_server_packet st req =
     (if length req \<ge> OPTIONS_OFFSET + 3 \<and> req ! 0 = 1
         \<and> slice BOOTP_FIXED_LEN 4 req = [0x63, 0x82, 0x53, 0x63]
      then on_message st req (length req) else Some st)"

fun dhcp_server_run :: "dhcp_server_state \<Rightarrow> bytes list \<Rightarrow> dhcp_server_state option" where
  "dhcp_server_run st [] = Some st"
| "dhcp_server_run st (p # ps) =
     (case dhcp_server_packet st p of None \<Rightarrow> None | Some st \<Rightarrow> dhcp_server_run st ps)"

section \<open>No load outside a message\<close>

lemma parse_options_safe: "len \<le> length req \<Longrightarrow> parse_options req len i mtype requested \<noteq> None"
proof (induction req len i mtype requested rule: parse_options.induct)
  case (1 req len i mtype requested)
  have f: "fetch req len j = Some (req ! j)" if "j < len" for j
    using that 1(3) by (simp add: fetch_def)
  have f32: "fetch32 req len j = Some (be32 (slice j 4 req))" if "j + 4 \<le> len" for j
    using that 1(3) by (simp add: fetch32_def)
  show ?case
  proof (cases "i < len \<and> req ! i \<noteq> 255 \<and> req ! i \<noteq> 0 \<and> i + 2 \<le> len \<and> i + 2 + unat (req ! (i + 1)) \<le> len")
    case True
    then have "req ! (i + 1) = 1 \<Longrightarrow> i + 2 < len" "req ! (i + 1) = 4 \<Longrightarrow> i + 2 + 4 \<le> len"
      by auto
    then show ?thesis
      using True 1(2,3) f [of i] f [of "i + 1"] f [of "i + 2"] f32 [of "i + 2"]
      by (subst parse_options.simps) auto
  next
    case False
    then show ?thesis
      using 1(1,3) f [of i] f [of "i + 1"] by (subst parse_options.simps) auto
  qed
qed

section \<open>Options that are encoded are parsed\<close>

type_synonym dhcp_option = "u8 \<times> bytes"

definition enc_option :: "dhcp_option \<Rightarrow> bytes" where
  "enc_option opt = [fst opt, of_nat (length (snd opt))] @ snd opt"

definition enc_options :: "dhcp_option list \<Rightarrow> bytes" where
  "enc_options opts = concat (map enc_option opts)"

definition option_ok :: "dhcp_option \<Rightarrow> bool" where
  "option_ok opt \<longleftrightarrow> fst opt \<noteq> 0 \<and> fst opt \<noteq> 255 \<and> length (snd opt) < 256"

text \<open>What one option does to the message type and the requested address.\<close>

definition apply_option :: "u8 \<times> u32 \<Rightarrow> dhcp_option \<Rightarrow> u8 \<times> u32" where
  "apply_option acc opt =
     (if fst opt = 53 \<and> length (snd opt) = 1 then hd (snd opt) else fst acc,
      if fst opt = 50 \<and> length (snd opt) = 4 then be32 (snd opt) else snd acc)"

lemma unat_of_nat_8: "n < 256 \<Longrightarrow> unat (of_nat n :: u8) = n"
  by (simp add: unat_of_nat)

lemma of_nat_8_eq: "n < 256 \<Longrightarrow> (of_nat n :: u8) = 1 \<longleftrightarrow> n = 1" "n < 256 \<Longrightarrow> (of_nat n :: u8) = 4 \<longleftrightarrow> n = 4"
  by (simp_all add: word_unat_eq_iff unat_of_nat)

lemma parse_option_step:
  assumes "req = pre @ enc_option opt @ post" "option_ok opt"
  shows "parse_options req (length req) (length pre) mtype requested
       = parse_options req (length req) (length pre + length (enc_option opt))
           (fst (apply_option (mtype, requested) opt)) (snd (apply_option (mtype, requested) opt))"
proof -
  obtain code data where opt: "opt = (code, data)" by fastforce
  have ok: "code \<noteq> 0" "code \<noteq> 255" "length data < 256" using assms(2) by (simp_all add: opt option_ok_def)
  let ?i = "length pre" and ?n = "length req"
  have n: "?i + 2 + length data \<le> ?n" using assms(1) by (simp add: opt enc_option_def)
  have at: "fetch req ?n ?i = Some code" "fetch req ?n (?i + 1) = Some (of_nat (length data))"
    by (simp_all add: assms(1) opt enc_option_def fetch_def nth_append)
  have ty: "(if code = 53 \<and> (of_nat (length data) :: u8) = 1 then fetch req ?n (?i + 2) else Some mtype)
      = Some (fst (apply_option (mtype, requested) opt))"
  proof (cases "code = 53 \<and> length data = 1")
    case True
    then have "fetch req ?n (?i + 2) = Some (hd data)"
      by (auto simp: assms(1) opt enc_option_def fetch_def nth_append length_Suc_conv)
    then show ?thesis using True by (simp add: apply_option_def opt)
  qed (use of_nat_8_eq(1) [OF ok(3)] in \<open>auto simp: apply_option_def opt\<close>)
  have rq: "(if code = 50 \<and> (of_nat (length data) :: u8) = 4 then fetch32 req ?n (?i + 2) else Some requested)
      = Some (snd (apply_option (mtype, requested) opt))"
  proof (cases "code = 50 \<and> length data = 4")
    case True
    then have "slice (?i + 2) 4 req = data" by (simp add: assms(1) opt enc_option_def slice_def)
    then show ?thesis using True n by (simp add: apply_option_def opt fetch32_def)
  qed (use of_nat_8_eq(2) [OF ok(3)] in \<open>auto simp: apply_option_def opt\<close>)
  have len: "?i + 2 + unat (of_nat (length data) :: u8) = ?i + length (enc_option opt)"
    using unat_of_nat_8 [OF ok(3)] by (simp add: opt enc_option_def)
  have "?i < ?n" "\<not> ?i + 2 > ?n" "\<not> ?i + 2 + unat (of_nat (length data) :: u8) > ?n"
    using n unat_of_nat_8 [OF ok(3)] by simp_all
  then show ?thesis
    by (subst parse_options.simps) (simp only: at ty rq len ok option.case if_False simp_thms)
qed

lemma parse_enc_options:
  assumes "\<forall>opt \<in> set opts. option_ok opt" "req = pre @ enc_options opts @ 255 # post"
  shows "parse_options req (length req) (length pre) mtype requested
       = Some (Some (foldl apply_option (mtype, requested) opts))"
  using assms
proof (induction opts arbitrary: pre mtype requested)
  case Nil
  then show ?case by (subst parse_options.simps) (simp add: enc_options_def fetch_def)
next
  case (Cons opt opts)
  have req: "req = pre @ enc_option opt @ (enc_options opts @ 255 # post)"
    using Cons.prems(2) by (simp add: enc_options_def)
  have "parse_options req (length req) (length pre) mtype requested
      = parse_options req (length req) (length (pre @ enc_option opt))
          (fst (apply_option (mtype, requested) opt)) (snd (apply_option (mtype, requested) opt))"
    using parse_option_step [OF req] Cons.prems(1) by simp
  also have "\<dots> = Some (Some (foldl apply_option (apply_option (mtype, requested) opt) opts))"
    using Cons.IH [of "pre @ enc_option opt"] Cons.prems(1) req by simp
  finally show ?case by simp
qed

section \<open>The reply\<close>

definition reply_options :: "dhcp_server_state \<Rightarrow> u8 \<Rightarrow> dhcp_option list" where
  "reply_options st mtype = [(53, [mtype]), (54, be32_bytes (ds_server_addr st))]
     @ (if mtype \<noteq> MSG_NAK then
          [(51, be32_bytes LEASE_SECONDS), (1, be32_bytes (ds_netmask st)), (3, be32_bytes (ds_server_addr st)),
           (6, be32_bytes (ds_server_addr st))] else [])"

lemma take_buf_write: "o' + length d \<le> length m \<Longrightarrow> take (o' + length d) (buf_write o' d m) = take o' m @ d"
  by (simp add: buf_write_def)

lemma put_option_prefix:
  assumes "o' + 2 + length data \<le> length m"
  shows "\<exists>m'. put_option code data (m, o') = (m', o' + length (enc_option (code, data)))
     \<and> length m' = length m \<and> take (o' + length (enc_option (code, data))) m' = take o' m @ enc_option (code, data)"
  using assms take_buf_write [of o' "enc_option (code, data)" m] by (simp add: put_option_def enc_option_def)

lemma put_options_prefix:
  assumes "o' + length (enc_options opts) \<le> length m"
  shows "\<exists>m'. foldl (\<lambda>mo (code, data). put_option code data mo) (m, o') opts = (m', o' + length (enc_options opts))
     \<and> length m' = length m \<and> take (o' + length (enc_options opts)) m' = take o' m @ enc_options opts"
  using assms
proof (induction opts arbitrary: m o')
  case Nil
  then show ?case by (simp add: enc_options_def)
next
  case (Cons opt opts)
  obtain code data where opt: "opt = (code, data)" by fastforce
  let ?l = "length (enc_option opt)"
  have enc: "enc_options (opt # opts) = enc_option opt @ enc_options opts" by (simp add: enc_options_def)
  have fit: "o' + 2 + length data \<le> length m" using Cons.prems unfolding enc by (simp add: opt enc_option_def)
  obtain m1 where m1: "put_option code data (m, o') = (m1, o' + ?l)" "length m1 = length m"
    "take (o' + ?l) m1 = take o' m @ enc_option opt"
    using put_option_prefix [OF fit, of code] by (auto simp: opt)
  obtain m2 where "foldl (\<lambda>mo (code, data). put_option code data mo) (m1, o' + ?l) opts = (m2, o' + ?l + length (enc_options opts))"
    "length m2 = length m1" "take (o' + ?l + length (enc_options opts)) m2 = take (o' + ?l) m1 @ enc_options opts"
    using Cons.IH [of "o' + ?l" m1] Cons.prems m1(2) by (auto simp: enc)
  then show ?case using m1 unfolding enc by (simp add: opt add.assoc)
qed

lemma reply_bytes_eq:
  assumes "44 \<le> length req"
  shows "\<exists>hdr. reply_bytes st req mtype yiaddr = hdr @ enc_options (reply_options st mtype) @ [255]
     \<and> length hdr = OPTIONS_OFFSET \<and> slice 16 4 hdr = be32_bytes yiaddr \<and> slice 28 16 hdr = slice 28 16 req
     \<and> slice 4 4 hdr = slice 4 4 req"
proof -
  define m where "m = buf_write BOOTP_FIXED_LEN [0x63, 0x82, 0x53, 0x63] (buf_write 28 (slice 28 16 req)
    (buf_write 20 (be32_bytes (ds_server_addr st)) (buf_write 16 (be32_bytes yiaddr) (buf_write 10 (slice 10 2 req)
      (buf_write 4 (slice 4 4 req) (buf_write 0 [2, 1, 6] (replicate REPLY_LEN 0)))))))"
  have len: "length m = REPLY_LEN" using assms by (simp add: m_def)
  have fields: "slice 16 4 m = be32_bytes yiaddr" "slice 28 16 m = slice 28 16 req" "slice 4 4 m = slice 4 4 req"
    using assms by (simp_all add: m_def slice_buf_write_other)
  let ?opts = "reply_options st mtype"
  have el: "OPTIONS_OFFSET + length (enc_options ?opts) + 1 \<le> REPLY_LEN"
    by (simp add: enc_options_def reply_options_def enc_option_def)
  obtain m' where m': "foldl (\<lambda>mo (code, data). put_option code data mo) (m, OPTIONS_OFFSET) ?opts
      = (m', OPTIONS_OFFSET + length (enc_options ?opts))" "length m' = REPLY_LEN"
    "take (OPTIONS_OFFSET + length (enc_options ?opts)) m' = take OPTIONS_OFFSET m @ enc_options ?opts"
    using put_options_prefix [of OPTIONS_OFFSET ?opts m] len el by auto
  have "reply_bytes st req mtype yiaddr = take (OPTIONS_OFFSET + length (enc_options ?opts) + 1)
      (buf_write (OPTIONS_OFFSET + length (enc_options ?opts)) [255] m')"
    using m'(1) unfolding reply_bytes_def Let_def m_def [symmetric]
    by (simp add: reply_options_def put_option32_def split: if_splits)
  also have "\<dots> = take OPTIONS_OFFSET m @ enc_options ?opts @ [255]"
    using take_buf_write [of "OPTIONS_OFFSET + length (enc_options ?opts)" "[255]" m'] el m'(2,3) by simp
  finally show ?thesis
    using len fields by (intro exI [of _ "take OPTIONS_OFFSET m"]) (simp add: slice_def drop_take)
qed

section \<open>What a message does\<close>

text \<open>The effect of one message from the client \<open>mac\<close>: at most one reply; an offer or acknowledgement names an
  address of the pool that the client holds afterwards.\<close>

definition good_step :: "dhcp_server_state \<Rightarrow> bytes \<Rightarrow> dhcp_server_state \<Rightarrow> bool" where
  "good_step st req st' \<longleftrightarrow>
     leases_ok (ds_leases st') \<and> ds_server_addr st' = ds_server_addr st \<and> ds_netmask st' = ds_netmask st
     \<and> (ds_sent st' = ds_sent st
        \<or> (\<exists>mtype yiaddr. ds_sent st' = ds_sent st @ [reply_bytes st req mtype yiaddr]
             \<and> (mtype = MSG_NAK \<and> yiaddr = 0
                \<or> mtype \<in> {MSG_OFFER, MSG_ACK}
                  \<and> (\<exists>i < DHCP_POOL_SIZE. yiaddr = slot_addr st i
                       \<and> leases_holder (ds_leases st') i = Some (slice 28 6 req)))))"

lemma reply_bytes_leases [simp]: "reply_bytes (st\<lparr>ds_leases := x\<rparr>) req mtype yiaddr = reply_bytes st req mtype yiaddr"
  by (simp add: reply_bytes_def Let_def)

lemma slot_addr_leases [simp]: "slot_addr (st\<lparr>ds_leases := x\<rparr>) i = slot_addr st i"
  by (simp add: slot_addr_def)

lemma on_discover_good:
  assumes "leases_ok (ds_leases st)" "\<And>i. slot = Some i \<Longrightarrow> leases_holder (ds_leases st) i = Some (slice 28 6 req)"
  shows "good_step st req (on_discover st req (slice 28 6 req) slot)"
proof (cases slot)
  case None
  let ?mac = "slice 28 6 req"
  obtain i t where it: "dhcp_leases_take (ds_leases st) ?mac = (i, t)" by fastforce
  then have "i < DHCP_POOL_SIZE" "leases_ok t" "leases_holder t i = Some ?mac"
    using leases.take_pool [OF assms(1), of ?mac] leases.take_ok [OF assms(1), of ?mac] by auto
  then show ?thesis using None it by (auto simp: on_discover_def good_step_def reply_def)
next
  case (Some i)
  then have "leases_holder (ds_leases st) i = Some (slice 28 6 req)" "i < DHCP_POOL_SIZE"
    using assms(2) leases.holder_pool [OF assms(1)] by auto
  then show ?thesis using Some assms(1) by (auto simp: on_discover_def good_step_def reply_def)
qed

lemma on_request_good:
  assumes "leases_ok (ds_leases st)" "\<And>i. slot = Some i \<longleftrightarrow> leases_holder (ds_leases st) i = Some (slice 28 6 req)"
  shows "good_step st req (on_request st req (slice 28 6 req) slot requested)"
proof -
  let ?mac = "slice 28 6 req"
  define r where "r = (if requested = 0 then be32 (slice 12 4 req) else requested)"
  define slot' t where "slot' = (if slot = None \<and> r > ds_server_addr st \<and> r \<le> ds_server_addr st + of_nat DHCP_POOL_SIZE
      then if fst (dhcp_leases_claim (ds_leases st) (int (unat (r - ds_server_addr st - 1))) ?mac)
        then Some (unat (r - ds_server_addr st - 1)) else slot else slot)"
    and "t = (if slot = None \<and> r > ds_server_addr st \<and> r \<le> ds_server_addr st + of_nat DHCP_POOL_SIZE
      then snd (dhcp_leases_claim (ds_leases st) (int (unat (r - ds_server_addr st - 1))) ?mac) else ds_leases st)"
  have none: "\<forall>j. leases_holder (ds_leases st) j \<noteq> Some ?mac" if "slot = None"
    using assms(2) that by fastforce
  have t: "leases_ok t" using leases.claim_ok [OF assms(1) none] assms(1) by (auto simp: t_def)
  have held: "leases_holder t i = Some ?mac \<and> i < DHCP_POOL_SIZE" if "slot' = Some i" for i
  proof (cases "slot = Some i")
    case True
    then show ?thesis using assms(2) leases.holder_pool [OF assms(1)] by (auto simp: t_def)
  next
    case False
    then have "fst (dhcp_leases_claim (ds_leases st) (int i) ?mac)" "t = snd (dhcp_leases_claim (ds_leases st) (int i) ?mac)"
      using that by (auto simp: slot'_def t_def split: if_splits)
    then show ?thesis
      using leases.claim_iff [OF assms(1), of "int i" ?mac] leases.claim_holder [OF assms(1), of "int i" ?mac] by auto
  qed
  have "on_request st req ?mac slot requested
      = (if (case slot' of None \<Rightarrow> False | Some i \<Rightarrow> r = slot_addr st i)
         then reply (st\<lparr>ds_leases := t\<rparr>) req MSG_ACK r else reply (st\<lparr>ds_leases := t\<rparr>) req MSG_NAK 0)"
    unfolding on_request_def r_def [symmetric]
    by (auto simp: Let_def slot'_def t_def split_beta split: option.splits)
  then show ?thesis
    using t held by (auto simp: good_step_def reply_def split: option.splits)
qed

lemma on_message_good:
  assumes "leases_ok (ds_leases st)" "on_message st req len = Some st'"
  shows "good_step st req st'"
proof -
  let ?mac = "slice 28 6 req"
  define f where "f = dhcp_leases_find (ds_leases st) ?mac"
  have f: "leases_ok (snd f)" "leases_holder (snd f) = leases_holder (ds_leases st)"
    "\<And>i. fst f = Some i \<longleftrightarrow> leases_holder (snd f) i = Some ?mac"
    using leases.find_ok [OF assms(1), of ?mac] leases.find_iff [OF assms(1), of ?mac] by (auto simp: f_def)
  have lift: "good_step (st\<lparr>ds_leases := snd f\<rparr>) req x \<Longrightarrow> good_step st req x" for x
    by (simp add: good_step_def)
  have self: "good_step st req st" using assms(1) by (simp add: good_step_def)
  have rel: "good_step st req (st\<lparr>ds_leases := dhcp_leases_release (snd f) (slot_int (fst f))\<rparr>)"
    "good_step st req (st\<lparr>ds_leases := snd f\<rparr>)"
    using leases.release_ok [OF f(1)] f(1) by (simp_all add: good_step_def)
  show ?thesis
    using assms(2) f self rel lift on_discover_good [of "st\<lparr>ds_leases := snd f\<rparr>" "fst f" req]
      on_request_good [of "st\<lparr>ds_leases := snd f\<rparr>" "fst f" req]
    unfolding on_message_def f_def [symmetric] Let_def split_beta
    by (auto split: option.splits if_splits)
qed

lemma packet_good:
  assumes "leases_ok (ds_leases st)" "dhcp_server_packet st req = Some st'"
  shows "good_step st req st'"
  using assms on_message_good [OF assms(1)]
  by (auto simp: dhcp_server_packet_def good_step_def split: if_splits)

lemma packet_safe: "dhcp_server_packet st req \<noteq> None"
proof -
  have "parse_options req (length req) OPTIONS_OFFSET 0 0 \<noteq> None" by (rule parse_options_safe) simp
  then show ?thesis
    by (auto simp: dhcp_server_packet_def on_message_def Let_def split_beta split: option.splits)
qed

lemma run_good:
  "leases_ok (ds_leases st) \<Longrightarrow> \<exists>st'. dhcp_server_run st ps = Some st' \<and> leases_ok (ds_leases st')"
proof (induction ps arbitrary: st)
  case Nil
  then show ?case by simp
next
  case (Cons p ps)
  obtain st1 where st1: "dhcp_server_packet st p = Some st1" using packet_safe [of st p] by blast
  then have "leases_ok (ds_leases st1)" using packet_good [OF Cons.prems] by (simp add: good_step_def)
  then show ?case using Cons.IH st1 by simp
qed

section \<open>Starting and stopping\<close>

text \<open>\<open>s_state\<close> (whether the state is allocated), its \<open>stop_requested\<close>, whether the task runs, and whether it has
  given the semaphore.\<close>

record dhcp_ctl =
  ct_state :: bool
  ct_stop  :: bool
  ct_task  :: bool
  ct_given :: bool

text \<open>The task sees \<open>stop_requested\<close>, gives the semaphore and deletes itself.\<close>

definition task_exit :: "dhcp_ctl \<Rightarrow> dhcp_ctl" where
  "task_exit c = (if ct_task c \<and> ct_stop c then c\<lparr>ct_task := False, ct_given := True\<rparr> else c)"

definition destroy_state :: "dhcp_ctl \<Rightarrow> dhcp_ctl" where
  "destroy_state c = c\<lparr>ct_state := False, ct_stop := False, ct_given := False\<rparr>"

text \<open>\<open>exits\<close>: whether the task gets to its exit while the stopper waits for the semaphore.\<close>

definition dhcp_server_stop :: "bool \<Rightarrow> dhcp_ctl \<Rightarrow> dhcp_ctl" where
  "dhcp_server_stop exits c =
     (if \<not> ct_state c then c
      else
        let c = c\<lparr>ct_stop := True\<rparr>; c = (if exits then task_exit c else c)
        in if ct_given c then destroy_state c else c)"

text \<open>\<open>created\<close>: whether \<open>create_state\<close> and \<open>xTaskCreate\<close> succeed; a state whose task cannot be created is destroyed.\<close>

definition dhcp_server_start :: "bool \<Rightarrow> bool \<Rightarrow> bool \<Rightarrow> dhcp_ctl \<Rightarrow> bool \<times> dhcp_ctl" where
  "dhcp_server_start exits state_ok task_ok c =
     (let c = (if ct_state c \<and> ct_stop c then dhcp_server_stop exits c else c) in
      if ct_state c then (\<not> ct_stop c, c)
      else if \<not> state_ok then (False, c)
      else
        let c = \<lparr>ct_state = True, ct_stop = False, ct_task = ct_task c, ct_given = False\<rparr> in
        if \<not> task_ok then (False, destroy_state c)
        else (True, c\<lparr>ct_task := True\<rparr>))"

inductive ctl_step :: "dhcp_ctl \<Rightarrow> dhcp_ctl \<Rightarrow> bool" where
  ctl_start: "ctl_step c (snd (dhcp_server_start exits state_ok task_ok c))"
| ctl_stop: "ctl_step c (dhcp_server_stop exits c)"
| ctl_task: "ctl_step c (task_exit c)"

definition ctl_init :: dhcp_ctl where
  "ctl_init = \<lparr>ct_state = False, ct_stop = False, ct_task = False, ct_given = False\<rparr>"

definition ctl_inv :: "dhcp_ctl \<Rightarrow> bool" where
  "ctl_inv c \<longleftrightarrow> (ct_task c \<longrightarrow> ct_state c) \<and> (ct_given c \<longrightarrow> ct_state c \<and> ct_stop c \<and> \<not> ct_task c)
     \<and> (ct_state c \<longrightarrow> ct_task c \<or> ct_given c) \<and> (ct_stop c \<longrightarrow> ct_state c)"

lemma ctl_inv_step: "ctl_step c c' \<Longrightarrow> ctl_inv c \<Longrightarrow> ctl_inv c'"
  by (induction rule: ctl_step.induct)
    (auto simp: ctl_inv_def dhcp_server_start_def dhcp_server_stop_def task_exit_def destroy_state_def Let_def)

lemma ctl_inv_init: "ctl_inv ctl_init"
  by (simp add: ctl_inv_def ctl_init_def)

lemma ctl_inv_reachable: "ctl_step\<^sup>*\<^sup>* ctl_init c \<Longrightarrow> ctl_inv c"
  by (induction rule: rtranclp_induct) (auto intro: ctl_inv_step ctl_inv_init)

section \<open>Properties\<close>

text \<open>(C8) Whatever packets arrive, the server never loads a byte outside a message, and an address that it offers or
  acknowledges is one of the pool's, held afterwards by the client the reply is for and by no other client; a
  refusal names no address. At most one reply goes out per packet.\<close>

theorem dhcp_server_assigns:
  assumes "leases_ok (ds_leases st)" "dhcp_server_run st ps = Some st1" "mac = slice 28 6 req"
  shows "\<exists>st2. dhcp_server_packet st1 req = Some st2
     \<and> (ds_sent st2 = ds_sent st1 \<or> (\<exists>mtype yiaddr. ds_sent st2 = ds_sent st1 @ [reply_bytes st1 req mtype yiaddr]
          \<and> (mtype = MSG_NAK \<and> yiaddr = 0
             \<or> mtype \<in> {MSG_OFFER, MSG_ACK} \<and> (\<exists>i < DHCP_POOL_SIZE. yiaddr = slot_addr st1 i
                 \<and> leases_holder (ds_leases st2) i = Some mac
                 \<and> (\<forall>j mac'. leases_holder (ds_leases st2) j = Some mac' \<longrightarrow> (j = i \<longleftrightarrow> mac' = mac))))))"
proof -
  have ok1: "leases_ok (ds_leases st1)" using run_good [OF assms(1), of ps] assms(2) by simp
  obtain st2 where st2: "dhcp_server_packet st1 req = Some st2" using packet_safe [of st1 req] by blast
  have good: "good_step st1 req st2" by (rule packet_good [OF ok1 st2])
  then have "leases_ok (ds_leases st2)" by (simp add: good_step_def)
  then have uniq: "leases_holder (ds_leases st2) i = Some mac \<Longrightarrow>
      \<forall>j mac'. leases_holder (ds_leases st2) j = Some mac' \<longrightarrow> (j = i \<longleftrightarrow> mac' = mac)" for i
    using leases.holder_unique [of "ds_leases st2"] by auto
  show ?thesis
    using good st2 uniq unfolding good_step_def assms(3) by (intro exI [of _ st2]) blast
qed

theorem dhcp_server_assigns_witness:
  "\<exists>st2. dhcp_server_packet \<lparr>ds_server_addr = 0xC0A80401, ds_netmask = 0xFFFFFF00, ds_leases = dhcp_leases_clear, ds_sent = []\<rparr>
     [1, 2, 3] = Some st2"
  using dhcp_server_assigns [of "\<lparr>ds_server_addr = 0xC0A80401, ds_netmask = 0xFFFFFF00, ds_leases = dhcp_leases_clear, ds_sent = []\<rparr>"
      "[]" _ "slice 28 6 [1, 2, 3]" "[1, 2, 3]"] leases_clear_ok(1) by auto

text \<open>A reply is well formed: it fits in the 300-byte buffer, carries the transaction id and hardware address of
  the request and the assigned address, and its options parse back, with the parser the server itself uses, to
  the message type.\<close>

theorem dhcp_reply_parses:
  assumes "44 \<le> length req"
  shows "length (reply_bytes st req mtype yiaddr) \<le> REPLY_LEN
     \<and> parse_options (reply_bytes st req mtype yiaddr) (length (reply_bytes st req mtype yiaddr)) OPTIONS_OFFSET 0 0
         = Some (Some (mtype, 0))
     \<and> be32 (slice 16 4 (reply_bytes st req mtype yiaddr)) = yiaddr
     \<and> slice 28 16 (reply_bytes st req mtype yiaddr) = slice 28 16 req
     \<and> slice 4 4 (reply_bytes st req mtype yiaddr) = slice 4 4 req"
proof -
  obtain hdr where hdr: "reply_bytes st req mtype yiaddr = hdr @ enc_options (reply_options st mtype) @ [255]"
    "length hdr = OPTIONS_OFFSET" "slice 16 4 hdr = be32_bytes yiaddr" "slice 28 16 hdr = slice 28 16 req"
    "slice 4 4 hdr = slice 4 4 req"
    using reply_bytes_eq [OF assms] by blast
  have "\<forall>opt \<in> set (reply_options st mtype). option_ok opt"
    by (auto simp: reply_options_def option_ok_def)
  from parse_enc_options [OF this hdr(1), of 0 0]
  have "parse_options (reply_bytes st req mtype yiaddr) (length (reply_bytes st req mtype yiaddr)) OPTIONS_OFFSET 0 0
      = Some (Some (mtype, 0))"
    by (simp add: hdr(2) reply_options_def apply_option_def)
  moreover have "length (reply_bytes st req mtype yiaddr) \<le> REPLY_LEN"
    by (simp add: hdr(1,2) enc_options_def reply_options_def enc_option_def)
  ultimately show ?thesis using hdr by simp
qed

theorem dhcp_reply_parses_witness:
  "be32 (slice 16 4 (reply_bytes \<lparr>ds_server_addr = 0xC0A80401, ds_netmask = 0xFFFFFF00, ds_leases = dhcp_leases_clear,
     ds_sent = []\<rparr> (replicate 243 0) MSG_OFFER 0xC0A80402)) = 0xC0A80402"
  using dhcp_reply_parses [of "replicate 243 0"] by simp

text \<open>The task never outlives the memory it works on: in every state that starts, stops and task exits can lead
  to, a running task has its state allocated, and a start that reports success has a task running that nobody
  has asked to stop.\<close>

theorem dhcp_server_lifetime:
  assumes "ctl_step\<^sup>*\<^sup>* ctl_init c"
  shows "(ct_task c \<longrightarrow> ct_state c)
     \<and> (fst (dhcp_server_start exits state_ok task_ok c) \<longrightarrow>
          ct_task (snd (dhcp_server_start exits state_ok task_ok c)) \<and> \<not> ct_stop (snd (dhcp_server_start exits state_ok task_ok c)))"
  using ctl_inv_reachable [OF assms]
  by (auto simp: ctl_inv_def dhcp_server_start_def dhcp_server_stop_def task_exit_def destroy_state_def Let_def)

theorem dhcp_server_lifetime_witness:
  "ct_task (snd (dhcp_server_start True True True ctl_init))"
proof -
  have "ctl_step\<^sup>*\<^sup>* ctl_init ctl_init" by simp
  from dhcp_server_lifetime [OF this, of True True True] show ?thesis
    by (simp add: dhcp_server_start_def ctl_init_def)
qed

end
