(* ===== verification/Http_Response.thy ===== *)
theory Http_Response
  imports Prelude
begin

text \<open>
  The response half of \<open>src/src/platform/misc/http_server/http_server.c\<close>. \<open>hr_wire\<close> is what the connection has
  taken so far. How many bytes each \<open>lwip_send\<close> takes, and when the server's \<open>stopping\<close> flag is raised, come from
  an environment that is consulted once per step of the clock \<open>hr_time\<close>. Whatever a handler calls and in whatever
  order, the connection carries one head followed by no more body bytes than its \<open>Content-Length\<close> announced.
\<close>

section \<open>State\<close>

datatype length_mode = LENGTH_AUTO | LENGTH_FIXED | LENGTH_NONE | LENGTH_SEALED

text \<open>\<open>env_stop\<close>: when \<open>http_server_stop\<close> sets the flag, which nothing clears. \<open>env_send t\<close>: the bytes a send at
  time \<open>t\<close> takes, \<open>None\<close> for an error.\<close>

record http_env =
  env_stop :: "nat option"
  env_send :: "nat \<Rightarrow> nat option"

record http_response =
  hr_status           :: int
  hr_content_type     :: "string option"
  hr_content_encoding :: "string option"
  hr_length_mode      :: length_mode
  hr_length           :: u32
  hr_remaining        :: u32
  hr_headers_sent     :: bool
  hr_more             :: bool
  hr_failed           :: bool
  hr_time             :: nat
  hr_wire             :: bytes

definition response_init :: http_response where
  "response_init =
     \<lparr>hr_status = 200, hr_content_type = None, hr_content_encoding = None, hr_length_mode = LENGTH_AUTO,
      hr_length = 0, hr_remaining = 0, hr_headers_sent = False, hr_more = False, hr_failed = False,
      hr_time = 0, hr_wire = []\<rparr>"

definition stopping :: "http_env \<Rightarrow> nat \<Rightarrow> bool" where
  "stopping e t = (case env_stop e of None \<Rightarrow> False | Some s \<Rightarrow> s \<le> t)"

definition tick :: "http_response \<Rightarrow> http_response" where
  "tick r = r\<lparr>hr_time := hr_time r + 1\<rparr>"

section \<open>The head\<close>

definition reason :: "int \<Rightarrow> string" where
  "reason status =
     (if status = 200 then ''OK''
      else if status = 204 then ''No Content''
      else if status = 400 then ''Bad Request''
      else if status = 404 then ''Not Found''
      else if status = 405 then ''Method Not Allowed''
      else if status = 413 then ''Payload Too Large''
      else if status = 414 then ''URI Too Long''
      else if status = 431 then ''Request Header Fields Too Large''
      else if status = 500 then ''Internal Server Error''
      else if status = 503 then ''Service Unavailable''
      else ''Status'')"

text \<open>\<open>%lu\<close> and \<open>%d\<close>.\<close>

definition digit :: "nat \<Rightarrow> char" where
  "digit d = ''0123456789'' ! d"

fun decimal :: "nat \<Rightarrow> string" where
  "decimal n = (if n < 10 then [digit n] else decimal (n div 10) @ [digit (n mod 10)])"

declare decimal.simps [simp del]

definition print_int :: "int \<Rightarrow> string" where
  "print_int i = (if i < 0 then CHR ''-'' # decimal (nat (- i)) else decimal (nat i))"

definition CRLF :: string where
  "CRLF = [CHR 0x0D, CHR 0x0A]"

definition ascii :: "string \<Rightarrow> bytes" where
  "ascii s = map of_char s"

abbreviation HEADER_BUF_SIZE :: nat where "HEADER_BUF_SIZE \<equiv> 192"

text \<open>\<open>vsnprintf\<close> at the end of what \<open>buf\<close> holds: \<open>None\<close> when the text and its NUL do not fit.\<close>

definition append_text :: "nat \<Rightarrow> string \<Rightarrow> string \<Rightarrow> string option" where
  "append_text sz s buf = (if sz - length buf \<le> length s then None else Some (buf @ s))"

definition header_text :: "http_response \<Rightarrow> string option" where
  "header_text r = do {
     buf \<leftarrow> append_text HEADER_BUF_SIZE (''HTTP/1.1 '' @ print_int (hr_status r) @ '' '' @ reason (hr_status r) @ CRLF) [];
     buf \<leftarrow> (case hr_content_type r of None \<Rightarrow> Some buf
              | Some s \<Rightarrow> append_text HEADER_BUF_SIZE (''Content-Type: '' @ s @ CRLF) buf);
     buf \<leftarrow> (case hr_content_encoding r of None \<Rightarrow> Some buf
              | Some s \<Rightarrow> append_text HEADER_BUF_SIZE (''Content-Encoding: '' @ s @ CRLF) buf);
     buf \<leftarrow> (if hr_length_mode r = LENGTH_AUTO \<or> hr_length_mode r = LENGTH_FIXED
              then append_text HEADER_BUF_SIZE (''Content-Length: '' @ decimal (unat (hr_length r)) @ CRLF) buf
              else Some buf);
     append_text HEADER_BUF_SIZE (''Connection: close'' @ CRLF @ CRLF) buf
   }"

section \<open>Sending\<close>

text \<open>\<open>m\<close> (\<open>MSG_MORE\<close>) only tells lwIP whether to hold a short segment back, not what goes out.\<close>

definition send_raw :: "http_env \<Rightarrow> http_response \<Rightarrow> bytes \<Rightarrow> bool \<Rightarrow> bool \<times> http_response" where
  "send_raw e r data m =
     (if hr_failed r \<or> stopping e (hr_time r) then (False, tick r)
      else if data = [] then (True, tick r)
      else
        let r = tick r in
        case env_send e (hr_time r) of
          None \<Rightarrow> (False, (tick r)\<lparr>hr_failed := True\<rparr>)
        | Some n \<Rightarrow>
            let r = (tick r)\<lparr>hr_wire := hr_wire r @ take n data\<rparr> in
            if n < length data then (False, r\<lparr>hr_failed := True\<rparr>) else (True, r))"

definition send_headers :: "http_env \<Rightarrow> http_response \<Rightarrow> bool \<Rightarrow> bool \<times> http_response" where
  "send_headers e r m =
     (case header_text r of
        None \<Rightarrow> (False, r\<lparr>hr_headers_sent := True, hr_failed := True\<rparr>)
      | Some buf \<Rightarrow> send_raw e (r\<lparr>hr_headers_sent := True\<rparr>) (ascii buf) m)"

section \<open>The calls of a handler\<close>

definition http_response_set_status :: "http_response \<Rightarrow> int \<Rightarrow> bool \<times> http_response" where
  "http_response_set_status r status =
     (if hr_headers_sent r \<or> status < 100 \<or> 599 < status then (False, r) else (True, r\<lparr>hr_status := status\<rparr>))"

definition http_response_set_content_type :: "http_response \<Rightarrow> string option \<Rightarrow> bool \<times> http_response" where
  "http_response_set_content_type r s =
     (if hr_headers_sent r then (False, r) else (True, r\<lparr>hr_content_type := s\<rparr>))"

definition http_response_set_content_encoding :: "http_response \<Rightarrow> string option \<Rightarrow> bool \<times> http_response" where
  "http_response_set_content_encoding r s =
     (if hr_headers_sent r then (False, r) else (True, r\<lparr>hr_content_encoding := s\<rparr>))"

definition http_response_set_content_length :: "http_response \<Rightarrow> u32 \<Rightarrow> bool \<times> http_response" where
  "http_response_set_content_length r len =
     (if hr_headers_sent r then (False, r)
      else (True, r\<lparr>hr_length_mode := LENGTH_FIXED, hr_length := len, hr_remaining := len\<rparr>))"

definition http_response_omit_content_length :: "http_response \<Rightarrow> bool \<times> http_response" where
  "http_response_omit_content_length r =
     (if hr_headers_sent r then (False, r) else (True, r\<lparr>hr_length_mode := LENGTH_NONE\<rparr>))"

definition http_response_set_more :: "http_response \<Rightarrow> bool \<Rightarrow> http_response" where
  "http_response_set_more r m = r\<lparr>hr_more := m\<rparr>"

text \<open>The head if it is still to be sent, then the body \<open>data\<close> of \<open>len\<close> bytes.\<close>

definition respond_body :: "http_env \<Rightarrow> http_response \<Rightarrow> bytes \<Rightarrow> u32 \<Rightarrow> bool \<times> http_response" where
  "respond_body e r data len =
     (let (ok, r) = (if hr_headers_sent r then (True, r) else send_headers e r (0 < len \<or> hr_more r)) in
      if \<not> ok then (False, r)
      else
        let r = (if hr_length_mode r \<noteq> LENGTH_NONE then r\<lparr>hr_remaining := hr_remaining r - len\<rparr> else r);
            (ok, r) = send_raw e r data (hr_more r)
        in (ok, if hr_length_mode r = LENGTH_AUTO then r\<lparr>hr_length_mode := LENGTH_SEALED\<rparr> else r))"

text \<open>\<open>None\<close> is a NULL body; of a body its first \<open>len\<close> bytes are sent.\<close>

definition http_respond_binary :: "http_env \<Rightarrow> http_response \<Rightarrow> bytes option \<Rightarrow> u32 \<Rightarrow> bool \<times> http_response" where
  "http_respond_binary e r body len =
     (if hr_failed r \<or> stopping e (hr_time r) \<or> hr_length_mode r = LENGTH_SEALED then (False, tick r)
      else if body = None \<and> 0 < len then (False, tick r)
      else
        let r = tick r;
            r = (if hr_length_mode r = LENGTH_AUTO then r\<lparr>hr_length := len, hr_remaining := len\<rparr> else r)
        in
        if hr_length_mode r \<noteq> LENGTH_NONE \<and> hr_remaining r < len then (False, r)
        else respond_body e r (case body of None \<Rightarrow> [] | Some b \<Rightarrow> take (unat len) b) len)"

definition http_respond_string :: "http_env \<Rightarrow> http_response \<Rightarrow> string option \<Rightarrow> bool \<times> http_response" where
  "http_respond_string e r body =
     http_respond_binary e r (map_option ascii body) (case body of None \<Rightarrow> 0 | Some s \<Rightarrow> of_nat (length s))"

definition reject :: "http_env \<Rightarrow> http_response \<Rightarrow> int \<Rightarrow> http_response" where
  "reject e r status =
     (if hr_headers_sent r then r
      else
        snd (http_respond_binary e
          (r\<lparr>hr_status := status, hr_content_type := None, hr_content_encoding := None,
             hr_length_mode := LENGTH_AUTO, hr_more := False\<rparr>) None 0))"

text \<open>One call of a handler, and a sequence of calls with the body bytes of those that returned true. What a handler
  that looks at the results does is one such sequence.\<close>

datatype http_call =
    Set_Status int
  | Set_Type "string option"
  | Set_Encoding "string option"
  | Set_Length u32
  | Omit_Length
  | Set_More bool
  | Respond "bytes option" u32
  | Respond_String "string option"

fun do_call :: "http_env \<Rightarrow> http_call \<Rightarrow> http_response \<Rightarrow> bool \<times> http_response" where
  "do_call e (Set_Status s) r = http_response_set_status r s"
| "do_call e (Set_Type s) r = http_response_set_content_type r s"
| "do_call e (Set_Encoding s) r = http_response_set_content_encoding r s"
| "do_call e (Set_Length n) r = http_response_set_content_length r n"
| "do_call e Omit_Length r = http_response_omit_content_length r"
| "do_call e (Set_More m) r = (True, http_response_set_more r m)"
| "do_call e (Respond b n) r = http_respond_binary e r b n"
| "do_call e (Respond_String b) r = http_respond_string e r b"

fun call_body :: "http_call \<Rightarrow> bytes" where
  "call_body (Respond (Some b) n) = take (unat n) b"
| "call_body (Respond_String (Some s)) = ascii s"
| "call_body _ = []"

text \<open>The memory a body points to holds the bytes announced, and a string is shorter than the address space.\<close>

fun call_ok :: "http_call \<Rightarrow> bool" where
  "call_ok (Respond (Some b) n) = (unat n \<le> length b)"
| "call_ok (Respond_String (Some s)) = (length s < 2 ^ 32)"
| "call_ok _ = True"

fun do_calls :: "http_env \<Rightarrow> http_call list \<Rightarrow> http_response \<Rightarrow> bytes \<times> http_response" where
  "do_calls e [] r = ([], r)"
| "do_calls e (c # cs) r =
     (let (ok, r) = do_call e c r; (acc, r) = do_calls e cs r
      in ((if ok then call_body c else []) @ acc, r))"

section \<open>What goes out on the connection\<close>

lemma stopping_mono: "stopping e t \<Longrightarrow> t \<le> t' \<Longrightarrow> stopping e t'"
  by (auto simp: stopping_def split: option.splits)

text \<open>A successful send extends the wire by the data; a failed one by a prefix of it, and nothing is sent after it.\<close>

lemma send_raw_ok:
  "send_raw e r d m = (True, r') \<Longrightarrow>
     \<not> hr_failed r \<and> \<not> stopping e (hr_time r) \<and> (\<exists>t. r' = r\<lparr>hr_time := t, hr_wire := hr_wire r @ d\<rparr>)"
  by (auto simp: send_raw_def tick_def Let_def split: if_splits option.splits intro: exI [of _ "hr_time r'"])

lemma send_raw_fail:
  assumes "send_raw e r d m = (False, r')"
  obtains t p q where "r' = r\<lparr>hr_time := t, hr_wire := hr_wire r @ p, hr_failed := hr_failed r'\<rparr>" "d = p @ q"
    "hr_failed r' \<or> stopping e t" "hr_failed r \<or> stopping e (hr_time r) \<longrightarrow> p = []"
proof (cases "hr_failed r \<or> stopping e (hr_time r)")
  case True
  then have "r' = tick r" "hr_failed r \<or> stopping e (hr_time r + 1)"
    using assms by (auto simp: send_raw_def intro: stopping_mono)
  then show ?thesis by (intro that [where t = "hr_time r + 1" and p = "[]" and q = d]) (auto simp: tick_def)
next
  case False
  have "\<exists>n. d = take n d @ drop n d \<and> r' = r\<lparr>hr_time := hr_time r + 2, hr_wire := hr_wire r @ take n d, hr_failed := True\<rparr>"
  proof (cases "env_send e (hr_time r + 1)")
    case None
    then show ?thesis using False assms
      by (auto simp: send_raw_def tick_def Let_def split: if_splits intro!: exI [of _ 0])
  next
    case (Some n)
    then show ?thesis using False assms
      by (auto simp: send_raw_def tick_def Let_def split: if_splits intro!: exI [of _ n])
  qed
  then obtain n where n: "r' = r\<lparr>hr_time := hr_time r + 2, hr_wire := hr_wire r @ take n d, hr_failed := True\<rparr>" by blast
  show ?thesis by (rule that [where t = "hr_time r + 2" and p = "take n d" and q = "drop n d"]) (use n False in auto)
qed

text \<open>The head a response has sent or would send; \<open>LENGTH_SEALED\<close> is \<open>LENGTH_AUTO\<close> after its body.\<close>

definition response_head :: "http_response \<Rightarrow> bytes option" where
  "response_head r = map_option ascii
     (header_text (if hr_length_mode r = LENGTH_SEALED then r\<lparr>hr_length_mode := LENGTH_AUTO\<rparr> else r))"

text \<open>\<open>whole\<close>: the connection has taken the head and every accepted body byte. \<open>framed\<close>: it has taken a part of
  the head, or the head, the accepted bytes and a part of the next body that still fits the announced length.\<close>

definition whole :: "bytes \<Rightarrow> http_response \<Rightarrow> bool" where
  "whole acc r \<longleftrightarrow> (\<exists>h. response_head r = Some h \<and> hr_wire r = h @ acc)
     \<and> (hr_length_mode r \<noteq> LENGTH_NONE \<longrightarrow> unat (hr_remaining r) + length acc = unat (hr_length r))"

definition framed :: "bytes \<Rightarrow> http_response \<Rightarrow> bool" where
  "framed acc r \<longleftrightarrow>
     acc = [] \<and> hr_wire r = []
     \<or> (\<exists>h q. acc = [] \<and> response_head r = Some h \<and> h = hr_wire r @ q)
     \<or> (\<exists>h p. response_head r = Some h \<and> hr_wire r = h @ acc @ p
          \<and> (hr_length_mode r \<noteq> LENGTH_NONE \<longrightarrow> length (acc @ p) \<le> unat (hr_length r)))"

definition response_inv :: "http_env \<Rightarrow> bytes \<Rightarrow> http_response \<Rightarrow> bool" where
  "response_inv e acc r \<longleftrightarrow>
     (if hr_headers_sent r
      then \<not> hr_failed r \<and> hr_length_mode r \<noteq> LENGTH_AUTO \<and> whole acc r
           \<or> (hr_failed r \<or> stopping e (hr_time r)) \<and> framed acc r
      else hr_wire r = [] \<and> acc = [] \<and> \<not> hr_failed r \<and> hr_length_mode r \<noteq> LENGTH_SEALED
           \<and> (hr_length_mode r = LENGTH_FIXED \<longrightarrow> hr_remaining r = hr_length r))"

lemma response_inv_init: "response_inv e [] response_init"
  by (simp add: response_inv_def response_init_def)

text \<open>The head depends only on the settings.\<close>

lemma header_text_cong [simp]:
  "header_text (r\<lparr>hr_time := t\<rparr>) = header_text r"
  "header_text (r\<lparr>hr_wire := w\<rparr>) = header_text r"
  "header_text (r\<lparr>hr_failed := f\<rparr>) = header_text r"
  "header_text (r\<lparr>hr_headers_sent := b\<rparr>) = header_text r"
  "header_text (r\<lparr>hr_remaining := n\<rparr>) = header_text r"
  "header_text (r\<lparr>hr_more := b\<rparr>) = header_text r"
  by (simp_all add: header_text_def cong del: if_weak_cong)

lemma response_head_cong [simp]:
  "response_head (r\<lparr>hr_time := t\<rparr>) = response_head r"
  "response_head (r\<lparr>hr_wire := w\<rparr>) = response_head r"
  "response_head (r\<lparr>hr_failed := f\<rparr>) = response_head r"
  "response_head (r\<lparr>hr_headers_sent := b\<rparr>) = response_head r"
  "response_head (r\<lparr>hr_remaining := n\<rparr>) = response_head r"
  "response_head (r\<lparr>hr_more := b\<rparr>) = response_head r"
proof -
  have "r\<lparr>hr_time := t, hr_length_mode := m\<rparr> = r\<lparr>hr_length_mode := m, hr_time := t\<rparr>"
    "r\<lparr>hr_wire := w, hr_length_mode := m\<rparr> = r\<lparr>hr_length_mode := m, hr_wire := w\<rparr>"
    "r\<lparr>hr_failed := f, hr_length_mode := m\<rparr> = r\<lparr>hr_length_mode := m, hr_failed := f\<rparr>"
    "r\<lparr>hr_headers_sent := b, hr_length_mode := m\<rparr> = r\<lparr>hr_length_mode := m, hr_headers_sent := b\<rparr>"
    "r\<lparr>hr_remaining := n, hr_length_mode := m\<rparr> = r\<lparr>hr_length_mode := m, hr_remaining := n\<rparr>"
    "r\<lparr>hr_more := b, hr_length_mode := m\<rparr> = r\<lparr>hr_length_mode := m, hr_more := b\<rparr>" for m
    by simp_all
  then show
    "response_head (r\<lparr>hr_time := t\<rparr>) = response_head r"
    "response_head (r\<lparr>hr_wire := w\<rparr>) = response_head r"
    "response_head (r\<lparr>hr_failed := f\<rparr>) = response_head r"
    "response_head (r\<lparr>hr_headers_sent := b\<rparr>) = response_head r"
    "response_head (r\<lparr>hr_remaining := n\<rparr>) = response_head r"
    "response_head (r\<lparr>hr_more := b\<rparr>) = response_head r"
    by (simp_all only: response_head_def header_text_cong cong: if_cong, simp_all)
qed

lemma response_head_sealed [simp]:
  "hr_length_mode r = LENGTH_AUTO \<Longrightarrow> response_head (r\<lparr>hr_length_mode := LENGTH_SEALED\<rparr>) = response_head r"
  by (cases r) (simp add: response_head_def)

text \<open>Sending the head: on success the wire is the head; on failure nothing will be sent any more.\<close>

lemma send_headers_ok:
  assumes "send_headers e r m = (True, r')" "hr_wire r = []" "hr_length_mode r \<noteq> LENGTH_SEALED"
  shows "\<not> hr_failed r \<and> (\<exists>t h. response_head r = Some h \<and> r' = r\<lparr>hr_headers_sent := True, hr_time := t, hr_wire := h\<rparr>)"
proof -
  obtain buf where buf: "header_text r = Some buf" "send_raw e (r\<lparr>hr_headers_sent := True\<rparr>) (ascii buf) m = (True, r')"
    using assms(1) by (auto simp: send_headers_def split: option.splits)
  then have "response_head r = Some (ascii buf)" using assms(3) by (simp add: response_head_def)
  moreover have "\<not> hr_failed r" "\<exists>t. r' = r\<lparr>hr_headers_sent := True, hr_time := t, hr_wire := ascii buf\<rparr>"
    using send_raw_ok [OF buf(2)] assms(2) by auto
  ultimately show ?thesis by blast
qed

lemma send_headers_fail:
  assumes "send_headers e r m = (False, r')" "hr_wire r = []" "hr_length_mode r \<noteq> LENGTH_SEALED"
  shows "hr_headers_sent r' \<and> (hr_failed r' \<or> stopping e (hr_time r')) \<and> framed [] r'"
proof (cases "header_text r")
  case None
  then show ?thesis using assms by (auto simp: send_headers_def framed_def)
next
  case (Some buf)
  then have "send_raw e (r\<lparr>hr_headers_sent := True\<rparr>) (ascii buf) m = (False, r')"
    using assms(1) by (simp add: send_headers_def)
  then obtain t p q where r': "r' = r\<lparr>hr_headers_sent := True, hr_time := t, hr_wire := p, hr_failed := hr_failed r'\<rparr>"
    and "ascii buf = p @ q" "hr_failed r' \<or> stopping e t"
    by (rule send_raw_fail) (use assms(2) in auto)
  moreover have "response_head r' = Some (ascii buf)"
    by (subst r') (use Some assms(3) in \<open>simp add: response_head_def [of r]\<close>)
  moreover have "hr_headers_sent r'" "hr_time r' = t" "hr_wire r' = p" by (subst r', simp)+
  ultimately show ?thesis by (auto simp: framed_def)
qed

text \<open>Sending a body on top of a complete wire.\<close>

lemma whole_framed: "whole acc r \<Longrightarrow> framed acc r"
  by (auto simp: whole_def framed_def)

lemma body_sent:
  assumes wh: "whole acc r" "\<not> hr_failed r" "hr_headers_sent r"
    and len: "hr_length_mode r \<noteq> LENGTH_NONE \<longrightarrow> length d \<le> unat (hr_remaining r)"
    and r1: "r1 = (if hr_length_mode r \<noteq> LENGTH_NONE then r\<lparr>hr_remaining := hr_remaining r - of_nat (length d)\<rparr> else r)"
    and send: "send_raw e r1 d m = (ok, r2)"
    and r3: "r3 = (if hr_length_mode r2 = LENGTH_AUTO then r2\<lparr>hr_length_mode := LENGTH_SEALED\<rparr> else r2)"
  shows "response_inv e (acc @ (if ok then d else [])) r3"
proof -
  have rem: "hr_length_mode r \<noteq> LENGTH_NONE \<longrightarrow> unat (hr_remaining r - of_nat (length d)) + length d = unat (hr_remaining r)"
  proof (intro impI)
    assume "hr_length_mode r \<noteq> LENGTH_NONE"
    then have le: "length d \<le> unat (hr_remaining r)" using len by simp
    moreover have "unat (hr_remaining r) < 2 ^ 32" using unsigned_less [of "hr_remaining r"] by simp
    ultimately have "unat (of_nat (length d) :: u32) = length d" by (simp add: unat_of_nat)
    then show "unat (hr_remaining r - of_nat (length d)) + length d = unat (hr_remaining r)"
      using le by (simp add: unat_sub word_le_nat_alt)
  qed
  obtain h where h: "response_head r = Some h" "hr_wire r = h @ acc" using wh(1) by (auto simp: whole_def)
  show ?thesis
  proof (cases ok)
    case True
    then obtain t where r2: "r2 = r1\<lparr>hr_time := t, hr_wire := hr_wire r1 @ d\<rparr>" using send_raw_ok [of e r1 d m r2] send by auto
    then have "whole (acc @ d) r3" "\<not> hr_failed r3" "hr_headers_sent r3" "hr_length_mode r3 \<noteq> LENGTH_AUTO"
      using wh h rem by (auto simp: r3 r1 whole_def)
    then show ?thesis using True by (simp add: response_inv_def)
  next
    case False
    then have "send_raw e r1 d m = (False, r2)" using send by simp
    then obtain t p q where r2: "r2 = r1\<lparr>hr_time := t, hr_wire := hr_wire r1 @ p, hr_failed := hr_failed r2\<rparr>"
      and d: "d = p @ q" and st: "hr_failed r2 \<or> stopping e t"
      by (rule send_raw_fail) blast
    have r2': "hr_time r2 = t" "hr_wire r2 = h @ acc @ p" "hr_headers_sent r2" "response_head r2 = Some h"
      "hr_length_mode r2 = hr_length_mode r" "hr_length r2 = hr_length r"
      by (subst r2, use wh h r1 in simp)+
    have "hr_length_mode r \<noteq> LENGTH_NONE \<longrightarrow> length (acc @ p) \<le> unat (hr_length r)"
      using wh(1) len by (auto simp: whole_def d)
    then have "framed acc r3" "hr_headers_sent r3" "hr_failed r3 \<or> stopping e (hr_time r3)"
      using r2' st by (auto simp: r3 framed_def)
    then show ?thesis using False by (simp add: response_inv_def)
  qed
qed

text \<open>Every call keeps the invariant, with the accepted bytes extended by the body of a call that returned true.\<close>

lemma respond_body_inv:
  assumes fresh: "\<not> hr_headers_sent r \<Longrightarrow> hr_wire r = [] \<and> acc = [] \<and> hr_length_mode r \<noteq> LENGTH_SEALED
      \<and> (hr_length_mode r \<noteq> LENGTH_NONE \<longrightarrow> hr_remaining r = hr_length r)"
    and sent: "hr_headers_sent r \<Longrightarrow> whole acc r"
    and r: "\<not> hr_failed r" "hr_length_mode r \<noteq> LENGTH_NONE \<longrightarrow> len \<le> hr_remaining r"
    and d: "length d = unat len" and call: "respond_body e r d len = (b, r')"
  shows "response_inv e (acc @ (if b then d else [])) r'"
proof -
  obtain ok r1 where hd: "(if hr_headers_sent r then (True, r) else send_headers e r (0 < len \<or> hr_more r)) = (ok, r1)"
    by fastforce
  show ?thesis
  proof (cases ok)
    case False
    then have "\<not> hr_headers_sent r" "send_headers e r (0 < len \<or> hr_more r) = (False, r1)" using hd by (auto split: if_splits)
    then have "response_inv e acc r1" using send_headers_fail fresh by (fastforce simp: response_inv_def)
    then show ?thesis using False call hd by (simp add: respond_body_def)
  next
    case True
    have "whole acc r1 \<and> \<not> hr_failed r1 \<and> hr_headers_sent r1 \<and> hr_remaining r1 = hr_remaining r
      \<and> hr_length_mode r1 = hr_length_mode r"
    proof (cases "hr_headers_sent r")
      case False
      then have "send_headers e r (0 < len \<or> hr_more r) = (True, r1)" using hd True by simp
      then obtain t h where "response_head r = Some h" "r1 = r\<lparr>hr_headers_sent := True, hr_time := t, hr_wire := h\<rparr>"
        using send_headers_ok fresh [OF False] by blast
      then show ?thesis
        using r(1) fresh [OF False] by (simp add: whole_def)
    qed (use hd sent r in auto)
    then have r1: "whole acc r1" "\<not> hr_failed r1" "hr_headers_sent r1" "hr_remaining r1 = hr_remaining r"
      "hr_length_mode r1 = hr_length_mode r" by simp_all
    define r2 where "r2 = (if hr_length_mode r1 \<noteq> LENGTH_NONE then r1\<lparr>hr_remaining := hr_remaining r1 - len\<rparr> else r1)"
    obtain k r3 where r3: "send_raw e r2 d (hr_more r2) = (k, r3)" by fastforce
    have "k = b" "r' = (if hr_length_mode r3 = LENGTH_AUTO then r3\<lparr>hr_length_mode := LENGTH_SEALED\<rparr> else r3)"
      using call True hd r3 by (auto simp: respond_body_def r2_def [symmetric] Let_def)
    moreover have "len = of_nat (length d)" by (simp add: d)
    ultimately show ?thesis
      using body_sent [OF r1(1-3) _ _ r3] r2_def r1(4,5) r(2) d by (simp add: word_le_nat_alt)
  qed
qed

lemma tick_fields [simp]:
  "hr_length_mode (tick r) = hr_length_mode r" "hr_headers_sent (tick r) = hr_headers_sent r"
  "hr_failed (tick r) = hr_failed r" "hr_wire (tick r) = hr_wire r" "hr_remaining (tick r) = hr_remaining r"
  "hr_length (tick r) = hr_length r" "response_head (tick r) = response_head r"
  by (simp_all add: tick_def)

lemma tick_inv: "response_inv e acc r \<Longrightarrow> response_inv e acc (tick r)"
  by (auto simp: response_inv_def whole_def framed_def split: if_splits)
    (auto simp: tick_def intro: stopping_mono)

lemma respond_binary_inv:
  assumes inv: "response_inv e acc r" and ok: "call_ok (Respond body len)"
    and call: "http_respond_binary e r body len = (b, r')"
  shows "response_inv e (acc @ (if b then call_body (Respond body len) else [])) r'"
proof (cases "hr_failed r \<or> stopping e (hr_time r) \<or> hr_length_mode r = LENGTH_SEALED \<or> body = None \<and> 0 < len")
  case True
  then have "(b, r') = (False, tick r)" using call by (auto simp: http_respond_binary_def split: if_splits)
  then show ?thesis using tick_inv [OF inv] by simp
next
  case False
  define r0 where "r0 = (if hr_length_mode r = LENGTH_AUTO then (tick r)\<lparr>hr_length := len, hr_remaining := len\<rparr> else tick r)"
  have d: "call_body (Respond body len) = (case body of None \<Rightarrow> [] | Some x \<Rightarrow> take (unat len) x)" by (cases body) auto
  have call': "(if hr_length_mode r0 \<noteq> LENGTH_NONE \<and> hr_remaining r0 < len then (False, r0)
      else respond_body e r0 (call_body (Respond body len)) len) = (b, r')"
    using call False unfolding http_respond_binary_def d by (auto simp: r0_def [symmetric])
  show ?thesis
  proof (cases "hr_length_mode r0 \<noteq> LENGTH_NONE \<and> hr_remaining r0 < len")
    case True
    then have "response_inv e acc r0" using tick_inv [OF inv] by (auto simp: r0_def split: if_splits)
    then show ?thesis using call' True by auto
  next
    case fits: False
    then have "respond_body e r0 (call_body (Respond body len)) len = (b, r')" using call' by (simp only: if_False)
    then show ?thesis
    proof (rule respond_body_inv [rotated -1])
      show "length (call_body (Respond body len)) = unat len" using ok False by (cases body) (auto simp: word_gt_0)
    qed (use inv False fits in \<open>auto simp: r0_def response_inv_def whole_def not_less split: if_splits
        intro: length_mode.exhaust [of "hr_length_mode r"]\<close>)
  qed
qed

lemma do_call_inv:
  assumes "response_inv e acc r" "call_ok c" "do_call e c r = (b, r')"
  shows "response_inv e (acc @ (if b then call_body c else [])) r'"
proof (cases c)
  case (Respond body len)
  then show ?thesis using assms respond_binary_inv [of e acc r body len b r'] by (simp only: do_call.simps)
next
  case (Respond_String s)
  let ?n = "case s of None \<Rightarrow> 0 :: u32 | Some s \<Rightarrow> of_nat (length s)"
  have "call_ok (Respond (map_option ascii s) ?n)" "call_body (Respond (map_option ascii s) ?n) = call_body c"
    using assms(2) Respond_String by (auto simp: ascii_def unat_of_nat split: option.splits)
  then show ?thesis
    using assms(1,3) respond_binary_inv [of e acc r "map_option ascii s" ?n b r'] Respond_String
    by (cases b) (simp_all add: http_respond_string_def)
qed (use assms in \<open>auto simp: http_response_set_status_def http_response_set_content_type_def
  http_response_set_content_encoding_def http_response_set_content_length_def http_response_omit_content_length_def
  http_response_set_more_def response_inv_def whole_def framed_def split: if_splits\<close>)

lemma do_calls_inv:
  assumes "response_inv e acc r" "list_all call_ok cs" "do_calls e cs r = (out, r')"
  shows "response_inv e (acc @ out) r'"
  using assms
proof (induction cs arbitrary: acc r out)
  case (Cons c cs)
  obtain ok r1 where 1: "do_call e c r = (ok, r1)" by fastforce
  obtain out1 where 2: "do_calls e cs r1 = (out1, r')" "out = (if ok then call_body c else []) @ out1"
    using Cons.prems(3) 1 by (auto split: prod.splits)
  have "response_inv e (acc @ (if ok then call_body c else [])) r1" using do_call_inv Cons.prems 1 by simp
  then show ?case using Cons.IH Cons.prems(2) 2 by fastforce
qed simp

lemma reject_inv: "response_inv e acc r \<Longrightarrow> response_inv e acc (reject e r status)"
proof (cases "hr_headers_sent r")
  case False
  assume inv: "response_inv e acc r"
  let ?r = "r\<lparr>hr_status := status, hr_content_type := None, hr_content_encoding := None,
             hr_length_mode := LENGTH_AUTO, hr_more := False\<rparr>"
  obtain b r' where c: "http_respond_binary e ?r None 0 = (b, r')" by fastforce
  have "response_inv e acc ?r" using inv False by (simp add: response_inv_def)
  then have "response_inv e acc r'" using respond_binary_inv [OF _ _ c, of acc] by (cases b) auto
  then show ?thesis using c False by (simp add: reject_def)
qed (simp add: reject_def)

section \<open>Theorem\<close>

text \<open>(C15) Whatever calls a handler makes and however the sends go, the connection carries at most one head, sent
  before any body byte. Either nothing but a part of the head went out and no body was accepted, or the wire is the head
  of the response, then exactly the bodies of the calls that returned true, then at most a part of one that failed; and
  unless the head omits \<open>Content-Length\<close> the body bytes do not exceed it. If no send failed and the server was not
  stopped, the wire is the head and the accepted bodies and nothing else.\<close>

theorem http_response_framing:
  assumes "list_all call_ok cs" "do_calls e cs response_init = (acc, r)"
  shows "(acc = [] \<and> (hr_wire r = [] \<or> (\<exists>h q. response_head r = Some h \<and> h = hr_wire r @ q))
          \<or> (\<exists>h p. response_head r = Some h \<and> hr_wire r = h @ acc @ p
               \<and> (hr_length_mode r \<noteq> LENGTH_NONE \<longrightarrow> length (acc @ p) \<le> unat (hr_length r))))
     \<and> (hr_headers_sent r \<and> \<not> hr_failed r \<and> \<not> stopping e (hr_time r) \<longrightarrow>
          (\<exists>h. response_head r = Some h \<and> hr_wire r = h @ acc))"
proof -
  have inv: "response_inv e acc r" using do_calls_inv [OF response_inv_init assms] by simp
  then have "framed acc r" using whole_framed by (auto simp: response_inv_def framed_def split: if_splits)
  moreover have "hr_headers_sent r \<Longrightarrow> \<not> hr_failed r \<Longrightarrow> \<not> stopping e (hr_time r) \<Longrightarrow> whole acc r"
    using inv by (auto simp: response_inv_def)
  ultimately show ?thesis unfolding framed_def whole_def by blast
qed

theorem http_response_framing_witness:
  "\<exists>r h. do_calls \<lparr>env_stop = None, env_send = (\<lambda>t. Some 1000)\<rparr> [Set_Status 404, Respond (Some [1, 2, 3]) 2] response_init
     = ([1, 2], r) \<and> response_head r = Some h \<and> hr_wire r = h @ [1, 2]"
proof -
  let ?e = "\<lparr>env_stop = None, env_send = (\<lambda>t. Some 1000)\<rparr>" and ?cs = "[Set_Status 404, Respond (Some [1, 2, 3]) 2]"
  have run: "(let (acc, r) = do_calls ?e ?cs response_init in hr_headers_sent r \<and> \<not> hr_failed r \<and> acc = [1, 2])"
    by code_simp
  then obtain r where r: "do_calls ?e ?cs response_init = ([1, 2], r)" "hr_headers_sent r" "\<not> hr_failed r"
    by (auto split: prod.splits)
  then have "\<exists>h. response_head r = Some h \<and> hr_wire r = h @ [1, 2]"
    using http_response_framing [OF _ r(1)] by (simp add: stopping_def)
  then show ?thesis using r(1) by blast
qed

end
