(* ===== verification/Http_Request.thy ===== *)
theory Http_Request
  imports Http_Response
begin

text \<open>
  The request half of \<open>src/src/platform/misc/http_server/http_server.c\<close>: reading the head, splitting the request
  line, and handing out the body. The connection is a list of the pieces that arrive; \<open>lwip_recv\<close> takes from the first
  one, and an empty piece is a call that returns nothing (the client is gone or too slow). However the bytes of a
  request are cut into pieces, the handler sees the same request and the same body.
\<close>

section \<open>The connection\<close>

fun lwip_recv :: "nat \<Rightarrow> bytes list \<Rightarrow> bytes \<times> bytes list" where
  "lwip_recv n [] = ([], [])"
| "lwip_recv n (s # ss) = (take n s, if length s \<le> n then ss else drop n s # ss)"

record http_conn =
  rq_method         :: bytes
  rq_path           :: bytes
  rq_query          :: bytes
  rq_content_length :: u32
  cn_socket         :: "bytes list"
  cn_body_left      :: u32
  cn_pending        :: bytes
  cn_pending_pos    :: u8

definition conn_init :: "bytes list \<Rightarrow> http_conn" where
  "conn_init socket =
     \<lparr>rq_method = [], rq_path = [], rq_query = [], rq_content_length = 0, cn_socket = socket, cn_body_left = 0,
      cn_pending = [], cn_pending_pos = 0\<rparr>"

abbreviation CR :: u8 where "CR \<equiv> 13"
abbreviation LF :: u8 where "LF \<equiv> 10"
abbreviation SPACE :: u8 where "SPACE \<equiv> 32"

section \<open>Header lines\<close>

definition to_lower :: "u8 \<Rightarrow> u8" where
  "to_lower c = (if 65 \<le> c \<and> c \<le> 90 then c + 32 else c)"

definition is_digit :: "u8 \<Rightarrow> bool" where
  "is_digit c \<longleftrightarrow> 48 \<le> c \<and> c \<le> 57"

text \<open>\<open>isspace\<close> of the C locale.\<close>

definition is_space :: "u8 \<Rightarrow> bool" where
  "is_space c \<longleftrightarrow> c = 32 \<or> 9 \<le> c \<and> c \<le> 13"

definition number :: "bytes \<Rightarrow> nat" where
  "number ds = foldl (\<lambda>n d. 10 * n + (unat d - 48)) 0 ds"

text \<open>\<open>strtoul\<close> with base 10: leading space, a sign, digits; a value that does not fit is \<open>ULONG_MAX\<close>. Both calls stop
  at the NUL that ends \<open>line\<close>, which no digit, space or sign is.\<close>

definition strtoul :: "bytes \<Rightarrow> u32" where
  "strtoul s =
     (let s = dropWhile is_space s;
          neg = (s \<noteq> [] \<and> hd s = 45);
          s = (if s \<noteq> [] \<and> (hd s = 45 \<or> hd s = 43) then tl s else s);
          n = number (takeWhile is_digit s)
      in if 2 ^ 32 \<le> n then - 1 else if neg then - of_nat n else of_nat n)"

definition CONTENT_LENGTH :: bytes where
  "CONTENT_LENGTH = ascii ''content-length:''"

definition scan_header :: "bytes \<Rightarrow> u32 \<Rightarrow> u32" where
  "scan_header line content_length =
     (if map to_lower (take (length CONTENT_LENGTH) line) \<noteq> CONTENT_LENGTH then content_length
      else strtoul (drop (length CONTENT_LENGTH) line))"

section \<open>Reading the head\<close>

abbreviation REQUEST_BUF_SIZE :: nat where "REQUEST_BUF_SIZE \<equiv> 256"
abbreviation HEAD_LIMIT :: nat where "HEAD_LIMIT \<equiv> 2048"
abbreviation LINE_SIZE :: nat where "LINE_SIZE \<equiv> 32"
abbreviation CHUNK_SIZE :: nat where "CHUNK_SIZE \<equiv> 128"

datatype head_result = HEAD_OK | HEAD_LOST | HEAD_TOO_LARGE

record head_state =
  hs_kept           :: bytes
  hs_truncated      :: bool
  hs_line           :: bytes
  hs_seen           :: nat
  hs_content_length :: u32

definition head_init :: head_state where
  "head_init = \<lparr>hs_kept = [], hs_truncated = False, hs_line = [], hs_seen = 0, hs_content_length = 0\<rparr>"

text \<open>The body of the inner loop of \<open>read_head\<close>, for a buffer of \<open>sz\<close> bytes; the head is complete when
  \<open>hs_seen\<close> reaches 4.\<close>

definition head_byte :: "nat \<Rightarrow> head_state \<Rightarrow> u8 \<Rightarrow> head_state" where
  "head_byte sz st c =
     (let st = (if length (hs_kept st) < sz - 1 then st\<lparr>hs_kept := hs_kept st @ [c]\<rparr> else st\<lparr>hs_truncated := True\<rparr>);
          st = (if c = LF then st\<lparr>hs_content_length := scan_header (hs_line st) (hs_content_length st), hs_line := []\<rparr>
                else if length (hs_line st) < LINE_SIZE - 1 then st\<lparr>hs_line := hs_line st @ [c]\<rparr>
                else st);
          expected = (if hs_seen st mod 2 = 0 then CR else LF)
      in if c = expected then st\<lparr>hs_seen := hs_seen st + 1\<rparr>
         else st\<lparr>hs_seen := (if c = CR then 1 else 0)\<rparr>)"

text \<open>One chunk: the state after it, and the bytes after the end of the head if it ends here.\<close>

fun head_chunk :: "nat \<Rightarrow> head_state \<Rightarrow> bytes \<Rightarrow> head_state \<times> bytes option" where
  "head_chunk sz st [] = (st, None)"
| "head_chunk sz st (c # cs) =
     (let st = head_byte sz st c in if hs_seen st = 4 then (st, Some cs) else head_chunk sz st cs)"

function read_head_loop :: "nat \<Rightarrow> head_state \<Rightarrow> nat \<Rightarrow> bytes list \<Rightarrow> head_result \<times> head_state \<times> bytes \<times> bytes list" where
  "read_head_loop sz st tot socket =
     (let (chunk, socket') = lwip_recv CHUNK_SIZE socket in
      if chunk = [] then (HEAD_LOST, st, [], socket')
      else
        case head_chunk sz st chunk of
          (st, Some pending) \<Rightarrow> (HEAD_OK, st, pending, socket')
        | (st, None) \<Rightarrow>
            let tot = tot + length chunk in
            if HEAD_LIMIT < tot then (HEAD_TOO_LARGE, st, [], socket') else read_head_loop sz st tot socket')"
  by pat_completeness auto

lemma lwip_recv_shorter:
  "lwip_recv n socket = (chunk, socket') \<Longrightarrow> chunk \<noteq> [] \<Longrightarrow>
     sum_list (map length socket') + length chunk = sum_list (map length socket)"
  by (cases socket) (auto split: if_splits)

termination read_head_loop
proof (relation "measure (\<lambda>(sz, st, tot, socket). sum_list (map length socket))", goal_cases)
  case (2 sz st tot socket x chunk socket')
  then show ?case using lwip_recv_shorter [of CHUNK_SIZE socket chunk socket'] by (cases chunk) auto
qed simp

declare read_head_loop.simps [simp del]

text \<open>\<open>read_head\<close>: the result, the connection with the length it announced and the bytes after the head, the start
  of the head and whether it was cut.\<close>

definition read_head :: "http_conn \<Rightarrow> nat \<Rightarrow> head_result \<times> http_conn \<times> bytes \<times> bool" where
  "read_head conn sz =
     (case read_head_loop sz (head_init\<lparr>hs_content_length := rq_content_length conn\<rparr>) 0 (cn_socket conn) of
        (res, st, pending, socket) \<Rightarrow>
          (res,
           conn\<lparr>rq_content_length := hs_content_length st, cn_socket := socket,
                cn_pending := (if res = HEAD_OK then pending else cn_pending conn)\<rparr>,
           hs_kept st, hs_truncated st))"

section \<open>The request line\<close>

text \<open>The C string that starts at a pointer: up to its NUL.\<close>

definition c_string :: "bytes \<Rightarrow> bytes" where
  "c_string s = takeWhile (\<lambda>c. c \<noteq> 0) s"

text \<open>\<open>Inl\<close> the status to answer with, or the method, the path and the query.\<close>

definition parse_request_line :: "bytes \<Rightarrow> bool \<Rightarrow> int + bytes \<times> bytes \<times> bytes" where
  "parse_request_line buf truncated =
     (let line = takeWhile (\<lambda>c. c \<noteq> CR \<and> c \<noteq> LF) buf in
      if length line = length buf then Inl (if truncated then 414 else 400)
      else
        let s = c_string line; meth = takeWhile (\<lambda>c. c \<noteq> SPACE) s in
        if length meth = length s \<or> meth = [] then Inl 400
        else
          let rest = drop (length meth + 1) s in
          if rest = [] \<or> hd rest \<noteq> 47 then Inl 400
          else
            let target = takeWhile (\<lambda>c. c \<noteq> SPACE) rest; path = takeWhile (\<lambda>c. c \<noteq> 63) target
            in Inr (meth, path, drop (length path + 1) target))"

section \<open>The body\<close>

function read_body_loop :: "http_conn \<Rightarrow> nat \<Rightarrow> bytes \<Rightarrow> int \<times> bytes \<times> http_conn" where
  "read_body_loop conn sz out =
     (if \<not> (length out < sz \<and> 0 < cn_body_left conn) then (int (length out), out, conn)
      else
        let want = min (sz - length out) (unat (cn_body_left conn)) in
        if unat (cn_pending_pos conn) < length (cn_pending conn) then
          let got = slice (unat (cn_pending_pos conn)) want (cn_pending conn)
          in read_body_loop
               (conn\<lparr>cn_pending_pos := cn_pending_pos conn + of_nat (length got),
                     cn_body_left := cn_body_left conn - of_nat (length got)\<rparr>) sz (out @ got)
        else
          let (got, socket) = lwip_recv want (cn_socket conn) in
          if got = [] then (- 1, out, conn\<lparr>cn_socket := socket\<rparr>)
          else read_body_loop
                 (conn\<lparr>cn_socket := socket, cn_body_left := cn_body_left conn - of_nat (length got)\<rparr>) sz (out @ got))"
  by pat_completeness auto

termination read_body_loop
proof (relation "measure (\<lambda>(conn, sz, out). sz - length out)", goal_cases)
  case (2 conn sz out want got)
  then have "got \<noteq> []" "length out < sz" by (auto simp: slice_def word_less_nat_alt)
  then show ?case by (cases got) auto
next
  case (3 conn sz out want x got socket)
  then have "got \<noteq> []" "length out < sz" by auto
  then show ?case by (cases got) auto
qed simp

declare read_body_loop.simps [simp del]

text \<open>The return value, the bytes written to \<open>buf\<close> and the connection.\<close>

definition http_request_read_body :: "http_conn \<Rightarrow> nat \<Rightarrow> int \<times> bytes \<times> http_conn" where
  "http_request_read_body conn sz = read_body_loop conn sz []"

section \<open>Reading the head, however it is cut into pieces\<close>

lemma head_chunk_append:
  "head_chunk sz st (xs @ ys) =
     (case head_chunk sz st xs of
        (st', Some rest) \<Rightarrow> (st', Some (rest @ ys))
      | (st', None) \<Rightarrow> head_chunk sz st' ys)"
  by (induction xs arbitrary: st) (auto simp: Let_def)

lemma head_chunk_rest: "head_chunk sz st xs = (st', Some rest) \<Longrightarrow> \<exists>ys. ys \<noteq> [] \<and> xs = ys @ rest"
  by (induction xs arbitrary: st) (force simp: Let_def split: if_splits)+

definition flowing :: "bytes list \<Rightarrow> bool" where
  "flowing socket \<longleftrightarrow> [] \<notin> set socket"

lemma lwip_recv_flowing:
  assumes "lwip_recv n socket = (chunk, socket')" "flowing socket" "0 < n"
  shows "concat socket = chunk @ concat socket'" "flowing socket'" "chunk = [] \<longleftrightarrow> socket = []" "length chunk \<le> n"
  using assms by (cases socket; auto simp: flowing_def split: if_splits)+

text \<open>A head of at most \<open>HEAD_LIMIT\<close> bytes is found in any cut of the stream, and what follows it is kept in order.\<close>

lemma read_head_loop_ok:
  assumes "head_chunk sz st (concat socket) = (st', Some rest)" "flowing socket"
    "tot + length (concat socket) \<le> HEAD_LIMIT + length rest"
  shows "\<exists>pending socket'. read_head_loop sz st tot socket = (HEAD_OK, st', pending, socket')
           \<and> pending @ concat socket' = rest \<and> length pending < CHUNK_SIZE \<and> flowing socket'"
  using assms
proof (induction sz st tot socket rule: read_head_loop.induct)
  case (1 sz st tot socket)
  obtain chunk socket' where recv: "lwip_recv CHUNK_SIZE socket = (chunk, socket')" by fastforce
  note flow = lwip_recv_flowing [OF recv "1.prems"(2) zero_less_numeral]
  have "chunk \<noteq> []" using flow(3) "1.prems"(1) by auto
  obtain st1 r1 where c: "head_chunk sz st chunk = (st1, r1)" by fastforce
  show ?case
  proof (cases r1)
    case (Some p)
    then have "st' = st1" "rest = p @ concat socket'" using "1.prems"(1) flow(1) c by (auto simp: head_chunk_append)
    moreover obtain ys where "ys \<noteq> []" "chunk = ys @ p" using head_chunk_rest c Some by blast
    then have "length p < CHUNK_SIZE" using flow(4) by (cases ys) auto
    ultimately show ?thesis
      using recv c Some \<open>chunk \<noteq> []\<close> flow(2) by (subst read_head_loop.simps) simp
  next
    case None
    then have h: "head_chunk sz st1 (concat socket') = (st', Some rest)"
      using "1.prems"(1) flow(1) c by (simp add: head_chunk_append)
    then have "length rest < length (concat socket')" using head_chunk_rest by fastforce
    then have lim: "tot + length chunk + length (concat socket') \<le> HEAD_LIMIT + length rest"
      "tot + length chunk \<le> HEAD_LIMIT" using "1.prems"(3) flow(1) by auto
    have "read_head_loop sz st tot socket = read_head_loop sz st1 (tot + length chunk) socket'"
      using recv c None \<open>chunk \<noteq> []\<close> lim by (subst read_head_loop.simps) simp
    moreover have "\<exists>pending socket''. read_head_loop sz st1 (tot + length chunk) socket' = (HEAD_OK, st', pending, socket'')
        \<and> pending @ concat socket'' = rest \<and> length pending < CHUNK_SIZE \<and> flowing socket''"
      by (rule "1.IH" [OF recv [symmetric] refl \<open>chunk \<noteq> []\<close> c [unfolded None, symmetric] refl refl])
        (use lim h flow in auto)
    ultimately show ?thesis by simp
  qed
qed

lemma read_head_loop_too_large:
  assumes "head_chunk sz st (concat socket) = (st', None)" "flowing socket" "HEAD_LIMIT < tot + length (concat socket)"
    "tot \<le> HEAD_LIMIT"
  shows "fst (read_head_loop sz st tot socket) = HEAD_TOO_LARGE"
  using assms
proof (induction sz st tot socket rule: read_head_loop.induct)
  case (1 sz st tot socket)
  obtain chunk socket' where recv: "lwip_recv CHUNK_SIZE socket = (chunk, socket')" by fastforce
  note flow = lwip_recv_flowing [OF recv "1.prems"(2) zero_less_numeral]
  have "chunk \<noteq> []" using flow(3) "1.prems"(3,4) by auto
  obtain st1 where c: "head_chunk sz st chunk = (st1, None)" "head_chunk sz st1 (concat socket') = (st', None)"
    using "1.prems"(1) flow(1) by (auto simp: head_chunk_append split: prod.splits option.splits)
  show ?case
  proof (cases "HEAD_LIMIT < tot + length chunk")
    case True
    then show ?thesis using recv c \<open>chunk \<noteq> []\<close> by (subst read_head_loop.simps) simp
  next
    case False
    have "read_head_loop sz st tot socket = read_head_loop sz st1 (tot + length chunk) socket'"
      using recv c \<open>chunk \<noteq> []\<close> False by (subst read_head_loop.simps) simp
    moreover have "fst (read_head_loop sz st1 (tot + length chunk) socket') = HEAD_TOO_LARGE"
      by (rule "1.IH" [OF recv [symmetric] refl \<open>chunk \<noteq> []\<close> c(1) [symmetric] refl refl False])
        (use False c flow "1.prems" in auto)
    ultimately show ?thesis by simp
  qed
qed

section \<open>The head of a request\<close>

text \<open>A request as a client writes it: the request line, header lines, a blank line.\<close>

definition crlf :: bytes where
  "crlf = [CR, LF]"

definition request_line :: "bytes \<Rightarrow> bytes \<Rightarrow> bytes \<Rightarrow> bytes" where
  "request_line meth path query =
     meth @ [SPACE] @ path @ (if query = [] then [] else 63 # query) @ ascii '' HTTP/1.1''"

definition request_head :: "bytes list \<Rightarrow> bytes" where
  "request_head lines = concat (map (\<lambda>l. l @ crlf) lines) @ crlf"

definition line_ok :: "bytes \<Rightarrow> bool" where
  "line_ok l \<longleftrightarrow> l \<noteq> [] \<and> CR \<notin> set l \<and> LF \<notin> set l"

definition kept_line :: "bytes \<Rightarrow> bytes" where
  "kept_line l = take (LINE_SIZE - 1) (l @ [CR])"

definition head_lengths :: "bytes list \<Rightarrow> u32 \<Rightarrow> u32" where
  "head_lengths lines n = foldl (\<lambda>n l. scan_header (kept_line l) n) n lines"

text \<open>What the loop keeps of the bytes it has read.\<close>

definition kept_ok :: "nat \<Rightarrow> head_state \<Rightarrow> bytes \<Rightarrow> bool" where
  "kept_ok sz st xs \<longleftrightarrow> hs_kept st = take (sz - 1) xs \<and> hs_truncated st = (sz - 1 < length xs)"

lemma kept_ok_byte: "kept_ok sz st xs \<Longrightarrow> kept_ok sz (head_byte sz st c) (xs @ [c])"
  by (auto simp: kept_ok_def head_byte_def Let_def)

text \<open>A byte that is neither CR nor LF.\<close>

lemma head_byte_plain:
  assumes "c \<noteq> CR" "c \<noteq> LF" "length (hs_line st) \<le> LINE_SIZE - 1"
  shows "hs_seen (head_byte sz st c) = 0" "hs_content_length (head_byte sz st c) = hs_content_length st"
    "hs_line (head_byte sz st c) = take (LINE_SIZE - 1) (hs_line st @ [c])"
  using assms by (auto simp: head_byte_def Let_def)

lemma take_take_append: "take n (take n u @ v) = take n (u @ v)"
  by (cases "n \<le> length u") auto

lemma head_chunk_plain:
  assumes "CR \<notin> set xs" "LF \<notin> set xs" "length (hs_line st) \<le> LINE_SIZE - 1" "kept_ok sz st ws" "hs_seen st \<noteq> 4"
  shows "\<exists>st'. head_chunk sz st (xs @ ys) = head_chunk sz st' ys \<and> kept_ok sz st' (ws @ xs)
    \<and> hs_line st' = take (LINE_SIZE - 1) (hs_line st @ xs) \<and> hs_content_length st' = hs_content_length st
    \<and> hs_seen st' = (if xs = [] then hs_seen st else 0)"
  using assms
proof (induction xs arbitrary: st ws)
  case (Cons c xs)
  let ?st = "head_byte sz st c"
  have c: "c \<noteq> CR" "c \<noteq> LF" using Cons.prems by auto
  note b = head_byte_plain [OF c Cons.prems(3), of sz]
  obtain st' where "head_chunk sz ?st (xs @ ys) = head_chunk sz st' ys" "kept_ok sz st' ((ws @ [c]) @ xs)"
    "hs_line st' = take (LINE_SIZE - 1) (hs_line ?st @ xs)" "hs_content_length st' = hs_content_length ?st"
    "hs_seen st' = (if xs = [] then hs_seen ?st else 0)"
    using Cons.IH [of ?st "ws @ [c]"] Cons.prems(1,2) kept_ok_byte [OF Cons.prems(4)] b by fastforce
  then show ?case using b take_take_append [of "LINE_SIZE - 1" "hs_line st @ [c]" xs] by (intro exI [of _ st']) simp
qed auto

text \<open>A line and its CRLF.\<close>

lemma head_chunk_line:
  assumes "line_ok l" "hs_line st = []" "kept_ok sz st ws" "hs_seen st \<noteq> 4"
  shows "\<exists>st'. head_chunk sz st (l @ crlf @ ys) = head_chunk sz st' ys \<and> kept_ok sz st' (ws @ l @ crlf)
    \<and> hs_line st' = [] \<and> hs_seen st' = 2
    \<and> hs_content_length st' = scan_header (kept_line l) (hs_content_length st)"
proof -
  obtain st1 where 1: "head_chunk sz st (l @ crlf @ ys) = head_chunk sz st1 (crlf @ ys)" "kept_ok sz st1 (ws @ l)"
    "hs_line st1 = take (LINE_SIZE - 1) l" "hs_content_length st1 = hs_content_length st" "hs_seen st1 = 0"
    using head_chunk_plain [of l st sz ws "crlf @ ys"] assms by (auto simp: line_ok_def)
  define st2 where "st2 = head_byte sz st1 CR"
  have 2: "hs_seen st2 = 1" "hs_line st2 = kept_line l" "hs_content_length st2 = hs_content_length st"
    "kept_ok sz st2 (ws @ l @ [CR])"
    using 1 kept_ok_byte [OF 1(2), of CR] by (auto simp: st2_def head_byte_def kept_line_def Let_def)
  define st3 where "st3 = head_byte sz st2 LF"
  have 3: "hs_seen st3 = 2" "hs_line st3 = []" "kept_ok sz st3 (ws @ l @ crlf)"
    "hs_content_length st3 = scan_header (kept_line l) (hs_content_length st)"
    using 2 kept_ok_byte [OF 2(4), of LF] by (auto simp: st3_def head_byte_def Let_def crlf_def)
  have "head_chunk sz st1 (crlf @ ys) = head_chunk sz st3 ys"
    using 2(1) 3(1) by (simp add: crlf_def Let_def st2_def st3_def)
  then show ?thesis using 1 3 by (intro exI [of _ st3]) simp
qed

lemma head_chunk_lines:
  assumes "list_all line_ok ls" "hs_line st = []" "kept_ok sz st ws" "hs_seen st = (if ws = [] then 0 else 2)"
  shows "\<exists>st'. head_chunk sz st (concat (map (\<lambda>l. l @ crlf) ls) @ ys) = head_chunk sz st' ys
    \<and> kept_ok sz st' (ws @ concat (map (\<lambda>l. l @ crlf) ls)) \<and> hs_line st' = []
    \<and> hs_seen st' = (if ws = [] \<and> ls = [] then 0 else 2)
    \<and> hs_content_length st' = head_lengths ls (hs_content_length st)"
  using assms
proof (induction ls arbitrary: st ws)
  case Nil
  then show ?case by (intro exI [of _ st]) (simp add: head_lengths_def)
next
  case (Cons l ls)
  obtain st1 where 1: "head_chunk sz st (l @ crlf @ concat (map (\<lambda>l. l @ crlf) ls) @ ys)
      = head_chunk sz st1 (concat (map (\<lambda>l. l @ crlf) ls) @ ys)" "kept_ok sz st1 (ws @ l @ crlf)"
    "hs_line st1 = []" "hs_seen st1 = 2"
    "hs_content_length st1 = scan_header (kept_line l) (hs_content_length st)"
    using head_chunk_line [of l st sz ws] Cons.prems by (auto split: if_splits)
  have "list_all line_ok ls" "hs_seen st1 = (if ws @ l @ crlf = [] then 0 else 2)"
    using Cons.prems(1) 1(4) by (simp_all add: crlf_def)
  then obtain st2 where 2: "head_chunk sz st1 (concat (map (\<lambda>l. l @ crlf) ls) @ ys) = head_chunk sz st2 ys"
    "kept_ok sz st2 ((ws @ l @ crlf) @ concat (map (\<lambda>l. l @ crlf) ls))" "hs_line st2 = []"
    "hs_seen st2 = (if ws @ l @ crlf = [] \<and> ls = [] then 0 else 2)"
    "hs_content_length st2 = head_lengths ls (hs_content_length st1)"
    using Cons.IH [OF _ 1(3,2)] by blast
  have "hs_seen st2 = 2" using 2(4) by (simp add: crlf_def)
  then show ?case using 1 2 by (intro exI [of _ st2]) (simp add: head_lengths_def)
qed

lemma head_chunk_request:
  assumes "list_all line_ok ls" "ls \<noteq> []" "hs_line st = []" "kept_ok sz st []" "hs_seen st = 0"
  shows "\<exists>st'. head_chunk sz st (request_head ls @ body) = (st', Some body) \<and> kept_ok sz st' (request_head ls)
    \<and> hs_content_length st' = head_lengths ls (hs_content_length st)"
proof -
  let ?ls = "concat (map (\<lambda>l. l @ crlf) ls)"
  obtain st1 where 1: "head_chunk sz st (?ls @ crlf @ body) = head_chunk sz st1 (crlf @ body)"
    "kept_ok sz st1 ?ls" "hs_line st1 = []" "hs_seen st1 = 2" "hs_content_length st1 = head_lengths ls (hs_content_length st)"
    using head_chunk_lines [of ls st sz "[]" "crlf @ body"] assms by auto
  define st2 where "st2 = head_byte sz st1 CR"
  define st3 where "st3 = head_byte sz st2 LF"
  have 2: "hs_seen st2 = 3" "hs_line st2 = [CR]" "hs_content_length st2 = hs_content_length st1" "kept_ok sz st2 (?ls @ [CR])"
    using 1 kept_ok_byte [OF 1(2), of CR] by (auto simp: st2_def head_byte_def Let_def)
  have 3: "hs_seen st3 = 4" "hs_content_length st3 = hs_content_length st1" "kept_ok sz st3 (request_head ls)"
    using 2 kept_ok_byte [OF 2(4), of LF]
    by (auto simp: st3_def head_byte_def Let_def crlf_def request_head_def scan_header_def CONTENT_LENGTH_def ascii_def)
  have "head_chunk sz st1 (crlf @ body) = (st3, Some body)"
    using 2(1) 3(1) by (simp add: crlf_def Let_def st2_def st3_def)
  then show ?thesis using 1 3 by (simp add: request_head_def)
qed

section \<open>The announced length\<close>

lemma decimal_digits: "list_all is_digit (ascii (decimal n))"
proof (induction n rule: decimal.induct)
  case (1 n)
  have "is_digit (of_char (digit d))" if "d < 10" for d
  proof -
    have "d \<in> {0, 1, 2, 3, 4, 5, 6, 7, 8, 9}" using that by (auto simp: numeral_eq_Suc less_Suc_eq)
    then show ?thesis by (auto simp: is_digit_def digit_def)
  qed
  then show ?case using 1 by (subst decimal.simps) (auto simp: ascii_def)
qed

lemma number_decimal: "number (ascii (decimal n)) = n"
proof (induction n rule: decimal.induct)
  case (1 n)
  have d: "unat (of_char (digit d) :: u8) - 48 = d" if "d < 10" for d
  proof -
    have "d \<in> {0, 1, 2, 3, 4, 5, 6, 7, 8, 9}" using that by (auto simp: numeral_eq_Suc less_Suc_eq)
    then show ?thesis by (auto simp: digit_def)
  qed
  show ?case using 1 d by (subst decimal.simps) (auto simp: ascii_def number_def)
qed

lemma decimal_nonempty: "decimal n \<noteq> []"
  by (subst decimal.simps) auto

lemma length_decimal: "n < 10 ^ k \<Longrightarrow> 0 < k \<Longrightarrow> length (decimal n) \<le> k"
proof (induction k arbitrary: n)
  case (Suc k)
  show ?case
  proof (cases "n < 10")
    case True
    then show ?thesis by (subst decimal.simps) simp
  next
    case False
    then have "0 < k" using Suc.prems by (cases k) auto
    moreover have "n div 10 < 10 ^ k" using Suc.prems by (auto simp: less_mult_imp_div_less mult.commute)
    ultimately show ?thesis using Suc.IH [of "n div 10"] False by (subst decimal.simps) auto
  qed
qed simp

lemma takeWhile_digits: "list_all is_digit ds \<Longrightarrow> \<not> is_digit c \<Longrightarrow> takeWhile is_digit (ds @ c # ys) = ds"
  by (induction ds) auto

lemma strtoul_decimal:
  assumes "n < 2 ^ 32"
  shows "strtoul (SPACE # ascii (decimal n) @ [CR]) = of_nat n"
proof -
  obtain c ds where cds: "ascii (decimal n) = c # ds"
    using decimal_nonempty [of n] by (cases "ascii (decimal n)") (auto simp: ascii_def)
  then have c: "is_digit c" using decimal_digits [of n] by simp
  then have "\<not> is_space c" "c \<noteq> 45" "c \<noteq> 43" "is_space SPACE" by (auto simp: is_digit_def is_space_def word_le_nat_alt)
  moreover have "takeWhile is_digit (ascii (decimal n) @ [CR]) = ascii (decimal n)"
    by (rule takeWhile_digits [OF decimal_digits]) (simp add: is_digit_def)
  ultimately show ?thesis using number_decimal [of n] assms cds by (simp add: strtoul_def Let_def)
qed

definition length_header :: "nat \<Rightarrow> bytes" where
  "length_header n = ascii ''Content-Length: '' @ ascii (decimal n)"

lemma scan_length_header:
  assumes "n < 2 ^ 32"
  shows "scan_header (kept_line (length_header n)) m = of_nat n"
proof -
  have "length (decimal n) \<le> 10" using assms by (intro length_decimal) auto
  then have t: "kept_line (length_header n) = ascii ''Content-Length:'' @ SPACE # ascii (decimal n) @ [CR]"
    by (simp add: kept_line_def length_header_def ascii_def)
  have "map to_lower (ascii ''Content-Length:'') = CONTENT_LENGTH" "length CONTENT_LENGTH = length (ascii ''Content-Length:'')"
    by (simp_all add: CONTENT_LENGTH_def ascii_def to_lower_def)
  then show ?thesis using strtoul_decimal [OF assms] by (simp add: t scan_header_def)
qed

definition other_header :: "bytes \<Rightarrow> bool" where
  "other_header l \<longleftrightarrow> map to_lower (take (length CONTENT_LENGTH) l) \<noteq> CONTENT_LENGTH"

lemma scan_other_header:
  assumes "other_header l"
  shows "scan_header (kept_line l) m = m"
proof (cases "length CONTENT_LENGTH \<le> length l")
  case True
  then show ?thesis using assms by (simp add: kept_line_def scan_header_def other_header_def min_def CONTENT_LENGTH_def ascii_def)
next
  case False
  have "last CONTENT_LENGTH \<noteq> CR" by (simp add: CONTENT_LENGTH_def ascii_def)
  moreover have "last (map to_lower (l @ [CR])) = CR" by (simp add: to_lower_def)
  ultimately have "map to_lower (l @ [CR]) \<noteq> CONTENT_LENGTH" by metis
  moreover have "take (length CONTENT_LENGTH) (kept_line l) = l @ [CR]"
    using False by (simp add: kept_line_def CONTENT_LENGTH_def ascii_def)
  ultimately show ?thesis by (simp only: scan_header_def if_True not_False_eq_True)
qed

lemma head_lengths_other: "list_all other_header ls \<Longrightarrow> head_lengths ls n = n"
  by (induction ls arbitrary: n) (auto simp: head_lengths_def scan_other_header)

lemma head_lengths_append: "head_lengths (ls @ ls') n = head_lengths ls' (head_lengths ls n)"
  by (simp add: head_lengths_def)

lemma head_lengths_header:
  "n < 2 ^ 32 \<Longrightarrow> list_all other_header ls \<Longrightarrow> head_lengths (ls0 @ length_header n # ls) m = of_nat n"
proof -
  assume "n < 2 ^ 32" "list_all other_header ls"
  then have "head_lengths (length_header n # ls) k = of_nat n" for k
    using head_lengths_other [of ls "of_nat n"] by (simp add: head_lengths_def scan_length_header)
  then show ?thesis by (simp add: head_lengths_append)
qed

section \<open>The request line\<close>

definition token_ok :: "bytes \<Rightarrow> bool" where
  "token_ok t \<longleftrightarrow> list_all (\<lambda>c. c \<noteq> 0 \<and> c \<noteq> CR \<and> c \<noteq> LF \<and> c \<noteq> SPACE) t"

definition request_ok :: "bytes \<Rightarrow> bytes \<Rightarrow> bytes \<Rightarrow> bool" where
  "request_ok meth path query \<longleftrightarrow> token_ok meth \<and> meth \<noteq> [] \<and> token_ok path \<and> token_ok query
     \<and> path \<noteq> [] \<and> hd path = 47 \<and> 63 \<notin> set path"

lemma takeWhile_stop: "list_all P xs \<Longrightarrow> \<not> P y \<Longrightarrow> takeWhile P (xs @ y # ys) = xs"
  by (induction xs) auto

lemma parse_request_line_request:
  assumes "request_ok meth path query"
  shows "parse_request_line (request_line meth path query @ CR # ys) truncated = Inr (meth, path, query)"
proof -
  let ?target = "path @ (if query = [] then [] else 63 # query)" and ?v = "ascii '' HTTP/1.1''"
  let ?line = "request_line meth path query"
  have v: "?v = SPACE # ascii ''HTTP/1.1''" "list_all (\<lambda>c. c \<noteq> 0 \<and> c \<noteq> CR \<and> c \<noteq> LF) ?v" by (simp_all add: ascii_def)
  have t: "list_all (\<lambda>c. c \<noteq> 0 \<and> c \<noteq> CR \<and> c \<noteq> LF \<and> c \<noteq> SPACE) ?target"
    using assms by (simp add: request_ok_def token_ok_def)
  have plain: "list_all (\<lambda>c. c \<noteq> 0 \<and> c \<noteq> CR \<and> c \<noteq> LF) ?line"
    using assms v(2) by (auto simp: request_line_def request_ok_def token_ok_def list_all_iff)
  then have line: "takeWhile (\<lambda>c. c \<noteq> CR \<and> c \<noteq> LF) (?line @ CR # ys) = ?line"
    by (intro takeWhile_stop) (auto simp: list_all_iff)
  have str: "c_string ?line = ?line" using plain by (simp add: c_string_def list_all_iff)
  have line_eq: "?line = meth @ SPACE # ?target @ ?v" by (simp add: request_line_def)
  have meth: "takeWhile (\<lambda>c. c \<noteq> SPACE) ?line = meth"
    unfolding line_eq using assms by (intro takeWhile_stop) (auto simp: request_ok_def token_ok_def list_all_iff)
  have target: "takeWhile (\<lambda>c. c \<noteq> SPACE) (?target @ ?v) = ?target"
    unfolding v(1) by (intro takeWhile_stop) (use t in \<open>auto simp: list_all_iff\<close>)
  have path: "takeWhile (\<lambda>c. c \<noteq> 63) ?target = path"
    using assms by (cases "query = []") (auto simp: request_ok_def list_all_iff intro!: takeWhile_stop)
  have rest: "drop (length meth + 1) ?line = ?target @ ?v" by (simp add: line_eq)
  have "length meth \<noteq> length ?line" by (simp add: line_eq)
  moreover have "hd (?target @ ?v) = 47" "?target @ ?v \<noteq> []" "meth \<noteq> []" using assms by (auto simp: request_ok_def)
  moreover have "drop (length path + 1) ?target = query" by simp
  ultimately show ?thesis
    unfolding parse_request_line_def Let_def line str meth rest target path by simp
qed

section \<open>The body as a stream\<close>

text \<open>The bytes that have arrived or will, and those of them that belong to the body.\<close>

definition conn_stream :: "http_conn \<Rightarrow> bytes" where
  "conn_stream conn = drop (unat (cn_pending_pos conn)) (cn_pending conn) @ concat (cn_socket conn)"

definition body_stream :: "http_conn \<Rightarrow> bytes" where
  "body_stream conn = take (unat (cn_body_left conn)) (conn_stream conn)"

definition conn_ok :: "http_conn \<Rightarrow> bool" where
  "conn_ok conn \<longleftrightarrow> length (cn_pending conn) < CHUNK_SIZE \<and> unat (cn_pending_pos conn) \<le> length (cn_pending conn)
     \<and> flowing (cn_socket conn)"

lemma unat_sub_of_nat: "n \<le> unat x \<Longrightarrow> unat (x - of_nat n) = unat (x :: 'a::len word) - n"
proof -
  assume n: "n \<le> unat x"
  then have "n < 2 ^ LENGTH('a)" using unsigned_less [of x] by (rule le_less_trans)
  then have "unat (of_nat n :: 'a word) = n" by (simp add: unat_of_nat)
  then show ?thesis using n by (simp add: unat_sub word_le_nat_alt)
qed

text \<open>One turn of the loop takes the next bytes of the stream.\<close>

lemma read_body_step:
  assumes "conn_ok conn" "length out < sz" "0 < cn_body_left conn" "conn_stream conn \<noteq> []"
  shows "\<exists>got conn'. read_body_loop conn sz out = read_body_loop conn' sz (out @ got) \<and> got \<noteq> [] \<and> conn_ok conn'
    \<and> conn_stream conn = got @ conn_stream conn' \<and> length got \<le> sz - length out
    \<and> unat (cn_body_left conn) = length got + unat (cn_body_left conn')"
proof (cases "unat (cn_pending_pos conn) < length (cn_pending conn)")
  case True
  let ?pos = "unat (cn_pending_pos conn)"
  define want where "want = min (sz - length out) (unat (cn_body_left conn))"
  define got where "got = slice ?pos want (cn_pending conn)"
  have want: "0 < want" "want \<le> sz - length out" "want \<le> unat (cn_body_left conn)"
    using assms(2,3) by (auto simp: want_def word_less_nat_alt)
  have len: "length got \<le> want" "?pos + length got \<le> length (cn_pending conn)" "got \<noteq> []"
    using True want by (auto simp: got_def slice_def)
  have pos: "unat (cn_pending_pos conn + of_nat (length got)) = ?pos + length got"
    using len(2) assms(1) by (intro unat_add_of_nat) (simp add: conn_ok_def)
  have left: "unat (cn_body_left conn - of_nat (length got)) = unat (cn_body_left conn) - length got"
    using len(1) want by (intro unat_sub_of_nat) simp
  define conn' where "conn' = conn\<lparr>cn_pending_pos := cn_pending_pos conn + of_nat (length got),
                     cn_body_left := cn_body_left conn - of_nat (length got)\<rparr>"
  have "drop ?pos (cn_pending conn) = got @ drop (?pos + length got) (cn_pending conn)"
    by (simp add: got_def slice_def min_def) (metis append_take_drop_id drop_drop add.commute)
  then have "conn_stream conn = got @ conn_stream conn'" by (simp add: conn_stream_def conn'_def pos)
  moreover have "read_body_loop conn sz out = read_body_loop conn' sz (out @ got)"
    using assms(2,3) True by (subst read_body_loop.simps) (simp add: Let_def want_def [symmetric] got_def [symmetric] conn'_def del: length_slice)
  moreover have "conn_ok conn'" using assms(1) len(2) by (simp add: conn_ok_def conn'_def pos)
  moreover have "unat (cn_body_left conn) = length got + unat (cn_body_left conn')"
    using left len(1) want by (simp add: conn'_def)
  ultimately show ?thesis using len want by (intro exI [of _ got] exI [of _ conn']) simp
next
  case False
  define want where "want = min (sz - length out) (unat (cn_body_left conn))"
  have want: "0 < want" "want \<le> sz - length out" "want \<le> unat (cn_body_left conn)"
    using assms(2,3) by (auto simp: want_def word_less_nat_alt)
  obtain got socket where recv: "lwip_recv want (cn_socket conn) = (got, socket)" by fastforce
  have "flowing (cn_socket conn)" using assms(1) by (simp add: conn_ok_def)
  note flow = lwip_recv_flowing [OF recv this want(1)]
  have str: "conn_stream conn = concat (cn_socket conn)" using False by (simp add: conn_stream_def)
  then have "got \<noteq> []" using flow(3) assms(4) by auto
  have left: "unat (cn_body_left conn - of_nat (length got)) = unat (cn_body_left conn) - length got"
    using flow(4) want by (intro unat_sub_of_nat) simp
  define conn' where "conn' = conn\<lparr>cn_socket := socket, cn_body_left := cn_body_left conn - of_nat (length got)\<rparr>"
  have "read_body_loop conn sz out = read_body_loop conn' sz (out @ got)"
    using assms(2,3) False recv \<open>got \<noteq> []\<close>
    by (subst read_body_loop.simps) (simp add: Let_def want_def [symmetric] conn'_def)
  moreover have "conn_stream conn = got @ conn_stream conn'"
    using flow(1) False by (simp add: str) (simp add: conn_stream_def conn'_def)
  moreover have "conn_ok conn'" using assms(1) flow(2) by (simp add: conn_ok_def conn'_def)
  moreover have "unat (cn_body_left conn) = length got + unat (cn_body_left conn')"
    using left flow(4) want by (simp add: conn'_def)
  ultimately show ?thesis using flow(4) want \<open>got \<noteq> []\<close> by (intro exI [of _ got] exI [of _ conn']) simp
qed

lemma read_body_loop_stream:
  assumes "conn_ok conn" "min (sz - length out) (unat (cn_body_left conn)) \<le> length (conn_stream conn)"
  shows "\<exists>conn'. read_body_loop conn sz out
      = (int (length (out @ take (sz - length out) (body_stream conn))), out @ take (sz - length out) (body_stream conn), conn')
    \<and> conn_ok conn' \<and> body_stream conn' = drop (sz - length out) (body_stream conn)
    \<and> conn_stream conn' = drop (min (sz - length out) (unat (cn_body_left conn))) (conn_stream conn)"
  using assms
proof (induction "sz - length out" arbitrary: conn out rule: less_induct)
  case less
  show ?case
  proof (cases "length out < sz \<and> 0 < cn_body_left conn")
    case False
    then have "sz - length out = 0 \<or> unat (cn_body_left conn) = 0" by (auto simp: word_gt_0 unat_eq_0)
    then have "take (sz - length out) (body_stream conn) = []"
      "drop (sz - length out) (body_stream conn) = body_stream conn" "min (sz - length out) (unat (cn_body_left conn)) = 0"
      by (auto simp: body_stream_def)
    moreover have "read_body_loop conn sz out = (int (length out), out, conn)"
      using False by (subst read_body_loop.simps) simp
    ultimately show ?thesis using less.prems(1) by auto
  next
    case True
    then have "conn_stream conn \<noteq> []" using less.prems(2) by (auto simp: word_less_nat_alt min_def split: if_splits)
    then obtain got conn' where step: "read_body_loop conn sz out = read_body_loop conn' sz (out @ got)" "got \<noteq> []"
      "conn_ok conn'" "conn_stream conn = got @ conn_stream conn'" "length got \<le> sz - length out"
      "unat (cn_body_left conn) = length got + unat (cn_body_left conn')"
      using read_body_step [OF less.prems(1)] True by blast
    have b: "body_stream conn = got @ body_stream conn'" using step(4,6) by (simp add: body_stream_def)
    have "sz - length (out @ got) < sz - length out" using step(2,5) True by (cases got) auto
    moreover have "min (sz - length (out @ got)) (unat (cn_body_left conn')) \<le> length (conn_stream conn')"
      using less.prems(2) step(4,6) by simp
    ultimately obtain conn'' where "read_body_loop conn' sz (out @ got)
      = (int (length ((out @ got) @ take (sz - length (out @ got)) (body_stream conn'))),
         (out @ got) @ take (sz - length (out @ got)) (body_stream conn'), conn'')" "conn_ok conn''"
      "body_stream conn'' = drop (sz - length (out @ got)) (body_stream conn')"
      "conn_stream conn'' = drop (min (sz - length (out @ got)) (unat (cn_body_left conn'))) (conn_stream conn')"
      using less.hyps [of "out @ got" conn'] step(3) by blast
    moreover have "min (sz - length (out @ got)) (unat (cn_body_left conn'))
        = min (sz - length out) (unat (cn_body_left conn)) - length got"
      using step(6) by (simp add: min_def) linarith
    ultimately show ?thesis using step b by (intro exI [of _ conn'']) simp
  qed
qed

section \<open>A request is read back\<close>

lemma request_line_ok: "request_ok meth path query \<Longrightarrow> line_ok (request_line meth path query)"
proof -
  assume "request_ok meth path query"
  moreover have "CR \<notin> set (ascii '' HTTP/1.1'')" "LF \<notin> set (ascii '' HTTP/1.1'')" by (simp_all add: ascii_def)
  ultimately show ?thesis by (auto simp: line_ok_def request_line_def request_ok_def token_ok_def list_all_iff)
qed

lemma request_head_Cons: "request_head (l # ls) = l @ CR # LF # request_head ls"
  by (simp add: request_head_def crlf_def)

text \<open>The head of a request is read whole, whatever the cut: the request line parses, the last Content-Length counts,
  and the connection stands at the start of the body.\<close>

lemma read_request:
  assumes req: "request_ok meth path query" and lines: "list_all line_ok ls"
    and short: "length (request_line meth path query) < REQUEST_BUF_SIZE - 1"
    and limit: "length (request_head (request_line meth path query # ls)) \<le> HEAD_LIMIT"
    and socket: "flowing socket" "concat socket = request_head (request_line meth path query # ls) @ body"
  shows "\<exists>conn kept truncated. read_head (conn_init socket) REQUEST_BUF_SIZE = (HEAD_OK, conn, kept, truncated)
    \<and> parse_request_line kept truncated = Inr (meth, path, query)
    \<and> rq_content_length conn = head_lengths (request_line meth path query # ls) 0
    \<and> conn_ok conn \<and> conn_stream conn = body"
proof -
  let ?l = "request_line meth path query"
  have "kept_ok REQUEST_BUF_SIZE head_init []" by (simp add: kept_ok_def head_init_def)
  moreover have "list_all line_ok (?l # ls)" using request_line_ok [OF req] lines by simp
  ultimately obtain st where st: "head_chunk REQUEST_BUF_SIZE head_init (request_head (?l # ls) @ body) = (st, Some body)"
    "kept_ok REQUEST_BUF_SIZE st (request_head (?l # ls))" "hs_content_length st = head_lengths (?l # ls) 0"
    using head_chunk_request [of "?l # ls" head_init REQUEST_BUF_SIZE body] by (auto simp: head_init_def)
  obtain pending socket' where
    loop: "read_head_loop REQUEST_BUF_SIZE head_init 0 socket = (HEAD_OK, st, pending, socket')"
    "pending @ concat socket' = body" "length pending < CHUNK_SIZE" "flowing socket'"
    using read_head_loop_ok [of REQUEST_BUF_SIZE head_init socket st body 0] st(1) socket limit by auto
  have "head_init\<lparr>hs_content_length := rq_content_length (conn_init socket)\<rparr> = head_init"
    by (simp add: head_init_def conn_init_def)
  then have rh: "read_head (conn_init socket) REQUEST_BUF_SIZE =
      (HEAD_OK, (conn_init socket)\<lparr>rq_content_length := hs_content_length st, cn_socket := socket', cn_pending := pending\<rparr>,
       hs_kept st, hs_truncated st)"
    using loop(1) by (simp add: read_head_def conn_init_def)
  have "hs_kept st = take (REQUEST_BUF_SIZE - 1) (?l @ CR # LF # request_head ls)"
    using st(2) by (simp add: kept_ok_def request_head_Cons)
  also have "\<dots> = ?l @ CR # take (REQUEST_BUF_SIZE - 2 - length ?l) (LF # request_head ls)"
    using short by (simp add: take_Cons' del: take_Suc_Cons)
  finally have "parse_request_line (hs_kept st) (hs_truncated st) = Inr (meth, path, query)"
    using parse_request_line_request [OF req] by simp
  then show ?thesis using rh loop st(3) by (simp add: conn_ok_def conn_stream_def conn_init_def)
qed

section \<open>Theorems\<close>

text \<open>However TCP cuts it into pieces, a request \<open>METHOD /path?query HTTP/1.1\<close> with a line of fewer than 255
  bytes, a head of at most 2048 bytes and a \<open>Content-Length\<close> header (written in decimal, the last of its kind) is read
  back: the method, the path, the query and the length are the client's, and what follows on the connection is the body.\<close>

theorem http_request_roundtrip:
  assumes "request_ok meth path query" "n < 2 ^ 32"
    and "list_all line_ok (ls @ length_header n # ls')" "list_all other_header ls'"
    and "length (request_line meth path query) < REQUEST_BUF_SIZE - 1"
    and "length (request_head (request_line meth path query # ls @ length_header n # ls')) \<le> HEAD_LIMIT"
    and "[] \<notin> set socket"
    and "concat socket = request_head (request_line meth path query # ls @ length_header n # ls') @ body"
  shows "\<exists>conn kept truncated. read_head (conn_init socket) REQUEST_BUF_SIZE = (HEAD_OK, conn, kept, truncated)
    \<and> parse_request_line kept truncated = Inr (meth, path, query)
    \<and> rq_content_length conn = of_nat n \<and> conn_stream conn = body"
proof -
  have "head_lengths (request_line meth path query # ls @ length_header n # ls') 0 = of_nat n"
    using head_lengths_header [OF assms(2,4), of "request_line meth path query # ls" 0] by simp
  then show ?thesis
    using read_request [OF assms(1,3,5,6) _ assms(8)] assms(7) by (auto simp: flowing_def)
qed

theorem http_request_roundtrip_witness:
  "\<exists>conn kept truncated. read_head (conn_init [ascii ''PO'', ascii ''ST /set?a=1 HTTP/1.1'' @ crlf, ascii ''Content-Length: 3'' @ [CR], LF # crlf @ [7], [8, 9]])
       REQUEST_BUF_SIZE = (HEAD_OK, conn, kept, truncated)
    \<and> parse_request_line kept truncated = Inr (ascii ''POST'', ascii ''/set'', ascii ''a=1'')
    \<and> rq_content_length conn = of_nat 3 \<and> conn_stream conn = [7, 8, 9]"
proof (rule http_request_roundtrip [where ls = "[]" and ls' = "[]"])
  show "request_ok (ascii ''POST'') (ascii ''/set'') (ascii ''a=1'')" by code_simp
  show "list_all line_ok ([] @ length_header 3 # [])" by code_simp
  show "length (request_line (ascii ''POST'') (ascii ''/set'') (ascii ''a=1'')) < REQUEST_BUF_SIZE - 1" by code_simp
  show "length (request_head (request_line (ascii ''POST'') (ascii ''/set'') (ascii ''a=1'') # [] @ length_header 3 # [])) \<le> HEAD_LIMIT"
    by code_simp
  show "concat [ascii ''PO'', ascii ''ST /set?a=1 HTTP/1.1'' @ crlf, ascii ''Content-Length: 3'' @ [CR], LF # crlf @ [7], [8, 9]]
      = request_head (request_line (ascii ''POST'') (ascii ''/set'') (ascii ''a=1'') # [] @ length_header 3 # []) @ [7, 8, 9]"
    by code_simp
qed (simp_all add: ascii_def crlf_def)

text \<open>\<open>http_request_read_body\<close> hands out the body in order and nothing else: as long as the bytes arrive, a call
  for \<open>sz\<close> bytes returns the next \<open>sz\<close> bytes of the body or what is left of it, whatever the pieces they come in, and
  the next call goes on where it stopped. Bytes after the announced length are never touched.\<close>

theorem http_request_body_stream:
  assumes "conn_ok conn" "min sz (unat (cn_body_left conn)) \<le> length (conn_stream conn)"
  shows "\<exists>conn'. http_request_read_body conn sz
      = (int (min sz (unat (cn_body_left conn))), take sz (body_stream conn), conn')
    \<and> conn_ok conn' \<and> body_stream conn' = drop sz (body_stream conn)
    \<and> conn_stream conn' = drop (min sz (unat (cn_body_left conn))) (conn_stream conn)"
proof -
  have "length (take sz (body_stream conn)) = min sz (unat (cn_body_left conn))"
    using assms(2) by (auto simp: body_stream_def)
  then show ?thesis using read_body_loop_stream [OF assms(1), of sz "[]"] assms(2) by (simp add: http_request_read_body_def)
qed

theorem http_request_body_stream_witness:
  "\<exists>conn'. http_request_read_body
       ((conn_init [[3, 4], [5, 6, 7]])\<lparr>cn_body_left := 5, cn_pending := [1, 2]\<rparr>) 4 = (4, [1, 2, 3, 4], conn')
     \<and> body_stream conn' = [5]"
  using http_request_body_stream [of "(conn_init [[3, 4], [5, 6, 7]])\<lparr>cn_body_left := 5, cn_pending := [1, 2]\<rparr>" 4]
  by (auto simp: conn_ok_def conn_stream_def body_stream_def conn_init_def flowing_def)

end
