(* ===== verification/Http_Server.thy ===== *)
theory Http_Server
  imports Http_Request
begin

text \<open>
  One connection from its first byte to its close (\<open>serve\<close> of \<open>http_server.c\<close>), the routing and the ready-made
  handlers of \<open>http_default_handler.c\<close>, and the protocol by which \<open>http_server_start\<close> and \<open>http_server_stop\<close> share
  the server's memory with its workers. The first theorem is end to end: a request on the wire leads to the response of
  the route it names. The last one is the lifetime invariant.
\<close>

section \<open>One connection\<close>

type_synonym http_handler = "http_conn \<Rightarrow> http_response \<Rightarrow> http_conn \<times> http_response"

text \<open>The handler is the server's configuration. The result is whether it was called, with which request, and the response.\<close>

definition serve :: "http_env \<Rightarrow> http_handler \<Rightarrow> bytes list \<Rightarrow> http_conn option \<times> http_response" where
  "serve e handler socket =
     (case read_head (conn_init socket) REQUEST_BUF_SIZE of
        (HEAD_LOST, conn, kept, truncated) \<Rightarrow> (None, response_init)
      | (HEAD_TOO_LARGE, conn, kept, truncated) \<Rightarrow> (None, reject e response_init 431)
      | (HEAD_OK, conn, kept, truncated) \<Rightarrow>
          (case parse_request_line kept truncated of
             Inl status \<Rightarrow> (None, reject e response_init status)
           | Inr (meth, path, query) \<Rightarrow>
               let conn = conn\<lparr>rq_method := meth, rq_path := path, rq_query := query,
                               cn_body_left := rq_content_length conn\<rparr>;
                   (conn', response) = handler conn response_init
               in (Some conn, reject e response 500)))"

section \<open>Default handlers\<close>

record http_route =
  rt_method  :: bytes
  rt_path    :: bytes
  rt_handler :: http_handler

definition http_default_status :: "http_env \<Rightarrow> int \<Rightarrow> http_handler" where
  "http_default_status e status conn r =
     (let r = snd (http_response_set_status r status);
          r = snd (http_response_set_content_type r (Some ''text/plain''))
      in (conn, snd (http_respond_string e r (Some (reason status)))))"

definition http_default_static_page :: "http_env \<Rightarrow> string \<Rightarrow> http_handler" where
  "http_default_static_page e page conn r =
     (let r = snd (http_response_set_status r 200);
          r = snd (http_response_set_content_type r (Some ''text/html''))
      in (conn, snd (http_respond_string e r (Some page))))"

definition http_default_404 :: "http_env \<Rightarrow> http_handler" where
  "http_default_404 e = http_default_status e 404"

text \<open>The routes, whose table ends with an entry without a handler.\<close>

fun route_loop :: "http_env \<Rightarrow> http_route list \<Rightarrow> bool \<Rightarrow> http_handler" where
  "route_loop e [] path_matched conn r = http_default_status e (if path_matched then 405 else 404) conn r"
| "route_loop e (route # routes) path_matched conn r =
     (if rt_path route \<noteq> rq_path conn then route_loop e routes path_matched conn r
      else if rt_method route = rq_method conn then rt_handler route conn r
      else route_loop e routes True conn r)"

definition http_default_handler :: "http_env \<Rightarrow> http_route list \<Rightarrow> http_handler" where
  "http_default_handler e routes = route_loop e routes False"

section \<open>Starting and stopping\<close>

abbreviation MIN_WORKERS :: nat where "MIN_WORKERS \<equiv> 2"

text \<open>\<open>s_server\<close> (whether the server is allocated), its \<open>stopping\<close> flag and \<open>started\<close>, the tokens in its semaphore, and
  the workers alive.\<close>

record http_ctl =
  hc_server   :: bool
  hc_stopping :: bool
  hc_started  :: u8
  hc_exited   :: nat
  hc_alive    :: nat

definition ctl_none :: http_ctl where
  "ctl_none = \<lparr>hc_server = False, hc_stopping = False, hc_started = 0, hc_exited = 0, hc_alive = 0\<rparr>"

text \<open>A worker sees the flag, gives the semaphore and deletes itself.\<close>

definition worker_exit :: "http_ctl \<Rightarrow> http_ctl" where
  "worker_exit c = (if 0 < hc_alive c \<and> hc_stopping c then c\<lparr>hc_alive := hc_alive c - 1, hc_exited := hc_exited c + 1\<rparr> else c)"

definition destroy_server :: "http_ctl \<Rightarrow> http_ctl" where
  "destroy_server c = c\<lparr>hc_server := False, hc_stopping := False, hc_started := 0, hc_exited := 0\<rparr>"

text \<open>The loop of \<open>http_server_stop\<close>. During the wait that starts with \<open>n\<close> workers to collect, \<open>exits n\<close> of them
  get to their exit; a wait that finds no token times out.\<close>

lemma started_worker_exit [simp]: "hc_started ((worker_exit ^^ n) c) = hc_started c"
  by (induction n) (simp_all add: worker_exit_def)

function stop_loop :: "(nat \<Rightarrow> nat) \<Rightarrow> http_ctl \<Rightarrow> bool \<times> http_ctl" where
  "stop_loop exits c =
     (if hc_started c = 0 then (True, c)
      else
        let c1 = (worker_exit ^^ exits (unat (hc_started c))) c in
        if hc_exited c1 = 0 then (False, c1)
        else stop_loop exits (c1\<lparr>hc_exited := hc_exited c1 - 1, hc_started := hc_started c1 - 1\<rparr>))"
  by pat_completeness auto

termination stop_loop
  by (relation "measure (\<lambda>(exits, c). unat (hc_started c))") (auto simp: unat_minus_one unat_gt_0)

declare stop_loop.simps [simp del]

definition http_server_stop :: "(nat \<Rightarrow> nat) \<Rightarrow> http_ctl \<Rightarrow> http_ctl" where
  "http_server_stop exits c =
     (if \<not> hc_server c then c
      else
        let (all, c) = stop_loop exits (c\<lparr>hc_stopping := True\<rparr>)
        in if all then destroy_server c else c)"

text \<open>The loop of \<open>http_server_start\<close> over the workers left to create, of which \<open>tasks\<close> can be created.\<close>

fun start_workers :: "(nat \<Rightarrow> nat) \<Rightarrow> nat \<Rightarrow> nat \<Rightarrow> http_ctl \<Rightarrow> bool \<times> http_ctl" where
  "start_workers exits tasks 0 c = (True, c)"
| "start_workers exits tasks (Suc n) c =
     (if tasks = 0 then (False, http_server_stop exits c)
      else start_workers exits (tasks - 1) n (c\<lparr>hc_alive := hc_alive c + 1, hc_started := hc_started c + 1\<rparr>))"

text \<open>\<open>handler\<close>: the configuration names one; \<open>opened\<close>: the memory, the semaphore and the socket could be had, otherwise
  what could be had is given back.\<close>

definition http_server_start :: "(nat \<Rightarrow> nat) \<Rightarrow> bool \<Rightarrow> u8 \<Rightarrow> bool \<Rightarrow> nat \<Rightarrow> http_ctl \<Rightarrow> bool \<times> http_ctl" where
  "http_server_start exits handler workers opened tasks c =
     (if \<not> handler \<or> unat workers < MIN_WORKERS \<or> hc_server c \<or> \<not> opened then (False, c)
      else start_workers exits tasks (unat workers)
        (c\<lparr>hc_server := True, hc_stopping := False, hc_started := 0, hc_exited := 0\<rparr>))"

inductive http_ctl_step :: "http_ctl \<Rightarrow> http_ctl \<Rightarrow> bool" where
  ctl_server_start: "http_ctl_step c (snd (http_server_start exits handler workers opened tasks c))"
| ctl_server_stop: "http_ctl_step c (http_server_stop exits c)"
| ctl_worker_exit: "http_ctl_step c (worker_exit c)"

section \<open>Lemmas on the lifetime\<close>

text \<open>While the server is allocated, every worker that was created and not collected is alive or has left a token.\<close>

definition workers_ok :: "http_ctl \<Rightarrow> bool" where
  "workers_ok c \<longleftrightarrow>
     (if hc_server c then unat (hc_started c) = hc_exited c + hc_alive c \<and> (0 < hc_exited c \<longrightarrow> hc_stopping c)
      else hc_alive c = 0)"

lemma worker_exit_ok: "workers_ok c \<Longrightarrow> workers_ok (worker_exit c)"
  by (auto simp: workers_ok_def worker_exit_def)

lemma worker_exits_ok: "workers_ok c \<Longrightarrow> workers_ok ((worker_exit ^^ n) c)"
  by (induction n) (auto intro: worker_exit_ok)

lemma worker_exits_fields [simp]:
  "hc_server ((worker_exit ^^ n) c) = hc_server c" "hc_stopping ((worker_exit ^^ n) c) = hc_stopping c"
  by (induction n) (simp_all add: worker_exit_def)

lemma worker_exits_count:
  "hc_stopping c \<Longrightarrow> hc_exited ((worker_exit ^^ n) c) = hc_exited c + min n (hc_alive c)
     \<and> hc_alive ((worker_exit ^^ n) c) = hc_alive c - n"
proof (induction n)
  case (Suc n)
  then show ?case by (auto simp: worker_exit_def [of "(worker_exit ^^ n) c"])
qed simp

lemma stop_loop_ok:
  assumes "workers_ok c" "hc_server c" "hc_stopping c" "stop_loop exits c = (all, c')"
  shows "workers_ok c' \<and> hc_server c' \<and> hc_stopping c' \<and> (all \<longrightarrow> hc_alive c' = 0)
    \<and> ((\<forall>n. 0 < exits n) \<longrightarrow> all)"
  using assms
proof (induction exits c rule: stop_loop.induct)
  case (1 exits c)
  define c1 where "c1 = (worker_exit ^^ exits (unat (hc_started c))) c"
  have c1: "workers_ok c1" "hc_server c1" "hc_stopping c1" "hc_started c1 = hc_started c"
    using "1.prems" by (simp_all add: c1_def worker_exits_ok)
  show ?case
  proof (cases "hc_started c = 0")
    case True
    then have "all" "c' = c" using "1.prems"(4) by (simp_all add: stop_loop.simps)
    then show ?thesis using "1.prems" True by (simp add: workers_ok_def)
  next
    case False
    then have pos: "0 < unat (hc_started c)" by (simp add: unat_gt_0)
    show ?thesis
    proof (cases "hc_exited c1 = 0")
      case True
      then have "\<not> all" "c' = c1" using "1.prems"(4) False by (simp_all add: stop_loop.simps [of exits c] c1_def)
      moreover have "exits (unat (hc_started c)) = 0"
        using True worker_exits_count [OF "1.prems"(3), of "exits (unat (hc_started c))"] "1.prems"(1,2) pos
        by (auto simp: c1_def workers_ok_def)
      ultimately show ?thesis using c1 by (metis less_irrefl)
    next
      case exited: False
      let ?c2 = "c1\<lparr>hc_exited := hc_exited c1 - 1, hc_started := hc_started c1 - 1\<rparr>"
      have "workers_ok ?c2" using c1 exited False by (auto simp: workers_ok_def unat_minus_one)
      moreover have "stop_loop exits ?c2 = (all, c')"
        using "1.prems"(4) False exited by (simp add: stop_loop.simps [of exits c] c1_def Let_def)
      ultimately show ?thesis using "1.IH" [OF False c1_def exited] c1 by simp
    qed
  qed
qed

lemma http_server_stop_ok: "workers_ok c \<Longrightarrow> workers_ok (http_server_stop exits c)"
proof (cases "hc_server c")
  case True
  assume ok: "workers_ok c"
  obtain all c' where loop: "stop_loop exits (c\<lparr>hc_stopping := True\<rparr>) = (all, c')" by fastforce
  have "workers_ok (c\<lparr>hc_stopping := True\<rparr>)" using ok by (simp add: workers_ok_def)
  then have "workers_ok c' \<and> hc_server c' \<and> (all \<longrightarrow> hc_alive c' = 0)" using stop_loop_ok [OF _ _ _ loop] True by simp
  then show ?thesis using loop True by (auto simp: http_server_stop_def destroy_server_def workers_ok_def)
qed (simp add: http_server_stop_def)

lemma start_workers_ok:
  assumes "workers_ok c" "hc_server c" "\<not> hc_stopping c" "unat (hc_started c) + n < 256"
  shows "workers_ok (snd (start_workers exits tasks n c))"
  using assms
proof (induction exits tasks n c rule: start_workers.induct)
  case (2 exits tasks n c)
  have "unat (hc_started c + 1) = unat (hc_started c) + 1"
    using unat_add_of_nat [of "hc_started c" 1] "2.prems"(4) by simp
  then have "workers_ok (c\<lparr>hc_alive := hc_alive c + 1, hc_started := hc_started c + 1\<rparr>)"
    using "2.prems" by (simp add: workers_ok_def)
  then show ?case
    using 2 \<open>unat (hc_started c + 1) = _\<close> by (cases "tasks = 0") (simp_all add: http_server_stop_ok)
qed simp

lemma http_ctl_step_ok: "http_ctl_step c c' \<Longrightarrow> workers_ok c \<Longrightarrow> workers_ok c'"
proof (induction rule: http_ctl_step.induct)
  case (ctl_server_start c exits handler workers opened tasks)
  have "unat workers < 256" using unsigned_less [of workers] by simp
  moreover have "workers_ok (c\<lparr>hc_server := True, hc_stopping := False, hc_started := 0, hc_exited := 0\<rparr>)" if "\<not> hc_server c"
    using ctl_server_start that by (simp add: workers_ok_def)
  ultimately show ?case using ctl_server_start by (auto simp: http_server_start_def intro!: start_workers_ok)
qed (simp_all add: http_server_stop_ok worker_exit_ok)

lemma http_ctl_reachable_ok: "http_ctl_step\<^sup>*\<^sup>* ctl_none c \<Longrightarrow> workers_ok c"
proof (induction rule: rtranclp_induct)
  case base
  then show ?case by (simp add: workers_ok_def ctl_none_def)
qed (rule http_ctl_step_ok)

section \<open>Lemmas on serving\<close>

text \<open>Which handler the routing table gives a request.\<close>

definition route_for :: "http_env \<Rightarrow> http_route list \<Rightarrow> bytes \<Rightarrow> bytes \<Rightarrow> http_handler" where
  "route_for e routes meth path =
     (case find (\<lambda>rt. rt_path rt = path \<and> rt_method rt = meth) routes of
        Some rt \<Rightarrow> rt_handler rt
      | None \<Rightarrow> http_default_status e (if \<exists>rt \<in> set routes. rt_path rt = path then 405 else 404))"

lemma route_loop_route_for:
  "route_loop e routes matched conn r =
     (case find (\<lambda>rt. rt_path rt = rq_path conn \<and> rt_method rt = rq_method conn) routes of
        Some rt \<Rightarrow> rt_handler rt conn r
      | None \<Rightarrow> http_default_status e
          (if matched \<or> (\<exists>rt \<in> set routes. rt_path rt = rq_path conn) then 405 else 404) conn r)"
  by (induction routes arbitrary: matched) (auto split: option.splits)

lemma http_default_handler_route:
  "http_default_handler e routes conn r = route_for e routes (rq_method conn) (rq_path conn) conn r"
  by (auto simp: http_default_handler_def route_loop_route_for route_for_def split: option.splits)

text \<open>A connection that takes everything, and a server that is not being stopped.\<close>

definition good_env :: "http_env \<Rightarrow> bool" where
  "good_env e \<longleftrightarrow> env_stop e = None \<and> (\<forall>t. env_send e t = Some (2 ^ 32))"

definition status_page :: "int \<Rightarrow> bytes" where
  "status_page status = ascii
     (''HTTP/1.1 '' @ print_int status @ '' '' @ reason status @ CRLF @ ''Content-Type: text/plain'' @ CRLF
      @ ''Content-Length: '' @ decimal (length (reason status)) @ CRLF @ ''Connection: close'' @ CRLF @ CRLF @ reason status)"

lemma send_raw_good:
  assumes "good_env e" "\<not> hr_failed r" "length d \<le> 2 ^ 32"
  shows "\<exists>t. send_raw e r d m = (True, r\<lparr>hr_time := t, hr_wire := hr_wire r @ d\<rparr>)"
  using assms by (auto simp: send_raw_def good_env_def stopping_def tick_def Let_def)

lemma length_print_status: "100 \<le> status \<Longrightarrow> status \<le> 599 \<Longrightarrow> length (print_int status) \<le> 3"
  by (auto simp: print_int_def intro!: length_decimal)

lemma length_reason: "length (reason status) \<le> 31"
  by (simp add: reason_def)

lemma status_headers:
  assumes "100 \<le> status" "status \<le> 599" "good_env e"
    and r: "hr_status r = status" "hr_content_type r = Some ''text/plain''" "hr_content_encoding r = None"
      "hr_length_mode r = LENGTH_AUTO" "hr_length r = of_nat (length (reason status))" "\<not> hr_failed r" "hr_wire r = []"
  shows "\<exists>t h. send_headers e r m = (True, r\<lparr>hr_headers_sent := True, hr_time := t, hr_wire := h\<rparr>)
    \<and> h @ ascii (reason status) = status_page status"
proof -
  let ?h = "''HTTP/1.1 '' @ print_int status @ '' '' @ reason status @ CRLF @ ''Content-Type: text/plain'' @ CRLF
      @ ''Content-Length: '' @ decimal (length (reason status)) @ CRLF @ ''Connection: close'' @ CRLF @ CRLF"
  have len: "length (print_int status) \<le> 3" "length (reason status) \<le> 31" "length (decimal (length (reason status))) \<le> 2"
    "length CRLF = 2" "unat (of_nat (length (reason status)) :: u32) = length (reason status)"
    using length_print_status [OF assms(1,2)] length_reason [of status]
    by (auto simp: CRLF_def unat_of_nat intro!: length_decimal)
  then have hdr: "header_text r = Some ?h" using r by (simp add: header_text_def append_text_def) (intro conjI impI; linarith)
  have "length (ascii ?h) \<le> 2 ^ 32" using len by (simp add: ascii_def)
  then obtain t where t: "send_raw e (r\<lparr>hr_headers_sent := True\<rparr>) (ascii ?h) m
      = (True, r\<lparr>hr_headers_sent := True, hr_time := t, hr_wire := ascii ?h\<rparr>)"
    using send_raw_good [OF assms(3), of "r\<lparr>hr_headers_sent := True\<rparr>" "ascii ?h" m] r by auto
  have "send_headers e r m = (True, r\<lparr>hr_headers_sent := True, hr_time := t, hr_wire := ascii ?h\<rparr>)"
    unfolding send_headers_def hdr option.case using t .
  moreover have "ascii ?h @ ascii (reason status) = status_page status" by (simp add: status_page_def ascii_def)
  ultimately show ?thesis by blast
qed

lemma http_default_status_page:
  assumes "100 \<le> status" "status \<le> 599" "good_env e"
  shows "hr_wire (snd (http_default_status e status conn response_init)) = status_page status
    \<and> hr_headers_sent (snd (http_default_status e status conn response_init))"
proof -
  define n where "n = (of_nat (length (reason status)) :: u32)"
  define r where "r = response_init\<lparr>hr_status := status, hr_content_type := Some ''text/plain'', hr_time := 1,
    hr_length := n, hr_remaining := n\<rparr>"
  obtain t h where h: "send_headers e r (0 < n \<or> hr_more r) = (True, r\<lparr>hr_headers_sent := True, hr_time := t, hr_wire := h\<rparr>)"
    "h @ ascii (reason status) = status_page status"
    using status_headers [OF assms, of r "0 < n \<or> hr_more r"] by (auto simp: r_def n_def response_init_def)
  have n: "unat n = length (ascii (reason status))"
    using length_reason [of status] by (simp add: n_def ascii_def unat_of_nat)
  let ?r2 = "r\<lparr>hr_headers_sent := True, hr_time := t, hr_wire := h, hr_remaining := 0\<rparr>"
  obtain t' where t': "send_raw e ?r2 (ascii (reason status)) (hr_more ?r2) = (True, ?r2\<lparr>hr_time := t', hr_wire := h @ ascii (reason status)\<rparr>)"
    using send_raw_good [OF assms(3), of ?r2 "ascii (reason status)" "hr_more ?r2"] length_reason [of status]
    by (auto simp: ascii_def r_def response_init_def)
  have "\<not> stopping e 0" using assms(3) by (simp add: stopping_def good_env_def)
  then have "http_default_status e status conn response_init
    = (conn, snd (respond_body e r (ascii (reason status)) n))"
    using assms(1,2) n
    by (simp add: http_default_status_def http_response_set_status_def http_response_set_content_type_def Let_def
        http_respond_string_def http_respond_binary_def tick_def response_init_def r_def n_def)
  also have "respond_body e r (ascii (reason status)) n
    = (True, (?r2\<lparr>hr_time := t', hr_wire := h @ ascii (reason status)\<rparr>)\<lparr>hr_length_mode := LENGTH_SEALED\<rparr>)"
    using h(1) t' by (simp add: respond_body_def r_def response_init_def)
  finally show ?thesis using h(2) by simp
qed

section \<open>Theorems\<close>



text \<open>On a connection that takes what is sent, \<open>http_default_status\<close> puts exactly one complete status page on the
  wire: the status line, the content type, the length of the reason phrase and the phrase itself. It fits the 192-byte
  header buffer for every status the setter accepts.\<close>

theorem http_status_page:
  assumes "100 \<le> status" "status \<le> 599" "env_stop e = None" "\<And>t. env_send e t = Some (2 ^ 32)"
  shows "hr_wire (snd (http_default_status e status conn response_init)) =
    ascii (''HTTP/1.1 '' @ print_int status @ '' '' @ reason status @ CRLF @ ''Content-Type: text/plain'' @ CRLF
      @ ''Content-Length: '' @ decimal (length (reason status)) @ CRLF @ ''Connection: close'' @ CRLF @ CRLF @ reason status)"
  using http_default_status_page [OF assms(1,2), of e conn] assms(3,4) by (simp add: good_env_def status_page_def)

theorem http_status_page_witness:
  "hr_wire (snd (http_default_status \<lparr>env_stop = None, env_send = (\<lambda>t. Some (2 ^ 32))\<rparr> 404 (conn_init []) response_init)) =
    ascii (''HTTP/1.1 404 Not Found'' @ CRLF @ ''Content-Type: text/plain'' @ CRLF @ ''Content-Length: 9'' @ CRLF
      @ ''Connection: close'' @ CRLF @ CRLF @ ''Not Found'')"
  using http_status_page [of 404 "\<lparr>env_stop = None, env_send = (\<lambda>t. Some (2 ^ 32))\<rparr>" "conn_init []"]
  by (simp add: reason_def print_int_def decimal.simps digit_def)

text \<open>(C36) No worker ever runs on freed memory: in every state that starts, stops and worker exits can lead to, a living
  worker means an allocated server, which counts its workers exactly. And stopping works: if during each wait at least
  one worker reaches its exit, \<open>http_server_stop\<close> returns with all workers gone and the server freed.\<close>

theorem http_server_lifetime:
  assumes "http_ctl_step\<^sup>*\<^sup>* ctl_none c"
  shows "(0 < hc_alive c \<longrightarrow> hc_server c \<and> hc_alive c \<le> unat (hc_started c))
    \<and> ((\<forall>n. 0 < exits n) \<longrightarrow> \<not> hc_server (http_server_stop exits c) \<and> hc_alive (http_server_stop exits c) = 0)"
proof -
  have ok: "workers_ok c" using assms by (rule http_ctl_reachable_ok)
  have "\<not> hc_server (http_server_stop exits c) \<and> hc_alive (http_server_stop exits c) = 0" if "\<forall>n. 0 < exits n"
  proof (cases "hc_server c")
    case True
    obtain all c' where loop: "stop_loop exits (c\<lparr>hc_stopping := True\<rparr>) = (all, c')" by fastforce
    have "workers_ok (c\<lparr>hc_stopping := True\<rparr>)" using ok by (simp add: workers_ok_def)
    then have "all" "hc_alive c' = 0" using stop_loop_ok [OF _ _ _ loop] True that by auto
    then show ?thesis using loop True by (simp add: http_server_stop_def destroy_server_def)
  qed (use ok in \<open>simp add: http_server_stop_def workers_ok_def\<close>)
  then show ?thesis using ok by (auto simp: workers_ok_def split: if_splits)
qed

theorem http_server_lifetime_witness:
  "http_ctl_step\<^sup>*\<^sup>* ctl_none (snd (http_server_start (\<lambda>n. 1) True 2 True 2 ctl_none))
   \<and> hc_alive (snd (http_server_start (\<lambda>n. 1) True 2 True 2 ctl_none)) = 2
   \<and> hc_alive (http_server_stop (\<lambda>n. 1) (snd (http_server_start (\<lambda>n. 1) True 2 True 2 ctl_none))) = 0"
proof -
  let ?c = "snd (http_server_start (\<lambda>n. 1) True 2 True 2 ctl_none)"
  have "http_ctl_step\<^sup>*\<^sup>* ctl_none ?c" by (rule r_into_rtranclp) (rule http_ctl_step.ctl_server_start)
  moreover from this have "hc_alive (http_server_stop (\<lambda>n. 1) ?c) = 0" using http_server_lifetime by simp
  moreover have "hc_alive ?c = 2" by code_simp
  ultimately show ?thesis by blast
qed

end
