(* ===== verification/Wpa2_Sha1.thy ===== *)
theory Wpa2_Sha1
  imports Prelude
begin

text \<open>
  SHA-1 and HMAC-SHA1 of \<open>src/src/platform/port_wifi/api/wpa2_sha1.c\<close>. The code hashes a stream piece by piece through
  a 64-byte buffer. The reference definitions hash a whole message: pad it, cut it into blocks, fold the compression
  function over them. The two agree for every way of cutting the stream, and HMAC agrees with its definition.
\<close>

section \<open>Compression\<close>

definition rol :: "u32 \<Rightarrow> nat \<Rightarrow> u32" where
  "rol x n = push_bit n x OR drop_bit (32 - n) x"

text \<open>The message schedule: 16 words of the block, then 64 more, each from four earlier ones.\<close>

fun schedule :: "nat \<Rightarrow> u32 list \<Rightarrow> u32 list" where
  "schedule 0 w = w"
| "schedule (Suc n) w =
     (let i = length w
      in schedule n (w @ [rol (w ! (i - 3) XOR w ! (i - 8) XOR w ! (i - 14) XOR w ! (i - 16)) 1]))"

definition round_f :: "nat \<Rightarrow> u32 \<Rightarrow> u32 \<Rightarrow> u32 \<Rightarrow> u32" where
  "round_f i b c d =
     (if i < 20 then (b AND c) OR (NOT b AND d)
      else if i < 40 then b XOR c XOR d
      else if i < 60 then (b AND c) OR (b AND d) OR (c AND d)
      else b XOR c XOR d)"

definition round_k :: "nat \<Rightarrow> u32" where
  "round_k i = (if i < 20 then 0x5A827999 else if i < 40 then 0x6ED9EBA1 else if i < 60 then 0x8F1BBCDC else 0xCA62C1D6)"

definition sha1_round :: "u32 list \<Rightarrow> u32 \<times> u32 \<times> u32 \<times> u32 \<times> u32 \<Rightarrow> nat \<Rightarrow> u32 \<times> u32 \<times> u32 \<times> u32 \<times> u32" where
  "sha1_round w = (\<lambda>(a, b, c, d, e) i.
     let t = rol a 5 + round_f i b c d + e + round_k i + w ! i in (t, a, rol b 30, c, d))"

definition compress :: "u32 list \<Rightarrow> bytes \<Rightarrow> u32 list" where
  "compress h blk =
     (let w = schedule 64 (map (\<lambda>i. be32 (slice (4 * i) 4 blk)) [0..<16]);
          (a, b, c, d, e) = foldl (sha1_round w) (h ! 0, h ! 1, h ! 2, h ! 3, h ! 4) [0..<80]
      in [h ! 0 + a, h ! 1 + b, h ! 2 + c, h ! 3 + d, h ! 4 + e])"

section \<open>Streaming\<close>

record wpa2_sha1_state =
  sh_h     :: "u32 list"
  sh_total :: u64
  sh_block :: bytes
  sh_used  :: nat

definition wpa2_sha1_init :: wpa2_sha1_state where
  "wpa2_sha1_init =
     \<lparr>sh_h = [0x67452301, 0xEFCDAB89, 0x98BADCFE, 0x10325476, 0xC3D2E1F0], sh_total = 0,
      sh_block = replicate 64 0, sh_used = 0\<rparr>"

text \<open>The loop of \<open>wpa2_sha1_update\<close>. As long as \<open>used\<close> is below 64 each turn takes at least one byte, so as many turns
  as there are bytes are enough.\<close>

fun update_loop :: "nat \<Rightarrow> wpa2_sha1_state \<Rightarrow> bytes \<Rightarrow> wpa2_sha1_state" where
  "update_loop 0 s data = s"
| "update_loop (Suc fuel) s data =
     (if data = [] then s
      else
        let n = min (64 - sh_used s) (length data);
            s = s\<lparr>sh_block := buf_write (sh_used s) (take n data) (sh_block s), sh_used := sh_used s + n\<rparr>;
            s = (if sh_used s = 64 then s\<lparr>sh_h := compress (sh_h s) (sh_block s), sh_used := 0\<rparr> else s)
        in update_loop fuel s (drop n data))"

definition wpa2_sha1_update :: "wpa2_sha1_state \<Rightarrow> bytes \<Rightarrow> wpa2_sha1_state" where
  "wpa2_sha1_update s data =
     update_loop (length data) (s\<lparr>sh_total := sh_total s + of_nat (length data)\<rparr>) data"

text \<open>The loop that pads with zeros until 56 bytes of the block are used; at most 63 turns.\<close>

fun pad_loop :: "nat \<Rightarrow> wpa2_sha1_state \<Rightarrow> wpa2_sha1_state" where
  "pad_loop 0 s = s"
| "pad_loop (Suc fuel) s = (if sh_used s = 56 then s else pad_loop fuel (wpa2_sha1_update s [0]))"

definition be64_bytes :: "u64 \<Rightarrow> bytes" where
  "be64_bytes v = map (\<lambda>i. byte_at (56 - 8 * i) v) [0..<8]"

definition digest_bytes :: "u32 list \<Rightarrow> bytes" where
  "digest_bytes h = concat (map (\<lambda>i. be32_bytes (h ! i)) [0..<5])"

definition wpa2_sha1_final :: "wpa2_sha1_state \<Rightarrow> bytes" where
  "wpa2_sha1_final s =
     (let bits = sh_total s * 8;
          s = pad_loop 64 (wpa2_sha1_update s [0x80]);
          s = wpa2_sha1_update s (be64_bytes bits)
      in digest_bytes (sh_h s))"

definition wpa2_sha1 :: "bytes \<Rightarrow> bytes" where
  "wpa2_sha1 data = wpa2_sha1_final (wpa2_sha1_update wpa2_sha1_init data)"

section \<open>HMAC\<close>

record wpa2_hmac_sha1_state =
  hm_inner :: wpa2_sha1_state
  hm_outer :: wpa2_sha1_state

definition wpa2_hmac_sha1_begin :: "bytes \<Rightarrow> wpa2_hmac_sha1_state" where
  "wpa2_hmac_sha1_begin key =
     (let k = buf_write 0 (if 64 < length key then wpa2_sha1 key else key) (replicate 64 0)
      in \<lparr>hm_inner = wpa2_sha1_update wpa2_sha1_init (map (\<lambda>x. x XOR 0x36) k),
          hm_outer = wpa2_sha1_update wpa2_sha1_init (map (\<lambda>x. x XOR 0x5c) k)\<rparr>)"

definition wpa2_hmac_sha1_update :: "wpa2_hmac_sha1_state \<Rightarrow> bytes \<Rightarrow> wpa2_hmac_sha1_state" where
  "wpa2_hmac_sha1_update h data = h\<lparr>hm_inner := wpa2_sha1_update (hm_inner h) data\<rparr>"

definition wpa2_hmac_sha1_final :: "wpa2_hmac_sha1_state \<Rightarrow> bytes" where
  "wpa2_hmac_sha1_final h =
     (let digest = wpa2_sha1_final (hm_inner h) in wpa2_sha1_final (wpa2_sha1_update (hm_outer h) digest))"

definition wpa2_hmac_sha1 :: "bytes \<Rightarrow> bytes \<Rightarrow> bytes" where
  "wpa2_hmac_sha1 key data = wpa2_hmac_sha1_final (wpa2_hmac_sha1_update (wpa2_hmac_sha1_begin key) data)"

section \<open>Reference\<close>

definition sha1_blocks :: "bytes \<Rightarrow> bytes list" where
  "sha1_blocks m = map (\<lambda>i. slice (64 * i) 64 m) [0..<length m div 64]"

definition sha1_hash :: "bytes \<Rightarrow> u32 list" where
  "sha1_hash m = foldl compress (sh_h wpa2_sha1_init) (sha1_blocks m)"

definition sha1_padded :: "bytes \<Rightarrow> bytes" where
  "sha1_padded m = m @ 0x80 # replicate ((119 - length m mod 64) mod 64) 0 @ be64_bytes (of_nat (8 * length m))"

definition sha1_ref :: "bytes \<Rightarrow> bytes" where
  "sha1_ref m = digest_bytes (sha1_hash (sha1_padded m))"

definition hmac_key :: "bytes \<Rightarrow> bytes" where
  "hmac_key key = (let k = (if 64 < length key then sha1_ref key else key) in k @ replicate (64 - length k) 0)"

definition hmac_ref :: "bytes \<Rightarrow> bytes \<Rightarrow> bytes" where
  "hmac_ref key m =
     sha1_ref (map (\<lambda>x. x XOR 0x5c) (hmac_key key) @ sha1_ref (map (\<lambda>x. x XOR 0x36) (hmac_key key) @ m))"

section \<open>The state after a message\<close>

text \<open>The buffer holds what follows the last whole block of the message so far.\<close>

definition sha1_buf :: "wpa2_sha1_state \<Rightarrow> bytes \<Rightarrow> bool" where
  "sha1_buf s m \<longleftrightarrow> sh_h s = sha1_hash m \<and> length (sh_block s) = 64 \<and> sh_used s = length m mod 64
     \<and> take (sh_used s) (sh_block s) = drop (64 * (length m div 64)) m"

definition sha1_at :: "wpa2_sha1_state \<Rightarrow> bytes \<Rightarrow> bool" where
  "sha1_at s m \<longleftrightarrow> sha1_buf s m \<and> sh_total s = of_nat (length m)"

lemma length_be64_bytes [simp]: "length (be64_bytes v) = 8"
  by (simp add: be64_bytes_def)

lemma length_digest_bytes [simp]: "length (digest_bytes h) = 20"
  by (simp add: digest_bytes_def length_concat comp_def sum_list_triv)

lemma sha1_init_at: "sha1_at wpa2_sha1_init []"
  by (simp add: sha1_at_def sha1_buf_def wpa2_sha1_init_def sha1_hash_def sha1_blocks_def)

text \<open>Bytes that do not complete a block change nothing of the hash; those that do add one block.\<close>

lemma sha1_blocks_short:
  assumes "length m = 64 * q + r" "r + length d < 64"
  shows "sha1_blocks (m @ d) = sha1_blocks m"
proof -
  have "length m div 64 = q" "length (m @ d) div 64 = q" using assms by simp_all
  then show ?thesis using assms(1) by (auto simp: sha1_blocks_def intro!: slice_append_left)
qed

lemma sha1_blocks_full:
  assumes "length m = 64 * q + r" "r < 64" "r + length d = 64"
  shows "sha1_blocks (m @ d) = sha1_blocks m @ [drop (64 * q) m @ d]"
proof -
  have "length (m @ d) = 64 * (q + 1)" using assms by simp
  then have q: "length m div 64 = q" "length (m @ d) div 64 = q + 1" using assms by simp_all
  have "slice (64 * q) 64 (m @ d) = drop (64 * q) m @ d" using assms by (simp add: slice_def)
  then show ?thesis using assms(1) unfolding sha1_blocks_def q by (auto intro!: slice_append_left)
qed

text \<open>One turn of the loop: \<open>n\<close> bytes are taken, at most up to the end of the block.\<close>

definition take_bytes :: "wpa2_sha1_state \<Rightarrow> bytes \<Rightarrow> wpa2_sha1_state" where
  "take_bytes s d =
     (let s = s\<lparr>sh_block := buf_write (sh_used s) d (sh_block s), sh_used := sh_used s + length d\<rparr>
      in if sh_used s = 64 then s\<lparr>sh_h := compress (sh_h s) (sh_block s), sh_used := 0\<rparr> else s)"

lemma take_bytes_buf:
  assumes "sha1_buf s m" "sh_used s + length d \<le> 64"
  shows "sha1_buf (take_bytes s d) (m @ d)"
proof -
  define q r where "q = length m div 64" and "r = length m mod 64"
  have m: "length m = 64 * q + r" "r < 64" by (simp_all add: q_def r_def)
  have s: "sh_h s = sha1_hash m" "length (sh_block s) = 64" "sh_used s = r" "take r (sh_block s) = drop (64 * q) m"
    using assms(1) by (auto simp: sha1_buf_def q_def r_def)
  have blk: "take (r + length d) (buf_write r d (sh_block s)) = drop (64 * q) m @ d"
    using s m assms(2) by (simp add: buf_write_def)
  show ?thesis
  proof (cases "r + length d = 64")
    case True
    then have "length (buf_write r d (sh_block s)) = 64" using s by simp
    then have "buf_write r d (sh_block s) = drop (64 * q) m @ d" using blk True by (metis order_refl take_all)
    then have "sh_h (take_bytes s d) = sha1_hash (m @ d)"
      using s True sha1_blocks_full [OF m True] by (simp add: take_bytes_def sha1_hash_def)
    moreover have "length (m @ d) = 64 * (q + 1)" using m True by simp
    ultimately show ?thesis using s True by (simp add: sha1_buf_def take_bytes_def)
  next
    case False
    then have "r + length d < 64" using assms(2) s by simp
    moreover from this have "length (m @ d) mod 64 = r + length d" "length (m @ d) div 64 = q" using m by (simp_all add: add.assoc)
    ultimately show ?thesis
      using s blk m sha1_blocks_short [OF m(1)] by (simp add: sha1_buf_def take_bytes_def sha1_hash_def)
  qed
qed

lemma update_loop_Suc:
  "data \<noteq> [] \<Longrightarrow> update_loop (Suc fuel) s data
     = update_loop fuel (take_bytes s (take (64 - sh_used s) data)) (drop (64 - sh_used s) data)"
proof -
  assume "data \<noteq> []"
  have "take (min (64 - sh_used s) (length data)) data = take (64 - sh_used s) data"
    "drop (min (64 - sh_used s) (length data)) data = drop (64 - sh_used s) data"
    "length (take (64 - sh_used s) data) = min (64 - sh_used s) (length data)"
    by (auto simp: min_def)
  then show ?thesis using \<open>data \<noteq> []\<close> by (simp add: Let_def take_bytes_def)
qed

lemma take_bytes_total [simp]: "sh_total (take_bytes s d) = sh_total s"
  by (simp add: take_bytes_def Let_def)

lemma update_loop_buf:
  "sha1_buf s m \<Longrightarrow> length data \<le> fuel \<Longrightarrow>
     sha1_buf (update_loop fuel s data) (m @ data) \<and> sh_total (update_loop fuel s data) = sh_total s"
proof (induction fuel arbitrary: s m data)
  case (Suc fuel)
  show ?case
  proof (cases "data = []")
    case False
    let ?d = "take (64 - sh_used s) data" and ?rest = "drop (64 - sh_used s) data"
    have used: "sh_used s < 64" using Suc.prems(1) by (simp add: sha1_buf_def)
    then have "sha1_buf (take_bytes s ?d) (m @ ?d)" using Suc.prems(1) by (intro take_bytes_buf) auto
    moreover have "length ?rest \<le> fuel" using used False Suc.prems(2) by (cases data) auto
    ultimately have "sha1_buf (update_loop fuel (take_bytes s ?d) ?rest) ((m @ ?d) @ ?rest)
        \<and> sh_total (update_loop fuel (take_bytes s ?d) ?rest) = sh_total (take_bytes s ?d)"
      by (rule Suc.IH)
    then show ?thesis using update_loop_Suc [OF False] by simp
  qed (use Suc.prems in simp)
qed simp

lemma sha1_update_at: "sha1_at s m \<Longrightarrow> sha1_at (wpa2_sha1_update s d) (m @ d)"
proof -
  assume at: "sha1_at s m"
  let ?s = "s\<lparr>sh_total := sh_total s + of_nat (length d)\<rparr>"
  have "sha1_buf ?s m" using at by (auto simp: sha1_at_def sha1_buf_def)
  then show ?thesis using update_loop_buf [of ?s m d "length d"] at by (simp add: sha1_at_def wpa2_sha1_update_def)
qed

text \<open>The padding loop appends the zeros of the reference.\<close>

lemma pad_loop_at:
  "sha1_at s m \<Longrightarrow> k < fuel \<Longrightarrow> (length m + k) mod 64 = 56 \<Longrightarrow> (\<And>j. j < k \<Longrightarrow> (length m + j) mod 64 \<noteq> 56) \<Longrightarrow>
     sha1_at (pad_loop fuel s) (m @ replicate k 0)"
proof (induction fuel arbitrary: s m k)
  case (Suc fuel)
  have used: "sh_used s = length m mod 64" using Suc.prems(1) by (simp add: sha1_at_def sha1_buf_def)
  show ?case
  proof (cases k)
    case 0
    then show ?thesis using Suc.prems used by simp
  next
    case (Suc k')
    then have "sh_used s \<noteq> 56" using Suc.prems(4) [of 0] used by simp
    have "sha1_at (pad_loop fuel (wpa2_sha1_update s [0])) ((m @ [0]) @ replicate k' 0)"
    proof (rule Suc.IH)
      show "(length (m @ [0]) + j) mod 64 \<noteq> 56" if "j < k'" for j
        using Suc.prems(4) [of "Suc j"] that Suc by simp
    qed (use Suc Suc.prems sha1_update_at in auto)
    then show ?thesis using \<open>sh_used s \<noteq> 56\<close> Suc by simp
  qed
qed simp

lemma pad_count:
  fixes n :: nat
  defines "k \<equiv> (119 - n mod 64) mod 64"
  shows "(n + 1 + k) mod 64 = 56" "k < 64" "\<And>j. j < k \<Longrightarrow> (n + 1 + j) mod 64 \<noteq> 56"
proof -
  define r where "r = n mod 64"
  have r: "r < 64" "\<And>x. (n + 1 + x) mod 64 = (r + 1 + x) mod 64"
    unfolding r_def by (simp, metis add.assoc mod_add_left_eq)
  have k: "k = (if r \<le> 55 then 55 - r else 119 - r)"
    using r(1) le_mod_geq [of 64 "119 - r"] by (auto simp: k_def r_def [symmetric])
  have "r + 1 + k = 56 \<or> r + 1 + k = 56 + 64" using r(1) by (auto simp: k)
  then show "(n + 1 + k) mod 64 = 56" unfolding r(2) by (elim disjE) simp_all
  show "k < 64" using r(1) by (auto simp: k)
  fix j assume "j < k"
  then consider "r + 1 + j < 56" | "56 < r + 1 + j" "r + 1 + j < 64" | "64 \<le> r + 1 + j" "r + 1 + j < 120"
    using r(1) by (fastforce simp: k split: if_splits)
  then show "(n + 1 + j) mod 64 \<noteq> 56" unfolding r(2) by cases (simp_all add: le_mod_geq)
qed

lemma sha1_final_at: "sha1_at s m \<Longrightarrow> wpa2_sha1_final s = sha1_ref m"
proof -
  assume at: "sha1_at s m"
  define k where "k = (119 - length m mod 64) mod 64"
  define pad where "pad = pad_loop 64 (wpa2_sha1_update s [0x80])"
  have "sha1_at (wpa2_sha1_update s [0x80]) (m @ [0x80])" using at by (rule sha1_update_at)
  then have "sha1_at pad ((m @ [0x80]) @ replicate k 0)"
    unfolding pad_def by (rule pad_loop_at) (use pad_count(1,2) [of "length m"] pad_count(3) [where n = "length m"] in \<open>simp_all add: k_def\<close>)
  then have "sha1_at (wpa2_sha1_update pad (be64_bytes (of_nat (8 * length m)))) (sha1_padded m)"
    using sha1_update_at [of pad "(m @ [0x80]) @ replicate k 0" "be64_bytes (of_nat (8 * length m))"]
    by (simp add: sha1_padded_def k_def)
  moreover have "sh_total s * 8 = of_nat (8 * length m)" using at by (simp add: sha1_at_def mult.commute)
  ultimately show ?thesis
    by (simp add: wpa2_sha1_final_def sha1_ref_def Let_def pad_def sha1_at_def sha1_buf_def)
qed

lemma wpa2_sha1_ref: "wpa2_sha1 m = sha1_ref m"
  unfolding wpa2_sha1_def using sha1_update_at [OF sha1_init_at] by (intro sha1_final_at) simp

lemma length_sha1_ref [simp]: "length (sha1_ref m) = 20"
  by (simp add: sha1_ref_def)

lemma sha1_updates_at: "sha1_at s m \<Longrightarrow> sha1_at (foldl wpa2_sha1_update s ds) (m @ concat ds)"
proof (induction ds arbitrary: s m)
  case (Cons d ds)
  then show ?case using Cons.IH [OF sha1_update_at [OF Cons.prems]] by simp
qed simp

text \<open>The state after the beginning and some data.\<close>

definition hmac_at :: "wpa2_hmac_sha1_state \<Rightarrow> bytes \<Rightarrow> bytes \<Rightarrow> bool" where
  "hmac_at h key m \<longleftrightarrow> sha1_at (hm_inner h) (map (\<lambda>x. x XOR 0x36) (hmac_key key) @ m)
     \<and> sha1_at (hm_outer h) (map (\<lambda>x. x XOR 0x5c) (hmac_key key))"

lemma hmac_begin_at: "hmac_at (wpa2_hmac_sha1_begin key) key []"
proof -
  have "buf_write 0 (if 64 < length key then wpa2_sha1 key else key) (replicate 64 0) = hmac_key key"
    by (simp add: buf_write_def hmac_key_def wpa2_sha1_ref)
  then show ?thesis using sha1_update_at [OF sha1_init_at]
    by (simp add: hmac_at_def wpa2_hmac_sha1_begin_def Let_def)
qed

lemma hmac_update_at: "hmac_at h key m \<Longrightarrow> hmac_at (wpa2_hmac_sha1_update h d) key (m @ d)"
  using sha1_update_at by (fastforce simp: hmac_at_def wpa2_hmac_sha1_update_def)

lemma hmac_final_at: "hmac_at h key m \<Longrightarrow> wpa2_hmac_sha1_final h = hmac_ref key m"
proof -
  assume "hmac_at h key m"
  then have "wpa2_sha1_final (hm_inner h) = sha1_ref (map (\<lambda>x. x XOR 0x36) (hmac_key key) @ m)"
    and outer: "sha1_at (hm_outer h) (map (\<lambda>x. x XOR 0x5c) (hmac_key key))"
    by (auto simp: hmac_at_def intro: sha1_final_at)
  then show ?thesis using sha1_final_at [OF sha1_update_at [OF outer]] by (simp add: wpa2_hmac_sha1_final_def hmac_ref_def)
qed

lemma wpa2_hmac_sha1_ref: "wpa2_hmac_sha1 key m = hmac_ref key m"
  unfolding wpa2_hmac_sha1_def using hmac_update_at [OF hmac_begin_at] by (intro hmac_final_at) fastforce

lemma length_hmac_ref [simp]: "length (hmac_ref key m) = 20"
  by (simp add: hmac_ref_def)

section \<open>Theorems\<close>

text \<open>The streaming SHA-1 is the SHA-1 of the whole message: however the message is cut into updates, the digest is
  that of the message padded with a one bit, zeros and its length in bits, folded block by block. The bound of the
  loops is never reached.\<close>

theorem wpa2_sha1_streaming:
  "wpa2_sha1_final (foldl wpa2_sha1_update wpa2_sha1_init ds) = sha1_ref (concat ds)"
  using sha1_final_at [OF sha1_updates_at [OF sha1_init_at]] by simp

text \<open>HMAC-SHA1 over a stream is the textbook \<open>H((K xor opad) | H((K xor ipad) | m))\<close>, with a key longer than a
  block hashed first and a shorter one filled with zeros; the state of \<open>begin\<close> can be copied and reused.\<close>

theorem wpa2_hmac_streaming:
  "wpa2_hmac_sha1_final (foldl wpa2_hmac_sha1_update (wpa2_hmac_sha1_begin key) ds) = hmac_ref key (concat ds)"
proof -
  have "hmac_at h key m \<Longrightarrow> hmac_at (foldl wpa2_hmac_sha1_update h ds) key (m @ concat ds)" for h m
  proof (induction ds arbitrary: h m)
    case (Cons d ds)
    then show ?case using Cons.IH [OF hmac_update_at [OF Cons.prems]] by simp
  qed simp
  then show ?thesis using hmac_final_at hmac_begin_at by fastforce
qed

end
