(* ===== verification/Wpa2_Kdf.thy ===== *)
theory Wpa2_Kdf
  imports Wpa2_Sha1
begin

text \<open>
  Key derivation of \<open>src/src/platform/port_wifi/api/wpa2_kdf.c\<close>: PBKDF2 from the passphrase to the PMK, the 802.11i PRF
  and the PTK. The code copies the HMAC state of the key instead of hashing it anew in each round; the results are those
  of the definitions, and the station and the access point derive the same PTK although each puts itself second.
\<close>

section \<open>Derivation\<close>

abbreviation WPA2_PMK_LEN :: nat where "WPA2_PMK_LEN \<equiv> 32"
abbreviation WPA2_PTK_LEN :: nat where "WPA2_PTK_LEN \<equiv> 48"
abbreviation WPA2_SHA1_LEN :: nat where "WPA2_SHA1_LEN \<equiv> 20"

text \<open>The output loop both functions have: whole digests for counter values from \<open>c\<close> on, the last one cut.\<close>

function stretch :: "(nat \<Rightarrow> bytes) \<Rightarrow> nat \<Rightarrow> nat \<Rightarrow> bytes" where
  "stretch f c out_len =
     (if out_len = 0 then []
      else
        let n = (if out_len < WPA2_SHA1_LEN then out_len else WPA2_SHA1_LEN)
        in take n (f c) @ stretch f (c + 1) (out_len - n))"
  by pat_completeness auto

termination stretch
  by (relation "measure (\<lambda>(f, c, out_len). out_len)") auto

declare stretch.simps [simp del]

definition hmac_with :: "wpa2_hmac_sha1_state \<Rightarrow> bytes \<Rightarrow> bytes" where
  "hmac_with base data = wpa2_hmac_sha1_final (wpa2_hmac_sha1_update base data)"

fun pbkdf2_rounds :: "wpa2_hmac_sha1_state \<Rightarrow> nat \<Rightarrow> bytes \<Rightarrow> bytes \<Rightarrow> bytes" where
  "pbkdf2_rounds base 0 u t = t"
| "pbkdf2_rounds base (Suc n) u t =
     (let u = hmac_with base u in pbkdf2_rounds base n u (map2 (XOR) t u))"

definition pbkdf2_block :: "wpa2_hmac_sha1_state \<Rightarrow> bytes \<Rightarrow> nat \<Rightarrow> u32 \<Rightarrow> bytes" where
  "pbkdf2_block base salt iterations blk =
     (let u = hmac_with base (salt @ be32_bytes blk) in pbkdf2_rounds base (iterations - 1) u u)"

text \<open>\<open>None\<close> is false.\<close>

definition wpa2_pbkdf2_sha1 :: "bytes \<Rightarrow> bytes \<Rightarrow> u32 \<Rightarrow> nat \<Rightarrow> bytes option" where
  "wpa2_pbkdf2_sha1 pass salt iterations out_len =
     (if 32 < length salt \<or> iterations = 0 then None
      else
        let base = wpa2_hmac_sha1_begin pass
        in Some (stretch (\<lambda>b. pbkdf2_block base salt (unat iterations) (of_nat b)) 1 out_len))"

definition wpa2_pmk :: "bytes option \<Rightarrow> bytes \<Rightarrow> bytes option" where
  "wpa2_pmk passphrase ssid =
     (let p = (case passphrase of None \<Rightarrow> [] | Some p \<Rightarrow> p); n = length p in
      if n < 8 \<or> 63 < n \<or> length ssid < 1 \<or> 32 < length ssid then None
      else if list_ex (\<lambda>c. c < 32 \<or> 126 < c) p then None
      else wpa2_pbkdf2_sha1 p ssid 4096 WPA2_PMK_LEN)"

definition wpa2_prf :: "bytes \<Rightarrow> bytes \<Rightarrow> bytes \<Rightarrow> nat \<Rightarrow> bytes option" where
  "wpa2_prf key lab data out_len =
     (if 128 < length lab + 1 + length data + 1 then None
      else
        let base = wpa2_hmac_sha1_begin key
        in Some (stretch (\<lambda>c. hmac_with base (lab @ [0] @ data @ [of_nat c])) 0 out_len))"

text \<open>\<open>memcmp\<close> of two blocks of equal length.\<close>

fun memcmp :: "bytes \<Rightarrow> bytes \<Rightarrow> int" where
  "memcmp (x # xs) (y # ys) = (if x < y then - 1 else if y < x then 1 else memcmp xs ys)"
| "memcmp _ _ = 0"

definition PAIRWISE_LABEL :: bytes where
  "PAIRWISE_LABEL = map of_char ''Pairwise key expansion''"

definition ptk_data :: "bytes \<Rightarrow> bytes \<Rightarrow> bytes \<Rightarrow> bytes \<Rightarrow> bytes" where
  "ptk_data aa spa anonce snonce =
     (if memcmp aa spa < 0 then aa @ spa else spa @ aa)
     @ (if memcmp anonce snonce < 0 then anonce @ snonce else snonce @ anonce)"

definition wpa2_ptk :: "bytes \<Rightarrow> bytes \<Rightarrow> bytes \<Rightarrow> bytes \<Rightarrow> bytes \<Rightarrow> bytes option" where
  "wpa2_ptk pmk aa spa anonce snonce = wpa2_prf pmk PAIRWISE_LABEL (ptk_data aa spa anonce snonce) WPA2_PTK_LEN"

section \<open>Reference\<close>

fun pbkdf2_U :: "bytes \<Rightarrow> bytes \<Rightarrow> u32 \<Rightarrow> nat \<Rightarrow> bytes" where
  "pbkdf2_U pass salt blk 0 = hmac_ref pass (salt @ be32_bytes blk)"
| "pbkdf2_U pass salt blk (Suc j) = hmac_ref pass (pbkdf2_U pass salt blk j)"

fun pbkdf2_F :: "bytes \<Rightarrow> bytes \<Rightarrow> nat \<Rightarrow> u32 \<Rightarrow> bytes" where
  "pbkdf2_F pass salt 0 blk = pbkdf2_U pass salt blk 0"
| "pbkdf2_F pass salt (Suc j) blk = map2 (XOR) (pbkdf2_F pass salt j blk) (pbkdf2_U pass salt blk (Suc j))"

section \<open>Lemmas\<close>

lemma hmac_with_begin [simp]: "hmac_with (wpa2_hmac_sha1_begin key) m = hmac_ref key m"
  unfolding hmac_with_def using hmac_update_at [OF hmac_begin_at] by (intro hmac_final_at) fastforce

lemma length_pbkdf2_U [simp]: "length (pbkdf2_U pass salt blk j) = 20"
  by (cases j) auto

lemma length_pbkdf2_F [simp]: "length (pbkdf2_F pass salt j blk) = 20"
  by (induction j) auto

lemma pbkdf2_rounds_ref:
  "pbkdf2_rounds (wpa2_hmac_sha1_begin pass) n (pbkdf2_U pass salt blk j) (pbkdf2_F pass salt j blk) = pbkdf2_F pass salt (j + n) blk"
proof (induction n arbitrary: j)
  case (Suc n)
  then show ?case using Suc.IH [of "Suc j"] by (simp add: Let_def)
qed simp

lemma pbkdf2_block_ref:
  "0 < n \<Longrightarrow> pbkdf2_block (wpa2_hmac_sha1_begin pass) salt n blk = pbkdf2_F pass salt (n - 1) blk"
  using pbkdf2_rounds_ref [of pass "n - 1" salt blk 0] by (simp add: pbkdf2_block_def Let_def)

text \<open>The loop gives the first \<open>out_len\<close> bytes of the concatenated digests.\<close>

lemma stretch_concat:
  assumes "\<And>c. length (f c) = 20"
  shows "out_len \<le> 20 * m \<Longrightarrow> stretch f c out_len = take out_len (concat (map f [c..<c + m]))"
proof (induction m arbitrary: c out_len)
  case 0
  then show ?case by (simp add: stretch.simps)
next
  case (Suc m)
  have upt: "[c..<c + Suc m] = c # [Suc c..<Suc c + m]" by (simp add: upt_conv_Cons)
  show ?case
  proof (cases "out_len < 20")
    case True
    then show ?thesis unfolding upt by (subst stretch.simps) (simp add: assms stretch.simps del: upt_Suc)
  next
    case False
    have "stretch f (c + 1) (out_len - 20) = take (out_len - 20) (concat (map f [Suc c..<Suc c + m]))"
      using Suc.IH [of "out_len - 20" "Suc c"] Suc.prems by simp
    then show ?thesis unfolding upt using False by (subst stretch.simps) (simp add: assms del: upt_Suc)
  qed
qed

lemma length_concat_20: "(\<And>c. length (f c) = 20) \<Longrightarrow> length (concat (map f cs)) = 20 * length cs"
  by (induction cs) auto

lemma length_stretch: "(\<And>c. length (f c) = 20) \<Longrightarrow> length (stretch f c n) = n"
  using stretch_concat [of f n n c] length_concat_20 [of f "[c..<c + n]"] by simp

lemma memcmp_antisym: "length xs = length ys \<Longrightarrow> memcmp xs ys = - memcmp ys xs"
  by (induction xs ys rule: list_induct2) auto

lemma memcmp_0: "length xs = length ys \<Longrightarrow> memcmp xs ys = 0 \<Longrightarrow> xs = ys"
  by (induction xs ys rule: list_induct2) (auto split: if_splits)

lemma sorted_pair: "length x = length y \<Longrightarrow> (if memcmp x y < 0 then x @ y else y @ x) = (if memcmp y x < 0 then y @ x else x @ y)"
  using memcmp_antisym [of x y] memcmp_0 [of x y] by auto

lemma length_pairwise_label: "length PAIRWISE_LABEL = 22"
  by (simp add: PAIRWISE_LABEL_def)

lemma wpa2_ptk_Some:
  assumes "length aa = 6" "length spa = 6" "length anonce = 32" "length snonce = 32"
  shows "\<exists>ptk. wpa2_ptk pmk aa spa anonce snonce = Some ptk \<and> length ptk = 48"
proof -
  have "length (ptk_data aa spa anonce snonce) = 76" using assms by (simp add: ptk_data_def)
  then show ?thesis
    by (simp add: wpa2_ptk_def wpa2_prf_def length_pairwise_label Let_def length_stretch)
qed

lemma ptk_data_swap:
  "length aa = length spa \<Longrightarrow> length anonce = length snonce \<Longrightarrow> ptk_data aa spa anonce snonce = ptk_data spa aa snonce anonce"
  using sorted_pair [of aa spa] sorted_pair [of anonce snonce] by (simp add: ptk_data_def)

section \<open>Theorems\<close>

text \<open>\<open>wpa2_pmk\<close> is PBKDF2 of IEEE 802.11: for a passphrase of 8 to 63 printable characters and an SSID of 1 to 32
  bytes it gives the first 32 bytes of the blocks \<open>F(1) | F(2)\<close>, each the exclusive or of 4096 chained HMACs, the first
  over the SSID and the block number; anything else is refused.\<close>

theorem wpa2_pmk_correct:
  "wpa2_pmk passphrase ssid =
     (case passphrase of
        None \<Rightarrow> None
      | Some p \<Rightarrow>
          if 8 \<le> length p \<and> length p \<le> 63 \<and> list_all (\<lambda>c. 32 \<le> c \<and> c \<le> 126) p \<and> 1 \<le> length ssid \<and> length ssid \<le> 32
          then Some (take 32 (pbkdf2_F p ssid 4095 1 @ pbkdf2_F p ssid 4095 2)) else None)"
proof (cases passphrase)
  case (Some p)
  let ?f = "\<lambda>b. pbkdf2_F p ssid 4095 (of_nat b)"
  have "stretch ?f 1 32 = take 32 (concat (map ?f [1..<1 + 2]))" by (rule stretch_concat) simp_all
  also have "[1..<1 + 2] = [1, 2 :: nat]" by (simp add: upt_rec)
  finally have "stretch ?f 1 32 = take 32 (pbkdf2_F p ssid 4095 1 @ pbkdf2_F p ssid 4095 2)" by simp
  moreover have "pbkdf2_block (wpa2_hmac_sha1_begin p) ssid 4096 b = pbkdf2_F p ssid 4095 b" for b
    using pbkdf2_block_ref [of 4096 p ssid b] by simp
  moreover have "list_ex (\<lambda>c. c < 32 \<or> 126 < c) p \<longleftrightarrow> \<not> list_all (\<lambda>c. 32 \<le> c \<and> c \<le> 126) p"
    by (simp add: list_ex_iff list_all_iff not_le)
  ultimately show ?thesis
    using Some by (simp add: wpa2_pmk_def wpa2_pbkdf2_sha1_def Let_def not_less not_le)
qed (simp add: wpa2_pmk_def)

text \<open>Both ends derive the same pairwise key: with the same PMK, the addresses exchanged and the nonces exchanged,
  \<open>wpa2_ptk\<close> returns the same 48 bytes, and it cannot fail for addresses of 6 and nonces of 32 bytes.\<close>

theorem wpa2_ptk_agreement:
  assumes "length aa = 6" "length spa = 6" "length anonce = 32" "length snonce = 32"
  shows "\<exists>ptk. wpa2_ptk pmk aa spa anonce snonce = Some ptk \<and> wpa2_ptk pmk spa aa snonce anonce = Some ptk
    \<and> length ptk = WPA2_PTK_LEN"
  using wpa2_ptk_Some [OF assms] ptk_data_swap [of aa spa anonce snonce] assms by (simp add: wpa2_ptk_def)

theorem wpa2_ptk_agreement_witness:
  "\<exists>ptk. wpa2_ptk (replicate 32 1) (replicate 6 2) (replicate 6 3) (replicate 32 4) (replicate 32 5) = Some ptk
    \<and> wpa2_ptk (replicate 32 1) (replicate 6 3) (replicate 6 2) (replicate 32 5) (replicate 32 4) = Some ptk \<and> length ptk = 48"
  using wpa2_ptk_agreement [of "replicate 6 2" "replicate 6 3" "replicate 32 4" "replicate 32 5" "replicate 32 1"] by simp

end
