(* ===== verification/Wpa2_Eapol.thy ===== *)
theory Wpa2_Eapol
  imports Wpa2_Kdf
begin

text \<open>
  EAPOL-Key frames of \<open>src/src/platform/port_wifi/api/wpa2_eapol.c\<close>: parsing, building, the message integrity code and
  the search for the group key in decrypted key data. A built frame parses to what was put in, also with padding after it,
  and carries a MIC that the check accepts; the check accepts no other MIC.
\<close>

section \<open>Frames\<close>

abbreviation WPA2_EAPOL_HEADER_LEN :: nat where "WPA2_EAPOL_HEADER_LEN \<equiv> 4"
abbreviation WPA2_EAPOL_KEY_FIXED :: nat where "WPA2_EAPOL_KEY_FIXED \<equiv> 99"
abbreviation WPA2_EAPOL_MIC_OFFSET :: nat where "WPA2_EAPOL_MIC_OFFSET \<equiv> 81"
abbreviation WPA2_EAPOL_MIC_LEN :: nat where "WPA2_EAPOL_MIC_LEN \<equiv> 16"

definition WPA2_RSN_IE :: bytes where
  "WPA2_RSN_IE = [0x30, 0x14, 0x01, 0x00, 0x00, 0x0F, 0xAC, 0x04, 0x01, 0x00, 0x00,
                  0x0F, 0xAC, 0x04, 0x01, 0x00, 0x00, 0x0F, 0xAC, 0x02, 0x00, 0x00]"

record wpa2_eapol_key =
  ek_key_info   :: u16
  ek_key_length :: u16
  ek_replay     :: bytes
  ek_nonce      :: bytes
  ek_key_data   :: bytes
  ek_frame_len  :: nat

text \<open>\<open>None\<close> is false. \<open>key_data\<close> and its length are one list.\<close>

definition wpa2_eapol_parse :: "bytes \<Rightarrow> wpa2_eapol_key option" where
  "wpa2_eapol_parse frame =
     (if length frame < WPA2_EAPOL_KEY_FIXED then None
      else if frame ! 1 \<noteq> 3 then None
      else if frame ! 4 \<noteq> 2 then None
      else
        let all = WPA2_EAPOL_HEADER_LEN + unat (be16 (slice 2 2 frame)) in
        if all < WPA2_EAPOL_KEY_FIXED \<or> length frame < all then None
        else
          let kdl = unat (be16 (slice 97 2 frame)) in
          if all < WPA2_EAPOL_KEY_FIXED + kdl then None
          else Some
            \<lparr>ek_key_info = be16 (slice 5 2 frame), ek_key_length = be16 (slice 7 2 frame),
             ek_replay = slice 9 8 frame, ek_nonce = slice 17 32 frame,
             ek_key_data = slice WPA2_EAPOL_KEY_FIXED kdl frame, ek_frame_len = all\<rparr>)"

text \<open>The frame with a MIC of zeros, as the stores of \<open>wpa2_eapol_build\<close> leave it.\<close>

definition eapol_fields :: "u16 \<Rightarrow> u16 \<Rightarrow> bytes \<Rightarrow> bytes \<Rightarrow> bytes \<Rightarrow> bytes" where
  "eapol_fields key_info key_length replay nonce key_data =
     (let all = WPA2_EAPOL_KEY_FIXED + length key_data;
          out = replicate all 0;
          out = buf_write 0 [1, 3] out;
          out = buf_write 2 (be16_bytes (of_nat (all - WPA2_EAPOL_HEADER_LEN))) out;
          out = buf_write 4 [2] out;
          out = buf_write 5 (be16_bytes key_info) out;
          out = buf_write 7 (be16_bytes key_length) out;
          out = buf_write 9 replay out;
          out = buf_write 17 nonce out;
          out = buf_write 97 (be16_bytes (of_nat (length key_data))) out
      in buf_write WPA2_EAPOL_KEY_FIXED key_data out)"

text \<open>\<open>None\<close> is a return of 0; \<open>kck\<close> may be NULL.\<close>

definition wpa2_eapol_build ::
    "nat \<Rightarrow> u16 \<Rightarrow> u16 \<Rightarrow> bytes \<Rightarrow> bytes \<Rightarrow> bytes \<Rightarrow> bytes option \<Rightarrow> bytes option" where
  "wpa2_eapol_build out_size key_info key_length replay nonce key_data kck =
     (if out_size < WPA2_EAPOL_KEY_FIXED + length key_data then None
      else
        let out = eapol_fields key_info key_length replay nonce key_data in
        case kck of
          None \<Rightarrow> Some out
        | Some k \<Rightarrow> Some (buf_write WPA2_EAPOL_MIC_OFFSET (take WPA2_EAPOL_MIC_LEN (wpa2_hmac_sha1 k out)) out))"

definition wpa2_eapol_mic_ok :: "bytes \<Rightarrow> bytes \<Rightarrow> nat \<Rightarrow> bool" where
  "wpa2_eapol_mic_ok kck frame frame_len =
     (if frame_len < WPA2_EAPOL_KEY_FIXED then False
      else
        let h = wpa2_hmac_sha1_begin kck;
            h = wpa2_hmac_sha1_update h (slice 0 WPA2_EAPOL_MIC_OFFSET frame);
            h = wpa2_hmac_sha1_update h (replicate WPA2_EAPOL_MIC_LEN 0);
            h = wpa2_hmac_sha1_update h
                  (slice (WPA2_EAPOL_MIC_OFFSET + WPA2_EAPOL_MIC_LEN)
                     (frame_len - WPA2_EAPOL_MIC_OFFSET - WPA2_EAPOL_MIC_LEN) frame);
            mic = wpa2_hmac_sha1_final h;
            diff = foldl (\<lambda>d i. d OR (mic ! i XOR frame ! (WPA2_EAPOL_MIC_OFFSET + i))) 0 [0..<WPA2_EAPOL_MIC_LEN]
        in diff = 0)"

section \<open>The group key\<close>

definition GTK_KDE :: bytes where
  "GTK_KDE = [0x00, 0x0F, 0xAC, 0x01]"

text \<open>The loop of \<open>wpa2_find_gtk\<close> from offset \<open>i\<close> on; the key id and the key, or \<open>None\<close> for false.\<close>

function find_gtk_from :: "bytes \<Rightarrow> nat \<Rightarrow> (u8 \<times> bytes) option" where
  "find_gtk_from key_data i =
     (if length key_data < i + 2 then None
      else
        let type = key_data ! i; elen = unat (key_data ! (i + 1)) in
        if type = 0xDD \<and> elen = 0 then None
        else if length key_data < i + 2 + elen then None
        else if type = 0xDD \<and> elen = 22 \<and> slice (i + 2) 4 key_data = GTK_KDE
          then Some (key_data ! (i + 6) AND 0x03, slice (i + 8) 16 key_data)
        else find_gtk_from key_data (i + 2 + elen))"
  by pat_completeness auto

termination find_gtk_from
  by (relation "measure (\<lambda>(key_data, i). length key_data - i)") auto

declare find_gtk_from.simps [simp del]

definition wpa2_find_gtk :: "bytes \<Rightarrow> (u8 \<times> bytes) option" where
  "wpa2_find_gtk key_data = find_gtk_from key_data 0"

section \<open>Frames are read back\<close>

lemma length_eapol_fields [simp]:
  "length replay = 8 \<Longrightarrow> length nonce = 32 \<Longrightarrow>
     length (eapol_fields key_info key_length replay nonce key_data) = WPA2_EAPOL_KEY_FIXED + length key_data"
  by (simp add: eapol_fields_def Let_def)

lemma slice_replicate: "off + n \<le> m \<Longrightarrow> slice off n (replicate m x) = replicate n x"
  by (simp add: slice_def min_def)

lemma nth_slice_1: "i < length xs \<Longrightarrow> slice i 1 xs = [xs ! i]"
  by (simp add: slice_def take_Suc_conv_app_nth hd_drop_conv_nth take_Suc drop_eq_Nil)

text \<open>Each field is found at its offset; the MIC is zero.\<close>

lemma eapol_field_slices:
  assumes "length replay = 8" "length nonce = 32"
    and "out = eapol_fields key_info key_length replay nonce key_data"
  shows "slice 0 2 out = [1, 3]" "slice 2 2 out = be16_bytes (of_nat (95 + length key_data))" "slice 4 1 out = [2]"
    "slice 5 2 out = be16_bytes key_info" "slice 7 2 out = be16_bytes key_length" "slice 9 8 out = replay"
    "slice 17 32 out = nonce" "slice 81 16 out = replicate 16 0" "slice 97 2 out = be16_bytes (of_nat (length key_data))"
    "slice 99 (length key_data) out = key_data"
  using assms(1,2) unfolding assms(3) eapol_fields_def Let_def
  by (simp_all add: slice_buf_write_other slice_replicate)

text \<open>Parsing looks only at the fields, so neither a MIC nor padding changes what it finds.\<close>

lemma eapol_parse_fields:
  assumes "length replay = 8" "length nonce = 32" "length key_data \<le> 65440"
    and out: "out = eapol_fields key_info key_length replay nonce key_data"
    and f: "length f = length out" "\<And>off n. off + n \<le> 81 \<or> 97 \<le> off \<Longrightarrow> off + n \<le> length out \<Longrightarrow> slice off n f = slice off n out"
  shows "wpa2_eapol_parse (f @ pad) = Some
    \<lparr>ek_key_info = key_info, ek_key_length = key_length, ek_replay = replay, ek_nonce = nonce, ek_key_data = key_data,
     ek_frame_len = WPA2_EAPOL_KEY_FIXED + length key_data\<rparr>"
proof -
  have len: "length out = 99 + length key_data" using assms(1,2) by (simp add: out)
  have s: "slice off n (f @ pad) = slice off n out" if "off + n \<le> 81 \<or> 97 \<le> off" "off + n \<le> 99 + length key_data" for off n
    using f that len by simp
  note o = eapol_field_slices [OF assms(1,2) out]
  have "[(f @ pad) ! 0, (f @ pad) ! 1] = [1, 3]" using s [of 0 2] o(1) len f(1)
    by (simp add: slice_def take_Suc_conv_app_nth numeral_2_eq_2 nth_append)
  moreover have "[(f @ pad) ! 4] = [2]" using s [of 4 1] o(3) len f(1) nth_slice_1 [of 4 "f @ pad"] by simp
  moreover have "unat (of_nat (95 + length key_data) :: u16) = 95 + length key_data"
    "unat (of_nat (length key_data) :: u16) = length key_data" using assms(3) by (simp_all add: unat_of_nat del: of_nat_add)
  ultimately show ?thesis
    using s [of 2 2] s [of 5 2] s [of 7 2] s [of 9 8] s [of 17 32] s [of 97 2] s [of 99 "length key_data"] o len f(1)
    by (simp add: wpa2_eapol_parse_def Let_def)
qed

text \<open>The MIC check compares the field with the HMAC of the frame whose MIC is zero.\<close>

lemma foldl_or_0: "foldl (\<lambda>d i. d OR g i) (a :: u8) is = 0 \<longleftrightarrow> a = 0 \<and> (\<forall>i \<in> set is. g i = 0)"
  by (induction "is" arbitrary: a) (auto simp: or_eq_0_iff)

lemma xor_0_iff: "x XOR y = 0 \<longleftrightarrow> x = (y :: 'a::len word)"
proof
  assume "x XOR y = 0"
  then have "(x XOR y) XOR y = 0 XOR y" by (simp only:)
  then show "x = y" by (simp add: xor.assoc)
qed simp

lemma mic_ok_iff:
  assumes "WPA2_EAPOL_KEY_FIXED \<le> n" "n \<le> length frame"
  shows "wpa2_eapol_mic_ok kck frame n \<longleftrightarrow>
    slice 81 16 frame = take 16 (hmac_ref kck (slice 0 81 frame @ replicate 16 0 @ slice 97 (n - 97) frame))"
proof -
  define m where "m = slice 0 81 frame @ replicate 16 0 @ slice 97 (n - 97) frame"
  let ?h = "wpa2_hmac_sha1_update (wpa2_hmac_sha1_update (wpa2_hmac_sha1_update (wpa2_hmac_sha1_begin kck)
      (slice 0 81 frame)) (replicate 16 0)) (slice 97 (n - 97) frame)"
  have "hmac_at ?h kck m"
    using hmac_update_at [OF hmac_update_at [OF hmac_update_at [OF hmac_begin_at]]] by (fastforce simp: m_def)
  then have mic: "wpa2_hmac_sha1_final ?h = hmac_ref kck m" by (rule hmac_final_at)
  have "wpa2_eapol_mic_ok kck frame n \<longleftrightarrow> (\<forall>i < 16. hmac_ref kck m ! i = frame ! (81 + i))"
    using assms(1) by (simp add: wpa2_eapol_mic_ok_def Let_def mic foldl_or_0 xor_0_iff atLeast0LessThan Ball_def)
  also have "\<dots> \<longleftrightarrow> slice 81 16 frame = take 16 (hmac_ref kck m)"
    using assms by (auto simp: list_eq_iff_nth_eq)
  finally show ?thesis by (simp add: m_def)
qed

lemma eapol_fields_split:
  assumes "length replay = 8" "length nonce = 32" "out = eapol_fields key_info key_length replay nonce key_data"
  shows "slice 0 81 out @ replicate 16 0 @ slice 97 (length out - 97) out = out"
proof -
  have len: "length out = 99 + length key_data" using assms by simp
  have "out = slice 0 (81 + (16 + (length out - 97))) out" using len by (simp add: slice_def)
  also have "\<dots> = slice 0 81 out @ slice 81 16 out @ slice 97 (length out - 97) out"
    by (subst slice_split, subst slice_split) simp
  finally show ?thesis using eapol_field_slices(8) [OF assms] by simp
qed

lemma eapol_build_mic:
  assumes "length replay = 8" "length nonce = 32" "length key_data \<le> 65440" "WPA2_EAPOL_KEY_FIXED + length key_data \<le> out_size"
  shows "\<exists>f. wpa2_eapol_build out_size key_info key_length replay nonce key_data (Some kck) = Some f
    \<and> length f = WPA2_EAPOL_KEY_FIXED + length key_data \<and> wpa2_eapol_mic_ok kck (f @ pad) (length f)
    \<and> wpa2_eapol_parse (f @ pad) = Some
        \<lparr>ek_key_info = key_info, ek_key_length = key_length, ek_replay = replay, ek_nonce = nonce, ek_key_data = key_data,
         ek_frame_len = length f\<rparr>"
proof -
  define out where "out = eapol_fields key_info key_length replay nonce key_data"
  define mic where "mic = take 16 (hmac_ref kck out)"
  define f where "f = buf_write 81 mic out"
  have len: "length out = 99 + length key_data" "length mic = 16" using assms(1,2) by (simp_all add: out_def mic_def)
  then have lenf: "length f = length out" by (simp add: f_def)
  have other: "slice off n f = slice off n out" if "off + n \<le> 81 \<or> 97 \<le> off" "off + n \<le> length out" for off n
    unfolding f_def by (rule slice_buf_write_other) (use that len in auto)
  have "slice 81 16 f = mic" using len by (simp add: f_def)
  then have "wpa2_eapol_mic_ok kck (f @ pad) (length f)"
    using len lenf other [of 0 81] other [of 97 "length out - 97"] eapol_fields_split [OF assms(1,2) out_def]
    by (subst mic_ok_iff) (simp_all add: mic_def)
  moreover have "wpa2_eapol_build out_size key_info key_length replay nonce key_data (Some kck) = Some f"
    using assms(4) by (simp add: wpa2_eapol_build_def Let_def f_def mic_def out_def wpa2_hmac_sha1_ref)
  ultimately show ?thesis
    using eapol_parse_fields [OF assms(1-3) out_def lenf other, of pad] lenf len by simp
qed

section \<open>The group key is found\<close>

text \<open>An element of the key data, and the one that holds the group key.\<close>

definition kd_element :: "u8 \<Rightarrow> bytes \<Rightarrow> bytes" where
  "kd_element type d = type # of_nat (length d) # d"

definition gtk_element :: "u8 \<Rightarrow> bytes \<Rightarrow> bytes" where
  "gtk_element kid gtk = kd_element 0xDD (GTK_KDE @ [kid, 0] @ gtk)"

definition other_element :: "u8 \<times> bytes \<Rightarrow> bool" where
  "other_element e \<longleftrightarrow> length (snd e) < 256 \<and>
     (fst e = 0xDD \<longrightarrow> snd e \<noteq> [] \<and> \<not> (length (snd e) = 22 \<and> take 4 (snd e) = GTK_KDE))"

lemma element_at:
  assumes "key_data = xs @ kd_element type d @ ys" "length d < 256"
  shows "key_data ! length xs = type" "unat (key_data ! (length xs + 1)) = length d"
    "length xs + 2 + length d \<le> length key_data" "slice (length xs + 2) (length d) key_data = d"
  using assms by (simp_all add: kd_element_def nth_append unat_of_nat slice_def)

lemma key_id_mask: "kid < 4 \<Longrightarrow> kid AND 0x03 = (kid :: u8)"
proof -
  assume "kid < 4"
  then have "unat (take_bit 2 kid) = unat kid" by (simp add: unat_take_bit word_less_nat_alt)
  then have "take_bit 2 kid = kid" by (rule unsigned_word_eqI)
  moreover have "(0x03 :: u8) = mask 2" by (simp add: mask_eq_exp_minus_1)
  ultimately show ?thesis by (simp only: take_bit_eq_mask)
qed

lemma find_gtk_elements:
  assumes "list_all other_element es" "length gtk = 16" "kid < 4"
  shows "find_gtk_from (xs @ concat (map (\<lambda>(type, d). kd_element type d) es) @ gtk_element kid gtk @ pad) (length xs) = Some (kid, gtk)"
  using assms(1)
proof (induction es arbitrary: xs)
  case Nil
  let ?kd = "xs @ gtk_element kid gtk @ pad" and ?d = "GTK_KDE @ [kid, 0] @ gtk"
  have d: "length ?d = 22" using assms(2) by (simp add: GTK_KDE_def)
  then have e: "?kd ! length xs = 0xDD" "unat (?kd ! (length xs + 1)) = 22" "length xs + 2 + 22 \<le> length ?kd"
    using element_at [where key_data = ?kd and xs = xs and type = "0xDD" and d = ?d and ys = pad] by (simp_all add: gtk_element_def)
  have "slice (length xs + 2) 4 ?kd = GTK_KDE" "?kd ! (length xs + 6) = kid" "slice (length xs + 8) 16 ?kd = gtk"
    using assms(2) by (simp_all add: gtk_element_def kd_element_def GTK_KDE_def slice_def nth_append)
  then show ?case using e key_id_mask [OF assms(3)] by (subst find_gtk_from.simps) (simp add: Let_def)
next
  case (Cons e es)
  obtain type d where td: "e = (type, d)" by fastforce
  let ?kd = "xs @ concat (map (\<lambda>(type, d). kd_element type d) (e # es)) @ gtk_element kid gtk @ pad"
  let ?rest = "concat (map (\<lambda>(type, d). kd_element type d) es) @ gtk_element kid gtk @ pad"
  have kd: "?kd = xs @ kd_element type d @ ?rest" "?kd = (xs @ kd_element type d) @ ?rest" by (simp_all add: td)
  have oth: "length d < 256" "type = 0xDD \<longrightarrow> d \<noteq> [] \<and> \<not> (length d = 22 \<and> take 4 d = GTK_KDE)"
    using Cons.prems by (simp_all add: td other_element_def)
  note el = element_at [OF kd(1) oth(1)]
  have "find_gtk_from ?kd (length xs) = find_gtk_from ?kd (length xs + 2 + length d)"
  proof -
    have "slice (length xs + 2) 4 ?kd = take 4 d" if "length d = 22"
      using el(4) that slice_slice [of 0 4 22 "length xs + 2" ?kd] by (simp add: slice_def)
    then show ?thesis using el oth(2) by (subst find_gtk_from.simps) (auto simp: Let_def)
  qed
  also have "\<dots> = find_gtk_from ((xs @ kd_element type d) @ ?rest) (length (xs @ kd_element type d))"
  proof -
    have "length xs + 2 + length d = length (xs @ kd_element type d)" by (simp add: kd_element_def)
    then show ?thesis by (simp only: kd(2))
  qed
  finally show ?case using Cons.IH [of "xs @ kd_element type d"] Cons.prems by simp
qed

text \<open>Nothing but a 16-byte key and an id below 4 is ever returned.\<close>

lemma find_gtk_range: "find_gtk_from kd i = Some (kid, gtk) \<Longrightarrow> length gtk = 16 \<and> kid < 4"
proof (induction kd i rule: find_gtk_from.induct)
  case (1 kd i)
  have "x AND 0x03 < (4 :: u8)" for x
    using word_and_le1 [of x 3] by (simp add: word_le_nat_alt word_less_nat_alt)
  then show ?case using 1 by (subst (asm) (2) find_gtk_from.simps) (auto simp: Let_def split: if_splits)
qed

section \<open>Theorems\<close>

text \<open>A frame built by \<open>wpa2_eapol_build\<close> is read back by \<open>wpa2_eapol_parse\<close>, whatever padding follows it: the key
  information, key length, replay counter, nonce and key data are the ones put in, and the frame length is the frame's;
  and the MIC it carries passes \<open>wpa2_eapol_mic_ok\<close> under the same key.\<close>

theorem wpa2_eapol_roundtrip:
  assumes "length replay = 8" "length nonce = 32" "length key_data \<le> 65440" "WPA2_EAPOL_KEY_FIXED + length key_data \<le> out_size"
  shows "\<exists>f. wpa2_eapol_build out_size key_info key_length replay nonce key_data (Some kck) = Some f
    \<and> wpa2_eapol_mic_ok kck (f @ pad) (length f)
    \<and> wpa2_eapol_parse (f @ pad) = Some
        \<lparr>ek_key_info = key_info, ek_key_length = key_length, ek_replay = replay, ek_nonce = nonce, ek_key_data = key_data,
         ek_frame_len = length f\<rparr>"
  using eapol_build_mic [OF assms] by blast

theorem wpa2_eapol_roundtrip_witness:
  "\<exists>f. wpa2_eapol_build 512 0x010A 0 (replicate 8 1) (replicate 32 2) WPA2_RSN_IE (Some (replicate 16 3)) = Some f
    \<and> wpa2_eapol_mic_ok (replicate 16 3) (f @ [0, 0]) (length f)
    \<and> wpa2_eapol_parse (f @ [0, 0]) = Some
        \<lparr>ek_key_info = 0x010A, ek_key_length = 0, ek_replay = replicate 8 1, ek_nonce = replicate 32 2, ek_key_data = WPA2_RSN_IE,
         ek_frame_len = length f\<rparr>"
  using wpa2_eapol_roundtrip [of "replicate 8 1" "replicate 32 2" WPA2_RSN_IE 512 "0x010A" 0 "replicate 16 3" "[0, 0]"]
  by (simp add: WPA2_RSN_IE_def)

text \<open>\<open>wpa2_find_gtk\<close> finds the group key behind any other well-formed elements and before any padding, and whatever
  it returns, for any bytes at all, is a key of 16 bytes and an id below 4.\<close>

theorem wpa2_find_gtk_correct:
  assumes "list_all other_element es" "length gtk = 16" "kid < 4"
  shows "wpa2_find_gtk (concat (map (\<lambda>(type, d). kd_element type d) es) @ gtk_element kid gtk @ pad) = Some (kid, gtk)
    \<and> (wpa2_find_gtk kd = Some (kid', gtk') \<longrightarrow> length gtk' = 16 \<and> kid' < 4)"
  using find_gtk_elements [OF assms, of "[]" pad] find_gtk_range by (simp add: wpa2_find_gtk_def)

theorem wpa2_find_gtk_correct_witness:
  "wpa2_find_gtk (WPA2_RSN_IE @ gtk_element 1 (replicate 16 9) @ [0xDD, 0]) = Some (1, replicate 16 9)"
proof -
  have "WPA2_RSN_IE = concat (map (\<lambda>(type, d). kd_element type d) [(0x30, drop 2 WPA2_RSN_IE)])"
    by (simp add: WPA2_RSN_IE_def kd_element_def)
  moreover have "list_all other_element [(0x30, drop 2 WPA2_RSN_IE)]" by (simp add: other_element_def WPA2_RSN_IE_def)
  ultimately show ?thesis
    using wpa2_find_gtk_correct [of "[(0x30, drop 2 WPA2_RSN_IE)]" "replicate 16 9" 1 "[0xDD, 0]"] by simp
qed

end
