(* ===== verification/Wpa2_Aes.thy ===== *)
theory Wpa2_Aes
  imports Prelude
begin

text \<open>
  AES-128 and the RFC 3394 key wrap of \<open>src/src/platform/port_wifi/api/wpa2_aes.c\<close>. A block is a list of 16 bytes, the
  tables are the lists that \<open>init_tables\<close> builds on first use. Decryption inverts encryption and the other way round,
  and a wrapped key is unwrapped to itself; conversely, unwrapping accepts nothing but the output of a wrap.
\<close>

section \<open>Tables\<close>

definition rotl8 :: "u8 \<Rightarrow> nat \<Rightarrow> u8" where
  "rotl8 x n = push_bit n x OR drop_bit (8 - n) x"

definition xtime :: "u8 \<Rightarrow> u8" where
  "xtime x = push_bit 1 x XOR (drop_bit 7 x * 0x1b)"

text \<open>The loop of \<open>init_tables\<close>: \<open>p\<close> walks through the powers of 3, \<open>q\<close> through their inverses.\<close>

definition next_p :: "u8 \<Rightarrow> u8" where
  "next_p p = p XOR push_bit 1 p XOR (if p AND 0x80 \<noteq> 0 then 0x1b else 0)"

definition next_q :: "u8 \<Rightarrow> u8" where
  "next_q q =
     (let q = q XOR push_bit 1 q; q = q XOR push_bit 2 q; q = q XOR push_bit 4 q
      in if q AND 0x80 \<noteq> 0 then q XOR 0x09 else q)"

definition sbox_value :: "u8 \<Rightarrow> u8" where
  "sbox_value q = q XOR rotl8 q 1 XOR rotl8 q 2 XOR rotl8 q 3 XOR rotl8 q 4 XOR 0x63"

text \<open>The loop runs until \<open>p\<close> is 1 again; \<open>None\<close> is a loop that has not ended after \<open>fuel\<close> rounds.\<close>

fun init_loop :: "nat \<Rightarrow> u8 \<Rightarrow> u8 \<Rightarrow> bytes \<Rightarrow> bytes option" where
  "init_loop 0 p q sbox = None"
| "init_loop (Suc fuel) p q sbox =
     (let p = next_p p; q = next_q q; sbox = sbox[unat p := sbox_value q]
      in if p \<noteq> 1 then init_loop fuel p q sbox else Some sbox)"

definition s_sbox :: bytes where
  "s_sbox = (case init_loop 255 1 1 (replicate 256 0) of None \<Rightarrow> [] | Some sbox \<Rightarrow> sbox[0 := 0x63])"

definition s_inv :: bytes where
  "s_inv = foldl (\<lambda>t i. t[unat (s_sbox ! i) := of_nat i]) (replicate 256 0) [0..<256]"

section \<open>Rounds\<close>

definition expand_word :: "nat \<Rightarrow> bytes \<times> u8 \<Rightarrow> bytes \<times> u8" where
  "expand_word i = (\<lambda>(rk, rcon).
     let t = slice (i - 4) 4 rk;
         (t, rcon) =
           (if i mod 16 = 0
            then ([s_sbox ! unat (t ! 1) XOR rcon, s_sbox ! unat (t ! 2), s_sbox ! unat (t ! 3), s_sbox ! unat (t ! 0)],
                  xtime rcon)
            else (t, rcon))
     in (rk @ map2 (XOR) (slice (i - 16) 4 rk) t, rcon))"

definition expand :: "bytes \<Rightarrow> bytes" where
  "expand key = fst (foldl (\<lambda>st k. expand_word (16 + 4 * k) st) (key, 1) [0..<40])"

definition add_key :: "bytes \<Rightarrow> bytes \<Rightarrow> bytes" where
  "add_key k s = map2 (XOR) s k"

definition sub_bytes :: "bytes \<Rightarrow> bytes \<Rightarrow> bytes" where
  "sub_bytes box s = map (\<lambda>x. box ! unat x) s"

definition shift_rows :: "bytes \<Rightarrow> bytes" where
  "shift_rows s = concat (map (\<lambda>c. map (\<lambda>r. s ! (4 * ((c + r) mod 4) + r)) [0..<4]) [0..<4])"

definition inv_shift_rows :: "bytes \<Rightarrow> bytes" where
  "inv_shift_rows s =
     foldl (\<lambda>t c. foldl (\<lambda>t r. t[4 * ((c + r) mod 4) + r := s ! (4 * c + r)]) t [0..<4]) (replicate 16 0) [0..<4]"

definition mix_column :: "bytes \<Rightarrow> bytes" where
  "mix_column a =
     (let t = a ! 0 XOR a ! 1 XOR a ! 2 XOR a ! 3
      in [a ! 0 XOR (t XOR xtime (a ! 0 XOR a ! 1)), a ! 1 XOR (t XOR xtime (a ! 1 XOR a ! 2)),
          a ! 2 XOR (t XOR xtime (a ! 2 XOR a ! 3)), a ! 3 XOR (t XOR xtime (a ! 3 XOR a ! 0))])"

definition mix_columns :: "bytes \<Rightarrow> bytes" where
  "mix_columns s = concat (map (\<lambda>c. mix_column (slice (4 * c) 4 s)) [0..<4])"

definition inv_mix_column :: "bytes \<Rightarrow> bytes" where
  "inv_mix_column a =
     (let u = xtime (xtime (a ! 0 XOR a ! 2)); v = xtime (xtime (a ! 1 XOR a ! 3))
      in [a ! 0 XOR u, a ! 1 XOR v, a ! 2 XOR u, a ! 3 XOR v])"

definition inv_mix_columns :: "bytes \<Rightarrow> bytes" where
  "inv_mix_columns s = mix_columns (concat (map (\<lambda>c. inv_mix_column (slice (4 * c) 4 s)) [0..<4]))"

definition wpa2_aes128_encrypt :: "bytes \<Rightarrow> bytes \<Rightarrow> bytes" where
  "wpa2_aes128_encrypt key inp =
     (let rk = expand key;
          s = add_key (slice 0 16 rk) inp;
          s = foldl (\<lambda>s r. add_key (slice (16 * r) 16 rk) (mix_columns (shift_rows (sub_bytes s_sbox s)))) s [1..<10]
      in add_key (slice 160 16 rk) (shift_rows (sub_bytes s_sbox s)))"

definition wpa2_aes128_decrypt :: "bytes \<Rightarrow> bytes \<Rightarrow> bytes" where
  "wpa2_aes128_decrypt key inp =
     (let rk = expand key;
          s = add_key (slice 160 16 rk) inp;
          s = foldl (\<lambda>s r. inv_mix_columns (add_key (slice (16 * r) 16 rk) (sub_bytes s_inv (inv_shift_rows s)))) s (rev [1..<10])
      in add_key (slice 0 16 rk) (sub_bytes s_inv (inv_shift_rows s)))"

section \<open>Key wrap\<close>

definition k_iv :: bytes where
  "k_iv = replicate 8 0xA6"

text \<open>\<open>a[7] ^= (uint8_t)t; a[6] ^= (uint8_t)(t >> 8)\<close>.\<close>

definition xor_count :: "u32 \<Rightarrow> bytes \<Rightarrow> bytes" where
  "xor_count t a = a[7 := a ! 7 XOR ucast t, 6 := a ! 6 XOR ucast (drop_bit 8 t)]"

text \<open>One turn of the inner loops: the register \<open>a\<close> and the blocks, of which the \<open>i\<close>-th (from 1) lies at \<open>8 * (i - 1)\<close>.
  \<open>out\<close> is \<open>out + 8\<close> in the wrap and \<open>out\<close> in the unwrap.\<close>

definition wrap_step :: "bytes \<Rightarrow> nat \<Rightarrow> nat \<Rightarrow> bytes \<times> bytes \<Rightarrow> nat \<Rightarrow> bytes \<times> bytes" where
  "wrap_step kek n j = (\<lambda>(a, out) i.
     let b = wpa2_aes128_encrypt kek (a @ slice (8 * (i - 1)) 8 out);
         t = of_nat (n * j + i)
     in (xor_count t (take 8 b), buf_write (8 * (i - 1)) (drop 8 b) out))"

definition wpa2_aes_key_wrap :: "bytes \<Rightarrow> bytes \<Rightarrow> bytes" where
  "wpa2_aes_key_wrap kek plain =
     (let n = length plain div 8;
          (a, out) = foldl (\<lambda>st j. foldl (wrap_step kek n j) st [1..<n + 1]) (k_iv, plain) [0..<6]
      in a @ out)"

definition unwrap_step :: "bytes \<Rightarrow> nat \<Rightarrow> nat \<Rightarrow> bytes \<times> bytes \<Rightarrow> nat \<Rightarrow> bytes \<times> bytes" where
  "unwrap_step kek n j = (\<lambda>(a, out) i.
     let t = of_nat (n * j + i);
         b = wpa2_aes128_decrypt kek (xor_count t a @ slice (8 * (i - 1)) 8 out)
     in (take 8 b, buf_write (8 * (i - 1)) (drop 8 b) out))"

text \<open>\<open>None\<close> is false.\<close>

definition wpa2_aes_key_unwrap :: "bytes \<Rightarrow> bytes \<Rightarrow> bytes option" where
  "wpa2_aes_key_unwrap kek inp =
     (if length inp < 24 \<or> length inp mod 8 \<noteq> 0 then None
      else
        let n = length inp div 8 - 1;
            (a, out) = foldl (\<lambda>st j. foldl (unwrap_step kek n j) st (rev [1..<n + 1])) (take 8 inp, drop 8 inp) (rev [0..<6])
        in if a = k_iv then Some out else None)"

section \<open>Linear maps on bytes\<close>

text \<open>The maps of AES are linear over XOR, so two of them agree as soon as they agree on the eight bytes of one bit.\<close>

definition linear :: "(u8 \<Rightarrow> u8) \<Rightarrow> bool" where
  "linear f \<longleftrightarrow> (\<forall>x y. f (x XOR y) = f x XOR f y)"

named_theorems linear_intros "rules for linear maps"

lemma linear_id [linear_intros]: "linear (\<lambda>x. x)"
  by (simp add: linear_def)

lemma linear_xor [linear_intros]: "linear f \<Longrightarrow> linear g \<Longrightarrow> linear (\<lambda>x. f x XOR g x)"
  by (simp add: linear_def ac_simps)

lemma linear_push [linear_intros]: "linear f \<Longrightarrow> linear (\<lambda>x. push_bit n (f x))"
  by (simp add: linear_def)

lemma linear_drop [linear_intros]: "linear f \<Longrightarrow> linear (\<lambda>x. drop_bit n (f x))"
  by (simp add: linear_def)

lemma linear_test [linear_intros]: "linear f \<Longrightarrow> linear (\<lambda>x. if bit (f x) n then c else 0)"
  by (simp add: linear_def bit_xor_iff)

lemma linear_comp: "linear f \<Longrightarrow> linear g \<Longrightarrow> linear (\<lambda>x. f (g x))"
  by (simp add: linear_def)

lemma linear_0: "linear f \<Longrightarrow> f 0 = 0"
  unfolding linear_def by (metis xor_self_eq)

lemma byte_bits:
  "(x :: u8) = (if bit x 0 then 1 else 0) XOR (if bit x 1 then 2 else 0) XOR (if bit x 2 then 4 else 0)
     XOR (if bit x 3 then 8 else 0) XOR (if bit x 4 then 16 else 0) XOR (if bit x 5 then 32 else 0)
     XOR (if bit x 6 then 64 else 0) XOR (if bit x 7 then 128 else 0)"
proof (rule bit_word_eqI)
  fix n assume "n < LENGTH(8)"
  then have "n = 0 \<or> n = 1 \<or> n = 2 \<or> n = 3 \<or> n = 4 \<or> n = 5 \<or> n = 6 \<or> n = 7" by auto
  then show "bit x n = bit ((if bit x 0 then 1 else 0) XOR (if bit x 1 then 2 else 0) XOR (if bit x 2 then 4 else 0)
     XOR (if bit x 3 then 8 else 0) XOR (if bit x 4 then 16 else 0) XOR (if bit x 5 then 32 else 0)
     XOR (if bit x 6 then 64 else 0) XOR (if bit x 7 then 128 else 0) :: u8) n"
    by (elim disjE) (simp_all add: bit_xor_iff)
qed

lemma linear_ext:
  assumes "linear f" "linear g" "list_all (\<lambda>b. f b = g b) [1, 2, 4, 8, 16, 32, 64, 128]"
  shows "f x = g x"
proof -
  have b: "f (if b then c else 0) = (if b then f c else 0)" "g (if b then c else 0) = (if b then g c else 0)" for b c
    using linear_0 assms(1,2) by auto
  have "f (a XOR c) = f a XOR f c" "g (a XOR c) = g a XOR g c" for a c using assms(1,2) by (auto simp: linear_def)
  then show ?thesis using assms(3) by (subst (1 2) byte_bits) (simp only: b list.pred_inject)
qed

lemma test_0x80: "x AND 0x80 \<noteq> 0 \<longleftrightarrow> bit (x :: u8) 7"
proof -
  have "x AND 0x80 = (if bit x 7 then 0x80 else 0)"
  proof (rule bit_word_eqI)
    fix n assume "n < LENGTH(8)"
    then have "n = 0 \<or> n = 1 \<or> n = 2 \<or> n = 3 \<or> n = 4 \<or> n = 5 \<or> n = 6 \<or> n = 7" by auto
    then show "bit (x AND 0x80) n = bit (if bit x 7 then 0x80 else 0 :: u8) n"
      by (elim disjE) (simp_all add: bit_and_iff)
  qed
  then show ?thesis by simp
qed

section \<open>The tables\<close>

lemma xtime_alt: "xtime x = push_bit 1 x XOR (if bit x 7 then 0x1b else 0)"
proof -
  have "drop_bit 7 x = (if bit x 7 then 1 else 0)"
  proof (rule bit_word_eqI)
    fix n
    show "bit (drop_bit 7 x) n = bit (if bit x 7 then 1 else 0 :: u8) n"
      using bit_imp_le_length [of x "7 + n"] by (cases n) (auto simp: bit_simps)
  qed
  then show ?thesis by (simp add: xtime_def)
qed

lemma linear_xtime: "linear xtime"
  unfolding xtime_alt by (intro linear_intros)

lemma xtime_xor: "xtime (x XOR y) = xtime x XOR xtime y"
  using linear_xtime by (simp add: linear_def)

lemma linear_next_p: "linear next_p"
  unfolding next_p_def test_0x80 by (intro linear_intros)

lemma next_q_alt:
  "next_q q = (let q = q XOR push_bit 1 q; q = q XOR push_bit 2 q; q = q XOR push_bit 4 q
      in q XOR (if bit q 7 then 0x09 else 0))"
  by (simp add: next_q_def Let_def test_0x80)

lemma linear_next_q: "linear next_q"
  unfolding next_q_alt Let_def by (intro linear_intros)

lemma next_pq: "next_p (next_q x) = x" "next_q (next_p x) = x"
  by (rule linear_ext [OF linear_comp [OF linear_next_p linear_next_q] linear_id],
      simp add: next_p_def next_q_def rotl8_def)
    (rule linear_ext [OF linear_comp [OF linear_next_q linear_next_p] linear_id],
      simp add: next_p_def next_q_def rotl8_def)

text \<open>The powers of 3 between the first and the last, which is 1 again.\<close>

definition powers_of_3 :: bytes where
  "powers_of_3 =
    [3, 5, 15, 17, 51, 85, 255, 26, 46, 114, 150, 161, 248, 19, 53, 95, 225, 56, 72, 216, 115, 149, 164, 247,
     2, 6, 10, 30, 34, 102, 170, 229, 52, 92, 228, 55, 89, 235, 38, 106, 190, 217, 112, 144, 171, 230, 49,
     83, 245, 4, 12, 20, 60, 68, 204, 79, 209, 104, 184, 211, 110, 178, 205, 76, 212, 103, 169, 224, 59, 77,
     215, 98, 166, 241, 8, 24, 40, 120, 136, 131, 158, 185, 208, 107, 189, 220, 127, 129, 152, 179, 206, 73,
     219, 118, 154, 181, 196, 87, 249, 16, 48, 80, 240, 11, 29, 39, 105, 187, 214, 97, 163, 254, 25, 43, 125,
     135, 146, 173, 236, 47, 113, 147, 174, 233, 32, 96, 160, 251, 22, 58, 78, 210, 109, 183, 194, 93, 231,
     50, 86, 250, 21, 63, 65, 195, 94, 226, 61, 71, 201, 64, 192, 91, 237, 44, 116, 156, 191, 218, 117, 159,
     186, 213, 100, 172, 239, 42, 126, 130, 157, 188, 223, 122, 142, 137, 128, 155, 182, 193, 88, 232, 35,
     101, 175, 234, 37, 111, 177, 200, 67, 197, 84, 252, 31, 33, 99, 165, 244, 7, 9, 27, 45, 119, 153, 176,
     203, 70, 202, 69, 207, 74, 222, 121, 139, 134, 145, 168, 227, 62, 66, 198, 81, 243, 14, 18, 54, 90, 238,
     41, 123, 141, 140, 143, 138, 133, 148, 167, 242, 13, 23, 57, 75, 221, 124, 132, 151, 162, 253, 28, 36,
     108, 180, 199, 82, 246]"

fun next_p_chain :: "u8 \<Rightarrow> bytes \<Rightarrow> bool" where
  "next_p_chain p [] \<longleftrightarrow> next_p p = 1"
| "next_p_chain p (p' # ps) \<longleftrightarrow> next_p p = p' \<and> p' \<noteq> 1 \<and> next_p_chain p' ps"

lemma powers_of_3_chain: "next_p_chain 1 powers_of_3"
  by (simp add: powers_of_3_def next_p_def)

lemma length_powers_of_3: "length powers_of_3 = 254"
  by (simp add: powers_of_3_def)

lemma next_p_chain_funpow:
  "next_p_chain p ps \<Longrightarrow> (next_p ^^ Suc (length ps)) p = 1 \<and> (\<forall>k. 0 < k \<and> k \<le> length ps \<longrightarrow> (next_p ^^ k) p \<noteq> 1)"
proof (induction ps arbitrary: p)
  case (Cons p' ps)
  then have "(next_p ^^ Suc (length ps)) p' = 1 \<and> (\<forall>k. 0 < k \<and> k \<le> length ps \<longrightarrow> (next_p ^^ k) p' \<noteq> 1)" by simp
  moreover have "(next_p ^^ Suc k) p = (next_p ^^ k) p'" for k using Cons.prems by (simp add: funpow_Suc_right del: funpow.simps)
  ultimately show ?case using Cons.prems
    by (metis (no_types, lifting) Suc_le_mono bot_nat_0.not_eq_extremum funpow_0 length_Cons next_p_chain.simps(2) old.nat.exhaust)
qed simp

lemma next_p_period: "(next_p ^^ 255) 1 = 1" "0 < k \<Longrightarrow> k < 255 \<Longrightarrow> (next_p ^^ k) 1 \<noteq> 1"
  using next_p_chain_funpow [OF powers_of_3_chain] by (auto simp: length_powers_of_3 simp del: funpow.simps)

lemma funpow_cancel:
  fixes f g :: "'a \<Rightarrow> 'a"
  assumes "\<And>x. f (g x) = x"
  shows "(f ^^ k) ((g ^^ k) x) = x"
proof (induction k)
  case (Suc k)
  have "(f ^^ Suc k) ((g ^^ Suc k) x) = (f ^^ k) (f (g ((g ^^ k) x)))" by (simp add: funpow_swap1)
  then show ?case using Suc assms by simp
qed simp

lemma next_q_period: "0 < k \<Longrightarrow> k < 255 \<Longrightarrow> (next_q ^^ k) 1 \<noteq> 1"
proof
  assume "0 < k" "k < 255" "(next_q ^^ k) 1 = 1"
  then have "(next_p ^^ k) 1 = 1" using funpow_cancel [of next_p next_q k 1] next_pq(1) by simp
  then show False using next_p_period(2) \<open>0 < k\<close> \<open>k < 255\<close> by blast
qed

text \<open>An orbit of an injective map that returns to its start first after \<open>n\<close> steps has no repetition.\<close>

lemma orbit_inj:
  assumes inj: "\<And>x. g (f x) = x" and period: "\<And>k. 0 < k \<Longrightarrow> k < n \<Longrightarrow> (f ^^ k) x \<noteq> x"
    and "0 < i" "i \<le> n" "0 < j" "j \<le> n" "(f ^^ i) x = (f ^^ j) x"
  shows "i = j"
proof -
  have less: "\<not> a < b" if "0 < a" "b \<le> n" "(f ^^ a) x = (f ^^ b) x" for a b
  proof
    assume "a < b"
    then have "(f ^^ b) x = (f ^^ a) ((f ^^ (b - a)) x)" by (simp flip: funpow_add comp_apply [of "f ^^ a"])
    then have "(g ^^ a) ((f ^^ a) x) = (g ^^ a) ((f ^^ a) ((f ^^ (b - a)) x))" using that(3) by simp
    then have "x = (f ^^ (b - a)) x" using funpow_cancel [of g f a] inj by simp
    moreover have "0 < b - a" "b - a < n" using \<open>a < b\<close> that by auto
    ultimately show False using period by metis
  qed
  show ?thesis using less [of i j] less [of j i] assms(3-) by (cases i j rule: linorder_cases) auto
qed

lemma sbox_value_inj: "sbox_value x = sbox_value y \<Longrightarrow> x = y"
proof -
  define L where "L q = q XOR rotl8 q 1 XOR rotl8 q 2 XOR rotl8 q 3 XOR rotl8 q 4" for q :: u8
  define M where "M q = rotl8 q 1 XOR rotl8 q 3 XOR rotl8 q 6" for q :: u8
  have rot: "linear (\<lambda>q. rotl8 q n)" if "n < 8" for n
  proof -
    have "rotl8 q n = push_bit n q XOR drop_bit (8 - n) q" for q
      by (rule bit_word_eqI) (use that in \<open>auto simp: rotl8_def bit_simps dest: bit_imp_le_length\<close>)
    then show ?thesis by (simp only:) (intro linear_intros)
  qed
  have LM: "linear L" "linear M" unfolding L_def M_def by (intro linear_xor linear_id rot, simp_all)+
  have inv: "M (L q) = q" for q
    by (rule linear_ext [OF linear_comp [OF LM(2,1)] linear_id]) (simp add: L_def rotl8_def, simp add: M_def rotl8_def)
  assume "sbox_value x = sbox_value y"
  then have "L x XOR 0x63 = L y XOR 0x63" by (simp add: sbox_value_def L_def xor.assoc)
  then have "(L x XOR 0x63) XOR 0x63 = (L y XOR 0x63) XOR 0x63" by (simp only:)
  then have "L x = L y" by (simp add: xor.assoc)
  then show "x = y" using inv by metis
qed

abbreviation p_at :: "nat \<Rightarrow> u8" where "p_at k \<equiv> (next_p ^^ k) 1"
abbreviation q_at :: "nat \<Rightarrow> u8" where "q_at k \<equiv> (next_q ^^ k) 1"

lemma p_at_inj: "0 < i \<Longrightarrow> i \<le> 255 \<Longrightarrow> 0 < j \<Longrightarrow> j \<le> 255 \<Longrightarrow> p_at i = p_at j \<Longrightarrow> i = j"
  using orbit_inj [of next_q next_p 255 1 i j] next_pq(2) next_p_period(2) by blast

lemma q_at_inj: "0 < i \<Longrightarrow> i \<le> 255 \<Longrightarrow> 0 < j \<Longrightarrow> j \<le> 255 \<Longrightarrow> q_at i = q_at j \<Longrightarrow> i = j"
  using orbit_inj [of next_p next_q 255 1 i j] next_pq(1) next_q_period by blast

lemma pq_at_nonzero: "p_at k \<noteq> 0" "q_at k \<noteq> 0"
proof -
  have "(next_q ^^ k) 0 = 0" "(next_p ^^ k) 0 = 0"
    by (induction k) (simp_all add: linear_0 [OF linear_next_p] linear_0 [OF linear_next_q])
  then show "p_at k \<noteq> 0" "q_at k \<noteq> 0"
    using funpow_cancel [of next_q next_p k 1] funpow_cancel [of next_p next_q k 1] next_pq by auto
qed

lemma init_loop_walk:
  "j < 255 \<Longrightarrow> init_loop (255 - j) (p_at j) (q_at j) sbox
     = Some (foldl (\<lambda>t k. t[unat (p_at k) := sbox_value (q_at k)]) sbox [Suc j..<256])"
proof (induction "255 - j" arbitrary: j sbox)
  case (Suc n)
  have loop: "init_loop (255 - j) (p_at j) (q_at j) sbox =
      (let sbox = sbox[unat (p_at (Suc j)) := sbox_value (q_at (Suc j))]
       in if p_at (Suc j) \<noteq> 1 then init_loop n (p_at (Suc j)) (q_at (Suc j)) sbox else Some sbox)"
    by (simp flip: Suc.hyps(2) add: Let_def)
  have upt: "[Suc j..<256] = Suc j # [Suc (Suc j)..<256]" using Suc.prems by (simp add: upt_conv_Cons)
  show ?case
  proof (cases "Suc j = 255")
    case True
    then have "p_at (Suc j) = 1" "[Suc (Suc j)..<256] = []" using next_p_period(1) by (simp_all del: funpow.simps)
    then show ?thesis unfolding loop upt by (simp add: Let_def del: funpow.simps)
  next
    case False
    then have "p_at (Suc j) \<noteq> 1" "n = 255 - Suc j" using next_p_period(2) [of "Suc j"] Suc by auto
    then show ?thesis unfolding loop upt using Suc.hyps(1) [of "Suc j"] False Suc.prems
      by (simp add: Let_def del: funpow.simps)
  qed
qed simp

lemma foldl_update_nth:
  assumes "\<And>k. k \<in> set ks \<Longrightarrow> i k < length t" "inj_on i (set ks)" "distinct ks"
  shows "length (foldl (\<lambda>t k. t[i k := v k]) t ks) = length t"
    "k \<in> set ks \<Longrightarrow> foldl (\<lambda>t k. t[i k := v k]) t ks ! i k = v k"
    "n \<notin> i ` set ks \<Longrightarrow> n < length t \<Longrightarrow> foldl (\<lambda>t k. t[i k := v k]) t ks ! n = t ! n"
proof -
  show len: "length (foldl (\<lambda>t k. t[i k := v k]) t ks) = length t" for ks t by (induction ks arbitrary: t) auto
  show other: "n \<notin> i ` set ks \<Longrightarrow> n < length t \<Longrightarrow> foldl (\<lambda>t k. t[i k := v k]) t ks ! n = t ! n" for ks t n
    by (induction ks arbitrary: t) auto
  show "k \<in> set ks \<Longrightarrow> foldl (\<lambda>t k. t[i k := v k]) t ks ! i k = v k"
    using assms
  proof (induction ks arbitrary: t)
    case (Cons a ks)
    show ?case
    proof (cases "k = a")
      case True
      then have "i k \<notin> i ` set ks" using Cons.prems by (auto simp: inj_on_def)
      then show ?thesis using True Cons.prems other by simp
    next
      case False
      then show ?thesis using Cons by simp
    qed
  qed simp
qed

text \<open>The S-box has 256 different entries, and the inverse table takes each back.\<close>

lemma s_sbox_eq:
  "s_sbox = (foldl (\<lambda>t k. t[unat (p_at k) := sbox_value (q_at k)]) (replicate 256 0) [1..<256])[0 := 0x63]"
proof -
  have "init_loop 255 1 1 (replicate 256 0)
      = Some (foldl (\<lambda>t k. t[unat (p_at k) := sbox_value (q_at k)]) (replicate 256 0) [1..<256])"
    using init_loop_walk [of 0 "replicate 256 0"] by (simp only: funpow_0 diff_zero One_nat_def zero_less_numeral if_True)
  then show ?thesis by (simp only: s_sbox_def option.case)
qed

lemma unat_byte_less: "unat (x :: u8) < 256"
  using unsigned_less [of x] by simp

lemma unat_byte_inj: "unat (x :: u8) = unat y \<Longrightarrow> x = y"
proof -
  assume "unat x = unat y"
  then have "(of_nat (unat x) :: u8) = of_nat (unat y)" by (simp only:)
  then show "x = y" by simp
qed

lemma s_sbox_nth: "length s_sbox = 256" "0 < k \<Longrightarrow> k \<le> 255 \<Longrightarrow> s_sbox ! unat (p_at k) = sbox_value (q_at k)"
  "s_sbox ! 0 = 0x63"
proof -
  define t where "t = foldl (\<lambda>t k. t[unat (p_at k) := sbox_value (q_at k)]) (replicate 256 0) [1..<256]"
  have inj: "inj_on (\<lambda>k. unat (p_at k)) (set [1..<256])"
    by (rule inj_onI, rule p_at_inj) (auto dest: unat_byte_inj)
  note f = foldl_update_nth [where ks = "[1..<256]" and i = "\<lambda>k. unat (p_at k)" and t = "replicate 256 0"
      and v = "\<lambda>k. sbox_value (q_at k)", OF _ inj]
  have "length t = length (replicate 256 (0 :: u8))" unfolding t_def by (rule f(1)) (simp_all add: unat_byte_less)
  then have len: "length t = 256" by simp
  have val: "t ! unat (p_at k) = sbox_value (q_at k)" if "0 < k" "k \<le> 255" for k
    unfolding t_def by (rule f(2)) (use that in \<open>simp_all add: unat_byte_less\<close>)
  have sbox: "s_sbox = t[0 := 0x63]" unfolding t_def by (rule s_sbox_eq)
  show "length s_sbox = 256" "s_sbox ! 0 = 0x63" using len by (simp_all add: sbox)
  show "s_sbox ! unat (p_at k) = sbox_value (q_at k)" if "0 < k" "k \<le> 255"
    using val [OF that] pq_at_nonzero(1) [of k] by (simp add: sbox unat_eq_0)
qed

lemma byte_is_power: "x \<noteq> 0 \<Longrightarrow> \<exists>k. 0 < k \<and> k \<le> 255 \<and> (x :: u8) = p_at k"
proof -
  assume "x \<noteq> 0"
  have "inj_on p_at {1..255}" by (rule inj_onI, rule p_at_inj) auto
  then have "card (p_at ` {1..255}) = 255" by (simp add: card_image)
  moreover have "p_at ` {1..255} \<subseteq> UNIV - {0}" using pq_at_nonzero(1) by auto
  moreover have "card (UNIV - {0 :: u8}) = 255" by (simp add: card_Diff_subset card_word)
  ultimately have "p_at ` {1..255} = UNIV - {0}" by (intro card_subset_eq) auto
  moreover have "x \<in> UNIV - {0}" using \<open>x \<noteq> 0\<close> by simp
  ultimately have "x \<in> p_at ` {1..255}" by (simp only:)
  then obtain k where "x = p_at k" "k \<in> {1..255}" by (rule imageE)
  then show ?thesis by (intro exI [of _ k]) simp
qed

lemma s_sbox_inj: "s_sbox ! unat (x :: u8) = s_sbox ! unat y \<Longrightarrow> x = y"
proof -
  have 0: "sbox_value 0 = 0x63" by (simp add: sbox_value_def rotl8_def)
  have val: "\<exists>q. s_sbox ! unat z = sbox_value q \<and> (z = 0 \<longleftrightarrow> q = 0)
      \<and> (z \<noteq> 0 \<longrightarrow> (\<exists>k. 0 < k \<and> k \<le> 255 \<and> z = p_at k \<and> q = q_at k))" for z
    using byte_is_power [of z] s_sbox_nth 0 pq_at_nonzero(2) by (cases "z = 0") fastforce+
  assume "s_sbox ! unat x = s_sbox ! unat y"
  then show "x = y" using val [of x] val [of y] sbox_value_inj q_at_inj by metis
qed

lemma s_inv_sbox: "s_inv ! unat (s_sbox ! unat x) = x"
proof -
  have inj: "inj_on (\<lambda>i. unat (s_sbox ! i)) (set [0..<256])"
  proof (rule inj_onI)
    fix i j assume ij: "i \<in> set [0..<256]" "j \<in> set [0..<256]" "unat (s_sbox ! i) = unat (s_sbox ! j)"
    then have "unat (of_nat i :: u8) = i" "unat (of_nat j :: u8) = j" by (simp_all add: unat_of_nat)
    moreover have "s_sbox ! i = s_sbox ! j" using ij(3) by (rule unat_byte_inj)
    ultimately show "i = j" using s_sbox_inj [of "of_nat i" "of_nat j"] by metis
  qed
  have "s_inv ! unat (s_sbox ! unat x) = (of_nat (unat x) :: u8)"
    unfolding s_inv_def
    by (rule foldl_update_nth(2) [where ks = "[0..<256]" and i = "\<lambda>i. unat (s_sbox ! i)" and t = "replicate 256 0"
        and v = of_nat, OF _ inj])
      (simp_all add: unat_byte_less)
  then show ?thesis by simp
qed

section \<open>Rounds are inverted\<close>

abbreviation block :: "bytes \<Rightarrow> bool" where "block s \<equiv> length s = 16"

lemma length_s [simp]: "length (sub_bytes box s) = length s" "length (shift_rows s) = 16" "length (mix_columns s) = 16"
  "length (inv_mix_columns s) = 16" "length (inv_shift_rows s) = 16"
  by (simp_all add: sub_bytes_def shift_rows_def mix_columns_def inv_mix_columns_def mix_column_def inv_shift_rows_def upt_rec Let_def)

lemma length_add_key [simp]: "length (add_key k s) = min (length s) (length k)"
  by (simp add: add_key_def)

lemma xor_cancel: "(x XOR y) XOR y = (x :: 'a::len word)"
  by (simp add: xor.assoc)

lemma add_key_twice: "length k = length s \<Longrightarrow> add_key k (add_key k s) = s"
  by (rule nth_equalityI) (simp_all add: add_key_def xor_cancel)

lemma sub_bytes_inv: "sub_bytes s_inv (sub_bytes s_sbox s) = s"
  by (simp add: sub_bytes_def s_inv_sbox comp_def)

lemma block_elems:
  assumes "block s"
  obtains a0 a1 a2 a3 a4 a5 a6 a7 a8 a9 a10 a11 a12 a13 a14 a15
  where "s = [a0, a1, a2, a3, a4, a5, a6, a7, a8, a9, a10, a11, a12, a13, a14, a15]"
  using assms by (auto simp: numeral_eq_Suc length_Suc_conv)

lemma list_update_numeral: "(x # xs)[numeral k := v] = x # xs[pred_numeral k := v]"
  by (simp add: numeral_eq_Suc)

lemma upt_4: "[0..<4] = [0, 1, 2, 3 :: nat]"
  by (simp add: upt_rec)

lemma replicate_16: "replicate 16 x = [x, x, x, x, x, x, x, x, x, x, x, x, x, x, x, x]"
  by (simp add: numeral_eq_Suc)

lemma shift_rows_inv: "block s \<Longrightarrow> inv_shift_rows (shift_rows s) = s"
  by (erule block_elems) (simp add: shift_rows_def inv_shift_rows_def upt_4 replicate_16 list_update_numeral)

lemma xor_left_cancel: "x XOR (x XOR y) = (y :: 'a::len word)"
  by (simp add: xor.assoc [symmetric])

lemma mix_column_inv: "mix_column (inv_mix_column (mix_column [a, b, c, d])) = [a, b, c, d]"
  by (simp add: mix_column_def inv_mix_column_def Let_def xtime_xor ac_simps xor_left_cancel)

lemma slice_4: "slice 0 4 (a # b # c # d # xs) = [a, b, c, d]" "slice 4 4 (a # b # c # d # xs) = slice 0 4 xs"
  "slice 8 4 (a # b # c # d # xs) = slice 4 4 xs" "slice 12 4 (a # b # c # d # xs) = slice 8 4 xs"
  by (simp_all add: slice_def numeral_eq_Suc)

lemma mix_columns_block:
  "mix_columns [a0, a1, a2, a3, b0, b1, b2, b3, c0, c1, c2, c3, d0, d1, d2, d3]
     = mix_column [a0, a1, a2, a3] @ mix_column [b0, b1, b2, b3] @ mix_column [c0, c1, c2, c3] @ mix_column [d0, d1, d2, d3]"
  by (simp add: mix_columns_def upt_4 slice_4)

lemma column: "\<exists>a b c d. mix_column x = [a, b, c, d]" "\<exists>a b c d. inv_mix_column x = [a, b, c, d]"
  by (simp_all add: mix_column_def inv_mix_column_def Let_def)

lemma inv_mix_columns_block:
  "inv_mix_columns [a0, a1, a2, a3, b0, b1, b2, b3, c0, c1, c2, c3, d0, d1, d2, d3]
     = mix_column (inv_mix_column [a0, a1, a2, a3]) @ mix_column (inv_mix_column [b0, b1, b2, b3])
       @ mix_column (inv_mix_column [c0, c1, c2, c3]) @ mix_column (inv_mix_column [d0, d1, d2, d3])"
proof -
  obtain a b c d where "inv_mix_column [a0, a1, a2, a3] = a" "inv_mix_column [b0, b1, b2, b3] = b"
    "inv_mix_column [c0, c1, c2, c3] = c" "inv_mix_column [d0, d1, d2, d3] = d" by blast
  moreover from this obtain e0 e1 e2 e3 f0 f1 f2 f3 g0 g1 g2 g3 h0 h1 h2 h3 where
    "a = [e0, e1, e2, e3]" "b = [f0, f1, f2, f3]" "c = [g0, g1, g2, g3]" "d = [h0, h1, h2, h3]"
    using column(2) by metis
  ultimately show ?thesis by (simp add: inv_mix_columns_def upt_4 slice_4 mix_columns_block)
qed

lemma mix_columns_inv: "block s \<Longrightarrow> inv_mix_columns (mix_columns s) = s"
proof (erule block_elems)
  fix a0 a1 a2 a3 b0 b1 b2 b3 c0 c1 c2 c3 d0 d1 d2 d3
  assume s: "s = [a0, a1, a2, a3, b0, b1, b2, b3, c0, c1, c2, c3, d0, d1, d2, d3]"
  obtain e0 e1 e2 e3 f0 f1 f2 f3 g0 g1 g2 g3 h0 h1 h2 h3 where e:
    "mix_column [a0, a1, a2, a3] = [e0, e1, e2, e3]" "mix_column [b0, b1, b2, b3] = [f0, f1, f2, f3]"
    "mix_column [c0, c1, c2, c3] = [g0, g1, g2, g3]" "mix_column [d0, d1, d2, d3] = [h0, h1, h2, h3]"
    using column(1) by metis
  have "inv_mix_columns (mix_columns s) = inv_mix_columns [e0, e1, e2, e3, f0, f1, f2, f3, g0, g1, g2, g3, h0, h1, h2, h3]"
    by (simp add: s mix_columns_block e)
  also have "\<dots> = mix_column (inv_mix_column (mix_column [a0, a1, a2, a3])) @ mix_column (inv_mix_column (mix_column [b0, b1, b2, b3]))
       @ mix_column (inv_mix_column (mix_column [c0, c1, c2, c3])) @ mix_column (inv_mix_column (mix_column [d0, d1, d2, d3]))"
    by (simp only: inv_mix_columns_block e)
  also have "\<dots> = s" by (simp add: mix_column_inv s)
  finally show ?thesis .
qed

section \<open>Decryption inverts encryption\<close>

lemma length_expand:
  assumes "length key = 16"
  shows "length (expand key) = 176"
proof -
  have "length (fst (foldl (\<lambda>st k. expand_word (16 + 4 * k) st) (key, 1) [0..<n])) = 16 + 4 * n" for n
  proof (induction n)
    case (Suc n)
    then show ?case by (auto simp: expand_word_def Let_def split: prod.splits)
  qed (simp add: assms)
  then show ?thesis by (simp only: expand_def)
qed

lemma rounds_block:
  "block s \<Longrightarrow> (\<And>r. r \<in> set rs \<Longrightarrow> block (k r)) \<Longrightarrow>
     block (foldl (\<lambda>s r. add_key (k r) (mix_columns (shift_rows (sub_bytes s_sbox s)))) s rs)"
  by (induction rs arbitrary: s) auto

lemma rounds_inv:
  assumes "block s" "\<And>r. r \<in> set rs \<Longrightarrow> block (k r)"
  shows "foldl (\<lambda>s r. inv_mix_columns (add_key (k r) (sub_bytes s_inv (inv_shift_rows s))))
      (shift_rows (sub_bytes s_sbox
         (foldl (\<lambda>s r. add_key (k r) (mix_columns (shift_rows (sub_bytes s_sbox s)))) s rs))) (rev rs)
    = shift_rows (sub_bytes s_sbox s)"
  using assms(2)
proof (induction rs rule: rev_induct)
  case (snoc r rs)
  let ?x = "foldl (\<lambda>s r. add_key (k r) (mix_columns (shift_rows (sub_bytes s_sbox s)))) s rs"
  have "block ?x" by (rule rounds_block) (use assms(1) snoc.prems in auto)
  then show ?case
    using snoc by (simp add: shift_rows_inv sub_bytes_inv add_key_twice mix_columns_inv)
qed simp

lemma aes_decrypt_encrypt:
  assumes "length key = 16" "length inp = 16"
  shows "wpa2_aes128_decrypt key (wpa2_aes128_encrypt key inp) = inp"
proof -
  define k where "k r = slice (16 * r) 16 (expand key)" for r
  define x where "x = foldl (\<lambda>s r. add_key (k r) (mix_columns (shift_rows (sub_bytes s_sbox s)))) (add_key (k 0) inp) [1..<10]"
  have k: "r \<le> 10 \<Longrightarrow> block (k r)" for r using length_expand [OF assms(1)] by (simp add: k_def)
  then have x: "block x" unfolding x_def using assms(2) by (intro rounds_block) auto
  have e: "wpa2_aes128_encrypt key inp = add_key (k 10) (shift_rows (sub_bytes s_sbox x))"
    by (simp only: wpa2_aes128_encrypt_def Let_def x_def k_def) simp
  have "foldl (\<lambda>s r. inv_mix_columns (add_key (k r) (sub_bytes s_inv (inv_shift_rows s)))) (shift_rows (sub_bytes s_sbox x)) (rev [1..<10])
      = shift_rows (sub_bytes s_sbox (add_key (k 0) inp))"
    unfolding x_def by (rule rounds_inv) (use k assms in auto)
  moreover have "wpa2_aes128_decrypt key c
    = add_key (k 0) (sub_bytes s_inv (inv_shift_rows
        (foldl (\<lambda>s r. inv_mix_columns (add_key (k r) (sub_bytes s_inv (inv_shift_rows s)))) (add_key (k 10) c) (rev [1..<10]))))" for c
    by (simp only: wpa2_aes128_decrypt_def Let_def k_def) simp
  ultimately show ?thesis
    using k [of 0] k [of 10] x assms(2) by (simp only: e add_key_twice length_s) (simp add: add_key_twice shift_rows_inv sub_bytes_inv)
qed

lemma length_aes [simp]: "length key = 16 \<Longrightarrow> length inp = 16 \<Longrightarrow> length (wpa2_aes128_encrypt key inp) = 16"
  "length key = 16 \<Longrightarrow> length inp = 16 \<Longrightarrow> length (wpa2_aes128_decrypt key inp) = 16"
  by (simp_all add: wpa2_aes128_encrypt_def wpa2_aes128_decrypt_def Let_def length_expand)

text \<open>Encryption permutes the finite set of blocks, so decryption is its inverse on both sides.\<close>

lemma aes_encrypt_decrypt:
  assumes "length key = 16" "length inp = 16"
  shows "wpa2_aes128_encrypt key (wpa2_aes128_decrypt key inp) = inp"
proof -
  let ?A = "{s :: bytes. set s \<subseteq> UNIV \<and> length s = 16}"
  have "finite ?A" by (rule finite_lists_length_eq) simp
  moreover have "wpa2_aes128_encrypt key ` ?A \<subseteq> ?A" using assms(1) by auto
  moreover have "inj_on (wpa2_aes128_encrypt key) ?A"
    by (rule inj_on_inverseI [of _ "wpa2_aes128_decrypt key"]) (use aes_decrypt_encrypt assms(1) in auto)
  ultimately have "wpa2_aes128_encrypt key ` ?A = ?A" by (rule endo_inj_surj)
  moreover have "inp \<in> ?A" using assms(2) by simp
  ultimately obtain x where "inp = wpa2_aes128_encrypt key x" "length x = 16" by blast
  then show ?thesis using aes_decrypt_encrypt assms(1) by simp
qed

section \<open>Key wrap\<close>

lemma xor_count_twice: "8 \<le> length a \<Longrightarrow> xor_count t (xor_count t a) = a"
  by (rule nth_equalityI) (auto simp: xor_count_def nth_list_update xor_cancel)

lemma length_xor_count [simp]: "length (xor_count t a) = length a"
  by (simp add: xor_count_def)

definition wrap_ok :: "nat \<Rightarrow> bytes \<times> bytes \<Rightarrow> bool" where
  "wrap_ok n st \<longleftrightarrow> length (fst st) = 8 \<and> length (snd st) = 8 * n"

lemma buf_write_again: "off + length d \<le> length buf \<Longrightarrow> length d' = length d \<Longrightarrow> buf_write off d' (buf_write off d buf) = buf_write off d' buf"
  by (simp add: buf_write_def)

lemma buf_write_same: "off + n \<le> length buf \<Longrightarrow> buf_write off (slice off n buf) buf = buf"
  by (simp add: buf_write_def slice_def min_def) (metis append_take_drop_id drop_drop add.commute)

lemma wrap_step_inv:
  assumes "length kek = 16" "wrap_ok n st" "1 \<le> i" "i \<le> n"
  shows "unwrap_step kek n j (wrap_step kek n j st i) i = st" "wrap_ok n (wrap_step kek n j st i)"
    "wrap_step kek n j (unwrap_step kek n j st i) i = st" "wrap_ok n (unwrap_step kek n j st i)"
proof -
  obtain a out where st: "st = (a, out)" by fastforce
  have len: "length a = 8" "8 * (i - 1) + 8 \<le> length out" "length (slice (8 * (i - 1)) 8 out) = 8" "length out = 8 * n"
    using assms(2-4) by (auto simp: st wrap_ok_def)
  let ?c = "slice (8 * (i - 1)) 8 out" and ?t = "of_nat (n * j + i) :: u32"
  let ?e = "wpa2_aes128_encrypt kek (a @ ?c)" and ?d = "wpa2_aes128_decrypt kek (xor_count ?t a @ ?c)"
  have e: "length ?e = 16" "length ?d = 16" using len assms(1) by simp_all
  show "wrap_ok n (wrap_step kek n j st i)" "wrap_ok n (unwrap_step kek n j st i)"
    using e len by (simp_all add: st wrap_ok_def wrap_step_def unwrap_step_def Let_def)
  show "unwrap_step kek n j (wrap_step kek n j st i) i = st"
    using e len assms(1) aes_decrypt_encrypt [of kek "a @ ?c"]
    by (simp add: st wrap_step_def unwrap_step_def Let_def xor_count_twice buf_write_again buf_write_same)
  show "wrap_step kek n j (unwrap_step kek n j st i) i = st"
    using e len assms(1) aes_encrypt_decrypt [of kek "xor_count ?t a @ ?c"]
    by (simp add: st wrap_step_def unwrap_step_def Let_def xor_count_twice buf_write_again buf_write_same)
qed

text \<open>Two loops that undo each other step by step undo each other.\<close>

lemma foldl_inv:
  assumes "\<And>x k. P x \<Longrightarrow> k \<in> set ks \<Longrightarrow> P (f x k) \<and> g (f x k) k = x" "P x"
  shows "P (foldl f x ks) \<and> foldl g (foldl f x ks) (rev ks) = x"
  using assms
proof (induction ks arbitrary: x)
  case (Cons k ks)
  then have "P (f x k)" "g (f x k) k = x" by auto
  then show ?case using Cons.IH [of "f x k"] Cons.prems(1) by simp
qed simp

lemma wrap_rounds_inv:
  assumes "length kek = 16" "wrap_ok n st"
  shows "wrap_ok n (foldl (\<lambda>st j. foldl (wrap_step kek n j) st [1..<n + 1]) st js)
    \<and> foldl (\<lambda>st j. foldl (unwrap_step kek n j) st (rev [1..<n + 1]))
        (foldl (\<lambda>st j. foldl (wrap_step kek n j) st [1..<n + 1]) st js) (rev js) = st"
proof (rule foldl_inv [where P = "wrap_ok n"])
  fix st j assume "wrap_ok n st"
  then show "wrap_ok n (foldl (wrap_step kek n j) st [1..<n + 1])
    \<and> foldl (unwrap_step kek n j) (foldl (wrap_step kek n j) st [1..<n + 1]) (rev [1..<n + 1]) = st"
    by (intro foldl_inv [where P = "wrap_ok n"]) (use wrap_step_inv assms(1) in auto)
qed (rule assms(2))

lemma unwrap_rounds_inv:
  assumes "length kek = 16" "wrap_ok n st"
  shows "wrap_ok n (foldl (\<lambda>st j. foldl (unwrap_step kek n j) st (rev [1..<n + 1])) st (rev js))
    \<and> foldl (\<lambda>st j. foldl (wrap_step kek n j) st [1..<n + 1])
        (foldl (\<lambda>st j. foldl (unwrap_step kek n j) st (rev [1..<n + 1])) st (rev js)) js = st"
proof -
  have "wrap_ok n (foldl (\<lambda>st j. foldl (unwrap_step kek n j) st (rev [1..<n + 1])) st (rev js))
    \<and> foldl (\<lambda>st j. foldl (wrap_step kek n j) st [1..<n + 1])
        (foldl (\<lambda>st j. foldl (unwrap_step kek n j) st (rev [1..<n + 1])) st (rev js)) (rev (rev js)) = st"
  proof (rule foldl_inv [where P = "wrap_ok n"])
    fix st j assume "wrap_ok n st"
    then have "wrap_ok n (foldl (unwrap_step kek n j) st (rev [1..<n + 1]))
      \<and> foldl (wrap_step kek n j) (foldl (unwrap_step kek n j) st (rev [1..<n + 1])) (rev (rev [1..<n + 1])) = st"
      by (intro foldl_inv [where P = "wrap_ok n"]) (use wrap_step_inv assms(1) in auto)
    then show "wrap_ok n (foldl (unwrap_step kek n j) st (rev [1..<n + 1]))
      \<and> foldl (wrap_step kek n j) (foldl (unwrap_step kek n j) st (rev [1..<n + 1])) [1..<n + 1] = st" by simp
  qed (rule assms(2))
  then show ?thesis by simp
qed

lemma key_unwrap_wrap:
  assumes "length kek = 16" "length plain mod 8 = 0" "16 \<le> length plain"
  shows "wpa2_aes_key_unwrap kek (wpa2_aes_key_wrap kek plain) = Some plain"
proof -
  define n where "n = length plain div 8"
  have n: "length plain = 8 * n" using assms(2) by (auto simp: n_def)
  obtain a out where w: "foldl (\<lambda>st j. foldl (wrap_step kek n j) st [1..<n + 1]) (k_iv, plain) [0..<6] = (a, out)" by fastforce
  have "wrap_ok n (k_iv, plain)" by (simp add: wrap_ok_def k_iv_def n)
  then have "wrap_ok n (a, out)" "foldl (\<lambda>st j. foldl (unwrap_step kek n j) st (rev [1..<n + 1])) (a, out) (rev [0..<6]) = (k_iv, plain)"
    using wrap_rounds_inv [OF assms(1), of n "(k_iv, plain)" "[0..<6]"] w by (simp_all only:)
  moreover from this have "length a = 8" "length out = 8 * n" by (simp_all add: wrap_ok_def)
  moreover have "wpa2_aes_key_wrap kek plain = a @ out" using w by (simp add: wpa2_aes_key_wrap_def n_def)
  ultimately show ?thesis using assms(3) n
    by (simp add: wpa2_aes_key_unwrap_def Let_def del: upt_Suc upt_rec_numeral)
qed

lemma key_wrap_unwrap:
  assumes "length kek = 16" "wpa2_aes_key_unwrap kek inp = Some plain"
  shows "inp = wpa2_aes_key_wrap kek plain \<and> length plain + 8 = length inp"
proof -
  define n where "n = length inp div 8 - 1"
  have len: "24 \<le> length inp" "length inp = 8 * (n + 1)"
    using assms(2) by (auto simp: wpa2_aes_key_unwrap_def n_def split: if_splits)
  have u: "foldl (\<lambda>st j. foldl (unwrap_step kek n j) st (rev [1..<n + 1])) (take 8 inp, drop 8 inp) (rev [0..<6]) = (k_iv, plain)"
    using assms(2) [unfolded wpa2_aes_key_unwrap_def Let_def, folded n_def]
    by (auto split: if_splits prod.splits simp del: upt_Suc upt_rec_numeral)
  have "wrap_ok n (take 8 inp, drop 8 inp)" using len by (simp add: wrap_ok_def)
  then have "wrap_ok n (k_iv, plain)" "foldl (\<lambda>st j. foldl (wrap_step kek n j) st [1..<n + 1]) (k_iv, plain) [0..<6] = (take 8 inp, drop 8 inp)"
    using unwrap_rounds_inv [OF assms(1), of n "(take 8 inp, drop 8 inp)" "[0..<6]"] u by (simp_all only:)
  moreover from this have "length plain = 8 * n" by (simp add: wrap_ok_def)
  ultimately show ?thesis using len by (simp add: wpa2_aes_key_wrap_def Let_def del: upt_Suc upt_rec_numeral)
qed

section \<open>Theorems\<close>

text \<open>\<open>wpa2_aes128_decrypt\<close> inverts \<open>wpa2_aes128_encrypt\<close> under every key, and encryption inverts decryption. The
  tables are the ones \<open>init_tables\<close> computes: its loop ends after 255 rounds, with a permutation and its inverse.\<close>

theorem wpa2_aes_roundtrip:
  assumes "length key = 16" "length inp = 16"
  shows "wpa2_aes128_decrypt key (wpa2_aes128_encrypt key inp) = inp
    \<and> wpa2_aes128_encrypt key (wpa2_aes128_decrypt key inp) = inp"
  using aes_decrypt_encrypt [OF assms] aes_encrypt_decrypt [OF assms] by simp

theorem wpa2_aes_roundtrip_witness:
  "wpa2_aes128_decrypt (replicate 16 7) (wpa2_aes128_encrypt (replicate 16 7) (replicate 16 1)) = replicate 16 1"
  using wpa2_aes_roundtrip [of "replicate 16 7" "replicate 16 1"] by simp

text \<open>(C37) Key unwrap accepts exactly the outputs of key wrap: for a plain text of whole 64-bit blocks, at least two of
  them, unwrapping a wrapped key gives it back; and whatever unwrap accepts is the wrap of what it returns, so any
  change to a wrapped key that is not itself a wrap under the same key is refused.\<close>

theorem wpa2_key_wrap_exact:
  assumes "length kek = 16"
  shows "wpa2_aes_key_unwrap kek inp = Some plain \<longleftrightarrow>
    inp = wpa2_aes_key_wrap kek plain \<and> length plain mod 8 = 0 \<and> 16 \<le> length plain"
proof
  assume u: "wpa2_aes_key_unwrap kek inp = Some plain"
  then have "inp = wpa2_aes_key_wrap kek plain" "length plain + 8 = length inp" using key_wrap_unwrap [OF assms] by auto
  moreover have "24 \<le> length inp" "length inp mod 8 = 0" using u by (auto simp: wpa2_aes_key_unwrap_def split: if_splits)
  ultimately show "inp = wpa2_aes_key_wrap kek plain \<and> length plain mod 8 = 0 \<and> 16 \<le> length plain" by presburger
qed (use key_unwrap_wrap [OF assms] in auto)

theorem wpa2_key_wrap_exact_witness:
  "wpa2_aes_key_unwrap (replicate 16 7) (wpa2_aes_key_wrap (replicate 16 7) (replicate 16 1)) = Some (replicate 16 1)"
  using wpa2_key_wrap_exact [of "replicate 16 7" "wpa2_aes_key_wrap (replicate 16 7) (replicate 16 1)" "replicate 16 1"] by simp

end
