(* ===== verification/Wpa2_Sm.thy ===== *)
theory Wpa2_Sm
  imports Wpa2_Eapol Wpa2_Aes
begin

text \<open>
  The station's side of the WPA2 handshake, \<open>src/src/platform/port_wifi/api/wpa2_sm.c\<close>. What the state machine asks of
  its \<open>ops\<close> is recorded in \<open>sm_log\<close> together with the outcome, which an environment decides. A monitor states the policy
  on keys: the pairwise key is installed at most once, the group key that is installed is not installed again, and the
  port opens once, after both. The machine keeps to it for every sequence of frames; accepted frames cannot be replayed;
  and with an access point that follows the protocol the handshake ends with both sides holding the same key.
\<close>

section \<open>State\<close>

abbreviation WPA2_EAPOL_MAX :: nat where "WPA2_EAPOL_MAX \<equiv> 512"
abbreviation KEY_DATA_MAX :: nat where "KEY_DATA_MAX \<equiv> 192"

abbreviation KEY_INFO_VERSION_MASK :: u16 where "KEY_INFO_VERSION_MASK \<equiv> 0x0007"
abbreviation KEY_INFO_PAIRWISE :: u16 where "KEY_INFO_PAIRWISE \<equiv> 0x0008"
abbreviation KEY_INFO_INSTALL :: u16 where "KEY_INFO_INSTALL \<equiv> 0x0040"
abbreviation KEY_INFO_ACK :: u16 where "KEY_INFO_ACK \<equiv> 0x0080"
abbreviation KEY_INFO_MIC :: u16 where "KEY_INFO_MIC \<equiv> 0x0100"
abbreviation KEY_INFO_SECURE :: u16 where "KEY_INFO_SECURE \<equiv> 0x0200"
abbreviation KEY_INFO_ENCRYPTED :: u16 where "KEY_INFO_ENCRYPTED \<equiv> 0x1000"
abbreviation KEY_INFO_MSG2 :: u16 where "KEY_INFO_MSG2 \<equiv> 0x010A"
abbreviation KEY_INFO_MSG4 :: u16 where "KEY_INFO_MSG4 \<equiv> 0x030A"
abbreviation KEY_INFO_GROUP_MSG2 :: u16 where "KEY_INFO_GROUP_MSG2 \<equiv> 0x0302"

datatype wpa2_result = WPA2_IGNORED | WPA2_PROGRESS | WPA2_DONE | WPA2_FAILED

datatype wpa2_state = WPA2_IDLE | WPA2_GOT_MSG1 | WPA2_ESTABLISHED

text \<open>A call of one of the \<open>ops\<close> and what it returned.\<close>

datatype wpa2_event =
    Ev_Send bytes bool
  | Ev_Install_Ptk bytes bool
  | Ev_Install_Gtk u8 bytes bool
  | Ev_Open_Port bool
  | Ev_Random bytes

text \<open>The outcome of the \<open>n\<close>-th call, and the bytes \<open>random\<close> fills in there.\<close>

record wpa2_env =
  op_ok     :: "nat \<Rightarrow> bool"
  op_random :: "nat \<Rightarrow> bytes"

record wpa2_sm =
  sm_pmk           :: bytes
  sm_aa            :: bytes
  sm_spa           :: bytes
  sm_ptk           :: bytes
  sm_anonce        :: bytes
  sm_snonce        :: bytes
  sm_replay        :: bytes
  sm_have_replay   :: bool
  sm_gtk           :: bytes
  sm_gtk_id        :: u8
  sm_gtk_installed :: bool
  sm_ptk_installed :: bool
  sm_state         :: wpa2_state
  sm_log           :: "wpa2_event list"

definition wpa2_sm_init :: "bytes \<Rightarrow> bytes \<Rightarrow> bytes \<Rightarrow> wpa2_sm" where
  "wpa2_sm_init pmk aa spa =
     \<lparr>sm_pmk = pmk, sm_aa = aa, sm_spa = spa, sm_ptk = replicate 48 0, sm_anonce = replicate 32 0,
      sm_snonce = replicate 32 0, sm_replay = replicate 8 0, sm_have_replay = False, sm_gtk = replicate 16 0,
      sm_gtk_id = 0, sm_gtk_installed = False, sm_ptk_installed = False, sm_state = WPA2_IDLE, sm_log = []\<rparr>"

text \<open>A call of an op: its outcome is looked up and recorded.\<close>

definition call_op :: "wpa2_env \<Rightarrow> (bool \<Rightarrow> wpa2_event) \<Rightarrow> wpa2_sm \<Rightarrow> bool \<times> wpa2_sm" where
  "call_op e ev sm = (let ok = op_ok e (length (sm_log sm)) in (ok, sm\<lparr>sm_log := sm_log sm @ [ev ok]\<rparr>))"

section \<open>Steps\<close>

definition send_key :: "wpa2_env \<Rightarrow> wpa2_sm \<Rightarrow> u16 \<Rightarrow> bytes \<Rightarrow> bytes option \<Rightarrow> bytes \<Rightarrow> bool \<times> wpa2_sm" where
  "send_key e sm key_info replay nonce key_data =
     (case wpa2_eapol_build WPA2_EAPOL_MAX key_info 0 replay (case nonce of None \<Rightarrow> replicate 32 0 | Some n \<Rightarrow> n) key_data
             (Some (take 16 (sm_ptk sm))) of
        None \<Rightarrow> (False, sm)
      | Some frame \<Rightarrow> call_op e (Ev_Send frame) sm)"

definition replay_ok :: "wpa2_sm \<Rightarrow> bytes \<Rightarrow> bool" where
  "replay_ok sm replay \<longleftrightarrow> \<not> sm_have_replay sm \<or> 0 < memcmp replay (sm_replay sm)"

definition note_replay :: "wpa2_sm \<Rightarrow> bytes \<Rightarrow> wpa2_sm" where
  "note_replay sm replay = sm\<lparr>sm_replay := replay, sm_have_replay := True\<rparr>"

text \<open>The id and the key, or \<open>None\<close> for false.\<close>

definition unwrap_gtk :: "bytes \<Rightarrow> wpa2_eapol_key \<Rightarrow> (u8 \<times> bytes) option" where
  "unwrap_gtk kek k =
     (let n = length (ek_key_data k) in
      if ek_key_info k AND KEY_INFO_ENCRYPTED = 0 then None
      else if n < 24 \<or> n mod 8 \<noteq> 0 \<or> KEY_DATA_MAX < n - 8 then None
      else
        case wpa2_aes_key_unwrap kek (ek_key_data k) of
          None \<Rightarrow> None
        | Some plain \<Rightarrow> wpa2_find_gtk plain)"

definition install_gtk_once :: "wpa2_env \<Rightarrow> wpa2_sm \<Rightarrow> u8 \<Rightarrow> bytes \<Rightarrow> bool \<times> wpa2_sm" where
  "install_gtk_once e sm kid gtk =
     (if sm_gtk_installed sm \<and> sm_gtk_id sm = kid \<and> sm_gtk sm = gtk then (True, sm)
      else
        let (ok, sm) = call_op e (Ev_Install_Gtk kid gtk) sm in
        if \<not> ok then (False, sm)
        else (True, sm\<lparr>sm_gtk := gtk, sm_gtk_id := kid, sm_gtk_installed := True\<rparr>))"

text \<open>The nonce of a message 1 that is new, a nonce of our own and the key they give.\<close>

definition take_anonce :: "wpa2_env \<Rightarrow> wpa2_sm \<Rightarrow> wpa2_eapol_key \<Rightarrow> wpa2_sm" where
  "take_anonce e sm k =
     (if sm_state sm \<noteq> WPA2_GOT_MSG1 \<or> sm_anonce sm \<noteq> ek_nonce k
      then
        let r = op_random e (length (sm_log sm));
            sm = sm\<lparr>sm_anonce := ek_nonce k, sm_snonce := r, sm_log := sm_log sm @ [Ev_Random r]\<rparr>
        in case wpa2_ptk (sm_pmk sm) (sm_aa sm) (sm_spa sm) (sm_anonce sm) (sm_snonce sm) of
             None \<Rightarrow> sm
           | Some ptk \<Rightarrow> sm\<lparr>sm_ptk := ptk\<rparr>
      else sm)"

definition on_msg1 :: "wpa2_env \<Rightarrow> wpa2_sm \<Rightarrow> wpa2_eapol_key \<Rightarrow> wpa2_result \<times> wpa2_sm" where
  "on_msg1 e sm k =
     (if sm_ptk_installed sm then (WPA2_IGNORED, sm)
      else
        let sm = take_anonce e sm k;
            (ok, sm) = send_key e sm KEY_INFO_MSG2 (ek_replay k) (Some (sm_snonce sm)) WPA2_RSN_IE
        in if \<not> ok then (WPA2_FAILED, sm) else (WPA2_PROGRESS, sm\<lparr>sm_state := WPA2_GOT_MSG1\<rparr>))"

definition install_ptk_once :: "wpa2_env \<Rightarrow> wpa2_sm \<Rightarrow> bool \<times> wpa2_sm" where
  "install_ptk_once e sm =
     (if sm_ptk_installed sm then (True, sm)
      else
        let (ok, sm) = call_op e (Ev_Install_Ptk (slice 32 16 (sm_ptk sm))) sm
        in (ok, if ok then sm\<lparr>sm_ptk_installed := True\<rparr> else sm))"

text \<open>The end of \<open>on_msg3\<close>, after message 4 is sent.\<close>

definition install_keys :: "wpa2_env \<Rightarrow> wpa2_sm \<Rightarrow> u8 \<Rightarrow> bytes \<Rightarrow> wpa2_result \<times> wpa2_sm" where
  "install_keys e sm kid gtk =
     (let (ok, sm) = install_ptk_once e sm in
      if \<not> ok then (WPA2_FAILED, sm)
      else
        let (ok, sm) = install_gtk_once e sm kid gtk in
        if \<not> ok then (WPA2_FAILED, sm)
        else if sm_state sm = WPA2_ESTABLISHED then (WPA2_PROGRESS, sm)
        else
          let (ok, sm) = call_op e Ev_Open_Port sm in
          if \<not> ok then (WPA2_FAILED, sm) else (WPA2_DONE, sm\<lparr>sm_state := WPA2_ESTABLISHED\<rparr>))"

definition on_msg3 :: "wpa2_env \<Rightarrow> wpa2_sm \<Rightarrow> wpa2_eapol_key \<Rightarrow> bytes \<Rightarrow> wpa2_result \<times> wpa2_sm" where
  "on_msg3 e sm k frame =
     (if sm_state sm = WPA2_IDLE then (WPA2_IGNORED, sm)
      else if \<not> wpa2_eapol_mic_ok (take 16 (sm_ptk sm)) frame (ek_frame_len k) then (WPA2_IGNORED, sm)
      else if \<not> replay_ok sm (ek_replay k) then (WPA2_IGNORED, sm)
      else if ek_nonce k \<noteq> sm_anonce sm \<or> ek_key_length k \<noteq> 16 then (WPA2_IGNORED, sm)
      else
        case unwrap_gtk (slice 16 16 (sm_ptk sm)) k of
          None \<Rightarrow> (WPA2_FAILED, sm)
        | Some (kid, gtk) \<Rightarrow>
            let (ok, sm) = send_key e (note_replay sm (ek_replay k)) KEY_INFO_MSG4 (ek_replay k) None []
            in if \<not> ok then (WPA2_FAILED, sm) else install_keys e sm kid gtk)"

definition on_group1 :: "wpa2_env \<Rightarrow> wpa2_sm \<Rightarrow> wpa2_eapol_key \<Rightarrow> bytes \<Rightarrow> wpa2_result \<times> wpa2_sm" where
  "on_group1 e sm k frame =
     (if sm_state sm \<noteq> WPA2_ESTABLISHED then (WPA2_IGNORED, sm)
      else if \<not> wpa2_eapol_mic_ok (take 16 (sm_ptk sm)) frame (ek_frame_len k) then (WPA2_IGNORED, sm)
      else if \<not> replay_ok sm (ek_replay k) then (WPA2_IGNORED, sm)
      else
        case unwrap_gtk (slice 16 16 (sm_ptk sm)) k of
          None \<Rightarrow> (WPA2_FAILED, sm)
        | Some (kid, gtk) \<Rightarrow>
            let (ok, sm) = send_key e (note_replay sm (ek_replay k)) KEY_INFO_GROUP_MSG2 (ek_replay k) None []
            in if \<not> ok then (WPA2_FAILED, sm)
               else
                 let (ok, sm) = install_gtk_once e sm kid gtk
                 in (if ok then WPA2_PROGRESS else WPA2_FAILED, sm))"

definition wpa2_sm_rx :: "wpa2_env \<Rightarrow> wpa2_sm \<Rightarrow> bytes \<Rightarrow> wpa2_result \<times> wpa2_sm" where
  "wpa2_sm_rx e sm frame =
     (if WPA2_EAPOL_MAX < length frame then (WPA2_IGNORED, sm)
      else
        case wpa2_eapol_parse frame of
          None \<Rightarrow> (WPA2_IGNORED, sm)
        | Some k \<Rightarrow>
            let info = ek_key_info k in
            if info AND KEY_INFO_ACK = 0 \<or> info AND KEY_INFO_VERSION_MASK \<noteq> 2 then (WPA2_IGNORED, sm)
            else if info AND KEY_INFO_PAIRWISE \<noteq> 0 then
              (if info AND KEY_INFO_MIC = 0 \<and> info AND KEY_INFO_INSTALL = 0 then on_msg1 e sm k
               else if info AND KEY_INFO_MIC \<noteq> 0 \<and> info AND KEY_INFO_INSTALL \<noteq> 0 then on_msg3 e sm k frame
               else (WPA2_IGNORED, sm))
            else if info AND KEY_INFO_MIC \<noteq> 0 \<and> info AND KEY_INFO_SECURE \<noteq> 0 then on_group1 e sm k frame
            else (WPA2_IGNORED, sm))"

fun wpa2_sm_run :: "wpa2_env \<Rightarrow> wpa2_sm \<Rightarrow> bytes list \<Rightarrow> wpa2_sm" where
  "wpa2_sm_run e sm [] = sm"
| "wpa2_sm_run e sm (f # fs) = wpa2_sm_run e (snd (wpa2_sm_rx e sm f)) fs"

section \<open>The key policy\<close>

text \<open>The monitor: whether the pairwise key is in, which group key is in, whether the port is open; \<open>None\<close> after a
  violation.\<close>

type_synonym key_view = "bool \<times> (u8 \<times> bytes) option \<times> bool"

fun monitor_event :: "key_view option \<Rightarrow> wpa2_event \<Rightarrow> key_view option" where
  "monitor_event (Some (ptk, gtk, port)) (Ev_Install_Ptk tk ok) =
     (if ptk then None else Some (ok, gtk, port))"
| "monitor_event (Some (ptk, gtk, port)) (Ev_Install_Gtk kid key ok) =
     (if gtk = Some (kid, key) then None else Some (ptk, if ok then Some (kid, key) else gtk, port))"
| "monitor_event (Some (ptk, gtk, port)) (Ev_Open_Port ok) =
     (if ptk \<and> gtk \<noteq> None \<and> \<not> port then Some (ptk, gtk, ok) else None)"
| "monitor_event v _ = v"

definition monitor :: "wpa2_event list \<Rightarrow> key_view option" where
  "monitor log = foldl monitor_event (Some (False, None, False)) log"

text \<open>The view the state machine has of it.\<close>

definition sm_view :: "wpa2_sm \<Rightarrow> key_view" where
  "sm_view sm = (sm_ptk_installed sm, if sm_gtk_installed sm then Some (sm_gtk_id sm, sm_gtk sm) else None,
     sm_state sm = WPA2_ESTABLISHED)"

definition policy_ok :: "wpa2_sm \<Rightarrow> bool" where
  "policy_ok sm \<longleftrightarrow> monitor (sm_log sm) = Some (sm_view sm) \<and> (sm_state sm = WPA2_ESTABLISHED \<longrightarrow> sm_ptk_installed sm)"

lemma monitor_snoc [simp]: "monitor (log @ [ev]) = monitor_event (monitor log) ev"
  by (simp add: monitor_def)

lemma policy_init: "policy_ok (wpa2_sm_init pmk aa spa)"
  by (simp add: policy_ok_def wpa2_sm_init_def monitor_def sm_view_def)

lemma policy_note: "policy_ok (note_replay sm replay) = policy_ok sm"
  by (simp add: policy_ok_def note_replay_def sm_view_def)

lemma policy_send: "policy_ok sm \<Longrightarrow> policy_ok (snd (send_key e sm info replay nonce kd))"
  by (auto simp: send_key_def call_op_def policy_ok_def sm_view_def Let_def split: option.splits)

lemma policy_gtk: "policy_ok sm \<Longrightarrow> policy_ok (snd (install_gtk_once e sm kid gtk))"
  by (auto simp: install_gtk_once_def call_op_def policy_ok_def sm_view_def Let_def)

lemma take_anonce_policy:
  "policy_ok sm \<Longrightarrow> policy_ok (take_anonce e sm k)" "sm_ptk_installed (take_anonce e sm k) = sm_ptk_installed sm"
  by (auto simp: take_anonce_def policy_ok_def sm_view_def Let_def split: option.splits)

lemma send_key_fields:
  "send_key e sm info replay nonce kd = (ok, sm') \<Longrightarrow> \<exists>log. sm' = sm\<lparr>sm_log := log\<rparr>"
  by (auto simp: send_key_def call_op_def Let_def split: option.splits intro: exI [of _ "sm_log sm"])

lemma policy_msg1: "policy_ok sm \<Longrightarrow> policy_ok (snd (on_msg1 e sm k))"
proof (cases "sm_ptk_installed sm")
  case False
  assume ok: "policy_ok sm"
  let ?sm = "take_anonce e sm k"
  obtain b sm2 where 2: "send_key e ?sm KEY_INFO_MSG2 (ek_replay k) (Some (sm_snonce ?sm)) WPA2_RSN_IE = (b, sm2)" by fastforce
  then have p: "policy_ok sm2" using policy_send [OF take_anonce_policy(1) [OF ok]] by (metis snd_conv)
  have "\<not> sm_ptk_installed sm2" using send_key_fields [OF 2] take_anonce_policy(2) False by auto
  then have "policy_ok (sm2\<lparr>sm_state := WPA2_GOT_MSG1\<rparr>)" using p by (auto simp: policy_ok_def sm_view_def)
  then show ?thesis using 2 False p by (simp add: on_msg1_def)
qed (simp add: on_msg1_def)

lemma install_gtk_once_ok:
  "install_gtk_once e sm kid gtk = (True, sm') \<Longrightarrow> sm_gtk_installed sm' \<and> sm_ptk_installed sm' = sm_ptk_installed sm
     \<and> sm_state sm' = sm_state sm"
  by (auto simp: install_gtk_once_def call_op_def Let_def split: if_splits)

lemma install_ptk_once_policy:
  "policy_ok sm \<Longrightarrow> install_ptk_once e sm = (ok, sm') \<Longrightarrow> policy_ok sm' \<and> (ok \<longrightarrow> sm_ptk_installed sm')"
  by (auto simp: install_ptk_once_def call_op_def policy_ok_def sm_view_def Let_def split: if_splits)

lemma open_port_policy:
  "policy_ok sm \<Longrightarrow> sm_ptk_installed sm \<Longrightarrow> sm_gtk_installed sm \<Longrightarrow> sm_state sm \<noteq> WPA2_ESTABLISHED \<Longrightarrow>
     call_op e Ev_Open_Port sm = (ok, sm') \<Longrightarrow> policy_ok (if ok then sm'\<lparr>sm_state := WPA2_ESTABLISHED\<rparr> else sm')"
  by (auto simp: call_op_def policy_ok_def sm_view_def Let_def)

lemma policy_keys: "policy_ok sm \<Longrightarrow> policy_ok (snd (install_keys e sm kid gtk))"
proof -
  assume ok: "policy_ok sm"
  obtain b sm1 where 1: "install_ptk_once e sm = (b, sm1)" by fastforce
  note p1 = install_ptk_once_policy [OF ok 1]
  obtain c sm2 where 2: "install_gtk_once e sm1 kid gtk = (c, sm2)" by fastforce
  then have p2: "policy_ok sm2" using policy_gtk p1 by (metis snd_conv)
  obtain d sm3 where 3: "call_op e Ev_Open_Port sm2 = (d, sm3)" by fastforce
  have "policy_ok (if d then sm3\<lparr>sm_state := WPA2_ESTABLISHED\<rparr> else sm3)" if "b" "c" "sm_state sm2 \<noteq> WPA2_ESTABLISHED"
    using open_port_policy [OF p2 _ _ that(3) 3] install_gtk_once_ok [of e sm1 kid gtk sm2] p1 2 that by simp
  then show ?thesis using 1 2 3 p1 p2 by (auto simp: install_keys_def)
qed

lemma policy_msg3: "policy_ok sm \<Longrightarrow> policy_ok (snd (on_msg3 e sm k frame))"
proof -
  assume ok: "policy_ok sm"
  obtain b sm1 where 1: "send_key e (note_replay sm (ek_replay k)) KEY_INFO_MSG4 (ek_replay k) None [] = (b, sm1)" by fastforce
  have "policy_ok (snd (send_key e (note_replay sm (ek_replay k)) KEY_INFO_MSG4 (ek_replay k) None []))"
    by (rule policy_send) (simp add: policy_note ok)
  then have "policy_ok sm1" using 1 by simp
  then have "policy_ok (snd (install_keys e sm1 kid gtk))" for kid gtk by (rule policy_keys)
  then show ?thesis using ok 1 \<open>policy_ok sm1\<close> by (auto simp: on_msg3_def split: option.splits)
qed

lemma policy_group1: "policy_ok sm \<Longrightarrow> policy_ok (snd (on_group1 e sm k frame))"
proof -
  assume ok: "policy_ok sm"
  obtain b sm1 where 1: "send_key e (note_replay sm (ek_replay k)) KEY_INFO_GROUP_MSG2 (ek_replay k) None [] = (b, sm1)" by fastforce
  have "policy_ok (snd (send_key e (note_replay sm (ek_replay k)) KEY_INFO_GROUP_MSG2 (ek_replay k) None []))"
    by (rule policy_send) (simp add: policy_note ok)
  then have "policy_ok sm1" using 1 by simp
  then have "policy_ok (snd (install_gtk_once e sm1 kid gtk))" for kid gtk by (rule policy_gtk)
  then show ?thesis using ok 1 \<open>policy_ok sm1\<close> by (auto simp: on_group1_def Let_def case_prod_unfold split: option.splits)
qed

lemma policy_rx: "policy_ok sm \<Longrightarrow> policy_ok (snd (wpa2_sm_rx e sm frame))"
  by (simp add: wpa2_sm_rx_def Let_def policy_msg1 policy_msg3 policy_group1 split: option.splits)

lemma policy_run: "policy_ok sm \<Longrightarrow> policy_ok (wpa2_sm_run e sm fs)"
  by (induction fs arbitrary: sm) (auto intro: policy_rx)

section \<open>Replay\<close>

lemma memcmp_self [simp]: "memcmp x x = 0"
  by (induction x) auto

lemma memcmp_trans:
  "length x = length y \<Longrightarrow> length y = length z \<Longrightarrow> 0 \<le> memcmp x y \<Longrightarrow> 0 \<le> memcmp y z \<Longrightarrow> 0 \<le> memcmp x z"
  by (induction x y z rule: list_induct3) (auto split: if_splits)

lemma parse_replay_length: "wpa2_eapol_parse frame = Some k \<Longrightarrow> length (ek_replay k) = 8"
  by (auto simp: wpa2_eapol_parse_def Let_def split: if_splits)

text \<open>\<open>later sm sm'\<close>: the counter of \<open>sm'\<close> is not before that of \<open>sm\<close>.\<close>

definition later :: "wpa2_sm \<Rightarrow> wpa2_sm \<Rightarrow> bool" where
  "later sm sm' \<longleftrightarrow> (sm_have_replay sm \<longrightarrow> sm_have_replay sm' \<and> length (sm_replay sm') = length (sm_replay sm)
     \<and> 0 \<le> memcmp (sm_replay sm') (sm_replay sm))"

definition same_replay :: "wpa2_sm \<Rightarrow> wpa2_sm \<Rightarrow> bool" where
  "same_replay sm sm' \<longleftrightarrow> sm_have_replay sm' = sm_have_replay sm \<and> sm_replay sm' = sm_replay sm"

lemma same_replay_send: "same_replay sm (snd (send_key e sm info replay nonce kd))"
  by (simp add: same_replay_def send_key_def call_op_def Let_def split: option.splits)

lemma same_replay_ptk: "same_replay sm (snd (install_ptk_once e sm))"
  by (simp add: same_replay_def install_ptk_once_def call_op_def Let_def)

lemma same_replay_gtk: "same_replay sm (snd (install_gtk_once e sm kid gtk))"
  by (simp add: same_replay_def install_gtk_once_def call_op_def Let_def)

lemma same_replay_anonce: "same_replay sm (take_anonce e sm k)"
  by (simp add: same_replay_def take_anonce_def Let_def split: option.splits)

lemma same_replay_trans: "same_replay sm sm' \<Longrightarrow> same_replay sm' sm'' \<Longrightarrow> same_replay sm sm''"
  by (simp add: same_replay_def)

lemma same_replay_keys: "same_replay sm (snd (install_keys e sm kid gtk))"
proof -
  let ?sm1 = "snd (install_ptk_once e sm)"
  let ?sm2 = "snd (install_gtk_once e ?sm1 kid gtk)"
  have 1: "same_replay sm ?sm1" by (rule same_replay_ptk)
  then have "same_replay sm ?sm2" using same_replay_gtk same_replay_trans by blast
  then show ?thesis using 1 by (simp add: install_keys_def case_prod_unfold call_op_def Let_def same_replay_def)
qed

lemma same_replay_msg1: "same_replay sm (snd (on_msg1 e sm k))"
proof -
  let ?sm1 = "take_anonce e sm k"
  have "same_replay sm (snd (send_key e ?sm1 KEY_INFO_MSG2 (ek_replay k) (Some (sm_snonce ?sm1)) WPA2_RSN_IE))"
    using same_replay_anonce same_replay_send same_replay_trans by blast
  then show ?thesis by (simp add: on_msg1_def case_prod_unfold Let_def same_replay_def)
qed

lemmas same_replay_steps = same_replay_send same_replay_keys same_replay_gtk same_replay_msg1

lemma later_trans: "later sm sm' \<Longrightarrow> later sm' sm'' \<Longrightarrow> later sm sm''"
  unfolding later_def using memcmp_trans by (metis (full_types))

text \<open>A message with a MIC either leaves the counter alone or moves it forward, to its own.\<close>

definition moved :: "wpa2_sm \<Rightarrow> bytes \<Rightarrow> wpa2_result \<times> wpa2_sm \<Rightarrow> bool" where
  "moved sm replay res \<longleftrightarrow>
     fst res \<in> {WPA2_IGNORED, WPA2_FAILED} \<and> snd res = sm
     \<or> (replay_ok sm replay \<and> sm_have_replay (snd res) \<and> sm_replay (snd res) = replay)"

lemma moved_msg3: "moved sm (ek_replay k) (on_msg3 e sm k frame)"
proof -
  obtain b sm1 where 1: "send_key e (note_replay sm (ek_replay k)) KEY_INFO_MSG4 (ek_replay k) None [] = (b, sm1)" by fastforce
  have s1: "same_replay (note_replay sm (ek_replay k)) sm1" using same_replay_steps(1) 1 by (metis snd_conv)
  then have "same_replay (note_replay sm (ek_replay k)) (snd (install_keys e sm1 kid gtk))" for kid gtk
    using same_replay_steps(2) [of sm1 e kid gtk] by (simp add: same_replay_def)
  then show ?thesis using s1 1
    by (auto simp: moved_def on_msg3_def same_replay_def note_replay_def split: option.splits)
qed

lemma moved_group1: "moved sm (ek_replay k) (on_group1 e sm k frame)"
proof -
  obtain b sm1 where 1: "send_key e (note_replay sm (ek_replay k)) KEY_INFO_GROUP_MSG2 (ek_replay k) None [] = (b, sm1)" by fastforce
  have s1: "same_replay (note_replay sm (ek_replay k)) sm1" using same_replay_steps(1) 1 by (metis snd_conv)
  then have "same_replay (note_replay sm (ek_replay k)) (snd (install_gtk_once e sm1 kid gtk))" for kid gtk
    using same_replay_steps(3) [of sm1 e kid gtk] by (simp add: same_replay_def)
  then show ?thesis using s1 1
    by (auto simp: moved_def on_group1_def same_replay_def note_replay_def Let_def case_prod_unfold split: option.splits)
qed

lemma moved_later:
  "moved sm replay res \<Longrightarrow> length replay = 8 \<Longrightarrow> (sm_have_replay sm \<longrightarrow> length (sm_replay sm) = 8) \<Longrightarrow>
     later sm (snd res) \<and> (sm_have_replay (snd res) \<longrightarrow> length (sm_replay (snd res)) = 8)"
  by (auto simp: moved_def later_def replay_ok_def)

lemma later_rx:
  assumes "sm_have_replay sm \<longrightarrow> length (sm_replay sm) = 8"
  shows "later sm (snd (wpa2_sm_rx e sm frame))
    \<and> (sm_have_replay (snd (wpa2_sm_rx e sm frame)) \<longrightarrow> length (sm_replay (snd (wpa2_sm_rx e sm frame))) = 8)"
proof (cases "wpa2_eapol_parse frame")
  case None
  then show ?thesis using assms by (simp add: wpa2_sm_rx_def later_def)
next
  case (Some k)
  have m1: "later sm (snd (on_msg1 e sm k)) \<and> (sm_have_replay (snd (on_msg1 e sm k)) \<longrightarrow> length (sm_replay (snd (on_msg1 e sm k))) = 8)"
    using same_replay_steps(4) [of sm e k] assms by (auto simp: same_replay_def later_def)
  note m3 = moved_later [OF moved_msg3 parse_replay_length [OF Some] assms, of e frame]
  note g1 = moved_later [OF moved_group1 parse_replay_length [OF Some] assms, of e frame]
  have "later sm sm" by (simp add: later_def)
  then show ?thesis using m1 m3 g1 assms Some by (simp add: wpa2_sm_rx_def Let_def)
qed

lemma later_run:
  "(sm_have_replay sm \<longrightarrow> length (sm_replay sm) = 8) \<Longrightarrow> later sm (wpa2_sm_run e sm fs)
     \<and> (sm_have_replay (wpa2_sm_run e sm fs) \<longrightarrow> length (sm_replay (wpa2_sm_run e sm fs)) = 8)"
proof (induction fs arbitrary: sm)
  case Nil
  then show ?case by (simp add: later_def)
next
  case (Cons f fs)
  let ?sm = "snd (wpa2_sm_rx e sm f)"
  have 1: "later sm ?sm" "sm_have_replay ?sm \<longrightarrow> length (sm_replay ?sm) = 8" using later_rx [OF Cons.prems, of e f] by simp_all
  then show ?case using Cons.IH [OF 1(2)] later_trans [OF 1(1)] by simp
qed

text \<open>A frame with a MIC bit whose counter is not ahead is ignored.\<close>

lemma rx_stale:
  assumes "wpa2_eapol_parse frame = Some k" "ek_key_info k AND KEY_INFO_MIC \<noteq> 0" "\<not> replay_ok sm (ek_replay k)"
  shows "wpa2_sm_rx e sm frame = (WPA2_IGNORED, sm)"
  using assms by (simp add: wpa2_sm_rx_def Let_def on_msg3_def on_group1_def)

lemma rx_accepted:
  assumes "wpa2_eapol_parse frame = Some k" "ek_key_info k AND KEY_INFO_MIC \<noteq> 0"
    "wpa2_sm_rx e sm frame = (res, sm')" "res = WPA2_PROGRESS \<or> res = WPA2_DONE"
  shows "sm_have_replay sm' \<and> sm_replay sm' = ek_replay k"
proof -
  have "wpa2_sm_rx e sm frame \<in> {(WPA2_IGNORED, sm), on_msg3 e sm k frame, on_group1 e sm k frame}"
    using assms(1,2) by (simp add: wpa2_sm_rx_def Let_def)
  then have "moved sm (ek_replay k) (res, sm')"
    using assms(3,4) moved_msg3 [of sm k e frame] moved_group1 [of sm k e frame] by auto
  then show ?thesis using assms(4) by (auto simp: moved_def)
qed

section \<open>The handshake\<close>

text \<open>The key information of messages 1 and 3 of an access point, and the key data of its message 3.\<close>

abbreviation AP_MSG1 :: u16 where "AP_MSG1 \<equiv> 0x008A"
abbreviation AP_MSG3 :: u16 where "AP_MSG3 \<equiv> 0x13CA"

definition ap_key_data :: "u8 \<Rightarrow> bytes \<Rightarrow> bytes" where
  "ap_key_data kid gtk = WPA2_RSN_IE @ gtk_element kid gtk @ [0xDD, 0]"

lemma ap_key_data_gtk:
  assumes "length gtk = 16" "kid < 4"
  shows "wpa2_find_gtk (ap_key_data kid gtk) = Some (kid, gtk)" "length (ap_key_data kid gtk) = 48"
proof -
  have ie: "WPA2_RSN_IE = concat (map (\<lambda>(type, d). kd_element type d) [(0x30, drop 2 WPA2_RSN_IE)])"
    by (simp add: WPA2_RSN_IE_def kd_element_def)
  have "list_all other_element [(0x30, drop 2 WPA2_RSN_IE)]" by (simp add: other_element_def WPA2_RSN_IE_def)
  then have "find_gtk_from ([] @ concat (map (\<lambda>(type, d). kd_element type d) [(0x30, drop 2 WPA2_RSN_IE)])
      @ gtk_element kid gtk @ [0xDD, 0]) (length ([] :: bytes)) = Some (kid, gtk)"
    using assms by (rule find_gtk_elements)
  then show "wpa2_find_gtk (ap_key_data kid gtk) = Some (kid, gtk)"
    unfolding ie [symmetric] by (simp add: ap_key_data_def wpa2_find_gtk_def)
  show "length (ap_key_data kid gtk) = 48"
    using assms(1) by (simp add: ap_key_data_def WPA2_RSN_IE_def gtk_element_def kd_element_def GTK_KDE_def)
qed

lemma eapol_build_plain:
  assumes "length replay = 8" "length nonce = 32"
  shows "\<exists>f. wpa2_eapol_build WPA2_EAPOL_MAX key_info key_length replay nonce [] None = Some f \<and> length f = 99
    \<and> wpa2_eapol_parse f = Some \<lparr>ek_key_info = key_info, ek_key_length = key_length, ek_replay = replay,
         ek_nonce = nonce, ek_key_data = [], ek_frame_len = 99\<rparr>"
proof -
  let ?f = "eapol_fields key_info key_length replay nonce []"
  have "wpa2_eapol_parse (?f @ []) = Some \<lparr>ek_key_info = key_info, ek_key_length = key_length, ek_replay = replay,
         ek_nonce = nonce, ek_key_data = [], ek_frame_len = 99 + length ([] :: bytes)\<rparr>"
    by (rule eapol_parse_fields [OF assms _ refl]) simp_all
  then show ?thesis using assms by (simp add: wpa2_eapol_build_def Let_def)
qed

text \<open>An environment in which every op succeeds.\<close>

definition ops_succeed :: "wpa2_env \<Rightarrow> bool" where
  "ops_succeed e \<longleftrightarrow> (\<forall>n. op_ok e n \<and> length (op_random e n) = 32)"

lemma send_key_ok:
  assumes "ops_succeed e" "length replay = 8" "nonce = None \<or> (\<exists>n. nonce = Some n \<and> length n = 32)" "length kd \<le> 400"
  shows "\<exists>f. send_key e sm info replay nonce kd = (True, sm\<lparr>sm_log := sm_log sm @ [Ev_Send f True]\<rparr>)
    \<and> wpa2_eapol_mic_ok (take 16 (sm_ptk sm)) f (length f)
    \<and> wpa2_eapol_parse f = Some \<lparr>ek_key_info = info, ek_key_length = 0, ek_replay = replay,
        ek_nonce = (case nonce of None \<Rightarrow> replicate 32 0 | Some n \<Rightarrow> n), ek_key_data = kd, ek_frame_len = length f\<rparr>"
proof -
  let ?n = "case nonce of None \<Rightarrow> replicate 32 0 | Some n \<Rightarrow> n"
  have "length ?n = 32" using assms(3) by auto
  then obtain f where "wpa2_eapol_build WPA2_EAPOL_MAX info 0 replay ?n kd (Some (take 16 (sm_ptk sm))) = Some f"
    "wpa2_eapol_mic_ok (take 16 (sm_ptk sm)) f (length f)"
    "wpa2_eapol_parse f = Some \<lparr>ek_key_info = info, ek_key_length = 0, ek_replay = replay, ek_nonce = ?n, ek_key_data = kd,
        ek_frame_len = length f\<rparr>"
    using eapol_build_mic [OF assms(2), of ?n kd WPA2_EAPOL_MAX info 0 "take 16 (sm_ptk sm)" "[]"] assms(4) by auto
  then show ?thesis using assms(1) by (intro exI [of _ f]) (simp add: send_key_def call_op_def ops_succeed_def)
qed

lemma handshake_msg1:
  assumes e: "ops_succeed e" and len: "length aa = 6" "length spa = 6" "length r1 = 8" "length anonce = 32"
    and k: "k = \<lparr>ek_key_info = AP_MSG1, ek_key_length = 16, ek_replay = r1, ek_nonce = anonce, ek_key_data = [], ek_frame_len = 99\<rparr>"
    and ptk: "wpa2_ptk pmk aa spa anonce (op_random e 0) = Some ptk"
  shows "\<exists>m2. on_msg1 e (wpa2_sm_init pmk aa spa) k = (WPA2_PROGRESS, (wpa2_sm_init pmk aa spa)\<lparr>sm_anonce := anonce,
      sm_snonce := op_random e 0, sm_ptk := ptk, sm_state := WPA2_GOT_MSG1, sm_log := [Ev_Random (op_random e 0), Ev_Send m2 True]\<rparr>)
    \<and> wpa2_eapol_mic_ok (take 16 ptk) m2 (length m2)
    \<and> wpa2_eapol_parse m2 = Some \<lparr>ek_key_info = KEY_INFO_MSG2, ek_key_length = 0, ek_replay = r1,
        ek_nonce = op_random e 0, ek_key_data = WPA2_RSN_IE, ek_frame_len = length m2\<rparr>"
proof -
  let ?sm = "(wpa2_sm_init pmk aa spa)\<lparr>sm_anonce := anonce, sm_snonce := op_random e 0, sm_ptk := ptk, sm_log := [Ev_Random (op_random e 0)]\<rparr>"
  have "take_anonce e (wpa2_sm_init pmk aa spa) k = ?sm" using ptk by (simp add: take_anonce_def wpa2_sm_init_def k Let_def)
  moreover obtain m2 where "send_key e ?sm KEY_INFO_MSG2 r1 (Some (sm_snonce ?sm)) WPA2_RSN_IE
      = (True, ?sm\<lparr>sm_log := sm_log ?sm @ [Ev_Send m2 True]\<rparr>)" "wpa2_eapol_mic_ok (take 16 (sm_ptk ?sm)) m2 (length m2)"
    "wpa2_eapol_parse m2 = Some \<lparr>ek_key_info = KEY_INFO_MSG2, ek_key_length = 0, ek_replay = r1,
        ek_nonce = (case Some (sm_snonce ?sm) of None \<Rightarrow> replicate 32 0 | Some n \<Rightarrow> n), ek_key_data = WPA2_RSN_IE, ek_frame_len = length m2\<rparr>"
    using send_key_ok [OF e len(3), of "Some (sm_snonce ?sm)" WPA2_RSN_IE ?sm KEY_INFO_MSG2] e
    by (auto simp: ops_succeed_def WPA2_RSN_IE_def)
  ultimately show ?thesis by (intro exI [of _ m2]) (simp add: on_msg1_def Let_def wpa2_sm_init_def k)
qed

lemma unwrap_wrapped:
  assumes "length kek = 16" "length gtk = 16" "kid < 4" "ek_key_data k = wpa2_aes_key_wrap kek (ap_key_data kid gtk)"
    "ek_key_info k AND KEY_INFO_ENCRYPTED \<noteq> 0"
  shows "unwrap_gtk kek k = Some (kid, gtk)" "length (ek_key_data k) = 56"
proof -
  note kd = ap_key_data_gtk [OF assms(2,3)]
  have u: "wpa2_aes_key_unwrap kek (ek_key_data k) = Some (ap_key_data kid gtk)"
    unfolding assms(4) using kd(2) by (intro key_unwrap_wrap [OF assms(1)]) simp_all
  show len: "length (ek_key_data k) = 56" using key_wrap_unwrap [OF assms(1) u] kd(2) by auto
  show "unwrap_gtk kek k = Some (kid, gtk)" using u len assms(5) kd(1) by (simp add: unwrap_gtk_def Let_def)
qed

lemma install_keys_fresh:
  assumes "ops_succeed e" "\<not> sm_ptk_installed sm" "\<not> sm_gtk_installed sm" "sm_state sm \<noteq> WPA2_ESTABLISHED"
  shows "install_keys e sm kid gtk = (WPA2_DONE, sm\<lparr>sm_ptk_installed := True, sm_gtk := gtk, sm_gtk_id := kid,
    sm_gtk_installed := True, sm_state := WPA2_ESTABLISHED,
    sm_log := sm_log sm @ [Ev_Install_Ptk (slice 32 16 (sm_ptk sm)) True, Ev_Install_Gtk kid gtk True, Ev_Open_Port True]\<rparr>)"
  using assms by (simp add: install_keys_def install_ptk_once_def install_gtk_once_def call_op_def ops_succeed_def Let_def)

lemma handshake_msg3:
  assumes e: "ops_succeed e" and k: "ek_nonce k = sm_anonce sm" "ek_key_length k = 16" "length (ek_replay k) = 8"
    and mic: "wpa2_eapol_mic_ok (take 16 (sm_ptk sm)) frame (ek_frame_len k)"
    and gtk: "unwrap_gtk (slice 16 16 (sm_ptk sm)) k = Some (kid, gtk)"
    and sm: "sm_state sm = WPA2_GOT_MSG1" "\<not> sm_ptk_installed sm" "\<not> sm_gtk_installed sm" "\<not> sm_have_replay sm"
  shows "\<exists>m4 sm'. on_msg3 e sm k frame = (WPA2_DONE, sm')
    \<and> sm_log sm' = sm_log sm @ [Ev_Send m4 True, Ev_Install_Ptk (slice 32 16 (sm_ptk sm)) True, Ev_Install_Gtk kid gtk True, Ev_Open_Port True]
    \<and> wpa2_eapol_mic_ok (take 16 (sm_ptk sm)) m4 (length m4)
    \<and> wpa2_eapol_parse m4 = Some \<lparr>ek_key_info = KEY_INFO_MSG4, ek_key_length = 0, ek_replay = ek_replay k,
        ek_nonce = replicate 32 0, ek_key_data = [], ek_frame_len = length m4\<rparr>"
proof -
  let ?sm = "note_replay sm (ek_replay k)"
  obtain m4 where m4: "send_key e ?sm KEY_INFO_MSG4 (ek_replay k) None [] = (True, ?sm\<lparr>sm_log := sm_log ?sm @ [Ev_Send m4 True]\<rparr>)"
    "wpa2_eapol_mic_ok (take 16 (sm_ptk ?sm)) m4 (length m4)"
    "wpa2_eapol_parse m4 = Some \<lparr>ek_key_info = KEY_INFO_MSG4, ek_key_length = 0, ek_replay = ek_replay k,
        ek_nonce = (case None of None \<Rightarrow> replicate 32 0 | Some n \<Rightarrow> n), ek_key_data = [], ek_frame_len = length m4\<rparr>"
    using send_key_ok [OF e k(3), of None "[]" ?sm KEY_INFO_MSG4] by auto
  have "replay_ok sm (ek_replay k)" using sm(4) by (simp add: replay_ok_def)
  then show ?thesis using m4 mic gtk k sm
    by (intro exI [of _ m4]) (simp add: on_msg3_def install_keys_fresh [OF e] note_replay_def)
qed

lemma handshake_run:
  assumes "ops_succeed e" "length aa = 6" "length spa = 6" "length r1 = 8" "length r3 = 8" "length anonce = 32"
    and "length gtk = 16" "kid < 4"
  shows "\<exists>m1 ptk m2 sm1 m3 m4 sm2.
      wpa2_eapol_build WPA2_EAPOL_MAX AP_MSG1 16 r1 anonce [] None = Some m1
    \<and> wpa2_sm_rx e (wpa2_sm_init pmk aa spa) m1 = (WPA2_PROGRESS, sm1)
    \<and> sm_log sm1 = [Ev_Random (op_random e 0), Ev_Send m2 True]
    \<and> map_option ek_nonce (wpa2_eapol_parse m2) = Some (op_random e 0)
    \<and> wpa2_ptk pmk spa aa (op_random e 0) anonce = Some ptk \<and> wpa2_eapol_mic_ok (take 16 ptk) m2 (length m2)
    \<and> wpa2_eapol_build WPA2_EAPOL_MAX AP_MSG3 16 r3 anonce (wpa2_aes_key_wrap (slice 16 16 ptk) (ap_key_data kid gtk))
        (Some (take 16 ptk)) = Some m3
    \<and> map_option (\<lambda>k. ek_key_info k AND KEY_INFO_MIC) (wpa2_eapol_parse m3) = Some 0x0100
    \<and> wpa2_sm_rx e sm1 m3 = (WPA2_DONE, sm2) \<and> wpa2_eapol_mic_ok (take 16 ptk) m4 (length m4)
    \<and> sm_log sm2 = sm_log sm1
        @ [Ev_Send m4 True, Ev_Install_Ptk (slice 32 16 ptk) True, Ev_Install_Gtk kid gtk True, Ev_Open_Port True]"
proof -
  note e = assms(1)
  let ?sn = "op_random e 0" and ?i = "wpa2_sm_init pmk aa spa"
  have sn: "length ?sn = 32" using e by (simp add: ops_succeed_def)
  obtain ptk where ptk: "wpa2_ptk pmk aa spa anonce ?sn = Some ptk" "length ptk = 48"
    using wpa2_ptk_Some [OF assms(2,3,6) sn] by auto
  then have ptk': "wpa2_ptk pmk spa aa ?sn anonce = Some ptk"
    using ptk_data_swap [of aa spa anonce ?sn] assms sn by (simp add: wpa2_ptk_def)
  obtain m1 where m1: "wpa2_eapol_build WPA2_EAPOL_MAX AP_MSG1 16 r1 anonce [] None = Some m1" "length m1 = 99"
    "wpa2_eapol_parse m1 = Some \<lparr>ek_key_info = AP_MSG1, ek_key_length = 16, ek_replay = r1, ek_nonce = anonce,
       ek_key_data = [], ek_frame_len = 99\<rparr>"
    using eapol_build_plain [OF assms(4,6), of AP_MSG1 16] by auto
  let ?sm = "\<lambda>m2. ?i\<lparr>sm_anonce := anonce, sm_snonce := ?sn, sm_ptk := ptk, sm_state := WPA2_GOT_MSG1,
      sm_log := [Ev_Random ?sn, Ev_Send m2 True]\<rparr>"
  obtain m2 where m2: "wpa2_sm_rx e ?i m1 = (WPA2_PROGRESS, ?sm m2)" "wpa2_eapol_mic_ok (take 16 ptk) m2 (length m2)"
    "map_option ek_nonce (wpa2_eapol_parse m2) = Some ?sn"
    using handshake_msg1 [OF e assms(2,3,4,6) refl ptk(1)] m1 by (auto simp: wpa2_sm_rx_def)
  define kd where "kd = wpa2_aes_key_wrap (slice 16 16 ptk) (ap_key_data kid gtk)"
  define k where "k = \<lparr>ek_key_info = AP_MSG3, ek_key_length = 16, ek_replay = r3, ek_nonce = anonce, ek_key_data = kd, ek_frame_len = 155\<rparr>"
  have gtk: "unwrap_gtk (slice 16 16 ptk) k = Some (kid, gtk)" "length kd = 56"
    using unwrap_wrapped [of "slice 16 16 ptk" gtk kid k] assms(7,8) ptk(2) by (simp_all add: k_def kd_def)
  obtain m3 where m3: "wpa2_eapol_build WPA2_EAPOL_MAX AP_MSG3 16 r3 anonce kd (Some (take 16 ptk)) = Some m3"
    "length m3 = 155" "wpa2_eapol_mic_ok (take 16 ptk) m3 155" "wpa2_eapol_parse m3 = Some k"
    using eapol_build_mic [OF assms(5,6), of kd WPA2_EAPOL_MAX AP_MSG3 16 "take 16 ptk" "[]"] gtk(2) by (auto simp: k_def)
  have "\<exists>m4 sm'. on_msg3 e (?sm m2) k m3 = (WPA2_DONE, sm')
    \<and> sm_log sm' = sm_log (?sm m2) @ [Ev_Send m4 True, Ev_Install_Ptk (slice 32 16 ptk) True, Ev_Install_Gtk kid gtk True, Ev_Open_Port True]
    \<and> wpa2_eapol_mic_ok (take 16 ptk) m4 (length m4)"
    using handshake_msg3 [OF e, of k "?sm m2" m3 kid gtk] gtk m3 assms(5) by (auto simp: k_def wpa2_sm_init_def)
  moreover have "wpa2_sm_rx e (?sm m2) m3 = on_msg3 e (?sm m2) k m3" using m3 by (simp add: wpa2_sm_rx_def Let_def k_def)
  moreover have "map_option (\<lambda>k. ek_key_info k AND KEY_INFO_MIC) (wpa2_eapol_parse m3) = Some 0x0100" using m3 by (simp add: k_def)
  ultimately show ?thesis using m1(1) m2 ptk' m3(1) unfolding kd_def by fastforce
qed

text \<open>An environment where every op succeeds.\<close>

definition env_succeed :: wpa2_env where
  "env_succeed = \<lparr>op_ok = (\<lambda>_. True), op_random = (\<lambda>_. replicate 32 7)\<rparr>"

lemma env_succeed_ok: "ops_succeed env_succeed"
  by (simp add: ops_succeed_def env_succeed_def)

section \<open>Theorems\<close>


text \<open>(C5) Replay protection: once a frame with a MIC has been accepted, receiving it again, right away or after any other
  frames, is ignored and changes nothing.\<close>

theorem wpa2_no_replay:
  assumes "wpa2_eapol_parse frame = Some k" "ek_key_info k AND KEY_INFO_MIC \<noteq> 0"
    and "wpa2_sm_rx e (wpa2_sm_run e (wpa2_sm_init pmk aa spa) before) frame = (res, sm)"
    and "res = WPA2_PROGRESS \<or> res = WPA2_DONE"
  shows "wpa2_sm_rx e (wpa2_sm_run e sm frames) frame = (WPA2_IGNORED, wpa2_sm_run e sm frames)"
proof (rule rx_stale [OF assms(1,2)])
  have acc: "sm_have_replay sm" "sm_replay sm = ek_replay k" using rx_accepted [OF assms] by simp_all
  then have "later sm (wpa2_sm_run e sm frames)"
    using later_run [of sm e frames] parse_replay_length [OF assms(1)] by simp
  then show "\<not> replay_ok (wpa2_sm_run e sm frames) (ek_replay k)"
    using acc memcmp_antisym [of "ek_replay k" "sm_replay (wpa2_sm_run e sm frames)"] by (simp add: later_def replay_ok_def)
qed

theorem wpa2_no_replay_witness:
  "\<exists>before frame sm. wpa2_sm_rx env_succeed (wpa2_sm_run env_succeed (wpa2_sm_init (replicate 32 1) (replicate 6 2) (replicate 6 3)) before) frame
       = (WPA2_DONE, sm)
     \<and> wpa2_sm_rx env_succeed (wpa2_sm_run env_succeed sm [frame]) frame = (WPA2_IGNORED, wpa2_sm_run env_succeed sm [frame])"
proof -
  let ?i = "wpa2_sm_init (replicate 32 1) (replicate 6 2) (replicate 6 3)"
  obtain m1 sm1 m3 sm2 where *: "wpa2_sm_rx env_succeed ?i m1 = (WPA2_PROGRESS, sm1)" "wpa2_sm_rx env_succeed sm1 m3 = (WPA2_DONE, sm2)"
    "map_option (\<lambda>k. ek_key_info k AND KEY_INFO_MIC) (wpa2_eapol_parse m3) = Some 0x0100"
    using handshake_run [OF env_succeed_ok, of "replicate 6 2" "replicate 6 3" "replicate 8 0" "replicate 8 1" "replicate 32 4"
      "replicate 16 5" 1 "replicate 32 1"] by auto
  then obtain k where k: "wpa2_eapol_parse m3 = Some k" "ek_key_info k AND KEY_INFO_MIC \<noteq> 0" by auto
  have "wpa2_sm_rx env_succeed (wpa2_sm_run env_succeed ?i [m1]) m3 = (WPA2_DONE, sm2)" using * by simp
  then show ?thesis using wpa2_no_replay [OF k, of env_succeed _ _ _ "[m1]" WPA2_DONE sm2 "[m3]"] by blast
qed

text \<open>(C9) The handshake completes with an access point that follows the protocol: its message 1 is answered with a
  message 2 that carries our nonce and a MIC the access point's own key verifies; its message 3, made with that key, is
  answered with message 4, then the temporal key and the group key it sent are installed and the port is opened.\<close>

theorem wpa2_handshake_completes:
  assumes "ops_succeed e" "length aa = 6" "length spa = 6" "length r1 = 8" "length r3 = 8" "length anonce = 32"
    and "length gtk = 16" "kid < 4"
  shows "\<exists>m1 ptk m2 sm1 m3 m4 sm2.
      wpa2_eapol_build WPA2_EAPOL_MAX AP_MSG1 16 r1 anonce [] None = Some m1
    \<and> wpa2_sm_rx e (wpa2_sm_init pmk aa spa) m1 = (WPA2_PROGRESS, sm1)
    \<and> sm_log sm1 = [Ev_Random (op_random e 0), Ev_Send m2 True]
    \<and> map_option ek_nonce (wpa2_eapol_parse m2) = Some (op_random e 0)
    \<and> wpa2_ptk pmk spa aa (op_random e 0) anonce = Some ptk \<and> wpa2_eapol_mic_ok (take 16 ptk) m2 (length m2)
    \<and> wpa2_eapol_build WPA2_EAPOL_MAX AP_MSG3 16 r3 anonce (wpa2_aes_key_wrap (slice 16 16 ptk) (ap_key_data kid gtk))
        (Some (take 16 ptk)) = Some m3
    \<and> map_option (\<lambda>k. ek_key_info k AND KEY_INFO_MIC) (wpa2_eapol_parse m3) = Some 0x0100
    \<and> wpa2_sm_rx e sm1 m3 = (WPA2_DONE, sm2) \<and> wpa2_eapol_mic_ok (take 16 ptk) m4 (length m4)
    \<and> sm_log sm2 = sm_log sm1
        @ [Ev_Send m4 True, Ev_Install_Ptk (slice 32 16 ptk) True, Ev_Install_Gtk kid gtk True, Ev_Open_Port True]"
  by (rule handshake_run [OF assms])

theorem wpa2_handshake_completes_witness:
  "\<exists>m1 ptk m3 sm1 sm2. wpa2_sm_rx env_succeed (wpa2_sm_init (replicate 32 1) (replicate 6 2) (replicate 6 3)) m1 = (WPA2_PROGRESS, sm1)
     \<and> wpa2_ptk (replicate 32 1) (replicate 6 3) (replicate 6 2) (op_random env_succeed 0) (replicate 32 4) = Some ptk
     \<and> wpa2_sm_rx env_succeed sm1 m3 = (WPA2_DONE, sm2) \<and> Ev_Install_Ptk (slice 32 16 ptk) True \<in> set (sm_log sm2)"
proof -
  have "length (replicate 6 (2 :: u8)) = 6" "length (replicate 6 (3 :: u8)) = 6" "length (replicate 8 (0 :: u8)) = 8"
    "length (replicate 8 (1 :: u8)) = 8" "length (replicate 32 (4 :: u8)) = 32" "length (replicate 16 (5 :: u8)) = 16" "(1 :: u8) < 4"
    by simp_all
  from wpa2_handshake_completes [OF env_succeed_ok this, of "replicate 32 1"] show ?thesis
    by (elim exE conjE) (intro exI conjI, assumption+, simp)
qed

end
