(* ===== verification/Ap_Frames.thy ===== *)
theory Ap_Frames
  imports Prelude
begin

text \<open>
  The management frames of the open access point, \<open>src/src/platform/port_wifi/api/ap_frames.c\<close>, and its table of
  clients, \<open>ap_clients.c\<close>. A writer that checks its capacity builds the frames; every builder is shown to put out
  exactly the bytes of the frame or to report 0, and never to touch memory behind the capacity. The parser of received
  frames accepts a probe request exactly when its body is a sequence of whole elements.
\<close>

section \<open>The writer\<close>

abbreviation AP_SSID_MAX :: nat where "AP_SSID_MAX \<equiv> 32"
abbreviation AP_FRAME_MAX :: nat where "AP_FRAME_MAX \<equiv> 160"
abbreviation CAPABILITY :: u16 where "CAPABILITY \<equiv> 0x0421"
abbreviation BEACON_INTERVAL_TU :: u16 where "BEACON_INTERVAL_TU \<equiv> 100"

record ap_bss =
  bss_bssid    :: bytes
  bss_ssid     :: bytes
  bss_ssid_len :: u8
  bss_channel  :: u8

definition k_rates :: bytes where "k_rates = [0x82, 0x84, 0x8b, 0x96, 0x0c, 0x12, 0x18, 0x24]"
definition k_ext_rates :: bytes where "k_ext_rates = [0x30, 0x48, 0x60, 0x6c]"
definition k_tim :: bytes where "k_tim = [0, 1, 0, 0]"
definition k_bcast :: bytes where "k_bcast = replicate 6 0xff"

text \<open>\<open>w_p\<close> is the memory the buffer lies in, from its first byte on.\<close>

record writer =
  w_p   :: bytes
  w_len :: nat
  w_cap :: nat
  w_ok  :: bool

definition put :: "writer \<Rightarrow> bytes \<Rightarrow> writer" where
  "put w data =
     (if w_len w + length data > w_cap w then w\<lparr>w_ok := False\<rparr>
      else w\<lparr>w_p := buf_write (w_len w) data (w_p w), w_len := w_len w + length data\<rparr>)"

definition put8 :: "writer \<Rightarrow> u8 \<Rightarrow> writer" where
  "put8 w v = put w [v]"

definition put16 :: "writer \<Rightarrow> u16 \<Rightarrow> writer" where
  "put16 w v = put w (le16_bytes v)"

definition put_ie :: "writer \<Rightarrow> u8 \<Rightarrow> bytes \<Rightarrow> u8 \<Rightarrow> writer" where
  "put_ie w ie data n = put (put8 (put8 w ie) n) (take (unat n) data)"

definition start :: "bytes \<Rightarrow> nat \<Rightarrow> writer" where
  "start buf cap = \<lparr>w_p = buf, w_len = 0, w_cap = cap, w_ok = True\<rparr>"

definition finish :: "writer \<Rightarrow> nat" where
  "finish w = (if w_ok w then w_len w else 0)"

definition put_header :: "writer \<Rightarrow> u8 \<Rightarrow> bytes \<Rightarrow> ap_bss \<Rightarrow> writer" where
  "put_header w type_subtype da bss =
     (let w = put8 w type_subtype;
          w = put8 w 0;
          w = put16 w 0;
          w = put w da;
          w = put w (bss_bssid bss);
          w = put w (bss_bssid bss)
      in put16 w 0)"

text \<open>The out parameter \<open>tim_oft\<close> is \<open>None\<close> for \<open>NULL\<close>.\<close>

definition put_bss_ies :: "writer \<Rightarrow> ap_bss \<Rightarrow> bool \<Rightarrow> u16 option \<Rightarrow> writer \<times> u16 option" where
  "put_bss_ies w bss with_tim tim_oft =
     (let w = put_ie w 0 (bss_ssid bss) (bss_ssid_len bss);
          w = put_ie w 1 k_rates 8;
          w = put_ie w 3 [bss_channel bss] 1;
          (w, tim_oft) =
            (if with_tim
             then (put_ie w 5 k_tim 4, if tim_oft \<noteq> None then Some (of_nat (w_len w)) else None)
             else (w, tim_oft));
          w = put_ie w 42 [0] 1;
          w = put_ie w 50 k_ext_rates 4
      in (w, tim_oft))"

definition put_bss_fixed :: "writer \<Rightarrow> writer" where
  "put_bss_fixed w = put16 (put16 (put w (replicate 8 0)) BEACON_INTERVAL_TU) CAPABILITY"

section \<open>Frames\<close>

text \<open>Each builder returns the length, or 0, and the memory.\<close>

definition ap_build_beacon ::
  "ap_bss \<Rightarrow> bytes \<Rightarrow> nat \<Rightarrow> u16 option \<Rightarrow> u8 option \<Rightarrow> nat \<times> bytes \<times> u16 option \<times> u8 option" where
  "ap_build_beacon bss buf cap tim_oft tim_len =
     (let w = start buf cap;
          w = put_header w 0x80 k_bcast bss;
          w = put_bss_fixed w;
          (w, tim_oft) = put_bss_ies w bss True tim_oft
      in (finish w, w_p w, tim_oft, if tim_len \<noteq> None then Some 6 else None))"

definition ap_build_probe_resp :: "ap_bss \<Rightarrow> bytes \<Rightarrow> bytes \<Rightarrow> nat \<Rightarrow> nat \<times> bytes" where
  "ap_build_probe_resp bss da buf cap =
     (let w = start buf cap;
          w = put_header w 0x50 da bss;
          w = put_bss_fixed w;
          (w, _) = put_bss_ies w bss False None
      in (finish w, w_p w))"

definition ap_build_auth_resp :: "ap_bss \<Rightarrow> bytes \<Rightarrow> u16 \<Rightarrow> u16 \<Rightarrow> bytes \<Rightarrow> nat \<Rightarrow> nat \<times> bytes" where
  "ap_build_auth_resp bss da alg status buf cap =
     (let w = start buf cap;
          w = put_header w 0xB0 da bss;
          w = put16 w alg;
          w = put16 w 2;
          w = put16 w status
      in (finish w, w_p w))"

definition ap_build_assoc_resp :: "ap_bss \<Rightarrow> bytes \<Rightarrow> bool \<Rightarrow> u16 \<Rightarrow> u16 \<Rightarrow> bytes \<Rightarrow> nat \<Rightarrow> nat \<times> bytes" where
  "ap_build_assoc_resp bss da reassoc status aid buf cap =
     (let w = start buf cap;
          w = put_header w (if reassoc then 0x30 else 0x10) da bss;
          w = put16 w CAPABILITY;
          w = put16 w status;
          w = put16 w (aid OR 0xC000);
          w = put_ie w 1 k_rates 8;
          w = put_ie w 50 k_ext_rates 4
      in (finish w, w_p w))"

definition ap_build_deauth :: "ap_bss \<Rightarrow> bytes \<Rightarrow> u16 \<Rightarrow> bytes \<Rightarrow> nat \<Rightarrow> nat \<times> bytes" where
  "ap_build_deauth bss da reason buf cap =
     (let w = start buf cap;
          w = put_header w 0xC0 da bss;
          w = put16 w reason
      in (finish w, w_p w))"

section \<open>Parsing\<close>

abbreviation HEADER_LEN :: nat where "HEADER_LEN \<equiv> 24"

datatype ap_frame_kind =
    AP_FRAME_OTHER | AP_FRAME_PROBE_REQ | AP_FRAME_AUTH | AP_FRAME_ASSOC_REQ | AP_FRAME_REASSOC_REQ
  | AP_FRAME_DISASSOC | AP_FRAME_DEAUTH

text \<open>\<open>rx_ssid\<close> is the bytes the pointer and the length \<open>ssid_len\<close> select.\<close>

record ap_rx =
  rx_kind     :: ap_frame_kind
  rx_da       :: bytes
  rx_sa       :: bytes
  rx_bssid    :: bytes
  rx_auth_alg :: u16
  rx_auth_seq :: u16
  rx_has_ssid :: bool
  rx_ssid     :: bytes

definition rx_zero :: ap_rx where
  "rx_zero = \<lparr>rx_kind = AP_FRAME_OTHER, rx_da = replicate 6 0, rx_sa = replicate 6 0, rx_bssid = replicate 6 0,
     rx_auth_alg = 0, rx_auth_seq = 0, rx_has_ssid = False, rx_ssid = []\<rparr>"

definition rd16 :: "bytes \<Rightarrow> nat \<Rightarrow> u16" where
  "rd16 f off = le16 (slice off 2 f)"

function parse_probe_from :: "bytes \<Rightarrow> nat \<Rightarrow> ap_rx \<Rightarrow> bool \<times> ap_rx" where
  "parse_probe_from f i rx =
     (if i < length f then
        if i + 2 > length f then (False, rx)
        else
          let ie = f ! i; n = unat (f ! (i + 1)) in
          if i + 2 + n > length f then (False, rx)
          else if ie = 0 \<and> \<not> rx_has_ssid rx then
            if n > AP_SSID_MAX then (False, rx)
            else parse_probe_from f (i + 2 + n) (rx\<lparr>rx_has_ssid := True, rx_ssid := slice (i + 2) n f\<rparr>)
          else parse_probe_from f (i + 2 + n) rx
      else (True, rx))"
  by pat_completeness auto
termination by (relation "measure (\<lambda>(f, i, rx). length f - i)") auto

declare parse_probe_from.simps [simp del]

definition parse_probe_ies :: "bytes \<Rightarrow> ap_rx \<Rightarrow> bool \<times> ap_rx" where
  "parse_probe_ies f rx = parse_probe_from f HEADER_LEN rx"

text \<open>What is returned beside the bool is the struct as the call leaves it.\<close>

definition ap_parse :: "bytes \<Rightarrow> bool \<times> ap_rx" where
  "ap_parse f =
     (let rx = rx_zero; len = length f in
      if len < HEADER_LEN \<or> f ! 0 AND 0x0F \<noteq> 0 then (False, rx)
      else
        let rx = rx\<lparr>rx_da := slice 4 6 f, rx_sa := slice 10 6 f, rx_bssid := slice 16 6 f\<rparr>;
            subtype = f ! 0 AND 0xF0
        in if subtype = 0x40 then parse_probe_ies f (rx\<lparr>rx_kind := AP_FRAME_PROBE_REQ\<rparr>)
           else if subtype = 0xB0 then
             if len < HEADER_LEN + 6 then (False, rx)
             else (True, rx\<lparr>rx_kind := AP_FRAME_AUTH, rx_auth_alg := rd16 f HEADER_LEN, rx_auth_seq := rd16 f (HEADER_LEN + 2)\<rparr>)
           else if subtype = 0x00 then
             if len < HEADER_LEN + 4 then (False, rx) else (True, rx\<lparr>rx_kind := AP_FRAME_ASSOC_REQ\<rparr>)
           else if subtype = 0x20 then
             if len < HEADER_LEN + 10 then (False, rx) else (True, rx\<lparr>rx_kind := AP_FRAME_REASSOC_REQ\<rparr>)
           else if subtype = 0xA0 then
             if len < HEADER_LEN + 2 then (False, rx) else (True, rx\<lparr>rx_kind := AP_FRAME_DISASSOC\<rparr>)
           else if subtype = 0xC0 then
             if len < HEADER_LEN + 2 then (False, rx) else (True, rx\<lparr>rx_kind := AP_FRAME_DEAUTH\<rparr>)
           else (False, rx))"

definition ap_probe_wanted :: "ap_bss \<Rightarrow> ap_rx \<Rightarrow> bool" where
  "ap_probe_wanted bss rx \<longleftrightarrow>
     (if \<not> rx_has_ssid rx \<or> length (rx_ssid rx) = 0 then True
      else length (rx_ssid rx) = unat (bss_ssid_len bss)
        \<and> rx_ssid rx = take (unat (bss_ssid_len bss)) (bss_ssid bss))"

section \<open>Clients\<close>

abbreviation AP_CLIENTS_MAX :: nat where "AP_CLIENTS_MAX \<equiv> 4"
abbreviation AP_NO_STA :: u8 where "AP_NO_STA \<equiv> 0xFF"

datatype ap_client_state = AP_CLIENT_FREE | AP_CLIENT_AUTHED | AP_CLIENT_ASSOC

record ap_client =
  cl_mac     :: bytes
  cl_sta_idx :: u8
  cl_state   :: ap_client_state

type_synonym ap_clients = "ap_client list"

definition client_zero :: ap_client where
  "client_zero = \<lparr>cl_mac = replicate 6 0, cl_sta_idx = 0, cl_state = AP_CLIENT_FREE\<rparr>"

definition ap_clients_clear :: ap_clients where
  "ap_clients_clear = replicate AP_CLIENTS_MAX client_zero"

text \<open>An entry is known by its slot; \<open>None\<close> is \<open>NULL\<close>. Both searches run over the slots from \<open>i\<close> on.\<close>

fun client_from :: "(ap_client \<Rightarrow> bool) \<Rightarrow> nat \<Rightarrow> ap_client list \<Rightarrow> nat option" where
  "client_from p i [] = None"
| "client_from p i (c # cs) = (if p c then Some i else client_from p (i + 1) cs)"

definition ap_clients_find :: "ap_clients \<Rightarrow> bytes \<Rightarrow> nat option" where
  "ap_clients_find t mac = client_from (\<lambda>c. cl_state c \<noteq> AP_CLIENT_FREE \<and> cl_mac c = mac) 0 t"

definition ap_clients_add :: "ap_clients \<Rightarrow> bytes \<Rightarrow> nat option \<times> ap_clients" where
  "ap_clients_add t mac =
     (case ap_clients_find t mac of
        Some i \<Rightarrow> (Some i, t)
      | None \<Rightarrow>
          (case client_from (\<lambda>c. cl_state c = AP_CLIENT_FREE) 0 t of
             None \<Rightarrow> (None, t)
           | Some i \<Rightarrow> (Some i, t[i := \<lparr>cl_mac = mac, cl_sta_idx = AP_NO_STA, cl_state = AP_CLIENT_AUTHED\<rparr>])))"

definition ap_clients_remove :: "ap_clients \<Rightarrow> nat \<Rightarrow> ap_clients" where
  "ap_clients_remove t i = t[i := client_zero]"

definition ap_clients_aid :: "nat \<Rightarrow> u16" where
  "ap_clients_aid i = of_nat i + 1"

section \<open>What the builders put out\<close>

text \<open>The frames as byte strings.\<close>

definition ie_bytes :: "u8 \<Rightarrow> bytes \<Rightarrow> bytes" where
  "ie_bytes ie d = [ie, of_nat (length d)] @ d"

definition header_bytes :: "u8 \<Rightarrow> bytes \<Rightarrow> bytes \<Rightarrow> bytes \<Rightarrow> bytes" where
  "header_bytes fc da sa bssid = [fc, 0] @ le16_bytes 0 @ da @ sa @ bssid @ le16_bytes 0"

definition bss_ies :: "ap_bss \<Rightarrow> bytes \<Rightarrow> bytes" where
  "bss_ies bss tim = ie_bytes 0 (take (unat (bss_ssid_len bss)) (bss_ssid bss)) @ ie_bytes 1 k_rates
     @ ie_bytes 3 [bss_channel bss] @ tim @ ie_bytes 42 [0] @ ie_bytes 50 k_ext_rates"

abbreviation ap_header :: "u8 \<Rightarrow> bytes \<Rightarrow> ap_bss \<Rightarrow> bytes" where
  "ap_header fc da bss \<equiv> header_bytes fc da (bss_bssid bss) (bss_bssid bss)"

definition bss_fixed :: bytes where
  "bss_fixed = replicate 8 0 @ le16_bytes BEACON_INTERVAL_TU @ le16_bytes CAPABILITY"

definition beacon_bytes :: "ap_bss \<Rightarrow> bytes" where
  "beacon_bytes bss = ap_header 0x80 k_bcast bss @ bss_fixed @ bss_ies bss (ie_bytes 5 k_tim)"

definition probe_resp_bytes :: "ap_bss \<Rightarrow> bytes \<Rightarrow> bytes" where
  "probe_resp_bytes bss da = ap_header 0x50 da bss @ bss_fixed @ bss_ies bss []"

definition auth_resp_bytes :: "ap_bss \<Rightarrow> bytes \<Rightarrow> u16 \<Rightarrow> u16 \<Rightarrow> bytes" where
  "auth_resp_bytes bss da alg status = ap_header 0xB0 da bss @ le16_bytes alg @ le16_bytes 2 @ le16_bytes status"

definition assoc_resp_bytes :: "ap_bss \<Rightarrow> bytes \<Rightarrow> bool \<Rightarrow> u16 \<Rightarrow> u16 \<Rightarrow> bytes" where
  "assoc_resp_bytes bss da reassoc status aid = ap_header (if reassoc then 0x30 else 0x10) da bss @ le16_bytes CAPABILITY
     @ le16_bytes status @ le16_bytes (aid OR 0xC000) @ ie_bytes 1 k_rates @ ie_bytes 50 k_ext_rates"

definition deauth_bytes :: "ap_bss \<Rightarrow> bytes \<Rightarrow> u16 \<Rightarrow> bytes" where
  "deauth_bytes bss da reason = ap_header 0xC0 da bss @ le16_bytes reason"

text \<open>\<open>wrote buf cap xs w\<close>: starting from \<open>buf\<close>, the bytes \<open>xs\<close> have been put. \<open>built\<close> is what that comes to once
  the frame is finished.\<close>

definition wrote :: "bytes \<Rightarrow> nat \<Rightarrow> bytes \<Rightarrow> writer \<Rightarrow> bool" where
  "wrote buf cap xs w \<longleftrightarrow> w_cap w = cap \<and> length (w_p w) = length buf \<and> drop cap (w_p w) = drop cap buf \<and> w_len w \<le> cap
     \<and> w_ok w = (length xs \<le> cap) \<and> (w_ok w \<longrightarrow> w_len w = length xs \<and> take (length xs) (w_p w) = xs)"

definition built :: "bytes \<Rightarrow> nat \<Rightarrow> bytes \<Rightarrow> nat \<times> bytes \<Rightarrow> bool" where
  "built buf cap xs r \<longleftrightarrow> length (snd r) = length buf \<and> drop cap (snd r) = drop cap buf
     \<and> (if length xs \<le> cap then fst r = length xs \<and> take (length xs) (snd r) = xs else fst r = 0)"

lemma wrote_start: "cap \<le> length buf \<Longrightarrow> wrote buf cap [] (start buf cap)"
  by (simp add: wrote_def start_def)

lemma wrote_put:
  assumes "wrote buf cap xs w" "cap \<le> length buf" "ys = xs @ d"
  shows "wrote buf cap ys (put w d)"
proof (cases "w_len w + length d > cap")
  case True
  then show ?thesis using assms by (auto simp: wrote_def put_def)
next
  case False
  let ?p = "buf_write (w_len w) d (w_p w)"
  have len: "length ?p = length buf" "w_len w + length d \<le> length (w_p w)" using False assms(1,2) by (auto simp: wrote_def)
  have "drop cap ?p = drop cap (w_p w)"
    using False len by (simp add: buf_write_def)
  then show ?thesis using False assms len by (auto simp: wrote_def put_def buf_write_def min_def)
qed

lemma wrote_put8: "wrote buf cap xs w \<Longrightarrow> cap \<le> length buf \<Longrightarrow> wrote buf cap (xs @ [v]) (put8 w v)"
  unfolding put8_def by (rule wrote_put) simp_all

lemma wrote_put16: "wrote buf cap xs w \<Longrightarrow> cap \<le> length buf \<Longrightarrow> wrote buf cap (xs @ le16_bytes v) (put16 w v)"
  unfolding put16_def by (rule wrote_put) simp_all

lemma wrote_put_ie:
  "wrote buf cap xs w \<Longrightarrow> cap \<le> length buf \<Longrightarrow> unat n \<le> length d \<Longrightarrow>
     wrote buf cap (xs @ ie_bytes ie (take (unat n) d)) (put_ie w ie d n)"
  unfolding put_ie_def
  by (rule wrote_put [where xs = "(xs @ [ie]) @ [n]"], rule wrote_put8, rule wrote_put8) (simp_all add: ie_bytes_def min_def)

lemma wrote_header:
  assumes "wrote buf cap xs w" "cap \<le> length buf"
  shows "wrote buf cap (xs @ ap_header fc da bss) (put_header w fc da bss)"
proof -
  have "wrote buf cap (((((((xs @ [fc]) @ [0]) @ le16_bytes 0) @ da) @ bss_bssid bss) @ bss_bssid bss) @ le16_bytes 0) (put_header w fc da bss)"
    unfolding put_header_def Let_def using assms by (intro wrote_put16 wrote_put8 wrote_put [OF _ _ refl])
  then show ?thesis by (simp add: header_bytes_def)
qed

lemma wrote_fixed:
  assumes "wrote buf cap xs w" "cap \<le> length buf"
  shows "wrote buf cap (xs @ bss_fixed) (put_bss_fixed w)"
proof -
  have "wrote buf cap (((xs @ replicate 8 0) @ le16_bytes BEACON_INTERVAL_TU) @ le16_bytes CAPABILITY) (put_bss_fixed w)"
    unfolding put_bss_fixed_def using assms by (intro wrote_put16 wrote_put [OF _ _ refl])
  then show ?thesis by (simp add: bss_fixed_def)
qed

text \<open>A network as the access point starts it: its SSID fits.\<close>

definition bss_ok :: "ap_bss \<Rightarrow> bool" where
  "bss_ok bss \<longleftrightarrow> length (bss_bssid bss) = 6 \<and> length (bss_ssid bss) = AP_SSID_MAX \<and> unat (bss_ssid_len bss) \<le> AP_SSID_MAX"

lemma wrote_ies_prefix:
  assumes "wrote buf cap xs w" "cap \<le> length buf" "bss_ok bss"
  shows "wrote buf cap (xs @ ie_bytes 0 (take (unat (bss_ssid_len bss)) (bss_ssid bss)) @ ie_bytes 1 k_rates @ ie_bytes 3 [bss_channel bss])
    (put_ie (put_ie (put_ie w 0 (bss_ssid bss) (bss_ssid_len bss)) 1 k_rates 8) 3 [bss_channel bss] 1)"
proof -
  let ?a = "xs @ ie_bytes 0 (take (unat (bss_ssid_len bss)) (bss_ssid bss))"
  have 1: "wrote buf cap (?a @ ie_bytes 1 (take (unat (8 :: u8)) k_rates)) (put_ie (put_ie w 0 (bss_ssid bss) (bss_ssid_len bss)) 1 k_rates 8)"
    using assms by (intro wrote_put_ie) (simp_all add: k_rates_def bss_ok_def)
  have "wrote buf cap ((?a @ ie_bytes 1 k_rates) @ ie_bytes 3 (take (unat (1 :: u8)) [bss_channel bss]))
      (put_ie (put_ie (put_ie w 0 (bss_ssid bss) (bss_ssid_len bss)) 1 k_rates 8) 3 [bss_channel bss] 1)"
    using 1 assms(2) by (intro wrote_put_ie) (simp_all add: k_rates_def)
  then show ?thesis by simp
qed

lemma wrote_ies:
  assumes "wrote buf cap xs w" "cap \<le> length buf" "bss_ok bss"
  shows "wrote buf cap (xs @ bss_ies bss (if t then ie_bytes 5 k_tim else [])) (fst (put_bss_ies w bss t oft))"
proof -
  let ?w = "put_ie (put_ie (put_ie w 0 (bss_ssid bss) (bss_ssid_len bss)) 1 k_rates 8) 3 [bss_channel bss] 1"
  let ?b = "xs @ ie_bytes 0 (take (unat (bss_ssid_len bss)) (bss_ssid bss)) @ ie_bytes 1 k_rates @ ie_bytes 3 [bss_channel bss]"
  note 2 = wrote_ies_prefix [OF assms]
  have 3: "wrote buf cap (?b @ ie_bytes 5 (take (unat (4 :: u8)) k_tim)) (put_ie ?w 5 k_tim 4)"
    using 2 assms(2) by (intro wrote_put_ie) (simp_all add: k_tim_def)
  let ?c = "?b @ (if t then ie_bytes 5 k_tim else [])"
  let ?v = "if t then put_ie ?w 5 k_tim 4 else ?w"
  have 4: "wrote buf cap ?c ?v" using 2 3 by (simp add: k_tim_def)
  have "wrote buf cap ((?c @ ie_bytes 42 (take (unat (1 :: u8)) [0])) @ ie_bytes 50 (take (unat (4 :: u8)) k_ext_rates))
      (put_ie (put_ie ?v 42 [0] 1) 50 k_ext_rates 4)"
    using 4 assms(2) by (intro wrote_put_ie) (simp_all add: k_ext_rates_def)
  then show ?thesis by (cases t) (simp_all add: put_bss_ies_def bss_ies_def Let_def k_ext_rates_def)
qed

lemma built_finish: "wrote buf cap xs w \<Longrightarrow> built buf cap xs (finish w, w_p w)"
  by (auto simp: wrote_def built_def finish_def)

lemmas wrote_rules = wrote_header wrote_fixed wrote_ies wrote_put16 wrote_put8 wrote_put_ie

lemma built_beacon:
  assumes "cap \<le> length buf" "bss_ok bss"
  shows "built buf cap (beacon_bytes bss) (let (n, buf', _) = ap_build_beacon bss buf cap oft tlen in (n, buf'))"
proof -
  have "wrote buf cap ((([] @ ap_header 0x80 k_bcast bss) @ bss_fixed) @ bss_ies bss (if True then ie_bytes 5 k_tim else []))
     (fst (put_bss_ies (put_bss_fixed (put_header (start buf cap) 0x80 k_bcast bss)) bss True oft))"
    using assms by (intro wrote_rules wrote_start)
  then show ?thesis
    by (auto simp: ap_build_beacon_def beacon_bytes_def Let_def case_prod_unfold dest: built_finish)
qed

lemma built_probe_resp:
  assumes "cap \<le> length buf" "bss_ok bss"
  shows "built buf cap (probe_resp_bytes bss da) (ap_build_probe_resp bss da buf cap)"
proof -
  have "wrote buf cap ((([] @ ap_header 0x50 da bss) @ bss_fixed) @ bss_ies bss (if False then ie_bytes 5 k_tim else []))
     (fst (put_bss_ies (put_bss_fixed (put_header (start buf cap) 0x50 da bss)) bss False None))"
    using assms by (intro wrote_rules wrote_start)
  then show ?thesis
    by (auto simp: ap_build_probe_resp_def probe_resp_bytes_def Let_def case_prod_unfold dest: built_finish)
qed

lemma built_auth_resp:
  assumes "cap \<le> length buf"
  shows "built buf cap (auth_resp_bytes bss da alg status) (ap_build_auth_resp bss da alg status buf cap)"
proof -
  have "wrote buf cap (((([] @ ap_header 0xB0 da bss) @ le16_bytes alg) @ le16_bytes 2) @ le16_bytes status)
     (put16 (put16 (put16 (put_header (start buf cap) 0xB0 da bss) alg) 2) status)"
    using assms by (intro wrote_rules wrote_start)
  then show ?thesis by (auto simp: ap_build_auth_resp_def auth_resp_bytes_def Let_def dest: built_finish)
qed

lemma built_deauth:
  assumes "cap \<le> length buf"
  shows "built buf cap (deauth_bytes bss da reason) (ap_build_deauth bss da reason buf cap)"
proof -
  have "wrote buf cap (([] @ ap_header 0xC0 da bss) @ le16_bytes reason) (put16 (put_header (start buf cap) 0xC0 da bss) reason)"
    using assms by (intro wrote_rules wrote_start)
  then show ?thesis by (auto simp: ap_build_deauth_def deauth_bytes_def Let_def dest: built_finish)
qed

lemma built_assoc_resp:
  assumes "cap \<le> length buf"
  shows "built buf cap (assoc_resp_bytes bss da reassoc status aid) (ap_build_assoc_resp bss da reassoc status aid buf cap)"
proof -
  let ?fc = "if reassoc then 0x30 else 0x10"
  let ?xs = "((([] @ ap_header ?fc da bss) @ le16_bytes CAPABILITY) @ le16_bytes status) @ le16_bytes (aid OR 0xC000)"
  let ?w = "put16 (put16 (put16 (put_header (start buf cap) ?fc da bss) CAPABILITY) status) (aid OR 0xC000)"
  have "wrote buf cap ?xs ?w" using assms by (intro wrote_rules wrote_start)
  then have "wrote buf cap ((?xs @ ie_bytes 1 (take (unat (8 :: u8)) k_rates)) @ ie_bytes 50 (take (unat (4 :: u8)) k_ext_rates))
     (put_ie (put_ie ?w 1 k_rates 8) 50 k_ext_rates 4)"
    using assms by (intro wrote_put_ie) (simp_all add: k_rates_def k_ext_rates_def)
  then show ?thesis
    by (auto simp: ap_build_assoc_resp_def assoc_resp_bytes_def Let_def k_rates_def k_ext_rates_def dest: built_finish)
qed

lemma frame_lengths:
  assumes "bss_ok bss" "length da = 6"
  shows "length (beacon_bytes bss) \<le> AP_FRAME_MAX" "length (probe_resp_bytes bss da) \<le> AP_FRAME_MAX"
    "length (auth_resp_bytes bss da alg status) \<le> AP_FRAME_MAX"
    "length (assoc_resp_bytes bss da reassoc status aid) \<le> AP_FRAME_MAX" "length (deauth_bytes bss da reason) \<le> AP_FRAME_MAX"
  using assms by (simp_all add: bss_ok_def beacon_bytes_def probe_resp_bytes_def auth_resp_bytes_def assoc_resp_bytes_def
      deauth_bytes_def header_bytes_def bss_fixed_def bss_ies_def ie_bytes_def k_bcast_def k_rates_def k_ext_rates_def k_tim_def)

text \<open>Where the TIM element starts in the beacon.\<close>

lemma beacon_tim:
  assumes "bss_ok bss" "cap \<le> length buf" "length (beacon_bytes bss) \<le> cap"
  shows "\<exists>off. snd (put_bss_ies (put_bss_fixed (put_header (start buf cap) 0x80 k_bcast bss)) bss True (Some oft)) = Some off
     \<and> slice (unat off) 6 (beacon_bytes bss) = ie_bytes 5 k_tim"
proof -
  define w where "w = put_bss_fixed (put_header (start buf cap) 0x80 k_bcast bss)"
  let ?p = "ap_header 0x80 k_bcast bss @ bss_fixed @ ie_bytes 0 (take (unat (bss_ssid_len bss)) (bss_ssid bss)) @ ie_bytes 1 k_rates @ ie_bytes 3 [bss_channel bss]"
  let ?r = "ie_bytes 42 [0] @ ie_bytes 50 k_ext_rates"
  have eq: "beacon_bytes bss = ?p @ ie_bytes 5 k_tim @ ?r" by (simp add: beacon_bytes_def bss_ies_def)
  have "wrote buf cap (([] @ ap_header 0x80 k_bcast bss) @ bss_fixed) w"
    unfolding w_def using assms by (intro wrote_rules wrote_start)
  from wrote_ies_prefix [OF this assms(2,1)]
  have "w_len (put_ie (put_ie (put_ie w 0 (bss_ssid bss) (bss_ssid_len bss)) 1 k_rates 8) 3 [bss_channel bss] 1) = length ?p"
    using assms(3) unfolding eq wrote_def by simp
  moreover have "length ?p \<le> 160" using frame_lengths(1) [OF assms(1) length_replicate] unfolding eq by simp
  then have "unat (of_nat (length ?p) :: u16) = length ?p" by (simp only: unat_of_nat) (simp del: length_append)
  moreover have "slice (length p) 6 (p @ x @ r) = x" if "length x = 6" for p x r :: bytes using that by (simp add: slice_def)
  then have "slice (length ?p) 6 (?p @ ie_bytes 5 k_tim @ ?r) = ie_bytes 5 k_tim" by this (simp add: ie_bytes_def k_tim_def)
  ultimately show ?thesis unfolding eq w_def [symmetric] by (simp add: put_bss_ies_def Let_def del: of_nat_add length_append)
qed

section \<open>What the parser accepts\<close>

text \<open>A sequence of elements, and the first SSID in it.\<close>

definition ies_bytes :: "(u8 \<times> bytes) list \<Rightarrow> bytes" where
  "ies_bytes els = concat (map (\<lambda>(ie, d). ie_bytes ie d) els)"

definition ies_ok :: "(u8 \<times> bytes) list \<Rightarrow> bool" where
  "ies_ok els \<longleftrightarrow> list_all (\<lambda>(ie, d). length d < 256) els"

lemma element_nth:
  assumes "length d < 256" "f = pre @ ie_bytes ie d @ rest"
  shows "f ! length pre = ie" "unat (f ! (length pre + 1)) = length d" "slice (length pre + 2) (length d) f = d"
    "length f = length pre + 2 + length d + length rest"
  using assms by (simp_all add: ie_bytes_def slice_def nth_append unat_of_nat)

lemma parse_probe_complete:
  "ies_ok els \<Longrightarrow> f = pre @ ies_bytes els \<Longrightarrow> parse_probe_from f (length pre) rx =
     (if rx_has_ssid rx then (True, rx)
      else case map_of els 0 of
          None \<Rightarrow> (True, rx)
        | Some d \<Rightarrow> if length d \<le> AP_SSID_MAX then (True, rx\<lparr>rx_has_ssid := True, rx_ssid := d\<rparr>) else (False, rx))"
proof (induction els arbitrary: pre rx)
  case Nil
  then show ?case by (simp add: ies_bytes_def parse_probe_from.simps)
next
  case (Cons el els)
  obtain ie d where el: "el = (ie, d)" by fastforce
  have f: "f = pre @ ie_bytes ie d @ ies_bytes els" using Cons.prems by (simp add: ies_bytes_def el)
  have d: "length d < 256" "ies_ok els" using Cons.prems by (simp_all add: ies_ok_def el)
  note n = element_nth [OF d(1) f]
  have IH: "parse_probe_from f (length pre + 2 + length d) rx' =
     (if rx_has_ssid rx' then (True, rx')
      else case map_of els 0 of
          None \<Rightarrow> (True, rx')
        | Some d \<Rightarrow> if length d \<le> AP_SSID_MAX then (True, rx'\<lparr>rx_has_ssid := True, rx_ssid := d\<rparr>) else (False, rx'))" for rx'
    using Cons.IH [OF d(2), of "pre @ ie_bytes ie d" rx'] f by (simp add: ie_bytes_def)
  show ?case
    by (subst parse_probe_from.simps) (use n IH el in \<open>auto simp: Let_def\<close>)
qed

lemma parse_probe_sound:
  "fst (parse_probe_from f i rx) \<Longrightarrow> i \<le> length f \<Longrightarrow> \<exists>els. ies_ok els \<and> drop i f = ies_bytes els"
proof (induction f i rx rule: parse_probe_from.induct)
  case (1 f i rx)
  show ?case
  proof (cases "i < length f")
    case False
    then show ?thesis using "1.prems" by (intro exI [of _ "[]"]) (simp add: ies_ok_def ies_bytes_def)
  next
    case True
    let ?n = "unat (f ! (i + 1))"
    have fits: "i + 2 \<le> length f" "i + 2 + ?n \<le> length f"
      using "1.prems"(1) True by (auto simp: parse_probe_from.simps [of f i] Let_def split: if_splits)
    have "\<exists>els. ies_ok els \<and> drop (i + 2 + ?n) f = ies_bytes els"
      using "1.prems"(1) True fits
        "1.IH"(1) [OF True _ refl refl, of]  "1.IH"(2) [OF True _ refl refl, of]
      by (auto simp: parse_probe_from.simps [of f i] Let_def split: if_splits)
    then obtain els where els: "ies_ok els" "drop (i + 2 + ?n) f = ies_bytes els" by blast
    let ?d = "slice (i + 2) ?n f"
    have "drop i f = f ! i # f ! (i + 1) # drop (i + 2) f" using fits(1) by (simp add: Cons_nth_drop_Suc)
    moreover have "drop (i + 2) f = ?d @ drop (i + 2 + ?n) f" unfolding slice_def using append_take_drop_id [of ?n "drop (i + 2) f"] by (simp add: add.commute)
    moreover have "length ?d = ?n" using fits by simp
    moreover have "?n < 256" using unsigned_less [of "f ! (i + 1)"] by simp
    ultimately have "ies_ok ((f ! i, ?d) # els) \<and> drop i f = ies_bytes ((f ! i, ?d) # els)"
      using els by (simp add: ies_ok_def ies_bytes_def ie_bytes_def del: length_slice)
    then show ?thesis by blast
  qed
qed

section \<open>The table of clients\<close>

text \<open>What the access point relies on: \<open>find\<close> is an injective map from addresses to slots, \<open>add\<close> and \<open>remove\<close> change it at
  one address.\<close>

datatype 'm table_op = Add_Client 'm | Remove_Client 'm

definition table_step :: "('t \<Rightarrow> 'm \<Rightarrow> nat option) \<Rightarrow> ('t \<Rightarrow> 'm \<Rightarrow> nat option \<times> 't) \<Rightarrow> ('t \<Rightarrow> nat \<Rightarrow> 't) \<Rightarrow> 't \<Rightarrow> 'm table_op \<Rightarrow> 't" where
  "table_step f a r t op =
     (case op of
        Add_Client m \<Rightarrow> snd (a t m)
      | Remove_Client m \<Rightarrow> (case f t m of None \<Rightarrow> t | Some i \<Rightarrow> r t i))"

locale client_table =
  fixes ok :: "'t \<Rightarrow> bool"
    and find :: "'t \<Rightarrow> 'm \<Rightarrow> nat option"
    and add :: "'t \<Rightarrow> 'm \<Rightarrow> nat option \<times> 't"
    and remove :: "'t \<Rightarrow> nat \<Rightarrow> 't"
    and room :: nat
  assumes find_range: "ok t \<Longrightarrow> find t m = Some i \<Longrightarrow> i < room"
    and find_inj: "ok t \<Longrightarrow> find t m = Some i \<Longrightarrow> find t m' = Some i \<Longrightarrow> m = m'"
    and add_Some: "ok t \<Longrightarrow> add t m = (Some i, t') \<Longrightarrow> ok t' \<and> find t' = (find t)(m \<mapsto> i)"
    and add_known: "ok t \<Longrightarrow> find t m = Some i \<Longrightarrow> add t m = (Some i, t)"
    and add_None: "ok t \<Longrightarrow> add t m = (None, t') \<Longrightarrow> t' = t \<and> find t m = None \<and> (\<forall>i < room. \<exists>m'. find t m' = Some i)"
    and remove_find: "ok t \<Longrightarrow> find t m = Some i \<Longrightarrow> ok (remove t i) \<and> find (remove t i) = (find t)(m := None)"
begin

lemma add_remove:
  assumes "ok t" "find t m = None" "add t m = (Some i, t')"
  shows "find (remove t' i) = find t"
proof -
  have "ok t'" "find t' = (find t)(m \<mapsto> i)" using add_Some [OF assms(1,3)] by auto
  then show ?thesis using remove_find [of t' m i] assms(2) by (auto simp: fun_upd_idem)
qed

lemma step_ok: "ok t \<Longrightarrow> ok (table_step find add remove t op)"
  using add_Some add_None remove_find
  by (auto simp: table_step_def split: table_op.splits option.splits) (metis option.exhaust prod.collapse)

lemma run_ok: "ok t \<Longrightarrow> ok (foldl (table_step find add remove) t ops)"
  by (induction ops arbitrary: t) (auto intro: step_ok)

end

text \<open>The table keeps it: the live entries have distinct addresses.\<close>

abbreviation live :: "ap_client \<Rightarrow> bool" where "live c \<equiv> cl_state c \<noteq> AP_CLIENT_FREE"

definition clients_ok :: "ap_clients \<Rightarrow> bool" where
  "clients_ok t \<longleftrightarrow> length t = AP_CLIENTS_MAX
     \<and> (\<forall>i < length t. \<forall>j < length t. live (t ! i) \<longrightarrow> live (t ! j) \<longrightarrow> cl_mac (t ! i) = cl_mac (t ! j) \<longrightarrow> i = j)"

lemma client_from_Some:
  "client_from p k cs = Some i \<Longrightarrow> \<exists>j < length cs. i = k + j \<and> p (cs ! j)"
proof (induction cs arbitrary: k)
  case (Cons c cs)
  show ?case
  proof (cases "p c")
    case False
    then obtain j where "j < length cs" "i = k + 1 + j" "p (cs ! j)" using Cons.IH [of "k + 1"] Cons.prems by auto
    then show ?thesis by (intro exI [of _ "Suc j"]) simp
  qed (use Cons.prems in auto)
qed simp

lemma client_from_None: "client_from p k cs = None \<longleftrightarrow> (\<forall>c \<in> set cs. \<not> p c)"
  by (induction cs arbitrary: k) auto

lemma clients_find_iff:
  assumes "clients_ok t"
  shows "ap_clients_find t m = Some i \<longleftrightarrow> i < length t \<and> live (t ! i) \<and> cl_mac (t ! i) = m"
proof
  assume "ap_clients_find t m = Some i"
  then show "i < length t \<and> live (t ! i) \<and> cl_mac (t ! i) = m"
    unfolding ap_clients_find_def by (auto dest: client_from_Some)
next
  assume i: "i < length t \<and> live (t ! i) \<and> cl_mac (t ! i) = m"
  then have "ap_clients_find t m \<noteq> None"
    using nth_mem [of i t] by (auto simp: ap_clients_find_def client_from_None)
  then obtain j where j: "ap_clients_find t m = Some j" by blast
  then have "j < length t \<and> live (t ! j) \<and> cl_mac (t ! j) = m"
    unfolding ap_clients_find_def by (auto dest: client_from_Some)
  then have "j = i" using assms i by (auto simp: clients_ok_def)
  then show "ap_clients_find t m = Some i" using j by simp
qed

lemma clients_find_fun:
  assumes "clients_ok t" "clients_ok t'"
    and "\<And>m i. i < length t' \<and> live (t' ! i) \<and> cl_mac (t' ! i) = m \<longleftrightarrow> g m = Some i"
  shows "ap_clients_find t' = g"
proof
  fix m
  have "ap_clients_find t' m = Some i \<longleftrightarrow> g m = Some i" for i
    by (simp only: assms(3) clients_find_iff [OF assms(2)])
  then show "ap_clients_find t' m = g m" by (cases "g m") auto
qed

lemma clients_remove:
  assumes "clients_ok t" "ap_clients_find t m = Some i"
  shows "clients_ok (ap_clients_remove t i) \<and> ap_clients_find (ap_clients_remove t i) = (ap_clients_find t)(m := None)"
proof -
  have i: "i < length t" "live (t ! i)" "cl_mac (t ! i) = m" using assms clients_find_iff by auto
  have ok: "clients_ok (ap_clients_remove t i)"
    using assms(1) i by (auto simp: clients_ok_def ap_clients_remove_def client_zero_def nth_list_update split: if_splits)
  moreover have "ap_clients_find (ap_clients_remove t i) = (ap_clients_find t)(m := None)"
  proof (rule clients_find_fun [OF assms(1) ok])
    fix m' j
    show "j < length (ap_clients_remove t i) \<and> live (ap_clients_remove t i ! j) \<and> cl_mac (ap_clients_remove t i ! j) = m'
        \<longleftrightarrow> ((ap_clients_find t)(m := None)) m' = Some j"
      using clients_find_iff [OF assms(1), of m' j] i assms(1)
      by (cases "j = i") (auto simp: ap_clients_remove_def client_zero_def clients_ok_def)
  qed
  ultimately show ?thesis by simp
qed

lemma clients_add_new:
  assumes "clients_ok t" "ap_clients_find t m = None" "ap_clients_add t m = (Some i, t')"
  shows "clients_ok t' \<and> ap_clients_find t' = (ap_clients_find t)(m \<mapsto> i)"
proof -
  have t': "t' = t[i := \<lparr>cl_mac = m, cl_sta_idx = AP_NO_STA, cl_state = AP_CLIENT_AUTHED\<rparr>]" and i: "i < length t" "\<not> live (t ! i)"
    using assms(2,3) by (auto simp: ap_clients_add_def split: option.splits dest: client_from_Some)
  have new: "\<not> (j < length t \<and> live (t ! j) \<and> cl_mac (t ! j) = m)" for j
    using clients_find_iff [OF assms(1), of m j] assms(2) by simp
  have ok: "clients_ok t'" using assms(1) new i by (auto simp: clients_ok_def t' nth_list_update)
  moreover have "ap_clients_find t' = (ap_clients_find t)(m \<mapsto> i)"
  proof (rule clients_find_fun [OF assms(1) ok])
    fix m' j
    show "j < length t' \<and> live (t' ! j) \<and> cl_mac (t' ! j) = m' \<longleftrightarrow> ((ap_clients_find t)(m \<mapsto> i)) m' = Some j"
      using clients_find_iff [OF assms(1), of m' j] i new [of j] by (auto simp: t' nth_list_update)
  qed
  ultimately show ?thesis by simp
qed

lemma clients_add_full:
  assumes "clients_ok t" "ap_clients_add t m = (None, t')"
  shows "t' = t \<and> ap_clients_find t m = None \<and> (\<forall>i < AP_CLIENTS_MAX. \<exists>m'. ap_clients_find t m' = Some i)"
proof -
  have *: "t' = t" "ap_clients_find t m = None" "\<forall>c \<in> set t. live c"
    using assms(2) by (auto simp: ap_clients_add_def client_from_None split: option.splits)
  then have "ap_clients_find t (cl_mac (t ! i)) = Some i" if "i < AP_CLIENTS_MAX" for i
    using that assms(1) clients_find_iff [OF assms(1)] by (auto simp: clients_ok_def)
  then show ?thesis using * by blast
qed

lemma clients_known: "ap_clients_find t m = Some i \<Longrightarrow> ap_clients_add t m = (Some i, t)"
  by (simp add: ap_clients_add_def)

interpretation ap_table: client_table clients_ok ap_clients_find ap_clients_add ap_clients_remove AP_CLIENTS_MAX
proof
  fix t m m' i t'
  assume ok: "clients_ok t"
  show "ap_clients_find t m = Some i \<Longrightarrow> i < AP_CLIENTS_MAX" using clients_find_iff [OF ok] ok by (auto simp: clients_ok_def)
  show "ap_clients_find t m = Some i \<Longrightarrow> ap_clients_find t m' = Some i \<Longrightarrow> m = m'" using clients_find_iff [OF ok] by auto
  show "ap_clients_find t m = Some i \<Longrightarrow> ap_clients_add t m = (Some i, t)" by (rule clients_known)
  show "ap_clients_add t m = (Some i, t') \<Longrightarrow> clients_ok t' \<and> ap_clients_find t' = (ap_clients_find t)(m \<mapsto> i)"
    using clients_add_new [OF ok, of m i t'] clients_known [of t m] ok by (cases "ap_clients_find t m") (auto simp: fun_upd_idem)
  show "ap_clients_add t m = (None, t') \<Longrightarrow> t' = t \<and> ap_clients_find t m = None \<and> (\<forall>i < AP_CLIENTS_MAX. \<exists>m'. ap_clients_find t m' = Some i)"
    by (rule clients_add_full [OF ok])
  show "ap_clients_find t m = Some i \<Longrightarrow>
      clients_ok (ap_clients_remove t i) \<and> ap_clients_find (ap_clients_remove t i) = (ap_clients_find t)(m := None)"
    by (rule clients_remove [OF ok])
qed

section \<open>Theorems\<close>

text \<open>(C20) Every frame the access point builds fits in \<open>AP_FRAME_MAX\<close> bytes and, given any buffer, is either put out whole
  (the length is returned and the buffer starts with exactly the bytes of the frame) or reported as 0, when the capacity
  is too small; memory behind the capacity is never written. The offset a beacon reports is where its TIM element
  starts.\<close>

theorem ap_frames_built:
  assumes "bss_ok bss" "length da = 6" "cap \<le> length buf"
  shows "built buf cap (beacon_bytes bss) (let (n, buf', _) = ap_build_beacon bss buf cap oft tlen in (n, buf'))
    \<and> built buf cap (probe_resp_bytes bss da) (ap_build_probe_resp bss da buf cap)
    \<and> built buf cap (auth_resp_bytes bss da alg status) (ap_build_auth_resp bss da alg status buf cap)
    \<and> built buf cap (assoc_resp_bytes bss da reassoc status aid) (ap_build_assoc_resp bss da reassoc status aid buf cap)
    \<and> built buf cap (deauth_bytes bss da reason) (ap_build_deauth bss da reason buf cap)
    \<and> (AP_FRAME_MAX \<le> cap \<longrightarrow> (\<exists>n buf' off. ap_build_beacon bss buf cap (Some 0) (Some 0) = (n, buf', Some off, Some 6)
         \<and> slice (unat off) 6 buf' = ie_bytes 5 k_tim))
    \<and> list_all (\<lambda>f. length f \<le> AP_FRAME_MAX) [beacon_bytes bss, probe_resp_bytes bss da, auth_resp_bytes bss da alg status,
        assoc_resp_bytes bss da reassoc status aid, deauth_bytes bss da reason]"
proof -
  note len = frame_lengths [OF assms(1,2)]
  have "\<exists>n buf' off. ap_build_beacon bss buf cap (Some 0) (Some 0) = (n, buf', Some off, Some 6) \<and> slice (unat off) 6 buf' = ie_bytes 5 k_tim"
    if big: "AP_FRAME_MAX \<le> cap"
  proof -
    obtain off where off: "snd (put_bss_ies (put_bss_fixed (put_header (start buf cap) 0x80 k_bcast bss)) bss True (Some 0)) = Some off"
      "slice (unat off) 6 (beacon_bytes bss) = ie_bytes 5 k_tim"
      using beacon_tim [OF assms(1,3), of 0] order_trans [OF len(1) big] by auto
    obtain n buf' where b: "ap_build_beacon bss buf cap (Some 0) (Some 0) = (n, buf', Some off, Some 6)"
      using off(1) by (simp add: ap_build_beacon_def Let_def case_prod_unfold)
    have "take (length (beacon_bytes bss)) buf' = beacon_bytes bss"
      using built_beacon [OF assms(3,1), of "Some 0" "Some 0"] order_trans [OF len(1) big] b by (simp add: built_def)
    moreover have "unat off + 6 \<le> length (beacon_bytes bss)"
      using arg_cong [OF off(2), of length] by (simp add: ie_bytes_def k_tim_def)
    ultimately have "slice (unat off) 6 buf' = slice (unat off) 6 (beacon_bytes bss)"
      by (metis slice_append_left append_take_drop_id)
    then show ?thesis using off(2) b by auto
  qed
  then show ?thesis
    by (intro conjI impI built_beacon built_probe_resp built_auth_resp built_assoc_resp built_deauth assms) (simp_all add: len)
qed

theorem ap_frames_built_witness:
  "bss_ok \<lparr>bss_bssid = replicate 6 1, bss_ssid = replicate 32 0x61, bss_ssid_len = 32, bss_channel = 6\<rparr>
    \<and> fst (ap_build_deauth \<lparr>bss_bssid = replicate 6 1, bss_ssid = replicate 32 0x61, bss_ssid_len = 32, bss_channel = 6\<rparr>
        (replicate 6 2) 1 (replicate 160 0) 160) = 26"
proof -
  let ?bss = "\<lparr>bss_bssid = replicate 6 1, bss_ssid = replicate 32 0x61, bss_ssid_len = 32, bss_channel = 6\<rparr>"
  have ok: "bss_ok ?bss" by (simp add: bss_ok_def)
  have "built (replicate 160 0) 160 (deauth_bytes ?bss (replicate 6 2) 1) (ap_build_deauth ?bss (replicate 6 2) 1 (replicate 160 0) 160)"
    using ap_frames_built [OF ok, of "replicate 6 2" 160 "replicate 160 0"] by simp
  then show ?thesis using ok by (simp add: built_def deauth_bytes_def header_bytes_def)
qed

text \<open>A probe request is accepted exactly when what follows its header is a sequence of whole elements whose first SSID
  has at most 32 bytes, and then that SSID is what the answer is decided on: it is wanted if it is absent, empty or ours.\<close>

theorem ap_parse_probe:
  assumes "length da = 6" "length sa = 6" "length bssid = 6" "f = header_bytes 0x40 da sa bssid @ body" "bss_ok bss"
  shows "(fst (ap_parse f) \<longleftrightarrow>
      (\<exists>els. ies_ok els \<and> body = ies_bytes els \<and> (\<forall>d. map_of els 0 = Some d \<longrightarrow> length d \<le> AP_SSID_MAX)))
    \<and> (\<forall>els. ies_ok els \<and> body = ies_bytes els \<and> fst (ap_parse f) \<longrightarrow>
      rx_sa (snd (ap_parse f)) = sa \<and> rx_kind (snd (ap_parse f)) = AP_FRAME_PROBE_REQ
      \<and> ap_probe_wanted bss (snd (ap_parse f))
        = (case map_of els 0 of None \<Rightarrow> True | Some d \<Rightarrow> d = [] \<or> d = take (unat (bss_ssid_len bss)) (bss_ssid bss)))"
proof -
  let ?h = "header_bytes 0x40 da sa bssid"
  let ?rx = "rx_zero\<lparr>rx_da := slice 4 6 f, rx_sa := slice 10 6 f, rx_bssid := slice 16 6 f, rx_kind := AP_FRAME_PROBE_REQ\<rparr>"
  have h: "length ?h = 24" using assms by (simp add: header_bytes_def)
  have f0: "f ! 0 = 0x40" "length f = 24 + length body" "slice 10 6 f = sa"
    using assms by (simp_all add: header_bytes_def slice_def le16_bytes_def)
  have p: "ap_parse f = parse_probe_from f 24 ?rx" using f0 by (simp add: ap_parse_def Let_def parse_probe_ies_def)
  have c: "ap_parse f = (case map_of els 0 of None \<Rightarrow> (True, ?rx)
      | Some d \<Rightarrow> if length d \<le> AP_SSID_MAX then (True, ?rx\<lparr>rx_has_ssid := True, rx_ssid := d\<rparr>) else (False, ?rx))"
    if "ies_ok els" "body = ies_bytes els" for els
    using parse_probe_complete [OF that(1), of f ?h ?rx] that(2) assms(4) h p by (simp add: rx_zero_def)
  have "fst (ap_parse f) \<longleftrightarrow>
      (\<exists>els. ies_ok els \<and> body = ies_bytes els \<and> (\<forall>d. map_of els 0 = Some d \<longrightarrow> length d \<le> AP_SSID_MAX))"
  proof
    assume ok: "fst (ap_parse f)"
    then obtain els where els: "ies_ok els" "body = ies_bytes els"
      using parse_probe_sound [of f 24 ?rx] f0 p h assms(4) by auto
    then show "\<exists>els. ies_ok els \<and> body = ies_bytes els \<and> (\<forall>d. map_of els 0 = Some d \<longrightarrow> length d \<le> AP_SSID_MAX)"
      using c [OF els] ok by (intro exI [of _ els]) (auto split: if_splits)
  qed (auto simp: c split: option.splits)
  moreover have "rx_sa (snd (ap_parse f)) = sa \<and> rx_kind (snd (ap_parse f)) = AP_FRAME_PROBE_REQ
      \<and> ap_probe_wanted bss (snd (ap_parse f))
        = (case map_of els 0 of None \<Rightarrow> True | Some d \<Rightarrow> d = [] \<or> d = take (unat (bss_ssid_len bss)) (bss_ssid bss))"
    if "ies_ok els" "body = ies_bytes els" "fst (ap_parse f)" for els
    using c [OF that(1,2)] that(3) f0 assms(5)
    by (auto simp: ap_probe_wanted_def rx_zero_def bss_ok_def split: option.splits if_splits)
  ultimately show ?thesis by blast
qed

theorem ap_parse_probe_witness:
  "\<exists>f. fst (ap_parse f) \<and> ap_probe_wanted \<lparr>bss_bssid = replicate 6 1, bss_ssid = 0x63 # replicate 31 0, bss_ssid_len = 1, bss_channel = 6\<rparr> (snd (ap_parse f))"
proof -
  let ?bss = "\<lparr>bss_bssid = replicate 6 1, bss_ssid = 0x63 # replicate 31 0, bss_ssid_len = 1, bss_channel = 6\<rparr>"
  let ?els = "[(1, [0x82]), (0, [0x63])] :: (u8 \<times> bytes) list"
  let ?f = "header_bytes 0x40 (replicate 6 0xff) (replicate 6 2) (replicate 6 0xff) @ ies_bytes ?els"
  have ok: "bss_ok ?bss" "ies_ok ?els" by (simp_all add: bss_ok_def ies_ok_def)
  note probe = ap_parse_probe [OF _ _ _ refl ok(1), of "replicate 6 0xff" "replicate 6 2" "replicate 6 0xff" "ies_bytes ?els"]
  have acc: "fst (ap_parse ?f)" using probe ok(2) by fastforce
  then show ?thesis using probe ok(2) by (intro exI [of _ ?f]) fastforce
qed

text \<open>The table of clients is a map: after any adding and removing, no two addresses share a slot, so no two stations an
  association id, which is between 1 and 4; adding a known address finds it, adding a new one changes nothing else, and
  it only fails when all four slots are taken.\<close>

theorem ap_clients_map:
  "let t = foldl (table_step ap_clients_find ap_clients_add ap_clients_remove) ap_clients_clear ops in
     (\<forall>m m' i. ap_clients_find t m = Some i \<longrightarrow> (ap_clients_find t m' = Some i \<longleftrightarrow> m' = m)
        \<and> 1 \<le> ap_clients_aid i \<and> ap_clients_aid i \<le> 4)
   \<and> (\<forall>m. case ap_clients_add t m of
          (Some i, t') \<Rightarrow> ap_clients_find t' = (ap_clients_find t)(m \<mapsto> i)
        | (None, t') \<Rightarrow> t' = t \<and> (\<forall>i < AP_CLIENTS_MAX. \<exists>m'. ap_clients_find t m' = Some i))
   \<and> (\<forall>m i. ap_clients_find t m = Some i \<longrightarrow> ap_clients_find (ap_clients_remove t i) = (ap_clients_find t)(m := None))"
proof -
  define t where "t = foldl (table_step ap_clients_find ap_clients_add ap_clients_remove) ap_clients_clear ops"
  have ok: "clients_ok t"
    unfolding t_def by (rule ap_table.run_ok) (simp add: clients_ok_def ap_clients_clear_def client_zero_def)
  have aid: "1 \<le> ap_clients_aid i \<and> ap_clients_aid i \<le> 4" if "ap_clients_find t m = Some i" for m i
  proof -
    have "i = 0 \<or> i = 1 \<or> i = 2 \<or> i = 3" using ap_table.find_range [OF ok that] by auto
    then show ?thesis by (auto simp: ap_clients_aid_def)
  qed
  have "case ap_clients_add t m of
          (Some i, t') \<Rightarrow> ap_clients_find t' = (ap_clients_find t)(m \<mapsto> i)
        | (None, t') \<Rightarrow> t' = t \<and> (\<forall>i < AP_CLIENTS_MAX. \<exists>m'. ap_clients_find t m' = Some i)" for m
    using ap_table.add_Some [OF ok, of m] ap_table.add_None [OF ok, of m] by (auto split: prod.splits option.splits)
  then show ?thesis unfolding t_def [symmetric] Let_def
    using ap_table.find_inj [OF ok] ap_table.remove_find [OF ok] aid by auto
qed

theorem ap_clients_map_witness:
  "\<exists>t. ap_clients_find t (replicate 6 1) = Some 0 \<and> ap_clients_find t (replicate 6 2) = Some 1
     \<and> ap_clients_find (ap_clients_remove t 0) = (ap_clients_find t)(replicate 6 1 := None)"
proof -
  let ?ops = "[Add_Client (replicate 6 1), Add_Client (replicate 6 2)] :: bytes table_op list"
  let ?t = "foldl (table_step ap_clients_find ap_clients_add ap_clients_remove) ap_clients_clear ?ops"
  have "ap_clients_find ?t (replicate 6 1) = Some 0" "ap_clients_find ?t (replicate 6 2) = Some 1"
    by (simp_all add: table_step_def ap_clients_add_def ap_clients_find_def ap_clients_clear_def client_zero_def numeral_eq_Suc)
  then show ?thesis using ap_clients_map [of ?ops] by (intro exI [of _ ?t]) (simp add: Let_def)
qed

end
