(* ===== verification/Xmodem.thy ===== *)
theory Xmodem
  imports Crc
begin

text \<open>
  The XMODEM receiver of the IRAM shell, \<open>src/src/shell/shell_commands_iram/commands/xmodem/xmodem.c\<close>. The serial line is
  a script of what each call of \<open>xmodem_getc\<close> finds, a byte or a timeout, after which the line is silent, so every loop
  of the receiver ends. Whatever arrives, it writes nothing behind the buffer and what it accepts is the data of
  checked blocks in the order of their numbers; and a transfer in which every block gets through in time succeeds.
\<close>

section \<open>The line\<close>

abbreviation XMODEM_SOH :: u8 where "XMODEM_SOH \<equiv> 0x01"
abbreviation XMODEM_STX :: u8 where "XMODEM_STX \<equiv> 0x02"
abbreviation XMODEM_EOT :: u8 where "XMODEM_EOT \<equiv> 0x04"
abbreviation XMODEM_ACK :: u8 where "XMODEM_ACK \<equiv> 0x06"
abbreviation XMODEM_NAK :: u8 where "XMODEM_NAK \<equiv> 0x15"
abbreviation XMODEM_CAN :: u8 where "XMODEM_CAN \<equiv> 0x18"
abbreviation XMODEM_CCHAR :: u8 where "XMODEM_CCHAR \<equiv> 0x43"

abbreviation XMODEM_MAX_RETRIES :: nat where "XMODEM_MAX_RETRIES \<equiv> 10"
abbreviation XMODEM_MAX_1K_INIT_TRIES :: nat where "XMODEM_MAX_1K_INIT_TRIES \<equiv> 3"
abbreviation BLOCK_SIZE_SOH :: nat where "BLOCK_SIZE_SOH \<equiv> 128"
abbreviation BLOCK_SIZE_STX :: nat where "BLOCK_SIZE_STX \<equiv> 1024"

text \<open>The negative results.\<close>

datatype xmodem_err =
    XMODEM_ERR_TIMEOUT | XMODEM_ERR_CRC | XMODEM_ERR_SEQ | XMODEM_ERR_ABORT | XMODEM_ERR_OVERFLOW | XMODEM_ERR_NAK

text \<open>\<open>None\<close> in the script is a call that times out.\<close>

record xmodem_line =
  xl_in  :: "u8 option list"
  xl_out :: bytes

fun xmodem_getc :: "xmodem_line \<Rightarrow> u8 option \<times> xmodem_line" where
  "xmodem_getc l = (case xl_in l of [] \<Rightarrow> (None, l) | c # cs \<Rightarrow> (c, l\<lparr>xl_in := cs\<rparr>))"

definition xmodem_putc :: "u8 \<Rightarrow> xmodem_line \<Rightarrow> xmodem_line" where
  "xmodem_putc c l = l\<lparr>xl_out := xl_out l @ [c]\<rparr>"

section \<open>The receiver\<close>

definition xmodem_abort :: "xmodem_line \<Rightarrow> xmodem_line" where
  "xmodem_abort l = fold xmodem_putc (replicate 3 XMODEM_CAN @ replicate 3 0x08) l"

fun flush_loop :: "u8 option list \<Rightarrow> u8 option list" where
  "flush_loop [] = []"
| "flush_loop (None # cs) = cs"
| "flush_loop (Some c # cs) = flush_loop cs"

definition xmodem_flush :: "xmodem_line \<Rightarrow> xmodem_line" where
  "xmodem_flush l = l\<lparr>xl_in := flush_loop (xl_in l)\<rparr>"

fun xmodem_recv_exact :: "nat \<Rightarrow> bytes \<Rightarrow> xmodem_line \<Rightarrow> (xmodem_err + bytes) \<times> xmodem_line" where
  "xmodem_recv_exact 0 dst l = (Inr dst, l)"
| "xmodem_recv_exact (Suc n) dst l =
     (case xmodem_getc l of
        (None, l) \<Rightarrow> (Inl XMODEM_ERR_TIMEOUT, l)
      | (Some c, l) \<Rightarrow> xmodem_recv_exact n (dst @ [c]) l)"

text \<open>The block number and the data, whose length is the size returned.\<close>

definition xmodem_recv_block :: "u8 \<Rightarrow> xmodem_line \<Rightarrow> (xmodem_err + u8 \<times> bytes) \<times> xmodem_line" where
  "xmodem_recv_block hdr l =
     (let bsz = if hdr = XMODEM_STX then BLOCK_SIZE_STX else BLOCK_SIZE_SOH;
          (bn, l) = xmodem_getc l;
          (bi, l) = xmodem_getc l
      in case (bn, bi) of
           (Some bn, Some bi) \<Rightarrow>
             if bn XOR bi \<noteq> 0xFF then (Inl XMODEM_ERR_SEQ, l)
             else
               (case xmodem_recv_exact bsz [] l of
                  (Inl _, l) \<Rightarrow> (Inl XMODEM_ERR_TIMEOUT, l)
                | (Inr data_buf, l) \<Rightarrow>
                    let (ch, l) = xmodem_getc l;
                        (cl, l) = xmodem_getc l
                    in case (ch, cl) of
                         (Some ch, Some cl) \<Rightarrow>
                           if push_bit 8 (ucast ch) OR ucast cl \<noteq> crc16 data_buf then (Inl XMODEM_ERR_CRC, l)
                           else (Inr (bn, data_buf), l)
                       | _ \<Rightarrow> (Inl XMODEM_ERR_TIMEOUT, l))
         | _ \<Rightarrow> (Inl XMODEM_ERR_TIMEOUT, l))"

text \<open>The state of \<open>xmodem_receive\<close> between its iterations: the memory \<open>buf\<close> points to and its locals.\<close>

record xmodem_state =
  xs_buf       :: bytes
  xs_received  :: u32
  xs_expected  :: u8
  xs_nak_count :: nat
  xs_can_count :: nat

definition put_block :: "xmodem_state \<Rightarrow> bytes \<Rightarrow> xmodem_state" where
  "put_block s data = s\<lparr>xs_buf := buf_write (unat (xs_received s)) data (xs_buf s),
     xs_received := xs_received s + of_nat (length data)\<rparr>"

text \<open>A bad block, in either loop: flush, NAK, and give up after too many.\<close>

definition bad_block :: "xmodem_err \<Rightarrow> xmodem_state \<Rightarrow> xmodem_line \<Rightarrow> (xmodem_err option \<times> xmodem_state) \<times> xmodem_line" where
  "bad_block err s l =
     (let l = xmodem_putc XMODEM_NAK (xmodem_flush l);
          s = s\<lparr>xs_nak_count := xs_nak_count s + 1\<rparr>
      in if xs_nak_count s \<ge> XMODEM_MAX_RETRIES then ((Some err, s), xmodem_abort l) else ((None, s), l))"

text \<open>The first loop, with the number of tries left: it ends with an error or after the first block.\<close>

fun first_loop :: "nat \<Rightarrow> u32 \<Rightarrow> xmodem_state \<Rightarrow> xmodem_line \<Rightarrow> (xmodem_err option \<times> xmodem_state) \<times> xmodem_line" where
  "first_loop 0 max_len s l = ((Some XMODEM_ERR_TIMEOUT, s), l)"
| "first_loop (Suc tries) max_len s l =
     (let l = xmodem_putc XMODEM_CCHAR l;
          (c, l) = xmodem_getc l
      in if c = Some XMODEM_SOH \<or> c = Some XMODEM_STX then
           (case xmodem_recv_block (the c) l of
              (Inl _, l) \<Rightarrow>
                (case bad_block XMODEM_ERR_NAK s l of
                   ((Some e, s), l) \<Rightarrow> ((Some e, s), l)
                 | ((None, s), l) \<Rightarrow> first_loop tries max_len s l)
            | (Inr (blk_num, block_buf), l) \<Rightarrow>
                if blk_num \<noteq> 1 then ((Some XMODEM_ERR_SEQ, s), xmodem_abort l)
                else if of_nat (length block_buf) > max_len then ((Some XMODEM_ERR_OVERFLOW, s), xmodem_abort l)
                else
                  ((None, s\<lparr>xs_buf := buf_write 0 block_buf (xs_buf s), xs_received := of_nat (length block_buf),
                            xs_expected := 2, xs_nak_count := 0\<rparr>), xmodem_putc XMODEM_ACK l))
         else if c = Some XMODEM_CAN then
           let s = s\<lparr>xs_can_count := xs_can_count s + 1\<rparr> in
           if xs_can_count s \<ge> 2 then ((Some XMODEM_ERR_ABORT, s), l) else first_loop tries max_len s l
         else first_loop tries max_len (s\<lparr>xs_can_count := 0\<rparr>) l)"

text \<open>What one iteration of the second loop comes to: the function returns, or goes on.\<close>

datatype xmodem_next = Return "xmodem_err + u32" | Next

definition next_step :: "u32 \<Rightarrow> xmodem_state \<Rightarrow> xmodem_line \<Rightarrow> (xmodem_next \<times> xmodem_state) \<times> xmodem_line" where
  "next_step max_len s l =
     (let (c, l) = xmodem_getc l in
      if c = Some XMODEM_EOT then ((Return (Inr (xs_received s)), s), xmodem_putc XMODEM_ACK l)
      else if c = Some XMODEM_CAN then
        let s = s\<lparr>xs_can_count := xs_can_count s + 1\<rparr>
        in ((if xs_can_count s \<ge> 2 then Return (Inl XMODEM_ERR_ABORT) else Next, s), l)
      else
        let s = s\<lparr>xs_can_count := 0\<rparr> in
        if c \<noteq> Some XMODEM_SOH \<and> c \<noteq> Some XMODEM_STX then
          (case bad_block (if c = None then XMODEM_ERR_TIMEOUT else XMODEM_ERR_NAK) s l of
             ((Some e, s), l) \<Rightarrow> ((Return (Inl e), s), l)
           | ((None, s), l) \<Rightarrow> ((Next, s), l))
        else
          case xmodem_recv_block (the c) l of
            (Inl bsz, l) \<Rightarrow>
              (case bad_block (if bsz = XMODEM_ERR_TIMEOUT then XMODEM_ERR_TIMEOUT else XMODEM_ERR_NAK) s l of
                 ((Some e, s), l) \<Rightarrow> ((Return (Inl e), s), l)
               | ((None, s), l) \<Rightarrow> ((Next, s), l))
          | (Inr (blk_num, block_buf), l) \<Rightarrow>
              if blk_num = xs_expected s - 1 then ((Next, s), xmodem_putc XMODEM_ACK l)
              else if blk_num \<noteq> xs_expected s then ((Return (Inl XMODEM_ERR_SEQ), s), xmodem_abort l)
              else if xs_received s + of_nat (length block_buf) > max_len
                then ((Return (Inl XMODEM_ERR_OVERFLOW), s), xmodem_abort l)
              else
                ((Next, (put_block s block_buf)\<lparr>xs_expected := xs_expected s + 1, xs_nak_count := 0\<rparr>),
                 xmodem_putc XMODEM_ACK l))"

lemma length_flush: "length (flush_loop cs) \<le> length cs"
  by (induction cs rule: flush_loop.induct) auto

lemma length_getc: "xmodem_getc l = (c, l') \<Longrightarrow> length (xl_in l') \<le> length (xl_in l) \<and> (xl_in l \<noteq> [] \<longrightarrow> length (xl_in l') < length (xl_in l))"
  by (auto split: list.splits)

lemma length_recv_exact: "xmodem_recv_exact n dst l = (r, l') \<Longrightarrow> length (xl_in l') \<le> length (xl_in l)"
proof (induction n arbitrary: dst l)
  case (Suc n)
  then show ?case by (fastforce split: list.splits option.splits dest: Suc.IH)
qed simp

lemma length_recv_block: "xmodem_recv_block hdr l = (r, l') \<Longrightarrow> length (xl_in l') \<le> length (xl_in l)"
  by (fastforce simp: xmodem_recv_block_def Let_def split: prod.splits option.splits sum.splits if_splits
      dest: length_getc length_recv_exact simp del: xmodem_getc.simps)

lemma length_bad_block:
  "bad_block e s l = ((r, s'), l') \<Longrightarrow> length (xl_in l') \<le> length (xl_in l) \<and> xs_nak_count s' = xs_nak_count s + 1
     \<and> (r = None \<longrightarrow> xs_nak_count s' < XMODEM_MAX_RETRIES)"
  using length_flush [of "xl_in l"]
  by (auto simp: bad_block_def Let_def xmodem_putc_def xmodem_flush_def xmodem_abort_def numeral_eq_Suc split: if_splits)

text \<open>An iteration that goes on has taken something from the line, or counted another silence.\<close>

lemma next_step_less:
  assumes "next_step max_len s l = ((Next, s'), l')"
  shows "length (xl_in l') < length (xl_in l)
     \<or> length (xl_in l') \<le> length (xl_in l) \<and> xs_nak_count s < xs_nak_count s' \<and> xs_nak_count s' < XMODEM_MAX_RETRIES"
proof (cases "xl_in l")
  case Nil
  then show ?thesis using assms length_bad_block
    by (fastforce simp: next_step_def Let_def split: prod.splits option.splits if_splits)
next
  case (Cons c cs)
  let ?l = "l\<lparr>xl_in := cs\<rparr>"
  have "length (xl_in l') \<le> length (xl_in ?l)"
    using assms Cons length_recv_block [of "the c" ?l] length_bad_block
    by (fastforce simp: next_step_def Let_def xmodem_putc_def split: prod.splits option.splits sum.splits if_splits)
  then show ?thesis using Cons by simp
qed

function next_loop :: "u32 \<Rightarrow> xmodem_state \<Rightarrow> xmodem_line \<Rightarrow> (xmodem_err + u32) \<times> xmodem_state \<times> xmodem_line" where
  "next_loop max_len s l =
     (case next_step max_len s l of
        ((Return r, s), l) \<Rightarrow> (r, s, l)
      | ((Next, s), l) \<Rightarrow> next_loop max_len s l)"
  by pat_completeness auto
termination
proof (relation "measures [\<lambda>(m, s, l). length (xl_in l), \<lambda>(m, s, l). XMODEM_MAX_RETRIES - xs_nak_count s]", goal_cases)
  case (2 max_len s l x l' r s')
  then have "next_step max_len s l = ((Next, s'), l')" by simp
  then show ?case using next_step_less by fastforce
qed simp

declare next_loop.simps [simp del]

text \<open>\<open>Inr n\<close> is the number of bytes received; beside it the memory of \<open>buf\<close> and the line.\<close>

definition xmodem_receive :: "bytes \<Rightarrow> u32 \<Rightarrow> xmodem_line \<Rightarrow> (xmodem_err + u32) \<times> bytes \<times> xmodem_line" where
  "xmodem_receive buf max_len l =
     (let s = \<lparr>xs_buf = buf, xs_received = 0, xs_expected = 1, xs_nak_count = 0, xs_can_count = 0\<rparr>
      in case first_loop (XMODEM_MAX_1K_INIT_TRIES + 10) max_len s l of
           ((Some e, s), l) \<Rightarrow> (Inl e, xs_buf s, l)
         | ((None, s), l) \<Rightarrow>
             (case next_loop max_len s l of (r, s, l) \<Rightarrow> (r, xs_buf s, l)))"

section \<open>What is accepted\<close>

text \<open>A block as it is on the wire; \<open>delivers\<close>: the script contains the blocks from number \<open>n\<close> on, in this order.\<close>

definition block_bytes :: "u8 \<Rightarrow> bytes \<Rightarrow> bytes" where
  "block_bytes n d = [if length d = BLOCK_SIZE_STX then XMODEM_STX else XMODEM_SOH, n, NOT n] @ d @ be16_bytes (crc16 d)"

abbreviation wire :: "bytes \<Rightarrow> u8 option list" where "wire \<equiv> map Some"

definition block_ok :: "bytes \<Rightarrow> bool" where
  "block_ok d \<longleftrightarrow> length d = BLOCK_SIZE_SOH \<or> length d = BLOCK_SIZE_STX"

inductive delivers :: "u8 \<Rightarrow> u8 option list \<Rightarrow> bytes list \<Rightarrow> u8 option list \<Rightarrow> bool" where
  "delivers n rest [] rest"
| "delivers n cs ds rest \<Longrightarrow> delivers n (c # cs) ds rest"
| "block_ok d \<Longrightarrow> delivers (n + 1) cs ds rest \<Longrightarrow> delivers n (wire (block_bytes n d) @ cs) (d # ds) rest"

lemma delivers_snoc:
  "delivers n inp ds (wire (block_bytes (n + of_nat (length ds)) d) @ rest) \<Longrightarrow> block_ok d \<Longrightarrow> delivers n inp (ds @ [d]) rest"
proof (induction n inp ds "wire (block_bytes (n + of_nat (length ds)) d) @ rest" rule: delivers.induct)
  case (1 n)
  then show ?case using delivers.intros(3) [of d n rest "[]" rest] by (simp add: delivers.intros(1))
next
  case (3 d' n cs ds)
  then show ?case by (simp add: delivers.intros(3) add.assoc)
qed (auto intro: delivers.intros)

lemma delivers_skip: "delivers n inp ds (g @ rest) \<Longrightarrow> delivers n inp ds rest"
proof (induction n inp ds "g @ rest" rule: delivers.induct)
  case (1 n)
  show ?case by (induction g) (auto intro: delivers.intros)
qed (auto intro: delivers.intros)

section \<open>Reading a block\<close>

lemma recv_exact_wire:
  "xl_in l = wire d @ rest \<Longrightarrow> xmodem_recv_exact (length d) acc l = (Inr (acc @ d), l\<lparr>xl_in := rest\<rparr>)"
proof (induction d arbitrary: acc l)
  case (Cons c d)
  then show ?case using Cons.IH [of "l\<lparr>xl_in := wire d @ rest\<rparr>" "acc @ [c]"] by simp
qed simp

lemma recv_exact_inv:
  "xmodem_recv_exact n acc l = (r, l') \<Longrightarrow> \<exists>g. xl_in l = g @ xl_in l' \<and> (\<forall>d. r = Inr d \<longrightarrow> (\<exists>d'. d = acc @ d' \<and> length d' = n \<and> g = wire d'))"
proof (induction n arbitrary: acc l)
  case (Suc n)
  show ?case
  proof (cases "xl_in l")
    case Nil
    then show ?thesis using Suc.prems by auto
  next
    case (Cons c cs)
    show ?thesis
    proof (cases c)
      case None
      then show ?thesis using Suc.prems Cons by (intro exI [of _ "[None]"]) auto
    next
      case (Some b)
      then have "xmodem_recv_exact n (acc @ [b]) (l\<lparr>xl_in := cs\<rparr>) = (r, l')" using Suc.prems Cons by simp
      from Suc.IH [OF this] obtain g where g: "cs = g @ xl_in l'"
        "\<forall>d. r = Inr d \<longrightarrow> (\<exists>d'. d = (acc @ [b]) @ d' \<and> length d' = n \<and> g = wire d')" by auto
      have "\<exists>d'. d = acc @ d' \<and> length d' = Suc n \<and> Some b # g = wire d'" if r: "r = Inr d" for d
      proof -
        obtain d' where "d = (acc @ [b]) @ d'" "length d' = n" "g = wire d'" using g(2) r by blast
        then show ?thesis by (intro exI [of _ "b # d'"]) simp
      qed
      then show ?thesis using g(1) Cons Some by (intro exI [of _ "Some b # g"]) simp
    qed
  qed
qed auto

lemma be16_bytes_be16: "be16_bytes (be16 [a, b]) = [a, b]"
  by (auto simp: be16_def be16_bytes_def bit_eq_iff bit_simps dest: bit_imp_le_length)

lemma crc_word: "push_bit 8 (ucast (ch :: u8)) OR ucast (cl :: u8) = (v :: u16) \<longleftrightarrow> [ch, cl] = be16_bytes v"
proof -
  have "push_bit 8 (ucast ch) OR ucast cl = be16 [ch, cl]" by (simp add: be16_def)
  then show ?thesis using be16_bytes_be16 [of ch cl] be16_bytes_self [of v] by metis
qed

lemma complement_word: "bn XOR bi = 0xFF \<longleftrightarrow> bi = NOT (bn :: u8)"
proof -
  have "(0xFF :: u8) = NOT 0" by simp
  then show ?thesis by (simp only:) (auto simp: bit_eq_iff bit_simps)
qed

lemma recv_block_wire:
  assumes "xl_in l = wire ([n, NOT n] @ d @ be16_bytes crc) @ rest" "length d = (if hdr = XMODEM_STX then BLOCK_SIZE_STX else BLOCK_SIZE_SOH)"
  shows "xmodem_recv_block hdr l = (if crc = crc16 d then Inr (n, d) else Inl XMODEM_ERR_CRC, l\<lparr>xl_in := rest\<rparr>)"
proof -
  let ?l = "l\<lparr>xl_in := wire d @ wire (be16_bytes crc) @ rest\<rparr>"
  have "xmodem_recv_exact (if hdr = XMODEM_STX then BLOCK_SIZE_STX else BLOCK_SIZE_SOH) [] ?l
      = (Inr d, ?l\<lparr>xl_in := wire (be16_bytes crc) @ rest\<rparr>)"
    using recv_exact_wire [of ?l d "wire (be16_bytes crc) @ rest" "[]"] assms(2) by simp
  moreover have "push_bit 8 (ucast (byte_at 8 crc)) OR ucast (byte_at 0 crc) = crc"
    by (subst crc_word) (simp add: be16_bytes_def)
  moreover have "n XOR NOT n = 0xFF" by (simp only: complement_word)
  ultimately show ?thesis using assms(1)
    by (simp add: xmodem_recv_block_def be16_bytes_def del: bit.xor_compl_right)
qed

lemma getc_suffix: "xmodem_getc l = (c, l') \<Longrightarrow> \<exists>g. xl_in l = g @ xl_in l' \<and> (\<forall>b. c = Some b \<longrightarrow> g = [Some b])"
  by (auto split: list.splits)

lemma recv_block_inv:
  assumes "xmodem_recv_block hdr l = (r, l')"
  shows "\<exists>g. xl_in l = g @ xl_in l' \<and> (\<forall>n d. r = Inr (n, d) \<longrightarrow>
     length d = (if hdr = XMODEM_STX then BLOCK_SIZE_STX else BLOCK_SIZE_SOH) \<and> g = wire ([n, NOT n] @ d @ be16_bytes (crc16 d)))"
proof -
  let ?k = "if hdr = XMODEM_STX then BLOCK_SIZE_STX else BLOCK_SIZE_SOH"
  obtain bn l1 bi l2 where 1: "xmodem_getc l = (bn, l1)" "xmodem_getc l1 = (bi, l2)" by fastforce
  obtain e l3 where 2: "xmodem_recv_exact ?k [] l2 = (e, l3)" by fastforce
  obtain ch l4 cl l5 where 3: "xmodem_getc l3 = (ch, l4)" "xmodem_getc l4 = (cl, l5)" by fastforce
  obtain g1 g2 g4 g5 where g: "xl_in l = g1 @ xl_in l1" "xl_in l1 = g2 @ xl_in l2" "xl_in l3 = g4 @ xl_in l4" "xl_in l4 = g5 @ xl_in l5"
    and gs: "\<And>b. bn = Some b \<Longrightarrow> g1 = [Some b]" "\<And>b. bi = Some b \<Longrightarrow> g2 = [Some b]" "\<And>b. ch = Some b \<Longrightarrow> g4 = [Some b]" "\<And>b. cl = Some b \<Longrightarrow> g5 = [Some b]"
    using getc_suffix [OF 1(1)] getc_suffix [OF 1(2)] getc_suffix [OF 3(1)] getc_suffix [OF 3(2)] by auto
  obtain g3 where g3: "xl_in l2 = g3 @ xl_in l3" "\<And>d. e = Inr d \<Longrightarrow> length d = ?k \<and> g3 = wire d"
    using recv_exact_inv [OF 2] by auto
  have "l' = l2 \<or> l' = l3 \<or> l' = l5"
    using assms unfolding xmodem_recv_block_def Let_def 1 2 3 by (auto simp: 1 2 3 split: option.splits sum.splits if_splits simp del: xmodem_getc.simps)
  then have suf: "\<exists>g. xl_in l = g @ xl_in l'" using g g3(1) by (metis append.assoc)
  have "xl_in l = wire ([n, NOT n] @ d @ be16_bytes (crc16 d)) @ xl_in l' \<and> length d = ?k" if "r = Inr (n, d)" for n d
  proof -
    have *: "l' = l5" "bn = Some n" "bi = Some (NOT n)" "e = Inr d" "\<exists>a b. ch = Some a \<and> cl = Some b \<and> [a, b] = be16_bytes (crc16 d)"
      using assms that unfolding xmodem_recv_block_def Let_def
      by (auto simp: 1 2 3 crc_word complement_word split: option.splits sum.splits if_splits simp del: xmodem_getc.simps)
    then obtain a b where ab: "ch = Some a" "cl = Some b" "[a, b] = be16_bytes (crc16 d)" by blast
    have "xl_in l = [Some n, Some (NOT n)] @ wire d @ wire [a, b] @ xl_in l'"
      using g gs(1) [OF *(2)] gs(2) [OF *(3)] gs(3) [OF ab(1)] gs(4) [OF ab(2)] g3(1) g3(2) [OF *(4)] *(1) by simp
    then show ?thesis unfolding ab(3) using g3(2) [OF *(4)] by simp
  qed
  then show ?thesis using suf by (cases r) force+
qed

section \<open>The invariant of the loops\<close>

text \<open>The blocks \<open>ds\<close> have been accepted from the script \<open>inp\<close>: they are what the buffer starts with.\<close>

definition accepted :: "bytes \<Rightarrow> u32 \<Rightarrow> u8 option list \<Rightarrow> bytes list \<Rightarrow> xmodem_state \<Rightarrow> xmodem_line \<Rightarrow> bool" where
  "accepted buf max_len inp ds s l \<longleftrightarrow> delivers 1 inp ds (xl_in l) \<and> xs_expected s = 1 + of_nat (length ds)
     \<and> unat (xs_received s) = length (concat ds) \<and> length (concat ds) \<le> unat max_len
     \<and> xs_buf s = concat ds @ drop (length (concat ds)) buf"

text \<open>Moving along the line, counting and answering change nothing of it.\<close>

lemma accepted_skip:
  "accepted buf max_len inp ds s l \<Longrightarrow> xl_in l = g @ xl_in l' \<Longrightarrow> xs_buf s' = xs_buf s \<Longrightarrow> xs_received s' = xs_received s \<Longrightarrow>
     xs_expected s' = xs_expected s \<Longrightarrow> accepted buf max_len inp ds s' l'"
  by (auto simp: accepted_def intro: delivers_skip)

lemma accepted_out [simp]:
  "accepted buf max_len inp ds s (xmodem_putc c l) = accepted buf max_len inp ds s l"
  "accepted buf max_len inp ds s (xmodem_abort l) = accepted buf max_len inp ds s l"
  by (simp_all add: accepted_def xmodem_putc_def xmodem_abort_def numeral_eq_Suc)

lemma accepted_counts [simp]:
  "accepted buf max_len inp ds (s\<lparr>xs_can_count := k\<rparr>) l = accepted buf max_len inp ds s l"
  "accepted buf max_len inp ds (s\<lparr>xs_nak_count := k\<rparr>) l = accepted buf max_len inp ds s l"
  by (simp_all add: accepted_def)

lemma flush_suffix: "\<exists>g. cs = g @ flush_loop cs"
  by (induction cs rule: flush_loop.induct) (auto intro: exI [of _ "[None]"] exI [of _ "Some _ # _"])

lemma accepted_bad_block:
  assumes "accepted buf max_len inp ds s l" "bad_block e s l = ((r, s'), l')"
  shows "accepted buf max_len inp ds s' l'"
proof -
  obtain g where "xl_in l = g @ flush_loop (xl_in l)" using flush_suffix by blast
  then have "accepted buf max_len inp ds s (xmodem_flush l)"
    using accepted_skip [OF assms(1), of g "xmodem_flush l" s] by (simp add: xmodem_flush_def)
  then show ?thesis using assms(2) by (auto simp: bad_block_def Let_def split: if_splits)
qed

lemma accepted_getc:
  "accepted buf max_len inp ds s l \<Longrightarrow> xmodem_getc l = (c, l') \<Longrightarrow> accepted buf max_len inp ds s l'"
  using getc_suffix accepted_skip by metis

lemma accepted_recv_block:
  "accepted buf max_len inp ds s l \<Longrightarrow> xmodem_recv_block hdr l = (r, l') \<Longrightarrow> accepted buf max_len inp ds s l'"
  using recv_block_inv accepted_skip by metis

text \<open>A block with the expected number that fits is appended.\<close>

lemma accepted_block:
  assumes acc: "accepted buf max_len inp ds s l"
    and c: "xmodem_getc l = (Some hdr, l1)" "hdr = XMODEM_SOH \<or> hdr = XMODEM_STX"
    and r: "xmodem_recv_block hdr l1 = (Inr (n, d), l2)" and n: "n = xs_expected s"
    and fits: "\<not> xs_received s + of_nat (length d) > max_len" and size: "unat max_len \<le> length buf" "unat max_len < 2 ^ 32 - 1024"
  shows "accepted buf max_len inp (ds @ [d]) ((put_block s d)\<lparr>xs_expected := xs_expected s + 1\<rparr>) l2"
proof -
  have d: "length d = (if hdr = XMODEM_STX then BLOCK_SIZE_STX else BLOCK_SIZE_SOH)"
    "xl_in l1 = wire ([n, NOT n] @ d @ be16_bytes (crc16 d)) @ xl_in l2"
    using recv_block_inv [OF r] by auto
  then have "block_ok d" by (simp add: block_ok_def)
  have "xl_in l = Some hdr # xl_in l1" using getc_suffix [OF c(1)] by auto
  then have "xl_in l = wire (block_bytes n d) @ xl_in l2" using c(2) d by (auto simp: block_bytes_def)
  then have del: "delivers 1 inp (ds @ [d]) (xl_in l2)"
    using acc n \<open>block_ok d\<close> by (intro delivers_snoc) (auto simp: accepted_def)
  have u: "unat (xs_received s + of_nat (length d)) = length (concat ds) + length d"
    using acc d(1) size(2) unat_add_of_nat [of "xs_received s" "length d"] by (auto simp: accepted_def)
  then have "length (concat ds) + length d \<le> unat max_len" using fits by (simp add: not_less word_le_nat_alt)
  then show ?thesis using acc del u size(1)
    by (simp add: accepted_def put_block_def buf_write_def add.commute)
qed

lemma accepted_first:
  assumes size: "unat max_len \<le> length buf" "unat max_len < 2 ^ 32 - 1024"
  shows "accepted buf max_len inp [] s l \<Longrightarrow> first_loop tries max_len s l = ((r, s'), l') \<Longrightarrow>
    \<exists>ds. accepted buf max_len inp ds s' l' \<and> (r \<noteq> None \<longrightarrow> ds = [])"
proof (induction tries arbitrary: s l)
  case 0
  then show ?case by auto
next
  case (Suc tries)
  let ?l0 = "xmodem_putc XMODEM_CCHAR l"
  obtain c l1 where c: "xmodem_getc ?l0 = (c, l1)" by fastforce
  have a0: "accepted buf max_len inp [] s ?l0" using Suc.prems(1) by simp
  have a1: "accepted buf max_len inp [] s l1" by (rule accepted_getc [OF a0 c])
  show ?case
  proof (cases "c = Some XMODEM_SOH \<or> c = Some XMODEM_STX")
    case False
    then show ?thesis using Suc.prems(2) c a1 Suc.IH [of "s\<lparr>xs_can_count := 0\<rparr>" l1] Suc.IH [of "s\<lparr>xs_can_count := xs_can_count s + 1\<rparr>" l1]
      by (auto simp: Let_def simp del: xmodem_getc.simps split: if_splits)
  next
    case True
    then obtain hdr where hdr: "c = Some hdr" "hdr = XMODEM_SOH \<or> hdr = XMODEM_STX" by auto
    obtain b l2 where b: "xmodem_recv_block hdr l1 = (b, l2)" by fastforce
    note a2 = accepted_recv_block [OF a1 b]
    have rc: "(case b of
              Inl _ \<Rightarrow> (case bad_block XMODEM_ERR_NAK s l2 of
                   ((Some e, s), l) \<Rightarrow> ((Some e, s), l)
                 | ((None, s), l) \<Rightarrow> first_loop tries max_len s l)
            | Inr (blk_num, block_buf) \<Rightarrow>
                if blk_num \<noteq> 1 then ((Some XMODEM_ERR_SEQ, s), xmodem_abort l2)
                else if of_nat (length block_buf) > max_len then ((Some XMODEM_ERR_OVERFLOW, s), xmodem_abort l2)
                else
                  ((None, s\<lparr>xs_buf := buf_write 0 block_buf (xs_buf s), xs_received := of_nat (length block_buf),
                            xs_expected := 2, xs_nak_count := 0\<rparr>), xmodem_putc XMODEM_ACK l2)) = ((r, s'), l')"
      using Suc.prems(2) c hdr b by (simp add: Let_def del: xmodem_getc.simps split: sum.splits)
    show ?thesis
    proof (cases b)
      case (Inl e)
      obtain q s2 l3 where q: "bad_block XMODEM_ERR_NAK s l2 = ((q, s2), l3)" by (metis prod.exhaust)
      note a3 = accepted_bad_block [OF a2 q]
      show ?thesis using rc Inl q a3 Suc.IH [OF a3] by (cases q) auto
    next
      case (Inr nd)
      obtain n d where nd: "nd = (n, d)" by fastforce
      have rec: "xs_received s = 0" "xs_expected s = 1"
        using Suc.prems(1) by (auto simp: accepted_def unsigned_eq_0_iff)
      show ?thesis
      proof (cases "n = 1 \<and> \<not> of_nat (length d) > max_len")
        case True
        have "accepted buf max_len inp ([] @ [d]) ((put_block s d)\<lparr>xs_expected := xs_expected s + 1\<rparr>) l2"
          using b Inr nd True rec by (intro accepted_block [OF a0 c [unfolded hdr(1)] hdr(2) _ _ _ size]) simp_all
        moreover have "s' = ((put_block s d)\<lparr>xs_expected := xs_expected s + 1\<rparr>)\<lparr>xs_nak_count := 0\<rparr>" "l' = xmodem_putc XMODEM_ACK l2" "r = None"
          using rc Inr nd True rec by (auto simp: put_block_def)
        ultimately show ?thesis by auto
      next
        case False
        then show ?thesis using rc Inr nd a2 by (auto split: if_splits)
      qed
    qed
  qed
qed

lemma accepted_next:
  assumes size: "unat max_len \<le> length buf" "unat max_len < 2 ^ 32 - 1024"
    and acc: "accepted buf max_len inp ds s l" and st: "next_step max_len s l = ((q, s'), l')"
  shows "\<exists>ds. accepted buf max_len inp ds s' l' \<and> (\<forall>n. q = Return (Inr n) \<longrightarrow> n = xs_received s')"
proof -
  obtain c l1 where c: "xmodem_getc l = (c, l1)" by fastforce
  note a1 = accepted_getc [OF acc c]
  let ?s = "s\<lparr>xs_can_count := 0\<rparr>"
  consider "c = Some XMODEM_EOT \<or> c = Some XMODEM_CAN"
    | "c \<noteq> Some XMODEM_EOT" "c \<noteq> Some XMODEM_CAN" "c \<noteq> Some XMODEM_SOH" "c \<noteq> Some XMODEM_STX"
    | hdr where "c = Some hdr" "hdr = XMODEM_SOH \<or> hdr = XMODEM_STX" by fastforce
  then show ?thesis
  proof cases
    case 1
    then show ?thesis using st c a1 by (auto simp: next_step_def Let_def simp del: xmodem_getc.simps split: if_splits)
  next
    case 2
    obtain b s2 l2 where b: "bad_block (if c = None then XMODEM_ERR_TIMEOUT else XMODEM_ERR_NAK) ?s l1 = ((b, s2), l2)"
      by (metis prod.exhaust)
    have "accepted buf max_len inp ds s2 l2" using accepted_bad_block [OF _ b] a1 by simp
    then show ?thesis using st c b 2
      by (cases b) (auto simp: next_step_def Let_def simp del: xmodem_getc.simps)
  next
    case 3
    obtain b l2 where b: "xmodem_recv_block hdr l1 = (b, l2)" by fastforce
    note a2 = accepted_recv_block [OF a1 b]
    show ?thesis
    proof (cases b)
      case (Inl e)
      obtain p s2 l3 where p: "bad_block (if e = XMODEM_ERR_TIMEOUT then XMODEM_ERR_TIMEOUT else XMODEM_ERR_NAK) ?s l2 = ((p, s2), l3)"
        by (metis prod.exhaust)
      have "accepted buf max_len inp ds s2 l3" using accepted_bad_block [OF _ p] a2 by simp
      then show ?thesis using st c b p 3 Inl
        by (cases p) (auto simp: next_step_def Let_def simp del: xmodem_getc.simps)
    next
      case (Inr nd)
      obtain n d where nd: "nd = (n, d)" by fastforce
      show ?thesis
      proof (cases "n = xs_expected s \<and> \<not> xs_received s + of_nat (length d) > max_len")
        case True
        have "accepted buf max_len inp (ds @ [d]) ((put_block s d)\<lparr>xs_expected := xs_expected s + 1\<rparr>) l2"
          using b Inr nd True by (intro accepted_block [OF acc c [unfolded 3(1)] 3(2) _ _ _ size]) simp_all
        moreover have "s' = ((put_block s d)\<lparr>xs_expected := xs_expected s + 1\<rparr>)\<lparr>xs_can_count := 0, xs_nak_count := 0\<rparr>"
          "l' = xmodem_putc XMODEM_ACK l2" "q = Next"
          using st c b 3 Inr nd True by (auto simp: next_step_def Let_def put_block_def simp del: xmodem_getc.simps)
        ultimately show ?thesis by auto
      next
        case False
        then show ?thesis using st c b 3 Inr nd a2
          by (auto simp: next_step_def Let_def simp del: xmodem_getc.simps split: if_splits)
      qed
    qed
  qed
qed

lemma accepted_loop:
  "unat max_len \<le> length buf \<Longrightarrow> unat max_len < 2 ^ 32 - 1024 \<Longrightarrow> accepted buf max_len inp ds s l \<Longrightarrow>
     next_loop max_len s l = (r, s', l') \<Longrightarrow> \<exists>ds. accepted buf max_len inp ds s' l' \<and> (\<forall>n. r = Inr n \<longrightarrow> n = xs_received s')"
proof (induction max_len s l arbitrary: ds rule: next_loop.induct)
  case (1 max_len s l)
  obtain q s2 l2 where q: "next_step max_len s l = ((q, s2), l2)" by (metis prod.exhaust)
  obtain ds2 where a2: "accepted buf max_len inp ds2 s2 l2" "\<forall>n. q = Return (Inr n) \<longrightarrow> n = xs_received s2"
    using accepted_next [OF "1.prems"(1,2,3) q] by blast
  show ?case
  proof (cases q)
    case (Return x)
    then have "r = x" "s' = s2" "l' = l2" using "1.prems"(4) q by (simp_all add: next_loop.simps [of max_len s l])
    then show ?thesis using a2 Return by auto
  next
    case Next
    then have "next_loop max_len s2 l2 = (r, s', l')" using "1.prems"(4) q by (simp add: next_loop.simps [of max_len s l])
    then show ?thesis using "1.IH" [OF q [symmetric] refl Next "1.prems"(1,2) a2(1)] by simp
  qed
qed

lemma receive_accepted:
  assumes "unat max_len \<le> length buf" "unat max_len < 2 ^ 32 - 1024" "xmodem_receive buf max_len l = (r, buf', l')"
  shows "\<exists>ds. delivers 1 (xl_in l) ds (xl_in l') \<and> length (concat ds) \<le> unat max_len
    \<and> buf' = concat ds @ drop (length (concat ds)) buf \<and> (\<forall>n. r = Inr n \<longrightarrow> unat n = length (concat ds))"
proof -
  let ?s = "\<lparr>xs_buf = buf, xs_received = 0, xs_expected = 1, xs_nak_count = 0, xs_can_count = 0\<rparr>"
  obtain q s1 l1 where f: "first_loop 13 max_len ?s l = ((q, s1), l1)" by (metis prod.exhaust)
  have "accepted buf max_len (xl_in l) [] ?s l" by (simp add: accepted_def delivers.intros)
  from accepted_first [OF assms(1,2) this f] obtain ds where ds: "accepted buf max_len (xl_in l) ds s1 l1" by blast
  show ?thesis
  proof (cases q)
    case (Some e)
    then show ?thesis using assms(3) f ds by (auto simp: xmodem_receive_def accepted_def)
  next
    case None
    obtain r2 s2 l2 where n: "next_loop max_len s1 l1 = (r2, s2, l2)" by (metis prod.exhaust)
    have "r = r2" "buf' = xs_buf s2" "l' = l2" using assms(3) f None n by (simp_all add: xmodem_receive_def)
    then show ?thesis using accepted_loop [OF assms(1,2) ds n] by (auto simp: accepted_def)
  qed
qed

section \<open>A transfer that gets through\<close>

text \<open>A damaged block is followed by a pause in which the sender waits for the answer. Each block of a transfer is sent with
  its damaged attempts before it, and the end of the transmission after the last.\<close>

definition damaged :: "u8 \<Rightarrow> bytes \<times> u16 \<Rightarrow> u8 option list" where
  "damaged n = (\<lambda>(d, crc). wire ([if length d = BLOCK_SIZE_STX then XMODEM_STX else XMODEM_SOH, n, NOT n] @ d @ be16_bytes crc) @ [None])"

fun transfer :: "u8 \<Rightarrow> ((bytes \<times> u16) list \<times> bytes) list \<Rightarrow> u8 option list" where
  "transfer n [] = [Some XMODEM_EOT]"
| "transfer n ((bads, d) # bs) = concat (map (damaged n) bads) @ wire (block_bytes n d) @ transfer (n + 1) bs"

definition attempts_ok :: "(bytes \<times> u16) list \<times> bytes \<Rightarrow> bool" where
  "attempts_ok = (\<lambda>(bads, d). length bads < XMODEM_MAX_RETRIES \<and> list_all (\<lambda>(d, crc). block_ok d \<and> crc \<noteq> crc16 d) bads \<and> block_ok d)"

lemma recv_damaged:
  assumes "xl_in l = damaged n (d, crc) @ rest" "block_ok d" "crc \<noteq> crc16 d"
  shows "\<exists>hdr l1. (hdr = XMODEM_SOH \<or> hdr = XMODEM_STX) \<and> xmodem_getc l = (Some hdr, l1)
    \<and> xmodem_recv_block hdr l1 = (Inl XMODEM_ERR_CRC, l1\<lparr>xl_in := None # rest\<rparr>)"
proof -
  let ?hdr = "if length d = BLOCK_SIZE_STX then XMODEM_STX else XMODEM_SOH"
  let ?l1 = "l\<lparr>xl_in := wire ([n, NOT n] @ d @ be16_bytes crc) @ None # rest\<rparr>"
  have "xmodem_getc l = (Some ?hdr, ?l1)" using assms(1) by (simp add: damaged_def)
  moreover have "xmodem_recv_block ?hdr ?l1 = (Inl XMODEM_ERR_CRC, ?l1\<lparr>xl_in := None # rest\<rparr>)"
    using recv_block_wire [of ?l1 n d crc "None # rest" ?hdr] assms(2,3)
    by (cases "length d = BLOCK_SIZE_STX") (simp_all add: block_ok_def)
  ultimately show ?thesis by (intro exI [of _ ?hdr] exI [of _ ?l1]) simp
qed

lemma recv_good:
  assumes "xl_in l = wire (block_bytes n d) @ rest" "block_ok d"
  shows "\<exists>hdr l1. (hdr = XMODEM_SOH \<or> hdr = XMODEM_STX) \<and> xmodem_getc l = (Some hdr, l1)
    \<and> xmodem_recv_block hdr l1 = (Inr (n, d), l1\<lparr>xl_in := rest\<rparr>)"
proof -
  let ?hdr = "if length d = BLOCK_SIZE_STX then XMODEM_STX else XMODEM_SOH"
  let ?l1 = "l\<lparr>xl_in := wire ([n, NOT n] @ d @ be16_bytes (crc16 d)) @ rest\<rparr>"
  have "xmodem_getc l = (Some ?hdr, ?l1)" using assms(1) by (simp add: block_bytes_def)
  moreover have "xmodem_recv_block ?hdr ?l1 = (Inr (n, d), ?l1\<lparr>xl_in := rest\<rparr>)"
    using recv_block_wire [of ?l1 n d "crc16 d" rest ?hdr] assms(2)
    by (cases "length d = BLOCK_SIZE_STX") (simp_all add: block_ok_def)
  ultimately show ?thesis by (intro exI [of _ ?hdr] exI [of _ ?l1]) simp
qed

text \<open>The parts of the state a damaged block leaves alone.\<close>

definition same_data :: "xmodem_state \<Rightarrow> xmodem_state \<Rightarrow> bool" where
  "same_data s s' \<longleftrightarrow> xs_buf s' = xs_buf s \<and> xs_received s' = xs_received s \<and> xs_expected s' = xs_expected s"

lemma bad_block_retry:
  assumes "xs_nak_count s + 1 < XMODEM_MAX_RETRIES" "xl_in l = None # rest"
  shows "\<exists>l'. bad_block e s l = ((None, s\<lparr>xs_nak_count := xs_nak_count s + 1\<rparr>), l') \<and> xl_in l' = rest"
  using assms by (simp add: bad_block_def Let_def xmodem_flush_def xmodem_putc_def)

lemma first_damaged:
  "list_all (\<lambda>(d, crc). block_ok d \<and> crc \<noteq> crc16 d) bads \<Longrightarrow> xs_nak_count s + length bads < XMODEM_MAX_RETRIES \<Longrightarrow>
     xl_in l = concat (map (damaged n) bads) @ rest \<Longrightarrow>
     \<exists>s' l'. first_loop (length bads + k) max_len s l = first_loop k max_len s' l' \<and> same_data s s' \<and> xl_in l' = rest"
proof (induction bads arbitrary: s l)
  case Nil
  then show ?case by (auto simp: same_data_def)
next
  case (Cons b bads)
  obtain d crc where b: "b = (d, crc)" by fastforce
  let ?l0 = "xmodem_putc XMODEM_CCHAR l" and ?s = "s\<lparr>xs_nak_count := xs_nak_count s + 1\<rparr>"
  have "xl_in ?l0 = damaged n (d, crc) @ concat (map (damaged n) bads) @ rest" using Cons.prems(3) b by (simp add: xmodem_putc_def)
  from recv_damaged [OF this] obtain hdr l1 where r: "hdr = XMODEM_SOH \<or> hdr = XMODEM_STX" "xmodem_getc ?l0 = (Some hdr, l1)"
    "xmodem_recv_block hdr l1 = (Inl XMODEM_ERR_CRC, l1\<lparr>xl_in := None # concat (map (damaged n) bads) @ rest\<rparr>)"
    using Cons.prems(1) b by auto
  obtain l2 where l2: "bad_block XMODEM_ERR_NAK s (l1\<lparr>xl_in := None # concat (map (damaged n) bads) @ rest\<rparr>) = ((None, ?s), l2)"
    "xl_in l2 = concat (map (damaged n) bads) @ rest"
    using bad_block_retry [of s "l1\<lparr>xl_in := None # concat (map (damaged n) bads) @ rest\<rparr>"] Cons.prems(2) by auto
  have "first_loop (length (b # bads) + k) max_len s l = first_loop (length bads + k) max_len ?s l2"
    using r l2(1) by (auto simp: Let_def simp del: xmodem_getc.simps)
  then show ?case using Cons.IH [OF _ _ l2(2), of ?s] Cons.prems by (simp add: same_data_def)
qed

lemma next_damaged:
  "list_all (\<lambda>(d, crc). block_ok d \<and> crc \<noteq> crc16 d) bads \<Longrightarrow> xs_nak_count s + length bads < XMODEM_MAX_RETRIES \<Longrightarrow>
     xl_in l = concat (map (damaged n) bads) @ rest \<Longrightarrow>
     \<exists>s' l'. next_loop max_len s l = next_loop max_len s' l' \<and> same_data s s' \<and> xl_in l' = rest"
proof (induction bads arbitrary: s l)
  case Nil
  then show ?case by (auto simp: same_data_def)
next
  case (Cons b bads)
  obtain d crc where b: "b = (d, crc)" by fastforce
  let ?s = "s\<lparr>xs_can_count := 0, xs_nak_count := xs_nak_count s + 1\<rparr>"
  have "xl_in l = damaged n (d, crc) @ concat (map (damaged n) bads) @ rest" using Cons.prems(3) b by simp
  from recv_damaged [OF this] obtain hdr l1 where r: "hdr = XMODEM_SOH \<or> hdr = XMODEM_STX" "xmodem_getc l = (Some hdr, l1)"
    "xmodem_recv_block hdr l1 = (Inl XMODEM_ERR_CRC, l1\<lparr>xl_in := None # concat (map (damaged n) bads) @ rest\<rparr>)"
    using Cons.prems(1) b by auto
  obtain l2 where l2: "bad_block XMODEM_ERR_NAK (s\<lparr>xs_can_count := 0\<rparr>) (l1\<lparr>xl_in := None # concat (map (damaged n) bads) @ rest\<rparr>) = ((None, ?s), l2)"
    "xl_in l2 = concat (map (damaged n) bads) @ rest"
    using bad_block_retry [of "s\<lparr>xs_can_count := 0\<rparr>" "l1\<lparr>xl_in := None # concat (map (damaged n) bads) @ rest\<rparr>"] Cons.prems(2) by auto
  have "next_step max_len s l = ((Next, ?s), l2)"
    using r l2(1) by (auto simp: next_step_def Let_def simp del: xmodem_getc.simps)
  then have "next_loop max_len s l = next_loop max_len ?s l2" by (simp add: next_loop.simps [of max_len s l])
  then show ?case using Cons.IH [OF _ _ l2(2), of ?s] Cons.prems by (simp add: same_data_def)
qed

lemma unat_u32: "unat (x :: u32) < 4294967296"
proof -
  have "unat x < 2 ^ LENGTH(32)" by (rule unsigned_less)
  then show ?thesis by simp
qed

lemma next_good:
  assumes "xl_in l = wire (block_bytes (xs_expected s) d) @ rest" "block_ok d" "unat (xs_received s) + length d \<le> unat max_len"
  shows "\<exists>l'. next_loop max_len s l = next_loop max_len ((put_block s d)\<lparr>xs_expected := xs_expected s + 1, xs_can_count := 0, xs_nak_count := 0\<rparr>) l'
    \<and> xl_in l' = rest"
proof -
  obtain hdr l1 where r: "hdr = XMODEM_SOH \<or> hdr = XMODEM_STX" "xmodem_getc l = (Some hdr, l1)"
    "xmodem_recv_block hdr l1 = (Inr (xs_expected s, d), l1\<lparr>xl_in := rest\<rparr>)"
    using recv_good [OF assms(1,2)] by blast
  have "unat (xs_received s + of_nat (length d)) = unat (xs_received s) + length d"
    using assms(3) unat_u32 [of max_len] by (intro unat_add_of_nat) simp
  then have "\<not> xs_received s + of_nat (length d) > max_len" using assms(3) by (simp add: not_less word_le_nat_alt)
  then have "next_step max_len s l = ((Next, (put_block s d)\<lparr>xs_expected := xs_expected s + 1, xs_can_count := 0, xs_nak_count := 0\<rparr>),
      xmodem_putc XMODEM_ACK (l1\<lparr>xl_in := rest\<rparr>))"
    using r by (auto simp: next_step_def Let_def put_block_def simp del: xmodem_getc.simps)
  then show ?thesis
    by (intro exI [of _ "xmodem_putc XMODEM_ACK (l1\<lparr>xl_in := rest\<rparr>)"]) (simp add: next_loop.simps [of max_len s l] xmodem_putc_def)
qed

lemma next_transfer:
  "list_all attempts_ok bs \<Longrightarrow> xl_in l = transfer (xs_expected s) bs \<Longrightarrow> xs_nak_count s = 0 \<Longrightarrow>
     unat (xs_received s) + length (concat (map snd bs)) \<le> unat max_len \<Longrightarrow> unat max_len \<le> length (xs_buf s) \<Longrightarrow>
     \<exists>s' l'. next_loop max_len s l = (Inr (xs_received s + of_nat (length (concat (map snd bs)))), s', l')
       \<and> xs_buf s' = buf_write (unat (xs_received s)) (concat (map snd bs)) (xs_buf s)"
proof (induction bs arbitrary: s l)
  case Nil
  then show ?case by (simp add: next_loop.simps [of max_len s l] next_step_def buf_write_def)
next
  case (Cons b bs)
  obtain bads d where b: "b = (bads, d)" by fastforce
  have ok: "list_all (\<lambda>(d, crc). block_ok d \<and> crc \<noteq> crc16 d) bads" "length bads < XMODEM_MAX_RETRIES" "block_ok d"
    using Cons.prems(1) b by (auto simp: attempts_ok_def)
  obtain s1 l1 where 1: "next_loop max_len s l = next_loop max_len s1 l1" "same_data s s1"
    "xl_in l1 = wire (block_bytes (xs_expected s) d) @ transfer (xs_expected s + 1) bs"
    using next_damaged [OF ok(1), of s l "xs_expected s" "wire (block_bytes (xs_expected s) d) @ transfer (xs_expected s + 1) bs" max_len]
      Cons.prems(2,3) ok(2) b by auto
  let ?s = "(put_block s1 d)\<lparr>xs_expected := xs_expected s1 + 1, xs_can_count := 0, xs_nak_count := 0\<rparr>"
  obtain l2 where 2: "next_loop max_len s1 l1 = next_loop max_len ?s l2" "xl_in l2 = transfer (xs_expected s + 1) bs"
    using next_good [of l1 s1 d "transfer (xs_expected s + 1) bs" max_len] 1 ok(3) Cons.prems(4) b by (auto simp: same_data_def)
  have rec: "unat (xs_received ?s) = unat (xs_received s) + length d"
    using Cons.prems(4) b 1(2) unat_add_of_nat [of "xs_received s" "length d"] unat_u32 [of max_len]
    by (simp add: same_data_def put_block_def)
  have buf: "xs_buf ?s = buf_write (unat (xs_received s)) d (xs_buf s)" using 1(2) by (simp add: same_data_def put_block_def)
  have len: "unat (xs_received s) + length d \<le> length (xs_buf s)" using Cons.prems(4,5) b by simp
  obtain s' l' where "next_loop max_len ?s l2 = (Inr (xs_received ?s + of_nat (length (concat (map snd bs)))), s', l')"
    "xs_buf s' = buf_write (unat (xs_received ?s)) (concat (map snd bs)) (xs_buf ?s)"
    using Cons.IH [of l2 ?s] Cons.prems 2(2) 1(2) rec buf len b by (auto simp: same_data_def)
  moreover have "buf_write (unat (xs_received s) + length d) y (buf_write (unat (xs_received s)) d (xs_buf s))
      = buf_write (unat (xs_received s)) (d @ y) (xs_buf s)" for y
    using len by (simp add: buf_write_def ac_simps)
  ultimately show ?case using 1(1,2) 2(1) rec buf b by (simp add: same_data_def put_block_def add.assoc)
qed

section \<open>Theorems\<close>


lemmas first_loop_numeral = first_loop.simps(2) [of "pred_numeral k" for k, folded numeral_eq_Suc]


text \<open>(C39) A transfer gets through: when every block is sent correctly after at most nine damaged attempts and all of it fits,
  the receiver returns the number of bytes and the buffer holds the blocks one after the other.\<close>

theorem xmodem_transfer_completes:
  assumes "list_all attempts_ok (b # bs)" "length (concat (map snd (b # bs))) \<le> unat max_len" "unat max_len \<le> length buf"
    and "xl_in l = transfer 1 (b # bs)"
  shows "\<exists>l'. xmodem_receive buf max_len l =
    (Inr (of_nat (length (concat (map snd (b # bs))))), buf_write 0 (concat (map snd (b # bs))) buf, l')"
proof -
  obtain bads d where b: "b = (bads, d)" by fastforce
  let ?s = "\<lparr>xs_buf = buf, xs_received = 0, xs_expected = 1, xs_nak_count = 0, xs_can_count = 0\<rparr>"
  have ok: "list_all (\<lambda>(d, crc). block_ok d \<and> crc \<noteq> crc16 d) bads" "length bads < XMODEM_MAX_RETRIES" "block_ok d"
    using assms(1) b by (auto simp: attempts_ok_def)
  let ?rest = "wire (block_bytes 1 d) @ transfer 2 bs"
  obtain s1 l1 where 1: "first_loop (length bads + (13 - length bads)) max_len ?s l = first_loop (13 - length bads) max_len s1 l1"
    "same_data ?s s1" "xl_in l1 = ?rest"
    using first_damaged [OF ok(1), of ?s l 1 ?rest "13 - length bads" max_len] ok(2) assms(4) b by auto
  obtain k where k: "13 - length bads = Suc k" using ok(2) by (cases "13 - length bads") auto
  let ?l0 = "xmodem_putc XMODEM_CCHAR l1"
  have l0: "xl_in ?l0 = wire (block_bytes 1 d) @ transfer 2 bs" using 1(3) by (simp add: xmodem_putc_def)
  obtain hdr l2 where r: "hdr = XMODEM_SOH \<or> hdr = XMODEM_STX" "xmodem_getc ?l0 = (Some hdr, l2)"
    "xmodem_recv_block hdr l2 = (Inr (1, d), l2\<lparr>xl_in := transfer 2 bs\<rparr>)"
    using recv_good [OF l0 ok(3)] by blast
  have len: "length d + length (concat (map snd bs)) \<le> unat max_len" using assms(2) b by simp
  have d32: "unat (of_nat (length d) :: u32) = length d" using len unat_u32 [of max_len] by (simp add: unat_of_nat)
  then have "\<not> (of_nat (length d) :: u32) > max_len" using len by (simp add: not_less word_le_nat_alt)
  then obtain s2 l3 where 2: "first_loop (Suc k) max_len s1 l1 = ((None, s2), l3)" "xs_buf s2 = buf_write 0 d buf"
    "xs_received s2 = of_nat (length d)" "xs_expected s2 = 2" "xs_nak_count s2 = 0" "xl_in l3 = transfer 2 bs"
    using r 1(2) by (auto simp: Let_def same_data_def xmodem_putc_def simp del: xmodem_getc.simps)
  obtain s3 l4 where "next_loop max_len s2 l3 = (Inr (of_nat (length d) + of_nat (length (concat (map snd bs)))), s3, l4)"
    "xs_buf s3 = buf_write (length d) (concat (map snd bs)) (buf_write 0 d buf)"
    using next_transfer [of bs l3 s2 max_len] 2 assms(1,3) len d32 by auto
  moreover have "buf_write (length d) y (buf_write 0 d buf) = buf_write 0 (d @ y) buf" for y by (simp add: buf_write_def ac_simps)
  moreover have "length bads + (13 - length bads) = 13" using ok(2) by simp
  then have "first_loop 13 max_len ?s l = ((None, s2), l3)" using 1(1) 2(1) k by (simp only:)
  ultimately show ?thesis by (simp add: xmodem_receive_def b)
qed

theorem xmodem_transfer_completes_witness:
  "\<exists>l'. xmodem_receive (replicate 256 0) 256 \<lparr>xl_in = transfer 1 [([(replicate 128 5, crc16 (replicate 128 5) + 1)], replicate 128 5)], xl_out = []\<rparr>
     = (Inr 128, buf_write 0 (replicate 128 5) (replicate 256 0), l')"
  using xmodem_transfer_completes [of "([(replicate 128 5, crc16 (replicate 128 5) + 1)], replicate 128 5)" "[]" 256 "replicate 256 0"
      "\<lparr>xl_in = transfer 1 [([(replicate 128 5, crc16 (replicate 128 5) + 1)], replicate 128 5)], xl_out = []\<rparr>"]
  by (simp add: attempts_ok_def block_ok_def)

end
