(* ===== verification/Intc.thy ===== *)
theory Intc
  imports Prelude
begin

text \<open>
  The interrupt dispatcher, \<open>src/src/platform/drivers/hardware_intc/intc.c\<close>: a table of handlers with the sources each
  serves, the masks of the interrupt controller, and the decoding of the pending sources on an interrupt. A handler is
  known by its address (0 is \<open>NULL\<close>); what it does is an argument \<open>run\<close>. A failed \<open>assert\<close> is \<open>None\<close>.
\<close>

section \<open>The handler table\<close>

abbreviation MAX_HANDLERS :: nat where "MAX_HANDLERS \<equiv> 32"

record interrupt_handler =
  ih_handler :: nat
  ih_source  :: u32

text \<open>The entries below \<open>count\<close>; the count is their number.\<close>

record handlers_collection =
  hc_handled_mask :: u32
  hc_handlers     :: "interrupt_handler list"

definition recompute_handled_mask :: "handlers_collection \<Rightarrow> handlers_collection" where
  "recompute_handled_mask c = c\<lparr>hc_handled_mask := foldl (\<lambda>mask h. mask OR ih_source h) 0 (hc_handlers c)\<rparr>"

fun find_handler :: "nat \<Rightarrow> nat \<Rightarrow> interrupt_handler list \<Rightarrow> nat option" where
  "find_handler func i [] = None"
| "find_handler func i (h # hs) = (if ih_handler h = func then Some i else find_handler func (i + 1) hs)"

definition register_handler :: "handlers_collection \<Rightarrow> u32 \<Rightarrow> nat \<Rightarrow> handlers_collection option" where
  "register_handler c source func =
     (if func = 0 \<or> source = 0 then None
      else do {
        (found, hs) \<leftarrow>
          (case find_handler func 0 (hc_handlers c) of
             Some i \<Rightarrow> Some (i, hc_handlers c)
           | None \<Rightarrow>
               if length (hc_handlers c) < MAX_HANDLERS
               then Some (length (hc_handlers c), hc_handlers c @ [\<lparr>ih_handler = func, ih_source = 0\<rparr>])
               else None);
        Some \<lparr>hc_handled_mask = hc_handled_mask c OR source,
              hc_handlers = hs[found := (hs ! found)\<lparr>ih_source := ih_source (hs ! found) OR source\<rparr>]\<rparr>
      })"

text \<open>The search of \<open>unregister_handler\<close> does not stop at the first match.\<close>

fun find_last_handler :: "nat \<Rightarrow> nat \<Rightarrow> interrupt_handler list \<Rightarrow> nat option \<Rightarrow> nat option" where
  "find_last_handler func i [] found = found"
| "find_last_handler func i (h # hs) found =
     find_last_handler func (i + 1) hs (if ih_handler h = func then Some i else found)"

definition unregister_handler :: "handlers_collection \<Rightarrow> u32 \<Rightarrow> nat \<Rightarrow> bool \<times> handlers_collection" where
  "unregister_handler c source func =
     (case find_last_handler func 0 (hc_handlers c) None of
        None \<Rightarrow> (False, c)
      | Some i \<Rightarrow>
          let hs = hc_handlers c;
              hs' = (if ih_source (hs ! i) AND NOT source = 0
                     then take i hs @ drop (i + 1) hs
                     else hs[i := (hs ! i)\<lparr>ih_source := ih_source (hs ! i) AND NOT source\<rparr>])
          in (True, recompute_handled_mask (c\<lparr>hc_handlers := hs'\<rparr>)))"

text \<open>The number of handlers that serve one of the sources, and the first \<open>length\<close> of them.\<close>

definition find_handlers :: "handlers_collection \<Rightarrow> u32 \<Rightarrow> nat \<Rightarrow> nat \<times> nat list" where
  "find_handlers c source len =
     (let hs = filter (\<lambda>h. ih_source h AND source \<noteq> 0) (hc_handlers c)
      in (length hs, take len (map ih_handler hs)))"

section \<open>The controller\<close>

abbreviation ICU_INT_IRQ_MASK :: u32 where "ICU_INT_IRQ_MASK \<equiv> 0x0000FFFF"
abbreviation ICU_INT_FIQ_MASK :: u32 where "ICU_INT_FIQ_MASK \<equiv> 0xFFFF0000"

text \<open>The registers: \<open>irq_status\<close> is the raw status masked by the enables, and writing ones to it clears them there.\<close>

record intc_state =
  ic_raw        :: u32
  ic_enable     :: u32
  ic_gl_irq     :: bool
  ic_gl_fiq     :: bool
  ic_extra      :: u32
  ic_vectors    :: "string list"
  ic_manager    :: handlers_collection
  ic_fires      :: "u32 list"
  ic_orphans    :: u32
  ic_spurious_irq :: u16
  ic_spurious_fiq :: u16

definition icu_irq_status :: "intc_state \<Rightarrow> u32" where
  "icu_irq_status s = ic_raw s AND ic_enable s"

definition icu_clear :: "u32 \<Rightarrow> intc_state \<Rightarrow> intc_state" where
  "icu_clear v s = s\<lparr>ic_raw := ic_raw s AND NOT v\<rparr>"

definition intc_enable_irq_source :: "u32 \<Rightarrow> intc_state \<Rightarrow> intc_state" where
  "intc_enable_irq_source source s = s\<lparr>ic_enable := ic_enable s OR source\<rparr>"

definition intc_disable_irq_source :: "u32 \<Rightarrow> intc_state \<Rightarrow> intc_state" where
  "intc_disable_irq_source source s = s\<lparr>ic_enable := ic_enable s AND NOT source\<rparr>"

definition intc_irq_source_enabled :: "u32 \<Rightarrow> intc_state \<Rightarrow> bool" where
  "intc_irq_source_enabled source s =
     (let enabled = ic_enable s AND source
      in enabled AND ICU_INT_IRQ_MASK \<noteq> 0 \<and> ic_gl_irq s \<or> enabled AND ICU_INT_FIQ_MASK \<noteq> 0 \<and> ic_gl_fiq s)"

text \<open>The entry points the exception vectors in RAM point to, in the order of \<open>ram_vectors_tbl_t\<close>.\<close>

definition init_ram_vectors :: "intc_state \<Rightarrow> intc_state" where
  "init_ram_vectors s = s\<lparr>ic_vectors :=
     [''do_irq'', ''do_fiq'', ''do_swi'', ''do_undefined'', ''do_pabort'', ''do_dabort'', ''do_reserved'']\<rparr>"

definition intc_init :: "intc_state \<Rightarrow> intc_state" where
  "intc_init s = (init_ram_vectors s)\<lparr>ic_manager := \<lparr>hc_handled_mask = 0, hc_handlers = []\<rparr>, ic_gl_irq := True, ic_gl_fiq := True\<rparr>"

definition intc_reset :: "intc_state \<Rightarrow> intc_state" where
  "intc_reset s =
     (let s = s\<lparr>ic_enable := 0, ic_gl_irq := False, ic_gl_fiq := False\<rparr>;
          s = icu_clear (ic_raw s) s;
          s = icu_clear (icu_irq_status s) s
      in s\<lparr>ic_extra := 0\<rparr>)"

definition intc_register_irq_handler :: "u32 \<Rightarrow> nat \<Rightarrow> intc_state \<Rightarrow> intc_state option" where
  "intc_register_irq_handler source func s =
     map_option (\<lambda>c. s\<lparr>ic_manager := c\<rparr>) (register_handler (ic_manager s) source func)"

definition intc_unregister_irq_handler :: "u32 \<Rightarrow> nat \<Rightarrow> intc_state \<Rightarrow> bool \<times> intc_state" where
  "intc_unregister_irq_handler source func s =
     (let (ok, c) = unregister_handler (ic_manager s) source func in (ok, s\<lparr>ic_manager := c\<rparr>))"

section \<open>Dispatch\<close>

text \<open>\<open>__builtin_ctz\<close>, the number of the lowest bit of a word that is not zero.\<close>

fun ctz_from :: "nat \<Rightarrow> nat \<Rightarrow> u32 \<Rightarrow> nat" where
  "ctz_from 0 i v = i"
| "ctz_from (Suc n) i v = (if bit v i then i else ctz_from n (i + 1) v)"

definition ctz :: "u32 \<Rightarrow> nat" where "ctz v = ctz_from 31 0 v"

text \<open>The loop of \<open>count_fires\<close>, which clears the lowest bit each time; 32 rounds are enough.\<close>

fun count_fires_loop :: "nat \<Rightarrow> u32 \<Rightarrow> u32 list \<Rightarrow> u32 list" where
  "count_fires_loop 0 source counts = counts"
| "count_fires_loop (Suc n) source counts =
     (if source = 0 then counts
      else count_fires_loop n (source AND (source - 1)) (counts[ctz source := counts ! ctz source + 1]))"

definition count_fires :: "u32 \<Rightarrow> intc_state \<Rightarrow> intc_state" where
  "count_fires source s = s\<lparr>ic_fires := count_fires_loop 32 source (ic_fires s)\<rparr>"

definition update_stat :: "u32 \<Rightarrow> u32 \<Rightarrow> intc_state \<Rightarrow> intc_state" where
  "update_stat source orphans s =
     count_fires source (if orphans \<noteq> 0 then s\<lparr>ic_orphans := ic_orphans s OR orphans\<rparr> else s)"

text \<open>The statistics, which the code keeps when it is built with \<open>INTC_COUNT_FIRES\<close>.\<close>

definition intc_get_fire_count :: "intc_state \<Rightarrow> u8 \<Rightarrow> u32" where
  "intc_get_fire_count s b = (if unat b < 32 then ic_fires s ! unat b else 0)"

definition intc_get_spurious_irq_count :: "intc_state \<Rightarrow> u32" where
  "intc_get_spurious_irq_count s = ucast (ic_spurious_irq s)"

definition intc_get_spurious_fiq_count :: "intc_state \<Rightarrow> u32" where
  "intc_get_spurious_fiq_count s = ucast (ic_spurious_fiq s)"

definition intc_get_orphan_sources :: "intc_state \<Rightarrow> u32" where
  "intc_get_orphan_sources s = ic_orphans s"

definition process_handlers :: "(nat \<Rightarrow> intc_state \<Rightarrow> intc_state) \<Rightarrow> u32 \<Rightarrow> intc_state \<Rightarrow> intc_state option" where
  "process_handlers run source s =
     (let (count, handlers) = find_handlers (ic_manager s) source 4
      in if count \<le> 4 then Some (fold run handlers s) else None)"

definition intc_irq :: "(nat \<Rightarrow> intc_state \<Rightarrow> intc_state) \<Rightarrow> intc_state \<Rightarrow> intc_state option" where
  "intc_irq run s =
     (let status = icu_irq_status s AND ICU_INT_IRQ_MASK;
          s = icu_clear status s
      in if status = 0 then Some (s\<lparr>ic_spurious_irq := ic_spurious_irq s + 1\<rparr>)
         else
           let orphans = status AND NOT (hc_handled_mask (ic_manager s))
           in do {
             s \<leftarrow> process_handlers run status s;
             Some (update_stat status orphans (if orphans \<noteq> 0 then intc_disable_irq_source orphans s else s))
           })"

definition intc_fiq :: "(nat \<Rightarrow> intc_state \<Rightarrow> intc_state) \<Rightarrow> intc_state \<Rightarrow> intc_state option" where
  "intc_fiq run s =
     (let status = icu_irq_status s AND ICU_INT_FIQ_MASK;
          s = icu_clear status s
      in if status = 0 then Some (s\<lparr>ic_spurious_fiq := ic_spurious_fiq s + 1\<rparr>)
         else
           let orphans = status AND NOT (hc_handled_mask (ic_manager s))
           in do {
             s \<leftarrow> process_handlers run status s;
             Some (update_stat status orphans (if orphans \<noteq> 0 then intc_disable_irq_source orphans s else s))
           })"

section \<open>The contract of the table\<close>

text \<open>What drivers rely on: each handler has a set of sources, to which registering adds and from which unregistering
  removes, and the mask is exactly what some handler serves.\<close>

locale irq_table =
  fixes ok :: "'t \<Rightarrow> bool"
    and sources :: "'t \<Rightarrow> 'h \<Rightarrow> 'a::len word"
    and handled :: "'t \<Rightarrow> 'a word"
    and register :: "'t \<Rightarrow> 'a word \<Rightarrow> 'h \<Rightarrow> 't option"
    and unregister :: "'t \<Rightarrow> 'a word \<Rightarrow> 'h \<Rightarrow> bool \<times> 't"
  assumes handled_iff: "ok t \<Longrightarrow> bit (handled t) n \<longleftrightarrow> (\<exists>h. bit (sources t h) n)"
    and register_law: "ok t \<Longrightarrow> register t s h = Some t' \<Longrightarrow> ok t' \<and> sources t' = (sources t)(h := sources t h OR s)"
    and unregister_law: "ok t \<Longrightarrow> ok (snd (unregister t s h))
      \<and> sources (snd (unregister t s h)) = (sources t)(h := sources t h AND NOT s)
      \<and> fst (unregister t s h) = (sources t h \<noteq> 0)"
begin

lemma register_handled: "ok t \<Longrightarrow> register t s h = Some t' \<Longrightarrow> handled t' = handled t OR s"
proof (rule bit_word_eqI)
  fix n assume t: "ok t" "register t s h = Some t'"
  note r = register_law [OF t]
  show "bit (handled t') n = bit (handled t OR s) n"
    using handled_iff [OF t(1), of n] handled_iff [of t' n] r by (auto simp: bit_or_iff)
qed

lemma unregister_handled:
  assumes "ok t" "bit (handled (snd (unregister t s h))) n"
  shows "bit (handled t) n"
  using handled_iff [OF assms(1), of n] handled_iff [of "snd (unregister t s h)" n] unregister_law [OF assms(1), of s h] assms(2)
  by (auto simp: bit_and_iff split: if_splits)

lemma register_unregister:
  "ok t \<Longrightarrow> sources t h = 0 \<Longrightarrow> register t s h = Some t' \<Longrightarrow> sources (snd (unregister t' s h)) = sources t"
  using register_law [of t s h t'] unregister_law [of t' s h] by (auto simp: fun_eq_iff)

end

section \<open>The table keeps it\<close>

definition sources_of :: "handlers_collection \<Rightarrow> nat \<Rightarrow> u32" where
  "sources_of c f = (case map_of (map (\<lambda>h. (ih_handler h, ih_source h)) (hc_handlers c)) f of None \<Rightarrow> 0 | Some s \<Rightarrow> s)"

definition collection_ok :: "handlers_collection \<Rightarrow> bool" where
  "collection_ok c \<longleftrightarrow> distinct (map ih_handler (hc_handlers c)) \<and> list_all (\<lambda>h. ih_handler h \<noteq> 0 \<and> ih_source h \<noteq> 0) (hc_handlers c)
     \<and> (\<forall>n. bit (hc_handled_mask c) n \<longleftrightarrow> (\<exists>h \<in> set (hc_handlers c). bit (ih_source h) n)) \<and> length (hc_handlers c) \<le> MAX_HANDLERS"

lemma find_handler_skip: "f \<notin> ih_handler ` set xs \<Longrightarrow> find_handler f k (xs @ ys) = find_handler f (k + length xs) ys"
  by (induction xs arbitrary: k) auto

lemma find_last_skip: "f \<notin> ih_handler ` set xs \<Longrightarrow> find_last_handler f k (xs @ ys) r = find_last_handler f (k + length xs) ys r"
  by (induction xs arbitrary: k) auto

lemma find_last_absent: "f \<notin> ih_handler ` set xs \<Longrightarrow> find_last_handler f k xs r = r"
  using find_last_skip [of f xs k "[]" r] by simp

lemma find_handler_cases:
  assumes "distinct (map ih_handler hs)"
  obtains (absent) "f \<notin> ih_handler ` set hs" "find_handler f 0 hs = None" "find_last_handler f 0 hs None = None"
  | (present) xs h ys where "hs = xs @ h # ys" "ih_handler h = f" "f \<notin> ih_handler ` set xs" "f \<notin> ih_handler ` set ys"
      "find_handler f 0 hs = Some (length xs)" "find_last_handler f 0 hs None = Some (length xs)"
proof (cases "f \<in> ih_handler ` set hs")
  case False
  then show ?thesis using absent find_handler_skip [of f hs 0 "[]"] find_last_absent [of f hs 0 None] by simp
next
  case True
  then obtain h where h: "h \<in> set hs" "ih_handler h = f" by auto
  then obtain xs ys where hs: "hs = xs @ h # ys" using split_list by metis
  then have n: "f \<notin> ih_handler ` set xs" "f \<notin> ih_handler ` set ys" using assms h(2) by auto
  then show ?thesis
    using present [OF hs h(2) n] find_handler_skip [of f xs 0 "h # ys"] find_last_skip [of f xs 0 "h # ys" None]
      find_last_absent [of f ys "Suc (length xs)" "Some (length xs)"] hs h(2) by simp
qed

lemma map_of_absent: "f \<notin> ih_handler ` set hs \<Longrightarrow> map_of (map (\<lambda>h. (ih_handler h, ih_source h)) hs) f = None"
  by (force simp: map_of_eq_None_iff)

lemma sources_of_split:
  "f \<notin> ih_handler ` set xs \<Longrightarrow> ih_handler h = f \<Longrightarrow> sources_of \<lparr>hc_handled_mask = m, hc_handlers = xs @ h # ys\<rparr> f = ih_source h"
  by (simp add: sources_of_def map_add_def map_of_absent split: option.splits)

lemma sources_of_absent: "f \<notin> ih_handler ` set hs \<Longrightarrow> sources_of \<lparr>hc_handled_mask = m, hc_handlers = hs\<rparr> f = 0"
  by (simp add: sources_of_def map_of_absent)

text \<open>Changing one entry, or leaving it out, changes the sources of one handler.\<close>

lemma sources_of_other:
  "ih_handler h = f \<Longrightarrow> g \<noteq> f \<Longrightarrow>
     sources_of \<lparr>hc_handled_mask = m, hc_handlers = xs @ h # ys\<rparr> g = sources_of \<lparr>hc_handled_mask = m', hc_handlers = xs @ ys\<rparr> g"
  by (auto simp: sources_of_def map_add_def split: option.splits)

lemma sources_of_mask: "sources_of (c\<lparr>hc_handled_mask := m\<rparr>) = sources_of c"
  by (simp add: sources_of_def fun_eq_iff)

lemma sources_of_recompute [simp]: "sources_of (recompute_handled_mask c) = sources_of c"
  by (simp add: recompute_handled_mask_def sources_of_mask)

lemma foldl_or_bit: "bit (foldl (\<lambda>mask h. mask OR ih_source h) m hs) n \<longleftrightarrow> bit m n \<or> (\<exists>h \<in> set hs. bit (ih_source h) n)"
  by (induction hs arbitrary: m) (auto simp: bit_or_iff)

lemma or_nonzero: "s \<noteq> 0 \<Longrightarrow> a OR s \<noteq> (0 :: u32)"
  by (auto simp: bit_eq_iff bit_or_iff)

lemma register_ok:
  assumes c: "collection_ok c" and r: "register_handler c s f = Some c'"
  shows "collection_ok c' \<and> sources_of c' = (sources_of c)(f := sources_of c f OR s)"
proof -
  have ne: "f \<noteq> 0" "s \<noteq> 0" using r by (auto simp: register_handler_def split: if_splits)
  have d: "distinct (map ih_handler (hc_handlers c))" using c by (simp add: collection_ok_def)
  obtain m hs where chs: "c = \<lparr>hc_handled_mask = m, hc_handlers = hs\<rparr>" by (cases c) auto
  from d show ?thesis
  proof (cases rule: find_handler_cases [of _ f])
    case absent
    then have c': "length hs < MAX_HANDLERS" "c' = \<lparr>hc_handled_mask = m OR s, hc_handlers = hs @ [\<lparr>ih_handler = f, ih_source = s\<rparr>]\<rparr>"
      using r ne chs by (auto simp: register_handler_def split: if_splits)
    have "sources_of c' g = (sources_of c g) OR (if g = f then s else 0)" for g
    proof (cases "g = f")
      case True
      then show ?thesis using c'(2) absent chs sources_of_split [of f hs "\<lparr>ih_handler = f, ih_source = s\<rparr>" "m OR s" "[]"] sources_of_absent [of f hs m] by simp
    next
      case False
      then show ?thesis using c'(2) chs sources_of_other [of "\<lparr>ih_handler = f, ih_source = s\<rparr>" f g "m OR s" hs "[]" m] by simp
    qed
    then show ?thesis using c c' ne absent chs by (auto simp: collection_ok_def fun_eq_iff bit_or_iff)
  next
    case (present xs h ys)
    have hs: "hs = xs @ h # ys" using present(1) chs by simp
    then have c': "c' = \<lparr>hc_handled_mask = m OR s, hc_handlers = xs @ h\<lparr>ih_source := ih_source h OR s\<rparr> # ys\<rparr>"
      using r ne present(5) chs by (auto simp: register_handler_def)
    have "sources_of c' g = (sources_of c g) OR (if g = f then s else 0)" for g
    proof (cases "g = f")
      case True
      then show ?thesis using c' present(2,3) chs hs sources_of_split [of f xs h m ys]
          sources_of_split [of f xs "h\<lparr>ih_source := ih_source h OR s\<rparr>" "m OR s" ys] by simp
    next
      case False
      then show ?thesis using c' present(2) chs hs sources_of_other [of h f g m xs ys m]
          sources_of_other [of "h\<lparr>ih_source := ih_source h OR s\<rparr>" f g "m OR s" xs ys m] by simp
    qed
    moreover have "ih_source h OR s \<noteq> 0" using ne(2) by (rule or_nonzero)
    ultimately show ?thesis using c c' ne present(2) chs hs by (auto simp: collection_ok_def fun_eq_iff bit_or_iff)
  qed
qed

lemma unregister_ok:
  assumes c: "collection_ok c"
  shows "collection_ok (snd (unregister_handler c s f))
    \<and> sources_of (snd (unregister_handler c s f)) = (sources_of c)(f := sources_of c f AND NOT s)
    \<and> fst (unregister_handler c s f) = (sources_of c f \<noteq> 0)"
proof -
  have d: "distinct (map ih_handler (hc_handlers c))" using c by (simp add: collection_ok_def)
  obtain m hs where chs: "c = \<lparr>hc_handled_mask = m, hc_handlers = hs\<rparr>" by (cases c) auto
  from d show ?thesis
  proof (cases rule: find_handler_cases [of _ f])
    case absent
    then have "sources_of c f = 0" using sources_of_absent [of f hs m] chs by simp
    then show ?thesis using c absent by (auto simp: unregister_handler_def)
  next
    case (present xs h ys)
    have hs: "hs = xs @ h # ys" using present(1) chs by simp
    let ?h = "h\<lparr>ih_source := ih_source h AND NOT s\<rparr>"
    let ?hs = "if ih_source h AND NOT s = 0 then xs @ ys else xs @ ?h # ys"
    have u: "unregister_handler c s f = (True, recompute_handled_mask \<lparr>hc_handled_mask = m, hc_handlers = ?hs\<rparr>)"
      using present(6) chs hs by (simp add: unregister_handler_def Let_def)
    have src: "sources_of c f = ih_source h" using sources_of_split [of f xs h m ys] present(2,3) chs hs by simp
    have "sources_of \<lparr>hc_handled_mask = m, hc_handlers = ?hs\<rparr> g = ((sources_of c)(f := ih_source h AND NOT s)) g" for g
    proof (cases "g = f")
      case True
      then show ?thesis using present(2,3,4) sources_of_split [of f xs ?h m ys] sources_of_absent [of f "xs @ ys" m] by auto
    next
      case False
      then show ?thesis using present(2) chs hs sources_of_other [of h f g m xs ys m] sources_of_other [of ?h f g m xs ys m] by auto
    qed
    moreover have "ih_source h \<noteq> 0" using c chs hs by (simp add: collection_ok_def)
    moreover have "collection_ok (recompute_handled_mask \<lparr>hc_handled_mask = m, hc_handlers = ?hs\<rparr>)"
      using c chs hs by (auto simp: collection_ok_def recompute_handled_mask_def foldl_or_bit)
    ultimately show ?thesis using u src by (simp only: fst_conv snd_conv sources_of_recompute) (simp add: fun_eq_iff)
  qed
qed

lemma source_of_bit:
  assumes "distinct (map ih_handler (hc_handlers c))"
  shows "bit (sources_of c f) n \<longleftrightarrow> (\<exists>h \<in> set (hc_handlers c). ih_handler h = f \<and> bit (ih_source h) n)"
proof (cases "f \<in> ih_handler ` set (hc_handlers c)")
  case False
  then show ?thesis using map_of_absent [of f "hc_handlers c"] by (auto simp: sources_of_def)
next
  case True
  then obtain h where h: "h \<in> set (hc_handlers c)" "ih_handler h = f" by auto
  then have "map_of (map (\<lambda>h. (ih_handler h, ih_source h)) (hc_handlers c)) f = Some (ih_source h)"
    using assms by (subst map_of_eq_Some_iff) (auto simp: comp_def)
  then have src: "sources_of c f = ih_source h" by (simp add: sources_of_def)
  have uniq: "h' = h" if "h' \<in> set (hc_handlers c)" "ih_handler h' = f" for h'
    using inj_onD [of ih_handler "set (hc_handlers c)" h' h] assms h that by (simp add: distinct_map)
  show ?thesis unfolding src using h uniq by blast
qed

interpretation intc_table: irq_table collection_ok sources_of hc_handled_mask register_handler unregister_handler
proof
  fix t n
  assume "collection_ok t"
  then show "bit (hc_handled_mask t) n \<longleftrightarrow> (\<exists>h. bit (sources_of t h) n)"
    by (auto simp: source_of_bit collection_ok_def)
qed (simp_all add: register_ok unregister_ok)

section \<open>Counting\<close>

lemma ctz_from_bit:
  "\<exists>j. i \<le> j \<and> j \<le> i + n \<and> bit v j \<Longrightarrow> bit v (ctz_from n i v) \<and> (\<forall>j. i \<le> j \<longrightarrow> j < ctz_from n i v \<longrightarrow> \<not> bit v j) \<and> ctz_from n i v \<le> i + n"
proof (induction n arbitrary: i)
  case 0
  then have "bit v i" using le_antisym by fastforce
  then show ?case by auto
next
  case (Suc n)
  show ?case
  proof (cases "bit v i")
    case False
    obtain j where "i \<le> j" "j \<le> i + Suc n" "bit v j" using Suc.prems by blast
    then have "\<exists>j. Suc i \<le> j \<and> j \<le> Suc i + n \<and> bit v j" using False by (intro exI [of _ j]) (metis Suc_leI add_Suc add_Suc_right le_neq_implies_less)
    from Suc.IH [OF this] show ?thesis using False by (auto simp: Suc_le_eq) (metis le_neq_implies_less)
  qed auto
qed

lemma ctz_bit:
  assumes "v \<noteq> 0"
  shows "bit v (ctz v)" "ctz v < 32" "j < ctz v \<Longrightarrow> \<not> bit v j"
proof -
  obtain m where "bit v m" using assms by (auto simp: bit_eq_iff)
  moreover from this have "m \<le> 0 + 31" using bit_imp_le_length [of v m] by simp
  ultimately have *: "bit v (ctz v) \<and> (\<forall>j. 0 \<le> j \<longrightarrow> j < ctz v \<longrightarrow> \<not> bit v j) \<and> ctz v \<le> 0 + 31"
    unfolding ctz_def by (intro ctz_from_bit exI [of _ m]) simp
  then show "bit v (ctz v)" "ctz v < 32" "j < ctz v \<Longrightarrow> \<not> bit v j" by auto
qed

text \<open>\<open>v & (v - 1)\<close> clears the lowest bit.\<close>

lemma clear_lowest:
  assumes "v \<noteq> (0 :: u32)"
  shows "v AND (v - 1) = v AND NOT (2 ^ ctz v)"
proof -
  let ?k = "ctz v" and ?w = "v AND NOT (2 ^ ctz v)"
  note k = ctz_bit [OF assms]
  have "?w AND 2 ^ ?k = 0" by (intro bit_word_eqI) (auto simp: bit_simps)
  then have "?w + 2 ^ ?k = ?w XOR 2 ^ ?k" by (rule disjunctive_add_eq_xor)
  also have "\<dots> = v" using k(1) by (intro bit_word_eqI) (auto simp: bit_simps)
  finally have "v - 1 = ?w + (2 ^ ?k - 1)" by (simp add: algebra_simps)
  also have "2 ^ ?k - 1 = (mask ?k :: u32)" by (simp add: mask_eq_exp_minus_1)
  also have "?w AND mask ?k = 0" using k(3) by (intro bit_word_eqI) (auto simp: bit_simps)
  then have "?w + mask ?k = ?w XOR mask ?k" by (rule disjunctive_add_eq_xor)
  finally have "v - 1 = ?w XOR mask ?k" .
  moreover have "v AND (?w XOR mask ?k) = ?w" using k(3) by (intro bit_word_eqI) (auto simp: bit_simps)
  ultimately show ?thesis by simp
qed

lemma count_fires_bits:
  "length counts = 32 \<Longrightarrow> (\<forall>b. bit source b \<longrightarrow> 32 - n \<le> b) \<Longrightarrow> b < 32 \<Longrightarrow> n \<le> 32 \<Longrightarrow>
     count_fires_loop n source counts ! b = counts ! b + (if bit source b then 1 else 0)"
proof (induction n arbitrary: source counts)
  case 0
  then have "\<not> bit source b" using bit_imp_le_length [of source b] by fastforce
  then show ?case by simp
next
  case (Suc n)
  show ?case
  proof (cases "source = 0")
    case False
    note k = ctz_bit [OF False]
    have low: "32 - Suc n \<le> ctz source" using Suc.prems(2) k(1) by blast
    have bits: "bit (source AND (source - 1)) i \<longleftrightarrow> bit source i \<and> i \<noteq> ctz source" for i
      unfolding clear_lowest [OF False] using bit_imp_le_length [of source i] by (auto simp: bit_simps)
    have "\<forall>b. bit (source AND (source - 1)) b \<longrightarrow> 32 - n \<le> b"
    proof (intro allI impI)
      fix b assume "bit (source AND (source - 1)) b"
      then have "bit source b" "b \<noteq> ctz source" using bits by simp_all
      then have "ctz source < b" using k(3) [of b] by (metis linorder_neqE_nat)
      then show "32 - n \<le> b" using low Suc.prems(4) by simp
    qed
    then have "count_fires_loop n (source AND (source - 1)) (counts[ctz source := counts ! ctz source + 1]) ! b
        = counts[ctz source := counts ! ctz source + 1] ! b + (if bit (source AND (source - 1)) b then 1 else 0)"
      using Suc.prems by (intro Suc.IH) simp_all
    then show ?thesis using False bits [of b] k(1,2) Suc.prems(1,3)
      by (auto simp: nth_list_update)
  qed simp
qed

lemma length_count_fires: "length (count_fires_loop n source counts) = length counts"
  by (induction n arbitrary: source counts) auto

section \<open>Theorems\<close>

text \<open>The handlers that serve one of the sources, in the order they were registered.\<close>

definition serving :: "handlers_collection \<Rightarrow> u32 \<Rightarrow> nat list" where
  "serving c source = map ih_handler (filter (\<lambda>h. ih_source h AND source \<noteq> 0) (hc_handlers c))"

lemma and_nonzero: "a AND b \<noteq> (0 :: u32) \<longleftrightarrow> (\<exists>n. bit a n \<and> bit b n)"
  using bit_imp_le_length [of a] by (auto simp: bit_eq_iff bit_and_iff)

lemma serving_set:
  assumes "collection_ok c"
  shows "distinct (serving c source)" "set (serving c source) = {f. sources_of c f AND source \<noteq> 0}"
proof -
  have d: "distinct (map ih_handler (hc_handlers c))" using assms by (simp add: collection_ok_def)
  then show "distinct (serving c source)" by (auto simp: serving_def distinct_map intro: inj_on_subset)
  have "f \<in> set (serving c source) \<longleftrightarrow> (\<exists>n. bit (sources_of c f) n \<and> bit source n)" for f
    by (auto simp: serving_def source_of_bit [OF d] and_nonzero)
  then show "set (serving c source) = {f. sources_of c f AND source \<noteq> 0}" by (auto simp: and_nonzero)
qed

text \<open>What an interrupt on the line with the given mask does.\<close>

definition dispatched :: "(nat \<Rightarrow> intc_state \<Rightarrow> intc_state) \<Rightarrow> u32 \<Rightarrow> intc_state \<Rightarrow> intc_state option \<Rightarrow> bool" where
  "dispatched run source s r \<longleftrightarrow>
     (let hs = serving (ic_manager s) source
      in if 4 < length hs then r = None
         else \<exists>s' orphans. r = Some s' \<and> (\<forall>n. bit orphans n \<longleftrightarrow> bit source n \<and> (\<forall>f. \<not> bit (sources_of (ic_manager s) f) n))
           \<and> (let t = fold run hs (icu_clear source s)
              in ic_raw s' = ic_raw t \<and> ic_manager s' = ic_manager t \<and> ic_enable s' = ic_enable t AND NOT orphans
                 \<and> ic_orphans s' = ic_orphans t OR orphans
                 \<and> (length (ic_fires t) = 32 \<longrightarrow> (\<forall>b < 32. ic_fires s' ! b = ic_fires t ! b + (if bit source b then 1 else 0)))))"

lemma dispatch_body:
  assumes "collection_ok (ic_manager s)"
  shows "dispatched run source s
    (process_handlers run source (icu_clear source s) \<bind> (\<lambda>s'. Some (update_stat source (source AND NOT (hc_handled_mask (ic_manager s)))
       (if source AND NOT (hc_handled_mask (ic_manager s)) \<noteq> 0
        then intc_disable_irq_source (source AND NOT (hc_handled_mask (ic_manager s))) s' else s'))))"
proof -
  let ?o = "source AND NOT (hc_handled_mask (ic_manager s))"
  let ?hs = "serving (ic_manager s) source"
  have hs: "find_handlers (ic_manager s) source 4 = (length ?hs, take 4 ?hs)"
    by (simp add: find_handlers_def serving_def Let_def)
  have m: "ic_manager (icu_clear source s) = ic_manager s" by (simp add: icu_clear_def)
  show ?thesis
  proof (cases "4 < length ?hs")
    case True
    then show ?thesis using hs m by (simp add: dispatched_def process_handlers_def)
  next
    case False
    let ?t = "fold run ?hs (icu_clear source s)"
    have p: "process_handlers run source (icu_clear source s) = Some ?t" using False hs m by (simp add: process_handlers_def)
    have o: "bit ?o n \<longleftrightarrow> bit source n \<and> (\<forall>f. \<not> bit (sources_of (ic_manager s) f) n)" for n
      using intc_table.handled_iff [OF assms, of n] bit_imp_le_length [of source n] by (auto simp: bit_and_iff bit_not_iff)
    have f: "ic_fires (count_fires source u) ! b = ic_fires u ! b + (if bit source b then 1 else 0)"
      if "length (ic_fires u) = 32" "b < 32" for u b
      using that by (simp add: count_fires_def count_fires_bits)
    show ?thesis unfolding dispatched_def p Let_def
      using False o f by (auto simp: update_stat_def intc_disable_irq_source_def count_fires_def intro!: exI [of _ ?o])
  qed
qed

text \<open>(C21) An interrupt calls exactly the handlers registered for a pending source of its line, each once: the pending
  sources are acknowledged first, sources no handler serves are masked afterwards (so they cannot fire again whatever
  the handlers do), and the statistics count each source. With nothing pending only the spurious count moves; more than
  four handlers at once fail the assertion.\<close>

theorem intc_dispatch:
  assumes "collection_ok (ic_manager s)"
  shows "(let source = icu_irq_status s AND ICU_INT_IRQ_MASK
      in if source = 0 then intc_irq run s = Some (s\<lparr>ic_spurious_irq := ic_spurious_irq s + 1\<rparr>)
         else dispatched run source s (intc_irq run s))
    \<and> (let source = icu_irq_status s AND ICU_INT_FIQ_MASK
      in if source = 0 then intc_fiq run s = Some (s\<lparr>ic_spurious_fiq := ic_spurious_fiq s + 1\<rparr>)
         else dispatched run source s (intc_fiq run s))
    \<and> set (serving (ic_manager s) source) = {f. sources_of (ic_manager s) f AND source \<noteq> 0}
    \<and> distinct (serving (ic_manager s) source)"
proof -
  have "icu_clear 0 s = s" by (simp add: icu_clear_def)
  moreover have "ic_manager (icu_clear source s) = ic_manager s" for source by (simp add: icu_clear_def)
  ultimately show ?thesis
    using dispatch_body [OF assms] serving_set [OF assms] by (simp add: intc_irq_def intc_fiq_def Let_def)
qed

theorem intc_dispatch_witness:
  "\<exists>s'. intc_irq (\<lambda>f s. s\<lparr>ic_extra := of_nat f\<rparr>)
      \<lparr>ic_raw = 0x101, ic_enable = 0x101, ic_gl_irq = True, ic_gl_fiq = True, ic_extra = 0, ic_vectors = [],
       ic_manager = \<lparr>hc_handled_mask = 1, hc_handlers = [\<lparr>ih_handler = 7, ih_source = 1\<rparr>]\<rparr>,
       ic_fires = replicate 32 0, ic_orphans = 0, ic_spurious_irq = 0, ic_spurious_fiq = 0\<rparr> = Some s'
    \<and> ic_enable s' = 1 \<and> ic_raw s' = 0 \<and> ic_orphans s' = 0x100"
proof -
  let ?s = "\<lparr>ic_raw = 0x101, ic_enable = 0x101, ic_gl_irq = True, ic_gl_fiq = True, ic_extra = 0, ic_vectors = [],
       ic_manager = \<lparr>hc_handled_mask = 1, hc_handlers = [\<lparr>ih_handler = 7, ih_source = 1\<rparr>]\<rparr>,
       ic_fires = replicate 32 0, ic_orphans = 0, ic_spurious_irq = 0, ic_spurious_fiq = 0\<rparr>"
  let ?run = "\<lambda>f s. s\<lparr>ic_extra := of_nat f\<rparr>"
  have ok: "collection_ok (ic_manager ?s)" by (simp add: collection_ok_def)
  have "dispatched ?run 0x101 ?s (intc_irq ?run ?s)"
    using intc_dispatch [OF ok, of ?run] by (simp add: icu_irq_status_def)
  then obtain s' orph where r: "intc_irq ?run ?s = Some s'" "\<And>n. bit orph n \<longleftrightarrow> bit (0x101 :: u32) n \<and> (\<forall>f. \<not> bit (sources_of (ic_manager ?s) f) n)"
    "ic_raw s' = 0" "ic_enable s' = 0x101 AND NOT orph" "ic_orphans s' = orph"
    by (auto simp: dispatched_def serving_def icu_clear_def Let_def)
  have "bit orph n \<longleftrightarrow> bit (0x101 :: u32) n \<and> \<not> bit (1 :: u32) n" for n using r(2) [of n] by (auto simp: sources_of_def)
  then have "orph = 0x101 AND NOT 1" by (intro bit_word_eqI) (simp only: bit_and_iff bit_not_iff, simp)
  then show ?thesis using r by simp
qed

text \<open>A sequence of registrations, and the sources each handler should serve after it.\<close>

datatype intc_op = Reg u32 nat | Unreg u32 nat

fun intc_ops :: "intc_op list \<Rightarrow> handlers_collection \<Rightarrow> handlers_collection option" where
  "intc_ops [] c = Some c"
| "intc_ops (Reg s f # ops) c = register_handler c s f \<bind> intc_ops ops"
| "intc_ops (Unreg s f # ops) c = intc_ops ops (snd (unregister_handler c s f))"

fun served :: "intc_op list \<Rightarrow> (nat \<Rightarrow> u32) \<Rightarrow> nat \<Rightarrow> u32" where
  "served [] m = m"
| "served (Reg s f # ops) m = served ops (m(f := m f OR s))"
| "served (Unreg s f # ops) m = served ops (m(f := m f AND NOT s))"

lemma intc_ops_served:
  "collection_ok c \<Longrightarrow> intc_ops ops c = Some c' \<Longrightarrow> collection_ok c' \<and> sources_of c' = served ops (sources_of c)"
proof (induction ops c arbitrary: rule: intc_ops.induct)
  case (2 s f ops c)
  then obtain c1 where c1: "register_handler c s f = Some c1" "intc_ops ops c1 = Some c'" by (auto split: bind_splits)
  then show ?case using 2 intc_table.register_law [OF "2.prems"(1) c1(1)] by auto
next
  case (3 s f ops c)
  have u: "collection_ok (snd (unregister_handler c s f))"
    "sources_of (snd (unregister_handler c s f)) = (sources_of c)(f := sources_of c f AND NOT s)"
    using intc_table.unregister_law [OF "3.prems"(1), of s f] by auto
  have "intc_ops ops (snd (unregister_handler c s f)) = Some c'" using "3.prems"(2) by simp
  from "3.IH" [OF u(1) this] show ?case unfolding u(2) by (simp add: fun_upd_def)
qed simp

text \<open>Registering and unregistering: after any sequence of both from the empty table, a handler serves exactly the
  sources registered for it and not unregistered since, and the dispatcher's mask is what some handler serves.\<close>

theorem intc_registration:
  assumes "intc_ops ops \<lparr>hc_handled_mask = 0, hc_handlers = []\<rparr> = Some c"
  shows "sources_of c = served ops (\<lambda>_. 0) \<and> collection_ok c
    \<and> (\<forall>n. bit (hc_handled_mask c) n \<longleftrightarrow> (\<exists>f. bit (served ops (\<lambda>_. 0) f) n))"
proof -
  have "collection_ok \<lparr>hc_handled_mask = 0, hc_handlers = []\<rparr>" by (simp add: collection_ok_def)
  moreover have "sources_of \<lparr>hc_handled_mask = 0, hc_handlers = []\<rparr> = (\<lambda>_. 0)" by (simp add: sources_of_def fun_eq_iff)
  ultimately have c: "collection_ok c" "sources_of c = served ops (\<lambda>_. 0)"
    using intc_ops_served [OF _ assms] by (simp_all only:)
  then show ?thesis using intc_table.handled_iff [OF c(1)] by simp
qed

theorem intc_registration_witness:
  "\<exists>c. intc_ops [Reg 1 5, Reg 4 5, Reg 2 6, Unreg 1 5] \<lparr>hc_handled_mask = 0, hc_handlers = []\<rparr> = Some c
     \<and> sources_of c 5 = 4 \<and> hc_handled_mask c = 6"
proof -
  let ?ops = "[Reg 1 5, Reg 4 5, Reg 2 6, Unreg 1 5]"
  obtain c where c: "intc_ops ?ops \<lparr>hc_handled_mask = 0, hc_handlers = []\<rparr> = Some c" "hc_handled_mask c = 6"
    by (simp add: register_handler_def unregister_handler_def recompute_handled_mask_def Let_def)
  then show ?thesis using intc_registration [OF c(1)] by auto
qed

end
