(* ===== verification/Gpio.thy ===== *)
theory Gpio
  imports Prelude
begin

text \<open>
  Pins and peripheral clocks: \<open>src/src/platform/drivers/hardware_gpio/gpio.c\<close> on the registers of
  \<open>src/src/platform/soc/bk7221u/include/soc/gpio.h\<close>, and the inline functions of
  \<open>src/src/platform/drivers/hardware_icu/include/hardware/icu.h\<close> the serial ports use. Routing a peripheral function to
  its pins is shown to set exactly those pins and to leave every other pin as it is.
\<close>

section \<open>Registers\<close>

abbreviation GPIO_NUM_MAX :: u8 where "GPIO_NUM_MAX \<equiv> 39"

text \<open>The bits of a pin register from bit 0 on; the reserved bits are written as 0.\<close>

record hw_gpio_pin =
  pin_input           :: bool
  pin_output          :: bool
  pin_input_enable    :: bool
  pin_output_enable   :: bool
  pin_pull_mode       :: bool
  pin_pull_enable     :: bool
  pin_function_enable :: bool
  pin_input_monitor   :: bool

definition pin_value :: "hw_gpio_pin \<Rightarrow> u32" where
  "pin_value p = horner_sum of_bool 2 [pin_input p, pin_output p, pin_input_enable p, pin_output_enable p, pin_pull_mode p,
     pin_pull_enable p, pin_function_enable p, pin_input_monitor p]"

text \<open>\<open>hw_write_fields\<close> writes 0 to the fields it does not name.\<close>

definition pin_zero :: hw_gpio_pin where
  "pin_zero = \<lparr>pin_input = False, pin_output = False, pin_input_enable = False, pin_output_enable = False, pin_pull_mode = False,
     pin_pull_enable = False, pin_function_enable = False, pin_input_monitor = False\<rparr>"

record hw_gpio =
  gp_pin_cfg    :: "hw_gpio_pin list"
  gp_func_mux_1 :: u32
  gp_func_mux_2 :: u32
  gp_func_mux_3 :: u32
  gp_pin_cfg2   :: "hw_gpio_pin list"

definition get_gpio_reg :: "u8 \<Rightarrow> hw_gpio \<Rightarrow> hw_gpio_pin" where
  "get_gpio_reg gpio h = (if gpio > 31 then gp_pin_cfg2 h ! unat (gpio - 32) else gp_pin_cfg h ! unat gpio)"

definition set_gpio_reg :: "u8 \<Rightarrow> hw_gpio_pin \<Rightarrow> hw_gpio \<Rightarrow> hw_gpio" where
  "set_gpio_reg gpio p h =
     (if gpio > 31 then h\<lparr>gp_pin_cfg2 := (gp_pin_cfg2 h)[unat (gpio - 32) := p]\<rparr>
      else h\<lparr>gp_pin_cfg := (gp_pin_cfg h)[unat gpio := p]\<rparr>)"

section \<open>Pins\<close>

datatype gpio_dir = GPIO_IN | GPIO_OUT | GPIO_IN_PULLUP | GPIO_IN_PULLDOWN | GPIO_SECOND_FUNC | GPIO_SECOND_FUNC_PULLUP
  | GPIO_HIGH_IMPEDANCE

fun dir_pin :: "gpio_dir \<Rightarrow> hw_gpio_pin" where
  "dir_pin GPIO_OUT = pin_zero"
| "dir_pin GPIO_IN = pin_zero\<lparr>pin_input_enable := True, pin_output_enable := True\<rparr>"
| "dir_pin GPIO_IN_PULLUP =
     pin_zero\<lparr>pin_input_enable := True, pin_output_enable := True, pin_pull_enable := True, pin_pull_mode := True\<rparr>"
| "dir_pin GPIO_IN_PULLDOWN = pin_zero\<lparr>pin_input_enable := True, pin_output_enable := True, pin_pull_enable := True\<rparr>"
| "dir_pin GPIO_SECOND_FUNC = pin_zero\<lparr>pin_output_enable := True, pin_function_enable := True\<rparr>"
| "dir_pin GPIO_SECOND_FUNC_PULLUP =
     pin_zero\<lparr>pin_output_enable := True, pin_function_enable := True, pin_pull_enable := True, pin_pull_mode := True\<rparr>"
| "dir_pin GPIO_HIGH_IMPEDANCE = pin_zero\<lparr>pin_output_enable := True\<rparr>"

definition gpio_config :: "u8 \<Rightarrow> gpio_dir \<Rightarrow> hw_gpio \<Rightarrow> hw_gpio" where
  "gpio_config gpio dir h = (if gpio > GPIO_NUM_MAX then h else set_gpio_reg gpio (dir_pin dir) h)"

definition gpio_get :: "u8 \<Rightarrow> hw_gpio \<Rightarrow> u8" where
  "gpio_get gpio h = (if gpio > GPIO_NUM_MAX then 0 else of_bool (pin_input (get_gpio_reg gpio h)))"

definition gpio_put :: "u8 \<Rightarrow> bool \<Rightarrow> hw_gpio \<Rightarrow> hw_gpio" where
  "gpio_put gpio v h =
     (if gpio > GPIO_NUM_MAX then h else set_gpio_reg gpio ((get_gpio_reg gpio h)\<lparr>pin_output := v\<rparr>) h)"

definition gpio_toggle :: "u8 \<Rightarrow> hw_gpio \<Rightarrow> hw_gpio" where
  "gpio_toggle gpio h =
     (if gpio > GPIO_NUM_MAX then h
      else set_gpio_reg gpio ((get_gpio_reg gpio h)\<lparr>pin_output := \<not> pin_output (get_gpio_reg gpio h)\<rparr>) h)"

section \<open>Functions\<close>

datatype gpio_func = GPIO_FUNC_INVALID | GPIO_FUNC_UART1 | GPIO_FUNC_UART1_EXTENDED | GPIO_FUNC_UART2 | GPIO_FUNC_I2C1
  | GPIO_FUNC_I2C2 | GPIO_FUNC_JTAG | GPIO_FUNC_DCMI | GPIO_FUNC_CLK13M | GPIO_FUNC_CLK26M | GPIO_FUNC_PWM0 | GPIO_FUNC_PWM1
  | GPIO_FUNC_PWM2 | GPIO_FUNC_PWM3 | GPIO_FUNC_PWM4 | GPIO_FUNC_PWM5 | GPIO_FUNC_ADC1 | GPIO_FUNC_ADC2 | GPIO_FUNC_ADC3
  | GPIO_FUNC_ADC4 | GPIO_FUNC_ADC5 | GPIO_FUNC_ADC6

record gpio_func_map_entry =
  fm_gpio_from :: u8
  fm_gpio_to   :: u8
  fm_mode      :: u32
  fm_gpio_dir  :: gpio_dir

abbreviation entry :: "u8 \<Rightarrow> u8 \<Rightarrow> u32 \<Rightarrow> gpio_dir \<Rightarrow> gpio_func_map_entry option" where
  "entry a b m d \<equiv> Some \<lparr>fm_gpio_from = a, fm_gpio_to = b, fm_mode = m, fm_gpio_dir = d\<rparr>"

text \<open>\<open>None\<close> for \<open>GPIO_FUNC_INVALID\<close> and past the end of the table.\<close>

fun gpio_func_map :: "gpio_func \<Rightarrow> gpio_func_map_entry option" where
  "gpio_func_map GPIO_FUNC_UART1 = entry 10 11 0 GPIO_SECOND_FUNC_PULLUP"
| "gpio_func_map GPIO_FUNC_UART1_EXTENDED = entry 10 13 0 GPIO_SECOND_FUNC_PULLUP"
| "gpio_func_map GPIO_FUNC_UART2 = entry 0 1 0 GPIO_SECOND_FUNC_PULLUP"
| "gpio_func_map GPIO_FUNC_I2C1 = entry 20 21 0 GPIO_SECOND_FUNC_PULLUP"
| "gpio_func_map GPIO_FUNC_I2C2 = entry 0 1 1 GPIO_SECOND_FUNC_PULLUP"
| "gpio_func_map GPIO_FUNC_JTAG = entry 20 23 1 GPIO_SECOND_FUNC"
| "gpio_func_map GPIO_FUNC_DCMI = entry 27 39 0 GPIO_SECOND_FUNC"
| "gpio_func_map GPIO_FUNC_CLK13M = entry 6 6 0 GPIO_SECOND_FUNC"
| "gpio_func_map GPIO_FUNC_CLK26M = entry 22 22 0 GPIO_SECOND_FUNC"
| "gpio_func_map GPIO_FUNC_PWM0 = entry 6 6 1 GPIO_SECOND_FUNC"
| "gpio_func_map GPIO_FUNC_PWM1 = entry 7 7 1 GPIO_SECOND_FUNC"
| "gpio_func_map GPIO_FUNC_PWM2 = entry 8 8 1 GPIO_SECOND_FUNC"
| "gpio_func_map GPIO_FUNC_PWM3 = entry 9 9 1 GPIO_SECOND_FUNC"
| "gpio_func_map GPIO_FUNC_PWM4 = entry 24 24 1 GPIO_SECOND_FUNC"
| "gpio_func_map GPIO_FUNC_PWM5 = entry 26 26 1 GPIO_SECOND_FUNC"
| "gpio_func_map _ = None"

definition mux_field :: "u8 \<Rightarrow> u32 \<Rightarrow> u32 \<Rightarrow> u32" where
  "mux_field gpio mode reg =
     (let shift = unat (gpio mod 16) * 2 in (reg AND NOT (push_bit shift 3)) OR push_bit shift (mode AND 3))"

definition gpio_set_func_mode :: "u8 \<Rightarrow> u32 \<Rightarrow> hw_gpio \<Rightarrow> hw_gpio" where
  "gpio_set_func_mode gpio mode h =
     (if gpio div 16 = 0 then h\<lparr>gp_func_mux_1 := mux_field gpio mode (gp_func_mux_1 h)\<rparr>
      else if gpio div 16 = 1 then h\<lparr>gp_func_mux_2 := mux_field gpio mode (gp_func_mux_2 h)\<rparr>
      else h\<lparr>gp_func_mux_3 := mux_field gpio mode (gp_func_mux_3 h)\<rparr>)"

text \<open>The body of \<open>for (gpio = from; gpio <= to; gpio++)\<close>; every entry of the table ends below 255, where the
  \<open>unsigned char\<close> would wrap.\<close>

definition func_pin :: "gpio_func \<Rightarrow> gpio_func_map_entry \<Rightarrow> u8 \<Rightarrow> hw_gpio \<Rightarrow> hw_gpio" where
  "func_pin func e gpio h =
     (if func = GPIO_FUNC_DCMI \<and> gpio = 28 then h
      else gpio_set_func_mode gpio (fm_mode e) (gpio_config gpio (fm_gpio_dir e) h))"

definition gpio_config_function :: "gpio_func \<Rightarrow> hw_gpio \<Rightarrow> hw_gpio" where
  "gpio_config_function func h =
     (case gpio_func_map func of
        None \<Rightarrow> h
      | Some e \<Rightarrow> fold (func_pin func e) (map of_nat [unat (fm_gpio_from e)..<Suc (unat (fm_gpio_to e))]) h)"

section \<open>Peripheral clocks\<close>

text \<open>The bits of the two clock registers the serial ports use, indexed by port.\<close>

record hw_icu =
  icu_clk_mux :: "bool list"
  icu_clk_pwd :: "bool list"

definition icu_uart_clk :: "nat \<Rightarrow> bool \<Rightarrow> hw_icu \<Rightarrow> hw_icu" where
  "icu_uart_clk p xtal h = h\<lparr>icu_clk_mux := (icu_clk_mux h)[p := xtal]\<rparr>"

definition icu_uart_power_up :: "nat \<Rightarrow> hw_icu \<Rightarrow> hw_icu" where
  "icu_uart_power_up p h = h\<lparr>icu_clk_pwd := (icu_clk_pwd h)[p := False]\<rparr>"

definition icu_uart_power_down :: "nat \<Rightarrow> hw_icu \<Rightarrow> hw_icu" where
  "icu_uart_power_down p h = h\<lparr>icu_clk_pwd := (icu_clk_pwd h)[p := True]\<rparr>"

section \<open>What a pin is set to\<close>

definition gpio_ok :: "hw_gpio \<Rightarrow> bool" where
  "gpio_ok h \<longleftrightarrow> length (gp_pin_cfg h) = 32 \<and> length (gp_pin_cfg2 h) = 8"

text \<open>The two bits of the function select registers that belong to a pin.\<close>

definition pin_func :: "u8 \<Rightarrow> hw_gpio \<Rightarrow> u32" where
  "pin_func gpio h =
     take_bit 2 (drop_bit (unat (gpio mod 16) * 2)
       (if gpio div 16 = 0 then gp_func_mux_1 h else if gpio div 16 = 1 then gp_func_mux_2 h else gp_func_mux_3 h))"

lemma unat_div_mod_16: "unat (x div 16) = unat x div 16" "unat (x mod 16) = unat x mod 16" for x :: u8
  by (simp_all add: unat_div unat_mod)

lemma get_set_gpio_reg:
  assumes "gpio_ok h" "p \<le> GPIO_NUM_MAX" "g \<le> GPIO_NUM_MAX"
  shows "get_gpio_reg p (set_gpio_reg g x h) = (if p = g then x else get_gpio_reg p h)" "gpio_ok (set_gpio_reg g x h)"
proof -
  have s: "unat (q - 32) = unat q - 32" if "31 < q" for q :: u8
    using that by (subst unat_sub) (auto simp: word_less_nat_alt word_le_nat_alt)
  show "gpio_ok (set_gpio_reg g x h)" using assms(1) by (simp add: gpio_ok_def set_gpio_reg_def)
  show "get_gpio_reg p (set_gpio_reg g x h) = (if p = g then x else get_gpio_reg p h)"
    using assms s [of p] s [of g]
    by (auto simp: get_gpio_reg_def set_gpio_reg_def gpio_ok_def nth_list_update word_unat_eq_iff word_le_nat_alt word_less_nat_alt)
qed

lemma mux_field_bits:
  assumes "i < 16" "n < 2"
  shows "bit (mux_field g m r) (i * 2 + n) \<longleftrightarrow> (if i = unat (g mod 16) then bit m n else bit r (i * 2 + n))"
proof -
  have three: "(3 :: u32) = mask 2" by (simp add: mask_eq_exp_minus_1)
  have len: "i * 2 + n < 32" using assms by simp
  let ?s = "unat (g mod 16) * 2"
  have r: "?s \<le> i * 2 + n \<and> i * 2 + n - ?s < 2 \<longleftrightarrow> i = unat (g mod 16)" using assms(2) by auto
  show ?thesis using len r assms(2) unfolding mux_field_def Let_def three
    by (auto simp: bit_and_iff bit_or_iff bit_not_iff bit_push_bit_iff bit_mask_iff)
qed

lemma pin_func_set:
  assumes "p \<le> GPIO_NUM_MAX" "g \<le> GPIO_NUM_MAX"
  shows "pin_func p (gpio_set_func_mode g m h) = (if p = g then m AND 3 else pin_func p h)"
proof -
  have i: "unat (q mod 16) < 16" for q :: u8 by (simp add: unat_div_mod_16)
  have eq: "p = g \<longleftrightarrow> p div 16 = g div 16 \<and> unat (p mod 16) = unat (g mod 16)"
    unfolding word_unat_eq_iff unat_div_mod_16 by (metis div_mult_mod_eq)
  have r: "x div 16 = 0 \<or> x div 16 = 1 \<or> x div 16 = 2" if "x \<le> GPIO_NUM_MAX" for x :: u8
  proof -
    have "unat x div 16 < 3" using that by (simp add: word_le_nat_alt)
    then have "unat (x div 16) = 0 \<or> unat (x div 16) = 1 \<or> unat (x div 16) = 2" unfolding unat_div_mod_16 by linarith
    then show ?thesis by (simp add: word_unat_eq_iff)
  qed
  have three: "(3 :: u32) = mask 2" by (simp add: mask_eq_exp_minus_1)
  have f: "take_bit 2 (drop_bit (unat (q mod 16) * 2) (mux_field g m v))
      = (if unat (q mod 16) = unat (g mod 16) then m AND 3 else take_bit 2 (drop_bit (unat (q mod 16) * 2) v))" for q :: u8 and v
  proof (rule bit_word_eqI)
    fix n assume "n < LENGTH(32)"
    show "bit (take_bit 2 (drop_bit (unat (q mod 16) * 2) (mux_field g m v))) n
      = bit (if unat (q mod 16) = unat (g mod 16) then m AND 3 else take_bit 2 (drop_bit (unat (q mod 16) * 2) v)) n"
      using mux_field_bits [OF i [of q], of n g m v] unfolding three
      by (auto simp: bit_take_bit_iff bit_drop_bit_eq bit_and_iff bit_mask_iff)
  qed
  show ?thesis using r [OF assms(1)] r [OF assms(2)] unfolding eq
    by (auto simp: pin_func_def gpio_set_func_mode_def f)
qed

lemma pins_of_set_func_mode [simp]:
  "get_gpio_reg p (gpio_set_func_mode g m h) = get_gpio_reg p h" "gpio_ok (gpio_set_func_mode g m h) = gpio_ok h"
  by (simp_all add: gpio_set_func_mode_def get_gpio_reg_def gpio_ok_def)

lemma pin_func_set_reg [simp]: "pin_func p (set_gpio_reg g x h) = pin_func p h"
  by (simp add: pin_func_def set_gpio_reg_def)

lemma func_pin_effect:
  assumes "gpio_ok h" "p \<le> GPIO_NUM_MAX" "g \<le> GPIO_NUM_MAX"
  shows "gpio_ok (func_pin func e g h)"
    and "get_gpio_reg p (func_pin func e g h) =
      (if p = g \<and> \<not> (func = GPIO_FUNC_DCMI \<and> p = 28) then dir_pin (fm_gpio_dir e) else get_gpio_reg p h)"
    and "pin_func p (func_pin func e g h) = (if p = g \<and> \<not> (func = GPIO_FUNC_DCMI \<and> p = 28) then fm_mode e AND 3 else pin_func p h)"
  using assms by (auto simp: func_pin_def gpio_config_def get_set_gpio_reg pin_func_set)

lemma func_pins_effect:
  assumes "gpio_ok h" "p \<le> GPIO_NUM_MAX" "\<forall>g \<in> set gs. g \<le> GPIO_NUM_MAX"
  shows "gpio_ok (fold (func_pin func e) gs h)"
    and "get_gpio_reg p (fold (func_pin func e) gs h) =
      (if p \<in> set gs \<and> \<not> (func = GPIO_FUNC_DCMI \<and> p = 28) then dir_pin (fm_gpio_dir e) else get_gpio_reg p h)"
    and "pin_func p (fold (func_pin func e) gs h) =
      (if p \<in> set gs \<and> \<not> (func = GPIO_FUNC_DCMI \<and> p = 28) then fm_mode e AND 3 else pin_func p h)"
  using assms by (induction gs arbitrary: h) (auto simp: func_pin_effect)

section \<open>Theorems\<close>

text \<open>Routing a function to its pins sets exactly the pins the table names (for the camera interface all of 27 to 39 but
  28): their register gets the direction's value and their two select bits the mode; every other pin keeps both.\<close>

theorem gpio_config_function_exact:
  assumes "gpio_ok h" "p \<le> GPIO_NUM_MAX" "gpio_func_map func = Some e"
  shows "let h' = gpio_config_function func h;
             routed = (fm_gpio_from e \<le> p \<and> p \<le> fm_gpio_to e \<and> \<not> (func = GPIO_FUNC_DCMI \<and> p = 28))
         in get_gpio_reg p h' = (if routed then dir_pin (fm_gpio_dir e) else get_gpio_reg p h)
          \<and> pin_func p h' = (if routed then fm_mode e else pin_func p h) \<and> gpio_ok h'"
proof -
  let ?gs = "map of_nat [unat (fm_gpio_from e)..<Suc (unat (fm_gpio_to e))] :: u8 list"
  have t: "fm_gpio_to e \<le> GPIO_NUM_MAX" "fm_mode e AND 3 = fm_mode e" using assms(3) by (cases func; force)+
  have gs: "g \<in> set ?gs \<longleftrightarrow> fm_gpio_from e \<le> g \<and> g \<le> fm_gpio_to e" for g
  proof
    assume "fm_gpio_from e \<le> g \<and> g \<le> fm_gpio_to e"
    then show "g \<in> set ?gs" by (auto simp: word_le_nat_alt simp del: upt_Suc intro!: image_eqI [of _ _ "unat g"])
  next
    assume "g \<in> set ?gs"
    then obtain n where n: "g = of_nat n" "unat (fm_gpio_from e) \<le> n" "n \<le> unat (fm_gpio_to e)" by (auto simp del: upt_Suc)
    then have "n < 256" using t(1) by (simp add: word_le_nat_alt)
    then have "unat g = n" using n(1) by (simp add: unat_of_nat)
    then show "fm_gpio_from e \<le> g \<and> g \<le> fm_gpio_to e" using n by (simp add: word_le_nat_alt)
  qed
  have "\<forall>g \<in> set ?gs. g \<le> GPIO_NUM_MAX" using gs t(1) by (meson order_trans)
  then show ?thesis using func_pins_effect [OF assms(1,2), of ?gs func e] gs [of p] t(2) assms(3)
    by (auto simp add: gpio_config_function_def Let_def simp del: upt_Suc set_map set_upt)
qed

theorem gpio_config_function_exact_witness:
  "let h = \<lparr>gp_pin_cfg = replicate 32 pin_zero, gp_func_mux_1 = 0xFFFFFFFF, gp_func_mux_2 = 0, gp_func_mux_3 = 0,
            gp_pin_cfg2 = replicate 8 pin_zero\<rparr>;
       h' = gpio_config_function GPIO_FUNC_UART1 h
   in get_gpio_reg 11 h' = dir_pin GPIO_SECOND_FUNC_PULLUP \<and> pin_func 11 h' = 0"
  unfolding Let_def
  using gpio_config_function_exact [of "\<lparr>gp_pin_cfg = replicate 32 pin_zero, gp_func_mux_1 = 0xFFFFFFFF, gp_func_mux_2 = 0,
      gp_func_mux_3 = 0, gp_pin_cfg2 = replicate 8 pin_zero\<rparr>" 11 GPIO_FUNC_UART1]
  by (simp add: gpio_ok_def Let_def)

text \<open>The register values the comments of \<open>gpio_config\<close> give.\<close>

lemma dir_pin_values:
  "pin_value (dir_pin GPIO_IN_PULLUP) = 0x3C" "pin_value (dir_pin GPIO_IN_PULLDOWN) = 0x2C" "pin_value (dir_pin GPIO_SECOND_FUNC) = 0x48"
  "pin_value (dir_pin GPIO_SECOND_FUNC_PULLUP) = 0x78" "pin_value (dir_pin GPIO_HIGH_IMPEDANCE) = 0x08"
  by (simp_all add: pin_value_def pin_zero_def)

end
