(* ===== verification/Uart.thy ===== *)
theory Uart
  imports Ring_Buffer Intc Gpio
begin

text \<open>
  The serial ports, \<open>src/src/platform/drivers/hardware_uart/uart.c\<close>, on the registers of
  \<open>src/src/platform/soc/bk7221u/include/soc/uart.h\<close>. Output goes to the hardware FIFO, directly while there is room and
  through a ring buffer that the interrupt empties otherwise. What happens around a wait (the hardware sends a byte, the
  interrupt runs, another task prints) is a schedule, one list of events for each time the code looks again; inside a
  section with interrupts masked only the hardware's events take effect. The bytes sent, those in the FIFO and those in
  the queue together are the stream, which every operation is shown to extend in order; waits are loops that need not
  end, and they are shown to end when the hardware keeps sending.
\<close>

section \<open>Registers\<close>

record uart_config =
  uc_tx_enable       :: bool
  uc_rx_enable       :: bool
  uc_irda            :: bool
  uc_data_length     :: "2 word"
  uc_parity_enable   :: bool
  uc_parity_odd_mode :: bool
  uc_stop_length_2   :: bool
  uc_clk_divider     :: "13 word"

record uart_fifo_config =
  fc_tx_fifo_threshold   :: u8
  fc_rx_fifo_threshold   :: u8
  fc_rx_stop_detect_time :: "2 word"

text \<open>A port: its registers, with the FIFOs behind them, and \<open>p->tx->ring\<close>. \<open>u_wire\<close> is what has been sent. \<open>u_irq_on\<close> is
  whether the core takes interrupts, \<open>u_clock\<close> the number of the next entry of the schedule.\<close>

record uart =
  u_config        :: uart_config
  u_fifo_config   :: uart_fifo_config
  u_irq_enable    :: u32
  u_irq_status    :: u32
  u_flow_config   :: u32
  u_wakeup_config :: u32
  u_tx_fifo       :: bytes
  u_rx_fifo       :: bytes
  u_wire          :: bytes
  u_ring          :: "ringbuf option"
  u_irq_source    :: u32
  u_irq_on        :: bool
  u_intc          :: intc_state
  u_clock         :: nat

abbreviation TX_FIFO_DEPTH :: nat where "TX_FIFO_DEPTH \<equiv> 128"
abbreviation DEFAULT_CLK_HZ :: u32 where "DEFAULT_CLK_HZ \<equiv> 26000000"

abbreviation tx_need_write :: "uart \<Rightarrow> bool" where "tx_need_write s \<equiv> bit (u_irq_enable s) 0"

text \<open>Writing \<open>fifo_data\<close>: a byte written to a full FIFO is lost.\<close>

definition fifo_put :: "u8 \<Rightarrow> uart \<Rightarrow> uart" where
  "fifo_put b s = (if length (u_tx_fifo s) < TX_FIFO_DEPTH then s\<lparr>u_tx_fifo := u_tx_fifo s @ [b]\<rparr> else s)"

section \<open>Operations\<close>

definition uart_reset :: "uart \<Rightarrow> uart" where
  "uart_reset s =
     (let baud_div = DEFAULT_CLK_HZ div 115200;
          s = s\<lparr>u_config := \<lparr>uc_tx_enable = True, uc_rx_enable = True, uc_irda = False, uc_data_length = 3, uc_parity_enable = False,
                uc_parity_odd_mode = False, uc_stop_length_2 = False, uc_clk_divider = ucast baud_div\<rparr>\<rparr>;
          s = s\<lparr>u_fifo_config := \<lparr>fc_tx_fifo_threshold = 0x40, fc_rx_fifo_threshold = 0x10, fc_rx_stop_detect_time = 0\<rparr>\<rparr>;
          s = s\<lparr>u_flow_config := 0, u_wakeup_config := 0\<rparr>;
          s = s\<lparr>u_irq_enable := 0\<rparr>
      in s\<lparr>u_irq_status := u_irq_status s AND NOT (u_irq_status s)\<rparr>)"

definition uart_is_tx_active :: "uart \<Rightarrow> bool" where
  "uart_is_tx_active s = uc_tx_enable (u_config s)"

text \<open>Reading \<open>fifo_data\<close> takes the byte out of the FIFO.\<close>

definition uart_read_byte :: "uart \<Rightarrow> int \<times> uart" where
  "uart_read_byte s =
     (case u_rx_fifo s of [] \<Rightarrow> (- 1, s) | b # bs \<Rightarrow> (uint b, s\<lparr>u_rx_fifo := bs\<rparr>))"

text \<open>\<open>wr_ready\<close> is on while the FIFO holds fewer than \<open>thr\<close> bytes; it goes off before the FIFO is full.\<close>

definition wr_ready :: "nat \<Rightarrow> uart \<Rightarrow> bool" where
  "wr_ready thr s \<longleftrightarrow> length (u_tx_fifo s) < thr"

definition uart_fifo_try_write :: "nat \<Rightarrow> u8 \<Rightarrow> uart \<Rightarrow> bool \<times> uart" where
  "uart_fifo_try_write thr b s = (if \<not> wr_ready thr s then (False, s) else (True, fifo_put b s))"

definition uart_tx_disarm :: "uart \<Rightarrow> uart" where
  "uart_tx_disarm s = (if \<not> tx_need_write s then s else s\<lparr>u_irq_enable := u_irq_enable s AND NOT 1\<rparr>)"

definition uart_tx_arm :: "uart \<Rightarrow> uart" where
  "uart_tx_arm s = (if tx_need_write s then s else s\<lparr>u_irq_enable := u_irq_enable s OR 1\<rparr>)"

text \<open>The interrupt: \<open>room\<close> is what the loop has left.\<close>

fun isr_loop :: "nat \<Rightarrow> uart \<Rightarrow> uart" where
  "isr_loop 0 s = s"
| "isr_loop (Suc room) s =
     (case u_ring s of
        None \<Rightarrow> s
      | Some ring \<Rightarrow>
          case ringbuf_get_byte ring of
            None \<Rightarrow> uart_tx_disarm s
          | Some (byte, ring) \<Rightarrow> isr_loop room (fifo_put byte (s\<lparr>u_ring := Some ring\<rparr>)))"

definition uart_isr :: "uart \<Rightarrow> uart" where
  "uart_isr s =
     (let s = s\<lparr>u_irq_status := u_irq_status s AND NOT (u_irq_status s)\<rparr>
      in if u_ring s = None then uart_tx_disarm s else isr_loop (TX_FIFO_DEPTH - length (u_tx_fifo s)) s)"

text \<open>What the masked section of \<open>uart_write_byte\<close> found.\<close>

datatype section_result = Detached | Accepted | Full

definition write_section :: "nat \<Rightarrow> u8 \<Rightarrow> uart \<Rightarrow> section_result \<times> uart" where
  "write_section thr byte s =
     (case u_ring s of
        None \<Rightarrow> (Detached, s)
      | Some ring \<Rightarrow>
          let (direct, s) = (if ringbuf_is_empty ring then uart_fifo_try_write thr byte s else (False, s))
          in if direct then (Accepted, s)
             else
               let (queued, ring) = ringbuf_put_byte ring byte; s = s\<lparr>u_ring := Some ring\<rparr>
               in if queued then (Accepted, uart_tx_arm s) else (Full, s))"

section \<open>What happens around a wait\<close>

datatype uart_ev = Sent | Irq | Print u8

definition irq_taken :: "bool \<Rightarrow> uart \<Rightarrow> bool" where
  "irq_taken masked s \<longleftrightarrow> \<not> masked \<and> u_irq_on s \<and> intc_irq_source_enabled (u_irq_source s) (u_intc s) \<and> tx_need_write s"

text \<open>\<open>Sent\<close>: the hardware sends a byte; \<open>Irq\<close>: the interrupt is taken if it is enabled and asserted; \<open>Print\<close>: another task
  runs the masked section of \<open>uart_write_byte\<close>.\<close>

definition uart_event :: "nat \<Rightarrow> bool \<Rightarrow> uart_ev \<Rightarrow> uart \<Rightarrow> uart" where
  "uart_event thr masked ev s =
     (case ev of
        Sent \<Rightarrow> (case u_tx_fifo s of [] \<Rightarrow> s | b # bs \<Rightarrow> s\<lparr>u_tx_fifo := bs, u_wire := u_wire s @ [b]\<rparr>)
      | Irq \<Rightarrow> if irq_taken masked s then uart_isr s else s
      | Print b \<Rightarrow> if masked \<or> \<not> u_irq_on s then s else snd (write_section thr b s))"

definition uart_tick :: "nat \<Rightarrow> (nat \<Rightarrow> uart_ev list) \<Rightarrow> bool \<Rightarrow> uart \<Rightarrow> uart" where
  "uart_tick thr sched masked s = fold (uart_event thr masked) (sched (u_clock s)) (s\<lparr>u_clock := u_clock s + 1\<rparr>)"

text \<open>\<open>while (!p);\<close>\<close>

partial_function (option) poll :: "nat \<Rightarrow> (nat \<Rightarrow> uart_ev list) \<Rightarrow> bool \<Rightarrow> (uart \<Rightarrow> bool) \<Rightarrow> uart \<Rightarrow> uart option" where
  "poll thr sched masked p s = (if p s then Some s else poll thr sched masked p (uart_tick thr sched masked s))"

section \<open>Operations that wait\<close>

definition uart_fifo_write_blocked :: "nat \<Rightarrow> (nat \<Rightarrow> uart_ev list) \<Rightarrow> bool \<Rightarrow> u8 \<Rightarrow> uart \<Rightarrow> uart option" where
  "uart_fifo_write_blocked thr sched masked byte s =
     do {
       s \<leftarrow> poll thr sched masked (wr_ready thr) s;
       Some (fifo_put byte s)
     }"

definition uart_fifo_wait_empty :: "nat \<Rightarrow> (nat \<Rightarrow> uart_ev list) \<Rightarrow> uart \<Rightarrow> uart option" where
  "uart_fifo_wait_empty thr sched s = poll thr sched False (\<lambda>s. u_tx_fifo s = []) s"

text \<open>The byte at the head of the queue, moved while interrupts are masked.\<close>

definition send_head :: "nat \<Rightarrow> (nat \<Rightarrow> uart_ev list) \<Rightarrow> uart \<Rightarrow> uart option" where
  "send_head thr sched s =
     (case u_ring s of
        None \<Rightarrow> Some s
      | Some ring \<Rightarrow>
          case ringbuf_get_byte ring of
            None \<Rightarrow> Some s
          | Some (byte, ring) \<Rightarrow> uart_fifo_write_blocked thr sched True byte (s\<lparr>u_ring := Some ring\<rparr>))"

partial_function (option) uart_tx_send_byte_blocked :: "nat \<Rightarrow> (nat \<Rightarrow> uart_ev list) \<Rightarrow> uart \<Rightarrow> uart option" where
  "uart_tx_send_byte_blocked thr sched s =
     do {
       s \<leftarrow> poll thr sched False (wr_ready thr) s;
       let s = uart_tick thr sched False s;
       if wr_ready thr s then send_head thr sched s
       else uart_tx_send_byte_blocked thr sched s
     }"

definition queue_empty :: "uart \<Rightarrow> bool" where
  "queue_empty s \<longleftrightarrow> (case u_ring s of None \<Rightarrow> True | Some ring \<Rightarrow> ringbuf_is_empty ring)"

partial_function (option) uart_flush_loop :: "nat \<Rightarrow> (nat \<Rightarrow> uart_ev list) \<Rightarrow> uart \<Rightarrow> uart option" where
  "uart_flush_loop thr sched s =
     (if queue_empty s then Some (uart_tx_disarm s)
      else do {
        s \<leftarrow> uart_tx_send_byte_blocked thr sched s;
        uart_flush_loop thr sched s
      })"

definition uart_tx_flush_queue :: "nat \<Rightarrow> (nat \<Rightarrow> uart_ev list) \<Rightarrow> uart \<Rightarrow> uart option" where
  "uart_tx_flush_queue thr sched s = (if queue_empty s then Some s else uart_flush_loop thr sched s)"

definition uart_set_tx_buffer :: "nat \<Rightarrow> (nat \<Rightarrow> uart_ev list) \<Rightarrow> ringbuf option \<Rightarrow> uart \<Rightarrow> uart option" where
  "uart_set_tx_buffer thr sched ring s =
     do {
       s \<leftarrow> uart_tx_flush_queue thr sched s;
       Some ((uart_tx_disarm s)\<lparr>u_ring := ring\<rparr>)
     }"

definition can_wake :: "uart \<Rightarrow> bool" where
  "can_wake s \<longleftrightarrow> (case u_ring s of None \<Rightarrow> False | Some ring \<Rightarrow> ringbuf_capacity ring > of_nat TX_FIFO_DEPTH)
     \<and> tx_need_write s \<and> intc_irq_source_enabled (u_irq_source s) (u_intc s)"

partial_function (option) write_loop :: "nat \<Rightarrow> (nat \<Rightarrow> uart_ev list) \<Rightarrow> u8 \<Rightarrow> uart \<Rightarrow> uart option" where
  "write_loop thr sched byte s =
     (case write_section thr byte s of
        (Detached, s) \<Rightarrow> uart_fifo_write_blocked thr sched False byte s
      | (Accepted, s) \<Rightarrow> Some s
      | (Full, s) \<Rightarrow>
          do {
            s \<leftarrow> (if can_wake s then Some (uart_tick thr sched False s) else uart_tx_send_byte_blocked thr sched s);
            write_loop thr sched byte s
          })"

text \<open>The number returned is always 1.\<close>

definition uart_write_byte :: "nat \<Rightarrow> (nat \<Rightarrow> uart_ev list) \<Rightarrow> u8 \<Rightarrow> uart \<Rightarrow> uart option" where
  "uart_write_byte thr sched byte s =
     (if u_ring s = None then uart_fifo_write_blocked thr sched False byte s
      else if \<not> u_irq_on s then
        do {
          s \<leftarrow> uart_tx_flush_queue thr sched s;
          uart_fifo_write_blocked thr sched False byte s
        }
      else write_loop thr sched byte s)"

definition uart_drain :: "nat \<Rightarrow> (nat \<Rightarrow> uart_ev list) \<Rightarrow> uart \<Rightarrow> uart option" where
  "uart_drain thr sched s =
     do {
       s \<leftarrow> uart_tx_flush_queue thr sched s;
       uart_fifo_wait_empty thr sched s
     }"

text \<open>\<open>None\<close> for a division by zero.\<close>

definition uart_set_baudrate :: "u32 \<Rightarrow> uart \<Rightarrow> uart option" where
  "uart_set_baudrate baudrate s =
     (if baudrate = 0 then None
      else Some (s\<lparr>u_config := (u_config s)\<lparr>uc_clk_divider := ucast (DEFAULT_CLK_HZ div baudrate)\<rparr>\<rparr>))"

text \<open>The bytes of the string up to its terminating zero.\<close>

fun uart_puts :: "nat \<Rightarrow> (nat \<Rightarrow> uart_ev list) \<Rightarrow> bytes \<Rightarrow> uart \<Rightarrow> (nat \<times> uart) option" where
  "uart_puts thr sched [] s = Some (0, s)"
| "uart_puts thr sched (c # cs) s =
     do {
       s \<leftarrow> uart_write_byte thr sched c s;
       (i, s) \<leftarrow> uart_puts thr sched cs s;
       Some (i + 1, s)
     }"

text \<open>\<open>uart1_init\<close> and \<open>uart2_init\<close>: \<open>p\<close> is the port, 0 or 1, \<open>func\<close> its pins and \<open>isr\<close> the address of its handler.\<close>

definition uart_init :: "nat \<Rightarrow> gpio_func \<Rightarrow> nat \<Rightarrow> uart \<Rightarrow> hw_gpio \<Rightarrow> hw_icu \<Rightarrow> (uart \<times> hw_gpio \<times> hw_icu) option" where
  "uart_init p func isr s g icu =
     do {
       let icu = icu_uart_power_down p icu;
       let g = gpio_config_function func g;
       let icu = icu_uart_clk p True icu;
       let icu = icu_uart_power_up p icu;
       let s = uart_reset s;
       ic \<leftarrow> intc_register_irq_handler (u_irq_source s) isr (u_intc s);
       Some (s\<lparr>u_intc := intc_enable_irq_source (u_irq_source s) ic\<rparr>, g, icu)
     }"

section \<open>The stream\<close>

definition queue :: "uart \<Rightarrow> bytes" where
  "queue s = (case u_ring s of None \<Rightarrow> [] | Some ring \<Rightarrow> rb_contents ring)"

definition stream :: "uart \<Rightarrow> bytes" where
  "stream s = u_wire s @ u_tx_fifo s @ queue s"

text \<open>The FIFO is within its depth, and the interrupt is armed while bytes are queued.\<close>

definition uart_ok :: "uart \<Rightarrow> bool" where
  "uart_ok s \<longleftrightarrow> length (u_tx_fifo s) \<le> TX_FIFO_DEPTH \<and> (\<forall>ring. u_ring s = Some ring \<longrightarrow> ringbuf_ok ring)
     \<and> (queue s \<noteq> [] \<longrightarrow> tx_need_write s)"

definition same_port :: "uart \<Rightarrow> uart \<Rightarrow> bool" where
  "same_port s s' \<longleftrightarrow> u_irq_on s' = u_irq_on s \<and> u_irq_source s' = u_irq_source s \<and> u_intc s' = u_intc s
     \<and> map_option rb_mask (u_ring s') = map_option rb_mask (u_ring s)"

lemma same_port_refl [simp]: "same_port s s"
  by (simp add: same_port_def)

lemma same_port_trans: "same_port s s' \<Longrightarrow> same_port s' s'' \<Longrightarrow> same_port s s''"
  by (simp add: same_port_def)

lemma ring_get:
  "ringbuf_ok r \<Longrightarrow> case ringbuf_get_byte r of
     None \<Rightarrow> rb_contents r = []
   | Some (b, r') \<Rightarrow> rb_contents r = b # rb_contents r' \<and> ringbuf_ok r' \<and> rb_mask r' = rb_mask r"
proof (cases "rb_contents r")
  case (Cons x xs)
  assume "ringbuf_ok r"
  then obtain r' where "ringbuf_get_byte r = Some (x, r')" "ringbuf_ok r'" "rb_contents r' = xs" using ring.get_some Cons by blast
  then show ?thesis using Cons by (auto simp: ringbuf_get_byte_def split: if_splits)
qed (simp add: ring.get_empty)

lemma ring_put:
  "ringbuf_ok r \<Longrightarrow> case ringbuf_put_byte r b of
     (ok, r') \<Rightarrow> if ok then 0 < rb_room r \<and> rb_contents r' = rb_contents r @ [b] \<and> ringbuf_ok r' \<and> rb_mask r' = rb_mask r
                else rb_room r = 0 \<and> r' = r"
proof (cases "rb_room r = 0")
  case False
  assume "ringbuf_ok r"
  then obtain r' where "ringbuf_put_byte r b = (True, r')" "ringbuf_ok r'" "rb_contents r' = rb_contents r @ [b]"
    using ring.put_room [of r b] False by auto
  then show ?thesis using False by (auto simp: ringbuf_put_byte_def split: if_splits)
qed (simp add: ring.put_full)

lemma ring_empty: "ringbuf_ok r \<Longrightarrow> ringbuf_is_empty r \<longleftrightarrow> rb_contents r = []"
  using length_rb_contents [of r] by (auto simp: ringbuf_is_empty_iff simp del: length_rb_contents)

lemma arm_simps [simp]:
  "u_tx_fifo (uart_tx_arm s) = u_tx_fifo s" "u_ring (uart_tx_arm s) = u_ring s" "u_wire (uart_tx_arm s) = u_wire s"
  "u_clock (uart_tx_arm s) = u_clock s" "tx_need_write (uart_tx_arm s)" "same_port s (uart_tx_arm s)"
  by (simp_all add: uart_tx_arm_def same_port_def bit_simps)

lemma disarm_simps [simp]:
  "u_tx_fifo (uart_tx_disarm s) = u_tx_fifo s" "u_ring (uart_tx_disarm s) = u_ring s" "u_wire (uart_tx_disarm s) = u_wire s"
  "u_clock (uart_tx_disarm s) = u_clock s" "same_port s (uart_tx_disarm s)"
  by (simp_all add: uart_tx_disarm_def same_port_def)

text \<open>The stream after a step: bytes other tasks printed meanwhile, in their order, then \<open>ys\<close>.\<close>

definition prints :: "uart_ev list \<Rightarrow> bytes" where
  "prints evs = concat (map (\<lambda>ev. case ev of Print b \<Rightarrow> [b] | _ \<Rightarrow> []) evs)"

definition printed :: "(nat \<Rightarrow> uart_ev list) \<Rightarrow> nat \<Rightarrow> nat \<Rightarrow> bytes" where
  "printed sched a b = concat (map (\<lambda>n. prints (sched n)) [a..<b])"

definition extends :: "(nat \<Rightarrow> uart_ev list) \<Rightarrow> uart \<Rightarrow> bytes \<Rightarrow> uart \<Rightarrow> bool" where
  "extends sched s ys s' \<longleftrightarrow> u_clock s \<le> u_clock s' \<and> same_port s s' \<and> uart_ok s'
     \<and> (\<exists>xs. subseq xs (printed sched (u_clock s) (u_clock s')) \<and> stream s' = stream s @ xs @ ys)"

lemma extends_refl: "uart_ok s \<Longrightarrow> extends sched s [] s"
  by (simp add: extends_def)

lemma extends_trans:
  assumes "extends sched s [] s'" "extends sched s' ys s''"
  shows "extends sched s ys s''"
proof -
  obtain xs xs' where x: "subseq xs (printed sched (u_clock s) (u_clock s'))" "stream s' = stream s @ xs"
    "subseq xs' (printed sched (u_clock s') (u_clock s''))" "stream s'' = stream s' @ xs' @ ys"
    using assms unfolding extends_def append_Nil2 by blast
  have le: "u_clock s \<le> u_clock s'" "u_clock s' \<le> u_clock s''" using assms by (simp_all add: extends_def)
  obtain k where "u_clock s'' = u_clock s' + k" using le(2) by (rule le_Suc_ex [THEN exE])
  then have "printed sched (u_clock s) (u_clock s'') = printed sched (u_clock s) (u_clock s') @ printed sched (u_clock s') (u_clock s'')"
    using upt_add_eq_append [OF le(1), of k] by (simp add: printed_def)
  then have "subseq (xs @ xs') (printed sched (u_clock s) (u_clock s''))" using list_emb_append_mono [OF x(1,3)] by simp
  moreover have "stream s'' = stream s @ (xs @ xs') @ ys" using x by simp
  moreover have "same_port s s''" "uart_ok s''" using assms same_port_trans [of s s' s''] by (simp_all add: extends_def)
  ultimately show ?thesis unfolding extends_def using le le_trans by blast
qed

section \<open>The interrupt\<close>

definition uart_pending :: "uart \<Rightarrow> nat" where
  "uart_pending s = length (u_tx_fifo s) + length (queue s)"

lemma isr_loop_effect:
  "uart_ok s \<Longrightarrow> u_ring s \<noteq> None \<Longrightarrow> length (u_tx_fifo s) + room \<le> TX_FIFO_DEPTH \<Longrightarrow>
     uart_ok (isr_loop room s) \<and> stream (isr_loop room s) = stream s \<and> u_clock (isr_loop room s) = u_clock s \<and> same_port s (isr_loop room s)
     \<and> uart_pending (isr_loop room s) = uart_pending s \<and> length (u_tx_fifo (isr_loop room s)) = min (length (u_tx_fifo s) + room) (uart_pending s)"
proof (induction room arbitrary: s)
  case 0
  then show ?case by (simp add: uart_pending_def)
next
  case (Suc room)
  then obtain r where r: "u_ring s = Some r" "ringbuf_ok r" by (auto simp: uart_ok_def)
  show ?case
  proof (cases "ringbuf_get_byte r")
    case None
    then have "queue s = []" using ring_get [OF r(2)] r(1) by (simp add: queue_def)
    then show ?thesis using Suc.prems r None by (auto simp: uart_ok_def stream_def queue_def uart_pending_def)
  next
    case (Some br)
    then obtain b r' where br: "br = (b, r')" "rb_contents r = b # rb_contents r'" "ringbuf_ok r'" "rb_mask r' = rb_mask r"
      using ring_get [OF r(2)] by (auto split: prod.splits)
    let ?s = "fifo_put b (s\<lparr>u_ring := Some r'\<rparr>)"
    have "uart_ok ?s \<and> stream ?s = stream s \<and> u_clock ?s = u_clock s \<and> same_port s ?s \<and> uart_pending ?s = uart_pending s
        \<and> length (u_tx_fifo ?s) = Suc (length (u_tx_fifo s)) \<and> u_ring ?s \<noteq> None"
      using Suc.prems r br by (auto simp: fifo_put_def uart_ok_def stream_def queue_def same_port_def uart_pending_def)
    moreover from this have "uart_ok (isr_loop room ?s) \<and> stream (isr_loop room ?s) = stream ?s \<and> u_clock (isr_loop room ?s) = u_clock ?s
        \<and> same_port ?s (isr_loop room ?s) \<and> uart_pending (isr_loop room ?s) = uart_pending ?s
        \<and> length (u_tx_fifo (isr_loop room ?s)) = min (length (u_tx_fifo ?s) + room) (uart_pending ?s)"
      using Suc.prems(3) by (intro Suc.IH) simp_all
    moreover have "isr_loop (Suc room) s = isr_loop room ?s" using r Some br by simp
    ultimately show ?thesis using same_port_trans by auto
  qed
qed

lemma uart_isr_effect:
  assumes "uart_ok s"
  shows "uart_ok (uart_isr s) \<and> stream (uart_isr s) = stream s \<and> u_clock (uart_isr s) = u_clock s \<and> same_port s (uart_isr s)
    \<and> uart_pending (uart_isr s) = uart_pending s
    \<and> length (u_tx_fifo (uart_isr s)) = (if u_ring s = None then length (u_tx_fifo s) else min TX_FIFO_DEPTH (uart_pending s))"
proof -
  let ?s = "s\<lparr>u_irq_status := u_irq_status s AND NOT (u_irq_status s)\<rparr>"
  have s: "uart_ok ?s" "stream ?s = stream s" "u_clock ?s = u_clock s" "same_port s ?s" "uart_pending ?s = uart_pending s" "u_tx_fifo ?s = u_tx_fifo s"
    using assms by (auto simp: uart_ok_def stream_def queue_def same_port_def uart_pending_def)
  show ?thesis
  proof (cases "u_ring s")
    case None
    then show ?thesis using s assms by (auto simp: uart_isr_def uart_ok_def stream_def queue_def uart_pending_def same_port_def uart_tx_disarm_def Let_def)
  next
    case (Some r)
    let ?n = "TX_FIFO_DEPTH - length (u_tx_fifo s)"
    have len: "length (u_tx_fifo s) \<le> TX_FIFO_DEPTH" using assms by (simp add: uart_ok_def)
    have i: "uart_isr s = isr_loop ?n ?s" using Some by (simp add: uart_isr_def)
    show ?thesis using isr_loop_effect [OF s(1), of ?n] Some s(2-) len same_port_trans [OF s(4)] unfolding i by simp
  qed
qed

section \<open>Events\<close>

lemma fifo_put_effect:
  assumes "uart_ok s" "length (u_tx_fifo s) < TX_FIFO_DEPTH" "queue s = []"
  shows "uart_ok (fifo_put b s)" "stream (fifo_put b s) = stream s @ [b]" "same_port s (fifo_put b s)" "u_clock (fifo_put b s) = u_clock s"
  using assms by (auto simp: fifo_put_def uart_ok_def stream_def queue_def same_port_def)

text \<open>The masked section of a write: a byte that is accepted is the last of the stream.\<close>

lemma write_section_effect:
  assumes "thr \<le> TX_FIFO_DEPTH" "uart_ok s" "write_section thr b s = (r, s')"
  shows "uart_ok s' \<and> same_port s s' \<and> u_clock s' = u_clock s \<and>
    (case r of Detached \<Rightarrow> u_ring s = None \<and> s' = s
     | Accepted \<Rightarrow> stream s' = stream s @ [b]
     | Full \<Rightarrow> s' = s \<and> (\<exists>ring. u_ring s = Some ring \<and> rb_room ring = 0))"
proof (cases "u_ring s")
  case None
  then show ?thesis using assms by (auto simp: write_section_def)
next
  case (Some ring)
  then have ok: "ringbuf_ok ring" using assms(2) by (simp add: uart_ok_def)
  show ?thesis
  proof (cases "ringbuf_is_empty ring \<and> wr_ready thr s")
    case True
    then have q: "queue s = []" "length (u_tx_fifo s) < TX_FIFO_DEPTH"
      using Some ring_empty [OF ok] assms(1) by (auto simp: queue_def wr_ready_def)
    have "(r, s') = (Accepted, fifo_put b s)" using assms(3) Some True by (simp add: write_section_def uart_fifo_try_write_def)
    then show ?thesis using fifo_put_effect [OF assms(2) q(2,1), of b] by simp
  next
    case False
    obtain qd ring' where p: "ringbuf_put_byte ring b = (qd, ring')" by (rule prod.exhaust)
    let ?s = "s\<lparr>u_ring := Some ring'\<rparr>"
    have "(if ringbuf_is_empty ring then uart_fifo_try_write thr b s else (False, s)) = (False, s)"
      using False by (simp add: uart_fifo_try_write_def)
    then have w: "(r, s') = (if qd then (Accepted, uart_tx_arm ?s) else (Full, ?s))"
      using assms(3) Some p by (cases qd) (simp_all add: write_section_def Let_def)
    show ?thesis
    proof (cases qd)
      case True
      then have q: "rb_contents ring' = rb_contents ring @ [b]" "ringbuf_ok ring'" "rb_mask ring' = rb_mask ring"
        using ring_put [OF ok, of b] p by simp_all
      have "same_port s (uart_tx_arm ?s)" using arm_simps(6) [of ?s] q(3) Some by (simp add: same_port_def)
      then show ?thesis using w True q Some assms(2) by (simp add: uart_ok_def stream_def queue_def)
    next
      case False
      then have "ring' = ring" "rb_room ring = 0" using ring_put [OF ok, of b] p by simp_all
      then have "s' = s" "r = Full" using w False Some by simp_all
      then show ?thesis using Some assms(2) \<open>rb_room ring = 0\<close> by simp
    qed
  qed
qed

lemma sent_effect:
  assumes "uart_ok s" "s' = uart_event thr masked Sent s"
  shows "uart_ok s' \<and> same_port s s' \<and> u_clock s' = u_clock s \<and> stream s' = stream s \<and> queue s' = queue s
    \<and> length (u_tx_fifo s') = length (u_tx_fifo s) - 1"
  using assms by (auto simp: uart_event_def uart_ok_def same_port_def stream_def queue_def split: list.splits)

lemma event_effect:
  assumes "thr \<le> TX_FIFO_DEPTH" "uart_ok s" "s' = uart_event thr masked ev s"
  shows "uart_ok s' \<and> same_port s s' \<and> u_clock s' = u_clock s \<and> (\<exists>xs. subseq xs (prints [ev]) \<and> stream s' = stream s @ xs)"
proof (cases ev)
  case Sent
  then show ?thesis using sent_effect [OF assms(2), of s' thr masked] assms(3) by (intro conjI exI [of _ "[]"]) simp_all
next
  case Irq
  then have "s' = uart_isr s \<or> s' = s" using assms(3) by (simp add: uart_event_def)
  then show ?thesis using uart_isr_effect [OF assms(2)] assms(2) by (elim disjE; intro conjI exI [of _ "[]"]; simp)
next
  case (Print b)
  obtain r s1 where w: "write_section thr b s = (r, s1)" by (rule prod.exhaust)
  show ?thesis
  proof (cases "masked \<or> \<not> u_irq_on s")
    case True
    then have "s' = s" using Print assms(3) by (simp add: uart_event_def)
    then show ?thesis using assms(2) by (intro conjI exI [of _ "[]"]) simp_all
  next
    case False
    then have "s' = s1" using Print assms(3) w by (simp add: uart_event_def)
    then have "uart_ok s'" "same_port s s'" "u_clock s' = u_clock s" "stream s' = stream s @ [b] \<or> stream s' = stream s"
      using write_section_effect [OF assms(1,2) w] by (cases r; simp)+
    moreover have "prints [ev] = [b]" using Print by (simp add: prints_def)
    ultimately show ?thesis by (metis append_Nil2 list_emb_Nil subseq_order.refl)
  qed
qed

lemma events_effect:
  assumes "thr \<le> TX_FIFO_DEPTH"
  shows "uart_ok s \<Longrightarrow> s' = fold (uart_event thr masked) evs s \<Longrightarrow>
    uart_ok s' \<and> same_port s s' \<and> u_clock s' = u_clock s \<and> (\<exists>xs. subseq xs (prints evs) \<and> stream s' = stream s @ xs)"
proof (induction evs arbitrary: s)
  case Nil
  then show ?case by auto
next
  case (Cons ev evs)
  define s1 where "s1 = uart_event thr masked ev s"
  obtain xs where 1: "uart_ok s1" "same_port s s1" "u_clock s1 = u_clock s" "subseq xs (prints [ev])" "stream s1 = stream s @ xs"
    using event_effect [OF assms Cons.prems(1) s1_def] by blast
  obtain ys where 2: "uart_ok s'" "same_port s1 s'" "u_clock s' = u_clock s1" "subseq ys (prints evs)" "stream s' = stream s1 @ ys"
    using Cons.IH [OF 1(1)] Cons.prems(2) s1_def by auto
  have "subseq (xs @ ys) (prints (ev # evs))" using list_emb_append_mono [OF 1(4) 2(4)] by (simp add: prints_def)
  moreover have "stream s' = stream s @ (xs @ ys)" using 1(5) 2(5) by simp
  ultimately show ?case using 1 2 same_port_trans [OF 1(2) 2(2)] by auto
qed

lemma clock_step: "uart_ok (s\<lparr>u_clock := n\<rparr>) = uart_ok s" "same_port (s\<lparr>u_clock := n\<rparr>) = same_port s"
  "stream (s\<lparr>u_clock := n\<rparr>) = stream s" "queue (s\<lparr>u_clock := n\<rparr>) = queue s" "uart_pending (s\<lparr>u_clock := n\<rparr>) = uart_pending s"
  by (simp_all add: uart_ok_def same_port_def stream_def queue_def uart_pending_def fun_eq_iff)

lemma tick_extends:
  assumes "thr \<le> TX_FIFO_DEPTH" "uart_ok s"
  shows "extends sched s [] (uart_tick thr sched masked s)" "u_clock (uart_tick thr sched masked s) = Suc (u_clock s)"
proof -
  let ?s = "s\<lparr>u_clock := u_clock s + 1\<rparr>"
  obtain xs where t: "uart_ok (uart_tick thr sched masked s)" "same_port s (uart_tick thr sched masked s)"
      "u_clock (uart_tick thr sched masked s) = Suc (u_clock s)" "subseq xs (prints (sched (u_clock s)))" "stream (uart_tick thr sched masked s) = stream s @ xs"
    using events_effect [OF assms(1), of ?s "uart_tick thr sched masked s" masked "sched (u_clock s)"] assms(2)
    by (auto simp: clock_step uart_tick_def)
  then show "extends sched s [] (uart_tick thr sched masked s)" by (auto simp: extends_def printed_def)
  show "u_clock (uart_tick thr sched masked s) = Suc (u_clock s)" by (rule t(3))
qed

text \<open>Nothing touches the queue of a port that takes no interrupts, or that has none.\<close>

lemma event_ring: "\<not> u_irq_on s \<or> u_ring s = None \<Longrightarrow> u_ring (uart_event thr masked ev s) = u_ring s \<and> u_irq_on (uart_event thr masked ev s) = u_irq_on s"
  by (auto simp: uart_event_def irq_taken_def write_section_def uart_isr_def uart_tx_disarm_def split: uart_ev.splits list.splits)

lemma tick_ring:
  assumes "\<not> u_irq_on s \<or> u_ring s = None"
  shows "u_ring (uart_tick thr sched masked s) = u_ring s \<and> u_irq_on (uart_tick thr sched masked s) = u_irq_on s"
proof -
  have "\<not> u_irq_on s \<or> u_ring s = None \<Longrightarrow>
      u_ring (fold (uart_event thr masked) evs s) = u_ring s \<and> u_irq_on (fold (uart_event thr masked) evs s) = u_irq_on s" for evs s
    by (induction evs arbitrary: s) (use event_ring in \<open>fastforce+\<close>)
  then show ?thesis using assms by (simp add: uart_tick_def)
qed

section \<open>Order\<close>

lemma poll_effect:
  assumes "thr \<le> TX_FIFO_DEPTH" "poll thr sched masked p s = Some s'" "uart_ok s"
  shows "extends sched s [] s' \<and> p s' \<and> (\<not> u_irq_on s \<or> u_ring s = None \<longrightarrow> u_ring s' = u_ring s)"
proof -
  let ?P = "\<lambda>thr sched masked p s s'. thr \<le> TX_FIFO_DEPTH \<longrightarrow> uart_ok s \<longrightarrow>
    extends sched s [] s' \<and> p s' \<and> (\<not> u_irq_on s \<or> u_ring s = None \<longrightarrow> u_ring s' = u_ring s)"
  have "?P thr sched masked p s s'"
  proof (rule poll.raw_induct [where P = ?P, OF _ assms(2)], intro impI)
    fix f thr sched masked p s s'
    assume IH: "\<And>thr sched masked p s y. f thr sched masked p s = Some y \<Longrightarrow> ?P thr sched masked p s y"
      and r: "(if p s then Some s else f thr sched masked p (uart_tick thr sched masked s)) = Some s'"
      and t: "thr \<le> TX_FIFO_DEPTH" and ok: "uart_ok s"
    show "extends sched s [] s' \<and> p s' \<and> (\<not> u_irq_on s \<or> u_ring s = None \<longrightarrow> u_ring s' = u_ring s)"
    proof (cases "p s")
      case True
      then show ?thesis using r extends_refl [OF ok] by simp
    next
      case False
      let ?s = "uart_tick thr sched masked s"
      have e: "extends sched s [] ?s" by (rule tick_extends [OF t ok])
      then have "uart_ok ?s" by (simp add: extends_def)
      then have "extends sched ?s [] s'" "p s'" "\<not> u_irq_on ?s \<or> u_ring ?s = None \<longrightarrow> u_ring s' = u_ring ?s"
        using IH [of thr sched masked p ?s s'] r False t by simp_all
      then show ?thesis using extends_trans [OF e] tick_ring [of s thr sched masked] by auto
    qed
  qed
  then show ?thesis using assms by blast
qed

lemma extends_ok: "extends sched s ys s' \<Longrightarrow> uart_ok s'" "extends sched s ys s' \<Longrightarrow> same_port s s'"
  by (simp_all add: extends_def)

text \<open>A byte put into the FIFO while nothing is queued is the last of the stream.\<close>

lemma write_blocked_effect:
  assumes "thr \<le> TX_FIFO_DEPTH" "uart_ok s" "queue s = []" "\<not> u_irq_on s \<or> u_ring s = None"
    and "uart_fifo_write_blocked thr sched masked b s = Some s'"
  shows "extends sched s [b] s'"
proof -
  obtain s1 where s1: "poll thr sched masked (wr_ready thr) s = Some s1" "s' = fifo_put b s1"
    using assms(5) by (auto simp: uart_fifo_write_blocked_def split: bind_splits)
  note e = poll_effect [OF assms(1) s1(1) assms(2)]
  have q: "queue s1 = []" "length (u_tx_fifo s1) < TX_FIFO_DEPTH" "uart_ok s1"
    using e assms(1,3,4) extends_ok(1) by (auto simp: queue_def wr_ready_def)
  have "extends sched s1 [b] s'"
    using fifo_put_effect [OF q(3,2,1), of b] s1(2) unfolding extends_def by (intro conjI exI [of _ "[]"]) simp_all
  then show ?thesis using extends_trans e by blast
qed

text \<open>The head of the queue moved to the FIFO.\<close>

lemma move_head:
  assumes "thr \<le> TX_FIFO_DEPTH" "uart_ok s" "wr_ready thr s" "u_ring s = Some r" "ringbuf_get_byte r = Some (b, r')"
  defines "s' \<equiv> fifo_put b (s\<lparr>u_ring := Some r'\<rparr>)"
  shows "uart_fifo_write_blocked thr sched masked b (s\<lparr>u_ring := Some r'\<rparr>) = Some s'"
    and "extends sched s [] s'" "uart_pending s' = uart_pending s" "length (queue s') < length (queue s)"
proof -
  have r: "rb_contents r = b # rb_contents r'" "ringbuf_ok r'" "rb_mask r' = rb_mask r"
    using ring_get [of r] assms(2,4,5) by (auto simp: uart_ok_def)
  have "wr_ready thr (s\<lparr>u_ring := Some r'\<rparr>)" using assms(3) by (simp add: wr_ready_def)
  then show "uart_fifo_write_blocked thr sched masked b (s\<lparr>u_ring := Some r'\<rparr>) = Some s'"
    unfolding uart_fifo_write_blocked_def s'_def by (subst poll.simps) simp
  have "length (u_tx_fifo s) < TX_FIFO_DEPTH" using assms(1,3) by (simp add: wr_ready_def)
  then show "extends sched s [] s'" "uart_pending s' = uart_pending s" "length (queue s') < length (queue s)"
    using assms(2,4) r
    by (simp_all add: extends_def s'_def fifo_put_def uart_ok_def stream_def queue_def same_port_def uart_pending_def del: length_rb_contents)
qed

lemma send_head_effect:
  assumes "thr \<le> TX_FIFO_DEPTH" "uart_ok s" "wr_ready thr s"
  shows "\<exists>s'. send_head thr sched s = Some s' \<and> extends sched s [] s' \<and> uart_pending s' = uart_pending s
    \<and> (queue s' = [] \<or> length (queue s') < length (queue s))"
proof (cases "queue s = []")
  case True
  then have "send_head thr sched s = Some s"
    using assms(2) ring.get_empty by (auto simp: send_head_def queue_def uart_ok_def split: option.splits)
  then show ?thesis using True extends_refl [OF assms(2)] by blast
next
  case False
  then obtain ring where r: "u_ring s = Some ring" "ringbuf_ok ring" "rb_contents ring \<noteq> []"
    using assms(2) by (auto simp: queue_def uart_ok_def split: option.splits)
  then obtain b ring' where "ringbuf_get_byte ring = Some (b, ring')"
    using ring.get_some [OF r(2)] by (metis neq_Nil_conv)
  then show ?thesis using move_head [OF assms r(1)] r(1) by (auto simp: send_head_def)
qed

lemma send_byte_effect:
  assumes "thr \<le> TX_FIFO_DEPTH" "uart_tx_send_byte_blocked thr sched s = Some s'" "uart_ok s"
  shows "extends sched s [] s'"
proof -
  let ?P = "\<lambda>thr sched s s'. thr \<le> TX_FIFO_DEPTH \<longrightarrow> uart_ok s \<longrightarrow> extends sched s [] s'"
  have "?P thr sched s s'"
  proof (rule uart_tx_send_byte_blocked.raw_induct [where P = ?P, OF _ assms(2)], intro impI)
    fix f thr sched s s'
    assume IH: "\<And>thr sched s y. f thr sched s = Some y \<Longrightarrow> ?P thr sched s y"
      and r: "(poll thr sched False (wr_ready thr) s \<bind>
       (\<lambda>s. let s = uart_tick thr sched False s in if wr_ready thr s then send_head thr sched s else f thr sched s)) = Some s'"
      and t: "thr \<le> TX_FIFO_DEPTH" and ok: "uart_ok s"
    obtain s1 where s1: "poll thr sched False (wr_ready thr) s = Some s1" using r by (auto split: bind_splits)
    let ?s = "uart_tick thr sched False s1"
    have e1: "extends sched s [] s1" using poll_effect [OF t s1 ok] by blast
    have e2: "extends sched s [] ?s" using extends_trans [OF e1 tick_extends(1) [OF t extends_ok(1) [OF e1]]] .
    have "extends sched ?s [] s'"
    proof (cases "wr_ready thr ?s")
      case True
      then show ?thesis using send_head_effect [OF t extends_ok(1) [OF e2] True, of sched] r s1 by (auto simp: Let_def)
    next
      case False
      then show ?thesis using IH r s1 t extends_ok(1) [OF e2] by (simp add: Let_def)
    qed
    then show "extends sched s [] s'" using extends_trans [OF e2] by blast
  qed
  then show ?thesis using assms by blast
qed

lemma queue_empty_iff: "uart_ok s \<Longrightarrow> queue_empty s \<longleftrightarrow> queue s = []"
  by (auto simp: queue_empty_def queue_def uart_ok_def ring_empty split: option.splits)

lemma disarm_extends: "uart_ok s \<Longrightarrow> queue s = [] \<Longrightarrow> extends sched s [] (uart_tx_disarm s) \<and> queue (uart_tx_disarm s) = []"
  by (auto simp: extends_def uart_ok_def stream_def queue_def)

lemma flush_loop_effect:
  assumes "thr \<le> TX_FIFO_DEPTH" "uart_flush_loop thr sched s = Some s'" "uart_ok s"
  shows "extends sched s [] s' \<and> queue s' = []"
proof -
  let ?P = "\<lambda>thr sched s s'. thr \<le> TX_FIFO_DEPTH \<longrightarrow> uart_ok s \<longrightarrow> extends sched s [] s' \<and> queue s' = []"
  have "?P thr sched s s'"
  proof (rule uart_flush_loop.raw_induct [where P = ?P, OF _ assms(2)], intro impI)
    fix f thr sched s s'
    assume IH: "\<And>thr sched s y. f thr sched s = Some y \<Longrightarrow> ?P thr sched s y"
      and r: "(if queue_empty s then Some (uart_tx_disarm s) else uart_tx_send_byte_blocked thr sched s \<bind> f thr sched) = Some s'"
      and t: "thr \<le> TX_FIFO_DEPTH" and ok: "uart_ok s"
    show "extends sched s [] s' \<and> queue s' = []"
    proof (cases "queue_empty s")
      case True
      then show ?thesis using r disarm_extends [OF ok] queue_empty_iff [OF ok] by auto
    next
      case False
      then obtain s1 where s1: "uart_tx_send_byte_blocked thr sched s = Some s1" "f thr sched s1 = Some s'"
        using r by (auto split: bind_splits)
      have e: "extends sched s [] s1" by (rule send_byte_effect [OF t s1(1) ok])
      then show ?thesis using IH [OF s1(2)] t extends_ok(1) [OF e] extends_trans [OF e] by blast
    qed
  qed
  then show ?thesis using assms by blast
qed

lemma flush_effect:
  "thr \<le> TX_FIFO_DEPTH \<Longrightarrow> uart_tx_flush_queue thr sched s = Some s' \<Longrightarrow> uart_ok s \<Longrightarrow> extends sched s [] s' \<and> queue s' = []"
  using flush_loop_effect [of thr sched s s'] queue_empty_iff [of s] extends_refl [of s]
  by (auto simp: uart_tx_flush_queue_def split: if_splits)

lemma section_extends: "thr \<le> TX_FIFO_DEPTH \<Longrightarrow> uart_ok s \<Longrightarrow> write_section thr b s = (Accepted, s') \<Longrightarrow> extends sched s [b] s'"
  using write_section_effect [of thr s b Accepted s'] by (auto simp: extends_def)

lemma write_loop_effect:
  assumes "thr \<le> TX_FIFO_DEPTH" "write_loop thr sched b s = Some s'" "uart_ok s"
  shows "extends sched s [b] s'"
proof -
  let ?P = "\<lambda>thr sched b s s'. thr \<le> TX_FIFO_DEPTH \<longrightarrow> uart_ok s \<longrightarrow> extends sched s [b] s'"
  have "?P thr sched b s s'"
  proof (rule write_loop.raw_induct [where P = ?P, OF _ assms(2)], intro impI)
    fix f thr sched b s s'
    assume IH: "\<And>thr sched b s y. f thr sched b s = Some y \<Longrightarrow> ?P thr sched b s y"
      and r: "(case write_section thr b s of (Detached, s) \<Rightarrow> uart_fifo_write_blocked thr sched False b s | (Accepted, s) \<Rightarrow> Some s
        | (Full, s) \<Rightarrow> (if can_wake s then Some (uart_tick thr sched False s) else uart_tx_send_byte_blocked thr sched s) \<bind> f thr sched b) = Some s'"
      and t: "thr \<le> TX_FIFO_DEPTH" and ok: "uart_ok s"
    obtain q s1 where w: "write_section thr b s = (q, s1)" by (rule prod.exhaust)
    note e = write_section_effect [OF t ok w]
    show "extends sched s [b] s'"
    proof (cases q)
      case Detached
      then have "u_ring s = None" "s1 = s" using e by simp_all
      then show ?thesis using r w Detached write_blocked_effect [OF t ok, of sched False b s'] by (simp add: queue_def)
    next
      case Accepted
      then show ?thesis using r w section_extends [OF t ok] by simp
    next
      case Full
      then have "s1 = s" using e by simp
      then obtain s2 where s2: "(if can_wake s then Some (uart_tick thr sched False s) else uart_tx_send_byte_blocked thr sched s) = Some s2"
        "f thr sched b s2 = Some s'"
        using r w Full by (auto split: bind_splits)
      have "extends sched s [] s2"
        using s2(1) tick_extends(1) [OF t ok] send_byte_effect [OF t _ ok] by (auto split: if_splits)
      then show ?thesis using IH [OF s2(2)] t extends_ok(1) extends_trans by blast
    qed
  qed
  then show ?thesis using assms by blast
qed

lemma write_byte_extends:
  assumes "thr \<le> TX_FIFO_DEPTH" "uart_ok s" "uart_write_byte thr sched b s = Some s'"
  shows "extends sched s [b] s'"
proof (cases "u_ring s = None")
  case True
  then show ?thesis using assms write_blocked_effect [OF assms(1,2), of sched False b s'] by (simp add: uart_write_byte_def queue_def)
next
  case r: False
  show ?thesis
  proof (cases "u_irq_on s")
    case True
    then show ?thesis using assms r write_loop_effect [OF assms(1) _ assms(2)] by (simp add: uart_write_byte_def)
  next
    case False
    then obtain s1 where s1: "uart_tx_flush_queue thr sched s = Some s1" "uart_fifo_write_blocked thr sched False b s1 = Some s'"
      using assms(3) r by (auto simp: uart_write_byte_def split: bind_splits)
    then have e: "extends sched s [] s1" "queue s1 = []" using flush_effect [OF assms(1) _ assms(2)] by blast+
    then have "\<not> u_irq_on s1" using extends_ok(2) False by (auto simp: same_port_def)
    then show ?thesis using write_blocked_effect [OF assms(1) extends_ok(1) [OF e(1)] e(2) _ s1(2)] extends_trans [OF e(1)] by simp
  qed
qed

text \<open>(C19) Serial output stays in order: from a state in which the interrupt is armed whenever bytes are queued, a byte that
  \<open>uart_write_byte\<close> takes becomes the last of the stream of bytes sent, in the FIFO and queued, behind those that other tasks
  managed to print during the call; nothing is lost, repeated or reordered, whichever way the byte went, however the
  interrupt and the other tasks were interleaved; and the interrupt is again armed if anything is queued.\<close>

theorem uart_write_in_order:
  assumes "thr \<le> TX_FIFO_DEPTH" "uart_ok s" "uart_write_byte thr sched b s = Some s'"
  shows "(\<exists>xs. subseq xs (printed sched (u_clock s) (u_clock s')) \<and> stream s' = stream s @ xs @ [b])
    \<and> (queue s' \<noteq> [] \<longrightarrow> tx_need_write s') \<and> length (u_tx_fifo s') \<le> TX_FIFO_DEPTH"
  using write_byte_extends [OF assms] by (simp add: extends_def uart_ok_def)

section \<open>Progress\<close>

text \<open>The hardware keeps sending and the interrupt keeps being taken; no other task prints.\<close>

definition fair :: "(nat \<Rightarrow> uart_ev list) \<Rightarrow> bool" where
  "fair sched \<longleftrightarrow> (\<forall>n. \<exists>d. Sent \<in> set (sched (n + d))) \<and> (\<forall>n. \<exists>d. Irq \<in> set (sched (n + d))) \<and> (\<forall>n. prints (sched n) = [])"

text \<open>Fewer bytes pending, or the same number with no more queued than before.\<close>

definition advance :: "uart \<Rightarrow> uart \<Rightarrow> bool" where
  "advance s s' \<longleftrightarrow> length (queue s') \<le> length (queue s)
     \<and> (uart_pending s' < uart_pending s \<or> uart_pending s' = uart_pending s \<and> length (u_tx_fifo s) \<le> length (u_tx_fifo s'))"

lemma advance_refl [simp]: "advance s s"
  by (simp add: advance_def)

lemma advance_trans: "advance s s' \<Longrightarrow> advance s' s'' \<Longrightarrow> advance s s''"
  by (auto simp: advance_def)

lemma event_advance:
  assumes "thr \<le> TX_FIFO_DEPTH" "uart_ok s" "prints [ev] = []"
  shows "advance s (uart_event thr masked ev s)"
proof (cases ev)
  case Sent
  then show ?thesis using sent_effect [OF assms(2), of _ thr masked] by (cases "u_tx_fifo s") (auto simp: advance_def uart_pending_def uart_event_def)
next
  case Irq
  have len: "length (u_tx_fifo s) \<le> TX_FIFO_DEPTH" "length (u_tx_fifo s) \<le> uart_pending s" using assms(2) by (simp_all add: uart_ok_def uart_pending_def)
  have "advance s (uart_isr s)" using uart_isr_effect [OF assms(2)] len by (auto simp: advance_def uart_pending_def split: if_splits)
  then show ?thesis using Irq by (simp add: uart_event_def)
qed (use assms(3) in \<open>simp add: prints_def\<close>)

lemma prints_Cons: "prints (ev # evs) = [] \<longleftrightarrow> prints [ev] = [] \<and> prints evs = []"
  by (simp add: prints_def)

lemma events_advance:
  assumes "thr \<le> TX_FIFO_DEPTH"
  shows "uart_ok s \<Longrightarrow> prints evs = [] \<Longrightarrow> advance s (fold (uart_event thr masked) evs s)
    \<and> (Sent \<in> set evs \<longrightarrow> u_tx_fifo s \<noteq> [] \<longrightarrow> uart_pending (fold (uart_event thr masked) evs s) < uart_pending s)"
proof (induction evs arbitrary: s)
  case (Cons ev evs)
  let ?s = "uart_event thr masked ev s"
  have p: "prints [ev] = []" "prints evs = []" using Cons.prems(2) prints_Cons [of ev evs] by blast+
  have a: "advance s ?s" by (rule event_advance [OF assms Cons.prems(1) p(1)])
  have ok: "uart_ok ?s" using event_effect [OF assms Cons.prems(1) refl] by blast
  note IH = Cons.IH [OF ok p(2)]
  have "uart_pending ?s < uart_pending s" if "ev = Sent" "u_tx_fifo s \<noteq> []"
    using that sent_effect [OF Cons.prems(1), of ?s thr masked] by (cases "u_tx_fifo s") (auto simp: uart_pending_def)
  moreover have "uart_pending ?s < uart_pending s" if "u_tx_fifo s \<noteq> []" "u_tx_fifo ?s = []"
    using a that by (auto simp: advance_def)
  ultimately show ?case using IH a advance_trans [OF a] by (fastforce simp: advance_def)
qed simp

lemma tick_advance:
  assumes "thr \<le> TX_FIFO_DEPTH" "uart_ok s" "fair sched"
  shows "advance s (uart_tick thr sched masked s)"
    and "Sent \<in> set (sched (u_clock s)) \<Longrightarrow> u_tx_fifo s \<noteq> [] \<Longrightarrow> uart_pending (uart_tick thr sched masked s) < uart_pending s"
proof -
  have "prints (sched (u_clock s)) = []" using assms(3) by (simp add: fair_def)
  note e = events_advance [OF assms(1) _ this, of "s\<lparr>u_clock := u_clock s + 1\<rparr>" masked]
  show "advance s (uart_tick thr sched masked s)"
    "Sent \<in> set (sched (u_clock s)) \<Longrightarrow> u_tx_fifo s \<noteq> [] \<Longrightarrow> uart_pending (uart_tick thr sched masked s) < uart_pending s"
    using e assms(2) by (simp_all add: uart_tick_def clock_step advance_def)
qed

text \<open>A wait for something that an empty FIFO satisfies ends.\<close>

lemma poll_returns:
  assumes "thr \<le> TX_FIFO_DEPTH" "fair sched" "\<And>s. u_tx_fifo s = [] \<Longrightarrow> p s"
  shows "uart_ok s \<Longrightarrow> \<exists>s'. poll thr sched masked p s = Some s' \<and> advance s s'"
proof (induction "uart_pending s" arbitrary: s rule: less_induct)
  case less
  obtain d where d: "Sent \<in> set (sched (u_clock s + d))" using assms(2) unfolding fair_def by blast
  have "\<exists>s'. poll thr sched masked p t = Some s' \<and> advance s s'"
    if "uart_ok t" "advance s t" "u_clock t + k = u_clock s + d" for t k
    using that
  proof (induction k arbitrary: t)
    case k: 0
    show ?case
    proof (cases "p t")
      case True
      then show ?thesis using k(2) by (subst poll.simps) simp
    next
      case False
      then have "uart_pending (uart_tick thr sched masked t) < uart_pending t" using tick_advance(2) [OF assms(1) k(1) assms(2)] assms(3) d k(3) by auto
      moreover have "advance t (uart_tick thr sched masked t)" "uart_ok (uart_tick thr sched masked t)"
        using tick_advance(1) [OF assms(1) k(1) assms(2)] extends_ok(1) [OF tick_extends(1) [OF assms(1) k(1)]] by blast+
      moreover have "uart_pending t \<le> uart_pending s" using k(2) by (auto simp: advance_def)
      ultimately obtain s' where "poll thr sched masked p (uart_tick thr sched masked t) = Some s'" "advance (uart_tick thr sched masked t) s'"
        using less.hyps [of "uart_tick thr sched masked t"] by auto
      then show ?thesis
        using False advance_trans [OF k(2) advance_trans [OF \<open>advance t (uart_tick thr sched masked t)\<close>]] by (subst poll.simps) simp
    qed
  next
    case k: (Suc k)
    show ?case
    proof (cases "p t")
      case True
      then show ?thesis using k.prems by (subst poll.simps) auto
    next
      case False
      let ?t = "uart_tick thr sched masked t"
      have "uart_ok ?t" "advance s ?t" "u_clock ?t + k = u_clock s + d"
        using extends_ok(1) [OF tick_extends(1) [OF assms(1) k.prems(1)]] tick_extends(2) [OF assms(1) k.prems(1)]
          advance_trans [OF k.prems(2) tick_advance(1) [OF assms(1) k.prems(1) assms(2)]] k.prems(3) by simp_all
      then show ?thesis using k.IH [of ?t] False by (subst poll.simps) simp
    qed
  qed
  from this [of s d] show ?case using less.prems by simp
qed

lemma ready_returns:
  assumes "0 < thr" "thr \<le> TX_FIFO_DEPTH" "fair sched" "uart_ok s"
  shows "\<exists>s'. poll thr sched masked (wr_ready thr) s = Some s' \<and> advance s s'"
  by (rule poll_returns [OF assms(2,3) _ assms(4)]) (use assms(1) in \<open>simp add: wr_ready_def\<close>)

lemma send_byte_returns:
  assumes "0 < thr" "thr \<le> TX_FIFO_DEPTH" "fair sched"
  shows "uart_ok s \<Longrightarrow> \<exists>s'. uart_tx_send_byte_blocked thr sched s = Some s' \<and> (queue s' = [] \<or> length (queue s') < length (queue s))"
proof (induction "2 * uart_pending s + of_bool (wr_ready thr s)" arbitrary: s rule: less_induct)
  case less
  obtain s1 where s1: "poll thr sched False (wr_ready thr) s = Some s1" "advance s s1"
    using ready_returns [OF assms less.prems] by blast
  have e1: "extends sched s [] s1" "wr_ready thr s1" using poll_effect [OF assms(2) s1(1) less.prems] by blast+
  let ?s = "uart_tick thr sched False s1"
  have e2: "uart_ok ?s" "advance s1 ?s"
    using extends_ok(1) [OF tick_extends(1) [OF assms(2) extends_ok(1) [OF e1(1)]]] tick_advance(1) [OF assms(2) extends_ok(1) [OF e1(1)] assms(3)]
    by blast+
  have a: "advance s ?s" by (rule advance_trans [OF s1(2) e2(2)])
  show ?case
  proof (cases "wr_ready thr ?s")
    case True
    obtain s' where "send_head thr sched ?s = Some s'" "queue s' = [] \<or> length (queue s') < length (queue ?s)"
      using send_head_effect [OF assms(2) e2(1) True] by blast
    then show ?thesis using s1(1) True a by (subst uart_tx_send_byte_blocked.simps) (auto simp: advance_def Let_def)
  next
    case False
    have "2 * uart_pending ?s + of_bool (wr_ready thr ?s) < 2 * uart_pending s + of_bool (wr_ready thr s)"
    proof (cases "wr_ready thr s")
      case True
      then show ?thesis using a False by (auto simp: advance_def)
    next
      case r: False
      then have "uart_pending s1 < uart_pending s" using s1(2) e1(2) by (auto simp: advance_def wr_ready_def)
      then show ?thesis using e2(2) False by (auto simp: advance_def)
    qed
    then obtain s' where "uart_tx_send_byte_blocked thr sched ?s = Some s'" "queue s' = [] \<or> length (queue s') < length (queue ?s)"
      using less.hyps [of ?s] e2(1) by blast
    then show ?thesis using s1(1) False a by (subst uart_tx_send_byte_blocked.simps) (auto simp: advance_def Let_def)
  qed
qed

lemma flush_loop_returns:
  assumes "0 < thr" "thr \<le> TX_FIFO_DEPTH" "fair sched"
  shows "uart_ok s \<Longrightarrow> \<exists>s'. uart_flush_loop thr sched s = Some s'"
proof (induction "length (queue s)" arbitrary: s rule: less_induct)
  case less
  show ?case
  proof (cases "queue_empty s")
    case True
    then show ?thesis by (subst uart_flush_loop.simps) simp
  next
    case False
    obtain s1 where s1: "uart_tx_send_byte_blocked thr sched s = Some s1" "queue s1 = [] \<or> length (queue s1) < length (queue s)"
      using send_byte_returns [OF assms less.prems] by blast
    have "queue s \<noteq> []" using False queue_empty_iff [OF less.prems] by simp
    then have "length (queue s1) < length (queue s)" using s1(2) by auto
    moreover have "uart_ok s1" using extends_ok(1) [OF send_byte_effect [OF assms(2) s1(1) less.prems]] .
    ultimately show ?thesis using less.hyps [of s1] s1(1) False by (subst uart_flush_loop.simps) simp
  qed
qed

lemma flush_returns:
  assumes "0 < thr" "thr \<le> TX_FIFO_DEPTH" "fair sched" "uart_ok s"
  shows "\<exists>s'. uart_tx_flush_queue thr sched s = Some s'"
  using flush_loop_returns [OF assms] by (simp add: uart_tx_flush_queue_def)

lemma write_blocked_returns:
  assumes "0 < thr" "thr \<le> TX_FIFO_DEPTH" "fair sched" "uart_ok s"
  shows "\<exists>s'. uart_fifo_write_blocked thr sched masked b s = Some s'"
  using ready_returns [OF assms, of masked] by (auto simp: uart_fifo_write_blocked_def)

text \<open>The interrupt takes a byte off the queue when the FIFO has room.\<close>

lemma events_irq:
  assumes "thr \<le> TX_FIFO_DEPTH"
  shows "uart_ok s \<Longrightarrow> prints evs = [] \<Longrightarrow> Irq \<in> set evs \<Longrightarrow> queue s \<noteq> [] \<Longrightarrow> length (u_tx_fifo s) < TX_FIFO_DEPTH \<Longrightarrow>
    u_irq_on s \<Longrightarrow> intc_irq_source_enabled (u_irq_source s) (u_intc s) \<Longrightarrow>
    length (queue (fold (uart_event thr False) evs s)) < length (queue s)"
proof (induction evs arbitrary: s)
  case (Cons ev evs)
  let ?s = "uart_event thr False ev s"
  have p: "prints [ev] = []" "prints evs = []" using Cons.prems(2) prints_Cons [of ev evs] by blast+
  have ok: "uart_ok ?s" "same_port s ?s" using event_effect [OF assms Cons.prems(1) refl] by blast+
  have rest: "length (queue (fold (uart_event thr False) evs ?s)) \<le> length (queue ?s)"
    using events_advance [OF assms ok(1) p(2)] by (simp add: advance_def)
  show ?case
  proof (cases ev)
    case Sent
    have "queue ?s = queue s" "length (u_tx_fifo ?s) < TX_FIFO_DEPTH" using sent_effect [OF Cons.prems(1), of ?s thr False] Sent Cons.prems(5) by auto
    then show ?thesis using Cons.IH [OF ok(1) p(2)] Cons.prems Sent ok(2) by (simp add: same_port_def)
  next
    case Irq
    have "tx_need_write s" using Cons.prems(1,4) by (simp add: uart_ok_def)
    then have "?s = uart_isr s" using Irq Cons.prems(6,7) by (simp add: uart_event_def irq_taken_def)
    moreover have "length (queue (uart_isr s)) < length (queue s)"
    proof -
      have "u_ring s \<noteq> None" "0 < length (queue s)" using Cons.prems(4) by (auto simp: queue_def split: option.splits)
      moreover have "length (u_tx_fifo (uart_isr s)) + length (queue (uart_isr s)) = length (u_tx_fifo s) + length (queue s)"
        using uart_isr_effect [OF Cons.prems(1)] by (simp add: uart_pending_def)
      moreover have "length (u_tx_fifo (uart_isr s)) = min TX_FIFO_DEPTH (length (u_tx_fifo s) + length (queue s))"
        using uart_isr_effect [OF Cons.prems(1)] \<open>u_ring s \<noteq> None\<close> by (simp add: uart_pending_def)
      ultimately show ?thesis using Cons.prems(5) by linarith
    qed
    ultimately show ?thesis using rest by simp
  qed (use p in \<open>simp add: prints_def\<close>)
qed simp

text \<open>How much the ring of a port holds.\<close>

definition ring_size :: "uart \<Rightarrow> nat" where
  "ring_size s = (case u_ring s of None \<Rightarrow> 0 | Some ring \<Rightarrow> rb_size ring)"

lemma ring_size_same: "same_port s s' \<Longrightarrow> ring_size s' = ring_size s \<and> (u_ring s' = None) = (u_ring s = None)"
  by (cases "u_ring s"; cases "u_ring s'") (auto simp: same_port_def ring_size_def rb_size_def)

lemma section_room:
  assumes "thr \<le> TX_FIFO_DEPTH" "uart_ok s" "u_ring s \<noteq> None" "length (queue s) < ring_size s"
  shows "\<exists>s'. write_section thr b s = (Accepted, s')"
proof -
  obtain r s' where w: "write_section thr b s = (r, s')" by (rule prod.exhaust)
  have "r \<noteq> Full" "r \<noteq> Detached"
    using write_section_effect [OF assms(1,2) w] assms(3,4) by (auto simp: queue_def ring_size_def rb_room_def)
  then show ?thesis using w by (cases r) auto
qed

lemma full_queue:
  assumes "thr \<le> TX_FIFO_DEPTH" "uart_ok s" "write_section thr b s = (Full, s')"
  shows "s' = s" "u_ring s \<noteq> None" "length (queue s) = ring_size s" "queue s \<noteq> []"
proof -
  obtain ring where r: "s' = s" "u_ring s = Some ring" "rb_room ring = 0" using write_section_effect [OF assms] by auto
  have ok: "ringbuf_ok ring" using assms(2) r(2) by (simp add: uart_ok_def)
  then have "unat (ringbuf_count ring) = rb_size ring" using r(3) by (auto simp: rb_room_def ringbuf_ok_def)
  then show "s' = s" "u_ring s \<noteq> None" "length (queue s) = ring_size s"
    using r by (simp_all add: queue_def ring_size_def)
  moreover have "0 < ring_size s" using r(2) by (simp add: ring_size_def rb_size_def)
  ultimately show "queue s \<noteq> []" by auto
qed

text \<open>One more turn of the loop of a write, when it made room or when the wait for room is shown to end.\<close>

lemma write_loop_turn:
  assumes "0 < thr" "thr \<le> TX_FIFO_DEPTH" "fair sched" "uart_ok s" "u_ring s \<noteq> None"
    and "can_wake s \<Longrightarrow> length (queue (uart_tick thr sched False s)) = length (queue s) \<Longrightarrow> queue s \<noteq> [] \<Longrightarrow>
      \<exists>s'. write_loop thr sched b (uart_tick thr sched False s) = Some s'"
  shows "\<exists>s'. write_loop thr sched b s = Some s'"
proof -
  obtain r s1 where w: "write_section thr b s = (r, s1)" by (rule prod.exhaust)
  show ?thesis
  proof (cases r)
    case Detached
    then show ?thesis using write_section_effect [OF assms(2,4) w] assms(5) by simp
  next
    case Accepted
    then show ?thesis using w by (subst write_loop.simps) simp
  next
    case Full
    note f = full_queue [OF assms(2,4) w [unfolded Full]]
    have accept: "\<exists>s'. write_loop thr sched b t = Some s'" if ext: "extends sched s [] t" and lt: "length (queue t) < length (queue s)" for t
    proof -
      have "ring_size t = ring_size s" "u_ring t \<noteq> None" using ring_size_same [OF extends_ok(2) [OF ext]] f(2) by simp_all
      then obtain s' where "write_section thr b t = (Accepted, s')"
        using section_room [OF assms(2) extends_ok(1) [OF ext], of b] f(3) lt by auto
      then show ?thesis by (subst write_loop.simps) simp
    qed
    show ?thesis
    proof (cases "can_wake s")
      case True
      let ?t = "uart_tick thr sched False s"
      have "length (queue ?t) \<le> length (queue s)" using tick_advance(1) [OF assms(2,4,3)] by (simp add: advance_def)
      then have "\<exists>s'. write_loop thr sched b ?t = Some s'"
        using assms(6) True f(4) accept [OF tick_extends(1) [OF assms(2,4)]] by (metis le_neq_implies_less)
      then show ?thesis using w Full f(1) True by (subst write_loop.simps) simp
    next
      case False
      obtain t where t: "uart_tx_send_byte_blocked thr sched s = Some t" "queue t = [] \<or> length (queue t) < length (queue s)"
        using send_byte_returns [OF assms(1-4)] by blast
      then have "length (queue t) < length (queue s)" using f(4) by auto
      then obtain s' where "write_loop thr sched b t = Some s'" using accept [OF send_byte_effect [OF assms(2) t(1) assms(4)]] by blast
      then show ?thesis using w Full f(1) False t(1) by (subst write_loop.simps) simp
    qed
  qed
qed

lemma write_loop_irq:
  assumes "0 < thr" "thr \<le> TX_FIFO_DEPTH" "fair sched"
  shows "uart_ok s \<Longrightarrow> u_ring s \<noteq> None \<Longrightarrow> u_irq_on s \<Longrightarrow> length (u_tx_fifo s) < TX_FIFO_DEPTH \<Longrightarrow> Irq \<in> set (sched (u_clock s + d)) \<Longrightarrow>
    \<exists>s'. write_loop thr sched b s = Some s'"
proof (induction d arbitrary: s)
  case 0
  show ?case
  proof (rule write_loop_turn [OF assms 0(1,2)])
    assume c: "can_wake s" "queue s \<noteq> []" "length (queue (uart_tick thr sched False s)) = length (queue s)"
    have "prints (sched (u_clock s)) = []" using assms(3) by (simp add: fair_def)
    then have "length (queue (uart_tick thr sched False s)) < length (queue s)"
      using events_irq [OF assms(2), of "s\<lparr>u_clock := u_clock s + 1\<rparr>" "sched (u_clock s)"] 0 c by (simp add: clock_step uart_tick_def can_wake_def)
    then show "\<exists>s'. write_loop thr sched b (uart_tick thr sched False s) = Some s'" using c(3) by simp
  qed
next
  case (Suc d)
  show ?case
  proof (rule write_loop_turn [OF assms Suc.prems(1,2)])
    assume c: "length (queue (uart_tick thr sched False s)) = length (queue s)"
    let ?t = "uart_tick thr sched False s"
    note e = tick_extends [OF assms(2) Suc.prems(1), of sched False]
    note e' = extends_ok [OF e(1)]
    have "uart_pending ?t \<le> uart_pending s" using tick_advance(1) [OF assms(2) Suc.prems(1) assms(3), of False] by (auto simp: advance_def)
    then have "length (u_tx_fifo ?t) < TX_FIFO_DEPTH" using c Suc.prems(4) by (simp add: uart_pending_def)
    then show "\<exists>s'. write_loop thr sched b ?t = Some s'"
      using Suc.IH [of ?t] Suc.prems ring_size_same [OF e'(2)] e' e(2) by (simp add: same_port_def)
  qed
qed

lemma write_loop_returns:
  assumes "0 < thr" "thr \<le> TX_FIFO_DEPTH" "fair sched"
  shows "uart_ok s \<Longrightarrow> u_ring s \<noteq> None \<Longrightarrow> u_irq_on s \<Longrightarrow> Sent \<in> set (sched (u_clock s + d)) \<Longrightarrow> \<exists>s'. write_loop thr sched b s = Some s'"
proof (induction d arbitrary: s)
  case (Suc d)
  show ?case
  proof (rule write_loop_turn [OF assms Suc.prems(1,2)])
    let ?t = "uart_tick thr sched False s"
    note e = tick_extends [OF assms(2) Suc.prems(1), of sched False]
    note e' = extends_ok [OF e(1)]
    show "\<exists>s'. write_loop thr sched b ?t = Some s'"
      using Suc.IH [of ?t] Suc.prems ring_size_same [OF e'(2)] e' e(2) by (simp add: same_port_def)
  qed
next
  case 0
  have irq: "\<exists>s'. write_loop thr sched b t = Some s'"
    if "uart_ok t" "u_ring t \<noteq> None" "u_irq_on t" "length (u_tx_fifo t) < TX_FIFO_DEPTH" for t
  proof -
    obtain d where "Irq \<in> set (sched (u_clock t + d))" using assms(3) unfolding fair_def by blast
    then show ?thesis using write_loop_irq [OF assms that] by blast
  qed
  show ?case
  proof (cases "length (u_tx_fifo s) < TX_FIFO_DEPTH")
    case True
    then show ?thesis using irq 0 by blast
  next
    case False
    show ?thesis
    proof (rule write_loop_turn [OF assms 0(1,2)])
      assume c: "length (queue (uart_tick thr sched False s)) = length (queue s)"
      let ?t = "uart_tick thr sched False s"
      note e = tick_extends [OF assms(2) 0(1), of sched False]
      note e' = extends_ok [OF e(1)]
      have "u_tx_fifo s \<noteq> []" using False by auto
      then have "uart_pending ?t < uart_pending s" using tick_advance(2) [OF assms(2) 0(1) assms(3), of False] 0(4) by simp
      then have "length (u_tx_fifo ?t) < TX_FIFO_DEPTH" using c 0(1) by (simp add: uart_pending_def uart_ok_def)
      then show "\<exists>s'. write_loop thr sched b ?t = Some s'"
        using irq [of ?t] 0 ring_size_same [OF e'(2)] e' by (simp add: same_port_def)
    qed
  qed
qed

lemma write_byte_returns:
  assumes "0 < thr" "thr \<le> TX_FIFO_DEPTH" "fair sched" "uart_ok s"
  shows "\<exists>s'. uart_write_byte thr sched b s = Some s'"
proof -
  obtain d where "Sent \<in> set (sched (u_clock s + d))" using assms(3) unfolding fair_def by blast
  moreover obtain s1 where s1: "uart_tx_flush_queue thr sched s = Some s1" using flush_returns [OF assms] by blast
  moreover have "uart_ok s1" using s1 flush_effect [OF assms(2) _ assms(4)] extends_ok(1) by blast
  ultimately show ?thesis
    using write_blocked_returns [OF assms(1-3), of s False b] write_blocked_returns [OF assms(1-3), of s1 False b] assms(4)
      write_loop_returns [OF assms, of d b] by (auto simp: uart_write_byte_def)
qed

lemma quiet_prints: "fair sched \<Longrightarrow> printed sched a b = []"
  by (simp add: fair_def printed_def)

lemma puts_returns:
  assumes "0 < thr" "thr \<le> TX_FIFO_DEPTH" "fair sched"
  shows "uart_ok s \<Longrightarrow> \<exists>s'. uart_puts thr sched cs s = Some (length cs, s') \<and> uart_ok s' \<and> stream s' = stream s @ cs"
proof (induction cs arbitrary: s)
  case (Cons c cs)
  obtain s1 where s1: "uart_write_byte thr sched c s = Some s1" using write_byte_returns [OF assms Cons.prems] by blast
  have e: "uart_ok s1" "stream s1 = stream s @ [c]"
    using write_byte_extends [OF assms(2) Cons.prems s1] quiet_prints [OF assms(3)] by (auto simp: extends_def)
  then show ?case using Cons.IH [OF e(1)] s1 by auto
qed simp

text \<open>Everything printed leaves on the wire: as long as the hardware keeps sending and the interrupt keeps being taken, no
  call waits for ever, whatever the state of the queue, whether or not interrupts are enabled and however large the queue
  is; \<open>puts\<close> reports every byte as written, and after \<open>drain\<close> the wire has carried what was sent before, what was pending and
  the string, in this order.\<close>

theorem uart_puts_delivered:
  assumes "0 < thr" "thr \<le> TX_FIFO_DEPTH" "fair sched" "uart_ok s"
  shows "\<exists>s' s''. uart_puts thr sched cs s = Some (length cs, s') \<and> stream s' = stream s @ cs
    \<and> uart_drain thr sched s' = Some s'' \<and> u_wire s'' = u_wire s @ u_tx_fifo s @ queue s @ cs"
proof -
  obtain s1 where s1: "uart_puts thr sched cs s = Some (length cs, s1)" "uart_ok s1" "stream s1 = stream s @ cs"
    using puts_returns [OF assms] by blast
  obtain s2 where s2: "uart_tx_flush_queue thr sched s1 = Some s2" using flush_returns [OF assms(1-3) s1(2)] by blast
  then have e: "extends sched s1 [] s2" "queue s2 = []" using flush_effect [OF assms(2) s2 s1(2)] by blast+
  obtain s3 where s3: "poll thr sched False (\<lambda>s. u_tx_fifo s = []) s2 = Some s3" "advance s2 s3"
    using poll_returns [OF assms(2,3) _ extends_ok(1) [OF e(1)], of "\<lambda>s. u_tx_fifo s = []" False] by blast
  have e3: "extends sched s2 [] s3" "u_tx_fifo s3 = []" using poll_effect [OF assms(2) s3(1) extends_ok(1) [OF e(1)]] by blast+
  have "queue s3 = []" using s3(2) e(2) by (simp add: advance_def)
  moreover have "stream s3 = stream s @ cs"
    using extends_trans [OF e(1) e3(1)] s1(3) quiet_prints [OF assms(3)] by (auto simp: extends_def)
  ultimately have "u_wire s3 = u_wire s @ u_tx_fifo s @ queue s @ cs" using e3(2) by (simp add: stream_def)
  then show ?thesis using s1 s2 s3(1) by (simp add: uart_drain_def uart_fifo_wait_empty_def)
qed

section \<open>Concrete runs\<close>

text \<open>Port 1 after reset, with a queue of four bytes and two bytes still in the FIFO.\<close>

definition uart_started :: uart where
  "uart_started = uart_reset
     \<lparr>u_config = \<lparr>uc_tx_enable = False, uc_rx_enable = False, uc_irda = False, uc_data_length = 0, uc_parity_enable = False,
        uc_parity_odd_mode = False, uc_stop_length_2 = False, uc_clk_divider = 0\<rparr>,
      u_fifo_config = \<lparr>fc_tx_fifo_threshold = 0, fc_rx_fifo_threshold = 0, fc_rx_stop_detect_time = 0\<rparr>,
      u_irq_enable = 0, u_irq_status = 0, u_flow_config = 0, u_wakeup_config = 0, u_tx_fifo = [72, 105], u_rx_fifo = [],
      u_wire = [], u_ring = Some (ringbuf_declare 4), u_irq_source = 1, u_irq_on = True,
      u_intc = \<lparr>ic_raw = 0, ic_enable = 1, ic_gl_irq = True, ic_gl_fiq = True, ic_extra = 0, ic_vectors = [],
        ic_manager = \<lparr>hc_handled_mask = 0, hc_handlers = []\<rparr>, ic_fires = replicate 32 0, ic_orphans = 0,
        ic_spurious_irq = 0, ic_spurious_fiq = 0\<rparr>, u_clock = 0\<rparr>"

lemma uart_started_ok: "uart_ok uart_started" "stream uart_started = [72, 105]" "queue uart_started = []" "u_wire uart_started = []"
  "u_tx_fifo uart_started = [72, 105]"
  using ringbuf_declare_ok [of 4 2] by (simp_all add: uart_started_def uart_reset_def uart_ok_def stream_def queue_def Let_def)

lemma fair_example: "fair (\<lambda>_. [Sent, Irq])"
  by (simp add: fair_def prints_def)

theorem uart_write_in_order_witness:
  "\<exists>s'. uart_write_byte 2 (\<lambda>_. [Sent, Irq]) 33 uart_started = Some s' \<and> stream s' = [72, 105, 33]"
proof -
  obtain s' where s': "uart_write_byte 2 (\<lambda>_. [Sent, Irq]) 33 uart_started = Some s'"
    using write_byte_returns [OF _ _ fair_example uart_started_ok(1), of 2 33] by auto
  then have "stream s' = [72, 105, 33]"
    using uart_write_in_order [OF _ uart_started_ok(1) s'] quiet_prints [OF fair_example] uart_started_ok(2) by auto
  then show ?thesis using s' by blast
qed

theorem uart_puts_delivered_witness:
  "\<exists>s' s''. uart_puts 2 (\<lambda>_. [Sent, Irq]) [33, 10] uart_started = Some (2, s') \<and> uart_drain 2 (\<lambda>_. [Sent, Irq]) s' = Some s''
     \<and> u_wire s'' = [72, 105, 33, 10]"
  using uart_puts_delivered [OF _ _ fair_example uart_started_ok(1), of 2 "[33, 10]"] by (auto simp: uart_started_ok)

end
