(* ===== verification/Timer.thy ===== *)
theory Timer
  imports Intc
begin

text \<open>
  The hardware timers, \<open>src/src/platform/drivers/hardware_timer/timer.c\<close> with the bank layout of
  \<open>src/src/platform/soc/bk7221u/include/soc/timer.h\<close>: six timers in two banks, handed out and given back, with one
  interrupt for all. The state is an extensible record, so that the software timeouts can add theirs; an alarm handler is
  known by its address and what it does is an argument \<open>run\<close>. A failed \<open>assert\<close>, and a division by zero, is \<open>None\<close>.
\<close>

section \<open>The banks\<close>

abbreviation TIMERS_IN_BANK :: nat where "TIMERS_IN_BANK \<equiv> 3"
abbreviation TIMERS_TOTAL :: nat where "TIMERS_TOTAL \<equiv> 6"
abbreviation TIMER_BANK_0_FREQ :: u32 where "TIMER_BANK_0_FREQ \<equiv> 26000000"
abbreviation TIMER_BANK_1_FREQ :: u32 where "TIMER_BANK_1_FREQ \<equiv> 32000"

type_synonym bank_bits = "3 word"

record hw_timer_bank =
  tb_counter     :: "u32 list"
  tb_enable      :: bank_bits
  tb_clk_divider :: "4 word"
  tb_irq_status  :: bank_bits

text \<open>A store to the \<open>ctl\<close> word: ones in the place of \<open>irq_status\<close> clear its bits.\<close>

definition write_ctl :: "bank_bits \<Rightarrow> 4 word \<Rightarrow> bank_bits \<Rightarrow> hw_timer_bank \<Rightarrow> hw_timer_bank" where
  "write_ctl en divider irq b =
     b\<lparr>tb_enable := en, tb_clk_divider := divider, tb_irq_status := tb_irq_status b AND NOT irq\<rparr>"

datatype timer_type = TYPE_NONE | TYPE_ONCE | TYPE_PERIODIC

record private_timer =
  pt_handler :: "nat option"
  pt_type    :: timer_type

record timers =
  tm_bank0    :: hw_timer_bank
  tm_bank1    :: hw_timer_bank
  tm_handlers :: "private_timer list"
  tm_pwd_26m  :: bool
  tm_pwd_32k  :: bool

definition get_timer_bank_by_index :: "nat \<Rightarrow> 'a timers_scheme \<Rightarrow> hw_timer_bank" where
  "get_timer_bank_by_index i s = (if i < TIMERS_IN_BANK then tm_bank0 s else tm_bank1 s)"

definition set_timer_bank :: "nat \<Rightarrow> hw_timer_bank \<Rightarrow> 'a timers_scheme \<Rightarrow> 'a timers_scheme" where
  "set_timer_bank i b s = (if i < TIMERS_IN_BANK then s\<lparr>tm_bank0 := b\<rparr> else s\<lparr>tm_bank1 := b\<rparr>)"

definition get_timer_num_in_bank_by_index :: "nat \<Rightarrow> nat" where
  "get_timer_num_in_bank_by_index i = (if i < TIMERS_IN_BANK then i else i - TIMERS_IN_BANK)"

definition get_timer_frequency :: "nat \<Rightarrow> u32" where
  "get_timer_frequency i = (if i < TIMERS_IN_BANK then TIMER_BANK_0_FREQ else TIMER_BANK_1_FREQ)"

section \<open>Operations\<close>

text \<open>\<open>while (bank->ctl.irq_status & status) bank->ctl.irq_status = status;\<close> where the store is a read-modify-write.\<close>

function timer_clear_irq_status :: "bank_bits \<Rightarrow> hw_timer_bank \<Rightarrow> hw_timer_bank" where
  "timer_clear_irq_status status b =
     (if tb_irq_status b AND status \<noteq> 0
      then timer_clear_irq_status status (write_ctl (tb_enable b) (tb_clk_divider b) status b)
      else b)"
  by pat_completeness auto
termination
proof (relation "measure (\<lambda>(status, b). if tb_irq_status b AND status \<noteq> 0 then 1 else 0 :: nat)", goal_cases)
  case (2 status b)
  have "(tb_irq_status b AND NOT status) AND status = 0" by (intro bit_word_eqI) (simp add: bit_simps)
  then show ?case using 2 by (simp add: write_ctl_def)
qed simp

declare timer_clear_irq_status.simps [simp del]

definition timer_bank_update_enable :: "bank_bits \<Rightarrow> bank_bits \<Rightarrow> hw_timer_bank \<Rightarrow> hw_timer_bank" where
  "timer_bank_update_enable set_bits clear b =
     write_ctl ((tb_enable b OR set_bits) AND NOT clear) (tb_clk_divider b) 0 b"

abbreviation bank_bit :: "nat \<Rightarrow> bank_bits" where
  "bank_bit i \<equiv> push_bit (get_timer_num_in_bank_by_index i) 1"

definition update_bank :: "nat \<Rightarrow> (hw_timer_bank \<Rightarrow> hw_timer_bank) \<Rightarrow> 'a timers_scheme \<Rightarrow> 'a timers_scheme" where
  "update_bank i f s = set_timer_bank i (f (get_timer_bank_by_index i s)) s"

definition free_entry :: private_timer where
  "free_entry = \<lparr>pt_handler = None, pt_type = TYPE_NONE\<rparr>"

text \<open>The part of \<open>timer_isr\<close> for timer \<open>i\<close>.\<close>

definition isr_timer :: "(nat \<Rightarrow> nat \<Rightarrow> 'a timers_scheme \<Rightarrow> 'a timers_scheme) \<Rightarrow> u32 \<Rightarrow> nat \<Rightarrow> 'a timers_scheme \<Rightarrow> 'a timers_scheme" where
  "isr_timer run status_all i s =
     (if \<not> bit status_all i then s
      else
        let s = (case pt_handler (tm_handlers s ! i) of None \<Rightarrow> s | Some h \<Rightarrow> run h i s)
        in if pt_type (tm_handlers s ! i) = TYPE_ONCE
           then (update_bank i (timer_bank_update_enable 0 (bank_bit i)) s)\<lparr>tm_handlers := (tm_handlers s)[i := free_entry]\<rparr>
           else s)"

definition timer_isr :: "(nat \<Rightarrow> nat \<Rightarrow> 'a timers_scheme \<Rightarrow> 'a timers_scheme) \<Rightarrow> 'a timers_scheme \<Rightarrow> 'a timers_scheme" where
  "timer_isr run s =
     (let status0 = tb_irq_status (tm_bank0 s);
          status1 = tb_irq_status (tm_bank1 s);
          status_all = ucast status0 OR push_bit TIMERS_IN_BANK (ucast status1);
          s = fold (isr_timer run status_all) [0..<TIMERS_TOTAL] s;
          s = (if status0 \<noteq> 0 then s\<lparr>tm_bank0 := timer_clear_irq_status status0 (tm_bank0 s)\<rparr> else s)
      in if status1 \<noteq> 0 then s\<lparr>tm_bank1 := timer_clear_irq_status status1 (tm_bank1 s)\<rparr> else s)"

text \<open>The loop of \<open>find_free_timer\<close>, over the timers below \<open>n\<close> from the highest down.\<close>

fun free_below :: "u32 \<Rightarrow> nat \<Rightarrow> 'a timers_scheme \<Rightarrow> nat option" where
  "free_below freq 0 s = None"
| "free_below freq (Suc timer_num) s =
     (if freq \<noteq> 0 \<and> freq > get_timer_frequency timer_num then free_below freq timer_num s
      else if pt_type (tm_handlers s ! timer_num) = TYPE_NONE then Some timer_num
      else free_below freq timer_num s)"

definition find_free_timer :: "u32 \<Rightarrow> 'a timers_scheme \<Rightarrow> nat option" where
  "find_free_timer freq s = free_below freq TIMERS_TOTAL s"

definition timer_reset :: "'a timers_scheme \<Rightarrow> 'a timers_scheme" where
  "timer_reset s =
     (let s = s\<lparr>tm_bank0 := write_ctl 0 0 0 (tm_bank0 s), tm_bank1 := write_ctl 0 0 0 (tm_bank1 s)\<rparr>;
          s = s\<lparr>tm_bank0 := timer_clear_irq_status (tb_irq_status (tm_bank0 s)) (tm_bank0 s)\<rparr>;
          s = s\<lparr>tm_bank1 := timer_clear_irq_status (tb_irq_status (tm_bank1 s)) (tm_bank1 s)\<rparr>
      in s\<lparr>tm_pwd_26m := True, tm_pwd_32k := True\<rparr>)"

text \<open>Powering up and hooking \<open>timer_isr\<close>, here an address, to its source, bit 8 of the interrupt controller.\<close>

abbreviation IRQ_SOURCE_TIMER :: u32 where "IRQ_SOURCE_TIMER \<equiv> 0x100"

definition timer_init :: "nat \<Rightarrow> 'a timers_scheme \<Rightarrow> intc_state \<Rightarrow> ('a timers_scheme \<times> intc_state) option" where
  "timer_init isr s ic =
     do {
       let s = s\<lparr>tm_bank0 := write_ctl 0 0 0 (tm_bank0 s), tm_bank1 := write_ctl 0 0 0 (tm_bank1 s)\<rparr>;
       let s = s\<lparr>tm_pwd_26m := False, tm_pwd_32k := False\<rparr>;
       ic \<leftarrow> intc_register_irq_handler IRQ_SOURCE_TIMER isr ic;
       Some (s, intc_enable_irq_source IRQ_SOURCE_TIMER ic)
     }"

text \<open>What both ways of creating a timer do with the timer found.\<close>

definition occupy_timer :: "nat \<Rightarrow> u32 \<Rightarrow> nat option \<Rightarrow> bool \<Rightarrow> 'a timers_scheme \<Rightarrow> 'a timers_scheme" where
  "occupy_timer timer_num count func once s =
     (let s = s\<lparr>tm_handlers := (tm_handlers s)[timer_num :=
            \<lparr>pt_handler = func, pt_type = if once then TYPE_ONCE else TYPE_PERIODIC\<rparr>]\<rparr>;
          k = get_timer_num_in_bank_by_index timer_num
      in update_bank timer_num (\<lambda>b. timer_clear_irq_status (push_bit k 1) (b\<lparr>tb_counter := (tb_counter b)[k := count]\<rparr>)) s)"

text \<open>\<open>None\<close> in the result is -1.\<close>

definition timer_create :: "u32 \<Rightarrow> nat option \<Rightarrow> bool \<Rightarrow> 'a timers_scheme \<Rightarrow> nat option \<times> 'a timers_scheme" where
  "timer_create count func once s =
     (case find_free_timer 0 s of
        None \<Rightarrow> (None, s)
      | Some timer_num \<Rightarrow> (Some timer_num, occupy_timer timer_num count func once s))"

definition timer_create_by_freq :: "u32 \<Rightarrow> nat option \<Rightarrow> bool \<Rightarrow> 'a timers_scheme \<Rightarrow> (nat option \<times> 'a timers_scheme) option" where
  "timer_create_by_freq freq func once s =
     (case find_free_timer freq s of
        None \<Rightarrow> Some (None, s)
      | Some timer_num \<Rightarrow>
          if freq = 0 then None
          else Some (Some timer_num, occupy_timer timer_num (get_timer_frequency timer_num div freq) func once s))"

definition timer_start :: "int \<Rightarrow> 'a timers_scheme \<Rightarrow> 'a timers_scheme option" where
  "timer_start timer_num s =
     (if timer_num < 0 \<or> timer_num \<ge> int TIMERS_TOTAL \<or> pt_type (tm_handlers s ! nat timer_num) = TYPE_NONE then None
      else
        let i = nat timer_num
        in Some (update_bank i (\<lambda>b. timer_bank_update_enable (bank_bit i) 0 (timer_clear_irq_status (bank_bit i) b)) s))"

definition timer_remove :: "int \<Rightarrow> 'a timers_scheme \<Rightarrow> 'a timers_scheme option" where
  "timer_remove timer_num s =
     (if timer_num < 0 \<or> timer_num \<ge> int TIMERS_TOTAL then None
      else
        let i = nat timer_num;
            s = update_bank i (timer_bank_update_enable 0 (bank_bit i)) s
        in Some (s\<lparr>tm_handlers := (tm_handlers s)[i := free_entry]\<rparr>))"

definition timer_pause_all :: "'a timers_scheme \<Rightarrow> u32 \<times> 'a timers_scheme" where
  "timer_pause_all s =
     (let enabled0 = tb_enable (tm_bank0 s);
          enabled1 = tb_enable (tm_bank1 s);
          s = s\<lparr>tm_bank0 := timer_bank_update_enable 0 enabled0 (tm_bank0 s)\<rparr>;
          s = s\<lparr>tm_bank1 := timer_bank_update_enable 0 enabled1 (tm_bank1 s)\<rparr>
      in (ucast enabled0 OR push_bit TIMERS_IN_BANK (ucast enabled1), s))"

definition timer_resume_all :: "u32 \<Rightarrow> 'a timers_scheme \<Rightarrow> 'a timers_scheme" where
  "timer_resume_all paused_mask s =
     (let s = s\<lparr>tm_bank0 := timer_bank_update_enable (ucast (paused_mask AND (push_bit TIMERS_IN_BANK 1 - 1))) 0 (tm_bank0 s)\<rparr>
      in s\<lparr>tm_bank1 := timer_bank_update_enable (ucast (drop_bit TIMERS_IN_BANK paused_mask AND (push_bit TIMERS_IN_BANK 1 - 1))) 0 (tm_bank1 s)\<rparr>)"

section \<open>The contract of the timers\<close>

text \<open>What a user of the timers sees of timer \<open>i\<close>.\<close>

definition in_use :: "'a timers_scheme \<Rightarrow> nat \<Rightarrow> bool" where
  "in_use s i \<longleftrightarrow> pt_type (tm_handlers s ! i) \<noteq> TYPE_NONE"

definition running :: "'a timers_scheme \<Rightarrow> nat \<Rightarrow> bool" where
  "running s i \<longleftrightarrow> bit (tb_enable (get_timer_bank_by_index i s)) (get_timer_num_in_bank_by_index i)"

definition pending :: "'a timers_scheme \<Rightarrow> nat \<Rightarrow> bool" where
  "pending s i \<longleftrightarrow> bit (tb_irq_status (get_timer_bank_by_index i s)) (get_timer_num_in_bank_by_index i)"

definition period :: "'a timers_scheme \<Rightarrow> nat \<Rightarrow> u32" where
  "period s i = tb_counter (get_timer_bank_by_index i s) ! get_timer_num_in_bank_by_index i"

definition tm_ok :: "'a timers_scheme \<Rightarrow> bool" where
  "tm_ok s \<longleftrightarrow> length (tm_handlers s) = TIMERS_TOTAL \<and> length (tb_counter (tm_bank0 s)) = 3 \<and> length (tb_counter (tm_bank1 s)) = 3"

locale timer_pool =
  fixes ok :: "'s \<Rightarrow> bool"
    and used :: "'s \<Rightarrow> nat \<Rightarrow> bool"
    and going :: "'s \<Rightarrow> nat \<Rightarrow> bool"
    and suits :: "nat \<Rightarrow> bool"
    and create :: "'s \<Rightarrow> (nat option \<times> 's) option"
    and start :: "int \<Rightarrow> 's \<Rightarrow> 's option"
    and remove :: "int \<Rightarrow> 's \<Rightarrow> 's option"
    and total :: nat
  assumes create_law: "ok s \<Longrightarrow> \<exists>r s'. create s = Some (r, s') \<and> ok s' \<and> going s' = going s \<and>
      (case r of None \<Rightarrow> s' = s \<and> (\<forall>i < total. suits i \<longrightarrow> used s i)
       | Some i \<Rightarrow> i < total \<and> suits i \<and> \<not> used s i \<and> used s' = (used s)(i := True))"
    and start_law: "ok s \<Longrightarrow> i < total \<Longrightarrow> used s i \<Longrightarrow>
      \<exists>s'. start (int i) s = Some s' \<and> ok s' \<and> used s' = used s \<and> (\<forall>j < total. going s' j = (going s j \<or> j = i))"
    and remove_law: "ok s \<Longrightarrow> i < total \<Longrightarrow>
      \<exists>s'. remove (int i) s = Some s' \<and> ok s' \<and> used s' = (used s)(i := False) \<and> (\<forall>j < total. going s' j = (going s j \<and> j \<noteq> i))"
begin

text \<open>After a timer is given back another one can be had.\<close>

lemma create_after_remove:
  assumes "ok s" "i < total" "suits i" "remove (int i) s = Some s'"
  shows "\<exists>j s''. create s' = Some (Some j, s'') \<and> j < total"
proof -
  have s': "ok s'" "used s' = (used s)(i := False)" using remove_law [OF assms(1,2)] assms(4) by auto
  then obtain r s'' where r: "create s' = Some (r, s'')"
    "case r of None \<Rightarrow> s'' = s' \<and> (\<forall>i < total. suits i \<longrightarrow> used s' i)
       | Some i \<Rightarrow> i < total \<and> suits i \<and> \<not> used s' i \<and> used s'' = (used s')(i := True)"
    using create_law [OF s'(1)] by blast
  have "r \<noteq> None"
  proof
    assume "r = None"
    then have "used s' i" using r(2) assms(2,3) by simp
    then show False using s'(2) by simp
  qed
  then show ?thesis using r by (cases r) auto
qed

lemma create_start:
  assumes "ok s" "create s = Some (Some i, s')"
  shows "\<exists>s''. start (int i) s' = Some s'' \<and> ok s'' \<and> used s'' = (used s)(i := True) \<and> going s'' i"
proof -
  have "ok s'" "i < total" "used s' = (used s)(i := True)" using create_law [OF assms(1)] assms(2) by auto
  then show ?thesis using start_law [of s' i] by auto
qed

end

section \<open>The timers keep it\<close>

lemma clear_irq_eq: "timer_clear_irq_status status b = b\<lparr>tb_irq_status := tb_irq_status b AND NOT status\<rparr>"
proof (cases "tb_irq_status b AND status = 0")
  case True
  then have "tb_irq_status b AND NOT status = tb_irq_status b"
    by (auto simp: bit_eq_iff bit_simps)
  then show ?thesis using True by (simp add: timer_clear_irq_status.simps)
next
  case False
  have "(tb_irq_status b AND NOT status) AND status = 0" by (intro bit_word_eqI) (simp add: bit_simps)
  then show ?thesis using False
    by (subst timer_clear_irq_status.simps) (simp add: timer_clear_irq_status.simps write_ctl_def)
qed

lemma free_below_Some:
  "free_below freq n s = Some i \<Longrightarrow> i < n \<and> \<not> in_use s i \<and> (freq \<noteq> 0 \<longrightarrow> freq \<le> get_timer_frequency i)"
  by (induction n) (auto simp: in_use_def split: if_splits)

lemma free_below_None:
  "free_below freq n s = None \<Longrightarrow> i < n \<Longrightarrow> freq = 0 \<or> freq \<le> get_timer_frequency i \<Longrightarrow> in_use s i"
  by (induction n) (auto simp: in_use_def less_Suc_eq split: if_splits)

lemmas bank_defs = get_timer_bank_by_index_def get_timer_num_in_bank_by_index_def set_timer_bank_def update_bank_def

lemma occupy_fields:
  assumes "tm_ok s" "i < TIMERS_TOTAL" "s' = occupy_timer i count func once s"
  shows "tm_ok s'" "in_use s' = (in_use s)(i := True)" "running s' = running s" "period s' i = count"
    "j < TIMERS_TOTAL \<Longrightarrow> j \<noteq> i \<Longrightarrow> tm_handlers s' ! j = tm_handlers s ! j \<and> period s' j = period s j \<and> pending s' j = pending s j"
    "\<not> pending s' i"
proof -
  have num: "get_timer_num_in_bank_by_index i < 3" using assms(2) by (auto simp: get_timer_num_in_bank_by_index_def)
  have len: "length (tm_handlers s) = 6" "length (tb_counter (tm_bank0 s)) = 3" "length (tb_counter (tm_bank1 s)) = 3"
    using assms(1) by (simp_all add: tm_ok_def)
  note d = occupy_timer_def Let_def bank_defs clear_irq_eq assms(3)
  show "tm_ok s'" using len by (simp add: tm_ok_def d)
  show "in_use s' = (in_use s)(i := True)"
    using len assms(2) by (auto simp: in_use_def d fun_eq_iff nth_list_update)
  show "running s' = running s" by (auto simp: running_def d fun_eq_iff)
  show "period s' i = count" using len num assms(2) by (auto simp: period_def d)
  show "\<not> pending s' i" by (auto simp: pending_def d bit_simps)
  show "tm_handlers s' ! j = tm_handlers s ! j \<and> period s' j = period s j \<and> pending s' j = pending s j"
    if "j < TIMERS_TOTAL" "j \<noteq> i"
    using that assms(2) by (auto simp: period_def pending_def d bit_simps)
qed

lemma update_enable_running:
  assumes "j < TIMERS_TOTAL"
  shows "running (update_bank i (\<lambda>b. timer_bank_update_enable set_bits clear (timer_clear_irq_status st b)) s) j
      = (if (i < TIMERS_IN_BANK) = (j < TIMERS_IN_BANK)
         then (running s j \<or> bit set_bits (get_timer_num_in_bank_by_index j)) \<and> \<not> bit clear (get_timer_num_in_bank_by_index j)
         else running s j)"
proof -
  have "get_timer_num_in_bank_by_index j < 3" using assms by (auto simp: get_timer_num_in_bank_by_index_def)
  then show ?thesis
    by (auto simp: running_def bank_defs timer_bank_update_enable_def write_ctl_def clear_irq_eq bit_simps)
qed

lemma clear_irq_0: "timer_clear_irq_status 0 b = b"
  by (simp add: clear_irq_eq)

lemma bank_bit_bit:
  assumes "i < TIMERS_TOTAL" "j < TIMERS_TOTAL" "(i < TIMERS_IN_BANK) = (j < TIMERS_IN_BANK)"
  shows "bit (bank_bit i) (get_timer_num_in_bank_by_index j) \<longleftrightarrow> j = i"
  using assms by (auto simp: get_timer_num_in_bank_by_index_def bit_simps)

lemma create_by_freq_law:
  assumes "tm_ok s" "freq \<noteq> 0"
  shows "\<exists>r s'. timer_create_by_freq freq func once s = Some (r, s') \<and> tm_ok s' \<and> running s' = running s \<and>
    (case r of None \<Rightarrow> s' = s \<and> (\<forall>i < TIMERS_TOTAL. freq \<le> get_timer_frequency i \<longrightarrow> in_use s i)
     | Some i \<Rightarrow> i < TIMERS_TOTAL \<and> freq \<le> get_timer_frequency i \<and> \<not> in_use s i \<and> in_use s' = (in_use s)(i := True))"
proof (cases "find_free_timer freq s")
  case None
  then show ?thesis using assms free_below_None [of freq TIMERS_TOTAL s] by (simp add: timer_create_by_freq_def find_free_timer_def)
next
  case (Some i)
  then have i: "i < TIMERS_TOTAL" "\<not> in_use s i" "freq \<le> get_timer_frequency i"
    using free_below_Some [of freq TIMERS_TOTAL s i] assms(2) by (simp_all add: find_free_timer_def)
  then show ?thesis using Some assms(2) occupy_fields [OF assms(1) i(1) refl] by (simp add: timer_create_by_freq_def)
qed

lemma start_law:
  assumes "tm_ok s" "i < TIMERS_TOTAL" "in_use s i"
  shows "\<exists>s'. timer_start (int i) s = Some s' \<and> tm_ok s' \<and> in_use s' = in_use s \<and> (\<forall>j < TIMERS_TOTAL. running s' j = (running s j \<or> j = i))"
proof -
  let ?s = "update_bank i (\<lambda>b. timer_bank_update_enable (bank_bit i) 0 (timer_clear_irq_status (bank_bit i) b)) s"
  have "timer_start (int i) s = Some ?s" using assms by (simp add: timer_start_def in_use_def)
  moreover have "tm_ok ?s" "in_use ?s = in_use s"
    using assms(1) by (simp_all add: tm_ok_def in_use_def fun_eq_iff bank_defs timer_bank_update_enable_def write_ctl_def clear_irq_eq)
  moreover have "running ?s j = (running s j \<or> j = i)" if "j < TIMERS_TOTAL" for j
    using update_enable_running [OF that, of i "bank_bit i" 0 "bank_bit i" s] bank_bit_bit [OF assms(2) that] by auto
  ultimately show ?thesis by blast
qed

lemma remove_law:
  assumes "tm_ok s" "i < TIMERS_TOTAL"
  shows "\<exists>s'. timer_remove (int i) s = Some s' \<and> tm_ok s' \<and> in_use s' = (in_use s)(i := False)
    \<and> (\<forall>j < TIMERS_TOTAL. running s' j = (running s j \<and> j \<noteq> i))"
proof -
  let ?s = "update_bank i (timer_bank_update_enable 0 (bank_bit i)) s"
  let ?s' = "?s\<lparr>tm_handlers := (tm_handlers ?s)[i := free_entry]\<rparr>"
  have "timer_remove (int i) s = Some ?s'" using assms by (simp add: timer_remove_def Let_def)
  moreover have "tm_ok ?s'" "in_use ?s' = (in_use s)(i := False)"
    using assms by (auto simp: tm_ok_def in_use_def fun_eq_iff bank_defs timer_bank_update_enable_def write_ctl_def free_entry_def nth_list_update)
  moreover have "running ?s' j = (running s j \<and> j \<noteq> i)" if "j < TIMERS_TOTAL" for j
    using update_enable_running [OF that, of i 0 "bank_bit i" 0 s] bank_bit_bit [OF assms(2) that]
    by (auto simp: clear_irq_0 running_def bank_defs)
  ultimately show ?thesis by blast
qed

text \<open>The millisecond timers the timeouts use.\<close>

interpretation ms_timers: timer_pool tm_ok in_use running "\<lambda>i. 1000 \<le> get_timer_frequency i"
  "timer_create_by_freq 1000 func False" timer_start timer_remove TIMERS_TOTAL
  by unfold_locales (simp_all add: create_by_freq_law start_law remove_law)

section \<open>Theorems\<close>

text \<open>A timer that is created was free, runs from a clock that can reach the frequency, has the period of the
  frequency (at least one clock) and no stale interrupt, and nothing of the other timers changes. It fails only when
  every timer that could reach the frequency is in use.\<close>

theorem timer_create_exclusive:
  assumes "tm_ok s" "freq \<noteq> 0"
  shows "case timer_create_by_freq freq func once s of
      None \<Rightarrow> False
    | Some (None, s') \<Rightarrow> s' = s \<and> (\<forall>i < TIMERS_TOTAL. freq \<le> get_timer_frequency i \<longrightarrow> in_use s i)
    | Some (Some i, s') \<Rightarrow> i < TIMERS_TOTAL \<and> \<not> in_use s i \<and> in_use s' = (in_use s)(i := True) \<and> freq \<le> get_timer_frequency i
        \<and> period s' i = get_timer_frequency i div freq \<and> 1 \<le> period s' i \<and> \<not> pending s' i \<and> running s' = running s
        \<and> (\<forall>j < TIMERS_TOTAL. j \<noteq> i \<longrightarrow> tm_handlers s' ! j = tm_handlers s ! j \<and> period s' j = period s j \<and> pending s' j = pending s j)"
proof (cases "find_free_timer freq s")
  case None
  then show ?thesis using free_below_None [of freq TIMERS_TOTAL s] by (simp add: timer_create_by_freq_def find_free_timer_def)
next
  case (Some i)
  then have i: "i < TIMERS_TOTAL" "\<not> in_use s i" "freq \<le> get_timer_frequency i"
    using free_below_Some [of freq TIMERS_TOTAL s i] assms(2) by (simp_all add: find_free_timer_def)
  have "0 < unat freq" using assms(2) by (simp add: unsigned_eq_0_iff flip: neq0_conv)
  moreover have "unat freq \<le> unat (get_timer_frequency i)" using i(3) by (simp add: word_le_nat_alt)
  ultimately have "1 \<le> unat (get_timer_frequency i) div unat freq" using div_le_mono [of "unat freq" _ "unat freq"] by simp
  then have "1 \<le> get_timer_frequency i div freq" by (simp add: word_le_nat_alt unat_div)
  then show ?thesis using Some assms(2) i occupy_fields [OF assms(1) i(1) refl] by (auto simp: timer_create_by_freq_def)
qed

lemmas free_below_numeral = free_below.simps(2) [of _ "pred_numeral k" for k, folded numeral_eq_Suc]

theorem timer_create_exclusive_witness:
  "\<exists>s'. timer_create_by_freq 1000 (Some 7) False
      \<lparr>tm_bank0 = \<lparr>tb_counter = [0, 0, 0], tb_enable = 0, tb_clk_divider = 0, tb_irq_status = 0\<rparr>,
       tm_bank1 = \<lparr>tb_counter = [0, 0, 0], tb_enable = 0, tb_clk_divider = 0, tb_irq_status = 4\<rparr>,
       tm_handlers = replicate 6 free_entry, tm_pwd_26m = False, tm_pwd_32k = False\<rparr> = Some (Some 5, s') \<and> period s' 5 = 32 \<and> \<not> pending s' 5"
proof -
  let ?s = "\<lparr>tm_bank0 = \<lparr>tb_counter = [0, 0, 0], tb_enable = 0, tb_clk_divider = 0, tb_irq_status = 0\<rparr>,
       tm_bank1 = \<lparr>tb_counter = [0, 0, 0], tb_enable = 0, tb_clk_divider = 0, tb_irq_status = 4\<rparr>,
       tm_handlers = replicate 6 free_entry, tm_pwd_26m = False, tm_pwd_32k = False\<rparr>"
  have ok: "tm_ok ?s" by (simp add: tm_ok_def)
  have f: "find_free_timer 1000 ?s = Some 5"
    by (simp add: find_free_timer_def free_below_numeral get_timer_frequency_def free_entry_def)
  obtain s' where s': "timer_create_by_freq 1000 (Some 7) False ?s = Some (Some 5, s')" using f by (simp add: timer_create_by_freq_def)
  then show ?thesis using timer_create_exclusive [OF ok, of 1000 "Some 7" False] by (simp add: get_timer_frequency_def)
qed

lemma split_mask:
  fixes e0 e1 :: bank_bits
  defines "m \<equiv> ucast e0 OR push_bit TIMERS_IN_BANK (ucast e1) :: u32"
  shows "ucast (m AND (push_bit TIMERS_IN_BANK 1 - 1)) = e0" "ucast (drop_bit TIMERS_IN_BANK m AND (push_bit TIMERS_IN_BANK 1 - 1)) = e1"
    "i < 3 \<Longrightarrow> bit m i = bit e0 i" "bit m (i + 3) = bit e1 i"
proof -
  have mask: "(push_bit TIMERS_IN_BANK 1 - 1 :: u32) = mask 3" by (simp add: mask_eq_exp_minus_1)
  note e = bit_imp_le_length [of e0] bit_imp_le_length [of e1]
  show "ucast (m AND (push_bit TIMERS_IN_BANK 1 - 1)) = e0"
    unfolding mask m_def by (intro bit_word_eqI) (auto simp: bit_simps)
  show "ucast (drop_bit TIMERS_IN_BANK m AND (push_bit TIMERS_IN_BANK 1 - 1)) = e1"
    unfolding mask m_def using e by (intro bit_word_eqI) (auto simp: bit_simps)
  show "i < 3 \<Longrightarrow> bit m i = bit e0 i" unfolding m_def by (auto simp: bit_simps)
  show "bit m (i + 3) = bit e1 i" unfolding m_def using e(1) [of "i + 3"] e(2) [of i] by (auto simp: bit_simps)
qed

text \<open>Pausing all timers and resuming with the mask that was returned restores the state exactly: in between nothing
  runs, the mask names the timers that ran, and no pending interrupt is lost on the way.\<close>

theorem timer_pause_resume:
  "let (m, s1) = timer_pause_all s
   in (\<forall>i < TIMERS_TOTAL. \<not> running s1 i \<and> bit m i = running s i \<and> pending s1 i = pending s i) \<and> timer_resume_all m s1 = s"
proof -
  let ?e0 = "tb_enable (tm_bank0 s)" and ?e1 = "tb_enable (tm_bank1 s)"
  let ?m = "ucast ?e0 OR push_bit TIMERS_IN_BANK (ucast ?e1) :: u32"
  let ?s1 = "s\<lparr>tm_bank0 := (tm_bank0 s)\<lparr>tb_enable := 0\<rparr>, tm_bank1 := (tm_bank1 s)\<lparr>tb_enable := 0\<rparr>\<rparr>"
  have "?e AND NOT ?e = 0" for e :: bank_bits by (intro bit_word_eqI) (simp add: bit_simps)
  then have p: "timer_pause_all s = (?m, ?s1)"
    by (simp add: timer_pause_all_def Let_def timer_bank_update_enable_def write_ctl_def)
  have "timer_resume_all ?m ?s1 = s"
    unfolding timer_resume_all_def Let_def timer_bank_update_enable_def write_ctl_def split_mask(1,2) by simp
  moreover have "\<not> running ?s1 i \<and> bit ?m i = running s i \<and> pending ?s1 i = pending s i" if "i < TIMERS_TOTAL" for i
  proof (cases "i < TIMERS_IN_BANK")
    case True
    then show ?thesis using split_mask(3) [of i ?e0 ?e1] by (simp add: running_def pending_def bank_defs)
  next
    case False
    then show ?thesis using split_mask(4) [of ?e0 ?e1 "i - 3"] by (simp add: running_def pending_def bank_defs)
  qed
  ultimately show ?thesis using p by simp
qed

theorem timer_pause_resume_witness:
  "\<exists>s :: timers. running s 1 \<and> running s 4 \<and> \<not> running (snd (timer_pause_all s)) 4 \<and> bit (fst (timer_pause_all s)) 4"
proof -
  let ?s = "\<lparr>tm_bank0 = \<lparr>tb_counter = [0, 0, 0], tb_enable = 2, tb_clk_divider = 0, tb_irq_status = 0\<rparr>,
       tm_bank1 = \<lparr>tb_counter = [0, 0, 0], tb_enable = 2, tb_clk_divider = 0, tb_irq_status = 4\<rparr>,
       tm_handlers = replicate 6 free_entry, tm_pwd_26m = False, tm_pwd_32k = False\<rparr> :: timers"
  have "running ?s 1" "running ?s 4" by (simp_all add: running_def bank_defs)
  then show ?thesis using timer_pause_resume [of ?s] by (intro exI [of _ ?s]) (simp add: case_prod_unfold Let_def)
qed

end
