(* ===== verification/Timeout.thy ===== *)
theory Timeout
  imports Timer
begin

text \<open>
  Software timeouts over one hardware timer, \<open>src/src/platform/misc/timeout/timeout.c\<close>: a linked list of structs the
  callers own, counted down in the timer's interrupt. The structs live in a store, from addresses to their two fields; a
  walk along the list is a partial function, since a broken list need not end. The list is shown to implement a sequence
  of (address, remaining ticks), and a timeout to expire after exactly \<open>ms + 1\<close> ticks of the timer whatever other timeouts
  come and go.
\<close>

section \<open>The list\<close>

abbreviation TIMEOUT_TICK_HZ :: u32 where "TIMEOUT_TICK_HZ \<equiv> 1000"
abbreviation REMOVE_DELAY_TICKS :: int where "REMOVE_DELAY_TICKS \<equiv> 1000"
abbreviation INFINITE_TIMEOUT :: u32 where "INFINITE_TIMEOUT \<equiv> 0"

text \<open>The static variable \<open>timeouts\<close>, the fields of the structs, and the timers below.\<close>

record timeouts = timers +
  to_head         :: "nat option"
  to_timer        :: int
  to_remove_delay :: int
  to_next         :: "nat \<Rightarrow> nat option"
  to_ticks        :: "nat \<Rightarrow> u32"

definition remove_current :: "nat option \<Rightarrow> nat \<Rightarrow> timeouts \<Rightarrow> timeouts" where
  "remove_current prev current s =
     (case prev of
        Some p \<Rightarrow> s\<lparr>to_next := (to_next s)(p := to_next s current)\<rparr>
      | None \<Rightarrow> s\<lparr>to_head := to_next s current\<rparr>)"

partial_function (option) isr_walk :: "nat option \<Rightarrow> nat option \<Rightarrow> timeouts \<Rightarrow> timeouts option" where
  "isr_walk prev current s =
     (case current of
        None \<Rightarrow> Some s
      | Some c \<Rightarrow>
          let s = (if to_ticks s c > 0 then s\<lparr>to_ticks := (to_ticks s)(c := to_ticks s c - 1)\<rparr> else s)
          in if to_ticks s c = 0
             then let s = (remove_current prev c s)\<lparr>to_remove_delay := REMOVE_DELAY_TICKS\<rparr> in isr_walk prev (to_next s c) s
             else isr_walk (Some c) (to_next s c) s)"

definition timeout_isr :: "int \<Rightarrow> timeouts \<Rightarrow> timeouts option" where
  "timeout_isr timer_num s =
     (if to_head s = None then
        if to_remove_delay s \<le> 0 then
          do {
            s \<leftarrow> timer_remove timer_num s;
            Some (s\<lparr>to_timer := - 1\<rparr>)
          }
        else Some (s\<lparr>to_remove_delay := to_remove_delay s - 1\<rparr>)
      else if timer_num \<noteq> to_timer s then Some s
      else isr_walk None (to_head s) s)"

text \<open>\<open>while (current->next) current = current->next;\<close>\<close>

partial_function (option) tail_walk :: "nat \<Rightarrow> timeouts \<Rightarrow> nat option" where
  "tail_walk current s = (case to_next s current of None \<Rightarrow> Some current | Some n \<Rightarrow> tail_walk n s)"

definition append_timeout :: "nat \<Rightarrow> timeouts \<Rightarrow> timeouts option" where
  "append_timeout t s =
     (case to_head s of
        None \<Rightarrow> Some (s\<lparr>to_head := Some t\<rparr>)
      | Some h \<Rightarrow>
          do {
            last \<leftarrow> tail_walk h s;
            Some (s\<lparr>to_next := (to_next s)(last := Some t)\<rparr>)
          })"

text \<open>The timer is created the first time it is needed; \<open>isr\<close> is the address of \<open>timeout_isr\<close>. \<open>False\<close> when there is none.\<close>

definition ensure_timer :: "nat \<Rightarrow> timeouts \<Rightarrow> (bool \<times> timeouts) option" where
  "ensure_timer isr s =
     (if to_timer s < 0 then
        do {
          (timer_num, s) \<leftarrow> timer_create_by_freq TIMEOUT_TICK_HZ (Some isr) False s;
          (case timer_num of
             None \<Rightarrow> Some (False, s)
           | Some n \<Rightarrow>
               do {
                 s \<leftarrow> timer_start (int n) (s\<lparr>to_timer := int n\<rparr>);
                 Some (True, s)
               })
        }
      else Some (True, s))"

definition create_timeout :: "nat \<Rightarrow> nat \<Rightarrow> u32 \<Rightarrow> timeouts \<Rightarrow> (bool \<times> timeouts) option" where
  "create_timeout isr t ms s =
     (let infinite_timeout = (ms = INFINITE_TIMEOUT);
          ticks = (if infinite_timeout then 0xffffffff else ms + 1)
      in if ticks = 0 then Some (False, s)
         else
           let s = s\<lparr>to_ticks := (to_ticks s)(t := ticks), to_next := (to_next s)(t := None)\<rparr>
           in if infinite_timeout then Some (True, s)
              else
                do {
                  (ok, s) \<leftarrow> ensure_timer isr s;
                  if \<not> ok then Some (False, s)
                  else do {
                    s \<leftarrow> append_timeout t s;
                    Some (True, s)
                  }
                })"

partial_function (option) free_walk :: "nat \<Rightarrow> nat option \<Rightarrow> nat option \<Rightarrow> timeouts \<Rightarrow> timeouts option" where
  "free_walk t prev current s =
     (case current of
        None \<Rightarrow> Some s
      | Some c \<Rightarrow>
          if c = t then Some ((remove_current prev c s)\<lparr>to_remove_delay := REMOVE_DELAY_TICKS\<rparr>)
          else free_walk t (Some c) (to_next s c) s)"

definition free_timeout :: "nat \<Rightarrow> timeouts \<Rightarrow> timeouts option" where
  "free_timeout t s =
     (let s = s\<lparr>to_ticks := (to_ticks s)(t := 0)\<rparr> in free_walk t None (to_head s) s)"

definition is_timeout_finished :: "nat \<Rightarrow> timeouts \<Rightarrow> bool" where
  "is_timeout_finished t s \<longleftrightarrow> to_ticks s t = 0"

section \<open>The abstract list\<close>

text \<open>\<open>chain nx a xs\<close>: following \<open>nx\<close> from \<open>a\<close> visits \<open>xs\<close> and ends.\<close>

fun chain :: "(nat \<Rightarrow> nat option) \<Rightarrow> nat option \<Rightarrow> nat list \<Rightarrow> bool" where
  "chain nx a [] = (a = None)"
| "chain nx a (x # xs) = (a = Some x \<and> chain nx (nx x) xs)"

lemma chain_upd: "y \<notin> set xs \<Longrightarrow> chain (nx(y := v)) a xs = chain nx a xs"
  by (induction xs arbitrary: a) auto

lemma chain_append: "chain nx a (xs @ y # ys) \<Longrightarrow> chain nx (Some y) (y # ys)"
  by (induction xs arbitrary: a) auto

text \<open>The way from the head to the place \<open>prev\<close>, the last of \<open>pre\<close>, points to.\<close>

fun lseg :: "(nat \<Rightarrow> nat option) \<Rightarrow> nat option \<Rightarrow> nat list \<Rightarrow> nat option \<Rightarrow> bool" where
  "lseg nx a [] b = (a = b)"
| "lseg nx a (x # xs) b = (a = Some x \<and> lseg nx (nx x) xs b)"

lemma lseg_upd: "y \<notin> set xs \<Longrightarrow> lseg (nx(y := v)) a xs b = lseg nx a xs b"
  by (induction xs arbitrary: a) auto

lemma lseg_snoc: "lseg nx a (xs @ [y]) b \<longleftrightarrow> lseg nx a xs (Some y) \<and> nx y = b"
  by (induction xs arbitrary: a) auto

lemma chain_lseg: "chain nx a (xs @ ys) \<longleftrightarrow> (\<exists>b. lseg nx a xs b \<and> chain nx b ys)"
  by (induction xs arbitrary: a) auto

abbreviation prev_of :: "nat list \<Rightarrow> nat option" where
  "prev_of pre \<equiv> (if pre = [] then None else Some (last pre))"

text \<open>Taking out the element after \<open>pre\<close>.\<close>

lemma remove_chain:
  assumes "distinct (pre @ c # xs)" "lseg (to_next s) (to_head s) pre (Some c)" "chain (to_next s) (Some c) (c # xs)"
    and "s' = remove_current (prev_of pre) c s"
  shows "lseg (to_next s') (to_head s') pre (to_next s c)" "chain (to_next s') (to_next s c) xs" "to_next s' c = to_next s c"
    "to_ticks s' = to_ticks s" "timers.truncate s' = timers.truncate s" "to_timer s' = to_timer s"
proof -
  show "lseg (to_next s') (to_head s') pre (to_next s c)"
  proof (cases pre rule: rev_cases)
    case Nil
    then show ?thesis using assms(4) by (simp add: remove_current_def)
  next
    case (snoc ys p)
    then show ?thesis using assms by (simp add: remove_current_def lseg_snoc lseg_upd)
  qed
  have p: "pre \<noteq> [] \<Longrightarrow> last pre \<notin> set xs \<and> last pre \<noteq> c" using assms(1) by (cases pre rule: rev_cases) auto
  then show "chain (to_next s') (to_next s c) xs"
    using assms by (auto simp: remove_current_def chain_upd)
  show "to_next s' c = to_next s c" "to_ticks s' = to_ticks s" "timers.truncate s' = timers.truncate s" "to_timer s' = to_timer s"
    using assms(4) p by (auto simp: remove_current_def timers.truncate_def)
qed

section \<open>One tick\<close>

lemma isr_walk_correct:
  "distinct (pre @ xs) \<Longrightarrow> lseg (to_next s) (to_head s) pre cur \<Longrightarrow> chain (to_next s) cur xs \<Longrightarrow> \<forall>x \<in> set xs. 0 < to_ticks s x \<Longrightarrow>
     \<exists>s'. isr_walk (prev_of pre) cur s = Some s' \<and> chain (to_next s') (to_head s') (pre @ filter (\<lambda>x. 1 < to_ticks s x) xs)
       \<and> to_ticks s' = (\<lambda>x. if x \<in> set xs then to_ticks s x - 1 else to_ticks s x)
       \<and> timers.truncate s' = timers.truncate s \<and> to_timer s' = to_timer s"
proof (induction xs arbitrary: pre s cur)
  case Nil
  then show ?case using chain_lseg [of "to_next s" "to_head s" pre "[]"] by (simp add: isr_walk.simps)
next
  case (Cons c xs)
  let ?s1 = "s\<lparr>to_ticks := (to_ticks s)(c := to_ticks s c - 1)\<rparr>"
  have cur: "cur = Some c" "chain (to_next s) (to_next s c) xs" and pos: "0 < to_ticks s c" using Cons.prems(3,4) by auto
  have one: "to_ticks s c - 1 = 0 \<longleftrightarrow> \<not> 1 < to_ticks s c" using pos by (auto simp: word_less_nat_alt unsigned_eq_0_iff) unat_arith+
  have tr: "timers.truncate ?s1 = timers.truncate s" by (simp add: timers.truncate_def)
  have c: "c \<notin> set xs" using Cons.prems(1) by simp
  have fl: "filter (\<lambda>x. 1 < ((to_ticks s)(c := to_ticks s c - 1)) x) xs = filter (\<lambda>x. 1 < to_ticks s x) xs"
    using c by (intro filter_cong) auto
  show ?case
  proof (cases "1 < to_ticks s c")
    case True
    have h: "distinct ((pre @ [c]) @ xs)" "lseg (to_next ?s1) (to_head ?s1) (pre @ [c]) (to_next s c)"
      "chain (to_next ?s1) (to_next s c) xs" "\<forall>x \<in> set xs. 0 < to_ticks ?s1 x"
      using Cons.prems cur c by (auto simp: lseg_snoc)
    obtain s' where s': "isr_walk (prev_of (pre @ [c])) (to_next s c) ?s1 = Some s'
       \<and> chain (to_next s') (to_head s') ((pre @ [c]) @ filter (\<lambda>x. 1 < to_ticks ?s1 x) xs)
       \<and> to_ticks s' = (\<lambda>x. if x \<in> set xs then to_ticks ?s1 x - 1 else to_ticks ?s1 x)
       \<and> timers.truncate s' = timers.truncate ?s1 \<and> to_timer s' = to_timer ?s1"
      using Cons.IH [OF h] by blast
    have "to_ticks s' = (\<lambda>x. if x \<in> set (c # xs) then to_ticks s x - 1 else to_ticks s x)" using s' c by (auto simp: fun_eq_iff)
    moreover have "isr_walk (prev_of pre) cur s = isr_walk (prev_of (pre @ [c])) (to_next s c) ?s1"
      using True pos one cur(1) by (simp add: isr_walk.simps [of _ "Some c"] Let_def)
    ultimately show ?thesis using True s' fl tr by (intro exI [of _ s']) simp
  next
    case False
    let ?s2 = "(remove_current (prev_of pre) c ?s1)\<lparr>to_remove_delay := REMOVE_DELAY_TICKS\<rparr>"
    have d: "distinct (pre @ c # xs)" using Cons.prems(1) by simp
    note r = remove_chain [OF d, of ?s1, OF _ _ refl]
    have l: "lseg (to_next ?s1) (to_head ?s1) pre (Some c)" "chain (to_next ?s1) (Some c) (c # xs)" using Cons.prems(2) cur by simp_all
    have h: "distinct (pre @ xs)" "lseg (to_next ?s2) (to_head ?s2) pre (to_next s c)" "chain (to_next ?s2) (to_next s c) xs"
      "\<forall>x \<in> set xs. 0 < to_ticks ?s2 x"
      using Cons.prems r [OF l] c by auto
    obtain s' where s': "isr_walk (prev_of pre) (to_next s c) ?s2 = Some s' \<and> chain (to_next s') (to_head s') (pre @ filter (\<lambda>x. 1 < to_ticks ?s2 x) xs)
       \<and> to_ticks s' = (\<lambda>x. if x \<in> set xs then to_ticks ?s2 x - 1 else to_ticks ?s2 x)
       \<and> timers.truncate s' = timers.truncate ?s2 \<and> to_timer s' = to_timer ?s2"
      using Cons.IH [OF h] by blast
    have "isr_walk (prev_of pre) cur s = isr_walk (prev_of pre) (to_next s c) ?s2"
      using False pos one cur(1) r(3) [OF l] by (simp add: isr_walk.simps [of _ "Some c"] Let_def)
    moreover have s2: "to_ticks ?s2 = (to_ticks s)(c := to_ticks s c - 1)" "timers.truncate ?s2 = timers.truncate s" "to_timer ?s2 = to_timer s"
      using r(4,5,6) [OF l] tr by (simp_all add: timers.truncate_def)
    moreover have "to_ticks s' = (\<lambda>x. if x \<in> set (c # xs) then to_ticks s x - 1 else to_ticks s x)"
      using s' s2(1) c by (auto simp: fun_eq_iff)
    ultimately show ?thesis using False s' fl by (intro exI [of _ s']) simp
  qed
qed

section \<open>Adding and removing\<close>

lemma tail_walk_correct: "chain (to_next s) (Some h) (xs @ [l]) \<Longrightarrow> tail_walk h s = Some l"
proof (induction xs arbitrary: h)
  case Nil
  then show ?case by (simp add: tail_walk.simps)
next
  case (Cons x xs)
  then obtain n where n: "to_next s h = Some n" "chain (to_next s) (Some n) (xs @ [l])" by (cases "to_next s h"; cases xs) auto
  then show ?case using Cons.IH [OF n(2)] by (simp add: tail_walk.simps [of h])
qed

lemma append_correct:
  assumes "chain (to_next s) (to_head s) xs" "distinct xs" "t \<notin> set xs" "to_next s t = None"
  shows "\<exists>s'. append_timeout t s = Some s' \<and> chain (to_next s') (to_head s') (xs @ [t]) \<and> to_ticks s' = to_ticks s
    \<and> timers.truncate s' = timers.truncate s \<and> to_timer s' = to_timer s"
proof (cases xs rule: rev_cases)
  case Nil
  then show ?thesis using assms by (simp add: append_timeout_def timers.truncate_def)
next
  case (snoc ys l)
  then obtain h where h: "to_head s = Some h" using assms(1) by (cases ys) auto
  have c: "lseg (to_next s) (to_head s) ys (Some l)" "to_next s l = None"
    using assms(1) snoc by (auto simp: chain_lseg)
  have "lseg ((to_next s)(l := Some t)) (to_head s) ys (Some l)" using c(1) assms(2) snoc by (simp add: lseg_upd)
  then have "chain ((to_next s)(l := Some t)) (to_head s) (ys @ [l, t])"
    using assms(3,4) snoc by (auto simp: chain_lseg)
  then show ?thesis using tail_walk_correct [of s h ys l] assms(1) h snoc
    by (simp add: append_timeout_def timers.truncate_def)
qed

lemma free_walk_correct:
  "distinct (pre @ xs) \<Longrightarrow> lseg (to_next s) (to_head s) pre cur \<Longrightarrow> chain (to_next s) cur xs \<Longrightarrow> t \<notin> set pre \<Longrightarrow>
     \<exists>s'. free_walk t (prev_of pre) cur s = Some s' \<and> chain (to_next s') (to_head s') (pre @ filter (\<lambda>x. x \<noteq> t) xs) \<and> to_ticks s' = to_ticks s
       \<and> timers.truncate s' = timers.truncate s \<and> to_timer s' = to_timer s"
proof (induction xs arbitrary: pre cur)
  case Nil
  then show ?case using chain_lseg [of "to_next s" "to_head s" pre "[]"] by (simp add: free_walk.simps)
next
  case (Cons c xs)
  have cur: "cur = Some c" "chain (to_next s) (to_next s c) xs" using Cons.prems(3) by auto
  show ?case
  proof (cases "c = t")
    case False
    have "distinct ((pre @ [c]) @ xs)" "lseg (to_next s) (to_head s) (pre @ [c]) (to_next s c)" "t \<notin> set (pre @ [c])"
      using Cons.prems cur False by (auto simp: lseg_snoc)
    from Cons.IH [OF this(1,2) cur(2) this(3)] show ?thesis
      using False cur(1) by (simp add: free_walk.simps [of t _ "Some c"])
  next
    case True
    have d: "distinct (pre @ c # xs)" using Cons.prems(1) by simp
    have l: "lseg (to_next s) (to_head s) pre (Some c)" "chain (to_next s) (Some c) (c # xs)" using Cons.prems(2) cur by simp_all
    note r = remove_chain [OF d l refl]
    have "filter (\<lambda>x. x \<noteq> t) xs = xs" using d True by (intro filter_True) auto
    moreover have "chain (to_next (remove_current (prev_of pre) c s)) (to_head (remove_current (prev_of pre) c s)) (pre @ xs)"
      using r(1,2) chain_lseg by blast
    ultimately show ?thesis using True cur(1) r(4,5,6)
      by (simp add: free_walk.simps [of t _ "Some t"] timers.truncate_def)
  qed
qed

section \<open>The list implements the sequence\<close>

datatype timeout_ev = Tick | Create nat u32 | Free nat

definition timeout_step :: "nat \<Rightarrow> timeout_ev \<Rightarrow> timeouts \<Rightarrow> timeouts option" where
  "timeout_step isr ev s =
     (case ev of
        Tick \<Rightarrow> if to_timer s < 0 then Some s else timeout_isr (to_timer s) s
      | Create t ms \<Rightarrow> map_option snd (create_timeout isr t ms s)
      | Free t \<Rightarrow> free_timeout t s)"

fun timeout_run :: "nat \<Rightarrow> timeout_ev list \<Rightarrow> timeouts \<Rightarrow> timeouts option" where
  "timeout_run isr [] s = Some s"
| "timeout_run isr (ev # evs) s = timeout_step isr ev s \<bind> timeout_run isr evs"

text \<open>The sequence of remaining ticks; \<open>None\<close> when a struct is used again while it is still on the list.\<close>

definition abs_step :: "timeout_ev \<Rightarrow> (nat \<times> nat) list \<Rightarrow> (nat \<times> nat) list option" where
  "abs_step ev xs =
     (case ev of
        Tick \<Rightarrow> Some (map (\<lambda>(x, k). (x, k - 1)) (filter (\<lambda>(x, k). 1 < k) xs))
      | Create t ms \<Rightarrow>
          if t \<in> fst ` set xs then None
          else if ms = INFINITE_TIMEOUT \<or> ms + 1 = 0 then Some xs
          else Some (xs @ [(t, unat ms + 1)])
      | Free t \<Rightarrow> Some (filter (\<lambda>(x, k). x \<noteq> t) xs))"

fun abs_run :: "timeout_ev list \<Rightarrow> (nat \<times> nat) list \<Rightarrow> (nat \<times> nat) list option" where
  "abs_run [] xs = Some xs"
| "abs_run (ev # evs) xs = abs_step ev xs \<bind> abs_run evs"

definition timer_state_ok :: "timeouts \<Rightarrow> bool \<Rightarrow> bool" where
  "timer_state_ok s idle \<longleftrightarrow> tm_ok s \<and>
     (if to_timer s < 0 then idle \<and> (\<exists>i < TIMERS_TOTAL. \<not> in_use s i)
      else \<exists>i < TIMERS_TOTAL. to_timer s = int i \<and> in_use s i)"

definition listed :: "timeouts \<Rightarrow> (nat \<times> nat) list \<Rightarrow> bool" where
  "listed s xs \<longleftrightarrow> distinct (map fst xs) \<and> chain (to_next s) (to_head s) (map fst xs) \<and> (\<forall>(x, k) \<in> set xs. 0 < k \<and> unat (to_ticks s x) = k)"

definition sim :: "timeouts \<Rightarrow> (nat \<times> nat) list \<Rightarrow> bool" where
  "sim s xs \<longleftrightarrow> listed s xs \<and> timer_state_ok s (xs = [])"

lemma truncate_timers:
  fixes s :: timeouts
  assumes "timers.truncate s' = timers.truncate s"
  shows "tm_ok s' = tm_ok s" "in_use s' = in_use s"
  using assms by (simp_all add: timers.truncate_def tm_ok_def in_use_def fun_eq_iff)

lemma timer_state_cong:
  "timers.truncate s' = timers.truncate s \<Longrightarrow> to_timer s' = to_timer s \<Longrightarrow> (to_timer s < 0 \<Longrightarrow> e' = e) \<Longrightarrow> timer_state_ok s' e' = timer_state_ok s e"
  using truncate_timers [of s' s] by (auto simp: timer_state_ok_def)

text \<open>What a step may do to the tick count of a struct that is off the list.\<close>

definition ticks_kept :: "timeout_ev \<Rightarrow> timeouts \<Rightarrow> (nat \<times> nat) list \<Rightarrow> timeouts \<Rightarrow> (nat \<times> nat) list \<Rightarrow> bool" where
  "ticks_kept ev s xs s' xs' \<longleftrightarrow>
     (\<forall>t. t \<notin> fst ` set xs' \<longrightarrow> (t \<in> fst ` set xs \<or> to_ticks s t = 0) \<longrightarrow> (\<forall>ms. ev \<noteq> Create t ms) \<longrightarrow> to_ticks s' t = 0)"

lemma tick_sim:
  assumes "sim s xs"
  shows "\<exists>s'. timeout_step isr Tick s = Some s' \<and> sim s' (the (abs_step Tick xs)) \<and> ticks_kept Tick s xs s' (the (abs_step Tick xs))"
proof (cases "xs = []")
  case True
  then have h: "to_head s = None" using assms by (simp add: sim_def listed_def)
  show ?thesis
  proof (cases "to_timer s < 0 \<or> 0 < to_remove_delay s")
    case True
    let ?s = "if to_timer s < 0 then s else s\<lparr>to_remove_delay := to_remove_delay s - 1\<rparr>"
    have "timeout_step isr Tick s = Some ?s" using True h by (auto simp: timeout_step_def timeout_isr_def)
    moreover have "timer_state_ok ?s True" using assms \<open>xs = []\<close> timer_state_cong [of ?s s True True] by (simp add: sim_def timers.truncate_def)
    ultimately show ?thesis using \<open>xs = []\<close> h by (simp add: sim_def listed_def abs_step_def ticks_kept_def)
  next
    case False
    obtain i where i: "i < TIMERS_TOTAL" "to_timer s = int i" "tm_ok s"
      using assms False by (auto simp: sim_def timer_state_ok_def)
    obtain s1 where s1: "timer_remove (int i) s = Some s1" "tm_ok s1" "\<not> in_use s1 i"
      using ms_timers.remove_law [OF i(3,1)] by auto
    have f: "to_head s1 = None" "to_ticks s1 = to_ticks s" using s1(1) h i(1)
      by (auto simp: timer_remove_def Let_def bank_defs)
    have "timeout_step isr Tick s = Some (s1\<lparr>to_timer := - 1\<rparr>)" using False h i(2) s1(1) by (simp add: timeout_step_def timeout_isr_def)
    moreover have "timer_state_ok (s1\<lparr>to_timer := - 1\<rparr>) True"
      using s1(2,3) i(1) by (auto simp: timer_state_ok_def tm_ok_def in_use_def)
    ultimately show ?thesis using \<open>xs = []\<close> f by (simp add: sim_def listed_def abs_step_def ticks_kept_def)
  qed
next
  case False
  let ?xs = "map (\<lambda>(x, k). (x, k - 1)) (filter (\<lambda>(x, k). 1 < k) xs)"
  have l: "distinct ([] @ map fst xs)" "lseg (to_next s) (to_head s) [] (to_head s)" "chain (to_next s) (to_head s) (map fst xs)"
    "\<forall>x \<in> set (map fst xs). 0 < to_ticks s x"
    using assms by (force simp: sim_def listed_def word_less_nat_alt)+
  obtain s' where w: "isr_walk None (to_head s) s = Some s'" "chain (to_next s') (to_head s') (filter (\<lambda>x. 1 < to_ticks s x) (map fst xs))"
    "to_ticks s' = (\<lambda>x. if x \<in> set (map fst xs) then to_ticks s x - 1 else to_ticks s x)"
    "timers.truncate s' = timers.truncate s" "to_timer s' = to_timer s"
    using isr_walk_correct [OF l] by auto
  have k: "0 < k \<and> unat (to_ticks s x) = k" if "(x, k) \<in> set xs" for x k using assms that by (auto simp: sim_def listed_def)
  have "\<not> to_timer s < 0" "to_head s \<noteq> None" using assms False by (auto simp: sim_def timer_state_ok_def listed_def neq_Nil_conv)
  then have "timeout_step isr Tick s = Some s'" using w(1) by (auto simp: timeout_step_def timeout_isr_def)
  moreover have "filter (\<lambda>x. 1 < to_ticks s x) (map fst xs) = map fst ?xs"
  proof -
    have "filter ((\<lambda>x. 1 < to_ticks s x) \<circ> fst) xs = filter (\<lambda>(x, k). 1 < k) xs"
      by (intro filter_cong refl) (use k in \<open>auto simp: word_less_nat_alt\<close>)
    then show ?thesis by (simp add: filter_map comp_def case_prod_unfold)
  qed
  moreover have "distinct (map fst ?xs)"
    using l(1) by (auto simp: comp_def case_prod_unfold distinct_map inj_on_def)
  moreover have "0 < j \<and> unat (to_ticks s' x) = j" if xj: "(x, j) \<in> set ?xs" for x j
  proof -
    obtain m where m: "(x, m) \<in> set xs" "1 < m" "j = m - 1" using xj by auto
    then show ?thesis using k [OF m(1)] w(3) unat_sub [of 1 "to_ticks s x"] by (force simp: word_le_nat_alt)
  qed
  moreover have "timer_state_ok s' (?xs = [])"
    using assms w(4,5) False timer_state_cong [of s' s "?xs = []" "xs = []"] \<open>\<not> to_timer s < 0\<close> by (simp add: sim_def)
  moreover have "to_ticks s' t = 0" if "t \<notin> fst ` set ?xs" "t \<in> fst ` set xs \<or> to_ticks s t = 0" for t
  proof (cases "t \<in> fst ` set xs")
    case True
    then obtain m where m: "(t, m) \<in> set xs" by auto
    then have "\<not> 1 < m" using that(1) by force
    then have "unat (to_ticks s t) = 1" using k [OF m] by simp
    then have "to_ticks s t = 1" by (simp add: word_unat_eq_iff)
    then show ?thesis using True w(3) by simp
  next
    case False
    then show ?thesis using that(2) w(3) by auto
  qed
  ultimately show ?thesis using w(2) by (intro exI [of _ s']) (simp add: sim_def listed_def abs_step_def ticks_kept_def case_prod_unfold)
qed

lemma free_sim:
  assumes "sim s xs"
  shows "\<exists>s'. timeout_step isr (Free t) s = Some s' \<and> sim s' (the (abs_step (Free t) xs)) \<and> ticks_kept (Free t) s xs s' (the (abs_step (Free t) xs))"
proof -
  let ?s = "s\<lparr>to_ticks := (to_ticks s)(t := 0)\<rparr>"
  let ?xs = "filter (\<lambda>(x, k). x \<noteq> t) xs"
  have l: "distinct ([] @ map fst xs)" "lseg (to_next ?s) (to_head ?s) [] (to_head s)" "chain (to_next ?s) (to_head s) (map fst xs)" "t \<notin> set []"
    using assms by (simp_all add: sim_def listed_def)
  obtain s' where w: "free_walk t None (to_head s) ?s = Some s'" "chain (to_next s') (to_head s') (filter (\<lambda>x. x \<noteq> t) (map fst xs))"
    "to_ticks s' = to_ticks ?s" "timers.truncate s' = timers.truncate ?s" "to_timer s' = to_timer ?s"
    using free_walk_correct [OF l] by auto
  have "filter (\<lambda>x. x \<noteq> t) (map fst xs) = map fst ?xs" by (simp add: filter_map comp_def case_prod_unfold)
  moreover have "timer_state_ok s' (?xs = [])"
  proof -
    have "to_timer s < 0 \<Longrightarrow> xs = []" using assms by (auto simp: sim_def timer_state_ok_def)
    then show ?thesis using assms w(4,5) timer_state_cong [of s' s "?xs = []" "xs = []"] by (auto simp: sim_def timers.truncate_def)
  qed
  moreover have "\<forall>(x, k) \<in> set ?xs. 0 < k \<and> unat (to_ticks s' x) = k" using assms w(3) by (auto simp: sim_def listed_def)
  moreover have "distinct (map fst ?xs)" using assms by (simp add: sim_def listed_def distinct_map_filter)
  ultimately show ?thesis using w
    by (intro exI [of _ s']) (auto simp: timeout_step_def free_timeout_def sim_def listed_def abs_step_def ticks_kept_def)
qed

lemma ensure_timer_correct:
  assumes "timer_state_ok s (xs = [])"
  shows "\<exists>s'. ensure_timer isr s = Some (True, s') \<and> timer_state_ok s' False \<and> \<not> to_timer s' < 0
    \<and> to_head s' = to_head s \<and> to_next s' = to_next s \<and> to_ticks s' = to_ticks s"
proof (cases "to_timer s < 0")
  case False
  then show ?thesis using assms by (auto simp: ensure_timer_def timer_state_ok_def)
next
  case True
  have ok: "tm_ok s" and free: "\<exists>i < TIMERS_TOTAL. \<not> in_use s i" using assms True by (auto simp: timer_state_ok_def)
  have "1000 \<le> get_timer_frequency i" for i by (simp add: get_timer_frequency_def)
  then obtain i s1 where 1: "timer_create_by_freq TIMEOUT_TICK_HZ (Some isr) False s = Some (Some i, s1)"
    using ms_timers.create_law [OF ok, of "Some isr"] free by (auto split: option.splits)
  then have i: "i < TIMERS_TOTAL" "tm_ok s1" "in_use s1 = (in_use s)(i := True)" using ms_timers.create_law [OF ok, of "Some isr"] by auto
  have f: "to_head s1 = to_head s" "to_next s1 = to_next s" "to_ticks s1 = to_ticks s"
    using 1 by (auto simp: timer_create_by_freq_def occupy_timer_def bank_defs Let_def split: option.splits if_splits)
  have t: "tm_ok (s1\<lparr>to_timer := int i\<rparr>)" "in_use (s1\<lparr>to_timer := int i\<rparr>) = in_use s1"
    using i(2) by (simp_all add: tm_ok_def in_use_def fun_eq_iff)
  then obtain s2 where 2: "timer_start (int i) (s1\<lparr>to_timer := int i\<rparr>) = Some s2" "tm_ok s2" "in_use s2 = in_use s1"
    using ms_timers.start_law [OF t(1) i(1)] i(3) by auto
  have g: "to_head s2 = to_head s1" "to_next s2 = to_next s1" "to_ticks s2 = to_ticks s1" "to_timer s2 = int i"
    using 2(1) by (auto simp: timer_start_def bank_defs Let_def split: if_splits)
  then show ?thesis using True 1 2 i f by (auto simp: ensure_timer_def timer_state_ok_def)
qed

lemma create_sim:
  assumes "sim s xs" "abs_step (Create t ms) xs = Some xs'"
  shows "\<exists>s'. timeout_step isr (Create t ms) s = Some s' \<and> sim s' xs' \<and> ticks_kept (Create t ms) s xs s' xs'"
proof -
  have t: "t \<notin> fst ` set xs" using assms(2) by (auto simp: abs_step_def split: if_splits)
  let ?ticks = "if ms = INFINITE_TIMEOUT then 0xffffffff else ms + 1"
  let ?s = "s\<lparr>to_ticks := (to_ticks s)(t := ?ticks), to_next := (to_next s)(t := None)\<rparr>"
  have l: "listed ?s xs" using assms(1) t by (force simp: sim_def listed_def chain_upd)
  have tm: "timer_state_ok ?s (xs = [])" using assms(1) timer_state_cong [of ?s s "xs = []" "xs = []"]
    by (simp add: sim_def timers.truncate_def)
  consider "ms + 1 = 0" "xs' = xs" | "ms = 0" "xs' = xs" | "ms \<noteq> 0" "ms + 1 \<noteq> 0" "xs' = xs @ [(t, unat ms + 1)]"
    using assms(2) t by (auto simp: abs_step_def split: if_splits)
  then show ?thesis
  proof cases
    case 1
    then have "ms \<noteq> 0" by auto
    then show ?thesis using 1 assms(1) by (auto simp: timeout_step_def create_timeout_def ticks_kept_def)
  next
    case 2
    then have "timeout_step isr (Create t ms) s = Some ?s" by (simp add: timeout_step_def create_timeout_def)
    then show ?thesis using 2 l tm by (auto simp: sim_def ticks_kept_def)
  next
    case 3
    obtain s1 where s1: "ensure_timer isr ?s = Some (True, s1)" "timer_state_ok s1 False" "\<not> to_timer s1 < 0"
      "to_head s1 = to_head ?s" "to_next s1 = to_next ?s" "to_ticks s1 = to_ticks ?s"
      using ensure_timer_correct [OF tm] by blast
    have c: "chain (to_next s1) (to_head s1) (map fst xs)" "distinct (map fst xs)" "t \<notin> set (map fst xs)" "to_next s1 t = None"
      using l t s1 by (auto simp: listed_def)
    obtain s2 where s2: "append_timeout t s1 = Some s2" "chain (to_next s2) (to_head s2) (map fst xs @ [t])" "to_ticks s2 = to_ticks s1"
      "timers.truncate s2 = timers.truncate s1" "to_timer s2 = to_timer s1"
      using append_correct [OF c] by blast
    have "timeout_step isr (Create t ms) s = Some s2"
      using 3 s1(1) s2(1) by (simp add: timeout_step_def create_timeout_def)
    moreover have "unat (ms + 1) = unat ms + 1" using 3(2) by (simp add: unat_plus_simple [symmetric] no_olen_add_nat) unat_arith
    then have "listed s2 xs'" using 3 s2(2,3) s1(6) l t by (auto simp: listed_def)
    moreover have "timer_state_ok s2 (xs' = [])"
      using timer_state_cong [OF s2(4,5), of "xs' = []" False] s1(2,3) 3(3) by simp
    moreover have "ticks_kept (Create t ms) s xs s2 xs'" using s2(3) s1(6) 3 by (auto simp: ticks_kept_def)
    ultimately show ?thesis by (auto simp: sim_def)
  qed
qed

lemma step_sim:
  assumes "sim s xs" "abs_step ev xs = Some xs'"
  shows "\<exists>s'. timeout_step isr ev s = Some s' \<and> sim s' xs' \<and> ticks_kept ev s xs s' xs'"
proof (cases ev)
  case Tick
  then show ?thesis using tick_sim [OF assms(1), of isr] assms(2) by simp
next
  case (Create t ms)
  then show ?thesis using create_sim [OF assms(1), of t ms xs' isr] assms(2) by simp
next
  case (Free t)
  then show ?thesis using free_sim [OF assms(1), of isr t] assms(2) by simp
qed

section \<open>A timeout among others\<close>

text \<open>The timeout \<open>t\<close> has \<open>n\<close> ticks left.\<close>

definition watched :: "nat \<Rightarrow> nat \<Rightarrow> timeouts \<Rightarrow> (nat \<times> nat) list \<Rightarrow> bool" where
  "watched t n s xs \<longleftrightarrow> (if 0 < n then (t, n) \<in> set xs else t \<notin> fst ` set xs \<and> to_ticks s t = 0)"

definition mentions :: "nat \<Rightarrow> timeout_ev \<Rightarrow> bool" where
  "mentions t ev \<longleftrightarrow> (case ev of Tick \<Rightarrow> False | Create u ms \<Rightarrow> u = t | Free u \<Rightarrow> u = t)"

abbreviation ticks_in :: "timeout_ev list \<Rightarrow> nat" where
  "ticks_in evs \<equiv> length (filter (\<lambda>ev. ev = Tick) evs)"

lemma watched_step:
  assumes "sim s xs" "abs_step ev xs = Some xs'" "ticks_kept ev s xs s' xs'" "\<not> mentions t ev" "watched t n s xs"
  shows "watched t (if ev = Tick then n - 1 else n) s' xs'"
proof -
  have d: "distinct (map fst xs)" using assms(1) by (simp add: sim_def listed_def)
  have uniq: "k = k'" if "(t, k) \<in> set xs" "(t, k') \<in> set xs" for k k' using eq_key_imp_eq_value [OF d that] .
  have nc: "\<forall>ms. ev \<noteq> Create t ms" using assms(4) by (auto simp: mentions_def)
  have zero: "to_ticks s' t = 0" if "t \<notin> fst ` set xs'" "t \<in> fst ` set xs \<or> to_ticks s t = 0"
    using assms(3) nc that by (auto simp: ticks_kept_def)
  show ?thesis
  proof (cases ev)
    case Tick
    then have xs': "xs' = map (\<lambda>(x, k). (x, k - 1)) (filter (\<lambda>(x, k). 1 < k) xs)" using assms(2) by (simp add: abs_step_def)
    consider "1 < n" | "n = 1" | "n = 0" by linarith
    then show ?thesis
    proof cases
      case 1
      then have "(t, n) \<in> set xs" using assms(5) by (simp add: watched_def)
      then show ?thesis using 1 Tick unfolding xs' watched_def by force
    next
      case 2
      then have t: "(t, 1) \<in> set xs" using assms(5) by (simp add: watched_def)
      then have "t \<notin> fst ` set xs'" unfolding xs' using uniq by force
      then show ?thesis using 2 Tick zero t by (force simp: watched_def)
    next
      case 3
      then have t: "t \<notin> fst ` set xs" "to_ticks s t = 0" using assms(5) by (simp_all add: watched_def)
      then have "t \<notin> fst ` set xs'" unfolding xs' by force
      then show ?thesis using 3 Tick zero t by (simp add: watched_def)
    qed
  next
    case (Create u ms)
    then have "xs' = xs \<or> xs' = xs @ [(u, unat ms + 1)]" "u \<noteq> t"
      using assms(2,4) by (auto simp: abs_step_def mentions_def split: if_splits)
    then show ?thesis using assms(5) zero Create by (cases "0 < n") (force simp: watched_def)+
  next
    case (Free u)
    then have "xs' = filter (\<lambda>(x, k). x \<noteq> u) xs" "u \<noteq> t" using assms(2,4) by (auto simp: abs_step_def mentions_def)
    then show ?thesis using assms(5) zero Free by (force simp: watched_def)
  qed
qed

lemma watched_run:
  "sim s xs \<Longrightarrow> abs_run evs xs = Some xs' \<Longrightarrow> list_all (\<lambda>ev. \<not> mentions t ev) evs \<Longrightarrow> watched t n s xs \<Longrightarrow>
     \<exists>s'. timeout_run isr evs s = Some s' \<and> sim s' xs' \<and> watched t (n - ticks_in evs) s' xs'"
proof (induction evs arbitrary: s xs n)
  case (Cons ev evs)
  obtain xs1 where x1: "abs_step ev xs = Some xs1" "abs_run evs xs1 = Some xs'" using Cons.prems(2) by (auto split: bind_splits)
  obtain s1 where s1: "timeout_step isr ev s = Some s1" "sim s1 xs1" "ticks_kept ev s xs s1 xs1"
    using step_sim [OF Cons.prems(1) x1(1)] by blast
  have "watched t (if ev = Tick then n - 1 else n) s1 xs1"
    using watched_step [OF Cons.prems(1) x1(1) s1(3) _ Cons.prems(4)] Cons.prems(3) by simp
  from Cons.IH [OF s1(2) x1(2) _ this] show ?case using Cons.prems(3) s1(1) by (auto split: if_splits)
qed simp

section \<open>Theorems\<close>

text \<open>(C23) The linked list implements the sequence of timeouts: from a state that represents a sequence, any events (timer
  interrupts, timeouts created and freed, each struct off the list when it is created) are carried out without an endless
  walk or a failed assertion and end in a state that represents the sequence they lead to.\<close>

theorem timeout_list_refines:
  assumes "sim s xs" "abs_run evs xs = Some xs'"
  shows "\<exists>s'. timeout_run isr evs s = Some s' \<and> sim s' xs'"
  using assms
proof (induction evs arbitrary: s xs)
  case (Cons ev evs)
  obtain xs1 where x1: "abs_step ev xs = Some xs1" "abs_run evs xs1 = Some xs'" using Cons.prems(2) by (auto split: bind_splits)
  then show ?case using step_sim [OF Cons.prems(1) x1(1), of isr] Cons.IH [OF _ x1(2)] by auto
qed simp

text \<open>(C22) A timeout of \<open>ms\<close> milliseconds is finished exactly from the \<open>ms + 1\<close>-th tick of the timer on, so it lasts at least
  \<open>ms\<close> milliseconds, whatever other timeouts are created and freed in between; and creating it cannot fail.\<close>

theorem timeout_accuracy:
  assumes "sim s xs" "abs_run (Create t ms # evs) xs = Some xs'" "ms \<noteq> INFINITE_TIMEOUT" "ms \<noteq> 0xffffffff"
    and "list_all (\<lambda>ev. \<not> mentions t ev) evs"
  shows "\<exists>s'. timeout_run isr (Create t ms # evs) s = Some s' \<and> (is_timeout_finished t s' \<longleftrightarrow> unat ms + 1 \<le> ticks_in evs)"
proof -
  have "ms + 1 \<noteq> 0"
  proof
    assume "ms + 1 = 0"
    then have "ms = - 1" by (simp add: eq_neg_iff_add_eq_0)
    then show False using assms(4) by simp
  qed
  obtain xs1 where x1: "abs_step (Create t ms) xs = Some xs1" "abs_run evs xs1 = Some xs'" using assms(2) by (auto split: bind_splits)
  then have xs1: "xs1 = xs @ [(t, unat ms + 1)]" using assms(3) \<open>ms + 1 \<noteq> 0\<close> by (auto simp: abs_step_def split: if_splits)
  obtain s1 where s1: "timeout_step isr (Create t ms) s = Some s1" "sim s1 xs1" using step_sim [OF assms(1) x1(1)] by blast
  have "watched t (unat ms + 1) s1 xs1" by (simp add: watched_def xs1)
  then obtain s' where s': "timeout_run isr evs s1 = Some s'" "sim s' xs'" "watched t (unat ms + 1 - ticks_in evs) s' xs'"
    using watched_run [OF s1(2) x1(2) assms(5)] by blast
  have "is_timeout_finished t s' \<longleftrightarrow> unat ms + 1 - ticks_in evs = 0"
  proof (cases "unat ms + 1 - ticks_in evs")
    case 0
    then show ?thesis using s'(3) by (simp add: watched_def is_timeout_finished_def)
  next
    case (Suc k)
    then have "unat (to_ticks s' t) = Suc k" using s'(2,3) by (force simp: watched_def sim_def listed_def)
    then show ?thesis using Suc by (auto simp: is_timeout_finished_def)
  qed
  then show ?thesis using s1(1) s'(1) by auto
qed

text \<open>The state after reset, with every hardware timer free.\<close>

definition timeouts_init :: timeouts where
  "timeouts_init =
     \<lparr>tm_bank0 = \<lparr>tb_counter = [0, 0, 0], tb_enable = 0, tb_clk_divider = 0, tb_irq_status = 0\<rparr>,
      tm_bank1 = \<lparr>tb_counter = [0, 0, 0], tb_enable = 0, tb_clk_divider = 0, tb_irq_status = 0\<rparr>,
      tm_handlers = replicate 6 free_entry, tm_pwd_26m = False, tm_pwd_32k = False,
      to_head = None, to_timer = - 1, to_remove_delay = REMOVE_DELAY_TICKS, to_next = (\<lambda>_. None), to_ticks = (\<lambda>_. 0)\<rparr>"

lemma init_sim: "sim timeouts_init []"
  by (auto simp: sim_def listed_def timer_state_ok_def tm_ok_def in_use_def timeouts_init_def free_entry_def intro: exI [of _ 0])

theorem timeout_list_refines_witness:
  "\<exists>s'. timeout_run 9 [Create 1 3, Create 2 5, Tick, Free 1] timeouts_init = Some s' \<and> sim s' [(2, 5)]"
  by (rule timeout_list_refines [OF init_sim]) (simp add: abs_step_def)

theorem timeout_accuracy_witness:
  "\<exists>s'. timeout_run 9 [Create 1 1, Tick, Create 2 7, Tick] timeouts_init = Some s' \<and> is_timeout_finished 1 s'"
  using timeout_accuracy [OF init_sim, of 1 1 "[Tick, Create 2 7, Tick]" "[(2, 7)]" 9] by (simp add: abs_step_def mentions_def)

end
