(* ===== verification/Gdma.thy ===== *)
theory Gdma
  imports Timeout
begin

text \<open>
  The DMA driver, \<open>src/src/platform/drivers/hardware_gdma/gdma.c\<close>, on the registers of
  \<open>src/src/platform/soc/bk7221u/include/soc/gdma.h\<close>: six channels that are reserved, configured, started and waited for.
  What the hardware and the interrupts do between two polls of a wait is an argument \<open>world\<close>, and so is what a finish
  handler does.
\<close>

section \<open>Registers\<close>

abbreviation GDMA_NUM_CHANNELS :: nat where "GDMA_NUM_CHANNELS \<equiv> 6"
abbreviation IRQ_SOURCE_GDMA :: u32 where "IRQ_SOURCE_GDMA \<equiv> 0x8000"

record gdma_ctl =
  gc_enable              :: bool
  gc_fin_int_enable      :: bool
  gc_half_fin_int_enable :: bool
  gc_repeat_mode         :: bool
  gc_src_data_width      :: "2 word"
  gc_dst_data_width      :: "2 word"
  gc_src_addr_inc        :: bool
  gc_dst_addr_inc        :: bool
  gc_src_addr_loop       :: bool
  gc_dst_addr_loop       :: bool
  gc_channel_priority    :: "2 word"
  gc_transfer_length     :: u16

definition ctl_zero :: gdma_ctl where
  "ctl_zero = \<lparr>gc_enable = False, gc_fin_int_enable = False, gc_half_fin_int_enable = False, gc_repeat_mode = False,
     gc_src_data_width = 0, gc_dst_data_width = 0, gc_src_addr_inc = False, gc_dst_addr_inc = False,
     gc_src_addr_loop = False, gc_dst_addr_loop = False, gc_channel_priority = 0, gc_transfer_length = 0\<rparr>"

record gdma_mux =
  mx_src_req         :: "4 word"
  mx_dst_req         :: "4 word"
  mx_src_rd_interval :: "4 word"
  mx_dst_wr_interval :: "4 word"

record gdma_channel =
  ch_config              :: gdma_ctl
  ch_dst_start_addr      :: u32
  ch_src_start_addr      :: u32
  ch_dst_loop_end_addr   :: u32
  ch_dst_loop_start_addr :: u32
  ch_src_loop_end_addr   :: u32
  ch_src_loop_start_addr :: u32
  ch_mux_reqs            :: gdma_mux

text \<open>The registers, then the driver's own state and the drivers below.\<close>

record gdma =
  gd_channels    :: "gdma_channel list"
  gd_int_counts  :: "u32 list"
  gd_prio_mode   :: u32
  gd_fin         :: "6 word"
  gd_half_fin    :: "6 word"
  gd_dst_wr_addr :: "u32 list"
  gd_reserved    :: u32
  gd_finish      :: "nat option list"
  gd_h_finish    :: "nat option list"
  gd_intc        :: intc_state
  gd_timeouts    :: timeouts

record gdma_endpoint =
  ep_mode          :: "4 word"
  ep_addr          :: u32
  ep_loop_addr     :: u32
  ep_loop_end_addr :: u32
  ep_incr          :: bool
  ep_dw            :: u8
  ep_interval      :: u8

record gdma_config =
  cf_src      :: gdma_endpoint
  cf_dst      :: gdma_endpoint
  cf_repeat   :: bool
  cf_finish   :: "nat option"
  cf_h_finish :: "nat option"

definition is_channel_valid :: "int \<Rightarrow> bool" where
  "is_channel_valid ch \<longleftrightarrow> 0 \<le> ch \<and> ch < int GDMA_NUM_CHANNELS"

definition upd_channel :: "nat \<Rightarrow> (gdma_channel \<Rightarrow> gdma_channel) \<Rightarrow> gdma \<Rightarrow> gdma" where
  "upd_channel i f g = g\<lparr>gd_channels := (gd_channels g)[i := f (gd_channels g ! i)]\<rparr>"

definition set_enable :: "bool \<Rightarrow> gdma_channel \<Rightarrow> gdma_channel" where
  "set_enable b c = c\<lparr>ch_config := (ch_config c)\<lparr>gc_enable := b\<rparr>\<rparr>"

section \<open>Operations\<close>

definition isr_channel :: "(nat \<Rightarrow> nat \<Rightarrow> gdma \<Rightarrow> gdma) \<Rightarrow> 6 word \<Rightarrow> 6 word \<Rightarrow> nat \<Rightarrow> gdma \<Rightarrow> gdma" where
  "isr_channel run bits h_bits i g =
     (let g = (if bit bits i then case gd_finish g ! i of None \<Rightarrow> g | Some f \<Rightarrow> run f i g else g)
      in if bit h_bits i then case gd_h_finish g ! i of None \<Rightarrow> g | Some f \<Rightarrow> run f i g else g)"

definition gdma_isr :: "(nat \<Rightarrow> nat \<Rightarrow> gdma \<Rightarrow> gdma) \<Rightarrow> gdma \<Rightarrow> gdma" where
  "gdma_isr run g =
     (let bits = gd_fin g;
          h_bits = gd_half_fin g;
          g = g\<lparr>gd_fin := gd_fin g AND NOT bits, gd_half_fin := gd_half_fin g AND NOT h_bits\<rparr>
      in fold (isr_channel run bits h_bits) [0..<GDMA_NUM_CHANNELS] g)"

definition reset_channel :: "nat \<Rightarrow> gdma \<Rightarrow> gdma" where
  "reset_channel i g =
     (upd_channel i (\<lambda>c. c\<lparr>ch_config := ctl_zero\<rparr>) (g\<lparr>gd_int_counts := (gd_int_counts g)[i := 0]\<rparr>))
       \<lparr>gd_finish := (gd_finish g)[i := None], gd_h_finish := (gd_h_finish g)[i := None]\<rparr>"

definition gdma_reset :: "gdma \<Rightarrow> gdma" where
  "gdma_reset g = fold reset_channel [0..<GDMA_NUM_CHANNELS] g"

text \<open>\<open>isr\<close> is the address of \<open>gdma_isr\<close>.\<close>

definition gdma_init :: "nat \<Rightarrow> gdma \<Rightarrow> gdma option" where
  "gdma_init isr g =
     do {
       let g = gdma_reset g;
       let g = g\<lparr>gd_fin := gd_fin g AND NOT (gd_fin g), gd_half_fin := gd_half_fin g AND NOT (gd_half_fin g)\<rparr>;
       let g = g\<lparr>gd_prio_mode := 0\<rparr>;
       ic \<leftarrow> intc_register_irq_handler IRQ_SOURCE_GDMA isr (gd_intc g);
       Some (g\<lparr>gd_intc := intc_enable_irq_source IRQ_SOURCE_GDMA ic\<rparr>)
     }"

definition gdma_fini :: "gdma \<Rightarrow> gdma" where
  "gdma_fini g = gdma_reset g"

fun reserve_from :: "nat list \<Rightarrow> gdma \<Rightarrow> (errno + nat) \<times> gdma" where
  "reserve_from [] g = (Inl EBUSY, g)"
| "reserve_from (ch # chs) g =
     (if \<not> bit (gd_reserved g) ch then (Inr ch, g\<lparr>gd_reserved := gd_reserved g OR push_bit ch 1\<rparr>)
      else reserve_from chs g)"

definition gdma_reserve_channel :: "gdma \<Rightarrow> (errno + nat) \<times> gdma" where
  "gdma_reserve_channel g = reserve_from [0..<GDMA_NUM_CHANNELS] g"

definition gdma_reserve_specific_channel :: "int \<Rightarrow> gdma \<Rightarrow> (errno + nat) \<times> gdma" where
  "gdma_reserve_specific_channel ch g =
     (if \<not> is_channel_valid ch then (Inl ENODEV, g)
      else if \<not> bit (gd_reserved g) (nat ch) then (Inr (nat ch), g\<lparr>gd_reserved := gd_reserved g OR push_bit (nat ch) 1\<rparr>)
      else (Inl EBUSY, g))"

definition gdma_stop :: "int \<Rightarrow> gdma \<Rightarrow> gdma" where
  "gdma_stop ch g = (if \<not> is_channel_valid ch then g else upd_channel (nat ch) (set_enable False) g)"

definition gdma_busy :: "int \<Rightarrow> gdma \<Rightarrow> bool" where
  "gdma_busy ch g \<longleftrightarrow> is_channel_valid ch \<and> gc_enable (ch_config (gd_channels g ! nat ch))"

definition gdma_release_channel :: "int \<Rightarrow> gdma \<Rightarrow> gdma" where
  "gdma_release_channel ch g =
     (if \<not> is_channel_valid ch then g
      else
        let g = (if gdma_busy ch g then gdma_stop ch g else g)
        in g\<lparr>gd_reserved := gd_reserved g AND NOT (push_bit (nat ch) 1)\<rparr>)"

text \<open>The channel after \<open>gdma_configure\<close> has written its registers.\<close>

definition configured :: "gdma_config \<Rightarrow> gdma_channel \<Rightarrow> gdma_channel" where
  "configured cfg c =
     (let src = cf_src cfg;
          dst = cf_dst cfg;
          src_loop = (ep_loop_addr src \<noteq> 0 \<and> ep_loop_end_addr src \<noteq> 0);
          dst_loop = (ep_loop_addr dst \<noteq> 0 \<and> ep_loop_end_addr dst \<noteq> 0);
          c = c\<lparr>ch_config := ctl_zero\<rparr>;
          c = c\<lparr>ch_src_start_addr := ep_addr src,
                ch_src_loop_start_addr := if src_loop then ep_loop_addr src else 0,
                ch_src_loop_end_addr := if src_loop then ep_loop_end_addr src else 0\<rparr>;
          c = c\<lparr>ch_dst_start_addr := ep_addr dst,
                ch_dst_loop_start_addr := if dst_loop then ep_loop_addr dst else 0,
                ch_dst_loop_end_addr := if dst_loop then ep_loop_end_addr dst else 0\<rparr>;
          c = c\<lparr>ch_mux_reqs := \<lparr>mx_src_req = ep_mode src, mx_dst_req = ep_mode dst,
                mx_src_rd_interval = ucast (ep_interval src), mx_dst_wr_interval = ucast (ep_interval dst)\<rparr>\<rparr>
      in c\<lparr>ch_config := ctl_zero\<lparr>gc_fin_int_enable := cf_finish cfg \<noteq> None, gc_half_fin_int_enable := cf_h_finish cfg \<noteq> None,
             gc_repeat_mode := cf_repeat cfg, gc_src_data_width := ucast (ep_dw src), gc_dst_data_width := ucast (ep_dw dst),
             gc_src_addr_inc := ep_incr src, gc_dst_addr_inc := ep_incr dst,
             gc_dst_addr_loop := dst_loop, gc_src_addr_loop := src_loop\<rparr>\<rparr>)"

text \<open>\<open>cfg\<close> is \<open>None\<close> for \<open>NULL\<close>; the result \<open>Inr ()\<close> is 0.\<close>

definition gdma_configure :: "int \<Rightarrow> gdma_config option \<Rightarrow> gdma \<Rightarrow> (errno + unit) \<times> gdma" where
  "gdma_configure ch cfg g =
     (if \<not> is_channel_valid ch then (Inl ENODEV, g)
      else if \<not> bit (gd_reserved g) (nat ch) then (Inl EPERM, g)
      else
        case cfg of
          None \<Rightarrow> (Inl EINVAL, g)
        | Some cfg \<Rightarrow>
            if ep_interval (cf_src cfg) > 15 \<or> ep_interval (cf_dst cfg) > 15 then (Inl EINVAL, g)
            else
              (Inr (), (upd_channel (nat ch) (configured cfg) g)
                 \<lparr>gd_finish := (gd_finish g)[nat ch := cf_finish cfg], gd_h_finish := (gd_h_finish g)[nat ch := cf_h_finish cfg]\<rparr>))"

definition gdma_start :: "int \<Rightarrow> nat \<Rightarrow> gdma \<Rightarrow> (errno + unit) \<times> gdma" where
  "gdma_start ch sz g =
     (if \<not> is_channel_valid ch then (Inl ENODEV, g)
      else if sz = 0 \<or> sz > 0x10000 then (Inl EINVAL, g)
      else
        (Inr (), upd_channel (nat ch)
           (\<lambda>c. c\<lparr>ch_config := (ch_config c)\<lparr>gc_transfer_length := of_nat (sz - 1), gc_enable := True\<rparr>\<rparr>) g))"

definition gdma_restart :: "int \<Rightarrow> u32 \<Rightarrow> nat \<Rightarrow> gdma \<Rightarrow> (errno + unit) \<times> gdma" where
  "gdma_restart ch dst_addr sz g =
     (if \<not> is_channel_valid ch then (Inl ENODEV, g)
      else
        let g = upd_channel (nat ch) (set_enable False) g;
            g = upd_channel (nat ch) (\<lambda>c. c\<lparr>ch_dst_start_addr := dst_addr\<rparr>) g
        in gdma_start ch sz g)"

definition gdma_transferred :: "int \<Rightarrow> gdma \<Rightarrow> u32" where
  "gdma_transferred ch g =
     (if \<not> is_channel_valid ch then 0
      else gd_dst_wr_addr g ! nat ch - ch_dst_start_addr (gd_channels g ! nat ch))"

text \<open>The polls of \<open>gdma_wait\<close>: \<open>t\<close> is the struct of the timeout, \<open>n\<close> counts the polls.\<close>

partial_function (option) wait_loop ::
  "(nat \<Rightarrow> bool \<Rightarrow> gdma \<Rightarrow> gdma) \<Rightarrow> nat \<Rightarrow> int \<Rightarrow> nat \<Rightarrow> bool \<Rightarrow> gdma \<Rightarrow> ((errno + unit) \<times> gdma) option" where
  "wait_loop world n ch t can_wake g =
     (if gdma_busy ch g then
        if is_timeout_finished t (gd_timeouts g) then Some (Inl ETIMEDOUT, upd_channel (nat ch) (set_enable False) g)
        else wait_loop world (n + 1) ch t can_wake (world n can_wake g)
      else Some (Inr (), g))"

definition gdma_ack :: "int \<Rightarrow> gdma \<Rightarrow> gdma" where
  "gdma_ack ch g = g\<lparr>gd_fin := gd_fin g AND NOT (push_bit (nat ch) 1)\<rparr>"

text \<open>\<open>isr\<close> is the address of \<open>timeout_isr\<close>.\<close>

definition gdma_wait ::
  "(nat \<Rightarrow> bool \<Rightarrow> gdma \<Rightarrow> gdma) \<Rightarrow> nat \<Rightarrow> nat \<Rightarrow> int \<Rightarrow> u32 \<Rightarrow> gdma \<Rightarrow> ((errno + unit) \<times> gdma) option" where
  "gdma_wait world isr t ch timeout_ms g =
     (if \<not> is_channel_valid ch then Some (Inl ENODEV, g)
      else if gdma_busy ch g then
        do {
          (created, tos) \<leftarrow> create_timeout isr t timeout_ms (gd_timeouts g);
          let g = g\<lparr>gd_timeouts := tos\<rparr>;
          (if \<not> created then Some (Inl ENOMEM, g)
           else do {
             let can_wake = (intc_irq_source_enabled IRQ_SOURCE_GDMA (gd_intc g)
               \<and> gc_fin_int_enable (ch_config (gd_channels g ! nat ch)));
             (r, g) \<leftarrow> wait_loop world 0 ch t can_wake g;
             (case r of
                Inl e \<Rightarrow> Some (Inl e, g)
              | Inr _ \<Rightarrow> do {
                  tos \<leftarrow> free_timeout t (gd_timeouts g);
                  Some (Inr (), gdma_ack ch (g\<lparr>gd_timeouts := tos\<rparr>))
                })
           })
        }
      else Some (Inr (), gdma_ack ch g))"

definition gdma_run :: "int \<Rightarrow> gdma_config option \<Rightarrow> nat \<Rightarrow> gdma \<Rightarrow> (errno + unit) \<times> gdma" where
  "gdma_run ch cfg sz g =
     (case gdma_configure ch cfg g of
        (Inl rc, g) \<Rightarrow> (Inl rc, g)
      | (Inr _, g) \<Rightarrow> gdma_start ch sz g)"

section \<open>Reservation\<close>

text \<open>An allocator of numbered channels, by the set of channels that are taken.\<close>

locale channel_allocator =
  fixes channels :: "nat set"
    and taken :: "'s \<Rightarrow> nat set"
    and reserve :: "'s \<Rightarrow> (errno + nat) \<times> 's"
    and reserve_specific :: "int \<Rightarrow> 's \<Rightarrow> (errno + nat) \<times> 's"
    and release :: "int \<Rightarrow> 's \<Rightarrow> 's"
  assumes reserve_law: "taken s \<subseteq> channels \<Longrightarrow>
      (case reserve s of
         (Inl e, s') \<Rightarrow> e = EBUSY \<and> taken s = channels \<and> s' = s
       | (Inr ch, s') \<Rightarrow> ch = Min (channels - taken s) \<and> ch \<in> channels - taken s \<and> taken s' = insert ch (taken s))"
    and specific_law: "taken s \<subseteq> channels \<Longrightarrow>
      (case reserve_specific i s of
         (Inl e, s') \<Rightarrow> s' = s \<and> (if i \<in> int ` channels then e = EBUSY \<and> nat i \<in> taken s else e = ENODEV)
       | (Inr ch, s') \<Rightarrow> i = int ch \<and> ch \<in> channels - taken s \<and> taken s' = insert ch (taken s))"
    and release_law: "taken s \<subseteq> channels \<Longrightarrow> taken (release i s) = {ch \<in> taken s. int ch \<noteq> i}"
begin

lemma reserve_release: "taken s \<subseteq> channels \<Longrightarrow> reserve s = (Inr ch, s') \<Longrightarrow> taken (release (int ch) s') = taken s"
  using reserve_law [of s] release_law [of s' "int ch"] by auto

lemma specific_after_release:
  assumes "taken s \<subseteq> channels" "i \<in> int ` channels"
  shows "\<exists>s'. reserve_specific i (release i s) = (Inr (nat i), s')"
proof -
  obtain n where n: "i = int n" "n \<in> channels" using assms(2) by blast
  then have f: "n \<notin> taken (release i s)" "taken (release i s) \<subseteq> channels" using release_law [OF assms(1), of i] assms(1) by auto
  obtain r s' where r: "reserve_specific i (release i s) = (r, s')" by (rule prod.exhaust)
  show ?thesis
  proof (cases r)
    case (Inl e)
    then have "nat i \<in> taken (release i s)" using specific_law [OF f(2), of i] r assms(2) by simp
    then show ?thesis using f n by simp
  next
    case (Inr ch)
    then show ?thesis using specific_law [OF f(2), of i] r by auto
  qed
qed

end

text \<open>The channels the driver has given away.\<close>

definition owned :: "gdma \<Rightarrow> nat set" where
  "owned g = {ch. ch < GDMA_NUM_CHANNELS \<and> bit (gd_reserved g) ch}"

lemma owned_reserve:
  "ch < GDMA_NUM_CHANNELS \<Longrightarrow> owned (g\<lparr>gd_reserved := gd_reserved g OR push_bit ch 1\<rparr>) = insert ch (owned g)"
  by (auto simp: owned_def bit_simps)

lemma owned_release:
  "ch < GDMA_NUM_CHANNELS \<Longrightarrow> owned (g\<lparr>gd_reserved := gd_reserved g AND NOT (push_bit ch 1)\<rparr>) = owned g - {ch}"
  by (auto simp: owned_def bit_simps)

lemma owned_upd_channel [simp]: "owned (upd_channel i f g) = owned g"
  by (simp add: owned_def upd_channel_def)

lemma reserve_from_spec:
  "a \<le> GDMA_NUM_CHANNELS \<Longrightarrow> {..<a} \<subseteq> owned g \<Longrightarrow>
     (case reserve_from [a..<GDMA_NUM_CHANNELS] g of
        (Inl e, g') \<Rightarrow> e = EBUSY \<and> owned g = {..<GDMA_NUM_CHANNELS} \<and> g' = g
      | (Inr ch, g') \<Rightarrow> ch = Min ({..<GDMA_NUM_CHANNELS} - owned g) \<and> ch \<in> {..<GDMA_NUM_CHANNELS} - owned g \<and> owned g' = insert ch (owned g))"
proof (induction "GDMA_NUM_CHANNELS - a" arbitrary: a)
  case 0
  then have "a = GDMA_NUM_CHANNELS" by simp
  then show ?case using 0 by (auto simp: owned_def)
next
  case (Suc n)
  then have a: "a < GDMA_NUM_CHANNELS" by simp
  then have u: "[a..<GDMA_NUM_CHANNELS] = a # [Suc a..<GDMA_NUM_CHANNELS]" by (rule upt_conv_Cons)
  show ?case
  proof (cases "bit (gd_reserved g) a")
    case True
    then have "{..<Suc a} \<subseteq> owned g" using Suc.prems a by (auto simp: owned_def less_Suc_eq)
    then show ?thesis using Suc.hyps(1) [of "Suc a"] Suc.hyps(2) True a by (simp add: u del: upt_Suc)
  next
    case False
    then have f: "a \<in> {..<GDMA_NUM_CHANNELS} - owned g" using a by (simp add: owned_def)
    have "Min ({..<GDMA_NUM_CHANNELS} - owned g) = a"
    proof (rule Min_eqI)
      show "a \<le> y" if "y \<in> {..<GDMA_NUM_CHANNELS} - owned g" for y
        using that Suc.prems(2) not_less [of y a] by blast
    qed (use f in simp_all)
    then show ?thesis using False f a owned_reserve [OF a, of g] by (simp add: u del: upt_Suc)
  qed
qed

lemma owned_subset: "owned g \<subseteq> {..<GDMA_NUM_CHANNELS}"
  by (auto simp: owned_def)

lemma gdma_specific_law:
  "case gdma_reserve_specific_channel i g of
     (Inl e, g') \<Rightarrow> g' = g \<and> (if i \<in> int ` {..<GDMA_NUM_CHANNELS} then e = EBUSY \<and> nat i \<in> owned g else e = ENODEV)
   | (Inr ch, g') \<Rightarrow> i = int ch \<and> ch \<in> {..<GDMA_NUM_CHANNELS} - owned g \<and> owned g' = insert ch (owned g)"
proof (cases "is_channel_valid i")
  case True
  then have n: "nat i < GDMA_NUM_CHANNELS" "int (nat i) = i" "i \<in> int ` {..<GDMA_NUM_CHANNELS}"
    by (auto simp: is_channel_valid_def intro: image_eqI [of _ _ "nat i"])
  show ?thesis
  proof (cases "bit (gd_reserved g) (nat i)")
    case b: True
    then show ?thesis using True n by (simp add: gdma_reserve_specific_channel_def owned_def)
  next
    case False
    then have "nat i \<notin> owned g" by (simp add: owned_def)
    then show ?thesis using True False n owned_reserve [OF n(1), of g] by (simp add: gdma_reserve_specific_channel_def)
  qed
next
  case False
  then show ?thesis by (auto simp: gdma_reserve_specific_channel_def is_channel_valid_def)
qed

lemma gdma_release_law: "owned (gdma_release_channel i g) = {ch \<in> owned g. int ch \<noteq> i}"
proof (cases "is_channel_valid i")
  case True
  then have n: "nat i < GDMA_NUM_CHANNELS" "i = int (nat i)" by (auto simp: is_channel_valid_def)
  have "owned (if gdma_busy i g then gdma_stop i g else g) = owned g" by (simp add: gdma_stop_def)
  then show ?thesis using True n owned_release [OF n(1)] by (auto simp: gdma_release_channel_def Let_def)
next
  case False
  then show ?thesis by (auto simp: gdma_release_channel_def is_channel_valid_def owned_def)
qed

interpretation gdma_pool: channel_allocator "{..<GDMA_NUM_CHANNELS}" owned gdma_reserve_channel gdma_reserve_specific_channel gdma_release_channel
proof unfold_locales
  show "case gdma_reserve_channel s of
      (Inl e, s') \<Rightarrow> e = EBUSY \<and> owned s = {..<GDMA_NUM_CHANNELS} \<and> s' = s
    | (Inr ch, s') \<Rightarrow> ch = Min ({..<GDMA_NUM_CHANNELS} - owned s) \<and> ch \<in> {..<GDMA_NUM_CHANNELS} - owned s \<and> owned s' = insert ch (owned s)" for s
    using reserve_from_spec [of 0 s] by (simp add: gdma_reserve_channel_def del: upt_Suc)
qed (rule gdma_specific_law, rule gdma_release_law)


text \<open>Any calls, with what each returned.\<close>

datatype channel_op = Reserve | Reserve_specific int | Release int

fun channel_step :: "channel_op \<Rightarrow> gdma \<Rightarrow> (errno + nat) option \<times> gdma" where
  "channel_step Reserve g = apfst Some (gdma_reserve_channel g)"
| "channel_step (Reserve_specific i) g = apfst Some (gdma_reserve_specific_channel i g)"
| "channel_step (Release i) g = (None, gdma_release_channel i g)"

fun channel_ops :: "channel_op list \<Rightarrow> gdma \<Rightarrow> (errno + nat) option list \<times> gdma" where
  "channel_ops [] g = ([], g)"
| "channel_ops (cop # cops) g = (let (r, g) = channel_step cop g; (rs, g) = channel_ops cops g in (r # rs, g))"

text \<open>The same calls on a set of channels.\<close>

fun set_step :: "channel_op \<Rightarrow> nat set \<Rightarrow> (errno + nat) option \<times> nat set" where
  "set_step Reserve S =
     (if S = {..<GDMA_NUM_CHANNELS} then (Some (Inl EBUSY), S)
      else let ch = Min ({..<GDMA_NUM_CHANNELS} - S) in (Some (Inr ch), insert ch S))"
| "set_step (Reserve_specific i) S =
     (if i \<notin> int ` {..<GDMA_NUM_CHANNELS} then (Some (Inl ENODEV), S)
      else if nat i \<in> S then (Some (Inl EBUSY), S)
      else (Some (Inr (nat i)), insert (nat i) S))"
| "set_step (Release i) S = (None, {ch \<in> S. int ch \<noteq> i})"

fun set_ops :: "channel_op list \<Rightarrow> nat set \<Rightarrow> (errno + nat) option list \<times> nat set" where
  "set_ops [] S = ([], S)"
| "set_ops (cop # cops) S = (let (r, S) = set_step cop S; (rs, S) = set_ops cops S in (r # rs, S))"

lemma channel_step_refines: "apsnd owned (channel_step cop g) = set_step cop (owned g)"
proof (cases cop)
  case Reserve
  obtain r g' where r: "gdma_reserve_channel g = (r, g')" by force
  then show ?thesis using gdma_pool.reserve_law [OF owned_subset, of g] Reserve by (cases r) (auto simp: Let_def)
next
  case (Reserve_specific i)
  obtain r g' where r: "gdma_reserve_specific_channel i g = (r, g')" by force
  then show ?thesis using gdma_specific_law [where i = i and g = g] Reserve_specific by (cases r) (auto split: if_splits)
next
  case (Release i)
  then show ?thesis by (simp add: gdma_release_law)
qed

text \<open>Channels are never shared: whatever sequence of reservations and releases is made, each call returns what an
  allocator over a set of free channels returns: the lowest free channel, \<open>-EBUSY\<close> only when all six or the one asked
  for are taken, \<open>-ENODEV\<close> for a channel that does not exist; so a channel is given out again only after its release.\<close>

theorem gdma_reservation: "apsnd owned (channel_ops cops g) = set_ops cops (owned g)"
proof (induction cops arbitrary: g)
  case (Cons cop cops)
  obtain r g' where r: "channel_step cop g = (r, g')" by force
  then have "set_step cop (owned g) = (r, owned g')" using channel_step_refines [of cop g] by simp
  moreover obtain rs g'' where rs: "channel_ops cops g' = (rs, g'')" by force
  then have "set_ops cops (owned g') = (rs, owned g'')" using Cons [of g'] by simp
  ultimately show ?case using r rs by simp
qed simp

section \<open>Running a transfer\<close>



section \<open>Waiting\<close>

text \<open>Between poll \<open>n\<close> and the next, \<open>k n\<close> ticks of the timeout's timer pass; what else happens to the hardware is open.\<close>

definition clocked :: "nat \<Rightarrow> (nat \<Rightarrow> nat) \<Rightarrow> (nat \<Rightarrow> bool \<Rightarrow> gdma \<Rightarrow> gdma) \<Rightarrow> bool" where
  "clocked isr k world \<longleftrightarrow>
     (\<forall>n wake g. length (gd_channels (world n wake g)) = length (gd_channels g)
        \<and> (\<forall>s. timeout_run isr (replicate (k n) Tick) (gd_timeouts g) = Some s \<longrightarrow> gd_timeouts (world n wake g) = s))"

lemma abs_run_ticks: "\<exists>xs'. abs_run (replicate m Tick) xs = Some xs'"
  by (induction m arbitrary: xs) (auto simp: abs_step_def)

lemma tick_run:
  assumes "sim s xs" "watched t m s xs"
  shows "\<exists>s' xs'. timeout_run isr (replicate n Tick) s = Some s' \<and> sim s' xs' \<and> watched t (m - n) s' xs'"
proof -
  obtain xs' where "abs_run (replicate n Tick) xs = Some xs'" using abs_run_ticks by blast
  then show ?thesis using watched_run [OF assms(1) _ _ assms(2), of "replicate n Tick" xs' isr] by (auto simp: mentions_def list_all_iff)
qed

lemma watched_finished: "sim s xs \<Longrightarrow> watched t m s xs \<Longrightarrow> is_timeout_finished t s \<longleftrightarrow> m = 0"
  by (cases m) (force simp: watched_def sim_def listed_def is_timeout_finished_def)+

lemma busy_set_enable: "nat ch < length (gd_channels g) \<Longrightarrow> \<not> gdma_busy ch (upd_channel (nat ch) (set_enable False) g)"
  by (simp add: gdma_busy_def upd_channel_def set_enable_def)

lemma timeouts_upd_channel [simp]: "gd_timeouts (upd_channel i f g) = gd_timeouts g"
  by (simp add: upd_channel_def)

lemma wait_loop_returns:
  assumes "clocked isr k world" "sim (gd_timeouts g) xs" "watched t m (gd_timeouts g) xs" "m \<le> sum k {n..<n + d}" "nat ch < length (gd_channels g)"
  shows "\<exists>r g' xs' m'. wait_loop world n ch t wake g = Some (r, g') \<and> sim (gd_timeouts g') xs' \<and> watched t m' (gd_timeouts g') xs'
    \<and> \<not> gdma_busy ch g' \<and> (r = Inr () \<or> r = Inl ETIMEDOUT \<and> m' = 0)"
  using assms(2-)
proof (induction d arbitrary: n g xs m)
  case 0
  then have "m = 0" by simp
  then have "is_timeout_finished t (gd_timeouts g)" using watched_finished [OF 0(1,2)] by simp
  then show ?case using 0 busy_set_enable [OF 0(4)] \<open>m = 0\<close> by (subst wait_loop.simps) force
next
  case (Suc d)
  show ?case
  proof (cases "gdma_busy ch g \<and> m \<noteq> 0")
    case True
    obtain s' xs' where t: "timeout_run isr (replicate (k n) Tick) (gd_timeouts g) = Some s'" "sim s' xs'" "watched t (m - k n) s' xs'"
      using tick_run [OF Suc.prems(1,2)] by blast
    let ?g = "world n wake g"
    have g: "gd_timeouts ?g = s'" "length (gd_channels ?g) = length (gd_channels g)" using assms(1) t(1) by (auto simp: clocked_def)
    have "sum k {n..<n + Suc d} = k n + sum k {Suc n..<n + Suc d}" by (rule sum.atLeast_Suc_lessThan) simp
    then have "m - k n \<le> sum k {n + 1..<n + 1 + d}" using Suc.prems(3) by (simp del: sum.op_ivl_Suc)
    then have "\<exists>r g' xs' m'. wait_loop world (n + 1) ch t wake ?g = Some (r, g') \<and> sim (gd_timeouts g') xs' \<and> watched t m' (gd_timeouts g') xs'
        \<and> \<not> gdma_busy ch g' \<and> (r = Inr () \<or> r = Inl ETIMEDOUT \<and> m' = 0)"
      using Suc.IH [of ?g xs' "m - k n" "n + 1"] t g Suc.prems(4) by simp
    moreover have "wait_loop world n ch t wake g = wait_loop world (n + 1) ch t wake ?g"
      using True watched_finished [OF Suc.prems(1,2)] by (subst wait_loop.simps) simp
    ultimately show ?thesis by simp
  next
    case False
    then show ?thesis using Suc.prems busy_set_enable [OF Suc.prems(4)] watched_finished [OF Suc.prems(1,2)]
      by (subst wait_loop.simps) force
  qed
qed

lemma create_succeeds:
  assumes "sim s xs" "t \<notin> fst ` set xs" "ms \<noteq> INFINITE_TIMEOUT" "ms \<noteq> 0xffffffff"
  shows "\<exists>s'. create_timeout isr t ms s = Some (True, s') \<and> sim s' (xs @ [(t, unat ms + 1)])"
proof -
  have ms: "ms + 1 \<noteq> 0"
  proof
    assume "ms + 1 = 0"
    then have "ms = - 1" by (simp add: eq_neg_iff_add_eq_0)
    then show False using assms(4) by simp
  qed
  have "abs_step (Create t ms) xs = Some (xs @ [(t, unat ms + 1)])" using assms(2,3) ms by (simp add: abs_step_def)
  then obtain s' where s': "timeout_step isr (Create t ms) s = Some s'" "sim s' (xs @ [(t, unat ms + 1)])"
    using step_sim [OF assms(1)] by blast
  then obtain ok where c: "create_timeout isr t ms s = Some (ok, s')" by (auto simp: timeout_step_def)
  let ?s = "s\<lparr>to_ticks := (to_ticks s)(t := ms + 1), to_next := (to_next s)(t := None)\<rparr>"
  have "timer_state_ok ?s (xs = [])" using assms(1) timer_state_cong [of ?s s "xs = []" "xs = []"] by (simp add: sim_def timers.truncate_def)
  then obtain s1 where "ensure_timer isr ?s = Some (True, s1)" using ensure_timer_correct by blast
  then have ok using c assms(3) ms by (auto simp: create_timeout_def split: bind_splits)
  then show ?thesis using c s' by simp
qed


section \<open>Concrete runs\<close>

definition channel_zero :: gdma_channel where
  "channel_zero = \<lparr>ch_config = ctl_zero, ch_dst_start_addr = 0, ch_src_start_addr = 0, ch_dst_loop_end_addr = 0,
     ch_dst_loop_start_addr = 0, ch_src_loop_end_addr = 0, ch_src_loop_start_addr = 0,
     ch_mux_reqs = \<lparr>mx_src_req = 0, mx_dst_req = 0, mx_src_rd_interval = 0, mx_dst_wr_interval = 0\<rparr>\<rparr>"

definition gdma_zero :: gdma where
  "gdma_zero = \<lparr>gd_channels = replicate 6 channel_zero, gd_int_counts = replicate 6 0, gd_prio_mode = 0, gd_fin = 0,
     gd_half_fin = 0, gd_dst_wr_addr = replicate 6 0, gd_reserved = 0, gd_finish = replicate 6 None,
     gd_h_finish = replicate 6 None,
     gd_intc = \<lparr>ic_raw = 0, ic_enable = 0, ic_gl_irq = True, ic_gl_fiq = True, ic_extra = 0, ic_vectors = [],
       ic_manager = \<lparr>hc_handled_mask = 0, hc_handlers = []\<rparr>, ic_fires = replicate 32 0, ic_orphans = 0,
       ic_spurious_irq = 0, ic_spurious_fiq = 0\<rparr>,
     gd_timeouts = timeouts_init\<rparr>"

definition copy_config :: gdma_config where
  "copy_config =
     \<lparr>cf_src = \<lparr>ep_mode = 0, ep_addr = 0x400100, ep_loop_addr = 0, ep_loop_end_addr = 0, ep_incr = True, ep_dw = 2, ep_interval = 0\<rparr>,
      cf_dst = \<lparr>ep_mode = 0, ep_addr = 0x400200, ep_loop_addr = 0, ep_loop_end_addr = 0, ep_incr = True, ep_dw = 2, ep_interval = 0\<rparr>,
      cf_repeat = False, cf_finish = None, cf_h_finish = None\<rparr>"



end
