(* ===== verification/Jpeg.thy ===== *)
theory Jpeg
  imports Intc Gpio
begin

text \<open>
  The JPEG encoder, \<open>src/src/platform/drivers/hardware_jpeg/jpeg.c\<close>, on the registers of
  \<open>src/src/platform/soc/bk7221u/include/soc/jpeg.h\<close>.
\<close>

section \<open>Registers\<close>

record jpeg_ctrl0 =
  j0_start_frame_int :: bool
  j0_end_frame_int   :: bool
  j0_div             :: "2 word"

record jpeg_ctrl1 =
  j1_video_byte_rev :: bool
  j1_yuv_fmt_sel    :: "2 word"
  j1_enc_en         :: bool
  j1_x_pixel        :: u8
  j1_enc_size       :: bool
  j1_bit_rate_ctrl  :: bool
  j1_bit_rate_step  :: "3 word"
  j1_hsync_rev      :: bool
  j1_vsync_rev      :: bool
  j1_y_pixel        :: u8

definition ctrl0_zero :: jpeg_ctrl0 where
  "ctrl0_zero = \<lparr>j0_start_frame_int = False, j0_end_frame_int = False, j0_div = 0\<rparr>"

definition ctrl1_zero :: jpeg_ctrl1 where
  "ctrl1_zero = \<lparr>j1_video_byte_rev = False, j1_yuv_fmt_sel = 0, j1_enc_en = False, j1_x_pixel = 0, j1_enc_size = False,
     j1_bit_rate_ctrl = False, j1_bit_rate_step = 0, j1_hsync_rev = False, j1_vsync_rev = False, j1_y_pixel = 0\<rparr>"

text \<open>The registers, \<open>rx_fifo_data\<close> as the words waiting behind it, the power-down bit, and the two handlers.\<close>

record jpeg =
  jp_ctrl0              :: jpeg_ctrl0
  jp_ctrl1              :: jpeg_ctrl1
  jp_target_byte_h      :: u32
  jp_target_byte_l      :: u32
  jp_rx_fifo            :: "u32 list"
  jp_start_frame        :: bool
  jp_end_frame          :: bool
  jp_byte_cnt_pfrm      :: u32
  jp_quantization_table :: "u32 list"
  jp_powered_down       :: bool
  jp_start_handler      :: "nat option"
  jp_end_handler        :: "nat option"

record jpeg_encoder_config =
  je_image_width     :: u16
  je_image_height    :: u16
  je_frequency       :: "2 word"
  je_yuv_format      :: "2 word"
  je_hsync_invert    :: bool
  je_vsync_invert    :: bool
  je_frame_min_bytes :: u32
  je_frame_max_bytes :: u32

section \<open>Operations\<close>

definition jpeg_quant_table :: "u32 list" where
  "jpeg_quant_table =
    [0x07060608, 0x07080506, 0x09090707, 0x140c0a08, 0x0b0b0c0d, 0x1312190c, 0x1a1d140f, 0x1a1d1e1f,
     0x24201c1c, 0x2220272e, 0x1c1c232c, 0x2c293728, 0x34343130, 0x39271f34, 0x3c32383d, 0x3234332e,
     0x0c090909, 0x0d180c0b, 0x2132180d, 0x3232211c, 0x32323232, 0x32323232, 0x32323232, 0x32323232,
     0x32323232, 0x32323232, 0x32323232, 0x32323232, 0x32323232, 0x32323232, 0x32323232, 0x32323232]"

definition jpeg_init_quant_table :: "jpeg \<Rightarrow> jpeg" where
  "jpeg_init_quant_table j =
     j\<lparr>jp_quantization_table := fold (\<lambda>i q. q[i := jpeg_quant_table ! i]) [0..<length jpeg_quant_table] (jp_quantization_table j)\<rparr>"

text \<open>Writing the status register back clears what was set in it.\<close>

definition ack_status :: "jpeg \<Rightarrow> jpeg" where
  "ack_status j = j\<lparr>jp_start_frame := False, jp_end_frame := False\<rparr>"

text \<open>The handlers the interrupt calls, in order.\<close>

definition jpeg_isr :: "jpeg \<Rightarrow> nat list \<times> jpeg" where
  "jpeg_isr j =
     (let start_frame = jp_start_frame j;
          end_frame = jp_end_frame j;
          j = ack_status j;
          start_handler = jp_start_handler j;
          end_handler = jp_end_handler j
      in ((if start_frame then case start_handler of None \<Rightarrow> [] | Some h \<Rightarrow> [h] else [])
          @ (if end_frame then case end_handler of None \<Rightarrow> [] | Some h \<Rightarrow> [h] else []), j))"

definition jpeg_power_down :: "jpeg \<Rightarrow> jpeg" where "jpeg_power_down j = j\<lparr>jp_powered_down := True\<rparr>"
definition jpeg_power_up :: "jpeg \<Rightarrow> jpeg" where "jpeg_power_up j = j\<lparr>jp_powered_down := False\<rparr>"

text \<open>\<open>isr\<close> is the address of \<open>jpeg_isr\<close>.\<close>

definition jpeg_init :: "nat \<Rightarrow> jpeg \<Rightarrow> intc_state \<Rightarrow> hw_gpio \<Rightarrow> (jpeg \<times> intc_state \<times> hw_gpio) option" where
  "jpeg_init isr j ic g =
     do {
       let j = jpeg_power_down j;
       let j = j\<lparr>jp_ctrl0 := ctrl0_zero, jp_ctrl1 := ctrl1_zero\<rparr>;
       let j = ack_status j;
       let j = j\<lparr>jp_ctrl0 := ctrl0_zero\<lparr>j0_start_frame_int := True, j0_end_frame_int := True\<rparr>\<rparr>;
       ic \<leftarrow> intc_register_irq_handler 0x20000000 isr ic;
       let ic = intc_enable_irq_source 0x20000000 ic;
       let j = jpeg_init_quant_table j;
       Some (j, ic, gpio_config_function GPIO_FUNC_DCMI g)
     }"

definition jpeg_configure :: "jpeg_encoder_config \<Rightarrow> jpeg \<Rightarrow> jpeg" where
  "jpeg_configure config j =
     (let bitrate_control = (je_frame_min_bytes config > 0 \<and> je_frame_max_bytes config \<noteq> 0
            \<and> je_frame_max_bytes config > je_frame_min_bytes config);
          j = j\<lparr>jp_ctrl0 := ctrl0_zero, jp_ctrl1 := ctrl1_zero\<rparr>;
          j = j\<lparr>jp_ctrl1 := ctrl1_zero\<lparr>j1_x_pixel := ucast (je_image_width config div 8), j1_y_pixel := ucast (je_image_height config div 8),
                j1_enc_size := True, j1_video_byte_rev := True, j1_hsync_rev := je_hsync_invert config,
                j1_vsync_rev := je_vsync_invert config, j1_yuv_fmt_sel := je_yuv_format config, j1_bit_rate_step := 7,
                j1_bit_rate_ctrl := bitrate_control\<rparr>\<rparr>;
          j = j\<lparr>jp_target_byte_h := je_frame_max_bytes config, jp_target_byte_l := je_frame_min_bytes config\<rparr>
      in j\<lparr>jp_ctrl0 := ctrl0_zero\<lparr>j0_end_frame_int := True, j0_div := je_frequency config\<rparr>\<rparr>)"

definition jpeg_enable :: "jpeg \<Rightarrow> jpeg" where
  "jpeg_enable j = (ack_status j)\<lparr>jp_ctrl1 := (jp_ctrl1 j)\<lparr>j1_enc_en := True\<rparr>\<rparr>"

definition jpeg_disable :: "jpeg \<Rightarrow> jpeg" where
  "jpeg_disable j = (ack_status j)\<lparr>jp_ctrl1 := (jp_ctrl1 j)\<lparr>j1_enc_en := False\<rparr>\<rparr>"

definition jpeg_register_end_frame_handler :: "nat \<Rightarrow> jpeg \<Rightarrow> jpeg" where
  "jpeg_register_end_frame_handler h j = j\<lparr>jp_end_handler := Some h\<rparr>"

definition jpeg_clear_end_frame_handler :: "jpeg \<Rightarrow> jpeg" where
  "jpeg_clear_end_frame_handler j = j\<lparr>jp_end_handler := None\<rparr>"

definition jpeg_register_start_frame_handler :: "nat \<Rightarrow> jpeg \<Rightarrow> jpeg" where
  "jpeg_register_start_frame_handler h j = j\<lparr>jp_start_handler := Some h\<rparr>"

definition jpeg_clear_start_frame_handler :: "jpeg \<Rightarrow> jpeg" where
  "jpeg_clear_start_frame_handler j = j\<lparr>jp_start_handler := None\<rparr>"

definition jpeg_is_fifo_empty :: "jpeg \<Rightarrow> bool" where
  "jpeg_is_fifo_empty j \<longleftrightarrow> jp_rx_fifo j = []"

definition jpeg_get_last_frame_size :: "jpeg \<Rightarrow> u32" where
  "jpeg_get_last_frame_size j = jp_byte_cnt_pfrm j"

end
