(* ===== verification/Camera.thy ===== *)
theory Camera
  imports Gdma Jpeg
begin

text \<open>
  The camera, \<open>src/src/platform/devices/camera/camera.c\<close>: finding and powering the sensor, capturing one frame, and the
  continuous stream, in which the encoder's interrupt points the DMA at one slot after the other while the application
  takes finished frames. The state holds the driver's variables, the DMA driver, the encoder and the memory the frames
  are in. The I2C bus and the board's power control are arguments; \<open>world\<close> is what the hardware and the interrupts do
  while the code spins.
\<close>

section \<open>State\<close>

abbreviation CAMERA_STREAM_MAX_SLOTS :: nat where "CAMERA_STREAM_MAX_SLOTS \<equiv> 8"
abbreviation TRAILER_BYTES :: u32 where "TRAILER_BYTES \<equiv> 5"
abbreviation MAX_DMA_BYTES :: u32 where "MAX_DMA_BYTES \<equiv> 65536"
abbreviation PREFERRED_DMA_CHANNEL :: int where "PREFERRED_DMA_CHANNEL \<equiv> 4"
abbreviation FRAME_WAIT_SPINS :: nat where "FRAME_WAIT_SPINS \<equiv> 30000000"
abbreviation DRAIN_STABLE_POLLS :: u32 where "DRAIN_STABLE_POLLS \<equiv> 50"
abbreviation DRAIN_MAX_POLLS :: nat where "DRAIN_MAX_POLLS \<equiv> 400000"
abbreviation PROBE_ATTEMPTS :: nat where "PROBE_ATTEMPTS \<equiv> 10"
abbreviation JPEG_FIFO_ADDR :: u32 where "JPEG_FIFO_ADDR \<equiv> 0x0080A014"

record camera_sensor =
  cs_name         :: string
  cs_i2c_addr     :: u8
  cs_width        :: u16
  cs_height       :: u16
  cs_mclk         :: "2 word"
  cs_yuv_format   :: "2 word"
  cs_hsync_invert :: bool
  cs_vsync_invert :: bool
  cs_init_pairs   :: "(u8 \<times> u8) list"

text \<open>Pointers are addresses; 0 is \<open>NULL\<close>.\<close>

record camera_config =
  cc_sensor          :: "string option"
  cc_frame_buf       :: u32
  cc_frame_buf_size  :: u32
  cc_frame_min_bytes :: u32
  cc_frame_max_bytes :: u32

record camera_frame =
  fr_data :: u32
  fr_size :: u32

record camera_stream_config =
  sc_slots      :: u32
  sc_slot_size  :: u32
  sc_slot_count :: u32
  sc_on_frame   :: "nat option"

record camera_stream =
  st_config  :: camera_stream_config
  st_active  :: bool
  st_armed   :: bool
  st_current :: u32
  st_busy    :: "u8 list"
  st_size    :: "u32 list"
  st_queue   :: "u8 list"
  st_head    :: u32
  st_tail    :: u32
  st_dropped :: u32

record camera =
  cm_dma_channel     :: int
  cm_sensor          :: "camera_sensor option"
  cm_config          :: camera_config
  cm_end_frame_count :: u32
  cm_last_frame_size :: u32
  cm_stream          :: camera_stream
  cm_gdma            :: gdma
  cm_jpeg            :: jpeg
  cm_gpio            :: hw_gpio
  cm_mem             :: "u32 \<Rightarrow> u8"
  cm_clock           :: nat

section \<open>The stream\<close>

definition stream_slot_ptr :: "u32 \<Rightarrow> camera \<Rightarrow> u32" where
  "stream_slot_ptr slot c = sc_slots (st_config (cm_stream c)) + slot * sc_slot_size (st_config (cm_stream c))"

definition stream_arm :: "u32 \<Rightarrow> camera \<Rightarrow> camera" where
  "stream_arm slot c =
     c\<lparr>cm_gdma := snd (gdma_restart (cm_dma_channel c) (stream_slot_ptr slot c) (unat (sc_slot_size (st_config (cm_stream c)))) (cm_gdma c))\<rparr>"

text \<open>\<open>while (!jpeg_is_fifo_empty()) (void)hw_jpeg->rx_fifo_data;\<close>\<close>

function drain_fifo :: "jpeg \<Rightarrow> jpeg" where
  "drain_fifo j = (if jpeg_is_fifo_empty j then j else drain_fifo (j\<lparr>jp_rx_fifo := tl (jp_rx_fifo j)\<rparr>))"
  by pat_completeness auto
termination by (relation "measure (\<lambda>j. length (jp_rx_fifo j))") (auto simp: jpeg_is_fifo_empty_def neq_Nil_conv)

declare drain_fifo.simps [simp del]

text \<open>\<open>for (i = 1; i < slot_count && next < 0; i++)\<close>; \<open>None\<close> is \<open>-1\<close>.\<close>

fun next_free :: "nat \<Rightarrow> nat \<Rightarrow> u32 \<Rightarrow> u32 \<Rightarrow> u8 list \<Rightarrow> u32 option" where
  "next_free 0 i cur count busy = None"
| "next_free (Suc n) i cur count busy =
     (let candidate = (cur + of_nat i) mod count
      in if busy ! unat candidate = 0 then Some candidate else next_free n (i + 1) cur count busy)"

definition frame_whole :: "camera \<Rightarrow> u32 \<Rightarrow> u32 \<Rightarrow> u32 \<Rightarrow> bool" where
  "frame_whole c slot bytes sz \<longleftrightarrow> sz \<ge> 4 \<and> bytes = sz + TRAILER_BYTES \<and> bytes \<le> sc_slot_size (st_config (cm_stream c))
     \<and> cm_mem c slot = 0xFF \<and> cm_mem c (slot + 1) = 0xD8 \<and> cm_mem c (slot + (sz - 2)) = 0xFF \<and> cm_mem c (slot + (sz - 1)) = 0xD9"

text \<open>The second result is the \<open>on_frame\<close> callback to run, if a frame was queued.\<close>

definition stream_on_end_frame :: "camera \<Rightarrow> camera \<times> nat option" where
  "stream_on_end_frame c =
     (let st = cm_stream c; cur = st_current st; count = sc_slot_count (st_config st)
      in if \<not> st_armed st then
           let c = c\<lparr>cm_jpeg := drain_fifo (cm_jpeg c)\<rparr>;
               c = stream_arm cur c
           in (c\<lparr>cm_stream := (cm_stream c)\<lparr>st_armed := True\<rparr>\<rparr>, None)
         else
           let slot = stream_slot_ptr cur c;
               bytes = gdma_transferred (cm_dma_channel c) (cm_gdma c);
               sz = cm_last_frame_size c;
               whole = frame_whole c slot bytes sz;
               nxt = next_free (unat count - 1) 1 cur count (st_busy st);
               queued = (whole \<and> nxt \<noteq> None);
               c = (if queued then
                      c\<lparr>cm_stream := st\<lparr>st_size := (st_size st)[unat cur := sz],
                        st_queue := (st_queue st)[unat (st_head st mod count) := ucast cur],
                        st_head := st_head st + 1,
                        st_busy := (st_busy st)[unat (the nxt) := 1],
                        st_current := the nxt\<rparr>\<rparr>
                    else c\<lparr>cm_stream := st\<lparr>st_dropped := st_dropped st + 1\<rparr>\<rparr>);
               c = stream_arm (st_current (cm_stream c)) c
           in (c, if queued then sc_on_frame (st_config (cm_stream c)) else None))"

definition end_frame_handler :: "camera \<Rightarrow> camera \<times> nat option" where
  "end_frame_handler c =
     (let c = c\<lparr>cm_last_frame_size := jpeg_get_last_frame_size (cm_jpeg c)\<rparr>;
          c = c\<lparr>cm_end_frame_count := cm_end_frame_count c + 1\<rparr>
      in if st_active (cm_stream c) then stream_on_end_frame c else (c, None))"

text \<open>The DMA configuration of a capture or a stream: from the encoder's FIFO to \<open>addr\<close>.\<close>

definition camera_dma_config :: "u32 \<Rightarrow> gdma_config" where
  "camera_dma_config addr =
     \<lparr>cf_src = \<lparr>ep_mode = 8, ep_addr = JPEG_FIFO_ADDR, ep_loop_addr = 0, ep_loop_end_addr = 0, ep_incr = False, ep_dw = 2, ep_interval = 0\<rparr>,
      cf_dst = \<lparr>ep_mode = 0, ep_addr = addr, ep_loop_addr = 0, ep_loop_end_addr = 0, ep_incr = True, ep_dw = 2, ep_interval = 0\<rparr>,
      cf_repeat = False, cf_finish = None, cf_h_finish = None\<rparr>"

definition stream_zero :: camera_stream where
  "stream_zero = \<lparr>st_config = \<lparr>sc_slots = 0, sc_slot_size = 0, sc_slot_count = 0, sc_on_frame = None\<rparr>, st_active = False, st_armed = False,
     st_current = 0, st_busy = replicate CAMERA_STREAM_MAX_SLOTS 0, st_size = replicate CAMERA_STREAM_MAX_SLOTS 0,
     st_queue = replicate CAMERA_STREAM_MAX_SLOTS 0, st_head = 0, st_tail = 0, st_dropped = 0\<rparr>"

definition camera_stream_start :: "camera_stream_config option \<Rightarrow> camera \<Rightarrow> (errno + unit) \<times> camera" where
  "camera_stream_start config c =
     (if cm_sensor c = None then (Inl ENXIO, c)
      else if st_active (cm_stream c) then (Inl EBUSY, c)
      else
        case config of
          None \<Rightarrow> (Inl EINVAL, c)
        | Some cf \<Rightarrow>
            if sc_slots cf = 0 \<or> sc_slots cf AND 3 \<noteq> 0 \<or> sc_slot_size cf = 0 \<or> sc_slot_size cf AND 3 \<noteq> 0
               \<or> sc_slot_size cf > MAX_DMA_BYTES \<or> sc_slot_count cf < 2 \<or> sc_slot_count cf > of_nat CAMERA_STREAM_MAX_SLOTS
            then (Inl EINVAL, c)
            else if cc_frame_max_bytes (cm_config c) \<noteq> 0 \<and> sc_slot_size cf < cc_frame_max_bytes (cm_config c) + TRAILER_BYTES
            then (Inl EINVAL, c)
            else
              case gdma_configure (cm_dma_channel c) (Some (camera_dma_config (sc_slots cf))) (cm_gdma c) of
                (Inl rc, g) \<Rightarrow> (Inl rc, c\<lparr>cm_gdma := g\<rparr>)
              | (Inr _, g) \<Rightarrow>
                  (Inr (), c\<lparr>cm_gdma := g, cm_stream := stream_zero\<lparr>st_config := cf,
                     st_busy := (st_busy stream_zero)[0 := 1], st_active := True\<rparr>\<rparr>))"

definition camera_stream_stop :: "camera \<Rightarrow> camera" where
  "camera_stream_stop c =
     (if \<not> st_active (cm_stream c) then c
      else c\<lparr>cm_stream := (cm_stream c)\<lparr>st_active := False\<rparr>, cm_gdma := gdma_stop (cm_dma_channel c) (cm_gdma c)\<rparr>)"

definition camera_stream_get :: "camera \<Rightarrow> (errno + camera_frame) \<times> camera" where
  "camera_stream_get c =
     (let st = cm_stream c
      in if \<not> st_active st then (Inl ENXIO, c)
         else if st_tail st = st_head st then (Inl EAGAIN, c)
         else
           let slot = ucast (st_queue st ! unat (st_tail st mod sc_slot_count (st_config st))) :: u32
           in (Inr \<lparr>fr_data = stream_slot_ptr slot c, fr_size = st_size st ! unat slot\<rparr>,
               c\<lparr>cm_stream := st\<lparr>st_tail := st_tail st + 1\<rparr>\<rparr>))"

text \<open>\<open>frame\<close> is \<open>None\<close> for \<open>NULL\<close>.\<close>

definition camera_stream_release :: "camera_frame option \<Rightarrow> camera \<Rightarrow> camera" where
  "camera_stream_release frame c =
     (let st = cm_stream c; cf = st_config st
      in case frame of
           None \<Rightarrow> c
         | Some f \<Rightarrow>
             if \<not> st_active st \<or> fr_data f < sc_slots cf then c
             else
               let slot = (fr_data f - sc_slots cf) div sc_slot_size cf
               in if slot < sc_slot_count cf then c\<lparr>cm_stream := st\<lparr>st_busy := (st_busy st)[unat slot := 0]\<rparr>\<rparr> else c)"

definition camera_stream_dropped :: "camera \<Rightarrow> u32" where
  "camera_stream_dropped c = st_dropped (cm_stream c)"

section \<open>DMA channel and power\<close>

definition dma_release :: "camera \<Rightarrow> camera" where
  "dma_release c =
     (if cm_dma_channel c < 0 then c
      else c\<lparr>cm_gdma := gdma_release_channel (cm_dma_channel c) (gdma_stop (cm_dma_channel c) (cm_gdma c)), cm_dma_channel := - 1\<rparr>)"

definition dma_acquire :: "camera \<Rightarrow> (errno + unit) \<times> camera" where
  "dma_acquire c =
     (let c = dma_release c;
          (ch, g) = gdma_reserve_specific_channel PREFERRED_DMA_CHANNEL (cm_gdma c);
          (ch, g) = (case ch of Inl _ \<Rightarrow> gdma_reserve_channel g | Inr _ \<Rightarrow> (ch, g))
      in case ch of
           Inl _ \<Rightarrow> (Inl EBUSY, c\<lparr>cm_gdma := g\<rparr>)
         | Inr n \<Rightarrow> (Inr (), c\<lparr>cm_gdma := g, cm_dma_channel := int n\<rparr>))"

text \<open>What the board and the bus do: its reset pulse and power control, and the outcome of bus transfers.\<close>

record board =
  bd_pulse_reset :: "camera \<Rightarrow> camera"
  bd_power_on    :: "camera \<Rightarrow> camera"
  bd_power_down  :: "camera \<Rightarrow> camera"
  bd_i2c_init    :: "camera \<Rightarrow> camera"
  bd_i2c_deinit  :: "camera \<Rightarrow> camera"
  bd_i2c_write   :: "u8 \<Rightarrow> bytes \<Rightarrow> camera \<Rightarrow> (errno + unit) \<times> camera"
  bd_i2c_read    :: "u8 \<Rightarrow> nat \<Rightarrow> camera \<Rightarrow> (errno + bytes) \<times> camera"
  bd_sleep       :: "nat \<Rightarrow> camera \<Rightarrow> camera"

definition power_down :: "board \<Rightarrow> camera \<Rightarrow> camera" where
  "power_down bd c =
     (let c = bd_i2c_deinit bd c
      in c\<lparr>cm_jpeg := jpeg_clear_end_frame_handler (jpeg_power_down (jpeg_disable (cm_jpeg c)))\<rparr>)"

definition camera_bus_read_reg :: "board \<Rightarrow> u8 \<Rightarrow> u8 \<Rightarrow> camera \<Rightarrow> (errno + u8) \<times> camera" where
  "camera_bus_read_reg bd i2c_addr reg c =
     (case bd_i2c_write bd i2c_addr [reg] c of
        (Inl rc, c) \<Rightarrow> (Inl rc, c)
      | (Inr _, c) \<Rightarrow>
          case bd_i2c_read bd i2c_addr 1 c of
            (Inl rc, c) \<Rightarrow> (Inl rc, c)
          | (Inr bs, c) \<Rightarrow> (Inr (bs ! 0), c))"

definition camera_bus_write_reg :: "board \<Rightarrow> u8 \<Rightarrow> u8 \<Rightarrow> u8 \<Rightarrow> camera \<Rightarrow> (errno + unit) \<times> camera" where
  "camera_bus_write_reg bd i2c_addr reg val c = bd_i2c_write bd i2c_addr [reg, val] c"

text \<open>The one sensor of \<open>sensors.c\<close>; its probe reads the identification register.\<close>

definition hi704_probe :: "board \<Rightarrow> u8 \<Rightarrow> camera \<Rightarrow> bool \<times> camera" where
  "hi704_probe bd i2c_addr c =
     (case camera_bus_read_reg bd i2c_addr 0x04 c of
        (Inl _, c) \<Rightarrow> (False, c)
      | (Inr ident, c) \<Rightarrow> (ident = 0x96, c))"

definition hi704_init_tbl :: "(u8 \<times> u8) list" where
  "hi704_init_tbl =
    [(0x1, 0xF1), (0x1, 0xF1), (0x1, 0xF3), (0x1, 0xF1), (0x3, 0x00), (0x12, 4), (0x20, 0), (0x21, 4),
     (0x22, 0), (0x23, 4), (0x11, 0x92), (0x80, 0x2E), (0x81, 0x7E), (0x82, 0x90), (0x83, 0x30), (0x84, 0x2C),
     (0x85, 0x4B), (0x89, 0x48), (0x90, 0xB), (0x91, 0xB), (0x92, 0x48), (0x93, 0x48), (0x98, 0x38), (0x99, 0x40),
     (0xA0, 0), (0xA8, 0x40), (3, 2), (0x13, 0x40), (0x14, 4), (0x1A, 0), (0x1B, 8), (0x20, 0x33),
     (0x21, 0xAA), (0x22, 0xA7), (0x23, 0x32), (0x3B, 0x48), (0x50, 0x21), (0x52, 0xA2), (0x53, 0xA), (0x54, 0x30),
     (0x55, 0x10), (0x56, 0xC), (0x59, 0xF), (0x60, 0xCA), (0x61, 0xDB), (0x62, 0xCA), (0x63, 0xDA), (0x64, 0xCA),
     (0x65, 0xDA), (0x72, 0xCB), (0x73, 0xD8), (0x74, 0xCB), (0x75, 0xD8), (0x80, 2), (0x81, 0xBD), (0x82, 0x24),
     (0x83, 0x3E), (0x84, 0x24), (0x85, 0x3E), (0x92, 0x72), (0x93, 0x8C), (0x94, 0x72), (0x95, 0x8C), (0xA0, 3),
     (0xA1, 0xBB), (0xA4, 0xBB), (0xA5, 3), (0xA8, 0x44), (0xA9, 0x6A), (0xAA, 0x92), (0xAB, 0xB7), (0xB8, 0xC9),
     (0xB9, 0xD0), (0xBC, 0x20), (0xBD, 0x28), (0xC0, 0xDE), (0xC1, 0xEC), (0xC2, 0xDE), (0xC3, 0xEC), (0xC4, 0xE0),
     (0xC5, 0xEA), (0xC6, 0xE0), (0xC7, 0xEA), (0xC8, 0xE1), (0xC9, 0xE8), (0xCA, 0xE1), (0xCB, 0xE8), (0xCC, 0xE2),
     (0xCD, 0xE7), (0xCE, 0xE2), (0xCF, 0xE7), (0xD0, 0xC8), (0xD1, 0xEF), (3, 0x10), (0x10, 3), (0x11, 0x43),
     (0x12, 0x30), (0x40, 0x80), (0x41, 0x10), (0x48, 0x84), (0x50, 0x48), (0x60, 0x7F), (0x61, 0), (0x62, 0xA0),
     (0x63, 0x90), (0x64, 0x48), (0x66, 0x90), (0x67, 0x36), (3, 0x11), (0x10, 0x25), (0x11, 0x1F), (0x20, 0),
     (0x21, 0x38), (0x23, 0xA), (0x60, 0x10), (0x61, 0x82), (0x62, 0), (0x63, 0x83), (0x64, 0x83), (0x67, 0xF0),
     (0x68, 0x30), (0x69, 0x10), (3, 0x12), (0x40, 0xE9), (0x41, 9), (0x50, 0x18), (0x51, 0x24), (0x70, 0x1F),
     (0x71, 0), (0x72, 0), (0x73, 0), (0x74, 0x10), (0x75, 0x10), (0x76, 0x20), (0x77, 0x80), (0x78, 0x88),
     (0x79, 0x18), (0xB0, 0x7D), (3, 0x13), (0x10, 1), (0x11, 0x89), (0x12, 0x14), (0x13, 0x19), (0x14, 8),
     (0x20, 6), (0x21, 3), (0x23, 0x30), (0x24, 0x33), (0x25, 8), (0x26, 0x18), (0x27, 0), (0x28, 8),
     (0x29, 0x50), (0x2A, 0xE0), (0x2B, 0x10), (0x2C, 0x28), (0x2D, 0x40), (0x2E, 0), (0x2F, 0), (0x30, 0x11),
     (0x80, 3), (0x81, 7), (0x90, 4), (0x91, 2), (0x92, 0), (0x93, 0x20), (0x94, 0x42), (0x95, 0x60),
     (3, 0x14), (0x10, 1), (0x20, 0x60), (0x21, 0x80), (0x22, 0x66), (0x23, 0x50), (0x24, 0x44), (3, 0x15),
     (0x10, 3), (0x14, 0x3C), (0x16, 0x2C), (0x17, 0x2F), (0x30, 0xCB), (0x31, 0x61), (0x32, 0x16), (0x33, 0x23),
     (0x34, 0xCE), (0x35, 0x2B), (0x36, 1), (0x37, 0x34), (0x38, 0x75), (0x40, 0x87), (0x41, 0x18), (0x42, 0x91),
     (0x43, 0x94), (0x44, 0x9F), (0x45, 0x33), (0x46, 0), (0x47, 0x94), (0x48, 0x14), (3, 0x16), (0x30, 0),
     (0x31, 0xA), (0x32, 0x1B), (0x33, 0x2E), (0x34, 0x5C), (0x35, 0x79), (0x36, 0x95), (0x37, 0xA4), (0x38, 0xB1),
     (0x39, 0xBD), (0x3A, 0xC8), (0x3B, 0xD9), (0x3C, 0xE8), (0x3D, 0xF5), (0x3E, 0xFF), (3, 0x17), (0xC4, 0x3C),
     (0xC5, 0x32), (3, 0x20), (0x10, 0xC), (0x11, 4), (0x20, 1), (0x28, 0x27), (0x29, 0xA1), (0x2A, 0xF0),
     (0x2B, 0x34), (0x2C, 0x2B), (0x30, 0xF8), (0x39, 0x22), (0x3A, 0xDE), (0x3B, 0x22), (0x3C, 0xDE), (0x60, 0x95),
     (0x68, 0x3C), (0x69, 0x64), (0x6A, 0x28), (0x6B, 0xC8), (0x70, 0x42), (0x76, 0x22), (0x77, 2), (0x78, 0x12),
     (0x79, 0x27), (0x7A, 0x23), (0x7C, 0x1D), (0x7D, 0x22), (0x83, 0), (0x84, 0xAF), (0x85, 0xC8), (0x86, 0),
     (0x87, 0xFA), (0x88, 2), (0x89, 0xBF), (0x8A, 0x20), (0x8B, 0x3A), (0x8C, 0x98), (0x8D, 0x30), (0x8E, 0xD4),
     (0x91, 2), (0x92, 0xDC), (0x93, 0x6C), (0x94, 1), (0x95, 0xB7), (0x96, 0x74), (0x98, 0x8C), (0x99, 0x23),
     (0x9C, 0xB), (0x9D, 0x3B), (0x9E, 0), (0x9F, 0xFA), (0xB1, 0x14), (0xB2, 0x50), (0xB4, 0x14), (0xB5, 0x38),
     (0xB6, 0x26), (0xB7, 0x20), (0xB8, 0x1D), (0xB9, 0x1B), (0xBA, 0x1A), (0xBB, 0x19), (0xBC, 0x19), (0xBD, 0x18),
     (0xC0, 0x1A), (0xC3, 0x48), (0xC4, 0x48), (3, 0x22), (0x10, 0xE2), (0x11, 0x26), (0x21, 0x40), (0x30, 0x80),
     (0x31, 0x80), (0x38, 0x12), (0x39, 0x33), (0x40, 0xF0), (0x41, 0x33), (0x42, 0x33), (0x43, 0xF3), (0x44, 0x55),
     (0x45, 0x44), (0x46, 2), (0x80, 0x45), (0x81, 0x20), (0x82, 0x48), (0x83, 0x52), (0x84, 0x1B), (0x85, 0x50),
     (0x86, 0x25), (0x87, 0x4D), (0x88, 0x38), (0x89, 0x3E), (0x8A, 0x29), (0x8B, 2), (0x8D, 0x22), (0x8E, 0x71),
     (0x8F, 0x63), (0x90, 0x60), (0x91, 0x5C), (0x92, 0x56), (0x93, 0x52), (0x94, 0x4C), (0x95, 0x36), (0x96, 0x31),
     (0x97, 0x2E), (0x98, 0x2A), (0x99, 0x29), (0x9A, 0x26), (0x9B, 9), (3, 0), (0x11, 0x90), (3, 0x22),
     (0x10, 0xFB), (3, 0x20), (0x10, 0x9C), (1, 0xF0)]"

definition camera_sensor_hi704 :: camera_sensor where
  "camera_sensor_hi704 =
     \<lparr>cs_name = ''hi704'', cs_i2c_addr = 0x30, cs_width = 640, cs_height = 480, cs_mclk = 0, cs_yuv_format = 0,
      cs_hsync_invert = False, cs_vsync_invert = False, cs_init_pairs = hi704_init_tbl\<rparr>"

definition camera_sensors :: "board \<Rightarrow> (camera_sensor \<times> (u8 \<Rightarrow> camera \<Rightarrow> bool \<times> camera)) list" where
  "camera_sensors bd = [(camera_sensor_hi704, hi704_probe bd)]"

definition encoder_start :: "camera_sensor \<Rightarrow> camera \<Rightarrow> camera" where
  "encoder_start sensor c =
     (let config = \<lparr>je_image_width = cs_width sensor, je_image_height = cs_height sensor, je_frequency = cs_mclk sensor,
            je_yuv_format = cs_yuv_format sensor, je_hsync_invert = cs_hsync_invert sensor, je_vsync_invert = cs_vsync_invert sensor,
            je_frame_min_bytes = cc_frame_min_bytes (cm_config c), je_frame_max_bytes = cc_frame_max_bytes (cm_config c)\<rparr>
      in c\<lparr>cm_jpeg := jpeg_enable (jpeg_power_up (jpeg_configure config (cm_jpeg c)))\<rparr>)"

fun wait_for_sensor :: "nat \<Rightarrow> board \<Rightarrow> (u8 \<Rightarrow> camera \<Rightarrow> bool \<times> camera) \<Rightarrow> camera_sensor \<Rightarrow> camera \<Rightarrow> bool \<times> camera" where
  "wait_for_sensor 0 bd probe sensor c = (False, c)"
| "wait_for_sensor (Suc attempts) bd probe sensor c =
     (case probe (cs_i2c_addr sensor) c of
        (True, c) \<Rightarrow> (True, c)
      | (False, c) \<Rightarrow> wait_for_sensor attempts bd probe sensor (bd_sleep bd 20000 c))"

text \<open>Every pair is written even after one has failed.\<close>

fun load_init_table :: "board \<Rightarrow> u8 \<Rightarrow> (u8 \<times> u8) list \<Rightarrow> camera \<Rightarrow> (errno + unit) \<times> camera" where
  "load_init_table bd i2c_addr [] c = (Inr (), c)"
| "load_init_table bd i2c_addr ((reg, val) # pairs) c =
     (let (rc, c) = camera_bus_write_reg bd i2c_addr reg val c;
          (result, c) = load_init_table bd i2c_addr pairs c
      in (if rc \<noteq> Inr () then Inl EIO else result, c))"

definition camera_stop :: "board \<Rightarrow> camera \<Rightarrow> camera" where
  "camera_stop bd c =
     (let c = camera_stream_stop c;
          c = dma_release c;
          c = power_down bd c;
          c = bd_power_down bd c
      in c\<lparr>cm_sensor := None\<rparr>)"

text \<open>The loop over the known sensors; the flag is \<open>i2c_ready\<close>.\<close>

fun find_sensor ::
  "board \<Rightarrow> string option \<Rightarrow> (camera_sensor \<times> (u8 \<Rightarrow> camera \<Rightarrow> bool \<times> camera)) list \<Rightarrow> bool \<Rightarrow> camera \<Rightarrow> camera_sensor option \<times> camera" where
  "find_sensor bd wanted [] i2c_ready c = (None, c)"
| "find_sensor bd wanted ((candidate, probe) # rest) i2c_ready c =
     (if wanted \<noteq> None \<and> wanted \<noteq> Some (cs_name candidate) then find_sensor bd wanted rest i2c_ready c
      else
        let c = encoder_start candidate c;
            c = (if i2c_ready then c else bd_sleep bd 200000 (bd_i2c_init bd c))
        in case wait_for_sensor PROBE_ATTEMPTS bd probe candidate c of
             (True, c) \<Rightarrow> (Some candidate, c)
           | (False, c) \<Rightarrow> find_sensor bd wanted rest True (c\<lparr>cm_jpeg := jpeg_power_down (jpeg_disable (cm_jpeg c))\<rparr>))"

text \<open>\<open>isr\<close> is the address of \<open>jpeg_isr\<close>, \<open>h\<close> that of \<open>end_frame_handler\<close>. \<open>None\<close> is a failed assertion of the interrupt
  controller.\<close>

definition camera_start ::
  "board \<Rightarrow> nat \<Rightarrow> nat \<Rightarrow> (camera_sensor \<times> (u8 \<Rightarrow> camera \<Rightarrow> bool \<times> camera)) list \<Rightarrow> camera_config option \<Rightarrow> camera
     \<Rightarrow> ((errno + unit) \<times> camera) option" where
  "camera_start bd isr h sensors config c =
     (case config of
        None \<Rightarrow> Some (Inl EINVAL, c)
      | Some cf \<Rightarrow>
          if cc_frame_buf cf = 0 \<or> cc_frame_buf_size cf = 0 \<or> cc_frame_buf cf AND 3 \<noteq> 0 \<or> cc_frame_buf_size cf AND 3 \<noteq> 0
          then Some (Inl EINVAL, c)
          else if cc_sensor cf \<noteq> None \<and> the (cc_sensor cf) \<notin> set (map (cs_name \<circ> fst) sensors) then Some (Inl EINVAL, c)
          else
            let c = camera_stream_stop c;
                c = c\<lparr>cm_sensor := None, cm_config := cf\<rparr>
            in case dma_acquire c of
                 (Inl rc, c) \<Rightarrow> Some (Inl rc, c)
               | (Inr _, c) \<Rightarrow>
                   let c = bd_power_on bd (bd_pulse_reset bd (power_down bd c))
                   in do {
                     (j, ic, g) \<leftarrow> jpeg_init isr (cm_jpeg c) (gd_intc (cm_gdma c)) (cm_gpio c);
                     let c = c\<lparr>cm_jpeg := jpeg_register_end_frame_handler h j, cm_gdma := (cm_gdma c)\<lparr>gd_intc := ic\<rparr>, cm_gpio := g\<rparr>;
                     Some (case find_sensor bd (cc_sensor cf) sensors False c of
                        (None, c) \<Rightarrow> (Inl ENODEV, camera_stop bd c)
                      | (Some found, c) \<Rightarrow>
                          (case load_init_table bd (cs_i2c_addr found) (cs_init_pairs found) c of
                             (Inl _, c) \<Rightarrow> (Inl EIO, camera_stop bd c)
                           | (Inr _, c) \<Rightarrow> (Inr (), (bd_sleep bd 1000000 c)\<lparr>cm_sensor := Some found\<rparr>)))
                   })"

definition camera_sensor_name :: "camera \<Rightarrow> string option" where
  "camera_sensor_name c = map_option cs_name (cm_sensor c)"

definition camera_frames_seen :: "camera \<Rightarrow> u32" where "camera_frames_seen c = cm_end_frame_count c"
definition camera_last_frame_size :: "camera \<Rightarrow> u32" where "camera_last_frame_size c = cm_last_frame_size c"

definition camera_sensor_read :: "board \<Rightarrow> u8 \<Rightarrow> camera \<Rightarrow> (errno + u8) \<times> camera" where
  "camera_sensor_read bd reg c =
     (case cm_sensor c of None \<Rightarrow> (Inl ENXIO, c) | Some s \<Rightarrow> camera_bus_read_reg bd (cs_i2c_addr s) reg c)"

definition camera_sensor_write :: "board \<Rightarrow> u8 \<Rightarrow> u8 \<Rightarrow> camera \<Rightarrow> (errno + unit) \<times> camera" where
  "camera_sensor_write bd reg val c =
     (case cm_sensor c of None \<Rightarrow> (Inl ENXIO, c) | Some s \<Rightarrow> camera_bus_write_reg bd (cs_i2c_addr s) reg val c)"

section \<open>One frame\<close>

definition spin :: "(nat \<Rightarrow> camera \<Rightarrow> camera) \<Rightarrow> camera \<Rightarrow> camera" where
  "spin world c = (world (cm_clock c) c)\<lparr>cm_clock := cm_clock c + 1\<rparr>"

fun wait_end_frame :: "nat \<Rightarrow> (nat \<Rightarrow> camera \<Rightarrow> camera) \<Rightarrow> u32 \<Rightarrow> camera \<Rightarrow> bool \<times> camera" where
  "wait_end_frame 0 world start_count c = (False, c)"
| "wait_end_frame (Suc spins) world start_count c =
     (if cm_end_frame_count c \<noteq> start_count then (True, c) else wait_end_frame spins world start_count (spin world c))"

definition wait_next_end_frame :: "(nat \<Rightarrow> camera \<Rightarrow> camera) \<Rightarrow> u32 \<Rightarrow> camera \<Rightarrow> bool \<times> camera" where
  "wait_next_end_frame world start_count c = wait_end_frame FRAME_WAIT_SPINS world start_count c"

fun drain_loop :: "nat \<Rightarrow> (nat \<Rightarrow> camera \<Rightarrow> camera) \<Rightarrow> int \<Rightarrow> u32 \<Rightarrow> u32 \<Rightarrow> camera \<Rightarrow> camera" where
  "drain_loop 0 world ch last_pos steady c = c"
| "drain_loop (Suc polls) world ch last_pos steady c =
     (if steady < DRAIN_STABLE_POLLS \<and> gdma_busy ch (cm_gdma c) then
        let pos = gdma_transferred ch (cm_gdma c);
            steady = (if jpeg_is_fifo_empty (cm_jpeg c) \<and> pos = last_pos then steady + 1 else 0)
        in drain_loop polls world ch pos steady (spin world c)
      else c)"

definition wait_dma_drained :: "(nat \<Rightarrow> camera \<Rightarrow> camera) \<Rightarrow> int \<Rightarrow> camera \<Rightarrow> camera" where
  "wait_dma_drained world ch c = drain_loop DRAIN_MAX_POLLS world ch (gdma_transferred ch (cm_gdma c)) 0 c"

text \<open>The scan from position \<open>i\<close> on, \<open>n\<close> positions left; \<open>mem i\<close> is \<open>buf[i]\<close>.\<close>

fun scan_end :: "nat \<Rightarrow> nat \<Rightarrow> (nat \<Rightarrow> u8) \<Rightarrow> nat \<Rightarrow> nat" where
  "scan_end 0 i mem sz = sz"
| "scan_end (Suc n) i mem sz = scan_end n (i + 1) mem (if mem i = 0xFF \<and> mem (i + 1) = 0xD9 then i + 2 else sz)"

definition find_jpeg_end :: "(nat \<Rightarrow> u8) \<Rightarrow> nat \<Rightarrow> nat" where
  "find_jpeg_end mem bytes =
     (let start = (if bytes \<ge> 16 then bytes - 16 else 0) in scan_end (bytes - 1 - start) start mem 0)"

definition camera_capture_frame :: "(nat \<Rightarrow> camera \<Rightarrow> camera) \<Rightarrow> camera \<Rightarrow> (errno + camera_frame) \<times> camera" where
  "camera_capture_frame world c =
     (if cm_sensor c = None then (Inl ENXIO, c)
      else if st_active (cm_stream c) then (Inl EBUSY, c)
      else
        let ch = cm_dma_channel c
        in case gdma_configure ch (Some (camera_dma_config (cc_frame_buf (cm_config c)))) (cm_gdma c) of
             (Inl rc, g) \<Rightarrow> (Inl rc, c\<lparr>cm_gdma := g\<rparr>)
           | (Inr _, g) \<Rightarrow>
               (case wait_next_end_frame world (cm_end_frame_count c) (c\<lparr>cm_gdma := g\<rparr>) of
                  (False, c) \<Rightarrow> (Inl ETIMEDOUT, c)
                | (True, c) \<Rightarrow>
                    let count = cm_end_frame_count c;
                        c = c\<lparr>cm_jpeg := drain_fifo (cm_jpeg c)\<rparr>;
                        c = c\<lparr>cm_gdma := snd (gdma_restart ch (cc_frame_buf (cm_config c)) (unat (cc_frame_buf_size (cm_config c))) (cm_gdma c))\<rparr>
                    in case wait_next_end_frame world count c of
                         (False, c) \<Rightarrow> (Inl ETIMEDOUT, c\<lparr>cm_gdma := gdma_stop ch (cm_gdma c)\<rparr>)
                       | (True, c) \<Rightarrow>
                           let c = wait_dma_drained world ch c;
                               buffer_full = (\<not> gdma_busy ch (cm_gdma c));
                               c = c\<lparr>cm_gdma := gdma_stop ch (cm_gdma c)\<rparr>;
                               bytes = gdma_transferred ch (cm_gdma c);
                               buf = (\<lambda>i. cm_mem c (cc_frame_buf (cm_config c) + of_nat i));
                               sz = (if bytes \<le> cc_frame_buf_size (cm_config c) then find_jpeg_end buf (unat bytes) else 0);
                               header_ok = (bytes \<ge> 2 \<and> buf 0 = 0xFF \<and> buf 1 = 0xD8)
                           in if buffer_full then (Inl EOVERFLOW, c)
                              else if \<not> header_ok \<or> sz = 0 then (Inl EBADMSG, c)
                              else (Inr \<lparr>fr_data = cc_frame_buf (cm_config c), fr_size = of_nat sz\<rparr>, c)))"

text \<open>\<open>None\<close> is 0.\<close>

fun camera_strerror :: "errno option \<Rightarrow> string" where
  "camera_strerror None = ''ok''"
| "camera_strerror (Some EAGAIN) = ''no frame is ready''"
| "camera_strerror (Some EINVAL) = ''bad configuration or unknown sensor''"
| "camera_strerror (Some ENXIO) = ''camera is not started''"
| "camera_strerror (Some ENODEV) = ''no sensor answered''"
| "camera_strerror (Some EIO) = ''sensor register write failed''"
| "camera_strerror (Some EBUSY) = ''DMA channel is not available, or a stream is running''"
| "camera_strerror (Some ETIMEDOUT) = ''no frames arrived''"
| "camera_strerror (Some EOVERFLOW) = ''frame does not fit in the buffer''"
| "camera_strerror (Some EBADMSG) = ''received data is not a complete JPEG''"
| "camera_strerror (Some _) = ''unknown error''"

end
