(* ===== verification/Camera_Stream.thy ===== *)
theory Camera_Stream
  imports Camera Ring_Buffer
begin

text \<open>
  The continuous stream of \<open>camera.c\<close>. A slot is always in one place: the DMA writes to it, it holds a finished frame that
  waits, it holds a frame the application took, or it is free. The slots are shown to implement a queue of frames: under
  any sequence of encoder interrupts, DMA writes and calls of the application, frames come out complete and in the order
  they were finished, and a frame the application holds is not overwritten.
\<close>

section \<open>Slots and addresses\<close>

text \<open>A frame: its slot and its bytes.\<close>

type_synonym stored = "nat \<times> bytes"

abbreviation slot_size :: "camera \<Rightarrow> nat" where "slot_size c \<equiv> unat (sc_slot_size (st_config (cm_stream c)))"
abbreviation slot_count :: "camera \<Rightarrow> nat" where "slot_count c \<equiv> unat (sc_slot_count (st_config (cm_stream c)))"
abbreviation slots_at :: "camera \<Rightarrow> nat" where "slots_at c \<equiv> unat (sc_slots (st_config (cm_stream c)))"
abbreviation current :: "camera \<Rightarrow> nat" where "current c \<equiv> unat (st_current (cm_stream c))"

definition slot_bytes :: "camera \<Rightarrow> nat \<Rightarrow> nat \<Rightarrow> bytes" where
  "slot_bytes c sl n = map (\<lambda>i. cm_mem c (stream_slot_ptr (of_nat sl) c + of_nat i)) [0..<n]"

definition whole_jpeg :: "bytes \<Rightarrow> bool" where
  "whole_jpeg d \<longleftrightarrow> 4 \<le> length d \<and> d ! 0 = 0xFF \<and> d ! 1 = 0xD8 \<and> d ! (length d - 2) = 0xFF \<and> d ! (length d - 1) = 0xD9"

definition frame_of :: "camera \<Rightarrow> stored \<Rightarrow> camera_frame" where
  "frame_of c x = \<lparr>fr_data = stream_slot_ptr (of_nat (fst x)) c, fr_size = of_nat (length (snd x))\<rparr>"

definition config_ok :: "camera \<Rightarrow> bool" where
  "config_ok c \<longleftrightarrow> 2 \<le> slot_count c \<and> slot_count c \<le> CAMERA_STREAM_MAX_SLOTS \<and> 0 < slot_size c \<and> slot_size c \<le> 65536
     \<and> slots_at c + slot_count c * slot_size c \<le> 2 ^ 32"

lemma unat_slot_ptr:
  assumes "config_ok c" "sl < slot_count c" "i < slot_size c"
  shows "unat (stream_slot_ptr (of_nat sl) c + of_nat i) = slots_at c + sl * slot_size c + i"
proof -
  have "(sl + 1) * slot_size c \<le> slot_count c * slot_size c" using assms(2) by (intro mult_le_mono1) simp
  then have b: "slots_at c + sl * slot_size c + i < 2 ^ LENGTH(32)" using assms(1,3) by (simp add: config_ok_def)
  have "stream_slot_ptr (of_nat sl) c + of_nat i = of_nat (slots_at c + sl * slot_size c + i)"
    by (simp add: stream_slot_ptr_def)
  then show ?thesis using b by (simp only: unat_of_nat mod_less)
qed

text \<open>An address in one slot is outside the others.\<close>

lemma slots_disjoint:
  assumes "config_ok c" "sl < slot_count c" "cur < slot_count c" "sl \<noteq> cur" "i < slot_size c"
  shows "slot_size c \<le> unat (stream_slot_ptr (of_nat sl) c + of_nat i - stream_slot_ptr (of_nat cur) c)"
proof -
  let ?a = "stream_slot_ptr (of_nat sl) c + of_nat i" and ?p = "stream_slot_ptr (of_nat cur) c"
  have z: "0 < slot_size c" using assms(1) by (simp add: config_ok_def)
  have a: "unat ?a = slots_at c + sl * slot_size c + i" by (rule unat_slot_ptr [OF assms(1,2,5)])
  have p: "unat ?p = slots_at c + cur * slot_size c" using unat_slot_ptr [OF assms(1,3) z] by simp
  show ?thesis
  proof (cases "cur < sl")
    case True
    then have "(cur + 1) * slot_size c \<le> sl * slot_size c" by (intro mult_le_mono1) simp
    then have "?p \<le> ?a" "slot_size c \<le> unat ?a - unat ?p" using a p by (simp_all add: word_le_nat_alt)
    then show ?thesis by (simp add: unat_sub)
  next
    case False
    then have "sl < cur" using assms(4) by simp
    then have "(sl + 1) * slot_size c \<le> cur * slot_size c" by (intro mult_le_mono1) simp
    then have l: "unat ?a < unat ?p" using a p assms(5) by simp
    have "(cur + 1) * slot_size c \<le> slot_count c * slot_size c" using assms(3) by (intro mult_le_mono1) simp
    then have "cur * slot_size c + slot_size c \<le> 2 ^ 32" using assms(1) by (simp add: config_ok_def)
    then have b: "unat ?p - unat ?a + slot_size c \<le> 2 ^ 32" unfolding a p by linarith
    have "unat (?a - ?p) = 2 ^ 32 - (unat ?p - unat ?a)"
      using l by (subst unat_sub_if') simp
    then show ?thesis using b by linarith
  qed
qed

section \<open>Who has which slot\<close>

text \<open>The slots that are taken, and the busy flags.\<close>

definition slots_ok :: "camera \<Rightarrow> nat list \<Rightarrow> bool" where
  "slots_ok c taken \<longleftrightarrow> st_active (cm_stream c) \<and> length (st_busy (cm_stream c)) = 8 \<and> distinct taken \<and> set taken \<subseteq> {..<slot_count c}
     \<and> (\<forall>i < slot_count c. st_busy (cm_stream c) ! i \<noteq> 0 \<longleftrightarrow> i \<in> set taken)"

definition queue_ok :: "camera \<Rightarrow> stored list \<Rightarrow> bool" where
  "queue_ok c q \<longleftrightarrow> length (st_size (cm_stream c)) = 8 \<and> length (st_queue (cm_stream c)) = 8
     \<and> unat (st_head (cm_stream c)) = unat (st_tail (cm_stream c)) + length q
     \<and> (\<forall>i < length q. unat (st_queue (cm_stream c) ! ((unat (st_tail (cm_stream c)) + i) mod slot_count c)) = fst (q ! i))
     \<and> (\<forall>x \<in> set q. unat (st_size (cm_stream c) ! fst x) = length (snd x))"

definition frames_ok :: "camera \<Rightarrow> stored list \<Rightarrow> bool" where
  "frames_ok c xs \<longleftrightarrow>
     (\<forall>x \<in> set xs. whole_jpeg (snd x) \<and> length (snd x) \<le> slot_size c \<and> slot_bytes c (fst x) (length (snd x)) = snd x)"

text \<open>The DMA writes to the current slot and no further, or not at all.\<close>

definition dma_ok :: "camera \<Rightarrow> bool" where
  "dma_ok c \<longleftrightarrow> is_channel_valid (cm_dma_channel c) \<and> length (gd_channels (cm_gdma c)) = 6
     \<and> (let ch = gd_channels (cm_gdma c) ! nat (cm_dma_channel c)
        in if st_armed (cm_stream c)
           then ch_dst_start_addr ch = stream_slot_ptr (st_current (cm_stream c)) c \<and> unat (gc_transfer_length (ch_config ch)) + 1 = slot_size c
           else \<not> gc_enable (ch_config ch))"

definition stream_inv :: "camera \<Rightarrow> stored list \<Rightarrow> stored list \<Rightarrow> bool" where
  "stream_inv c q h \<longleftrightarrow> config_ok c \<and> slots_ok c (current c # map fst q @ map fst h) \<and> queue_ok c q \<and> frames_ok c (q @ h) \<and> dma_ok c"

section \<open>Events\<close>

text \<open>The encoder finishes a frame it counts as \<open>n\<close> bytes while the DMA's write positions are \<open>wr\<close>; the DMA writes the bytes
  \<open>m\<close> to its destination; the application takes a frame or gives one back.\<close>

datatype stream_ev = End_frame u32 "u32 list" | Dma "u32 \<Rightarrow> u8" | Get | Release camera_frame

definition dma_writes :: "(u32 \<Rightarrow> u8) \<Rightarrow> camera \<Rightarrow> camera" where
  "dma_writes m c =
     (let ch = gd_channels (cm_gdma c) ! nat (cm_dma_channel c)
      in if gc_enable (ch_config ch)
         then c\<lparr>cm_mem := \<lambda>a. if unat (a - ch_dst_start_addr ch) \<le> unat (gc_transfer_length (ch_config ch)) then m a else cm_mem c a\<rparr>
         else c)"

definition stream_step :: "stream_ev \<Rightarrow> camera \<Rightarrow> camera_frame list \<times> camera" where
  "stream_step ev c =
     (case ev of
        End_frame n wr \<Rightarrow>
          ([], fst (end_frame_handler (c\<lparr>cm_jpeg := (cm_jpeg c)\<lparr>jp_byte_cnt_pfrm := n\<rparr>, cm_gdma := (cm_gdma c)\<lparr>gd_dst_wr_addr := wr\<rparr>\<rparr>)))
      | Dma m \<Rightarrow> ([], dma_writes m c)
      | Get \<Rightarrow> (case camera_stream_get c of (Inl _, c) \<Rightarrow> ([], c) | (Inr f, c) \<Rightarrow> ([f], c))
      | Release f \<Rightarrow> ([], camera_stream_release (Some f) c))"

fun stream_run :: "stream_ev list \<Rightarrow> camera \<Rightarrow> camera_frame list \<times> camera" where
  "stream_run [] c = ([], c)"
| "stream_run (ev # evs) c = (let (fs, c) = stream_step ev c; (gs, c) = stream_run evs c in (fs @ gs, c))"

text \<open>The application gives back only frames it has.\<close>

fun client_ok :: "camera_frame list \<Rightarrow> stream_ev list \<Rightarrow> camera \<Rightarrow> bool" where
  "client_ok held [] c \<longleftrightarrow> True"
| "client_ok held (ev # evs) c \<longleftrightarrow>
     (case ev of Release f \<Rightarrow> f \<in> set held \<and> client_ok (removeAll f held) evs (snd (stream_step ev c))
      | _ \<Rightarrow> client_ok (fst (stream_step ev c) @ held) evs (snd (stream_step ev c)))"

text \<open>The frames it has after the events, the latest first.\<close>

fun client_held :: "camera_frame list \<Rightarrow> stream_ev list \<Rightarrow> camera \<Rightarrow> camera_frame list" where
  "client_held held [] c = held"
| "client_held held (ev # evs) c =
     client_held (case ev of Release f \<Rightarrow> removeAll f held | _ \<Rightarrow> fst (stream_step ev c) @ held) evs (snd (stream_step ev c))"

text \<open>The frames the stream accepted, in the order they were finished, with the bytes they had then.\<close>

fun accepted :: "stream_ev list \<Rightarrow> camera \<Rightarrow> stored list" where
  "accepted [] c = []"
| "accepted (ev # evs) c =
     (let c' = snd (stream_step ev c)
      in (case ev of
            End_frame n wr \<Rightarrow> if st_head (cm_stream c') \<noteq> st_head (cm_stream c) then [(current c, slot_bytes c (current c) (unat n))] else []
          | _ \<Rightarrow> []) @ accepted evs c')"

text \<open>The encoder's byte count leaves room for the trailer in 32 bits.\<close>

definition count_ok :: "stream_ev \<Rightarrow> bool" where
  "count_ok ev \<longleftrightarrow> (case ev of End_frame n wr \<Rightarrow> unat n + 5 < 2 ^ 32 | _ \<Rightarrow> True)"

section \<open>One step\<close>

text \<open>Facts that depend on the configuration and the memory alone.\<close>

lemma config_cong:
  assumes "st_config (cm_stream c') = st_config (cm_stream c)"
  shows "stream_slot_ptr sl c' = stream_slot_ptr sl c" "frame_of c' = frame_of c" "config_ok c' = config_ok c"
    and "cm_mem c' = cm_mem c \<Longrightarrow> slot_bytes c' = slot_bytes c" "cm_mem c' = cm_mem c \<Longrightarrow> frames_ok c' = frames_ok c"
  using assms by (simp_all add: stream_slot_ptr_def frame_of_def config_ok_def slot_bytes_def frames_ok_def fun_eq_iff)

lemma dma_ok_cong:
  assumes "st_config (cm_stream c') = st_config (cm_stream c)" "st_current (cm_stream c') = st_current (cm_stream c)"
    "st_armed (cm_stream c') = st_armed (cm_stream c)" "cm_gdma c' = cm_gdma c" "cm_dma_channel c' = cm_dma_channel c"
  shows "dma_ok c' = dma_ok c"
  using assms by (simp add: dma_ok_def stream_slot_ptr_def)

lemma slot_bytes_dma:
  assumes "config_ok c" "dma_ok c" "sl < slot_count c" "current c < slot_count c" "sl \<noteq> current c" "n \<le> slot_size c"
  shows "slot_bytes (dma_writes m c) sl n = slot_bytes c sl n"
proof -
  let ?c = "dma_writes m c"
  have st: "cm_stream ?c = cm_stream c" by (simp add: dma_writes_def Let_def)
  have cur: "stream_slot_ptr (of_nat (current c)) c = stream_slot_ptr (st_current (cm_stream c)) c" by simp
  have "cm_mem ?c (stream_slot_ptr (of_nat sl) c + of_nat i) = cm_mem c (stream_slot_ptr (of_nat sl) c + of_nat i)" if "i < n" for i
    using slots_disjoint [OF assms(1,3-5), of i] that assms(2,6) unfolding cur
    by (auto simp: dma_writes_def Let_def dma_ok_def split: if_splits)
  then show ?thesis by (simp add: slot_bytes_def stream_slot_ptr_def st)
qed

lemma dma_step:
  assumes "stream_inv c q h"
  shows "stream_inv (dma_writes m c) q h" "cm_stream (dma_writes m c) = cm_stream c"
proof -
  let ?c = "dma_writes m c"
  show st: "cm_stream ?c = cm_stream c" by (simp add: dma_writes_def Let_def)
  have rest: "cm_gdma ?c = cm_gdma c" "cm_dma_channel ?c = cm_dma_channel c" by (simp_all add: dma_writes_def Let_def)
  have s: "slots_ok c (current c # map fst q @ map fst h)" "config_ok c" "dma_ok c" "frames_ok c (q @ h)" using assms by (simp_all add: stream_inv_def)
  have "fst x < slot_count c \<and> fst x \<noteq> current c \<and> current c < slot_count c" if "x \<in> set (q @ h)" for x
  proof -
    have "fst x \<in> set (map fst q @ map fst h)" using that by auto
    moreover have "current c \<notin> set (map fst q @ map fst h)" "set (map fst q @ map fst h) \<subseteq> {..<slot_count c}" "current c < slot_count c"
      using s(1) by (simp_all add: slots_ok_def)
    ultimately show ?thesis by (metis lessThan_iff subsetD)
  qed
  then have "frames_ok ?c (q @ h)" using s(4) slot_bytes_dma [OF s(2,3)] unfolding frames_ok_def st by metis
  moreover have "config_ok ?c" "slots_ok ?c = slots_ok c" "queue_ok ?c = queue_ok c" "dma_ok ?c"
    using s(2,3) config_cong(3) [of ?c c] dma_ok_cong [of ?c c] by (simp_all add: slots_ok_def queue_ok_def st rest fun_eq_iff)
  ultimately show "stream_inv ?c q h" using assms by (simp add: stream_inv_def st)
qed

lemma get_empty:
  assumes "stream_inv c [] h"
  shows "camera_stream_get c = (Inl EAGAIN, c)"
proof -
  have "st_active (cm_stream c)" "unat (st_head (cm_stream c)) = unat (st_tail (cm_stream c))"
    using assms by (simp_all add: stream_inv_def slots_ok_def queue_ok_def)
  then show ?thesis by (simp add: camera_stream_get_def word_unat_eq_iff)
qed

lemma ucast_of_slot: "unat b = n \<Longrightarrow> ucast b = (of_nat n :: u32)" for b :: u8
  by (metis of_nat_unat)

lemma get_step:
  assumes "stream_inv c (x # q) h"
  shows "\<exists>c'. camera_stream_get c = (Inr (frame_of c x), c') \<and> stream_inv c' q (x # h)
    \<and> st_config (cm_stream c') = st_config (cm_stream c) \<and> st_head (cm_stream c') = st_head (cm_stream c)"
proof -
  let ?st = "cm_stream c"
  let ?c = "c\<lparr>cm_stream := ?st\<lparr>st_tail := st_tail ?st + 1\<rparr>\<rparr>"
  have i: "config_ok c" "slots_ok c (current c # map fst (x # q) @ map fst h)" "queue_ok c (x # q)" "frames_ok c (x # q @ h)" "dma_ok c"
    using assms by (simp_all add: stream_inv_def)
  have hd: "unat (st_head ?st) = unat (st_tail ?st) + Suc (length q)"
    "unat (st_queue ?st ! (unat (st_tail ?st) mod slot_count c)) = fst x" "unat (st_size ?st ! fst x) = length (snd x)"
    using i(3) unfolding queue_ok_def by (auto dest: spec [of _ 0])
  have "unat (st_head ?st) < 2 ^ LENGTH(32)" by (rule unsigned_less)
  then have t: "unat (st_tail ?st + 1) = unat (st_tail ?st) + 1" using hd(1) by (simp add: unat_word_ariths(1))
  have ne: "st_tail ?st \<noteq> st_head ?st" using hd(1) by auto
  have m: "unat (st_tail ?st mod sc_slot_count (st_config ?st)) = unat (st_tail ?st) mod slot_count c" by (rule unat_mod)
  have "fst x < 8" using i(1,2) by (simp add: slots_ok_def config_ok_def)
  then have ux: "unat (of_nat (fst x) :: u32) = fst x" unfolding unat_of_nat by simp
  have "st_size ?st ! fst x = of_nat (length (snd x))" using hd(3) by (metis of_nat_unat ucast_id)
  then have "camera_stream_get c = (Inr (frame_of c x), ?c)"
    using i(2) ne by (simp add: camera_stream_get_def Let_def m ucast_of_slot [OF hd(2)] ux frame_of_def slots_ok_def)
  moreover have "stream_inv ?c q (x # h)"
  proof -
    have "unat (st_queue ?st ! ((unat (st_tail ?st) + 1 + k) mod slot_count c)) = fst (q ! k)" if "k < length q" for k
      using i(3) that unfolding queue_ok_def by (auto dest: spec [of _ "Suc k"])
    then have "queue_ok ?c q" using i(3) t unfolding queue_ok_def by simp
    moreover have "config_ok ?c" "frames_ok ?c (q @ x # h)" "dma_ok ?c"
      using i(1,4,5) config_cong(3,5) [of ?c c] dma_ok_cong [of ?c c] by (simp_all, simp add: frames_ok_def)
    moreover have "slots_ok ?c (current ?c # map fst q @ map fst (x # h))" using i(2) by (auto simp: slots_ok_def)
    ultimately show ?thesis by (simp add: stream_inv_def)
  qed
  ultimately show ?thesis by auto
qed

lemma frame_of_slot:
  assumes "config_ok c" "fst x < slot_count c"
  shows "unat (fr_data (frame_of c x)) = slots_at c + fst x * slot_size c"
  using unat_slot_ptr [OF assms, of 0] assms(1) by (simp add: frame_of_def config_ok_def)

lemma release_step:
  assumes "stream_inv c q h" "x \<in> set h"
  defines "c' \<equiv> camera_stream_release (Some (frame_of c x)) c"
  shows "stream_inv c' q (filter (\<lambda>y. frame_of c y \<noteq> frame_of c x) h)" "st_config (cm_stream c') = st_config (cm_stream c)"
    "st_head (cm_stream c') = st_head (cm_stream c)"
proof -
  let ?st = "cm_stream c" and ?f = "frame_of c x"
  let ?h = "filter (\<lambda>y. frame_of c y \<noteq> ?f) h"
  have i: "config_ok c" "slots_ok c (current c # map fst q @ map fst h)" "queue_ok c q" "frames_ok c (q @ h)" "dma_ok c"
    using assms(1) by (simp_all add: stream_inv_def)
  have lt: "fst y < slot_count c" if "y \<in> set h" for y using i(2) that by (auto simp: slots_ok_def)
  have x: "fst x < slot_count c" "fst x < 8" using lt [OF assms(2)] i(1) by (simp_all add: config_ok_def)
  have fd: "unat (fr_data ?f) = slots_at c + fst x * slot_size c" by (rule frame_of_slot [OF i(1) x(1)])
  have ge: "\<not> fr_data ?f < sc_slots (st_config ?st)" using fd by (simp add: word_less_nat_alt)
  then have "unat (fr_data ?f - sc_slots (st_config ?st)) = fst x * slot_size c" using fd by (simp add: unat_sub not_less)
  then have sl: "unat ((fr_data ?f - sc_slots (st_config ?st)) div sc_slot_size (st_config ?st)) = fst x"
    using i(1) by (simp add: unat_div config_ok_def)
  have act: "st_active ?st" using i(2) by (simp add: slots_ok_def)
  have c': "c' = c\<lparr>cm_stream := ?st\<lparr>st_busy := (st_busy ?st)[fst x := 0]\<rparr>\<rparr>"
    using act ge sl x(1) by (simp add: c'_def camera_stream_release_def Let_def word_less_nat_alt)
  have inj: "frame_of c y = ?f \<longleftrightarrow> fst y = fst x" if "y \<in> set h" for y
  proof
    assume "frame_of c y = ?f"
    then have "slots_at c + fst y * slot_size c = slots_at c + fst x * slot_size c"
      using frame_of_slot [OF i(1) lt [OF that]] fd by metis
    then have "fst y * slot_size c = fst x * slot_size c" by (rule add_left_imp_eq)
    moreover have "slot_size c \<noteq> 0" using i(1) by (simp add: config_ok_def)
    ultimately show "fst y = fst x" by simp
  next
    assume "fst y = fst x"
    then have "y = x" using i(2) that assms(2) by (auto simp: slots_ok_def distinct_map dest: inj_onD)
    then show "frame_of c y = ?f" by simp
  qed
  have h: "fst ` set ?h = fst ` set h - {fst x}" using inj by auto
  have "fst x \<in> set (map fst h)" using assms(2) by simp
  then have nx: "fst x \<notin> set (current c # map fst q)" using i(2) unfolding slots_ok_def by (metis (no_types) append_Cons distinct_append disjoint_iff)
  have dh: "distinct (map fst ?h)" using i(2) by (simp add: slots_ok_def distinct_map_filter)
  have "slots_ok c' (current c' # map fst q @ map fst ?h)"
    using i(2) h nx dh x unfolding slots_ok_def by (auto simp: c' nth_list_update)
  moreover have fr: "frames_ok c (q @ ?h)" using i(4) unfolding frames_ok_def by auto
  moreover have "config_ok c'" "frames_ok c' (q @ ?h)" "dma_ok c'" "queue_ok c' q"
    using i(1,3,5) fr config_cong(3,5) [of c' c] dma_ok_cong [of c' c] by (simp_all add: c' queue_ok_def)
  ultimately show "stream_inv c' q ?h" by (simp add: stream_inv_def)
  show "st_config (cm_stream c') = st_config (cm_stream c)" "st_head (cm_stream c') = st_head (cm_stream c)" by (simp_all add: c')
qed

text \<open>The next slot is a free one.\<close>

lemma next_free_Some:
  "next_free n i cur count busy = Some k \<Longrightarrow> 0 < unat count \<Longrightarrow> unat k < unat count \<and> busy ! unat k = 0"
  by (induction n i cur count busy rule: next_free.induct)
    (auto simp: Let_def unat_mod split: if_splits)

lemma stream_arm_effect:
  assumes "is_channel_valid (cm_dma_channel c)" "length (gd_channels (cm_gdma c)) = 6" "config_ok c" "sl = st_current (cm_stream c)" "st_armed (cm_stream c)"
  shows "dma_ok (stream_arm sl c)" "cm_stream (stream_arm sl c) = cm_stream c" "cm_mem (stream_arm sl c) = cm_mem c"
proof -
  let ?ch = "cm_dma_channel c"
  have v: "nat ?ch < 6" using assms(1) by (auto simp: is_channel_valid_def)
  have sz: "0 < slot_size c" "slot_size c \<le> 65536" using assms(3) by (simp_all add: config_ok_def)
  have l: "unat (of_nat (slot_size c - 1) :: u16) = slot_size c - 1" unfolding unat_of_nat using sz by simp
  show st: "cm_stream (stream_arm sl c) = cm_stream c" "cm_mem (stream_arm sl c) = cm_mem c" by (simp_all add: stream_arm_def)
  have r: "gdma_restart ?ch a (slot_size c) g =
     (Inr (), upd_channel (nat ?ch) (\<lambda>x. x\<lparr>ch_config := (ch_config x)\<lparr>gc_transfer_length := of_nat (slot_size c - 1), gc_enable := True\<rparr>\<rparr>)
       (upd_channel (nat ?ch) (\<lambda>x. x\<lparr>ch_dst_start_addr := a\<rparr>) (upd_channel (nat ?ch) (set_enable False) g)))" for a g
    using assms(1) sz by (simp add: gdma_restart_def gdma_start_def Let_def)
  show "dma_ok (stream_arm sl c)"
    unfolding dma_ok_def st using assms v sz l
    by (simp add: stream_arm_def r upd_channel_def Let_def stream_slot_ptr_def del: of_nat_diff)
qed

lemma slots_busy: "slots_ok c taken \<Longrightarrow> i < slot_count c \<Longrightarrow> st_busy (cm_stream c) ! i \<noteq> 0 \<longleftrightarrow> i \<in> set taken"
  by (simp add: slots_ok_def)

lemma slots_take:
  assumes "slots_ok c taken" "config_ok c" "k < slot_count c" "k \<notin> set taken"
    and "st_busy (cm_stream c') = (st_busy (cm_stream c))[k := 1]" "st_config (cm_stream c') = st_config (cm_stream c)"
    and "st_active (cm_stream c') = st_active (cm_stream c)" "distinct taken \<longrightarrow> distinct taken'" "set taken' = set taken"
  shows "slots_ok c' (k # taken')"
  using assms unfolding slots_ok_def config_ok_def by (simp add: nth_list_update)

lemma slots_bound:
  assumes "slots_ok c taken"
  shows "length taken \<le> slot_count c"
proof -
  have "card (set taken) \<le> card {..<slot_count c}" using assms by (intro card_mono) (simp_all add: slots_ok_def)
  then show ?thesis using assms by (simp add: slots_ok_def distinct_card)
qed

text \<open>The bytes of a frame that was received whole.\<close>

lemma whole_slot:
  assumes "config_ok c" "frame_whole c (stream_slot_ptr (st_current (cm_stream c)) c) bytes n" "unat n + 5 < 2 ^ 32"
  defines "d \<equiv> slot_bytes c (current c) (unat n)"
  shows "whole_jpeg d" "length d = unat n" "length d \<le> slot_size c"
proof -
  have n: "4 \<le> unat n" "unat (n + 5) = unat n + 5" "n + 5 \<le> sc_slot_size (st_config (cm_stream c))"
    using assms(2,3) by (auto simp: frame_whole_def word_le_nat_alt unat_word_ariths(1))
  show l: "length d = unat n" by (simp add: d_def slot_bytes_def)
  show "length d \<le> slot_size c" using n l by (simp add: word_le_nat_alt)
  have "d ! i = cm_mem c (stream_slot_ptr (st_current (cm_stream c)) c + of_nat i)" if "i < unat n" for i
    using that by (simp add: d_def slot_bytes_def)
  moreover have "of_nat (unat n - 2) = n - 2" "of_nat (unat n - 1) = n - 1" using n(1) by (simp_all add: of_nat_diff)
  ultimately show "whole_jpeg d" using assms(2) n(1) unfolding whole_jpeg_def l frame_whole_def by auto
qed

lemma queue_push:
  assumes "queue_ok c q" "config_ok c" "length q < slot_count c" "unat (st_head (cm_stream c)) + 1 < 2 ^ 32" "sl < slot_count c"
    and "sl \<notin> fst ` set q" "unat n = length d"
    and "cm_stream c' = (cm_stream c)\<lparr>st_size := (st_size (cm_stream c))[sl := n],
      st_queue := (st_queue (cm_stream c))[unat (st_head (cm_stream c) mod sc_slot_count (st_config (cm_stream c))) := of_nat sl],
      st_head := st_head (cm_stream c) + 1, st_busy := b, st_current := k\<rparr>"
  shows "queue_ok c' (q @ [(sl, d)])"
proof -
  let ?st = "cm_stream c" and ?n = "slot_count c"
  have n8: "?n \<le> 8" "0 < ?n" using assms(2) by (simp_all add: config_ok_def)
  have m: "unat (st_head ?st mod sc_slot_count (st_config ?st)) = unat (st_head ?st) mod ?n" by (rule unat_mod)
  have hd: "unat (st_head ?st) = unat (st_tail ?st) + length q" "length (st_queue ?st) = 8" "length (st_size ?st) = 8"
    using assms(1) by (simp_all add: queue_ok_def)
  have h1: "unat (st_head ?st + 1) = unat (st_head ?st) + 1" using assms(4) by (simp add: unat_word_ariths(1))
  have usl: "unat (of_nat sl :: u8) = sl" unfolding unat_of_nat using assms(5) n8 by simp
  have ne: "(unat (st_tail ?st) + i) mod ?n \<noteq> unat (st_head ?st) mod ?n" if "i < length q" for i
    using mod_add_inj [of i ?n "length q" "unat (st_tail ?st)"] that assms(3) hd(1) by auto
  have "unat (st_queue (cm_stream c') ! ((unat (st_tail ?st) + i) mod ?n)) = fst ((q @ [(sl, d)]) ! i)" if "i < length (q @ [(sl, d)])" for i
  proof (cases "i < length q")
    case True
    then show ?thesis using ne [OF True] assms(1,8) by (simp add: m queue_ok_def nth_append)
  next
    case False
    then have "i = length q" using that by simp
    moreover have "unat (st_head ?st) mod ?n < length (st_queue ?st)" using hd(2) n8 mod_less_divisor [of ?n "unat (st_head ?st)"] by linarith
    ultimately show ?thesis using usl hd(1) assms(8) by (simp add: m nth_append)
  qed
  moreover have "unat (st_size (cm_stream c') ! fst x) = length (snd x)" if "x \<in> set (q @ [(sl, d)])" for x
    using that assms(1,5-8) n8 hd(3) by (auto simp: queue_ok_def nth_list_update)
  ultimately show ?thesis using assms(8) hd h1 unfolding queue_ok_def by simp
qed

lemma next_free_None:
  "next_free n i cur count busy = None \<Longrightarrow> i \<le> j \<Longrightarrow> j < i + n \<Longrightarrow> busy ! unat ((cur + of_nat j) mod count) \<noteq> 0"
proof (induction n i cur count busy rule: next_free.induct)
  case (2 n i cur count busy)
  then show ?case by (cases "j = i") (auto simp: Let_def split: if_splits)
qed simp

lemma all_slots_taken:
  assumes "config_ok c" "slots_ok c (current c # taken)"
    and "next_free (slot_count c - 1) 1 (st_current (cm_stream c)) (sc_slot_count (st_config (cm_stream c))) (st_busy (cm_stream c)) = None"
  shows "slot_count c = Suc (length taken)"
proof -
  let ?n = "slot_count c"
  have n: "2 \<le> ?n" "?n \<le> 8" "current c < ?n" using assms(1,2) by (simp_all add: config_ok_def slots_ok_def)
  have "i \<in> set (current c # taken)" if lt: "i < ?n" for i
  proof (cases "i = current c")
    case False
    obtain j where j: "1 \<le> j" "j < 1 + (?n - 1)" "current c + j = i \<or> current c + j = i + ?n"
    proof (cases "current c < i")
      case True
      then show ?thesis using lt by (intro that [of "i - current c"]) linarith+
    next
      case ge: False
      then have "i < current c" using False by linarith
      then show ?thesis using n(1,3) by (intro that [of "i + ?n - current c"]) linarith+
    qed
    have m: "(current c + j) mod ?n = i" using j(3) lt by (elim disjE) simp_all
    have "current c + j < 2 ^ LENGTH(32)" using j(2) n by simp
    then have "unat (of_nat (current c + j) :: u32) = current c + j" by (simp only: unat_of_nat mod_less)
    then have "unat (st_current (cm_stream c) + of_nat j) = current c + j" by (simp only: of_nat_add of_nat_unat ucast_id)
    then have "unat ((st_current (cm_stream c) + of_nat j) mod sc_slot_count (st_config (cm_stream c))) = i"
      using m by (simp only: unat_mod)
    then have "st_busy (cm_stream c) ! i \<noteq> 0" using next_free_None [OF assms(3) j(1,2)] by (simp only: not_False_eq_True)
    then show ?thesis by (simp only: slots_busy [OF assms(2) lt])
  qed simp
  then have "{..<?n} \<subseteq> set (current c # taken)" by blast
  then have "card {..<?n} \<le> card (set (current c # taken))" by (rule card_mono [OF List.finite_set])
  then have "?n \<le> length (current c # taken)" using card_length [of "current c # taken"] unfolding card_lessThan by (rule le_trans)
  then show ?thesis using slots_bound [OF assms(2)] by simp
qed

lemma free_slot_iff:
  assumes "config_ok c" "slots_ok c (current c # map fst q @ map fst h)"
  shows "Suc (length q + length h) < slot_count c \<longleftrightarrow>
    next_free (slot_count c - 1) 1 (st_current (cm_stream c)) (sc_slot_count (st_config (cm_stream c))) (st_busy (cm_stream c)) \<noteq> None"
    (is "?l \<longleftrightarrow> ?nxt \<noteq> None")
proof
  assume ?l
  then show "?nxt \<noteq> None" using all_slots_taken [OF assms] by force
next
  let ?taken = "current c # map fst q @ map fst h"
  assume "?nxt \<noteq> None"
  then obtain k where "?nxt = Some k" by blast
  then have k: "unat k < slot_count c" "st_busy (cm_stream c) ! unat k = 0"
    using next_free_Some assms(1) unfolding config_ok_def by (metis gr0I not_numeral_le_zero)+
  then have "unat k \<notin> set ?taken" using slots_busy [OF assms(2) k(1)] by blast
  then have "card (insert (unat k) (set ?taken)) = Suc (length ?taken)"
    using assms(2) distinct_card [of ?taken] unfolding slots_ok_def by (metis card_insert_disjoint List.finite_set)
  moreover have "insert (unat k) (set ?taken) \<subseteq> {..<slot_count c}" using assms(2) k(1) unfolding slots_ok_def by blast
  ultimately have "Suc (length ?taken) \<le> slot_count c" by (metis card_lessThan card_mono finite_lessThan)
  then show ?l by simp
qed

lemma ucast_current: "ucast (st_current st) = (of_nat (unat (st_current st)) :: u8)"
  by (metis of_nat_unat)

text \<open>The end of a frame while the stream is armed: queued, or counted as dropped.\<close>

lemma end_frame_queued:
  assumes "stream_inv c q h" "unat (cm_last_frame_size c) + 5 < 2 ^ 32" "unat (st_head (cm_stream c)) + 1 < 2 ^ 32" "st_armed (cm_stream c)"
  defines "c' \<equiv> fst (stream_on_end_frame c)"
    and "whole \<equiv> frame_whole c (stream_slot_ptr (st_current (cm_stream c)) c) (gdma_transferred (cm_dma_channel c) (cm_gdma c)) (cm_last_frame_size c)"
  shows "st_config (cm_stream c') = st_config (cm_stream c)"
    and "if whole \<and> Suc (length q + length h) < slot_count c
      then stream_inv c' (q @ [(current c, slot_bytes c (current c) (unat (cm_last_frame_size c)))]) h \<and> st_head (cm_stream c') = st_head (cm_stream c) + 1
      else stream_inv c' q h \<and> st_head (cm_stream c') = st_head (cm_stream c) \<and> st_dropped (cm_stream c') = st_dropped (cm_stream c) + 1"
proof -
  let ?st = "cm_stream c" and ?sz = "cm_last_frame_size c"
  let ?count = "sc_slot_count (st_config ?st)" and ?cur = "st_current ?st"
  let ?nxt = "next_free (unat ?count - 1) 1 ?cur ?count (st_busy ?st)"
  have i: "config_ok c" "slots_ok c (current c # map fst q @ map fst h)" "queue_ok c q" "frames_ok c (q @ h)" "dma_ok c"
    using assms(1) by (simp_all add: stream_inv_def)
  have d: "is_channel_valid (cm_dma_channel c)" "length (gd_channels (cm_gdma c)) = 6" using i(5) by (simp_all add: dma_ok_def)
  have bound: "Suc (length q + length h) \<le> slot_count c" using slots_bound [OF i(2)] by simp
  note full = free_slot_iff [OF i(1,2)]
  define c1 where "c1 = (if whole \<and> ?nxt \<noteq> None then
      c\<lparr>cm_stream := ?st\<lparr>st_size := (st_size ?st)[unat ?cur := ?sz], st_queue := (st_queue ?st)[unat (st_head ?st mod ?count) := ucast ?cur],
        st_head := st_head ?st + 1, st_busy := (st_busy ?st)[unat (the ?nxt) := 1], st_current := the ?nxt\<rparr>\<rparr>
    else c\<lparr>cm_stream := ?st\<lparr>st_dropped := st_dropped ?st + 1\<rparr>\<rparr>)"
  have c': "c' = stream_arm (st_current (cm_stream c1)) c1"
    using assms(4) by (cases ?nxt) (simp_all add: c'_def stream_on_end_frame_def Let_def c1_def whole_def)
  have cf: "st_config (cm_stream c1) = st_config ?st" "cm_mem c1 = cm_mem c" "st_armed (cm_stream c1)" "cm_gdma c1 = cm_gdma c" "cm_dma_channel c1 = cm_dma_channel c"
    using assms(4) by (simp_all add: c1_def)
  have ok1: "config_ok c1" "frames_ok c1 = frames_ok c" using i(1) config_cong(3,5) [OF cf(1)] cf(2) by simp_all
  have arm: "dma_ok c'" "cm_stream c' = cm_stream c1" "cm_mem c' = cm_mem c1"
    unfolding c' using stream_arm_effect [OF _ _ ok1(1) refl cf(3)] d cf(4,5) by simp_all
  have ok': "config_ok c'" "frames_ok c' = frames_ok c" using config_cong(3,5) [of c' c1] arm ok1 by simp_all
  show "st_config (cm_stream c') = st_config ?st" using arm(2) cf(1) by simp
  show "if whole \<and> Suc (length q + length h) < slot_count c
      then stream_inv c' (q @ [(current c, slot_bytes c (current c) (unat ?sz))]) h \<and> st_head (cm_stream c') = st_head ?st + 1
      else stream_inv c' q h \<and> st_head (cm_stream c') = st_head ?st \<and> st_dropped (cm_stream c') = st_dropped ?st + 1"
  proof (cases "whole \<and> ?nxt \<noteq> None")
    case False
    then have "c1 = c\<lparr>cm_stream := ?st\<lparr>st_dropped := st_dropped ?st + 1\<rparr>\<rparr>" unfolding c1_def by (rule if_not_P)
    then have "stream_inv c' q h" "st_head (cm_stream c') = st_head ?st" "st_dropped (cm_stream c') = st_dropped ?st + 1"
      using i(2-4) arm ok' by (simp_all add: stream_inv_def slots_ok_def queue_ok_def)
    moreover have "\<not> (whole \<and> Suc (length q + length h) < slot_count c)" using False full by blast
    ultimately show ?thesis by (simp only: if_False simp_thms)
  next
    case True
    then obtain k where k: "?nxt = Some k" by blast
    then have k2: "unat k < slot_count c" "st_busy ?st ! unat k = 0" 
      using next_free_Some i(1) unfolding config_ok_def by (metis gr0I not_numeral_le_zero)+
    then have fresh: "unat k \<notin> set (current c # map fst q @ map fst h)" using slots_busy [OF i(2) k2(1)] by blast
    let ?d = "slot_bytes c (current c) (unat ?sz)"
    have st1: "cm_stream c1 = ?st\<lparr>st_size := (st_size ?st)[current c := ?sz], st_queue := (st_queue ?st)[unat (st_head ?st mod ?count) := of_nat (current c)],
        st_head := st_head ?st + 1, st_busy := (st_busy ?st)[unat k := 1], st_current := k\<rparr>"
      using True k by (simp add: c1_def ucast_current del: of_nat_unat)
    note w = whole_slot [OF i(1) True [unfolded whole_def, THEN conjunct1] assms(2)]
    have "current c < slot_count c" "current c \<notin> fst ` set q" using i(2) by (auto simp: slots_ok_def)
    then have "queue_ok c1 (q @ [(current c, ?d)])"
      using queue_push [OF i(3,1) _ assms(3) _ _ w(2) [symmetric] st1] bound by simp
    moreover have "slots_ok c1 (unat k # map fst (q @ [(current c, ?d)]) @ map fst h)"
      by (rule slots_take [OF i(2,1) k2(1) fresh]) (auto simp: st1)
    moreover have "frames_ok c ((q @ [(current c, ?d)]) @ h)" using i(4) w by (auto simp: frames_ok_def)
    ultimately have "stream_inv c' (q @ [(current c, ?d)]) h"
      using arm ok' st1 by (simp add: stream_inv_def slots_ok_def queue_ok_def)
    moreover have "st_head (cm_stream c') = st_head ?st + 1" using arm(2) st1 by simp
    moreover have "whole \<and> Suc (length q + length h) < slot_count c" using True full by blast
    ultimately show ?thesis by (simp only: if_True simp_thms)
  qed
qed

lemma end_frame_first:
  assumes "stream_inv c q h" "\<not> st_armed (cm_stream c)"
  defines "c' \<equiv> fst (stream_on_end_frame c)"
  shows "stream_inv c' q h" "st_config (cm_stream c') = st_config (cm_stream c)" "st_head (cm_stream c') = st_head (cm_stream c)"
proof -
  let ?c = "c\<lparr>cm_jpeg := drain_fifo (cm_jpeg c)\<rparr>"
  let ?a = "stream_arm (st_current (cm_stream c)) ?c"
  have i: "config_ok c" "slots_ok c (current c # map fst q @ map fst h)" "queue_ok c q" "frames_ok c (q @ h)" "dma_ok c"
    using assms(1) by (simp_all add: stream_inv_def)
  have c': "c' = ?a\<lparr>cm_stream := (cm_stream ?a)\<lparr>st_armed := True\<rparr>\<rparr>"
    using assms(2) by (simp add: c'_def stream_on_end_frame_def Let_def)
  have sw: "c' = stream_arm (st_current (cm_stream c)) (?c\<lparr>cm_stream := (cm_stream c)\<lparr>st_armed := True\<rparr>\<rparr>)"
    unfolding c' by (simp add: stream_arm_def stream_slot_ptr_def)
  let ?b = "?c\<lparr>cm_stream := (cm_stream c)\<lparr>st_armed := True\<rparr>\<rparr>"
  have b: "config_ok ?b" "frames_ok ?b = frames_ok c" using i(1) config_cong(3,5) [of ?b c] by simp_all
  have "is_channel_valid (cm_dma_channel ?b)" "length (gd_channels (cm_gdma ?b)) = 6" using i(5) by (simp_all add: dma_ok_def)
  note arm = stream_arm_effect [OF this b(1), of "st_current (cm_stream c)"]
  have st: "dma_ok c'" "cm_stream c' = (cm_stream c)\<lparr>st_armed := True\<rparr>" "cm_mem c' = cm_mem c" unfolding sw using arm by simp_all
  have "config_ok c'" "frames_ok c' = frames_ok c" using config_cong(3,5) [of c' c] i(1) st by simp_all
  then show "stream_inv c' q h" using i st by (simp add: stream_inv_def slots_ok_def queue_ok_def)
  show "st_config (cm_stream c') = st_config (cm_stream c)" "st_head (cm_stream c') = st_head (cm_stream c)" using st(2) by simp_all
qed

lemma inv_same:
  assumes "cm_stream c' = cm_stream c" "cm_mem c' = cm_mem c" "cm_dma_channel c' = cm_dma_channel c" "gd_channels (cm_gdma c') = gd_channels (cm_gdma c)"
  shows "stream_inv c' q h = stream_inv c q h"
  using assms config_cong(3,5) [of c' c] by (simp add: stream_inv_def slots_ok_def queue_ok_def dma_ok_def stream_slot_ptr_def)

text \<open>A step of any kind.\<close>

lemma stream_step_inv:
  assumes "stream_inv c q h" "count_ok ev" "unat (st_head (cm_stream c)) + 1 < 2 ^ 32"
    and "\<And>f. ev = Release f \<Longrightarrow> f \<in> frame_of c ` set h"
  defines "c' \<equiv> snd (stream_step ev c)"
  shows "\<exists>outs q'. stream_inv c' q' (case ev of Release f \<Rightarrow> filter (\<lambda>y. frame_of c y \<noteq> f) h | _ \<Rightarrow> outs @ h)
    \<and> fst (stream_step ev c) = map (frame_of c) outs \<and> outs @ q' = q @ accepted [ev] c
    \<and> st_config (cm_stream c') = st_config (cm_stream c) \<and> unat (st_head (cm_stream c')) \<le> unat (st_head (cm_stream c)) + 1"
proof (cases ev)
  case (Dma m)
  then show ?thesis using dma_step [OF assms(1), of m]
    by (intro exI [of _ "[]"] exI [of _ q]) (simp add: c'_def stream_step_def)
next
  case Get
  show ?thesis
  proof (cases q)
    case Nil
    then show ?thesis using assms(1) Get get_empty [of c h]
      by (intro exI [of _ "[]"]) (simp add: c'_def stream_step_def)
  next
    case (Cons x xs)
    then show ?thesis using get_step [of c x xs h] assms(1) Get
      by (intro exI [of _ "[x]"] exI [of _ xs]) (auto simp: c'_def stream_step_def)
  qed
next
  case (Release f)
  then obtain x where "x \<in> set h" "f = frame_of c x" using assms(4) by blast
  then show ?thesis using release_step [OF assms(1), of x] Release
    by (intro exI [of _ "[]"] exI [of _ q]) (simp add: c'_def stream_step_def)
next
  case (End_frame n wr)
  let ?b = "c\<lparr>cm_jpeg := (cm_jpeg c)\<lparr>jp_byte_cnt_pfrm := n\<rparr>, cm_gdma := (cm_gdma c)\<lparr>gd_dst_wr_addr := wr\<rparr>, cm_last_frame_size := n,
    cm_end_frame_count := cm_end_frame_count c + 1\<rparr>"
  have b: "stream_inv ?b q h" "cm_stream ?b = cm_stream c" "unat (cm_last_frame_size ?b) + 5 < 2 ^ 32" "unat (st_head (cm_stream ?b)) + 1 < 2 ^ 32"
    using inv_same [of ?b c q h] assms(1-3) End_frame by (simp_all add: count_ok_def)
  have "st_active (cm_stream c)" using assms(1) by (simp add: stream_inv_def slots_ok_def)
  then have c': "c' = fst (stream_on_end_frame ?b)" "fst (stream_step ev c) = []"
    using End_frame by (simp_all add: c'_def stream_step_def end_frame_handler_def jpeg_get_last_frame_size_def Let_def)
  have sb: "slot_bytes ?b = slot_bytes c" by (rule config_cong(4)) simp_all
  have acc: "accepted [ev] c = (if st_head (cm_stream c') \<noteq> st_head (cm_stream c) then [(current c, slot_bytes c (current c) (unat n))] else [])"
    using End_frame by (simp add: c'_def)
  show ?thesis
  proof (cases "st_armed (cm_stream c)")
    case False
    then show ?thesis using end_frame_first [OF b(1), folded c'(1)] c'(2) End_frame acc
      by (intro exI [of _ "[]"] exI [of _ q]) simp
  next
    case True
    then have a: "st_armed (cm_stream ?b)" by simp
    note e = end_frame_queued [OF b(1,3,4) a, folded c'(1), unfolded b(2) sb]
    have h1: "unat (st_head (cm_stream c) + 1) = unat (st_head (cm_stream c)) + 1" using assms(3) by (simp add: unat_word_ariths(1))
    from e(2) consider "stream_inv c' (q @ [(current c, slot_bytes c (current c) (unat n))]) h" "st_head (cm_stream c') = st_head (cm_stream c) + 1"
      | "stream_inv c' q h" "st_head (cm_stream c') = st_head (cm_stream c)"
      by (auto split: if_splits)
    then show ?thesis
    proof cases
      case 1
      then show ?thesis using e(1) c'(2) End_frame h1 acc by (intro exI [of _ "[]"] exI [of _ "q @ accepted [ev] c"]) simp
    next
      case 2
      then show ?thesis using e(1) c'(2) End_frame acc by (intro exI [of _ "[]"] exI [of _ q]) simp
    qed
  qed
qed

text \<open>Any sequence of events.\<close>

lemma accepted_Cons: "accepted (ev # evs) c = accepted [ev] c @ accepted evs (snd (stream_step ev c))"
  by (simp add: Let_def)

lemma stream_run_Cons:
  "fst (stream_run (ev # evs) c) = fst (stream_step ev c) @ fst (stream_run evs (snd (stream_step ev c)))"
  "snd (stream_run (ev # evs) c) = snd (stream_run evs (snd (stream_step ev c)))"
  by (simp_all add: split_beta Let_def)

lemma held_frames: "map (frame_of c) (filter (\<lambda>y. frame_of c y \<noteq> f) h) = removeAll f (map (frame_of c) h)"
  by (induction h) auto

lemma stream_run_inv:
  assumes "stream_inv c q h" "client_ok (map (frame_of c) h) evs c" "list_all count_ok evs" "unat (st_head (cm_stream c)) + length evs < 2 ^ 32"
  shows "\<exists>outs q' h'. stream_inv (snd (stream_run evs c)) q' h' \<and> fst (stream_run evs c) = map (frame_of c) outs
    \<and> outs @ q' = q @ accepted evs c \<and> map (frame_of c) h' = client_held (map (frame_of c) h) evs c \<and> set h' \<subseteq> set h \<union> set outs"
  using assms
proof (induction evs arbitrary: c q h)
  case Nil
  then show ?case by (intro exI [of _ "[]"] exI [of _ q] exI [of _ h]) simp
next
  case (Cons ev evs)
  let ?c = "snd (stream_step ev c)"
  have rel: "f \<in> frame_of c ` set h" if "ev = Release f" for f using Cons.prems(2) that by simp
  have "count_ok ev" "unat (st_head (cm_stream c)) + 1 < 2 ^ 32" using Cons.prems(3,4) by simp_all
  from stream_step_inv [OF Cons.prems(1) this rel] obtain outs q1 where
    s: "stream_inv ?c q1 (case ev of Release f \<Rightarrow> filter (\<lambda>y. frame_of c y \<noteq> f) h | _ \<Rightarrow> outs @ h)" "fst (stream_step ev c) = map (frame_of c) outs"
      "outs @ q1 = q @ accepted [ev] c" "st_config (cm_stream ?c) = st_config (cm_stream c)" "unat (st_head (cm_stream ?c)) \<le> unat (st_head (cm_stream c)) + 1"
    by blast
  let ?h = "case ev of Release f \<Rightarrow> filter (\<lambda>y. frame_of c y \<noteq> f) h | _ \<Rightarrow> outs @ h"
  have f: "frame_of ?c = frame_of c" by (rule config_cong(2) [OF s(4)])
  have held: "map (frame_of c) ?h = (case ev of Release f \<Rightarrow> removeAll f (map (frame_of c) h) | _ \<Rightarrow> fst (stream_step ev c) @ map (frame_of c) h)"
    using s(2) by (cases ev) (simp_all add: held_frames)
  have "client_ok (map (frame_of ?c) ?h) evs ?c" unfolding f using Cons.prems(2) s(2) by (cases ev) (simp_all add: held_frames)
  moreover have "list_all count_ok evs" "unat (st_head (cm_stream ?c)) + length evs < 2 ^ 32" using Cons.prems(3,4) s(5) by simp_all
  ultimately obtain outs' q' h' where
    r: "stream_inv (snd (stream_run evs ?c)) q' h'" "fst (stream_run evs ?c) = map (frame_of c) outs'" "outs' @ q' = q1 @ accepted evs ?c"
      "map (frame_of c) h' = client_held (map (frame_of c) ?h) evs ?c" "set h' \<subseteq> set ?h \<union> set outs'"
    using Cons.IH [OF s(1)] unfolding f by blast
  have "set ?h \<subseteq> set h \<union> set outs" by (cases ev) auto
  then have "set h' \<subseteq> set h \<union> set (outs @ outs')" using r(5) by auto
  moreover have "(outs @ outs') @ q' = q @ accepted (ev # evs) c" using r(3) s(3) by (metis accepted_Cons append.assoc)
  moreover have "map (frame_of c) h' = client_held (map (frame_of c) h) (ev # evs) c" using r(4) unfolding held by simp
  moreover have "fst (stream_run (ev # evs) c) = map (frame_of c) (outs @ outs')" by (simp add: stream_run_Cons s(2) r(2) del: stream_run.simps)
  ultimately show ?case using r(1) unfolding stream_run_Cons by blast
qed

section \<open>Starting\<close>

lemma stream_start_inv:
  assumes "camera_stream_start (Some cf) c0 = (Inr (), c)" "length (gd_channels (cm_gdma c0)) = 6"
    and "unat (sc_slots cf) + unat (sc_slot_count cf) * unat (sc_slot_size cf) \<le> 2 ^ 32"
  shows "stream_inv c [] []" "st_head (cm_stream c) = 0"
proof -
  let ?cfg = "camera_dma_config (sc_slots cf)"
  obtain g where g: "gdma_configure (cm_dma_channel c0) (Some ?cfg) (cm_gdma c0) = (Inr (), g)"
    and c: "c = c0\<lparr>cm_gdma := g, cm_stream := stream_zero\<lparr>st_config := cf, st_busy := (st_busy stream_zero)[0 := 1], st_active := True\<rparr>\<rparr>"
    and cf: "\<not> sc_slot_size cf > MAX_DMA_BYTES" "\<not> sc_slot_count cf < 2" "\<not> sc_slot_count cf > of_nat CAMERA_STREAM_MAX_SLOTS" "sc_slot_size cf \<noteq> 0"
    using assms(1) by (auto simp: camera_stream_start_def split: if_splits prod.splits sum.splits)
  have v: "is_channel_valid (cm_dma_channel c0)" "nat (cm_dma_channel c0) < 6"
    using g by (auto simp: gdma_configure_def is_channel_valid_def split: if_splits)
  have "g = (upd_channel (nat (cm_dma_channel c0)) (configured ?cfg) (cm_gdma c0))
      \<lparr>gd_finish := (gd_finish (cm_gdma c0))[nat (cm_dma_channel c0) := None], gd_h_finish := (gd_h_finish (cm_gdma c0))[nat (cm_dma_channel c0) := None]\<rparr>"
    using g by (auto simp: gdma_configure_def camera_dma_config_def split: if_splits)
  then have ch: "gd_channels g = (gd_channels (cm_gdma c0))[nat (cm_dma_channel c0) := configured ?cfg (gd_channels (cm_gdma c0) ! nat (cm_dma_channel c0))]"
    by (simp add: upd_channel_def)
  have "dma_ok c" using v assms(2) by (simp add: dma_ok_def c ch stream_zero_def configured_def ctl_zero_def Let_def)
  moreover have "config_ok c" using cf assms(3) by (simp add: config_ok_def c word_less_nat_alt unat_gt_0 not_less)
  moreover have "slots_ok c [0]"
    using cf(2,3) by (auto simp: slots_ok_def c stream_zero_def word_less_nat_alt not_less nth_list_update)
  moreover have "queue_ok c []" "frames_ok c []" "st_head (cm_stream c) = 0" by (simp_all add: queue_ok_def frames_ok_def c stream_zero_def)
  ultimately show "stream_inv c [] []" "st_head (cm_stream c) = 0" by (simp_all add: stream_inv_def c stream_zero_def)
qed

text \<open>(C6) 
  (C900) The stream is a queue of frames. After \<open>camera_stream_start\<close> has succeeded with slots that fit the address space,
  take any sequence of fewer than \<open>2 ^ 32\<close> encoder interrupts, DMA writes and calls of \<open>camera_stream_get\<close> and
  \<open>camera_stream_release\<close> in which the application releases only frames it has. The frames it got, followed by those that
  wait, are the accepted frames in the order they were finished. Each frame that waits or is held by the application is a
  whole JPEG, still has the bytes it had when it was finished, and is in a slot of its own that the DMA does not write to.
\<close>

theorem camera_stream_queue:
  assumes "camera_stream_start (Some cf) c0 = (Inr (), c)" "length (gd_channels (cm_gdma c0)) = 6"
    and "unat (sc_slots cf) + unat (sc_slot_count cf) * unat (sc_slot_size cf) \<le> 2 ^ 32"
    and "client_ok [] evs c" "list_all count_ok evs" "length evs < 2 ^ 32"
  shows "\<exists>outs q h. fst (stream_run evs c) = map (frame_of c) outs \<and> outs @ q = accepted evs c
    \<and> map (frame_of c) h = client_held [] evs c \<and> set h \<subseteq> set outs \<and> stream_inv (snd (stream_run evs c)) q h"
  using stream_run_inv [OF stream_start_inv(1) [OF assms(1-3)], of evs] stream_start_inv(2) [OF assms(1-3)] assms(4-6) by simp blast

text \<open>
  (C901) Which frames the stream accepts. At the end of a frame, once the stream is armed, the frame goes to the queue if
  the encoder's count, the DMA's position and the markers agree and fewer than all but one of the slots hold frames that
  wait or are held; its slot is then the one the DMA was writing to. Otherwise it is counted as dropped and nothing else
  changes hands.
\<close>

theorem camera_stream_accepts:
  assumes "stream_inv c q h" "st_armed (cm_stream c)" "unat n + 5 < 2 ^ 32" "unat (st_head (cm_stream c)) + 1 < 2 ^ 32"
  shows "let c' = snd (stream_step (End_frame n wr) c);
             slot = stream_slot_ptr (st_current (cm_stream c)) c;
             frame = (current c, slot_bytes c (current c) (unat n))
         in if frame_whole c slot (wr ! nat (cm_dma_channel c) - slot) n \<and> length q + length h + 1 < slot_count c
            then accepted [End_frame n wr] c = [frame] \<and> stream_inv c' (q @ [frame]) h
            else accepted [End_frame n wr] c = [] \<and> stream_inv c' q h \<and> camera_stream_dropped c' = camera_stream_dropped c + 1"
proof -
  let ?b = "c\<lparr>cm_jpeg := (cm_jpeg c)\<lparr>jp_byte_cnt_pfrm := n\<rparr>, cm_gdma := (cm_gdma c)\<lparr>gd_dst_wr_addr := wr\<rparr>, cm_last_frame_size := n,
    cm_end_frame_count := cm_end_frame_count c + 1\<rparr>"
  let ?slot = "stream_slot_ptr (st_current (cm_stream c)) c"
  have b: "stream_inv ?b q h" "cm_stream ?b = cm_stream c" "unat (cm_last_frame_size ?b) + 5 < 2 ^ 32" "unat (st_head (cm_stream ?b)) + 1 < 2 ^ 32"
    "st_armed (cm_stream ?b)" using inv_same [of ?b c q h] assms by simp_all
  have sb: "slot_bytes ?b = slot_bytes c" by (rule config_cong(4)) simp_all
  have d: "is_channel_valid (cm_dma_channel c)" "ch_dst_start_addr (gd_channels (cm_gdma c) ! nat (cm_dma_channel c)) = ?slot" "st_active (cm_stream c)"
    using assms(1,2) by (simp_all add: stream_inv_def dma_ok_def Let_def slots_ok_def)
  have c': "snd (stream_step (End_frame n wr) c) = fst (stream_on_end_frame ?b)"
    using d(3) by (simp add: stream_step_def end_frame_handler_def jpeg_get_last_frame_size_def Let_def)
  have t: "gdma_transferred (cm_dma_channel ?b) (cm_gdma ?b) = wr ! nat (cm_dma_channel c) - ?slot" using d by (simp add: gdma_transferred_def)
  have w: "frame_whole ?b (stream_slot_ptr (st_current (cm_stream ?b)) ?b) x y = frame_whole c ?slot x y" for x y
    by (simp add: frame_whole_def stream_slot_ptr_def)
  have h1: "st_head (cm_stream c) + 1 \<noteq> st_head (cm_stream c)" by simp
  show ?thesis
    using end_frame_queued(2) [OF b(1,3-5), unfolded w t, unfolded b(2) sb, folded c'] h1
    by (auto simp: Let_def camera_stream_dropped_def split: if_splits)
qed

section \<open>A single frame\<close>

lemma scan_end_bounds:
  "scan_end n i mem sz \<noteq> 0 \<Longrightarrow> sz \<noteq> scan_end n i mem sz \<Longrightarrow>
     let e = scan_end n i mem sz in i + 2 \<le> e \<and> e \<le> i + n + 1 \<and> mem (e - 2) = 0xFF \<and> mem (e - 1) = 0xD9"
proof (induction n arbitrary: i sz)
  case (Suc n)
  define sz' where "sz' = (if mem i = 0xFF \<and> mem (i + 1) = 0xD9 then i + 2 else sz)"
  have s: "scan_end (Suc n) i mem sz = scan_end n (i + 1) mem sz'" by (simp add: sz'_def)
  show ?case
  proof (cases "sz' = scan_end n (i + 1) mem sz'")
    case True
    then show ?thesis using Suc.prems unfolding s sz'_def by (auto simp: Let_def split: if_splits)
  next
    case False
    then show ?thesis using Suc.IH [of "i + 1" sz'] Suc.prems(1) unfolding s by (simp add: Let_def)
  qed
qed simp

lemma find_jpeg_end_bounds:
  assumes "find_jpeg_end mem n \<noteq> 0"
  defines "e \<equiv> find_jpeg_end mem n"
  shows "2 \<le> e" "e \<le> n" "mem (e - 2) = 0xFF" "mem (e - 1) = 0xD9"
proof -
  define st where "st = (if n \<ge> 16 then n - 16 else 0)"
  have e: "e = scan_end (n - 1 - st) st mem 0" by (simp add: e_def find_jpeg_end_def st_def Let_def)
  have ne: "e \<noteq> 0" using assms by simp
  have b: "st + 2 \<le> e \<and> e \<le> st + (n - 1 - st) + 1 \<and> mem (e - 2) = 0xFF \<and> mem (e - 1) = 0xD9"
    using scan_end_bounds [of "n - 1 - st" st mem 0] ne unfolding e by (simp add: Let_def)
  have "n - 1 - st \<noteq> 0" using ne unfolding e by (cases "n - 1 - st") simp_all
  then have "st + (n - 1 - st) + 1 = n" by simp
  then show "2 \<le> e" "e \<le> n" "mem (e - 2) = 0xFF" "mem (e - 1) = 0xD9" using b by auto
qed

text \<open>The frame in the buffer at \<open>a\<close>.\<close>

definition buffer_bytes :: "camera \<Rightarrow> u32 \<Rightarrow> nat \<Rightarrow> bytes" where
  "buffer_bytes c a n = map (\<lambda>i. cm_mem c (a + of_nat i)) [0..<n]"

lemma capture_accepts:
  assumes "camera_capture_frame world c = (Inr f, c')"
  obtains c1 bytes sz where "c' = c1\<lparr>cm_gdma := gdma_stop (cm_dma_channel c) (cm_gdma c1)\<rparr>"
    "bytes = gdma_transferred (cm_dma_channel c) (cm_gdma c')" "bytes \<le> cc_frame_buf_size (cm_config c')"
    "sz = find_jpeg_end (\<lambda>i. cm_mem c' (cc_frame_buf (cm_config c') + of_nat i)) (unat bytes)" "sz \<noteq> 0"
    "cm_mem c' (cc_frame_buf (cm_config c')) = 0xFF" "cm_mem c' (cc_frame_buf (cm_config c') + 1) = 0xD8"
    "f = \<lparr>fr_data = cc_frame_buf (cm_config c'), fr_size = of_nat sz\<rparr>" "is_channel_valid (cm_dma_channel c)"
  using assms
  by (auto simp: camera_capture_frame_def Let_def gdma_configure_def split: if_splits prod.splits sum.splits bool.splits)

text \<open>
  (C902) A captured frame is a whole JPEG. Whatever the encoder, the DMA and the interrupts do during a capture, if
  \<open>camera_capture_frame\<close> returns a frame then the DMA channel is stopped, the frame lies at the start of the configured
  buffer and within what the DMA transferred and the buffer's size, and its bytes begin with \<open>FF D8\<close> and end with \<open>FF D9\<close>.
\<close>

theorem camera_capture_whole:
  assumes "camera_capture_frame world c = (Inr f, c')"
  shows "whole_jpeg (buffer_bytes c' (fr_data f) (unat (fr_size f))) \<and> fr_data f = cc_frame_buf (cm_config c')
    \<and> fr_size f \<le> gdma_transferred (cm_dma_channel c) (cm_gdma c') \<and> fr_size f \<le> cc_frame_buf_size (cm_config c')
    \<and> (nat (cm_dma_channel c) < length (gd_channels (cm_gdma c')) \<longrightarrow> \<not> gdma_busy (cm_dma_channel c) (cm_gdma c'))"
proof -
  obtain c1 bytes sz where e: "c' = c1\<lparr>cm_gdma := gdma_stop (cm_dma_channel c) (cm_gdma c1)\<rparr>"
    "bytes = gdma_transferred (cm_dma_channel c) (cm_gdma c')" "bytes \<le> cc_frame_buf_size (cm_config c')"
    "sz = find_jpeg_end (\<lambda>i. cm_mem c' (cc_frame_buf (cm_config c') + of_nat i)) (unat bytes)" "sz \<noteq> 0"
    "cm_mem c' (cc_frame_buf (cm_config c')) = 0xFF" "cm_mem c' (cc_frame_buf (cm_config c') + 1) = 0xD8"
    "f = \<lparr>fr_data = cc_frame_buf (cm_config c'), fr_size = of_nat sz\<rparr>" "is_channel_valid (cm_dma_channel c)"
    using assms by (rule capture_accepts)
  let ?a = "cc_frame_buf (cm_config c')"
  note b = find_jpeg_end_bounds [of "\<lambda>i. cm_mem c' (?a + of_nat i)" "unat bytes", folded e(4), OF e(5)]
  have "unat (of_nat sz :: u32) = sz" unfolding unat_of_nat using le_less_trans [OF b(2) unsigned_less] by simp
  then have u: "unat (fr_size f) = sz" by (simp add: e(8))
  have "sz \<noteq> 2" using b(4) e(7) by auto
  moreover have "sz \<noteq> 3" using b(3) e(7) by auto
  ultimately have "4 \<le> sz" using b(1) by linarith
  then have "whole_jpeg (buffer_bytes c' ?a sz)" using b(3,4) e(6,7) by (simp add: whole_jpeg_def buffer_bytes_def)
  moreover have "fr_size f \<le> bytes" using b(2) u by (simp add: word_le_nat_alt)
  moreover have "\<not> gdma_busy (cm_dma_channel c) (cm_gdma c')" if "nat (cm_dma_channel c) < length (gd_channels (cm_gdma c'))"
    using that e(1,9) busy_set_enable by (auto simp: gdma_stop_def upd_channel_def)
  ultimately show ?thesis using e(2,3) u by (auto simp: e(8))
qed

section \<open>Concrete runs\<close>

text \<open>A camera that is started, with channel 4, and a stream of three slots of 12 bytes, enough for the shortest frame
  \<open>FF D8 FF D9\<close> and its trailer.\<close>

definition demo_camera :: camera where
  "demo_camera =
     \<lparr>cm_dma_channel = 4,
      cm_sensor = Some camera_sensor_hi704,
      cm_config = \<lparr>cc_sensor = None, cc_frame_buf = 0x2000, cc_frame_buf_size = 64, cc_frame_min_bytes = 0, cc_frame_max_bytes = 0\<rparr>,
      cm_end_frame_count = 0, cm_last_frame_size = 0, cm_stream = stream_zero, cm_gdma = gdma_zero\<lparr>gd_reserved := 0x10\<rparr>,
      cm_jpeg = \<lparr>jp_ctrl0 = ctrl0_zero, jp_ctrl1 = ctrl1_zero, jp_target_byte_h = 0, jp_target_byte_l = 0, jp_rx_fifo = [1, 2],
        jp_start_frame = False, jp_end_frame = False, jp_byte_cnt_pfrm = 0, jp_quantization_table = [], jp_powered_down = False,
        jp_start_handler = None, jp_end_handler = None\<rparr>,
      cm_gpio = \<lparr>gp_pin_cfg = [], gp_func_mux_1 = 0, gp_func_mux_2 = 0, gp_func_mux_3 = 0, gp_pin_cfg2 = []\<rparr>, cm_mem = (\<lambda>_. 0), cm_clock = 0\<rparr>"

definition demo_stream :: camera_stream_config where
  "demo_stream = \<lparr>sc_slots = 0x1000, sc_slot_size = 12, sc_slot_count = 3, sc_on_frame = None\<rparr>"

definition demo_dma :: "u32 \<Rightarrow> u8" where
  "demo_dma a = (if a AND 1 = 0 then 0xFF else if a = 0x1001 \<or> a = 0x100D then 0xD8 else 0xD9)"

text \<open>Two frames, and the application takes both.\<close>

definition demo_events :: "stream_ev list" where
  "demo_events = [End_frame 0 (replicate 6 0), Dma demo_dma, End_frame 4 (replicate 6 0x1009), Dma demo_dma, Get,
     End_frame 4 (replicate 6 0x1015), Get]"

definition demo_started :: camera where "demo_started = snd (camera_stream_start (Some demo_stream) demo_camera)"

lemma demo_start: "camera_stream_start (Some demo_stream) demo_camera = (Inr (), demo_started)"
proof -
  have "fst (camera_stream_start (Some demo_stream) demo_camera) = Inr ()" by code_simp
  then show ?thesis by (simp add: prod_eq_iff demo_started_def)
qed

lemma demo_fits:
  "length (gd_channels (cm_gdma demo_camera)) = 6"
  "unat (sc_slots demo_stream) + unat (sc_slot_count demo_stream) * unat (sc_slot_size demo_stream) \<le> 2 ^ 32"
  by (simp_all add: demo_camera_def gdma_zero_def demo_stream_def)

theorem camera_stream_queue_witness:
  "\<exists>outs q h. fst (stream_run demo_events demo_started) = map (frame_of demo_started) outs \<and> outs @ q = accepted demo_events demo_started
     \<and> map (frame_of demo_started) h = client_held [] demo_events demo_started \<and> set h \<subseteq> set outs
     \<and> stream_inv (snd (stream_run demo_events demo_started)) q h"
proof -
  have "client_ok [] demo_events demo_started" "list_all count_ok demo_events" "length demo_events < 2 ^ 32"
    by (simp_all add: demo_events_def count_ok_def)
  then show ?thesis by (rule camera_stream_queue [OF demo_start demo_fits])
qed

text \<open>The stream when the first frame after arming has been written; it is accepted.\<close>

definition demo_armed :: camera where
  "demo_armed = demo_camera
     \<lparr>cm_gdma := gdma_zero\<lparr>gd_channels := (replicate 6 channel_zero)[4 := channel_zero\<lparr>ch_dst_start_addr := 0x1000,
        ch_config := ctl_zero\<lparr>gc_transfer_length := 11, gc_enable := True\<rparr>\<rparr>]\<rparr>,
      cm_stream := stream_zero\<lparr>st_config := demo_stream, st_busy := [1, 0, 0, 0, 0, 0, 0, 0], st_active := True, st_armed := True\<rparr>,
      cm_mem := demo_dma\<rparr>"

lemma demo_armed_inv: "stream_inv demo_armed [] []"
proof -
  have "config_ok demo_armed" by (simp add: config_ok_def demo_armed_def demo_stream_def)
  moreover have "slot_count demo_armed = 3" "st_busy (cm_stream demo_armed) = [1, 0, 0, 0, 0, 0, 0, 0]" "st_active (cm_stream demo_armed)"
    by (simp_all add: demo_armed_def demo_stream_def)
  then have "slots_ok demo_armed [0]" by (auto simp: slots_ok_def less_Suc_eq numeral_3_eq_3)
  moreover have "queue_ok demo_armed []" "frames_ok demo_armed []" "current demo_armed = 0"
    by (simp_all add: queue_ok_def frames_ok_def demo_armed_def stream_zero_def)
  moreover have "dma_ok demo_armed"
    by (simp add: dma_ok_def demo_armed_def demo_camera_def is_channel_valid_def gdma_zero_def stream_zero_def stream_slot_ptr_def demo_stream_def)
  ultimately show ?thesis by (simp add: stream_inv_def)
qed

theorem camera_stream_accepts_witness:
  "accepted [End_frame 4 (replicate 6 0x1009)] demo_armed = [(0, slot_bytes demo_armed 0 4)]"
proof -
  have "frame_whole demo_armed 0x1000 9 4"
    by (simp add: frame_whole_def demo_armed_def demo_stream_def demo_dma_def)
  moreover have "stream_slot_ptr (st_current (cm_stream demo_armed)) demo_armed = 0x1000" "cm_dma_channel demo_armed = 4" "slot_count demo_armed = 3"
    "current demo_armed = 0" "st_armed (cm_stream demo_armed)" "st_head (cm_stream demo_armed) = 0"
    by (simp_all add: stream_slot_ptr_def demo_armed_def demo_camera_def stream_zero_def demo_stream_def)
  ultimately show ?thesis
    using camera_stream_accepts [OF demo_armed_inv, of 4 "replicate 6 0x1009"] by (simp add: Let_def del: accepted.simps)
qed

text \<open>A capture: the end of a frame, then the next frame with the DMA at its end, then nothing more.\<close>

definition demo_world :: "nat \<Rightarrow> camera \<Rightarrow> camera" where
  "demo_world n c =
     (if n < 2 then c\<lparr>cm_end_frame_count := cm_end_frame_count c + 1, cm_mem := (\<lambda>a. if a AND 1 = 0 then 0xFF else if a = 0x2001 then 0xD8 else 0xD9),
        cm_gdma := (cm_gdma c)\<lparr>gd_dst_wr_addr := replicate 6 0x2004\<rparr>\<rparr>
      else c)"

lemma wait_end_frame_pos:
  "0 < n \<Longrightarrow> wait_end_frame n world k c = (if cm_end_frame_count c \<noteq> k then (True, c) else wait_end_frame (n - 1) world k (spin world c))"
  by (cases n) simp_all

lemma wait_next_one:
  assumes "cm_end_frame_count c = k" "cm_end_frame_count (world (cm_clock c) c) \<noteq> k"
  shows "wait_next_end_frame world k c = (True, spin world c)"
  using assms by (simp add: wait_next_end_frame_def wait_end_frame_pos spin_def)

lemma drain_loop_idle:
  assumes "\<And>n c. 2 \<le> n \<Longrightarrow> world n c = c" "2 \<le> cm_clock c"
  shows "\<exists>t. drain_loop polls world ch p st c = c\<lparr>cm_clock := t\<rparr>"
  using assms(2)
proof (induction polls arbitrary: p st c)
  case (Suc polls)
  have s: "spin world c = c\<lparr>cm_clock := cm_clock c + 1\<rparr>" using assms(1) Suc.prems by (simp add: spin_def)
  have ex: "\<exists>t. drain_loop polls world ch p' st' (spin world c) = c\<lparr>cm_clock := t\<rparr>" for p' st'
    using Suc.IH [of "spin world c" p' st'] Suc.prems by (simp add: s)
  show ?case using ex by (auto simp: Let_def intro: exI [of _ "cm_clock c"])
next
  case 0
  show ?case by (intro exI [of _ "cm_clock c"]) simp
qed

lemma demo_capture: "\<exists>c'. camera_capture_frame demo_world demo_camera = (Inr \<lparr>fr_data = 0x2000, fr_size = 4\<rparr>, c')"
proof -
  let ?cfg = "camera_dma_config 0x2000"
  define c1 where "c1 = demo_camera\<lparr>cm_gdma := snd (gdma_configure 4 (Some ?cfg) (cm_gdma demo_camera))\<rparr>"
  define c2 where "c2 = spin demo_world c1"
  define c3 where "c3 = c2\<lparr>cm_jpeg := drain_fifo (cm_jpeg c2), cm_gdma := snd (gdma_restart 4 0x2000 64 (cm_gdma c2))\<rparr>"
  define c4 where "c4 = spin demo_world c3"
  have cfg: "gdma_configure 4 (Some ?cfg) (cm_gdma demo_camera) = (Inr (), cm_gdma c1)"
    by (simp add: c1_def gdma_configure_def is_channel_valid_def demo_camera_def gdma_zero_def camera_dma_config_def)
  have c1: "cm_clock c1 = 0" "cm_end_frame_count c1 = 0" "length (gd_channels (cm_gdma c1)) = 6" "cm_config c1 = cm_config demo_camera"
    by (simp_all add: c1_def demo_camera_def gdma_configure_def is_channel_valid_def gdma_zero_def camera_dma_config_def upd_channel_def)
  have c2: "cm_clock c2 = 1" "cm_end_frame_count c2 = 1" "length (gd_channels (cm_gdma c2)) = 6" "cm_config c2 = cm_config demo_camera"
    using c1 by (simp_all add: c2_def spin_def demo_world_def)
  have c3: "cm_clock c3 = 1" "cm_end_frame_count c3 = 1" "cm_config c3 = cm_config demo_camera"
    "gdma_busy 4 (cm_gdma c3)" "ch_dst_start_addr (gd_channels (cm_gdma c3) ! 4) = 0x2000" "length (gd_channels (cm_gdma c3)) = 6"
    using c2 by (simp_all add: c3_def gdma_restart_def gdma_start_def is_channel_valid_def upd_channel_def gdma_busy_def set_enable_def)
  have c4: "cm_clock c4 = 2" "cm_config c4 = cm_config demo_camera" "gdma_busy 4 (cm_gdma c4)" "gd_channels (cm_gdma c4) = gd_channels (cm_gdma c3)"
    "gd_dst_wr_addr (cm_gdma c4) = replicate 6 0x2004" "cm_mem c4 = (\<lambda>a. if a AND 1 = 0 then 0xFF else if a = 0x2001 then 0xD8 else 0xD9)"
    using c3 by (simp_all add: c4_def spin_def demo_world_def gdma_busy_def is_channel_valid_def)
  have w: "wait_next_end_frame demo_world 0 c1 = (True, c2)" "wait_next_end_frame demo_world 1 c3 = (True, c4)"
    unfolding c2_def c4_def using c1 c3 by (auto intro!: wait_next_one simp: demo_world_def)
  have "\<exists>t. wait_dma_drained demo_world 4 c4 = c4\<lparr>cm_clock := t\<rparr>"
    unfolding wait_dma_drained_def by (rule drain_loop_idle) (simp_all add: demo_world_def c4(1))
  then obtain t where d: "wait_dma_drained demo_world 4 c4 = c4\<lparr>cm_clock := t\<rparr>" by blast
  define c5 where "c5 = (c4\<lparr>cm_clock := t\<rparr>)\<lparr>cm_gdma := gdma_stop 4 (cm_gdma c4)\<rparr>"
  have "gdma_transferred 4 (cm_gdma c5) = 4"
    using c3(5,6) c4(4,5) by (simp add: c5_def gdma_transferred_def gdma_stop_def is_channel_valid_def upd_channel_def set_enable_def nth_list_update)
  moreover have "find_jpeg_end (\<lambda>i. cm_mem c5 (0x2000 + of_nat i)) 4 = 4"
    by (simp add: c5_def c4(6) find_jpeg_end_def numeral_eq_Suc)
  moreover have "cm_mem c5 0x2000 = 0xFF" "cm_mem c5 0x2001 = 0xD8" by (simp_all add: c5_def c4(6))
  moreover have "cm_sensor demo_camera \<noteq> None" "\<not> st_active (cm_stream demo_camera)" "cm_dma_channel demo_camera = 4" "cm_end_frame_count demo_camera = 0"
    "cm_config demo_camera = \<lparr>cc_sensor = None, cc_frame_buf = 0x2000, cc_frame_buf_size = 64, cc_frame_min_bytes = 0, cc_frame_max_bytes = 0\<rparr>"
    by (simp_all add: demo_camera_def stream_zero_def)
  moreover have "demo_camera\<lparr>cm_gdma := cm_gdma c1\<rparr> = c1" by (simp add: c1_def)
  moreover have "cm_config c5 = cm_config demo_camera" using c4(2) by (simp add: c5_def)
  ultimately have "camera_capture_frame demo_world demo_camera = (Inr \<lparr>fr_data = 0x2000, fr_size = 4\<rparr>, c5)"
    using cfg w d c2 c4(3) by (simp add: camera_capture_frame_def Let_def flip: c3_def c5_def)
  then show ?thesis by blast
qed

theorem camera_capture_whole_witness:
  "\<exists>c'. camera_capture_frame demo_world demo_camera = (Inr \<lparr>fr_data = 0x2000, fr_size = 4\<rparr>, c') \<and> whole_jpeg (buffer_bytes c' 0x2000 4)"
proof -
  obtain c' where "camera_capture_frame demo_world demo_camera = (Inr \<lparr>fr_data = 0x2000, fr_size = 4\<rparr>, c')" using demo_capture by blast
  then show ?thesis using camera_capture_whole by fastforce
qed

end
