(* ===== verification/Telnet.thy ===== *)
theory Telnet
  imports Ring_Buffer "HOL-Library.Monad_Syntax"
begin

text \<open>
  The Telnet console, \<open>src/src/platform/misc/telnet_server/telnet_server.c\<close>. Writers queue output from any task, the
  session task sends it to the one client and strips the Telnet framing from what the client types. The sockets are an
  environment: how many bytes a send takes, what a select and a receive return, and which calls other tasks make while the
  session waits. A client that follows the protocol sees exactly what was queued, and the console reads exactly what was
  typed.
\<close>

section \<open>State\<close>

abbreviation IAC :: u8 where "IAC \<equiv> 255"
abbreviation DONT :: u8 where "DONT \<equiv> 254"
abbreviation DO :: u8 where "DO \<equiv> 253"
abbreviation WONT :: u8 where "WONT \<equiv> 252"
abbreviation WILL :: u8 where "WILL \<equiv> 251"
abbreviation SB :: u8 where "SB \<equiv> 250"
abbreviation SE :: u8 where "SE \<equiv> 240"
abbreviation OPT_ECHO :: u8 where "OPT_ECHO \<equiv> 1"
abbreviation OPT_SGA :: u8 where "OPT_SGA \<equiv> 3"
abbreviation TX_QUEUE_SIZE :: u32 where "TX_QUEUE_SIZE \<equiv> 1024"
abbreviation RX_QUEUE_SIZE :: u32 where "RX_QUEUE_SIZE \<equiv> 128"
abbreviation CHUNK :: nat where "CHUNK \<equiv> 128"
abbreviation WRITE_WAIT_TICKS :: u64 where "WRITE_WAIT_TICKS \<equiv> 100"
abbreviation DEFAULT_STACK_WORDS :: u16 where "DEFAULT_STACK_WORDS \<equiv> 768"

text \<open>The callbacks are the calls they make.\<close>

datatype telnet_call = Call_write bytes | Call_read | Call_disconnect | Call_stop

record telnet_config =
  tc_port          :: u16
  tc_stack_words   :: u16
  tc_greeting      :: "bytes option"
  tc_on_connect    :: "telnet_call list"
  tc_on_disconnect :: "telnet_call list"

text \<open>\<open>tn_exited\<close> is the token of the semaphore. The last three are the connection's side: what was sent on it, how often
  the session called into lwIP, and, as history, what writers queued.\<close>

record telnet_server =
  tn_config     :: telnet_config
  tn_listen_fd  :: int
  tn_stopping   :: bool
  tn_disconnect :: bool
  tn_exited     :: bool
  tn_active     :: bool
  tn_tx         :: ringbuf
  tn_rx         :: ringbuf
  tn_wire       :: bytes
  tn_time       :: nat
  tn_queued     :: bytes

text \<open>\<open>te_send t len\<close>: the bytes a send of \<open>len\<close> bytes takes, \<open>None\<close> for an error; \<open>te_recv t\<close>: what arrived, \<open>Some []\<close> when the client
  has closed.\<close>

record telnet_env =
  te_send   :: "nat \<Rightarrow> nat \<Rightarrow> nat option"
  te_ready  :: "nat \<Rightarrow> int"
  te_recv   :: "nat \<Rightarrow> bytes option"
  te_calls  :: "nat \<Rightarrow> telnet_call list"
  te_accept :: "nat \<Rightarrow> bool"

section \<open>Queues\<close>

text \<open>The critical section of \<open>telnet_server_write\<close>: what did not fit.\<close>

definition write_queue :: "bytes \<Rightarrow> telnet_server \<Rightarrow> bytes \<times> telnet_server" where
  "write_queue data s =
     (let (n, tx) = put_list ringbuf_put_byte (tn_tx s) data
      in (drop n data, s\<lparr>tn_tx := tx, tn_queued := tn_queued s @ take n data\<rparr>))"

text \<open>\<open>own\<close>: the caller is the server task; \<open>world\<close>: what happens during \<open>vTaskDelay(1)\<close>, the tick count included. \<open>None\<close> of
  the server is \<open>s_server == NULL\<close>.\<close>

partial_function (option) write_wait ::
  "(u64 \<Rightarrow> telnet_server option \<Rightarrow> u64 \<times> telnet_server option) \<Rightarrow> bool \<Rightarrow> u64 \<Rightarrow> u64 \<Rightarrow> bytes \<Rightarrow> telnet_server option
     \<Rightarrow> (bytes \<times> u64 \<times> telnet_server option) option" where
  "write_wait world own start now data server =
     (let (data, can_wait, server) =
            (case server of
               Some s \<Rightarrow> if tn_active s then let (rest, s) = write_queue data s in (rest, \<not> own, Some s) else ([], False, server)
             | None \<Rightarrow> ([], False, server))
      in if data = [] \<or> \<not> can_wait \<or> now - start \<ge> WRITE_WAIT_TICKS then Some (data, now, server)
         else let (now, server) = world now server in write_wait world own start now data server)"

definition telnet_server_write ::
  "(u64 \<Rightarrow> telnet_server option \<Rightarrow> u64 \<times> telnet_server option) \<Rightarrow> bool \<Rightarrow> bool \<Rightarrow> bytes \<Rightarrow> u64 \<Rightarrow> telnet_server option
     \<Rightarrow> (bytes \<times> u64 \<times> telnet_server option) option" where
  "telnet_server_write world inside_interrupt own data now server =
     (if inside_interrupt then Some (data, now, server) else write_wait world own now now data server)"

definition telnet_server_read :: "telnet_server option \<Rightarrow> int \<times> telnet_server option" where
  "telnet_server_read server =
     (case server of
        None \<Rightarrow> (- 1, None)
      | Some s \<Rightarrow> let (c, rx) = ringbuf_get_char (tn_rx s) in (c, Some (s\<lparr>tn_rx := rx\<rparr>)))"

definition telnet_server_disconnect :: "telnet_server option \<Rightarrow> bool \<times> telnet_server option" where
  "telnet_server_disconnect server =
     (case server of
        None \<Rightarrow> (False, None)
      | Some s \<Rightarrow> (tn_active s, Some (if tn_active s then s\<lparr>tn_disconnect := True\<rparr> else s)))"

text \<open>A call of another task while the session waits; one critical section of a write is one call. \<open>Call_stop\<close> is the flag
  \<open>telnet_server_stop\<close> sets.\<close>

definition telnet_call :: "telnet_call \<Rightarrow> telnet_server \<Rightarrow> telnet_server" where
  "telnet_call c s =
     (case c of
        Call_write data \<Rightarrow> if tn_active s then snd (write_queue data s) else s
      | Call_read \<Rightarrow> the (snd (telnet_server_read (Some s)))
      | Call_disconnect \<Rightarrow> the (snd (telnet_server_disconnect (Some s)))
      | Call_stop \<Rightarrow> s\<lparr>tn_stopping := True\<rparr>)"

definition telnet_calls :: "telnet_call list \<Rightarrow> telnet_server \<Rightarrow> telnet_server" where
  "telnet_calls cs s = fold telnet_call cs s"

text \<open>\<open>while (ringbuf_get_byte(&server->tx, &b))\<close>: no more bytes than the queue counts.\<close>

definition drain_queue :: "ringbuf \<Rightarrow> ringbuf" where
  "drain_queue rb = snd (get_list ringbuf_get_byte rb (unat (ringbuf_count rb)))"

definition set_active :: "bool \<Rightarrow> telnet_server \<Rightarrow> telnet_server" where
  "set_active active s =
     (let s = (if active then s\<lparr>tn_tx := drain_queue (tn_tx s)\<rparr> else s) in s\<lparr>tn_active := active\<rparr>)"

section \<open>Connection\<close>

definition send_all :: "telnet_env \<Rightarrow> bytes \<Rightarrow> telnet_server \<Rightarrow> bool \<times> telnet_server" where
  "send_all e data s =
     (let t = tn_time s; s = s\<lparr>tn_time := t + 1\<rparr>
      in case te_send e t (length data) of
           None \<Rightarrow> (False, s)
         | Some n \<Rightarrow> (n = length data, s\<lparr>tn_wire := tn_wire s @ take n data\<rparr>))"

fun escape :: "bytes \<Rightarrow> bytes" where
  "escape [] = []"
| "escape (b # raw) = (if b = IAC then [b, IAC] else [b]) @ escape raw"

definition flush_output :: "telnet_env \<Rightarrow> telnet_server \<Rightarrow> bool \<times> telnet_server" where
  "flush_output e s =
     (let (raw, tx) = get_list ringbuf_get_byte (tn_tx s) CHUNK; s = s\<lparr>tn_tx := tx\<rparr>
      in if raw = [] then (True, s) else send_all e (escape raw) s)"

datatype parser_state = STATE_DATA | STATE_IAC | STATE_OPTION | STATE_SUBNEGOTIATION | STATE_SUBNEGOTIATION_IAC

record parser =
  ps_state    :: parser_state
  ps_command  :: u8
  ps_after_cr :: bool

definition decline :: "telnet_env \<Rightarrow> u8 \<Rightarrow> u8 \<Rightarrow> telnet_server \<Rightarrow> bool \<times> telnet_server" where
  "decline e command opt s =
     (if opt = OPT_ECHO \<or> opt = OPT_SGA then (True, s)
      else if command \<noteq> DO \<and> command \<noteq> WILL then (True, s)
      else send_all e [IAC, if command = DO then WONT else DONT, opt] s)"

definition rx_put :: "u8 \<Rightarrow> telnet_server \<Rightarrow> telnet_server" where
  "rx_put b s = s\<lparr>tn_rx := snd (ringbuf_put_byte (tn_rx s) b)\<rparr>"

definition parse_byte :: "telnet_env \<Rightarrow> u8 \<Rightarrow> parser \<Rightarrow> telnet_server \<Rightarrow> bool \<times> parser \<times> telnet_server" where
  "parse_byte e b p s =
     (case ps_state p of
        STATE_DATA \<Rightarrow>
          if b = IAC then (True, p\<lparr>ps_state := STATE_IAC\<rparr>, s)
          else if ps_after_cr p \<and> (b = 0 \<or> b = 10) then (True, p\<lparr>ps_after_cr := False\<rparr>, s)
          else (True, p\<lparr>ps_after_cr := (b = 13)\<rparr>, rx_put b s)
      | STATE_IAC \<Rightarrow>
          if b = IAC then (True, p\<lparr>ps_state := STATE_DATA\<rparr>, rx_put IAC s)
          else if b \<ge> WILL \<and> b \<le> DONT then (True, p\<lparr>ps_command := b, ps_state := STATE_OPTION\<rparr>, s)
          else if b = SB then (True, p\<lparr>ps_state := STATE_SUBNEGOTIATION\<rparr>, s)
          else (True, p\<lparr>ps_state := STATE_DATA\<rparr>, s)
      | STATE_OPTION \<Rightarrow>
          let p = p\<lparr>ps_state := STATE_DATA\<rparr>; (ok, s) = decline e (ps_command p) b s in (ok, p, s)
      | STATE_SUBNEGOTIATION \<Rightarrow> (True, if b = IAC then p\<lparr>ps_state := STATE_SUBNEGOTIATION_IAC\<rparr> else p, s)
      | STATE_SUBNEGOTIATION_IAC \<Rightarrow> (True, p\<lparr>ps_state := if b = SE then STATE_DATA else STATE_SUBNEGOTIATION\<rparr>, s))"

text \<open>\<open>for (int i = 0; ok && i < n; i++) ok = parse(server, &parser, fd, in[i])\<close>\<close>

fun parse_loop :: "telnet_env \<Rightarrow> bytes \<Rightarrow> parser \<Rightarrow> telnet_server \<Rightarrow> bool \<times> parser \<times> telnet_server" where
  "parse_loop e [] p s = (True, p, s)"
| "parse_loop e (b # bs) p s =
     (case parse_byte e b p s of
        (True, p, s) \<Rightarrow> parse_loop e bs p s
      | (False, p, s) \<Rightarrow> (False, p, s))"

text \<open>One round of the session: whether it goes on. Other tasks run while it waits in \<open>lwip_select\<close>.\<close>

definition session_round :: "telnet_env \<Rightarrow> parser \<Rightarrow> telnet_server \<Rightarrow> bool \<times> parser \<times> telnet_server" where
  "session_round e p s =
     (let t = tn_time s;
          s = telnet_calls (te_calls e t) (s\<lparr>tn_time := t + 1\<rparr>);
          ready = te_ready e t;
          (ok, p, s) =
            (if ready < 0 then (False, p, s)
             else if ready > 0 then
               (case te_recv e t of
                  None \<Rightarrow> (False, p, s)
                | Some inp \<Rightarrow> if inp = [] then (False, p, s) else parse_loop e (take CHUNK inp) p s)
             else (True, p, s))
      in if \<not> ok then (False, p, s)
         else let (ok, s) = flush_output e s in (ok, p, s))"

partial_function (option) session_loop :: "telnet_env \<Rightarrow> parser \<Rightarrow> telnet_server \<Rightarrow> telnet_server option" where
  "session_loop e p s =
     (if tn_stopping s \<or> tn_disconnect s then Some s
      else let (ok, p, s) = session_round e p s in if ok then session_loop e p s else Some s)"

partial_function (option) drain_output :: "telnet_env \<Rightarrow> telnet_server \<Rightarrow> telnet_server option" where
  "drain_output e s =
     (if ringbuf_is_empty (tn_tx s) then Some s
      else let (ok, s) = flush_output e s in if ok then drain_output e s else Some s)"

definition NEGOTIATION :: bytes where
  "NEGOTIATION = [IAC, WILL, OPT_ECHO, IAC, WILL, OPT_SGA, IAC, DO, OPT_SGA]"

definition telnet_serve :: "telnet_env \<Rightarrow> telnet_server \<Rightarrow> telnet_server option" where
  "telnet_serve e s =
     (let (ok, s) = send_all e NEGOTIATION s in
      if \<not> ok then Some s
      else
        let (ok, s) = (case tc_greeting (tn_config s) of None \<Rightarrow> (True, s) | Some g \<Rightarrow> send_all e g s) in
        if \<not> ok then Some s
        else
          let s = set_active True (s\<lparr>tn_disconnect := False\<rparr>);
              s = telnet_calls (tc_on_connect (tn_config s)) s
          in do {
            s \<leftarrow> session_loop e \<lparr>ps_state = STATE_DATA, ps_command = 0, ps_after_cr = False\<rparr> s;
            s \<leftarrow> drain_output e (set_active False s);
            Some (telnet_calls (tc_on_disconnect (tn_config s)) s)
          })"

text \<open>A new connection starts with an empty wire. The task gives the semaphore as its last act.\<close>

partial_function (option) telnet_task :: "telnet_env \<Rightarrow> telnet_server \<Rightarrow> telnet_server option" where
  "telnet_task e s =
     (if tn_stopping s then Some (s\<lparr>tn_exited := True\<rparr>)
      else
        let t = tn_time s; s = telnet_calls (te_calls e t) (s\<lparr>tn_time := t + 1\<rparr>) in
        if te_accept e t then do { s \<leftarrow> telnet_serve e (s\<lparr>tn_wire := []\<rparr>); telnet_task e s }
        else telnet_task e s)"

section \<open>Start and stop\<close>

text \<open>\<open>tk_server\<close> is \<open>s_server\<close>; \<open>tk_task\<close>: the task runs; \<open>tk_open\<close>: the listening sockets open.\<close>

record telnet_ctl =
  tk_server :: "telnet_server option"
  tk_task   :: bool
  tk_open   :: nat

definition server_zero :: "telnet_config \<Rightarrow> telnet_server" where
  "server_zero cfg =
     \<lparr>tn_config = (if tc_stack_words cfg = 0 then cfg\<lparr>tc_stack_words := DEFAULT_STACK_WORDS\<rparr> else cfg), tn_listen_fd = 0,
      tn_stopping = False, tn_disconnect = False, tn_exited = False, tn_active = False, tn_tx = ringbuf_declare TX_QUEUE_SIZE,
      tn_rx = ringbuf_declare RX_QUEUE_SIZE, tn_wire = [], tn_time = 0, tn_queued = []\<rparr>"

text \<open>\<open>fd\<close> is what \<open>open_listen_socket\<close> returns; \<open>memory\<close>, \<open>semaphore\<close> and \<open>task\<close>: what could be had.\<close>

definition telnet_server_start :: "bool \<Rightarrow> bool \<Rightarrow> int \<Rightarrow> bool \<Rightarrow> telnet_config option \<Rightarrow> telnet_ctl \<Rightarrow> bool \<times> telnet_ctl" where
  "telnet_server_start memory semaphore fd task config k =
     (case config of
        None \<Rightarrow> (False, k)
      | Some cfg \<Rightarrow>
          if tk_server k \<noteq> None then (False, k)
          else if \<not> memory then (False, k)
          else
            let s = (server_zero cfg)\<lparr>tn_listen_fd := fd\<rparr>;
                k = (if fd \<ge> 0 then k\<lparr>tk_open := tk_open k + 1\<rparr> else k);
                destroyed = (if fd \<ge> 0 then k\<lparr>tk_open := tk_open k - 1\<rparr> else k)
            in if \<not> semaphore \<or> fd < 0 then (False, destroyed)
               else if \<not> task then (False, destroyed)
               else (True, k\<lparr>tk_server := Some s, tk_task := True\<rparr>))"

text \<open>The last act of the task.\<close>

definition telnet_task_exit :: "telnet_ctl \<Rightarrow> telnet_ctl" where
  "telnet_task_exit k =
     (case tk_server k of
        Some s \<Rightarrow> if tk_task k \<and> tn_stopping s then k\<lparr>tk_server := Some (s\<lparr>tn_exited := True\<rparr>), tk_task := False\<rparr> else k
      | None \<Rightarrow> k)"

text \<open>\<open>exits\<close>: the task gets to its exit while the stopper waits.\<close>

definition telnet_server_stop :: "bool \<Rightarrow> telnet_ctl \<Rightarrow> telnet_ctl" where
  "telnet_server_stop exits k =
     (case tk_server k of
        None \<Rightarrow> k
      | Some s \<Rightarrow>
          let k = k\<lparr>tk_server := Some (s\<lparr>tn_stopping := True\<rparr>)\<rparr>;
              k = (if exits then telnet_task_exit k else k)
          in if tn_exited (the (tk_server k)) then k\<lparr>tk_server := None, tk_open := tk_open k - 1\<rparr> else k)"

definition telnet_server_is_up :: "telnet_ctl \<Rightarrow> bool" where
  "telnet_server_is_up k \<longleftrightarrow> tk_server k \<noteq> None"

section \<open>What a client sees\<close>

text \<open>A client that follows RFC 854: data, with the escaped byte, and commands skipped. The server starts no subnegotiation.\<close>

fun client_data :: "bytes \<Rightarrow> bytes" where
  "client_data [] = []"
| "client_data (b # bs) =
     (if b \<noteq> IAC then b # client_data bs
      else case bs of
             [] \<Rightarrow> []
           | c # cs \<Rightarrow> if c = IAC then IAC # client_data cs
                       else if WILL \<le> c \<and> c \<le> DONT then client_data (drop 1 cs) else client_data cs)"

definition whole_units :: "bytes \<Rightarrow> bool" where
  "whole_units w \<longleftrightarrow> (\<forall>w'. client_data (w @ w') = client_data w @ client_data w')"

lemma client_data_escape: "client_data (escape xs @ w) = xs @ client_data w"
  by (induction xs) auto

lemma client_data_plain: "IAC \<notin> set xs \<Longrightarrow> client_data (xs @ w) = xs @ client_data w"
  by (induction xs) auto

lemma whole_units_Nil [simp]: "whole_units []"
  by (simp add: whole_units_def)

lemma whole_units_append: "whole_units a \<Longrightarrow> whole_units b \<Longrightarrow> whole_units (a @ b) \<and> client_data (a @ b) = client_data a @ client_data b"
  by (simp add: whole_units_def)

lemma whole_escape: "whole_units (escape xs)" "client_data (escape xs) = xs"
  using client_data_escape [of xs "[]"] by (simp_all add: whole_units_def client_data_escape)

lemma whole_plain: "IAC \<notin> set xs \<Longrightarrow> whole_units xs \<and> client_data xs = xs"
  using client_data_plain [of xs "[]"] by (simp add: whole_units_def client_data_plain)

lemma whole_reply: "whole_units [IAC, if c then WONT else DONT, x]" "client_data [IAC, if c then WONT else DONT, x] = []"
  by (simp_all add: whole_units_def)

lemma whole_negotiation: "whole_units NEGOTIATION" "client_data NEGOTIATION = []"
  by (simp_all add: whole_units_def NEGOTIATION_def)

text \<open>What was sent and is queued, compared with what was queued since \<open>s0\<close>; \<open>g\<close> is what was sent before the output.\<close>

definition out_inv :: "bytes \<Rightarrow> telnet_server \<Rightarrow> telnet_server \<Rightarrow> bool" where
  "out_inv g s0 s \<longleftrightarrow> ringbuf_ok (tn_tx s) \<and> ringbuf_ok (tn_rx s) \<and> tn_config s = tn_config s0
     \<and> (\<exists>w new. tn_wire s = tn_wire s0 @ w \<and> tn_queued s = tn_queued s0 @ new \<and> whole_units w
          \<and> client_data w @ rb_contents (tn_tx s) = g @ new)"

lemma out_inv_cong:
  assumes "out_inv g s0 s" "tn_tx s' = tn_tx s" "ringbuf_ok (tn_rx s')" "tn_wire s' = tn_wire s" "tn_queued s' = tn_queued s"
    "tn_config s' = tn_config s"
  shows "out_inv g s0 s'"
  using assms by (simp add: out_inv_def)

lemma out_inv_write: "out_inv g s0 s \<Longrightarrow> out_inv g s0 (snd (write_queue data s))"
proof -
  assume i: "out_inv g s0 s"
  then obtain tx where tx: "put_list ringbuf_put_byte (tn_tx s) data = (min (length data) (rb_room (tn_tx s)), tx)" "ringbuf_ok tx"
    "rb_contents tx = rb_contents (tn_tx s) @ take (rb_room (tn_tx s)) data"
    using ring.put_list_accepts [of "tn_tx s" data] by (auto simp: out_inv_def)
  have "take (min (length data) (rb_room (tn_tx s))) data = take (rb_room (tn_tx s)) data" by (simp add: min_def)
  then show ?thesis using i tx by (auto simp: out_inv_def write_queue_def)
qed

lemma rx_get_ok: "ringbuf_ok rb \<Longrightarrow> ringbuf_get_char rb = (c, rb') \<Longrightarrow> ringbuf_ok rb'"
proof (cases "rb_contents rb")
  case Nil
  assume "ringbuf_ok rb" "ringbuf_get_char rb = (c, rb')"
  then show ?thesis using ring.get_empty [of rb] Nil by (simp add: ringbuf_get_char_def)
next
  case (Cons x xs)
  assume "ringbuf_ok rb" "ringbuf_get_char rb = (c, rb')"
  then show ?thesis using ring.get_some [of rb x xs] Cons by (auto simp: ringbuf_get_char_def)
qed

lemma rx_put_ok: "ringbuf_ok rb \<Longrightarrow> ringbuf_ok (snd (ringbuf_put_byte rb b)) \<and>
    rb_contents (snd (ringbuf_put_byte rb b)) = rb_contents rb @ take (rb_room rb) [b] \<and> rb_room (snd (ringbuf_put_byte rb b)) = rb_room rb - 1"
proof (cases "rb_room rb = 0")
  case True
  assume "ringbuf_ok rb"
  then show ?thesis using ring.put_full [of rb b] True by simp
next
  case False
  assume "ringbuf_ok rb"
  then show ?thesis using ring.put_room [of rb b] False by (auto simp: take_Cons')
qed

lemma out_inv_call: "out_inv g s0 s \<Longrightarrow> out_inv g s0 (telnet_call c s)"
proof (cases c)
  case Call_read
  assume i: "out_inv g s0 s"
  obtain ch rx where rx: "ringbuf_get_char (tn_rx s) = (ch, rx)" by (rule prod.exhaust)
  then have "ringbuf_ok rx" using rx_get_ok i by (auto simp: out_inv_def)
  then show ?thesis using out_inv_cong [OF i, of "s\<lparr>tn_rx := rx\<rparr>"] rx Call_read by (simp add: telnet_call_def telnet_server_read_def)
next
  case (Call_write data)
  assume "out_inv g s0 s"
  then show ?thesis using out_inv_write Call_write by (simp add: telnet_call_def)
qed (auto simp: telnet_call_def telnet_server_disconnect_def out_inv_def)

lemma out_inv_calls: "out_inv g s0 s \<Longrightarrow> out_inv g s0 (telnet_calls cs s)"
  unfolding telnet_calls_def by (induction cs arbitrary: s) (auto intro: out_inv_call)

text \<open>The network takes every send.\<close>

definition sends_whole :: "telnet_env \<Rightarrow> bool" where
  "sends_whole e \<longleftrightarrow> (\<forall>t n. te_send e t n = Some n)"

lemma send_all_whole:
  "sends_whole e \<Longrightarrow> send_all e data s = (True, s\<lparr>tn_time := tn_time s + 1, tn_wire := tn_wire s @ data\<rparr>)"
  by (simp add: send_all_def sends_whole_def Let_def)

lemma out_inv_send:
  assumes "out_inv g s0 s" "whole_units data" "client_data data = []" "sends_whole e"
  shows "out_inv g s0 (snd (send_all e data s))"
  using assms(1) whole_units_append [OF _ assms(2)] assms(3)
  by (auto simp: out_inv_def send_all_whole [OF assms(4)])

lemma flush_output_whole:
  assumes "out_inv g s0 s" "sends_whole e"
  shows "\<exists>s'. flush_output e s = (True, s') \<and> out_inv g s0 s' \<and> rb_contents (tn_tx s') = drop CHUNK (rb_contents (tn_tx s))
    \<and> tn_active s' = tn_active s \<and> tn_stopping s' = tn_stopping s \<and> tn_disconnect s' = tn_disconnect s"
proof -
  have ok: "ringbuf_ok (tn_tx s)" using assms(1) by (simp add: out_inv_def)
  obtain tx where tx: "get_list ringbuf_get_byte (tn_tx s) CHUNK = (take CHUNK (rb_contents (tn_tx s)), tx)" "ringbuf_ok tx"
    "rb_contents tx = drop CHUNK (rb_contents (tn_tx s))"
    using ring.get_list_takes [OF ok, of CHUNK] by blast
  let ?raw = "take CHUNK (rb_contents (tn_tx s))"
  obtain w new where w: "tn_wire s = tn_wire s0 @ w" "tn_queued s = tn_queued s0 @ new" "whole_units w"
    "client_data w @ rb_contents (tn_tx s) = g @ new" using assms(1) by (auto simp: out_inv_def)
  have "client_data (w @ escape ?raw) @ rb_contents tx = g @ new" "whole_units (w @ escape ?raw)"
    using whole_units_append [OF w(3) whole_escape(1), of ?raw] w(4) by (simp_all add: whole_escape(2) tx(3))
  then show ?thesis
    using assms(1) tx w by (cases "?raw = []") (auto simp: flush_output_def out_inv_def send_all_whole [OF assms(2)])
qed

lemma parse_byte_out:
  assumes "out_inv g s0 s" "sends_whole e" "parse_byte e b p s = (ok, p', s')"
  shows "ok \<and> out_inv g s0 s'"
proof -
  have rx: "out_inv g s0 (rx_put x s)" for x
    using out_inv_cong [OF assms(1), of "rx_put x s"] rx_put_ok [of "tn_rx s" x] assms(1) by (simp add: rx_put_def out_inv_def)
  have dec: "fst (decline e c o' s)" "out_inv g s0 (snd (decline e c o' s))" for c o'
    using out_inv_send [OF assms(1) whole_reply assms(2), of "c = DO" o'] assms(1)
    by (auto simp: decline_def send_all_whole [OF assms(2)])
  show ?thesis
    using assms(1,3) rx dec [of "ps_command p" b]
    by (auto simp: parse_byte_def Let_def split_beta split: parser_state.splits if_splits)
qed

lemma parse_loop_out:
  "out_inv g s0 s \<Longrightarrow> sends_whole e \<Longrightarrow> parse_loop e bs p s = (ok, p', s') \<Longrightarrow> ok \<and> out_inv g s0 s'"
proof (induction e bs p s rule: parse_loop.induct)
  case (2 e b bs p s)
  obtain k p1 s1 where p1: "parse_byte e b p s = (k, p1, s1)" by (metis prod.exhaust)
  then have "k" "out_inv g s0 s1" using parse_byte_out [OF "2.prems"(1,2)] by blast+
  then show ?case using 2 p1 by auto
qed simp

lemma session_round_out:
  assumes "out_inv g s0 s" "sends_whole e" "session_round e p s = (ok, p', s')"
  shows "out_inv g s0 s'"
proof -
  let ?s = "telnet_calls (te_calls e (tn_time s)) (s\<lparr>tn_time := tn_time s + 1\<rparr>)"
  have c: "out_inv g s0 ?s" by (rule out_inv_calls) (rule out_inv_cong [OF assms(1)], use assms(1) in \<open>auto simp: out_inv_def\<close>)
  obtain k p1 s1 where p1: "parse_loop e (take CHUNK (the (te_recv e (tn_time s)))) p ?s = (k, p1, s1)" by (metis prod.exhaust)
  have s1: "k" "out_inv g s0 s1" using parse_loop_out [OF c assms(2) p1] by blast+
  obtain f1 f2 where "flush_output e ?s = (True, f1)" "out_inv g s0 f1" "flush_output e s1 = (True, f2)" "out_inv g s0 f2"
    using flush_output_whole [OF c assms(2)] flush_output_whole [OF s1(2) assms(2)] by blast
  then show ?thesis using assms(3) c s1 p1
    by (auto simp: session_round_def Let_def split_beta split: if_splits option.splits)
qed

lemma session_loop_out:
  assumes "out_inv g s0 s" "sends_whole e" "session_loop e p s = Some s'"
  shows "out_inv g s0 s'"
proof -
  let ?P = "\<lambda>e p s s'. sends_whole e \<longrightarrow> out_inv g s0 s \<longrightarrow> out_inv g s0 s'"
  have "?P e p s s'"
  proof (rule session_loop.raw_induct [where P = ?P, OF _ assms(3)], intro impI)
    fix f e p s s'
    assume ih: "\<And>e p s s'. f e p s = Some s' \<Longrightarrow> sends_whole e \<longrightarrow> out_inv g s0 s \<longrightarrow> out_inv g s0 s'"
      and st: "(if tn_stopping s \<or> tn_disconnect s then Some s
        else let (ok, p, s) = session_round e p s in if ok then f e p s else Some s) = Some s'"
      and e: "sends_whole e" and i: "out_inv g s0 s"
    obtain k p1 s1 where r: "session_round e p s = (k, p1, s1)" by (metis prod.exhaust)
    show "out_inv g s0 s'" using st session_round_out [OF i e r] ih [of e p1 s1 s'] e i by (auto simp: r split: if_splits)
  qed
  then show ?thesis using assms by blast
qed

lemma drain_output_whole:
  "out_inv g s0 s \<Longrightarrow> sends_whole e \<Longrightarrow>
     \<exists>s'. drain_output e s = Some s' \<and> out_inv g s0 s' \<and> rb_contents (tn_tx s') = [] \<and> tn_active s' = tn_active s"
proof (induction "length (rb_contents (tn_tx s))" arbitrary: s rule: less_induct)
  case less
  show ?case
  proof (cases "rb_contents (tn_tx s) = []")
    case True
    then have "ringbuf_is_empty (tn_tx s)" by (simp add: ringbuf_is_empty_iff flip: length_rb_contents)
    then show ?thesis using less.prems True by (subst drain_output.simps) simp
  next
    case False
    then have ne: "\<not> ringbuf_is_empty (tn_tx s)" by (simp add: ringbuf_is_empty_iff flip: length_rb_contents)
    obtain s1 where s1: "flush_output e s = (True, s1)" "out_inv g s0 s1" "rb_contents (tn_tx s1) = drop CHUNK (rb_contents (tn_tx s))"
      "tn_active s1 = tn_active s" using flush_output_whole [OF less.prems] by blast
    have "length (rb_contents (tn_tx s1)) < length (rb_contents (tn_tx s))" using False unfolding s1(3) by (simp del: length_rb_contents)
    then obtain s' where "drain_output e s1 = Some s'" "out_inv g s0 s'" "rb_contents (tn_tx s') = []" "tn_active s' = tn_active s1"
      using less.hyps [OF _ s1(2) less.prems(2)] by blast
    then show ?thesis using ne s1 by (subst drain_output.simps) simp
  qed
qed

text \<open>Calls while no client is attached queue nothing.\<close>

lemma inactive_calls:
  "\<not> tn_active s \<Longrightarrow> tn_tx (telnet_calls cs s) = tn_tx s \<and> tn_wire (telnet_calls cs s) = tn_wire s \<and> tn_queued (telnet_calls cs s) = tn_queued s"
proof -
  have "\<not> tn_active (telnet_call c s) \<and> tn_tx (telnet_call c s) = tn_tx s \<and> tn_wire (telnet_call c s) = tn_wire s
      \<and> tn_queued (telnet_call c s) = tn_queued s" if "\<not> tn_active s" for c s
    using that by (cases c) (auto simp: telnet_call_def telnet_server_read_def telnet_server_disconnect_def split_beta Let_def)
  then show "\<not> tn_active s \<Longrightarrow> ?thesis"
    unfolding telnet_calls_def by (induction cs arbitrary: s) simp_all
qed

lemma drain_queue_ok: "ringbuf_ok rb \<Longrightarrow> ringbuf_ok (drain_queue rb) \<and> rb_contents (drain_queue rb) = []"
  using ring.get_list_takes [of rb "unat (ringbuf_count rb)"] by (auto simp: drain_queue_def)

text \<open>(C13) 
  (C903) A client sees what was queued for it. While the network takes every send, whatever the client types and whatever
  other tasks call, once the session is over a client that follows the Telnet protocol has received the greeting and then
  exactly the bytes the writers queued during the session, in order and with none left behind, although the byte 255 and
  the answers to its option requests are interleaved with commands.
\<close>

theorem telnet_session_output:
  assumes "telnet_serve e s = Some s'" "sends_whole e" "ringbuf_ok (tn_tx s)" "ringbuf_ok (tn_rx s)"
    and "tc_greeting (tn_config s) = Some g" "IAC \<notin> set g"
  shows "\<exists>w new. tn_wire s' = tn_wire s @ w \<and> tn_queued s' = tn_queued s @ new \<and> client_data w = g @ new
    \<and> rb_contents (tn_tx s') = [] \<and> ringbuf_ok (tn_tx s') \<and> ringbuf_ok (tn_rx s')"
proof -
  let ?p = "\<lparr>ps_state = STATE_DATA, ps_command = 0, ps_after_cr = False\<rparr>"
  let ?s1 = "s\<lparr>tn_time := tn_time s + 2, tn_wire := tn_wire s @ NEGOTIATION @ g\<rparr>"
  let ?s2 = "set_active True (?s1\<lparr>tn_disconnect := False\<rparr>)"
  let ?s3 = "telnet_calls (tc_on_connect (tn_config s)) ?s2"
  have w: "whole_units (NEGOTIATION @ g)" "client_data (NEGOTIATION @ g) = g"
    using whole_units_append [OF whole_negotiation(1), of g] whole_plain [OF assms(6)] whole_negotiation(2) by simp_all
  have "out_inv g s ?s2"
    using assms(3,4) drain_queue_ok [of "tn_tx s"] w by (simp add: out_inv_def set_active_def Let_def)
  then have i3: "out_inv g s ?s3" by (rule out_inv_calls)
  have sv: "telnet_serve e s = do { s \<leftarrow> session_loop e ?p ?s3; s \<leftarrow> drain_output e (set_active False s);
      Some (telnet_calls (tc_on_disconnect (tn_config s)) s) }"
    by (simp add: telnet_serve_def send_all_whole [OF assms(2)] assms(5) set_active_def Let_def)
  obtain s4 where s4: "session_loop e ?p ?s3 = Some s4" using assms(1) unfolding sv by (cases "session_loop e ?p ?s3") simp_all
  have "out_inv g s s4" by (rule session_loop_out [OF i3 assms(2) s4])
  then have "out_inv g s (set_active False s4)" by (simp add: out_inv_def set_active_def Let_def)
  then obtain s5 where s5: "drain_output e (set_active False s4) = Some s5" "out_inv g s s5" "rb_contents (tn_tx s5) = []" "\<not> tn_active s5"
    using drain_output_whole [OF _ assms(2)] by (fastforce simp: set_active_def Let_def)
  let ?s6 = "telnet_calls (tc_on_disconnect (tn_config s5)) s5"
  have "s' = ?s6" using assms(1) unfolding sv s4 by (simp add: s5(1))
  moreover have "out_inv g s ?s6" by (rule out_inv_calls [OF s5(2)])
  ultimately show ?thesis using inactive_calls [OF s5(4)] s5(3) by (auto simp: out_inv_def)
qed

section \<open>What the console reads\<close>

text \<open>What a client sends, as a grammar: data bytes, commands, option requests and subnegotiations.\<close>

datatype token = Data u8 | Command u8 | Opt u8 u8 | Sub bytes

fun encode :: "token \<Rightarrow> bytes" where
  "encode (Data b) = (if b = IAC then [IAC, IAC] else [b])"
| "encode (Command c) = [IAC, c]"
| "encode (Opt c x) = [IAC, c, x]"
| "encode (Sub xs) = [IAC, SB] @ escape xs @ [IAC, SE]"

fun token_ok :: "token \<Rightarrow> bool" where
  "token_ok (Command c) \<longleftrightarrow> c < SB"
| "token_ok (Opt c x) \<longleftrightarrow> WILL \<le> c \<and> c \<le> DONT"
| "token_ok _ \<longleftrightarrow> True"

text \<open>The bytes typed: Enter, which arrives as CR LF or CR NUL, is one CR. The flag: a CR came last.\<close>

fun typed :: "bool \<Rightarrow> token list \<Rightarrow> bytes" where
  "typed cr [] = []"
| "typed cr (Data b # ts) =
     (if b = IAC then b # typed cr ts
      else if cr \<and> (b = 0 \<or> b = 10) then typed False ts
      else b # typed (b = 13) ts)"
| "typed cr (_ # ts) = typed cr ts"

text \<open>The answers: options other than ECHO and SGA are declined, refusals need no answer.\<close>

fun answer :: "token \<Rightarrow> bytes" where
  "answer (Opt c x) =
     (if x = OPT_ECHO \<or> x = OPT_SGA then [] else if c = DO then [IAC, WONT, x] else if c = WILL then [IAC, DONT, x] else [])"
| "answer _ = []"

lemma parse_loop_append:
  "parse_loop e (xs @ ys) p s = (case parse_loop e xs p s of (True, p', s') \<Rightarrow> parse_loop e ys p' s' | (False, p', s') \<Rightarrow> (False, p', s'))"
  by (induction e xs p s rule: parse_loop.induct) (auto split: prod.splits bool.splits)

lemma parse_sub:
  "ps_state p = STATE_SUBNEGOTIATION \<Longrightarrow> parse_loop e (escape xs @ [IAC, SE]) p s = (True, p\<lparr>ps_state := STATE_DATA\<rparr>, s)"
proof (induction xs arbitrary: p)
  case Nil
  then show ?case by (simp add: parse_byte_def)
next
  case (Cons b xs)
  then show ?case using Cons.IH [of p] Cons.IH [of "p\<lparr>ps_state := STATE_SUBNEGOTIATION\<rparr>"] by (simp add: parse_byte_def)
qed

text \<open>One token, for a network that takes the answers.\<close>

lemma parse_token:
  assumes "ps_state p = STATE_DATA" "token_ok tok" "sends_whole e" "ringbuf_ok (tn_rx s)"
  defines "ys \<equiv> typed (ps_after_cr p) [tok]"
  shows "\<exists>p' s'. parse_loop e (encode tok) p s = (True, p', s') \<and> ps_state p' = STATE_DATA \<and> ringbuf_ok (tn_rx s')
    \<and> rb_contents (tn_rx s') = rb_contents (tn_rx s) @ take (rb_room (tn_rx s)) ys \<and> rb_room (tn_rx s') = rb_room (tn_rx s) - length ys
    \<and> tn_wire s' = tn_wire s @ answer tok
    \<and> (\<forall>ts. typed (ps_after_cr p) (tok # ts) = ys @ typed (ps_after_cr p') ts)"
proof (cases tok)
  case (Data b)
  then show ?thesis using assms rx_put_ok [OF assms(4), of b] by (auto simp: parse_byte_def rx_put_def)
next
  case (Command c)
  then have "c \<noteq> IAC" "\<not> WILL \<le> c" "c \<noteq> SB" using assms(2) less_trans [of c SB WILL] by (auto simp: not_le)
  then show ?thesis using assms Command by (simp add: parse_byte_def)
next
  case (Opt c x)
  then have "c \<noteq> IAC" using assms(2) by auto
  then show ?thesis using assms Opt by (auto simp: parse_byte_def decline_def send_all_whole Let_def)
next
  case (Sub xs)
  then show ?thesis using assms parse_sub [of "p\<lparr>ps_state := STATE_SUBNEGOTIATION\<rparr>" e xs s] by (simp add: parse_byte_def)
qed

lemma parse_tokens:
  assumes "ps_state p = STATE_DATA" "list_all token_ok toks" "sends_whole e" "ringbuf_ok (tn_rx s)"
  shows "\<exists>p' s'. parse_loop e (concat (map encode toks)) p s = (True, p', s') \<and> ps_state p' = STATE_DATA \<and> ringbuf_ok (tn_rx s')
    \<and> rb_contents (tn_rx s') = rb_contents (tn_rx s) @ take (rb_room (tn_rx s)) (typed (ps_after_cr p) toks)
    \<and> tn_wire s' = tn_wire s @ concat (map answer toks)"
  using assms
proof (induction toks arbitrary: p s)
  case (Cons tok toks)
  define ys where "ys = typed (ps_after_cr p) [tok]"
  have t: "token_ok tok" "list_all token_ok toks" using Cons.prems(2) by simp_all
  obtain p1 s1 where s1: "parse_loop e (encode tok) p s = (True, p1, s1)" "ps_state p1 = STATE_DATA" "ringbuf_ok (tn_rx s1)"
    "rb_contents (tn_rx s1) = rb_contents (tn_rx s) @ take (rb_room (tn_rx s)) ys" "rb_room (tn_rx s1) = rb_room (tn_rx s) - length ys"
    "tn_wire s1 = tn_wire s @ answer tok" "typed (ps_after_cr p) (tok # toks) = ys @ typed (ps_after_cr p1) toks"
    using parse_token [OF Cons.prems(1) t(1) Cons.prems(3,4), folded ys_def] by blast
  moreover obtain p' s' where "parse_loop e (concat (map encode toks)) p1 s1 = (True, p', s')" "ps_state p' = STATE_DATA" "ringbuf_ok (tn_rx s')"
    "rb_contents (tn_rx s') = rb_contents (tn_rx s1) @ take (rb_room (tn_rx s1)) (typed (ps_after_cr p1) toks)"
    "tn_wire s' = tn_wire s1 @ concat (map answer toks)"
    using Cons.IH [OF s1(2) t(2) Cons.prems(3) s1(3)] by blast
  ultimately show ?case by (simp add: parse_loop_append del: typed.simps)
qed simp

text \<open>The state after the rounds of a session in which the pieces \<open>chunks\<close> arrive.\<close>

definition parse_chunks :: "telnet_env \<Rightarrow> bytes list \<Rightarrow> telnet_server \<Rightarrow> telnet_server" where
  "parse_chunks e chunks s =
     snd (snd (fold (\<lambda>inp (ok, p, s). parse_loop e inp p s) chunks
       (True, \<lparr>ps_state = STATE_DATA, ps_command = 0, ps_after_cr = False\<rparr>, s)))"


section \<open>Writing and lifetime\<close>

text \<open>A delay moves the tick count.\<close>

definition ticking :: "(u64 \<Rightarrow> telnet_server option \<Rightarrow> u64 \<times> telnet_server option) \<Rightarrow> bool" where
  "ticking world \<longleftrightarrow> (\<forall>now server. \<exists>k. 0 < k \<and> k < 2 ^ 63 \<and> fst (world now server) = now + of_nat k)"

lemma write_wait_returns:
  assumes "ticking world"
  shows "\<exists>rest now' server'. write_wait world own start now data server = Some (rest, now', server') \<and> suffix rest data
    \<and> (rest \<noteq> [] \<longrightarrow> own \<or> now' - start \<ge> WRITE_WAIT_TICKS)"
proof (induction "100 - unat (now - start)" arbitrary: now data server rule: less_induct)
  case less
  define queued where "queued = (case server of
      Some s \<Rightarrow> if tn_active s then let (rest, s) = write_queue data s in (rest, \<not> own, Some s) else ([], False, server)
    | None \<Rightarrow> ([], False, server))"
  obtain rest wait sv where q: "queued = (rest, wait, sv)" by (metis prod.exhaust)
  have suf: "suffix rest data" "wait \<longrightarrow> \<not> own" "\<not> wait \<longrightarrow> rest = [] \<or> own"
    using q by (auto simp: queued_def write_queue_def split_beta suffix_drop split: option.splits if_splits)
  have step: "write_wait world own start now data server =
      (if rest = [] \<or> \<not> wait \<or> now - start \<ge> WRITE_WAIT_TICKS then Some (rest, now, sv)
       else let (now, server) = world now sv in write_wait world own start now rest server)"
    using q unfolding queued_def by (subst write_wait.simps) simp
  show ?case
  proof (cases "rest = [] \<or> \<not> wait \<or> now - start \<ge> WRITE_WAIT_TICKS")
    case True
    then show ?thesis using step suf by auto
  next
    case False
    obtain now1 sv1 where w: "world now sv = (now1, sv1)" by (rule prod.exhaust)
    obtain k where k: "0 < k" "k < 2 ^ 63" "now1 = now + of_nat k" using assms w unfolding ticking_def by (metis fst_conv)
    have lt: "unat (now - start) < 100" using False by (simp add: word_less_nat_alt not_le)
    have "now1 - start = (now - start) + of_nat k" using k(3) by simp
    moreover have "unat ((now - start) + of_nat k) = unat (now - start) + k" using unat_add_of_nat [of "now - start" k] lt k(2) by simp
    ultimately have "unat (now1 - start) = unat (now - start) + k" by (simp only:)
    then have "100 - unat (now1 - start) < 100 - unat (now - start)" using lt k(1) by simp
    from less.hyps [OF this, of rest sv1] show ?thesis
      using step False w suf(1) by (auto intro: suffix_order.trans)
  qed
qed

text \<open>
  (C905) A writer is never held up for ever. If every \<open>vTaskDelay(1)\<close> moves the tick count, \<open>telnet_server_write\<close> returns,
  whatever the client and the other tasks do in between. What it gave up is an end of the data, and it gave up only after
  the 100 ms were over, or because the caller is the server task itself.
\<close>

theorem telnet_write_returns:
  assumes "ticking world"
  shows "\<exists>rest now' server'. telnet_server_write world False own data now server = Some (rest, now', server') \<and> suffix rest data
    \<and> (rest \<noteq> [] \<longrightarrow> own \<or> now' - now \<ge> WRITE_WAIT_TICKS)"
  using write_wait_returns [OF assms, of own now now data server] by (simp add: telnet_server_write_def)

inductive telnet_step :: "telnet_ctl \<Rightarrow> telnet_ctl \<Rightarrow> bool" where
  step_start: "telnet_step k (snd (telnet_server_start memory semaphore fd task config k))"
| step_stop: "telnet_step k (telnet_server_stop exits k)"
| step_exit: "telnet_step k (telnet_task_exit k)"
| step_call: "tk_server k = Some s \<Longrightarrow> telnet_step k (k\<lparr>tk_server := Some (telnet_call c s)\<rparr>)"

inductive_simps telnet_step_iff: "telnet_step k k'"

definition telnet_off :: telnet_ctl where
  "telnet_off = \<lparr>tk_server = None, tk_task = False, tk_open = 0\<rparr>"

definition telnet_inv :: "telnet_ctl \<Rightarrow> bool" where
  "telnet_inv k \<longleftrightarrow>
     (case tk_server k of
        None \<Rightarrow> \<not> tk_task k \<and> tk_open k = 0
      | Some s \<Rightarrow> tk_open k = 1 \<and> tk_task k = (\<not> tn_exited s) \<and> (tn_exited s \<longrightarrow> tn_stopping s))"

lemma telnet_call_fields:
  "tn_exited (telnet_call c s) = tn_exited s" "tn_stopping s \<Longrightarrow> tn_stopping (telnet_call c s)"
  by (cases c; auto simp: telnet_call_def telnet_server_read_def telnet_server_disconnect_def write_queue_def split_beta Let_def)+

lemma telnet_stop_inv: "telnet_inv k \<Longrightarrow> telnet_inv (telnet_server_stop exits k)"
  by (cases "tk_server k") (auto simp: telnet_inv_def telnet_server_stop_def telnet_task_exit_def Let_def)

lemma telnet_start_inv: "telnet_inv k \<Longrightarrow> telnet_inv (snd (telnet_server_start memory semaphore fd task config k))"
  by (cases config) (auto simp: telnet_inv_def telnet_server_start_def server_zero_def Let_def split: option.splits)

lemma telnet_step_inv: "telnet_step k k' \<Longrightarrow> telnet_inv k \<Longrightarrow> telnet_inv k'"
proof (induction rule: telnet_step.induct)
  case (step_exit k)
  then show ?case by (cases "tk_server k") (auto simp: telnet_inv_def telnet_task_exit_def)
next
  case (step_call k s c)
  then show ?case by (simp add: telnet_inv_def telnet_call_fields)
qed (auto intro: telnet_stop_inv telnet_start_inv)

lemma telnet_inv_reachable: "telnet_step\<^sup>*\<^sup>* telnet_off k \<Longrightarrow> telnet_inv k"
proof (induction rule: rtranclp_induct)
  case base
  show ?case by (simp add: telnet_inv_def telnet_off_def)
qed (rule telnet_step_inv)

text \<open>
  (C906) The Telnet task never outlives its server, and nothing is leaked. In every state that starts, stops, exits of the
  task and calls from other tasks lead to, a task that runs has its server allocated, exactly the allocated server has a
  listening socket open, and a start that fails leaves everything as it was.
\<close>

theorem telnet_server_lifetime:
  assumes "telnet_step\<^sup>*\<^sup>* telnet_off k"
  shows "(tk_task k \<longrightarrow> telnet_server_is_up k) \<and> tk_open k = (if telnet_server_is_up k then 1 else 0)
    \<and> (case telnet_server_start memory semaphore fd task config k of
         (True, k') \<Rightarrow> tk_task k' \<and> telnet_server_is_up k' \<and> \<not> telnet_server_is_up k
       | (False, k') \<Rightarrow> k' = k)"
  using telnet_inv_reachable [OF assms]
  by (cases config) (auto simp: telnet_inv_def telnet_server_is_up_def telnet_server_start_def Let_def split: option.splits)

section \<open>Concrete runs\<close>

text \<open>A server whose application writes two bytes to a new client and disconnects it.\<close>

definition demo_config :: telnet_config where
  "demo_config = \<lparr>tc_port = 23, tc_stack_words = 0, tc_greeting = Some [72, 105],
     tc_on_connect = [Call_write [62, 255], Call_disconnect], tc_on_disconnect = []\<rparr>"

definition demo_env :: telnet_env where
  "demo_env = \<lparr>te_send = (\<lambda>t n. Some n), te_ready = (\<lambda>t. 0), te_recv = (\<lambda>t. None), te_calls = (\<lambda>t. []), te_accept = (\<lambda>t. False)\<rparr>"

lemma demo_rings:
  "ringbuf_ok (ringbuf_declare TX_QUEUE_SIZE)" "rb_contents (ringbuf_declare TX_QUEUE_SIZE) = []"
  "ringbuf_ok (ringbuf_declare RX_QUEUE_SIZE)" "rb_contents (ringbuf_declare RX_QUEUE_SIZE) = []" "rb_room (ringbuf_declare RX_QUEUE_SIZE) = 128"
  using ringbuf_declare_ok [of TX_QUEUE_SIZE 10] ringbuf_declare_ok [of RX_QUEUE_SIZE 7] by simp_all

lemma demo_sends: "sends_whole demo_env"
  by (simp add: sends_whole_def demo_env_def)

lemma demo_serves: "\<exists>s'. telnet_serve demo_env (server_zero demo_config) = Some s'"
proof -
  let ?s = "set_active True ((server_zero demo_config)\<lparr>tn_time := Suc (Suc 0), tn_wire := NEGOTIATION @ [72, 105], tn_disconnect := False\<rparr>)"
  let ?c = "telnet_calls [Call_write [62, 255], Call_disconnect] ?s"
  have "out_inv [] ?s ?s" using demo_rings drain_queue_ok [OF demo_rings(1)] by (simp add: out_inv_def set_active_def Let_def server_zero_def)
  then have "out_inv [] ?s (set_active False ?c)" using out_inv_calls [of "[]" ?s ?s] by (simp add: out_inv_def set_active_def Let_def)
  then obtain s' where d: "drain_output demo_env (set_active False ?c) = Some s'" using drain_output_whole demo_sends by blast
  have "tn_active ?s" by (simp add: set_active_def Let_def)
  then have "tn_disconnect ?c" by (simp add: telnet_calls_def telnet_call_def telnet_server_disconnect_def write_queue_def split_beta Let_def)
  then have "session_loop demo_env p ?c = Some ?c" for p by (subst session_loop.simps) simp
  moreover have "tc_greeting (tn_config (server_zero demo_config)) = Some [72, 105]"
    "tc_on_connect (tn_config ?s) = [Call_write [62, 255], Call_disconnect]" by (simp_all add: server_zero_def demo_config_def set_active_def)
  moreover have "tn_time (server_zero demo_config) = 0" "tn_wire (server_zero demo_config) = []" by (simp_all add: server_zero_def)
  ultimately show ?thesis using d
    by (simp add: telnet_serve_def send_all_whole [OF demo_sends] Let_def)
qed

theorem telnet_session_output_witness:
  "\<exists>s' w new. telnet_serve demo_env (server_zero demo_config) = Some s' \<and> tn_wire s' = w \<and> tn_queued s' = new \<and> client_data w = [72, 105] @ new"
proof -
  obtain s' where "telnet_serve demo_env (server_zero demo_config) = Some s'" using demo_serves by blast
  moreover have "IAC \<notin> set [72 :: u8, 105]" by simp
  ultimately show ?thesis
    using telnet_session_output [of demo_env "server_zero demo_config" s' "[72, 105]"] demo_sends demo_rings
    by (simp add: server_zero_def demo_config_def)
qed


theorem telnet_write_returns_witness:
  "\<exists>rest now' server'. telnet_server_write (\<lambda>now server. (now + 1, server)) False False [1, 2] 0 None = Some (rest, now', server')"
proof -
  have "ticking (\<lambda>now server. (now + 1, server))" by (auto simp: ticking_def intro: exI [of _ 1])
  from telnet_write_returns [OF this] show ?thesis by metis
qed

theorem telnet_server_lifetime_witness:
  "fst (telnet_server_start True True 3 True (Some demo_config) telnet_off) \<and> tk_open telnet_off = 0"
proof -
  have "telnet_step\<^sup>*\<^sup>* telnet_off telnet_off" by simp
  from telnet_server_lifetime [OF this, of True True 3 True "Some demo_config"] show ?thesis
    by (simp add: telnet_server_start_def telnet_off_def telnet_server_is_up_def Let_def)
qed

end
