(* ===== verification/Soft_Rtc.thy ===== *)
theory Soft_Rtc
  imports Prelude Timer
begin

text \<open>
  The software clock, \<open>src/src/platform/devices/soft_rtc/soft_rtc.c\<close>: seconds counted by a timer interrupt, an offset to
  wall-clock time, and the conversion of a 32-bit Unix time to calendar fields by unsigned arithmetic. The conversion is
  compared with the Gregorian calendar, counted year by year and month by month.
\<close>

section \<open>State and operations\<close>

abbreviation EPOCH_START :: u32 where "EPOCH_START \<equiv> 1767225600"

record soft_rtc =
  rt_uptime_seconds :: u32
  rt_epoch_offset   :: u32

record rtc_datetime =
  dt_year   :: u16
  dt_month  :: u8
  dt_day    :: u8
  dt_hour   :: u8
  dt_minute :: u8
  dt_second :: u8

definition rtc_isr :: "soft_rtc \<Rightarrow> soft_rtc" where
  "rtc_isr r = r\<lparr>rt_uptime_seconds := rt_uptime_seconds r + 1\<rparr>"

definition rtc_get_uptime :: "soft_rtc \<Rightarrow> u32" where
  "rtc_get_uptime r = rt_uptime_seconds r"

definition rtc_set_time :: "u32 \<Rightarrow> soft_rtc \<Rightarrow> soft_rtc" where
  "rtc_set_time unix_timestamp r = r\<lparr>rt_epoch_offset := unix_timestamp - rt_uptime_seconds r\<rparr>"

definition rtc_get_time :: "soft_rtc \<Rightarrow> u32" where
  "rtc_get_time r = rt_epoch_offset r + rt_uptime_seconds r"

text \<open>\<open>isr\<close> is the address of \<open>rtc_isr\<close>; \<open>None\<close> is a failed assertion.\<close>

definition rtc_init :: "nat \<Rightarrow> timers \<times> soft_rtc \<Rightarrow> (timers \<times> soft_rtc) option" where
  "rtc_init isr = (\<lambda>(tm, r). do {
     (timer, tm) \<leftarrow> timer_create_by_freq 1 (Some isr) False tm;
     tm \<leftarrow> (case timer of None \<Rightarrow> None | Some i \<Rightarrow> timer_start (int i) tm);
     Some (tm, rtc_set_time EPOCH_START r)
   })"

definition rtc_time_to_datetime :: "u32 \<Rightarrow> rtc_datetime" where
  "rtc_time_to_datetime unix_time =
     (let days = unix_time div 86400;
          secs = unix_time mod 86400;
          z = days + 719468;
          era = z div 146097;
          doe = z - era * 146097;
          yoe = (doe - doe div 1460 + doe div 36524 - doe div 146096) div 365;
          y = yoe + era * 400;
          doy = doe - (365 * yoe + yoe div 4 - yoe div 100);
          mp = (5 * doy + 2) div 153;
          d = doy - (153 * mp + 2) div 5 + 1;
          m = mp + (if mp < 10 then 3 else - 9)
      in \<lparr>dt_year = ucast (y + (if m \<le> 2 then 1 else 0)), dt_month = ucast m, dt_day = ucast d,
          dt_hour = ucast (secs div 3600), dt_minute = ucast (secs mod 3600 div 60), dt_second = ucast (secs mod 60)\<rparr>)"

definition rtc_get_datetime :: "soft_rtc \<Rightarrow> rtc_datetime" where
  "rtc_get_datetime r = rtc_time_to_datetime (rtc_get_time r)"

section \<open>The calendar\<close>

definition leap :: "nat \<Rightarrow> bool" where
  "leap y \<longleftrightarrow> 4 dvd y \<and> (\<not> 100 dvd y \<or> 400 dvd y)"

definition month_len :: "nat \<Rightarrow> nat \<Rightarrow> nat" where
  "month_len y m = [31, if leap y then 29 else 28, 31, 30, 31, 30, 31, 31, 30, 31, 30, 31] ! (m - 1)"

text \<open>The days from 1 January 1970 to a date.\<close>

definition civil_days :: "nat \<Rightarrow> nat \<Rightarrow> nat \<Rightarrow> nat" where
  "civil_days y m d =
     sum_list (map (\<lambda>i. if leap i then 366 else 365) [1970..<y]) + sum_list (map (month_len y) [1..<m]) + (d - 1)"

section \<open>The steps of the conversion\<close>

definition yoe_of :: "int \<Rightarrow> int" where
  "yoe_of doe = (doe - doe div 1460 + doe div 36524 - doe div 146096) div 365"

definition year_start :: "int \<Rightarrow> int" where
  "year_start yoe = 365 * yoe + yoe div 4 - yoe div 100"

definition year_ends_ok :: "int \<Rightarrow> bool" where
  "year_ends_ok y \<longleftrightarrow> yoe_of (year_start y) = y \<and> yoe_of (year_start (y + 1) - 1) = y
     \<and> (let n = year_start (y + 1) - year_start y in n = 365 \<or> n = 366 \<and> (y + 1) mod 4 = 0 \<and> (y + 1) mod 100 \<noteq> 0)"

text \<open>The first and the last day of each of the 400 years of an era, by evaluation; the days between by monotonicity.\<close>

lemma year_ends: "list_all year_ends_ok [0..399]"
  by code_simp

lemma year_ends_at: "0 \<le> y \<Longrightarrow> y \<le> 399 \<Longrightarrow> year_ends_ok y"
  using year_ends by (simp add: list_all_iff)

lemma yoe_of_mono:
  assumes "0 \<le> a" "a \<le> b" "b \<le> 146095"
  shows "yoe_of a \<le> yoe_of b"
proof -
  have "b div 1460 \<le> a div 1460 + (b - a)"
    using mult_div_mod_eq [of 1460 a] mult_div_mod_eq [of 1460 b] pos_mod_bound [of 1460 a] pos_mod_sign [of 1460 b] assms(2) by linarith
  moreover have "a div 36524 \<le> b div 36524" using assms(2) by (rule zdiv_mono1) simp
  moreover have "a div 146096 = 0" "b div 146096 = 0" using assms by (intro div_pos_pos_trivial; linarith)+
  ultimately have "a - a div 1460 + a div 36524 - a div 146096 \<le> b - b div 1460 + b div 36524 - b div 146096" by linarith
  then show ?thesis unfolding yoe_of_def by (rule zdiv_mono1) simp
qed

text \<open>The year of a day of the era.\<close>

lemma year_of_day:
  assumes "0 \<le> doe" "doe < 146097"
  defines "y \<equiv> yoe_of doe"
  shows "0 \<le> y" "y \<le> 399" "year_start y \<le> doe" "doe \<le> year_start y + 365"
    and "doe = year_start y + 365 \<Longrightarrow> y = 399 \<or> (y + 1) mod 4 = 0 \<and> (y + 1) mod 100 \<noteq> 0"
proof -
  have last: "yoe_of 146096 = 399" "year_start 399 = 145731" "yoe_of 146095 = 399" "yoe_of 0 = 0" by code_simp+
  have all: "0 \<le> y \<and> y \<le> 399 \<and> year_start y \<le> doe \<and> doe \<le> year_start y + 365
    \<and> (doe = year_start y + 365 \<longrightarrow> y = 399 \<or> (y + 1) mod 4 = 0 \<and> (y + 1) mod 100 \<noteq> 0)"
  proof (cases "doe = 146096")
    case True
    then show ?thesis using last by (simp add: y_def)
  next
    case False
    then have le: "doe \<le> 146095" using assms(2) by simp
    have r: "0 \<le> y" "y \<le> 399" using yoe_of_mono [of 0 doe] yoe_of_mono [of doe 146095] assms(1) le last by (simp_all add: y_def)
    have lo: "year_start y \<le> doe"
    proof (rule ccontr)
      assume "\<not> ?thesis"
      then have lt: "doe \<le> year_start y - 1" by simp
      show False
      proof (cases "y = 0")
        case True
        then show False using lt assms(1) by (simp add: year_start_def)
      next
        case pos: False
        then have e: "yoe_of (year_start y - 1) = y - 1" "yoe_of (year_start y) = y"
          using year_ends_at [of "y - 1"] year_ends_at [of y] r by (simp_all add: year_ends_ok_def)
        have "year_start y \<le> 146095" if "\<not> year_start y - 1 \<le> 146095"
          using that r last by (simp add: year_start_def)
        then have "year_start y - 1 \<le> 146095" by linarith
        then have "y \<le> y - 1" using yoe_of_mono [OF assms(1) lt] e by (simp add: y_def)
        then show False by simp
      qed
    qed
    have hi: "doe < year_start (y + 1)" if "y \<noteq> 399"
    proof (rule ccontr)
      assume "\<not> ?thesis"
      then have "yoe_of (year_start (y + 1)) \<le> y" using yoe_of_mono [of "year_start (y + 1)" doe] le r by (simp add: y_def year_start_def)
      then show False using year_ends_at [of "y + 1"] that r by (simp add: year_ends_ok_def)
    qed
    have n: "year_start (y + 1) - year_start y = 365 \<or> year_start (y + 1) - year_start y = 366 \<and> (y + 1) mod 4 = 0 \<and> (y + 1) mod 100 \<noteq> 0"
      using year_ends_at [OF r] by (simp add: year_ends_ok_def Let_def)
    show ?thesis
    proof (cases "y = 399")
      case True
      then show ?thesis using last le lo by simp
    next
      case False
      then show ?thesis using hi n r lo by auto
    qed
  qed
  show "0 \<le> y" "y \<le> 399" "year_start y \<le> doe" "doe \<le> year_start y + 365" using all by simp_all
  show "doe = year_start y + 365 \<Longrightarrow> y = 399 \<or> (y + 1) mod 4 = 0 \<and> (y + 1) mod 100 \<noteq> 0" using all by simp
qed

text \<open>The months, from March on.\<close>

definition month_start :: "int \<Rightarrow> int" where
  "month_start mp = (153 * mp + 2) div 5"

definition march_len :: "int \<Rightarrow> int" where
  "march_len mp = (if mp \<in> {1, 3, 6, 8} then 30 else if mp = 11 then 29 else 31)"

definition month_of_ok :: "int \<Rightarrow> bool" where
  "month_of_ok doy \<longleftrightarrow> (let mp = (5 * doy + 2) div 153
     in 0 \<le> mp \<and> mp \<le> 11 \<and> month_start mp \<le> doy \<and> doy < month_start mp + march_len mp)"

lemma months: "list_all month_of_ok [0..365]"
  by code_simp

lemma month_of_day: "0 \<le> doy \<Longrightarrow> doy \<le> 365 \<Longrightarrow> month_of_ok doy"
  using months by (simp add: list_all_iff)

section \<open>Counting days\<close>

definition leaps :: "nat \<Rightarrow> int" where
  "leaps y = int (y div 4) - int (y div 100) + int (y div 400)"

lemma leaps_Suc: "leaps (Suc m) = leaps m + (if leap (Suc m) then 1 else 0)"
proof -
  define a b c where "a \<longleftrightarrow> 4 dvd Suc m" and "b \<longleftrightarrow> 100 dvd Suc m" and "c \<longleftrightarrow> 400 dvd Suc m"
  define p q r where "p = m div 4" and "q = m div 100" and "r = m div 400"
  have imp: "b \<longrightarrow> a" "c \<longrightarrow> b" using dvd_trans [of 4 100 "Suc m"] dvd_trans [of 100 400 "Suc m"] by (simp_all add: a_def b_def c_def)
  have d: "Suc m div k = m div k + (if k dvd Suc m then 1 else 0)" for k
    using div_Suc [of m k] by (metis Suc_eq_plus1 add_0_right mod_eq_0_iff_dvd)
  have "leap (Suc m) \<longleftrightarrow> a \<and> (\<not> b \<or> c)" by (simp only: leap_def a_def b_def c_def)
  moreover have "leaps (Suc m) = int (p + (if a then 1 else 0)) - int (q + (if b then 1 else 0)) + int (r + (if c then 1 else 0))"
    by (simp only: leaps_def d a_def b_def c_def p_def q_def r_def)
  moreover have "leaps m = int p - int q + int r" by (simp only: leaps_def p_def q_def r_def)
  ultimately show ?thesis using imp by (cases a; cases b; cases c) simp_all
qed

lemma year_days:
  "1969 \<le> m \<Longrightarrow> int (sum_list (map (\<lambda>i. if leap i then 366 else 365) [1970..<Suc m])) = 365 * (int m - 1969) + leaps m - 477"
proof (induction m rule: nat_induct_at_least)
  case base
  have e: "[1970..<Suc 1969] = []" by (simp only: upt_conv_Nil)
  have l: "leaps 1969 = 477" by (simp add: leaps_def)
  show ?case unfolding e l by simp
next
  case (Suc m)
  then have "1970 \<le> Suc m" by simp
  then have "[1970..<Suc (Suc m)] = [1970..<Suc m] @ [Suc m]" by (rule upt_Suc_append)
  then show ?case using Suc.IH leaps_Suc [of m] by (simp only: map_append sum_list_append) simp
qed

lemma leaps_era:
  assumes "0 \<le> e" "0 \<le> y" "y \<le> 399"
  shows "leaps (nat (y + e * 400)) = 97 * e + y div 4 - y div 100"
proof -
  have n: "nat (y + e * 400) = nat y + 400 * nat e" using assms by (simp add: nat_add_distrib nat_mult_distrib)
  have "nat y div 400 = 0" using assms by (intro div_less) simp
  then have "(nat y + 400 * nat e) div 400 = nat e" using div_mult_self2 [of 400 "nat y" "nat e"] by (simp only: add_0_right)
  moreover have "(nat y + 400 * nat e) div 4 = nat y div 4 + 100 * nat e" "(nat y + 400 * nat e) div 100 = nat y div 100 + 4 * nat e"
    using div_mult_self2 [of 4 "nat y" "100 * nat e"] div_mult_self2 [of 100 "nat y" "4 * nat e"] by simp_all
  ultimately show ?thesis using assms unfolding n leaps_def by (simp add: zdiv_int)
qed

text \<open>The days of the months before a month, from the start of the year.\<close>

lemma month_days:
  assumes "0 \<le> mp" "mp \<le> 11"
  shows "int (sum_list (map (month_len y) [1..<nat (mp + (if mp < 10 then 3 else - 9))])) =
      month_start mp + (if mp < 10 then 59 + (if leap y then 1 else 0) else - 306)"
    and "month_len y (nat (mp + (if mp < 10 then 3 else - 9))) = nat (if mp = 11 \<and> \<not> leap y then 28 else march_len mp)"
proof -
  have upt1: "[1..<m] = 1 # [2..<m]" if "1 < m" for m :: nat using upt_conv_Cons [OF that] by (simp add: numeral_2_eq_2)
  have mp: "mp = 0 \<or> mp = 1 \<or> mp = 2 \<or> mp = 3 \<or> mp = 4 \<or> mp = 5 \<or> mp = 6 \<or> mp = 7 \<or> mp = 8 \<or> mp = 9 \<or> mp = 10 \<or> mp = 11"
    using assms by presburger
  show "int (sum_list (map (month_len y) [1..<nat (mp + (if mp < 10 then 3 else - 9))])) =
      month_start mp + (if mp < 10 then 59 + (if leap y then 1 else 0) else - 306)"
    using mp by (elim disjE) (simp_all add: upt1 month_len_def month_start_def del: One_nat_def)
  show "month_len y (nat (mp + (if mp < 10 then 3 else - 9))) = nat (if mp = 11 \<and> \<not> leap y then 28 else march_len mp)"
    using mp by (elim disjE) (simp_all add: month_len_def march_len_def)
qed

text \<open>The date of a day counted from 1 March of the year 0.\<close>

definition civil_of :: "int \<Rightarrow> int \<times> int \<times> int" where
  "civil_of z =
     (let era = z div 146097; doe = z mod 146097; yoe = yoe_of doe; doy = doe - year_start yoe; mp = (5 * doy + 2) div 153;
          m = mp + (if mp < 10 then 3 else - 9)
      in (yoe + era * 400 + (if m \<le> 2 then 1 else 0), m, doy - month_start mp + 1))"

lemma leap_shift:
  assumes "int k = 400 \<or> int (k mod 4) = 0 \<and> int (k mod 100) \<noteq> 0"
  shows "leap (k + 400 * e)"
proof -
  have "4 dvd 400 * e" "100 dvd 400 * e" "400 dvd 400 * e" by (rule dvd_mult2, simp)+
  then have "leap (k + 400 * e) \<longleftrightarrow> leap k" by (simp only: leap_def dvd_add_left_iff)
  moreover have "leap k" using assms by (auto simp: leap_def mod_eq_0_iff_dvd [symmetric] of_nat_eq_0_iff)
  ultimately show ?thesis by simp
qed

lemma civil_of_exact:
  assumes "719468 \<le> z" "civil_of z = (y, m, d)"
  shows "1970 \<le> y" "1 \<le> m" "m \<le> 12" "1 \<le> d" "nat d \<le> month_len (nat y) (nat m)" "int (civil_days (nat y) (nat m) (nat d)) = z - 719468"
    and "y \<le> 400 * (z div 146097) + 400"
proof -
  define era doe yoe doy mp where "era = z div 146097" and "doe = z mod 146097" and "yoe = yoe_of doe" and "doy = doe - year_start yoe"
    and "mp = (5 * doy + 2) div 153"
  have z: "z = 146097 * era + doe" "0 \<le> doe" "doe < 146097" by (simp_all add: era_def doe_def)
  have era: "4 \<le> era" using zdiv_mono1 [of "719468" z 146097] assms(1) by (simp add: era_def)
  note yo = year_of_day [OF z(2,3), folded yoe_def]
  have doy: "0 \<le> doy" "doy \<le> 365" "doe = year_start yoe + doy" using yo by (simp_all add: doy_def)
  have mp: "0 \<le> mp" "mp \<le> 11" "month_start mp \<le> doy" "doy < month_start mp + march_len mp"
    using month_of_day [OF doy(1,2)] by (simp_all add: month_of_ok_def Let_def mp_def)
  define ym where "ym = nat (yoe + era * 400)"
  have "369 \<le> yoe" if "era = 4"
  proof (cases "doe = 146096")
    case True
    moreover have "yoe_of 146096 = 399" by code_simp
    ultimately show ?thesis by (simp add: yoe_def)
  next
    case False
    then have "yoe_of 135080 \<le> yoe" using yoe_of_mono [of 135080 doe] z assms(1) that by (simp add: yoe_def)
    moreover have "yoe_of 135080 = 369" by code_simp
    ultimately show ?thesis by simp
  qed
  then have ym: "int ym = yoe + era * 400" "1969 \<le> ym" using yo(1) era by (cases "era = 4"; simp add: ym_def)+
  have lp: "leaps ym = 97 * era + yoe div 4 - yoe div 100" using leaps_era [of era yoe] yo era by (simp add: ym_def)
  have days: "z - 719468 = 365 * int ym + leaps ym + doy - 719468" using z(1) doy(3) lp ym(1) by (simp add: year_start_def)
  have res: "y = int ym + (if mp < 10 then 0 else 1)" "m = mp + (if mp < 10 then 3 else - 9)" "d = doy - month_start mp + 1"
    using assms(2) mp(1,2) unfolding civil_of_def Let_def era_def [symmetric] doe_def [symmetric] yoe_def [symmetric] doy_def [symmetric] mp_def [symmetric] ym(1)
    by (auto split: if_splits)
  have early: "doy < 306" if "mp < 10"
  proof -
    have "month_start mp \<le> month_start 9" unfolding month_start_def using that by (intro zdiv_mono1) simp_all
    moreover have "march_len mp \<le> 31" by (simp add: march_len_def)
    ultimately show ?thesis using mp(4) by (simp add: month_start_def)
  qed
  have l1969: "leaps 1969 = 477" by (simp add: leaps_def)
  show y1970: "1970 \<le> y"
  proof (cases "ym = 1969 \<and> mp < 10")
    case True
    then show ?thesis using days l1969 early assms(1) by simp
  next
    case False
    then show ?thesis using res(1) ym(2) by auto
  qed
  have lp29: "leap (nat y)" if "mp = 11" "doy = 365"
  proof -
    obtain k where k: "yoe + 1 = int k" using yo(1) by (metis add_increasing2 zero_le_one nonneg_int_cases)
    then have "nat y = k + 400 * nat era" using res(1) that ym(1) era by simp
    moreover have "yoe = 399 \<or> (yoe + 1) mod 4 = 0 \<and> (yoe + 1) mod 100 \<noteq> 0" using yo(5) doy(3) that(2) by simp
    ultimately show ?thesis using leap_shift [of k "nat era"] k by (auto simp: zmod_int)
  qed
  show "1 \<le> m" "m \<le> 12" "1 \<le> d" using res mp by (auto split: if_splits)
  show "y \<le> 400 * (z div 146097) + 400" using res(1) ym(1) yo(2) by (simp add: era_def)
  have "d \<le> (if mp = 11 \<and> \<not> leap (nat y) then 28 else march_len mp)"
  proof (cases "mp = 11 \<and> \<not> leap (nat y)")
    case True
    then have "doy \<noteq> 365" using lp29 by blast
    then show ?thesis using True res(3) doy(2) by (simp add: month_start_def)
  next
    case False
    then show ?thesis using mp(4) res(3) by auto
  qed
  then show "nat d \<le> month_len (nat y) (nat m)" unfolding res(2) month_days(2) [OF mp(1,2)] by simp
  have sums: "int (sum_list (map (\<lambda>i. if leap i then 366 else 365) [1970..<nat y])) + int (sum_list (map (month_len (nat y)) [1..<nat m]))
      = 365 * int ym + leaps ym + month_start mp - 719468"
  proof (cases "mp < 10")
    case True
    then obtain n where n: "ym = Suc n" "nat y = Suc n" "1969 \<le> n" using res(1) y1970 ym(2) by (cases ym) auto
    then show ?thesis using year_days [OF n(3)] month_days(1) [OF mp(1,2), of "nat y"] leaps_Suc [of n] True unfolding res(2) n by simp
  next
    case False
    then have "nat y = Suc ym" using res(1) by simp
    then show ?thesis using year_days [OF ym(2)] month_days(1) [OF mp(1,2), of "nat y"] False unfolding res(2) by simp
  qed
  show "int (civil_days (nat y) (nat m) (nat d)) = z - 719468"
    using sums days res(3) mp(3) unfolding civil_days_def by simp
qed

section \<open>The machine arithmetic\<close>

lemma uint_of_int32: "0 \<le> a \<Longrightarrow> a < 2 ^ 32 \<Longrightarrow> uint (of_int a :: u32) = a"
  by (simp add: unsigned_of_int take_bit_int_eq_self)

lemma of_int_div32: "0 \<le> a \<Longrightarrow> a < 2 ^ 32 \<Longrightarrow> 0 \<le> b \<Longrightarrow> b < 2 ^ 32 \<Longrightarrow> (of_int a :: u32) div of_int b = of_int (a div b)"
  by (simp add: word_div_def uint_of_int32)

lemma ucast_of_int: "0 \<le> a \<Longrightarrow> a < 2 ^ 32 \<Longrightarrow> ucast (of_int a :: u32) = (of_int a :: 'a::len word)"
  using of_int_uint [of "of_int a :: u32", where 'a = "'a word"] uint_of_int32 [of a] by simp

lemma div_bounds:
  fixes a k :: int
  assumes "0 \<le> a" "0 < k"
  shows "0 \<le> a div k" "a div k \<le> a"
  using assms zdiv_mono2 [of a 1 k] by (simp_all add: pos_imp_zdiv_nonneg_iff)

lemma yoe_numerator:
  fixes doe :: int
  assumes "0 \<le> doe" "doe < 146097"
  defines "n \<equiv> doe - doe div 1460 + doe div 36524 - doe div 146096"
  shows "0 \<le> n" "n < 2 ^ 32"
proof -
  define q1 q2 q3 where "q1 = doe div 1460" and "q2 = doe div 36524" and "q3 = doe div 146096"
  have "0 \<le> q1" "q1 \<le> doe" "0 \<le> q2" "q2 \<le> doe" "0 \<le> q3" using div_bounds [OF assms(1)] by (simp_all add: q1_def q2_def q3_def)
  moreover have "q3 \<le> q2" using zdiv_mono2 [of doe 36524 146096] assms(1) by (simp add: q2_def q3_def)
  ultimately have "0 \<le> n" "n < 300000"
    using assms(2) unfolding n_def q1_def [symmetric] q2_def [symmetric] q3_def [symmetric] by linarith+
  then show "0 \<le> n" "n < 2 ^ 32" by simp_all
qed

text \<open>The day number of a 32-bit time.\<close>

lemma day_number:
  assumes "z = uint (t :: u32) div 86400 + 719468"
  shows "719468 \<le> z" "z < 800000" "z div 146097 \<le> 5"
proof -
  have "uint t < 2 ^ LENGTH(32)" "0 \<le> uint t" by (rule uint_lt2p, rule uint_ge_0)
  then have "uint t div 86400 \<le> 4294967296 div 86400" by (intro zdiv_mono1) simp_all
  moreover have "0 \<le> uint t div 86400" using div_bounds(1) [of "uint t" 86400] by simp
  ultimately show z: "719468 \<le> z" "z < 800000" unfolding assms by simp_all
  then show "z div 146097 \<le> 5" using zdiv_mono1 [of z 800000 146097] by simp
qed

lemma rtc_date:
  assumes "z = uint t div 86400 + 719468" "civil_of z = (y, m, d)"
  shows "dt_year (rtc_time_to_datetime t) = of_int y \<and> dt_month (rtc_time_to_datetime t) = of_int m \<and> dt_day (rtc_time_to_datetime t) = of_int d"
proof -
  define era doe yoe doy mp where "era = z div 146097" and "doe = z mod 146097" and "yoe = yoe_of doe" and "doy = doe - year_start yoe"
    and "mp = (5 * doy + 2) div 153"
  note z = day_number [OF assms(1)]
  have era: "0 \<le> era" "era \<le> 5" "z - era * 146097 = doe" "0 \<le> doe" "doe < 146097"
    using z div_bounds(1) [of z 146097] by (simp_all add: era_def doe_def minus_div_mult_eq_mod)
  note yo = year_of_day [OF era(4,5), folded yoe_def]
  have doy: "0 \<le> doy" "doy \<le> 365" "doe - year_start yoe = doy" using yo by (simp_all add: doy_def)
  have mp: "0 \<le> mp" "mp \<le> 11" "month_start mp \<le> doy" using month_of_day [OF doy(1,2)] by (simp_all add: month_of_ok_def Let_def mp_def)
  let ?W = "of_int :: int \<Rightarrow> u32"
  have w1: "t div 86400 + 719468 = ?W z" using assms(1) by (simp add: word_div_def)
  have w2: "?W z div 146097 = ?W era" using of_int_div32 [of z 146097] z by (simp add: era_def)
  have w3: "?W z - ?W era * 146097 = ?W doe" unfolding era(3) [symmetric] by simp
  have w4: "?W doe div 1460 = ?W (doe div 1460)" "?W doe div 36524 = ?W (doe div 36524)" "?W doe div 146096 = ?W (doe div 146096)"
    using of_int_div32 [of doe 1460] of_int_div32 [of doe 36524] of_int_div32 [of doe 146096] era(4,5) by simp_all
  have w5: "(?W doe - ?W (doe div 1460) + ?W (doe div 36524) - ?W (doe div 146096)) div 365 = ?W yoe"
    using of_int_div32 [OF yoe_numerator [OF era(4,5)], of 365] by (simp add: yoe_def yoe_of_def)
  have w6: "?W yoe div 4 = ?W (yoe div 4)" "?W yoe div 100 = ?W (yoe div 100)"
    using of_int_div32 [of yoe 4] of_int_div32 [of yoe 100] yo(1,2) by simp_all
  have w7: "?W doe - (365 * ?W yoe + ?W (yoe div 4) - ?W (yoe div 100)) = ?W doy" unfolding doy(3) [symmetric] year_start_def by simp
  have w8: "(5 * ?W doy + 2) div 153 = ?W mp" using of_int_div32 [of "5 * doy + 2" 153] doy by (simp add: mp_def)
  have w9: "(153 * ?W mp + 2) div 5 = ?W (month_start mp)" using of_int_div32 [of "153 * mp + 2" 5] mp by (simp add: month_start_def)
  have lt: "?W mp < 10 \<longleftrightarrow> mp < 10" using mp by (simp add: word_less_alt uint_of_int32)
  define m' where "m' = mp + (if mp < 10 then 3 else - 9)"
  have m': "?W mp + (if mp < 10 then 3 else - 9) = ?W m'" "0 \<le> m'" "m' \<le> 12" using mp by (auto simp: m'_def)
  have le: "?W m' \<le> 2 \<longleftrightarrow> m' \<le> 2" using m'(2,3) by (simp add: word_le_def uint_of_int32)
  have ymd: "y = yoe + era * 400 + (if m' \<le> 2 then 1 else 0)" "m = m'" "d = doy - month_start mp + 1"
    using assms(2) unfolding civil_of_def Let_def era_def [symmetric] doe_def [symmetric] yoe_def [symmetric] doy_def [symmetric] mp_def [symmetric] m'_def [symmetric]
    by auto
  have b: "0 \<le> y" "y < 2 ^ 32" "0 \<le> m" "m < 2 ^ 32" "0 \<le> d" "d < 2 ^ 32" using ymd yo(1,2) era(1,2) m' mp(3) doy(2) mp(1)
    by (auto simp: month_start_def)
  have "?W yoe + ?W era * 400 + (if m' \<le> 2 then 1 else 0) = ?W y" "?W doy - ?W (month_start mp) + 1 = ?W d" by (simp_all add: ymd)
  then show ?thesis using b ymd(2)
    by (simp only: rtc_time_to_datetime_def Let_def w1 w2 w3 w4 w5 w6 w7 w8 w9 lt m'(1) le rtc_datetime.simps ucast_of_int)
qed

lemma month_len_le: "1 \<le> m \<Longrightarrow> m \<le> 12 \<Longrightarrow> month_len y m \<le> 31"
proof -
  assume m: "1 \<le> m" "m \<le> 12"
  let ?xs = "[31, if leap y then 29 else 28, 31, 30, 31, 30, 31, 31, 30, 31, 30, 31 :: nat]"
  have "?xs ! (m - 1) \<in> set ?xs" using m by (intro nth_mem) simp
  moreover have "\<forall>x \<in> set ?xs. x \<le> 31" by simp
  ultimately show ?thesis unfolding month_len_def by blast
qed

lemma unat_of_int: "0 \<le> a \<Longrightarrow> nat a < 2 ^ LENGTH('a) \<Longrightarrow> unat (of_int a :: 'a::len word) = nat a"
  by (metis int_nat_eq of_int_of_nat_eq mod_less unat_of_nat)

lemma time_of_day:
  fixes T :: nat
  defines "s \<equiv> T mod 86400"
  shows "s div 3600 < 24" "s mod 3600 div 60 < 60" "T div 86400 * 86400 + s div 3600 * 3600 + s mod 3600 div 60 * 60 + s mod 60 = T"
proof -
  show "s div 3600 < 24" by (simp add: s_def less_mult_imp_div_less)
  show "s mod 3600 div 60 < 60" by (simp add: less_mult_imp_div_less)
  have "s mod 3600 mod 60 = s mod 60" by (rule mod_mod_cancel) simp
  then have "s mod 3600 div 60 * 60 + s mod 60 = s mod 3600" by (metis div_mult_mod_eq)
  moreover have "s div 3600 * 3600 + s mod 3600 = s" by (rule div_mult_mod_eq)
  moreover have "T div 86400 * 86400 + s = T" unfolding s_def by (rule div_mult_mod_eq)
  ultimately show "T div 86400 * 86400 + s div 3600 * 3600 + s mod 3600 div 60 * 60 + s mod 60 = T" by (simp only: add.assoc)
qed

lemma rtc_time:
  fixes t :: u32
  defines "dt \<equiv> rtc_time_to_datetime t" and "s \<equiv> unat t mod 86400"
  shows "unat (dt_hour dt) = s div 3600 \<and> unat (dt_minute dt) = s mod 3600 div 60 \<and> unat (dt_second dt) = s mod 60"
proof -
  have u: "unat (ucast x :: u8) = unat x" if "unat x < 256" for x :: u32 using that by (simp add: unsigned_ucast_eq take_bit_nat_eq_self)
  have w: "unat (t mod 86400 div 3600) = s div 3600" "unat (t mod 86400 mod 3600 div 60) = s mod 3600 div 60" "unat (t mod 86400 mod 60) = s mod 60"
    by (simp_all add: unat_mod unat_div s_def)
  have b: "s div 3600 < 256" "s mod 3600 div 60 < 256" "s mod 60 < 256"
    using time_of_day(1,2) [of "unat t", folded s_def] pos_mod_bound by (simp_all add: less_trans [of "s mod 60" 60])
  show ?thesis unfolding dt_def rtc_time_to_datetime_def Let_def rtc_datetime.simps
    using u [of "t mod 86400 div 3600"] u [of "t mod 86400 mod 3600 div 60"] u [of "t mod 86400 mod 60"] b unfolding w by blast
qed

text \<open>(C17) 
  (C907) The calendar of the software clock is the Gregorian one. For every 32-bit Unix time, although the conversion
  only divides and multiplies 32-bit unsigned numbers, the fields it returns are in range, the day exists in its month,
  and counting the days of the years and months since 1 January 1970 with the leap-year rule gives back the time.
\<close>

theorem rtc_datetime_exact:
  "let dt = rtc_time_to_datetime t; y = unat (dt_year dt); m = unat (dt_month dt); d = unat (dt_day dt)
   in 1970 \<le> y \<and> m \<in> {1..12} \<and> d \<in> {1..month_len y m} \<and> unat (dt_hour dt) < 24 \<and> unat (dt_minute dt) < 60 \<and> unat (dt_second dt) < 60
      \<and> civil_days y m d * 86400 + unat (dt_hour dt) * 3600 + unat (dt_minute dt) * 60 + unat (dt_second dt) = unat t"
proof -
  define z where "z = uint t div 86400 + 719468"
  obtain y m d where c: "civil_of z = (y, m, d)" by (metis prod.exhaust)
  note z = day_number [OF z_def]
  note x = civil_of_exact [OF z(1) c]
  obtain era where "era = z div 146097" by blast
  then have "y \<le> 400 * era + 400" "era \<le> 5" using x(7) z(3) by simp_all
  then have y: "y \<le> 2400" by linarith
  have ml: "month_len (nat y) (nat m) \<le> 31" using x(2,3) by (intro month_len_le) simp_all
  have b: "nat y < 2 ^ LENGTH(16)" "nat m < 2 ^ LENGTH(8)" "nat d < 2 ^ LENGTH(8)"
    using y x(3,5) ml by simp_all
  have f: "unat (dt_year (rtc_time_to_datetime t)) = nat y" "unat (dt_month (rtc_time_to_datetime t)) = nat m" "unat (dt_day (rtc_time_to_datetime t)) = nat d"
    using rtc_date [OF z_def c] x unat_of_int [OF _ b(1)] unat_of_int [OF _ b(2)] unat_of_int [OF _ b(3)] by simp_all
  have "int (civil_days (nat y) (nat m) (nat d)) = int (unat t div 86400)" using x(6) by (simp add: z_def zdiv_int)
  then have cd: "civil_days (nat y) (nat m) (nat d) = unat t div 86400" by simp
  have "1970 \<le> nat y" "nat m \<in> {1..12}" "nat d \<in> {1..month_len (nat y) (nat m)}" using x(1-5) by auto
  then show ?thesis using time_of_day [of "unat t"] rtc_time [of t] unfolding Let_def f cd by simp
qed

text \<open>The clock keeps time: after the time was set, each second's interrupt adds one to it, across the wrap of the uptime.\<close>

theorem rtc_keeps_time: "rtc_get_time ((rtc_isr ^^ n) (rtc_set_time t r)) = t + of_nat n"
proof (induction n)
  case 0
  show ?case by (simp add: rtc_get_time_def rtc_set_time_def)
next
  case (Suc n)
  then show ?case by (simp add: rtc_get_time_def rtc_isr_def algebra_simps)
qed

end
