(* ===== verification/I2c.thy ===== *)
theory I2c
  imports Intc Gpio
begin

text \<open>
  The I2C driver, \<open>src/src/platform/drivers/hardware_i2c/i2c1.c\<close>: an interrupt handler that moves a transfer along byte by
  byte, and the call that starts it and waits. The bus and the slave behind it are a step of the hardware that raises the
  interrupt: it sends the byte in the data register and reports whether it was acknowledged, or receives one. The caller's
  buffer is a list, and an access outside it is \<open>None\<close>.
\<close>

section \<open>Registers and state\<close>

record i2c1_config =
  ir_ensmb    :: bool
  ir_sta      :: bool
  ir_sto      :: bool
  ir_ack_tx   :: bool
  ir_tx_mode  :: bool
  ir_freq_div :: "10 word"
  ir_si       :: bool
  ir_ack_rx   :: bool

definition i2c1_config_zero :: i2c1_config where
  "i2c1_config_zero = \<lparr>ir_ensmb = False, ir_sta = False, ir_sto = False, ir_ack_tx = False, ir_tx_mode = False, ir_freq_div = 0,
     ir_si = False, ir_ack_rx = False\<rparr>"

text \<open>The registers, \<open>g_state\<close> with \<open>data\<close> as a buffer and the position in it, and the clock gate. The last two are the bus: what
  was sent on it and how many bytes were received.\<close>

record i2c1 =
  i2_config  :: i2c1_config
  i2_data    :: u8
  i2_tx_mode :: bool
  i2_ack     :: bool
  i2_nack    :: bool
  i2_busy    :: bool
  i2_remain  :: u16
  i2_done    :: bool
  i2_buf     :: bytes
  i2_pos     :: nat
  i2_powered :: bool
  i2_clk_26m :: bool
  i2_sent    :: bytes
  i2_got     :: nat

definition i2c1_freq_div :: "u32 \<Rightarrow> u32" where
  "i2c1_freq_div baud_hz = (let a = (26000000 + baud_hz - 1) div baud_hz; a = a - 6 in (a + 2) div 3 - 1)"

section \<open>The interrupt\<close>

definition send_next_byte :: "i2c1 \<Rightarrow> i2c1 option" where
  "send_next_byte s =
     (if i2_pos s < length (i2_buf s)
      then Some (s\<lparr>i2_data := i2_buf s ! i2_pos s, i2_pos := i2_pos s + 1, i2_remain := i2_remain s - 1\<rparr>)
      else None)"

definition issue_stop :: "i2c1_config \<times> i2c1 \<Rightarrow> i2c1_config \<times> i2c1" where
  "issue_stop = (\<lambda>(status, s). let status = status\<lparr>ir_sto := True\<rparr> in (status, s\<lparr>i2_config := status, i2_done := True\<rparr>))"

definition store_byte :: "i2c1 \<Rightarrow> i2c1 option" where
  "store_byte s =
     (if i2_pos s < length (i2_buf s)
      then Some (s\<lparr>i2_buf := (i2_buf s)[i2_pos s := i2_data s], i2_pos := i2_pos s + 1, i2_remain := i2_remain s - 1\<rparr>)
      else None)"

definition address_phase :: "i2c1_config \<Rightarrow> i2c1 \<Rightarrow> (i2c1_config \<times> i2c1) option" where
  "address_phase status s =
     (let status = status\<lparr>ir_sta := False\<rparr>; s = s\<lparr>i2_config := status\<rparr>
      in if \<not> ir_ack_rx status then Some (issue_stop (status, s\<lparr>i2_nack := True\<rparr>))
         else
           let s = s\<lparr>i2_ack := True\<rparr>
           in if \<not> i2_tx_mode s then let status = status\<lparr>ir_tx_mode := False\<rparr> in Some (status, s\<lparr>i2_config := status\<rparr>)
              else if i2_remain s > 0 then map_option (Pair status) (send_next_byte s)
              else Some (issue_stop (status, s)))"

definition write_phase :: "i2c1_config \<Rightarrow> i2c1 \<Rightarrow> (i2c1_config \<times> i2c1) option" where
  "write_phase status s =
     (if \<not> ir_ack_rx status \<or> i2_remain s = 0 then Some (issue_stop (status, s))
      else map_option (Pair status) (send_next_byte s))"

definition read_phase :: "i2c1_config \<Rightarrow> i2c1 \<Rightarrow> (i2c1_config \<times> i2c1) option" where
  "read_phase status s =
     (case store_byte s of
        None \<Rightarrow> None
      | Some s \<Rightarrow>
          if i2_remain s \<noteq> 0 then let status = status\<lparr>ir_ack_tx := True\<rparr> in Some (status, s\<lparr>i2_config := status\<rparr>)
          else let status = status\<lparr>ir_ack_tx := False\<rparr> in Some (issue_stop (status, s\<lparr>i2_config := status\<rparr>)))"

definition i2c1_isr :: "i2c1 \<Rightarrow> i2c1 option" where
  "i2c1_isr s =
     (let status = i2_config s
      in if \<not> ir_si status then Some s
         else
           map_option (\<lambda>(status, s). s\<lparr>i2_config := status\<lparr>ir_si := False\<rparr>\<rparr>)
             (if ir_sta status then address_phase status s
              else if i2_tx_mode s then write_phase status s
              else read_phase status s))"

section \<open>Init and transfers\<close>

abbreviation IRQ_SOURCE_I2C1 :: u32 where "IRQ_SOURCE_I2C1 \<equiv> 4"

text \<open>\<open>isr\<close> is the address of \<open>i2c1_isr\<close>.\<close>

definition i2c1_init :: "nat \<Rightarrow> u32 \<Rightarrow> i2c1 \<times> intc_state \<times> hw_gpio \<Rightarrow> (i2c1 \<times> intc_state \<times> hw_gpio) option" where
  "i2c1_init isr baud_hz = (\<lambda>(s, ic, g). do {
     let s = s\<lparr>i2_powered := True, i2_clk_26m := True\<rparr>;
     let g = gpio_config_function GPIO_FUNC_I2C1 g;
     ic \<leftarrow> intc_register_irq_handler IRQ_SOURCE_I2C1 isr ic;
     let ic = intc_enable_irq_source IRQ_SOURCE_I2C1 ic;
     Some (s\<lparr>i2_config := i2c1_config_zero\<lparr>ir_freq_div := ucast (i2c1_freq_div baud_hz)\<rparr>\<rparr>, ic, g)
   })"

definition i2c1_deinit :: "nat \<Rightarrow> i2c1 \<times> intc_state \<Rightarrow> i2c1 \<times> intc_state" where
  "i2c1_deinit isr = (\<lambda>(s, ic).
     let s = s\<lparr>i2_config := (i2_config s)\<lparr>ir_ensmb := False\<rparr>\<rparr>;
         ic = intc_disable_irq_source IRQ_SOURCE_I2C1 ic;
         ic = snd (intc_unregister_irq_handler IRQ_SOURCE_I2C1 isr ic)
     in (s\<lparr>i2_powered := False, i2_config := i2c1_config_zero\<rparr>, ic))"

definition take_busy :: "i2c1 \<Rightarrow> bool \<times> i2c1" where
  "take_busy s = (if i2_busy s then (False, s) else (True, s\<lparr>i2_busy := True\<rparr>))"

definition release_busy :: "i2c1 \<Rightarrow> i2c1" where
  "release_busy s = s\<lparr>i2_busy := False\<rparr>"

text \<open>The slave: whether it acknowledges the \<open>n\<close>-th byte sent, and the \<open>n\<close>-th byte it sends itself.\<close>

record i2c_slave =
  sl_ack  :: "nat \<Rightarrow> bool"
  sl_byte :: "nat \<Rightarrow> u8"

definition bus_step :: "i2c_slave \<Rightarrow> i2c1 \<Rightarrow> i2c1" where
  "bus_step sl s =
     (let cfg = i2_config s
      in if ir_sto cfg then s\<lparr>i2_config := cfg\<lparr>ir_sto := False\<rparr>\<rparr>
         else if ir_tx_mode cfg
         then s\<lparr>i2_config := cfg\<lparr>ir_si := True, ir_ack_rx := sl_ack sl (length (i2_sent s))\<rparr>, i2_sent := i2_sent s @ [i2_data s]\<rparr>
         else s\<lparr>i2_config := cfg\<lparr>ir_si := True\<rparr>, i2_data := sl_byte sl (i2_got s), i2_got := i2_got s + 1\<rparr>)"

text \<open>Up to \<open>n\<close> bytes on the bus, each followed by its interrupt, until the transfer is done.\<close>

fun bus_run :: "nat \<Rightarrow> i2c_slave \<Rightarrow> i2c1 \<Rightarrow> i2c1 option" where
  "bus_run 0 sl s = Some s"
| "bus_run (Suc n) sl s = (if i2_done s then Some s else case i2c1_isr (bus_step sl s) of None \<Rightarrow> None | Some s \<Rightarrow> bus_run n sl s)"

text \<open>\<open>n\<close>: the bytes the bus gets through before the timeout; \<open>timer\<close>: \<open>create_timeout\<close> finds a timer.\<close>

definition i2c1_transfer ::
  "i2c_slave \<Rightarrow> nat \<Rightarrow> bool \<Rightarrow> u8 \<Rightarrow> bytes \<Rightarrow> u16 \<Rightarrow> bool \<Rightarrow> i2c1 \<Rightarrow> ((errno + unit) \<times> i2c1) option" where
  "i2c1_transfer sl n timer addr7 buf len is_tx s =
     (case take_busy s of
        (False, s) \<Rightarrow> Some (Inl EBUSY, s)
      | (True, s) \<Rightarrow>
          let s = s\<lparr>i2_tx_mode := is_tx, i2_remain := len, i2_buf := buf, i2_pos := 0, i2_done := False, i2_ack := False, i2_nack := False\<rparr>;
              s = s\<lparr>i2_data := push_bit 1 addr7 OR (if is_tx then 0 else 1)\<rparr>;
              cfg = (i2_config s)\<lparr>ir_ensmb := True, ir_sta := True, ir_tx_mode := True\<rparr>;
              s = s\<lparr>i2_config := cfg\<rparr>
          in if \<not> timer then Some (Inl ENOMEM, release_busy s)
             else
               case bus_run n sl s of
                 None \<Rightarrow> None
               | Some s \<Rightarrow>
                   if \<not> i2_done s
                   then Some (Inl ETIMEDOUT, release_busy (s\<lparr>i2_config := cfg\<lparr>ir_sta := False, ir_sto := True\<rparr>\<rparr>))
                   else
                     let result = (if i2_ack s then Inr () else if i2_nack s then Inl EFAULT else Inl EIO)
                     in Some (result, release_busy s))"

definition i2c1_write :: "i2c_slave \<Rightarrow> nat \<Rightarrow> bool \<Rightarrow> u8 \<Rightarrow> bytes \<Rightarrow> u16 \<Rightarrow> i2c1 \<Rightarrow> ((errno + unit) \<times> i2c1) option" where
  "i2c1_write sl n timer addr7 data len s = i2c1_transfer sl n timer addr7 data len True s"

definition i2c1_read :: "i2c_slave \<Rightarrow> nat \<Rightarrow> bool \<Rightarrow> u8 \<Rightarrow> bytes \<Rightarrow> u16 \<Rightarrow> i2c1 \<Rightarrow> ((errno + unit) \<times> i2c1) option" where
  "i2c1_read sl n timer addr7 buf len s = i2c1_transfer sl n timer addr7 buf len False s"

section \<open>Writing\<close>

text \<open>The transfer between two interrupts, with \<open>i\<close> bytes of the buffer handled.\<close>

definition between :: "bool \<Rightarrow> nat \<Rightarrow> nat \<Rightarrow> i2c1 \<Rightarrow> bool" where
  "between tx i len s \<longleftrightarrow> \<not> i2_done s \<and> \<not> ir_sta (i2_config s) \<and> \<not> ir_sto (i2_config s) \<and> ir_tx_mode (i2_config s) = tx \<and> i2_tx_mode s = tx
     \<and> i2_ack s \<and> length (i2_buf s) = len \<and> i2_pos s = i \<and> unat (i2_remain s) + i = len"

lemma remain_dec: "unat (r :: u16) + i = len \<Longrightarrow> i < len \<Longrightarrow> unat (r - 1) + Suc i = len"
proof -
  assume a: "unat r + i = len" "i < len"
  then have "r \<noteq> 0" by auto
  then have "unat (r - 1) = unat r - 1" by (rule unat_minus_one)
  then show ?thesis using a by simp
qed

lemma write_step:
  assumes "between True i len s" "0 < i"
  shows "if i < len \<and> sl_ack sl (length (i2_sent s))
    then \<exists>s'. i2c1_isr (bus_step sl s) = Some s' \<and> between True (Suc i) len s' \<and> i2_sent s' = i2_sent s @ [i2_data s]
      \<and> i2_data s' = i2_buf s ! i \<and> i2_buf s' = i2_buf s
    else \<exists>s'. i2c1_isr (bus_step sl s) = Some s' \<and> i2_done s' \<and> i2_ack s' \<and> i2_sent s' = i2_sent s @ [i2_data s]"
proof -
  have r: "i2_remain s = 0 \<longleftrightarrow> i = len" using assms(1) by (auto simp: between_def unat_eq_0 [symmetric])
  have "unat (i2_remain s - 1) + Suc i = len" if "i < len"
    using remain_dec [of "i2_remain s" i len] that assms(1) by (simp add: between_def)
  then show ?thesis
    using assms(1) r
    by (auto simp: between_def i2c1_isr_def bus_step_def write_phase_def send_next_byte_def issue_stop_def Let_def)
qed

lemma drop_take_Suc: "0 < i \<Longrightarrow> i \<le> m \<Longrightarrow> m \<le> length xs \<Longrightarrow> drop (i - 1) (take m xs) = xs ! (i - 1) # drop i (take m xs)"
  by (subst Cons_nth_drop_Suc [symmetric]) auto

lemma write_run:
  assumes "between True i len s" "0 < i" "i \<le> m" "m \<le> len" "m < i + n" "i2_data s = i2_buf s ! (i - 1)"
    and "length (i2_sent s) = b + i" "\<And>j. i \<le> j \<Longrightarrow> j < m \<Longrightarrow> sl_ack sl (b + j)" "m < len \<Longrightarrow> \<not> sl_ack sl (b + m)"
  shows "\<exists>s'. bus_run n sl s = Some s' \<and> i2_done s' \<and> i2_ack s' \<and> i2_sent s' = i2_sent s @ drop (i - 1) (take m (i2_buf s))"
  using assms
proof (induction n arbitrary: i s)
  case (Suc n)
  have nd: "\<not> i2_done s" "length (i2_buf s) = len" using Suc.prems(1) by (simp_all add: between_def)
  have dt: "drop (i - 1) (take m (i2_buf s)) = i2_data s # drop i (take m (i2_buf s))"
    using drop_take_Suc [of i m "i2_buf s"] Suc.prems(2-4,6) nd by simp
  show ?case
  proof (cases "i < m")
    case True
    then have "i < len \<and> sl_ack sl (length (i2_sent s))" using Suc.prems(4,7,8) by simp
    then obtain s1 where s1: "i2c1_isr (bus_step sl s) = Some s1" "between True (Suc i) len s1" "i2_sent s1 = i2_sent s @ [i2_data s]"
      "i2_data s1 = i2_buf s ! i" "i2_buf s1 = i2_buf s"
      using write_step [OF Suc.prems(1,2), of sl] by auto
    have "\<exists>s'. bus_run n sl s1 = Some s' \<and> i2_done s' \<and> i2_ack s' \<and> i2_sent s' = i2_sent s1 @ drop (Suc i - 1) (take m (i2_buf s1))"
      using Suc.prems True s1 by (intro Suc.IH) auto
    then show ?thesis using nd(1) s1 dt by auto
  next
    case False
    then have m: "i = m" "\<not> (i < len \<and> sl_ack sl (length (i2_sent s)))" using Suc.prems(3,7,9) by auto
    then obtain s1 where s1: "i2c1_isr (bus_step sl s) = Some s1" "i2_done s1" "i2_ack s1" "i2_sent s1 = i2_sent s @ [i2_data s]"
      using write_step [OF Suc.prems(1,2), of sl] by auto
    have "bus_run n sl s1 = Some s1" using s1(2) by (cases n) simp_all
    then show ?thesis using nd(1) s1 dt m(1) by simp
  qed
qed simp

section \<open>Reading\<close>

lemma read_step:
  assumes "between False i len s" "i < len"
  shows "\<exists>s'. i2c1_isr (bus_step sl s) = Some s' \<and> i2_sent s' = i2_sent s \<and> i2_got s' = Suc (i2_got s)
    \<and> i2_buf s' = (i2_buf s)[i := sl_byte sl (i2_got s)] \<and> (if Suc i < len then between False (Suc i) len s' else i2_done s' \<and> i2_ack s')"
proof -
  have u: "unat (i2_remain s - 1) + Suc i = len" using remain_dec [of "i2_remain s" i len] assms by (simp add: between_def)
  then have "i2_remain s - 1 = 0 \<longleftrightarrow> Suc i = len" by (auto simp: unat_eq_0 [symmetric])
  then show ?thesis
    using assms u
    by (auto simp: between_def i2c1_isr_def bus_step_def read_phase_def store_byte_def issue_stop_def Let_def)
qed

lemma read_run:
  assumes "between False i len s" "i < len" "len \<le> i + n" "i2_got s = b + i"
  shows "\<exists>s'. bus_run n sl s = Some s' \<and> i2_done s' \<and> i2_ack s' \<and> i2_sent s' = i2_sent s
    \<and> i2_buf s' = take i (i2_buf s) @ map (\<lambda>j. sl_byte sl (b + j)) [i..<len]"
  using assms
proof (induction n arbitrary: i s)
  case (Suc n)
  have nd: "\<not> i2_done s" "length (i2_buf s) = len" using Suc.prems(1) by (simp_all add: between_def)
  obtain s1 where s1: "i2c1_isr (bus_step sl s) = Some s1" "i2_sent s1 = i2_sent s" "i2_got s1 = Suc (i2_got s)"
    "i2_buf s1 = (i2_buf s)[i := sl_byte sl (i2_got s)]" "if Suc i < len then between False (Suc i) len s1 else i2_done s1 \<and> i2_ack s1"
    using read_step [OF Suc.prems(1,2), of sl] by blast
  have t: "take (Suc i) (i2_buf s1) = take i (i2_buf s) @ [sl_byte sl (b + i)]"
    using s1(4) Suc.prems(2,4) nd(2) by (simp add: take_Suc_conv_app_nth)
  have u: "[i..<len] = i # [Suc i..<len]" using Suc.prems(2) by (rule upt_conv_Cons)
  show ?case
  proof (cases "Suc i < len")
    case True
    then have "\<exists>s'. bus_run n sl s1 = Some s' \<and> i2_done s' \<and> i2_ack s' \<and> i2_sent s' = i2_sent s1
        \<and> i2_buf s' = take (Suc i) (i2_buf s1) @ map (\<lambda>j. sl_byte sl (b + j)) [Suc i..<len]"
      using Suc.prems s1 by (intro Suc.IH) auto
    then show ?thesis using nd(1) s1(1,2) t u by auto
  next
    case False
    then have d: "i2_done s1" "i2_ack s1" "len = Suc i" using s1(5) Suc.prems(2) by auto
    then have "bus_run n sl s1 = Some s1" by (cases n) simp_all
    moreover have "i2_buf s1 = take (Suc i) (i2_buf s1)" using d(3) s1(4) nd(2) by simp
    ultimately show ?thesis using nd(1) s1(1,2) t u d by auto
  qed
qed simp

section \<open>Whole transfers\<close>

text \<open>The state when the bus starts with the address.\<close>

definition started :: "u8 \<Rightarrow> bytes \<Rightarrow> u16 \<Rightarrow> bool \<Rightarrow> i2c1 \<Rightarrow> i2c1" where
  "started addr7 buf len is_tx s =
     s\<lparr>i2_busy := True, i2_tx_mode := is_tx, i2_remain := len, i2_buf := buf, i2_pos := 0, i2_done := False, i2_ack := False, i2_nack := False,
       i2_data := push_bit 1 addr7 OR (if is_tx then 0 else 1),
       i2_config := (i2_config s)\<lparr>ir_ensmb := True, ir_sta := True, ir_tx_mode := True\<rparr>\<rparr>"

lemma transfer_started:
  "i2c1_transfer sl n timer addr7 buf len is_tx s =
     (if i2_busy s then Some (Inl EBUSY, s)
      else if \<not> timer then Some (Inl ENOMEM, release_busy (started addr7 buf len is_tx s))
      else case bus_run n sl (started addr7 buf len is_tx s) of
             None \<Rightarrow> None
           | Some s' \<Rightarrow>
               if \<not> i2_done s' then Some (Inl ETIMEDOUT, release_busy (s'\<lparr>i2_config := (i2_config (started addr7 buf len is_tx s))\<lparr>ir_sta := False, ir_sto := True\<rparr>\<rparr>))
               else Some (if i2_ack s' then Inr () else if i2_nack s' then Inl EFAULT else Inl EIO, release_busy s'))"
  by (simp add: i2c1_transfer_def take_busy_def started_def Let_def split: option.splits)

text \<open>The first interrupt.\<close>

lemma address_step:
  assumes "\<not> ir_sto (i2_config s)" "length buf = unat len"
  shows "if \<not> sl_ack sl (length (i2_sent s))
    then \<exists>s'. i2c1_isr (bus_step sl (started addr7 buf len is_tx s)) = Some s' \<and> i2_done s' \<and> \<not> i2_ack s' \<and> i2_nack s' \<and> i2_sent s' = i2_sent s @ [i2_data (started addr7 buf len is_tx s)]
    else if is_tx \<and> len = 0
    then \<exists>s'. i2c1_isr (bus_step sl (started addr7 buf len is_tx s)) = Some s' \<and> i2_done s' \<and> i2_ack s' \<and> i2_sent s' = i2_sent s @ [i2_data (started addr7 buf len is_tx s)]
    else \<exists>s'. i2c1_isr (bus_step sl (started addr7 buf len is_tx s)) = Some s' \<and> between is_tx (if is_tx then 1 else 0) (unat len) s' \<and> i2_sent s' = i2_sent s @ [i2_data (started addr7 buf len is_tx s)]
      \<and> i2_got s' = i2_got s \<and> i2_buf s' = buf \<and> (is_tx \<longrightarrow> i2_data s' = buf ! 0)"
proof -
  have "unat (len - 1) + 1 = unat len" if "len \<noteq> 0" using remain_dec [of len 0] that by (simp add: unat_gt_0)
  moreover have "0 < unat len \<longleftrightarrow> len \<noteq> 0" by (simp add: unat_gt_0)
  ultimately show ?thesis
    using assms(1,2)
    by (auto simp: started_def between_def i2c1_isr_def bus_step_def address_phase_def send_next_byte_def issue_stop_def Let_def
        word_gt_0)
qed

text \<open>(C25) 
  (C909) What a write does. With an idle bus, a slave that acknowledges its address and a bus that gets through the bytes
  before the timeout, \<open>i2c1_write\<close> sends the address and the bytes of the buffer in order, up to the first one the slave does
  not acknowledge, touches nothing outside the buffer, releases the driver, and returns 0, also when the slave has refused
  a byte of the data.
\<close>

theorem i2c_write_sends:
  assumes "\<not> i2_busy s" "\<not> ir_sto (i2_config s)" "length data = unat len" "timer" "m < n"
    and "\<forall>j < m. sl_ack sl (length (i2_sent s) + j)" "m < unat len \<longrightarrow> \<not> sl_ack sl (length (i2_sent s) + m)"
    and "m \<le> unat len" "0 < unat len \<longrightarrow> 0 < m" "sl_ack sl (length (i2_sent s))"
  shows "\<exists>s'. i2c1_write sl n timer addr7 data len s = Some (Inr (), s') \<and> \<not> i2_busy s' \<and> i2_sent s' = i2_sent s @ push_bit 1 addr7 # take m data"
proof -
  let ?s = "started addr7 data len True s"
  obtain n' where n: "n = Suc n'" using assms(5) by (cases n) simp_all
  have a: "i2_data ?s = push_bit 1 addr7" "\<not> i2_done ?s" by (simp_all add: started_def)
  have "\<exists>s'. bus_run n sl ?s = Some s' \<and> i2_done s' \<and> i2_ack s' \<and> i2_sent s' = i2_sent s @ push_bit 1 addr7 # take m data"
  proof (cases "len = 0")
    case True
    then obtain s1 where s1: "i2c1_isr (bus_step sl ?s) = Some s1" "i2_done s1" "i2_ack s1" "i2_sent s1 = i2_sent s @ [push_bit 1 addr7]"
      using address_step [OF assms(2,3), of sl addr7 True] assms(10) a by auto
    then have "bus_run n' sl s1 = Some s1" by (cases n') simp_all
    then show ?thesis using n a(2) s1 True assms(8) by auto
  next
    case False
    then obtain s1 where s1: "i2c1_isr (bus_step sl ?s) = Some s1" "between True 1 (unat len) s1" "i2_sent s1 = i2_sent s @ [push_bit 1 addr7]"
      "i2_buf s1 = data" "i2_data s1 = data ! 0"
      using address_step [OF assms(2,3), of sl addr7 True] assms(10) a by auto
    have m: "1 \<le> m" using assms(9) False by (simp add: unat_gt_0 Suc_le_eq)
    then have "\<exists>s'. bus_run n' sl s1 = Some s' \<and> i2_done s' \<and> i2_ack s' \<and> i2_sent s' = i2_sent s1 @ drop (1 - 1) (take m (i2_buf s1))"
      using assms(5-8) s1 n by (intro write_run [where b = "length (i2_sent s)"]) auto
    then show ?thesis using n a(2) s1 by auto
  qed
  then show ?thesis using assms(1,4) by (auto simp: i2c1_write_def transfer_started release_busy_def)
qed

text \<open>The witnesses run on the driver after init, with a slave that refuses the third byte sent and answers with its count.\<close>

definition i2c1_idle :: i2c1 where
  "i2c1_idle = \<lparr>i2_config = i2c1_config_zero, i2_data = 0, i2_tx_mode = False, i2_ack = False, i2_nack = False, i2_busy = False,
     i2_remain = 0, i2_done = False, i2_buf = [], i2_pos = 0, i2_powered = True, i2_clk_26m = True, i2_sent = [], i2_got = 0\<rparr>"

definition slave_two :: i2c_slave where
  "slave_two = \<lparr>sl_ack = (\<lambda>n. n < 2), sl_byte = of_nat\<rparr>"

lemma idle_simps [simp]:
  "\<not> i2_busy i2c1_idle" "\<not> ir_sto (i2_config i2c1_idle)" "i2_sent i2c1_idle = []" "i2_got i2c1_idle = 0"
  "sl_ack slave_two n \<longleftrightarrow> n < 2" "sl_byte slave_two n = of_nat n"
  by (simp_all add: i2c1_idle_def i2c1_config_zero_def slave_two_def)

theorem i2c_write_sends_witness:
  "\<exists>s'. i2c1_write slave_two 8 True 0x3c [10, 20, 30] 3 i2c1_idle = Some (Inr (), s') \<and> \<not> i2_busy s' \<and> i2_sent s' = [0x78, 10, 20]"
  using i2c_write_sends [of i2c1_idle "[10, 20, 30]" 3 True 2 8 slave_two "0x3c"] by simp

text \<open>
  (C910) What a read does. With an idle bus, a slave that acknowledges its address and enough time, \<open>i2c1_read\<close> of at least
  one byte fills the buffer with the bytes of the slave in order, touches nothing outside it, and returns 0.
\<close>

theorem i2c_read_fills:
  assumes "\<not> i2_busy s" "\<not> ir_sto (i2_config s)" "length buf = unat len" "0 < unat len" "timer" "unat len < n"
    and "sl_ack sl (length (i2_sent s))"
  shows "\<exists>s'. i2c1_read sl n timer addr7 buf len s = Some (Inr (), s') \<and> \<not> i2_busy s'
    \<and> i2_buf s' = map (\<lambda>j. sl_byte sl (i2_got s + j)) [0..<unat len] \<and> i2_sent s' = i2_sent s @ [push_bit 1 addr7 OR 1]"
proof -
  let ?s = "started addr7 buf len False s"
  obtain n' where n: "n = Suc n'" using assms(6) by (cases n) simp_all
  have a: "i2_data ?s = push_bit 1 addr7 OR 1" "\<not> i2_done ?s" by (simp_all add: started_def)
  obtain s1 where s1: "i2c1_isr (bus_step sl ?s) = Some s1" "between False 0 (unat len) s1" "i2_sent s1 = i2_sent s @ [push_bit 1 addr7 OR 1]"
    "i2_got s1 = i2_got s"
    using address_step [OF assms(2,3), of sl addr7 False] assms(7) a by auto
  have "\<exists>s'. bus_run n' sl s1 = Some s' \<and> i2_done s' \<and> i2_ack s' \<and> i2_sent s' = i2_sent s1
      \<and> i2_buf s' = take 0 (i2_buf s1) @ map (\<lambda>j. sl_byte sl (i2_got s + j)) [0..<unat len]"
    using assms(4,6) s1 n by (intro read_run) auto
  then show ?thesis using n a(2) s1 assms(1,5) by (auto simp: i2c1_read_def transfer_started release_busy_def)
qed

theorem i2c_read_fills_witness:
  "\<exists>s'. i2c1_read slave_two 8 True 0x3c [0, 0, 0] 3 i2c1_idle = Some (Inr (), s') \<and> \<not> i2_busy s' \<and> i2_buf s' = [0, 1, 2] \<and> i2_sent s' = [0x79]"
  using i2c_read_fills [of i2c1_idle "[0, 0, 0]" 3 True 8 slave_two "0x3c"] by (simp add: upt_rec)



end
