(* ===== verification/Hw_Sha.thy ===== *)
theory Hw_Sha
  imports Wpa2_Sha1
begin

text \<open>
  The driver of the SHA engine, \<open>src/src/platform/drivers/hardware_security/sha.c\<close>. The engine is hardware: its
  compression function and its initial values are parameters. The driver cuts the stream into blocks, pads it, and moves
  words between the buffer and the registers. An access outside the buffer of the context is \<open>None\<close>, as is a loop that does
  not end.
\<close>

section \<open>Modes\<close>

datatype SHA_MODE = SHA1 | SHA224 | SHA256 | SHA512_224 | SHA512_256 | SHA384 | SHA512

fun sha_mode_code :: "SHA_MODE \<Rightarrow> 3 word" where
  "sha_mode_code SHA1 = 0"
| "sha_mode_code SHA224 = 2"
| "sha_mode_code SHA256 = 3"
| "sha_mode_code SHA512_224 = 4"
| "sha_mode_code SHA512_256 = 5"
| "sha_mode_code SHA384 = 6"
| "sha_mode_code SHA512 = 7"

fun sha_state_bits :: "SHA_MODE \<Rightarrow> nat" where
  "sha_state_bits SHA1 = 160"
| "sha_state_bits SHA224 = 256"
| "sha_state_bits SHA256 = 256"
| "sha_state_bits SHA384 = 512"
| "sha_state_bits SHA512_224 = 512"
| "sha_state_bits SHA512_256 = 512"
| "sha_state_bits SHA512 = 512"

fun sha_digest_bits :: "SHA_MODE \<Rightarrow> nat" where
  "sha_digest_bits SHA1 = 160"
| "sha_digest_bits SHA224 = 224"
| "sha_digest_bits SHA256 = 256"
| "sha_digest_bits SHA384 = 384"
| "sha_digest_bits SHA512 = 512"
| "sha_digest_bits SHA512_224 = 224"
| "sha_digest_bits SHA512_256 = 256"

section \<open>Registers and engine\<close>

record hw_security_sha =
  sha_block_31to0  :: "nat \<Rightarrow> u32"
  sha_digest_15to0 :: "nat \<Rightarrow> u32"
  sha_config_mode  :: "3 word"
  sha_config_en    :: bool

text \<open>The engine: the initial value of the digest registers and the compression function, by mode.\<close>

record sha_engine =
  eng_iv   :: "3 word \<Rightarrow> nat \<Rightarrow> u32"
  eng_comp :: "3 word \<Rightarrow> (nat \<Rightarrow> u32) \<Rightarrow> u32 list \<Rightarrow> nat \<Rightarrow> u32"

text \<open>The registers of the block the engine consults: the last 16 in the modes up to SHA-256, all 32 otherwise.\<close>

definition engine_block :: "hw_security_sha \<Rightarrow> u32 list" where
  "engine_block hw = map (sha_block_31to0 hw) [if sha_config_mode hw \<le> 3 then 16 else 0..<32]"

text \<open>The stores to \<open>control.init\<close> and \<open>control.next\<close>, up to the moment the engine is ready again.\<close>

definition store_init :: "sha_engine \<Rightarrow> hw_security_sha \<Rightarrow> hw_security_sha" where
  "store_init eng hw =
     (let m = sha_config_mode hw
      in if sha_config_en hw then hw\<lparr>sha_digest_15to0 := eng_comp eng m (eng_iv eng m) (engine_block hw)\<rparr> else hw)"

definition store_next :: "sha_engine \<Rightarrow> hw_security_sha \<Rightarrow> hw_security_sha" where
  "store_next eng hw =
     (let m = sha_config_mode hw
      in if sha_config_en hw then hw\<lparr>sha_digest_15to0 := eng_comp eng m (sha_digest_15to0 hw) (engine_block hw)\<rparr> else hw)"

section \<open>Driver\<close>

abbreviation SHA_BLOCK_SIZE_SMALL :: nat where "SHA_BLOCK_SIZE_SMALL \<equiv> 64"
abbreviation SHA_BLOCK_SIZE_LARGE :: nat where "SHA_BLOCK_SIZE_LARGE \<equiv> 128"

record sha_context =
  sc_mode        :: SHA_MODE
  sc_first_block :: bool
  sc_block_size  :: nat
  sc_total       :: u64
  sc_buffer_len  :: nat
  sc_buffer      :: bytes

definition sha_process_block :: "sha_engine \<Rightarrow> sha_context \<times> hw_security_sha \<Rightarrow> sha_context \<times> hw_security_sha" where
  "sha_process_block eng = (\<lambda>(c, hw).
     let block_words = sc_block_size c div 4;
         base = 32 - block_words;
         hw = hw\<lparr>sha_block_31to0 :=
           fold (\<lambda>i regs. regs(base + i := be32 (slice (4 * i) 4 (sc_buffer c)))) [0..<block_words] (sha_block_31to0 hw)\<rparr>
     in if sc_first_block c then (c\<lparr>sc_first_block := False\<rparr>, store_init eng hw) else (c, store_next eng hw))"

text \<open>\<open>mem\<close>: \<open>malloc\<close> finds room.\<close>

definition sha_create_context :: "bool \<Rightarrow> SHA_MODE \<Rightarrow> hw_security_sha \<Rightarrow> sha_context option \<times> hw_security_sha" where
  "sha_create_context mem mode hw =
     (if \<not> mem then (None, hw)
      else
        (Some \<lparr>sc_mode = mode, sc_first_block = True,
               sc_block_size = (if sha_mode_code mode \<le> sha_mode_code SHA256 then SHA_BLOCK_SIZE_SMALL else SHA_BLOCK_SIZE_LARGE),
               sc_total = 0, sc_buffer_len = 0, sc_buffer = replicate SHA_BLOCK_SIZE_LARGE 0\<rparr>,
         hw\<lparr>sha_config_en := True, sha_config_mode := sha_mode_code mode\<rparr>))"

text \<open>One turn of the loop of \<open>sha_update\<close>: the bytes that fit, and a block when it is full.\<close>

definition sha_update_turn :: "sha_engine \<Rightarrow> bytes \<Rightarrow> sha_context \<times> hw_security_sha \<Rightarrow> sha_context \<times> hw_security_sha" where
  "sha_update_turn eng part = (\<lambda>(c, hw).
     let c = c\<lparr>sc_buffer := buf_write (sc_buffer_len c) part (sc_buffer c), sc_buffer_len := sc_buffer_len c + length part\<rparr>
     in if sc_buffer_len c = sc_block_size c
        then let (c, hw) = sha_process_block eng (c, hw) in (c\<lparr>sc_buffer_len := 0\<rparr>, hw)
        else (c, hw))"

partial_function (option) sha_update_loop ::
  "sha_engine \<Rightarrow> bytes \<Rightarrow> sha_context \<times> hw_security_sha \<Rightarrow> (sha_context \<times> hw_security_sha) option" where
  "sha_update_loop eng input ch =
     (if input = [] then Some ch
      else
        let fill = sc_block_size (fst ch) - sc_buffer_len (fst ch); chunk = min (length input) fill
        in if sc_block_size (fst ch) < sc_buffer_len (fst ch) \<or> length (sc_buffer (fst ch)) < sc_buffer_len (fst ch) + chunk then None
           else sha_update_loop eng (drop chunk input) (sha_update_turn eng (take chunk input) ch))"

definition sha_update :: "sha_engine \<Rightarrow> bytes \<Rightarrow> sha_context \<times> hw_security_sha \<Rightarrow> (sha_context \<times> hw_security_sha) option" where
  "sha_update eng input = (\<lambda>(c, hw). sha_update_loop eng input (c\<lparr>sc_total := sc_total c + of_nat (length input)\<rparr>, hw))"

text \<open>The \<open>memset\<close> of \<open>sha_finish\<close>.\<close>

definition sha_zero_fill :: "sha_context \<Rightarrow> sha_context" where
  "sha_zero_fill c = c\<lparr>sc_buffer := buf_write (sc_buffer_len c) (replicate (sc_block_size c - sc_buffer_len c) 0) (sc_buffer c)\<rparr>"

text \<open>The bytes of \<open>len_tail\<close>, and the digest read from the registers.\<close>

definition sha_len_tail :: "u64 \<Rightarrow> bytes" where
  "sha_len_tail total_bits = map (\<lambda>i. byte_at ((7 - i) * 8) total_bits) [0..<8]"

definition sha_read_digest :: "SHA_MODE \<Rightarrow> hw_security_sha \<Rightarrow> bytes" where
  "sha_read_digest mode hw =
     (let base = 16 - sha_state_bits mode div 32; result_words = sha_digest_bits mode div 32
      in concat (map (\<lambda>i. be32_bytes (sha_digest_15to0 hw (base + i))) [0..<result_words]))"

text \<open>The steps of \<open>sha_finish\<close>: the mark, a block of its own when the length does not fit, and the last block.\<close>

definition sha_mark :: "sha_context \<Rightarrow> sha_context" where
  "sha_mark c = c\<lparr>sc_buffer := (sc_buffer c)[sc_buffer_len c := 0x80], sc_buffer_len := sc_buffer_len c + 1\<rparr>"

definition sha_flush :: "sha_engine \<Rightarrow> nat \<Rightarrow> sha_context \<times> hw_security_sha \<Rightarrow> sha_context \<times> hw_security_sha" where
  "sha_flush eng length_size = (\<lambda>(c, hw).
     if sc_buffer_len c + length_size > sc_block_size c
     then let (c, hw) = sha_process_block eng (sha_zero_fill c, hw) in (c\<lparr>sc_buffer_len := 0\<rparr>, hw)
     else (c, hw))"

definition sha_last :: "sha_engine \<Rightarrow> u64 \<Rightarrow> sha_context \<times> hw_security_sha \<Rightarrow> sha_context \<times> hw_security_sha" where
  "sha_last eng total_bits = (\<lambda>(c, hw).
     let c = sha_zero_fill c;
         c = c\<lparr>sc_buffer := buf_write (sc_block_size c - 8) (sha_len_tail total_bits) (sc_buffer c)\<rparr>
     in sha_process_block eng (c, hw))"

definition sha_finish :: "sha_engine \<Rightarrow> sha_context \<times> hw_security_sha \<Rightarrow> (bytes \<times> sha_context \<times> hw_security_sha) option" where
  "sha_finish eng = (\<lambda>(c, hw).
     let total_bits = sc_total c * 8;
         length_size = (if sc_block_size c = SHA_BLOCK_SIZE_LARGE then 16 else 8)
     in if length (sc_buffer c) \<le> sc_buffer_len c \<or> length (sc_buffer c) < sc_block_size c then None
        else
          let (c, hw) = sha_last eng total_bits (sha_flush eng length_size (sha_mark c, hw))
          in Some (sha_read_digest (sc_mode c) hw, c, hw))"

text \<open>The one-shot functions do not check the context: without memory \<open>sha_update\<close> gets a null pointer.\<close>

definition sha_oneshot :: "sha_engine \<Rightarrow> bool \<Rightarrow> SHA_MODE \<Rightarrow> bytes \<Rightarrow> hw_security_sha \<Rightarrow> (bytes \<times> hw_security_sha) option" where
  "sha_oneshot eng mem mode input hw =
     (case sha_create_context mem mode hw of
        (None, hw) \<Rightarrow> None
      | (Some c, hw) \<Rightarrow> do {
          ch \<leftarrow> sha_update eng input (c, hw);
          (digest, _, hw) \<leftarrow> sha_finish eng ch;
          Some (digest, hw)
        })"

section \<open>Reference\<close>

definition sha_bs :: "SHA_MODE \<Rightarrow> nat" where
  "sha_bs mode = (if sha_mode_code mode \<le> 3 then 64 else 128)"

definition sha_ls :: "SHA_MODE \<Rightarrow> nat" where
  "sha_ls mode = (if sha_bs mode = 128 then 16 else 8)"

definition be_words :: "bytes \<Rightarrow> u32 list" where
  "be_words b = map (\<lambda>i. be32 (slice (4 * i) 4 b)) [0..<length b div 4]"

definition sha_blocks :: "nat \<Rightarrow> bytes \<Rightarrow> bytes list" where
  "sha_blocks n m = map (\<lambda>i. slice (n * i) n m) [0..<length m div n]"

text \<open>The padding of FIPS 180-4: a bit, the fewest zeros, the length in bits as a 64- or a 128-bit number.\<close>

definition sha_pad :: "SHA_MODE \<Rightarrow> bytes \<Rightarrow> bytes" where
  "sha_pad mode m =
     m @ 0x80 # replicate ((sha_bs mode - (length m + 1 + sha_ls mode) mod sha_bs mode) mod sha_bs mode) 0
       @ replicate (sha_ls mode - 8) 0 @ be64_bytes (of_nat (8 * length m))"

definition sha_chain :: "sha_engine \<Rightarrow> SHA_MODE \<Rightarrow> bytes list \<Rightarrow> nat \<Rightarrow> u32" where
  "sha_chain eng mode bl = foldl (\<lambda>h b. eng_comp eng (sha_mode_code mode) h (be_words b)) (eng_iv eng (sha_mode_code mode)) bl"

definition sha_digest :: "sha_engine \<Rightarrow> SHA_MODE \<Rightarrow> bytes \<Rightarrow> bytes" where
  "sha_digest eng mode m =
     (let h = sha_chain eng mode (sha_blocks (sha_bs mode) (sha_pad mode m))
      in concat (map (\<lambda>i. be32_bytes (h (16 - sha_state_bits mode div 32 + i))) [0..<sha_digest_bits mode div 32]))"

lemma sha_sizes:
  "sha_bs mode = 64 \<and> sha_ls mode = 8 \<and> sha_mode_code mode \<le> 3 \<or> sha_bs mode = 128 \<and> sha_ls mode = 16 \<and> \<not> sha_mode_code mode \<le> 3"
  by (cases mode) (simp_all add: sha_bs_def sha_ls_def)

lemma length_concat_const: "\<forall>b \<in> set bl. length b = n \<Longrightarrow> length (concat bl) = n * length bl"
  by (induction bl) auto

lemma sha_blocks_concat:
  assumes "0 < n" "\<forall>b \<in> set bl. length b = n"
  shows "sha_blocks n (concat bl) = bl"
proof (rule nth_equalityI)
  have l: "length (concat bl) = n * length bl" using assms(2) by (rule length_concat_const)
  then show len: "length (sha_blocks n (concat bl)) = length bl" using assms(1) by (simp add: sha_blocks_def)
  fix i assume "i < length (sha_blocks n (concat bl))"
  then have i: "i < length bl" using len by simp
  have "concat bl = concat (take i bl) @ bl ! i @ concat (drop (Suc i) bl)"
    using id_take_nth_drop [OF i] by (metis concat.simps(2) concat_append)
  moreover have "length (concat (take i bl)) = n * i"
    using length_concat_const [of "take i bl" n] assms(2) i by (auto dest: in_set_takeD)
  moreover have "length (bl ! i) = n" using assms(2) i by simp
  ultimately have "slice (n * i) n (concat bl) = bl ! i" by (simp add: slice_def)
  then show "sha_blocks n (concat bl) ! i = bl ! i" using i l assms(1) by (simp add: sha_blocks_def)
qed

section \<open>A block\<close>

lemma fold_regs: "fold (\<lambda>i regs. regs(base + i := f i)) [0..<n] regs = (\<lambda>j. if base \<le> j \<and> j < base + n then f (j - base) else regs j)"
  by (induction n) (auto simp: fun_eq_iff less_Suc_eq)

text \<open>The state with the blocks \<open>bl\<close> in the engine and the bytes \<open>rest\<close> in the buffer, up to the count of the total.\<close>

definition sha_buf :: "sha_engine \<Rightarrow> SHA_MODE \<Rightarrow> bytes list \<Rightarrow> bytes \<Rightarrow> sha_context \<times> hw_security_sha \<Rightarrow> bool" where
  "sha_buf eng mode bl rest = (\<lambda>(c, hw).
     sc_mode c = mode \<and> sc_block_size c = sha_bs mode \<and> sc_first_block c = (bl = []) \<and> sc_buffer_len c = length rest
     \<and> length rest \<le> sha_bs mode \<and> length (sc_buffer c) = 128 \<and> take (length rest) (sc_buffer c) = rest
     \<and> (\<forall>b \<in> set bl. length b = sha_bs mode) \<and> sha_config_mode hw = sha_mode_code mode \<and> sha_config_en hw
     \<and> (bl \<noteq> [] \<longrightarrow> sha_digest_15to0 hw = sha_chain eng mode bl))"

lemma process_block_buf:
  assumes "sha_buf eng mode bl b (c\<lparr>sc_buffer_len := sha_bs mode\<rparr>, hw)" "length b = sha_bs mode"
  obtains c' hw' where "sha_process_block eng (c, hw) = (c', hw')" "sha_buf eng mode (bl @ [b]) [] (c'\<lparr>sc_buffer_len := 0\<rparr>, hw')"
    "sc_total c' = sc_total c" "sc_buffer c' = sc_buffer c" "sc_block_size c' = sc_block_size c"
proof -
  let ?n = "sha_bs mode div 4"
  define hw1 where "hw1 = hw\<lparr>sha_block_31to0 :=
    fold (\<lambda>i regs. regs(32 - ?n + i := be32 (slice (4 * i) 4 (sc_buffer c)))) [0..<?n] (sha_block_31to0 hw)\<rparr>"
  have s: "slice (4 * i) 4 (sc_buffer c) = slice (4 * i) 4 b" if "i < ?n" for i
  proof -
    have "b = take (sha_bs mode) (sc_buffer c)" using assms by (simp add: sha_buf_def)
    moreover have "4 * i + 4 \<le> sha_bs mode" using that by linarith
    ultimately show ?thesis by (simp add: slice_def drop_take min_def)
  qed
  have "[32 - ?n..<32] = map (\<lambda>i. i + (32 - ?n)) [0..<?n]" using sha_sizes [of mode] by (auto simp: map_add_upt)
  then have "engine_block hw1 = map (\<lambda>i. sha_block_31to0 hw1 (i + (32 - ?n))) [0..<?n]"
    using assms(1) sha_sizes [of mode] by (auto simp: engine_block_def hw1_def sha_buf_def comp_def)
  then have eb: "engine_block hw1 = be_words b"
    using assms(2) s by (auto simp: be_words_def hw1_def fold_regs)
  have "sha_process_block eng (c, hw) = (if bl = [] then (c\<lparr>sc_first_block := False\<rparr>, store_init eng hw1) else (c, store_next eng hw1))"
    using assms(1) by (simp add: sha_process_block_def sha_buf_def hw1_def Let_def)
  then show thesis
    using assms eb
    by (intro that [of "fst (sha_process_block eng (c, hw))" "snd (sha_process_block eng (c, hw))"])
       (auto simp: sha_buf_def store_init_def store_next_def sha_chain_def Let_def hw1_def)
qed

lemma buf_put:
  assumes "sha_buf eng mode bl rest (c, hw)" "length rest + length part \<le> sha_bs mode"
  shows "sha_buf eng mode bl (rest @ part)
    (c\<lparr>sc_buffer := buf_write (length rest) part (sc_buffer c), sc_buffer_len := length rest + length part\<rparr>, hw)"
proof -
  have "sha_bs mode \<le> 128" using sha_sizes [of mode] by auto
  then show ?thesis using assms by (auto simp: sha_buf_def buf_write_def)
qed

lemma buf_tail:
  assumes "sha_buf eng mode bl b (c, hw)" "length b = sha_bs mode" "length t = 8"
  shows "sha_buf eng mode bl (take (sha_bs mode - 8) b @ t) (c\<lparr>sc_buffer := buf_write (sha_bs mode - 8) t (sc_buffer c)\<rparr>, hw)"
proof -
  have "8 \<le> sha_bs mode" "sha_bs mode \<le> 128" using sha_sizes [of mode] by auto
  moreover have "b = take (sha_bs mode) (sc_buffer c)" using assms(1,2) by (simp add: sha_buf_def)
  ultimately show ?thesis using assms by (auto simp: sha_buf_def buf_write_def min_def)
qed

section \<open>Streaming\<close>

lemma update_turn_buf:
  assumes "sha_buf eng mode bl rest (c, hw)" "length rest + length part \<le> sha_bs mode"
  shows "\<exists>bl' rest' c' hw'. sha_update_turn eng part (c, hw) = (c', hw') \<and> sha_buf eng mode bl' rest' (c', hw') \<and> length rest' < sha_bs mode
    \<and> concat bl' @ rest' = concat bl @ rest @ part \<and> sc_total c' = sc_total c"
proof -
  let ?c = "c\<lparr>sc_buffer := buf_write (length rest) part (sc_buffer c), sc_buffer_len := length rest + length part\<rparr>"
  have b: "sha_buf eng mode bl (rest @ part) (?c, hw)" by (rule buf_put [OF assms])
  have len: "sc_buffer_len c = length rest" "sc_block_size c = sha_bs mode" using assms(1) by (simp_all add: sha_buf_def)
  show ?thesis
  proof (cases "length rest + length part = sha_bs mode")
    case True
    have b': "sha_buf eng mode bl (rest @ part) (?c\<lparr>sc_buffer_len := sha_bs mode\<rparr>, hw)" "length (rest @ part) = sha_bs mode"
      using b True by simp_all
    obtain c' hw' where p: "sha_process_block eng (?c, hw) = (c', hw')" "sha_buf eng mode (bl @ [rest @ part]) [] (c'\<lparr>sc_buffer_len := 0\<rparr>, hw')"
      "sc_total c' = sc_total ?c"
      using process_block_buf [OF b'] by metis
    have "0 < sha_bs mode" using sha_sizes [of mode] by auto
    then show ?thesis
      using p True len
      by (intro exI [of _ "bl @ [rest @ part]"] exI [of _ "[]"] exI [of _ "c'\<lparr>sc_buffer_len := 0\<rparr>"] exI [of _ hw'])
         (simp add: sha_update_turn_def Let_def)
  next
    case False
    then show ?thesis
      using b len assms(2)
      by (intro exI [of _ bl] exI [of _ "rest @ part"] exI [of _ ?c] exI [of _ hw]) (simp add: sha_update_turn_def Let_def)
  qed
qed

lemma update_loop_stream:
  assumes "sha_buf eng mode bl rest (c, hw)" "length rest < sha_bs mode"
  shows "\<exists>bl' rest' c' hw'. sha_update_loop eng input (c, hw) = Some (c', hw') \<and> sha_buf eng mode bl' rest' (c', hw') \<and> length rest' < sha_bs mode
    \<and> concat bl' @ rest' = concat bl @ rest @ input \<and> sc_total c' = sc_total c"
  using assms
proof (induction "length input" arbitrary: input bl rest c hw rule: less_induct)
  case less
  show ?case
  proof (cases "input = []")
    case True
    then show ?thesis using less.prems by (subst sha_update_loop.simps) auto
  next
    case False
    define chunk where "chunk = min (length input) (sha_bs mode - length rest)"
    have ch: "0 < chunk" "chunk \<le> length input" "length rest + length (take chunk input) \<le> sha_bs mode"
      using False less.prems(2) by (auto simp: chunk_def)
    obtain bl1 rest1 c1 hw1 where t: "sha_update_turn eng (take chunk input) (c, hw) = (c1, hw1)" "sha_buf eng mode bl1 rest1 (c1, hw1)"
      "length rest1 < sha_bs mode" "concat bl1 @ rest1 = concat bl @ rest @ take chunk input" "sc_total c1 = sc_total c"
      using update_turn_buf [OF less.prems(1) ch(3)] by blast
    have "length (drop chunk input) < length input" using ch by simp
    then obtain bl2 rest2 c2 hw2 where r: "sha_update_loop eng (drop chunk input) (c1, hw1) = Some (c2, hw2)" "sha_buf eng mode bl2 rest2 (c2, hw2)"
      "length rest2 < sha_bs mode" "concat bl2 @ rest2 = concat bl1 @ rest1 @ drop chunk input" "sc_total c2 = sc_total c1"
      using less.hyps [OF _ t(2,3)] by blast
    have d: "concat bl2 @ rest2 = concat bl @ rest @ input" using r(4) t(4) by (metis append.assoc append_take_drop_id)
    have "sha_bs mode \<le> 128" using sha_sizes [of mode] by auto
    then have "sha_update_loop eng input (c, hw) = sha_update_loop eng (drop chunk input) (c1, hw1)"
      using less.prems False ch(3) t(1) by (subst sha_update_loop.simps) (auto simp: sha_buf_def chunk_def Let_def)
    then show ?thesis using r d t(5) by auto
  qed
qed

text \<open>The state after the message \<open>m\<close>.\<close>

definition sha_at :: "sha_engine \<Rightarrow> SHA_MODE \<Rightarrow> bytes \<Rightarrow> sha_context \<times> hw_security_sha \<Rightarrow> bool" where
  "sha_at eng mode m ch \<longleftrightarrow> (\<exists>bl rest. sha_buf eng mode bl rest ch \<and> length rest < sha_bs mode \<and> m = concat bl @ rest
     \<and> sc_total (fst ch) = of_nat (length m))"

lemma create_at:
  "\<exists>c hw'. sha_create_context True mode hw = (Some c, hw') \<and> sha_at eng mode [] (c, hw')"
  using sha_sizes [of mode] by (auto simp: sha_create_context_def sha_at_def sha_buf_def sha_bs_def)

lemma update_at:
  assumes "sha_at eng mode m ch"
  shows "\<exists>ch'. sha_update eng input ch = Some ch' \<and> sha_at eng mode (m @ input) ch'"
proof -
  obtain c hw where ch: "ch = (c, hw)" by (cases ch)
  obtain bl rest where s: "sha_buf eng mode bl rest (c, hw)" "length rest < sha_bs mode" "m = concat bl @ rest" "sc_total c = of_nat (length m)"
    using assms by (auto simp: sha_at_def ch)
  have "sha_buf eng mode bl rest (c\<lparr>sc_total := sc_total c + of_nat (length input)\<rparr>, hw)" using s(1) by (simp add: sha_buf_def)
  from update_loop_stream [OF this s(2), of input] show ?thesis
    using s(3,4) by (auto simp: sha_at_def sha_update_def ch simp flip: of_nat_add) (metis append.assoc length_append)
qed

section \<open>Padding\<close>

lemma zero_fill_buf:
  assumes "sha_buf eng mode bl rest (c, hw)"
  shows "sha_buf eng mode bl (rest @ replicate (sha_bs mode - length rest) 0) ((sha_zero_fill c)\<lparr>sc_buffer_len := sha_bs mode\<rparr>, hw)"
proof -
  have "length rest \<le> sha_bs mode" "sc_buffer_len c = length rest" "sc_block_size c = sha_bs mode" using assms by (simp_all add: sha_buf_def)
  then show ?thesis using buf_put [OF assms, of "replicate (sha_bs mode - length rest) 0"] by (simp add: sha_zero_fill_def)
qed

text \<open>A block that the zeros complete.\<close>

lemma flush_block:
  assumes "sha_buf eng mode bl rest (c, hw)"
  obtains c' hw' where "sha_process_block eng (sha_zero_fill c, hw) = (c', hw')"
    "sha_buf eng mode (bl @ [rest @ replicate (sha_bs mode - length rest) 0]) [] (c'\<lparr>sc_buffer_len := 0\<rparr>, hw')"
proof -
  have "length (rest @ replicate (sha_bs mode - length rest) 0) = sha_bs mode" using assms by (simp add: sha_buf_def)
  from process_block_buf [OF zero_fill_buf [OF assms] this] show thesis using that by metis
qed

lemma len_tail_be64: "sha_len_tail v = be64_bytes v"
proof -
  have e: "(7 - i) * 8 = 56 - 8 * i" for i :: nat by arith
  show ?thesis by (simp only: be64_bytes_def sha_len_tail_def e)
qed

text \<open>The last block, with the length in its last eight bytes.\<close>

lemma last_block:
  assumes "sha_buf eng mode bl rest (c, hw)" "length rest + 8 \<le> sha_bs mode"
  obtains c' hw' where "sha_last eng bits (c, hw) = (c', hw')" "sc_mode c' = mode"
    "sha_digest_15to0 hw' = sha_chain eng mode (bl @ [rest @ replicate (sha_bs mode - 8 - length rest) 0 @ be64_bytes bits])"
proof -
  let ?b = "rest @ replicate (sha_bs mode - length rest) 0" let ?c = "sha_zero_fill c" let ?t = "be64_bytes bits"
  have l: "length ?b = sha_bs mode" "length ?t = 8" using assms(2) by simp_all
  have upd: "?c\<lparr>sc_buffer := x\<rparr>\<lparr>sc_buffer_len := y\<rparr> = ?c\<lparr>sc_buffer_len := y\<rparr>\<lparr>sc_buffer := x\<rparr>" for x y
    by (rule sha_context.equality) simp_all
  have b: "sha_buf eng mode bl (take (sha_bs mode - 8) ?b @ ?t)
      (?c\<lparr>sc_buffer := buf_write (sha_bs mode - 8) ?t (sc_buffer ?c)\<rparr>\<lparr>sc_buffer_len := sha_bs mode\<rparr>, hw)"
    using buf_tail [OF zero_fill_buf [OF assms(1)] l] unfolding upd by simp
  have t: "take (sha_bs mode - 8) ?b @ ?t = rest @ replicate (sha_bs mode - 8 - length rest) 0 @ ?t" using assms(2) by simp
  have "sc_block_size ?c = sha_bs mode" using assms(1) by (simp add: sha_zero_fill_def sha_buf_def)
  then have last: "sha_last eng bits (c, hw) = sha_process_block eng (?c\<lparr>sc_buffer := buf_write (sha_bs mode - 8) ?t (sc_buffer ?c)\<rparr>, hw)"
    by (simp add: sha_last_def len_tail_be64 Let_def)
  have "length (take (sha_bs mode - 8) ?b @ ?t) = sha_bs mode" using assms(2) by simp
  from process_block_buf [OF b this] show thesis using that unfolding t last by (auto simp: sha_buf_def)
qed

lemma pad_mod:
  assumes "m = concat bl @ rest" "\<forall>b \<in> set bl. length b = n"
  shows "(length m + 1 + k) mod n = (length rest + 1 + k) mod n"
proof -
  have "length m + 1 + k = n * length bl + (length rest + 1 + k)" using length_concat_const [OF assms(2)] assms(1) by simp
  then show ?thesis by (simp only: mod_mult_self4)
qed

lemma pad_zeros:
  "0 < (n :: nat) \<Longrightarrow> n \<le> b \<Longrightarrow> (b - n mod b) mod b = b - n"
  "b < n \<Longrightarrow> n < 2 * b \<Longrightarrow> (b - n mod b) mod b = 2 * b - n"
  by (cases "n = b") (auto simp: le_mod_geq)

lemma sha_ls_bounds: "8 \<le> sha_ls mode" "sha_ls mode < sha_bs mode"
  using sha_sizes [of mode] by auto

lemma pad_one:
  assumes "m = concat bl @ rest" "\<forall>b \<in> set bl. length b = sha_bs mode" "length rest + 1 + sha_ls mode \<le> sha_bs mode"
  shows "sha_pad mode m = concat (bl @ [(rest @ [0x80]) @ replicate (sha_bs mode - 8 - length (rest @ [0x80])) 0 @ be64_bytes (of_nat (8 * length m))])"
proof -
  have z: "(sha_bs mode - (length m + 1 + sha_ls mode) mod sha_bs mode) mod sha_bs mode = sha_bs mode - (length rest + 1 + sha_ls mode)"
    unfolding pad_mod [OF assms(1,2)] by (rule pad_zeros(1)) (use assms(3) in simp_all)
  have "sha_bs mode - (length rest + 1 + sha_ls mode) + (sha_ls mode - 8) = sha_bs mode - 8 - length (rest @ [0x80])"
    using assms(3) sha_ls_bounds(1) [of mode] by simp
  then have r: "replicate (sha_bs mode - (length rest + 1 + sha_ls mode)) (0 :: u8) @ replicate (sha_ls mode - 8) 0
      = replicate (sha_bs mode - 8 - length (rest @ [0x80])) 0"
    by (simp only: replicate_add [symmetric])
  have "sha_pad mode m = m @ 0x80 # (replicate (sha_bs mode - (length rest + 1 + sha_ls mode)) 0 @ replicate (sha_ls mode - 8) 0)
      @ be64_bytes (of_nat (8 * length m))"
    unfolding sha_pad_def z by simp
  then show ?thesis unfolding r by (simp add: assms(1))
qed

lemma pad_two:
  assumes "m = concat bl @ rest" "\<forall>b \<in> set bl. length b = sha_bs mode" "length rest < sha_bs mode" "sha_bs mode < length rest + 1 + sha_ls mode"
  shows "sha_pad mode m = concat (bl @ [(rest @ [0x80]) @ replicate (sha_bs mode - length (rest @ [0x80])) 0]
    @ [replicate (sha_bs mode - 8) 0 @ be64_bytes (of_nat (8 * length m))])"
proof -
  have z: "(sha_bs mode - (length m + 1 + sha_ls mode) mod sha_bs mode) mod sha_bs mode = 2 * sha_bs mode - (length rest + 1 + sha_ls mode)"
    unfolding pad_mod [OF assms(1,2)] by (rule pad_zeros(2)) (use assms(3,4) sha_ls_bounds(2) [of mode] in simp_all)
  have "2 * sha_bs mode - (length rest + 1 + sha_ls mode) + (sha_ls mode - 8) = (sha_bs mode - length (rest @ [0x80])) + (sha_bs mode - 8)"
    using assms(3) sha_ls_bounds [of mode] by simp
  then have r: "replicate (2 * sha_bs mode - (length rest + 1 + sha_ls mode)) (0 :: u8) @ replicate (sha_ls mode - 8) 0
      = replicate (sha_bs mode - length (rest @ [0x80])) 0 @ replicate (sha_bs mode - 8) 0"
    by (simp only: replicate_add [symmetric])
  have "sha_pad mode m = m @ 0x80 # (replicate (2 * sha_bs mode - (length rest + 1 + sha_ls mode)) 0 @ replicate (sha_ls mode - 8) 0)
      @ be64_bytes (of_nat (8 * length m))"
    unfolding sha_pad_def z by simp
  then show ?thesis unfolding r by (simp add: assms(1))
qed

lemma mark_buf:
  assumes "sha_buf eng mode bl rest (c, hw)" "length rest < sha_bs mode"
  shows "sha_buf eng mode bl (rest @ [0x80]) (sha_mark c, hw)"
proof -
  have f: "sc_buffer_len c = length rest" "length rest < length (sc_buffer c)" using assms sha_sizes [of mode] by (auto simp: sha_buf_def)
  then have "(sc_buffer c)[length rest := 0x80] = buf_write (length rest) [0x80] (sc_buffer c)"
    by (simp add: buf_write_def upd_conv_take_nth_drop)
  then show ?thesis using buf_put [OF assms(1), of "[0x80]"] assms(2) f(1) by (simp add: sha_mark_def)
qed

text \<open>After the mark, the engine gets the rest of the padded message.\<close>

lemma last_pad:
  assumes "sha_buf eng mode bl rest (c, hw)" "length rest < sha_bs mode" "m = concat bl @ rest"
  obtains c' hw' where "sha_last eng (of_nat (8 * length m)) (sha_flush eng (sha_ls mode) (sha_mark c, hw)) = (c', hw')" "sc_mode c' = mode"
    "sha_digest_15to0 hw' = sha_chain eng mode (sha_blocks (sha_bs mode) (sha_pad mode m))"
proof -
  let ?x = "rest @ [0x80]" let ?t = "be64_bytes (of_nat (8 * length m))"
  have b1: "sha_buf eng mode bl ?x (sha_mark c, hw)" by (rule mark_buf [OF assms(1,2)])
  have bl: "\<forall>b \<in> set bl. length b = sha_bs mode" using assms(1) by (simp add: sha_buf_def)
  have len: "sc_buffer_len (sha_mark c) = length ?x" "sc_block_size (sha_mark c) = sha_bs mode" using b1 by (simp_all add: sha_buf_def)
  have l8: "8 \<le> sha_ls mode" "sha_ls mode < sha_bs mode" by (rule sha_ls_bounds)+
  show thesis
  proof (cases "sha_bs mode < length rest + 1 + sha_ls mode")
    case False
    then have "length ?x + 8 \<le> sha_bs mode" "length rest + 1 + sha_ls mode \<le> sha_bs mode" using l8 by simp_all
    moreover have "sha_flush eng (sha_ls mode) (sha_mark c, hw) = (sha_mark c, hw)" using False len by (simp add: sha_flush_def)
    moreover have "sha_blocks (sha_bs mode) (sha_pad mode m) = bl @ [?x @ replicate (sha_bs mode - 8 - length ?x) 0 @ ?t]"
      unfolding pad_one [OF assms(3) bl \<open>length rest + 1 + sha_ls mode \<le> sha_bs mode\<close>]
      by (rule sha_blocks_concat) (use l8 bl \<open>length ?x + 8 \<le> sha_bs mode\<close> in auto)
    ultimately show thesis using last_block [OF b1, of "of_nat (8 * length m)"] that by metis
  next
    case True
    obtain c2 hw2 where p: "sha_process_block eng (sha_zero_fill (sha_mark c), hw) = (c2, hw2)"
      "sha_buf eng mode (bl @ [?x @ replicate (sha_bs mode - length ?x) 0]) [] (c2\<lparr>sc_buffer_len := 0\<rparr>, hw2)"
      using flush_block [OF b1] by metis
    have f: "sha_flush eng (sha_ls mode) (sha_mark c, hw) = (c2\<lparr>sc_buffer_len := 0\<rparr>, hw2)" using True len p(1) by (simp add: sha_flush_def)
    have "length ([] :: bytes) + 8 \<le> sha_bs mode" using l8 by simp
    moreover have "sha_blocks (sha_bs mode) (sha_pad mode m)
        = (bl @ [?x @ replicate (sha_bs mode - length ?x) 0]) @ [[] @ replicate (sha_bs mode - 8 - length ([] :: bytes)) 0 @ ?t]"
      unfolding pad_two [OF assms(3) bl assms(2) True] append_assoc append_Nil list.size(3) diff_zero
      by (rule sha_blocks_concat) (use l8 bl assms(2) in auto)
    ultimately show thesis using last_block [OF p(2), of "of_nat (8 * length m)"] that f by metis
  qed
qed

lemma finish_at:
  assumes "sha_at eng mode m (c, hw)"
  shows "\<exists>ch'. sha_finish eng (c, hw) = Some (sha_digest eng mode m, ch')"
proof -
  obtain bl rest where s: "sha_buf eng mode bl rest (c, hw)" "length rest < sha_bs mode" "m = concat bl @ rest" "sc_total c = of_nat (length m)"
    using assms by (auto simp: sha_at_def)
  have f: "sc_buffer_len c = length rest" "sc_block_size c = sha_bs mode" "length (sc_buffer c) = 128" "sha_bs mode \<le> 128"
    using s(1) sha_sizes [of mode] by (auto simp: sha_buf_def)
  have bits: "sc_total c * 8 = of_nat (8 * length m)" by (simp add: s(4) mult.commute)
  have ls: "(if sc_block_size c = SHA_BLOCK_SIZE_LARGE then 16 else 8) = sha_ls mode" by (simp add: sha_ls_def f(2))
  obtain c' hw' where p: "sha_last eng (of_nat (8 * length m)) (sha_flush eng (sha_ls mode) (sha_mark c, hw)) = (c', hw')" "sc_mode c' = mode"
    "sha_digest_15to0 hw' = sha_chain eng mode (sha_blocks (sha_bs mode) (sha_pad mode m))"
    using last_pad [OF s(1-3)] by metis
  have "\<not> (length (sc_buffer c) \<le> sc_buffer_len c \<or> length (sc_buffer c) < sc_block_size c)" using f s(2) by simp
  then have "sha_finish eng (c, hw) = Some (sha_read_digest mode hw', c', hw')"
    by (simp only: sha_finish_def Let_def prod.case bits ls p if_False)
  then show ?thesis using p(3) by (simp only: sha_digest_def sha_read_digest_def Let_def) blast
qed

section \<open>Properties\<close>

text \<open>A run of the driver: a new context and then any number of updates.\<close>

primrec sha_updates :: "sha_engine \<Rightarrow> bytes list \<Rightarrow> sha_context \<times> hw_security_sha \<Rightarrow> (sha_context \<times> hw_security_sha) option" where
  "sha_updates eng [] ch = Some ch"
| "sha_updates eng (p # ps) ch = Option.bind (sha_update eng p ch) (sha_updates eng ps)"

lemma updates_at: "sha_at eng mode m ch \<Longrightarrow> \<exists>ch'. sha_updates eng parts ch = Some ch' \<and> sha_at eng mode (m @ concat parts) ch'"
proof (induction parts arbitrary: m ch)
  case (Cons p ps)
  obtain ch1 where "sha_update eng p ch = Some ch1" "sha_at eng mode (m @ p) ch1" using update_at [OF Cons.prems] by blast
  then show ?case using Cons.IH [of "m @ p" ch1] by auto
qed simp

text \<open>(C7) 
  (C920) The digest. For each of the seven modes and every engine, however the message is cut into updates, the driver
  returns: the loops end, no access leaves the buffer of the context, and the result is the digest of the whole message, the
  compression function of the engine folded over the blocks of the message padded as FIPS 180-4 has it and cut to the size of the
  mode. The one-shot function gives the same.
\<close>

theorem sha_driver_digest:
  "(\<exists>c hw1 ch ch'. sha_create_context True mode hw = (Some c, hw1) \<and> sha_updates eng parts (c, hw1) = Some ch
      \<and> sha_finish eng ch = Some (sha_digest eng mode (concat parts), ch'))
   \<and> (\<exists>hw'. sha_oneshot eng True mode (concat parts) hw = Some (sha_digest eng mode (concat parts), hw'))"
proof -
  obtain c hw1 where c: "sha_create_context True mode hw = (Some c, hw1)" "sha_at eng mode [] (c, hw1)" using create_at by blast
  obtain ch where "sha_updates eng parts (c, hw1) = Some ch" "sha_at eng mode (concat parts) ch" using updates_at [OF c(2)] by fastforce
  moreover from this(2) obtain ch' where "sha_finish eng ch = Some (sha_digest eng mode (concat parts), ch')"
    using finish_at by (metis prod.collapse)
  moreover obtain ch2 where u: "sha_update eng (concat parts) (c, hw1) = Some ch2" "sha_at eng mode (concat parts) ch2"
    using update_at [OF c(2)] by fastforce
  moreover from u(2) obtain ch3 where "sha_finish eng ch2 = Some (sha_digest eng mode (concat parts), ch3)"
    using finish_at by (metis prod.collapse)
  ultimately show ?thesis using c(1) by (cases ch, cases ch', cases ch3) (auto simp: sha_oneshot_def)
qed

text \<open>(C38) 
  (C921) The shape of a context. After any updates the context keeps its mode, the block size of the mode, a buffer of 128 bytes
  with room for at least one byte of the block, and the length of the message in its total; and the digest has the size of the
  mode.
\<close>

theorem sha_context_shape:
  "\<exists>c hw1 c' hw'. sha_create_context True mode hw = (Some c, hw1) \<and> sha_updates eng parts (c, hw1) = Some (c', hw')
     \<and> sc_mode c' = mode \<and> sc_block_size c' = (if mode \<in> {SHA1, SHA224, SHA256} then 64 else 128) \<and> length (sc_buffer c') = 128
     \<and> sc_buffer_len c' = length (concat parts) mod sc_block_size c' \<and> sc_total c' = of_nat (length (concat parts))
     \<and> map_option (length \<circ> fst) (sha_finish eng (c', hw')) = Some (sha_digest_bits mode div 8)"
proof -
  obtain c hw1 where c: "sha_create_context True mode hw = (Some c, hw1)" "sha_at eng mode [] (c, hw1)" using create_at by blast
  obtain c' hw' where u: "sha_updates eng parts (c, hw1) = Some (c', hw')" "sha_at eng mode (concat parts) (c', hw')"
    using updates_at [OF c(2)] by fastforce
  from u(2) obtain bl rest where s: "sha_buf eng mode bl rest (c', hw')" "length rest < sha_bs mode" "concat parts = concat bl @ rest"
    "sc_total c' = of_nat (length (concat parts))"
    by (auto simp: sha_at_def)
  have "length (concat bl) = sha_bs mode * length bl" using s(1) by (intro length_concat_const) (simp add: sha_buf_def)
  then have "length (concat parts) mod sha_bs mode = length rest" using s(2,3) by simp
  moreover have "sha_bs mode = (if mode \<in> {SHA1, SHA224, SHA256} then 64 else 128)" by (cases mode) (simp_all add: sha_bs_def)
  moreover have "length (sha_digest eng mode m) = sha_digest_bits mode div 8" for m
    by (cases mode) (simp_all add: sha_digest_def Let_def length_concat comp_def sum_list_triv)
  moreover obtain ch' where "sha_finish eng (c', hw') = Some (sha_digest eng mode (concat parts), ch')" using finish_at [OF u(2)] by blast
  ultimately show ?thesis using c(1) u(1) s(1,4) by (simp add: sha_buf_def)
qed

section \<open>Hardware and software SHA-1\<close>

text \<open>What the SHA-1 mode of the engine does, by the standard: the chaining value is in the last five digest registers.\<close>

definition sha1_engine :: "sha_engine \<Rightarrow> bool" where
  "sha1_engine eng \<longleftrightarrow> map (eng_iv eng 0) [11..<16] = sh_h wpa2_sha1_init
     \<and> (\<forall>h b. length b = 64 \<longrightarrow> map (eng_comp eng 0 h (be_words b)) [11..<16] = compress (map h [11..<16]) b)"

lemma sha1_chain:
  assumes "sha1_engine eng" "\<forall>b \<in> set bl. length b = 64"
  shows "map (sha_chain eng SHA1 bl) [11..<16] = foldl compress (sh_h wpa2_sha1_init) bl"
  using assms(2)
proof (induction bl rule: rev_induct)
  case Nil
  then show ?case using assms(1) by (simp only: sha_chain_def sha1_engine_def foldl.simps sha_mode_code.simps)
next
  case (snoc b bl)
  then have "map (sha_chain eng SHA1 bl) [11..<16] = foldl compress (sh_h wpa2_sha1_init) bl" "length b = 64" by simp_all
  then show ?case using assms(1) by (simp only: sha_chain_def sha1_engine_def foldl_append foldl.simps sha_mode_code.simps)
qed

lemma sha_blocks_length: "\<forall>b \<in> set (sha_blocks n m). length b = n"
proof
  fix b assume "b \<in> set (sha_blocks n m)"
  then obtain i where i: "b = slice (n * i) n m" "i < length m div n" by (auto simp: sha_blocks_def)
  then have "Suc i * n \<le> length m" by (metis Suc_leI div_times_less_eq_dividend le_trans mult_le_mono1)
  then show "length b = n" using i(1) by (simp add: mult.commute)
qed

lemma sha1_zeros: "(64 - (k + 1 + 8) mod 64) mod 64 = (119 - k mod 64) mod (64 :: nat)"
proof -
  define r where "r = k mod 64"
  have "(k + 1 + 8) mod 64 = (r + 9) mod 64" using mod_add_left_eq [of k 64 9] by (simp add: r_def add.commute)
  moreover have "r < 64" by (simp add: r_def)
  moreover have "(64 - (r + 9) mod 64) mod 64 = (119 - r) mod 64"
    using pad_zeros [of "r + 9" 64] \<open>r < 64\<close> by (cases "r + 9 \<le> 64") (auto simp: le_mod_geq)
  ultimately show ?thesis by (simp only: r_def)
qed

lemma sha1_digest_ref:
  assumes "sha1_engine eng"
  shows "sha_digest eng SHA1 m = sha1_ref m"
proof -
  let ?bl = "sha_blocks 64 (sha_pad SHA1 m)"
  have bs: "sha_bs SHA1 = 64" "sha_ls SHA1 = 8" by (simp_all add: sha_bs_def sha_ls_def)
  have p: "sha_pad SHA1 m = sha1_padded m"
    unfolding sha_pad_def sha1_padded_def bs sha1_zeros by simp
  have "\<forall>b \<in> set ?bl. length b = 64" by (rule sha_blocks_length)
  then have "map (sha_chain eng SHA1 ?bl) [11..<16] = foldl compress (sh_h wpa2_sha1_init) ?bl" by (rule sha1_chain [OF assms])
  then have "sha1_hash (sha1_padded m) = map (\<lambda>i. sha_chain eng SHA1 ?bl (11 + i)) [0..<5]"
    by (simp add: sha1_hash_def sha1_blocks_def sha_blocks_def p upt_rec)
  then show ?thesis
    by (simp add: sha1_ref_def sha_digest_def digest_bytes_def Let_def bs upt_rec)
qed

text \<open>(C31) 
  (C922) Hardware and software agree. With an engine whose SHA-1 mode is the compression function of the standard, the driver's SHA-1
  and the software SHA-1 of the WPA2 code give the same digest of every message.
\<close>

theorem sha1_hardware_software:
  assumes "sha1_engine eng"
  shows "map_option fst (sha_oneshot eng True SHA1 m hw) = Some (wpa2_sha1 m)"
proof -
  obtain c hw1 where c: "sha_create_context True SHA1 hw = (Some c, hw1)" "sha_at eng SHA1 [] (c, hw1)" using create_at by blast
  obtain ch where u: "sha_update eng m (c, hw1) = Some ch" "sha_at eng SHA1 m ch" using update_at [OF c(2)] by fastforce
  then obtain ch' where "sha_finish eng ch = Some (sha_digest eng SHA1 m, ch')" using finish_at by (metis prod.collapse)
  then show ?thesis using c(1) u(1) sha1_digest_ref [OF assms] by (cases ch') (simp add: sha_oneshot_def wpa2_sha1_ref)
qed

text \<open>An engine that computes SHA-1.\<close>

definition soft_engine :: sha_engine where
  "soft_engine = \<lparr>eng_iv = (\<lambda>_ i. sh_h wpa2_sha1_init ! (i - 11)),
     eng_comp = (\<lambda>_ h w i. compress (map h [11..<16]) (concat (map be32_bytes w)) ! (i - 11))\<rparr>"

lemma be32_bytes_be32: "length p = 4 \<Longrightarrow> be32_bytes (be32 p) = p"
proof -
  assume "length p = 4"
  then obtain a b c d where p: "p = [a, b, c, d]" by (auto simp: numeral_eq_Suc length_Suc_conv)
  show ?thesis by (auto simp: p be32_def be32_bytes_def bit_eq_iff bit_simps dest: bit_imp_le_length)
qed

lemma concat_be_words: "4 * n \<le> length b \<Longrightarrow> concat (map (\<lambda>i. be32_bytes (be32 (slice (4 * i) 4 b))) [0..<n]) = take (4 * n) b"
proof (induction n)
  case (Suc n)
  have "take (4 * Suc n) b = take (4 * n) b @ slice (4 * n) 4 b" using take_add [of "4 * n" 4 b] by (simp add: slice_def add.commute)
  then show ?case using Suc by (simp add: be32_bytes_be32)
qed simp

lemma soft_engine_sha1: "sha1_engine soft_engine"
proof -
  have "length (compress h b) = 5" for h b by (simp add: compress_def Let_def split_def)
  then have m: "map (\<lambda>i. compress h b ! (i - 11)) [11..<16] = compress h b" for h b
    by (intro nth_equalityI) (auto simp del: upt_rec_numeral)
  have "concat (map be32_bytes (be_words b)) = b" if "length b = 64" for b
    using concat_be_words [of 16 b] that by (simp add: be_words_def comp_def del: upt_rec_numeral)
  then have "map (eng_comp soft_engine 0 h (be_words b)) [11..<16] = compress (map h [11..<16]) b" if "length b = 64" for h b
    using that m by (simp only: soft_engine_def sha_engine.select_convs)
  moreover have "map (eng_iv soft_engine 0) [11..<16] = sh_h wpa2_sha1_init" by (simp add: soft_engine_def wpa2_sha1_init_def upt_rec)
  ultimately show ?thesis unfolding sha1_engine_def by blast
qed

theorem sha1_hardware_software_witness:
  "map_option fst (sha_oneshot soft_engine True SHA1 [0x61, 0x62, 0x63]
     \<lparr>sha_block_31to0 = (\<lambda>_. 0), sha_digest_15to0 = (\<lambda>_. 0), sha_config_mode = 0, sha_config_en = False\<rparr>) = Some (wpa2_sha1 [0x61, 0x62, 0x63])"
  by (rule sha1_hardware_software [OF soft_engine_sha1])

end
