(* ===== verification/Hw_Aes.thy ===== *)
theory Hw_Aes
  imports Hw_Sha Wpa2_Aes
begin

text \<open>
  The driver of the AES engine, \<open>src/src/platform/drivers/hardware_security/aes.c\<close>. The block cipher of the engine is a parameter;
  what the driver does is modelled: the key and the blocks moved through the registers, and the buffers of the caller, which are
  two places of one memory, so that they may be the same. An access outside the memory or the key is \<open>None\<close>.
\<close>

section \<open>Registers and engine\<close>

datatype AES_MODE = AES128 | AES256 | AES192

fun aes_mode_code :: "AES_MODE \<Rightarrow> 2 word" where
  "aes_mode_code AES128 = 0"
| "aes_mode_code AES256 = 1"
| "aes_mode_code AES192 = 2"

fun aes_key_bytes :: "AES_MODE \<Rightarrow> nat" where
  "aes_key_bytes AES128 = 16"
| "aes_key_bytes AES192 = 24"
| "aes_key_bytes AES256 = 32"

text \<open>A block cipher: from the mode, the direction and the words of the key, four words to four words.\<close>

type_synonym aes_engine = "2 word \<Rightarrow> bool \<Rightarrow> u32 list \<Rightarrow> u32 list \<Rightarrow> nat \<Rightarrow> u32"

text \<open>The registers, and the key schedule the engine holds: what it was derived from at the last \<open>init\<close>.\<close>

record hw_security_aes =
  aes_key_0to7    :: "nat \<Rightarrow> u32"
  aes_cfg_encode  :: bool
  aes_cfg_mode    :: "2 word"
  aes_block_0to3  :: "nat \<Rightarrow> u32"
  aes_result_0to3 :: "nat \<Rightarrow> u32"
  aes_schedule    :: "2 word \<times> bool \<times> u32 list"

definition engine_key_words :: "2 word \<Rightarrow> nat" where
  "engine_key_words m = (if m = 0 then 4 else if m = 1 then 8 else 6)"

definition aes_store_init :: "hw_security_aes \<Rightarrow> hw_security_aes" where
  "aes_store_init hw = hw\<lparr>aes_schedule :=
     (aes_cfg_mode hw, aes_cfg_encode hw, map (aes_key_0to7 hw) [0..<engine_key_words (aes_cfg_mode hw)])\<rparr>"

definition aes_store_next :: "aes_engine \<Rightarrow> hw_security_aes \<Rightarrow> hw_security_aes" where
  "aes_store_next eng hw =
     (let (m, e, k) = aes_schedule hw in hw\<lparr>aes_result_0to3 := eng m e k (map (aes_block_0to3 hw) [0..<4])\<rparr>)"

section \<open>Driver\<close>

record aes_context =
  ac_mode   :: AES_MODE
  ac_encode :: bool
  ac_key    :: bytes

definition engine_init :: "aes_context \<Rightarrow> hw_security_aes \<Rightarrow> hw_security_aes" where
  "engine_init c hw =
     (let hw = hw\<lparr>aes_cfg_encode := ac_encode c, aes_cfg_mode := aes_mode_code (ac_mode c)\<rparr>;
          key_words = aes_key_bytes (ac_mode c) div 4;
          hw = hw\<lparr>aes_key_0to7 := fold (\<lambda>i regs. regs(i := be32 (slice (4 * i) 4 (ac_key c)))) [0..<key_words] (aes_key_0to7 hw)\<rparr>
      in aes_store_init hw)"

definition aes_process_block :: "aes_engine \<Rightarrow> nat \<Rightarrow> nat \<Rightarrow> bytes \<times> hw_security_aes \<Rightarrow> (bytes \<times> hw_security_aes) option" where
  "aes_process_block eng pin pout = (\<lambda>(mem, hw).
     if length mem < pin + 16 \<or> length mem < pout + 16 then None
     else
       let hw = hw\<lparr>aes_block_0to3 := fold (\<lambda>i regs. regs(i := be32 (slice (pin + 4 * i) 4 mem))) [0..<4] (aes_block_0to3 hw)\<rparr>;
           hw = aes_store_next eng hw;
           mem = fold (\<lambda>i mem. buf_write (pout + 4 * i) (be32_bytes (aes_result_0to3 hw i)) mem) [0..<4] mem
       in Some (mem, hw))"

text \<open>\<open>room\<close>: \<open>malloc\<close> finds room.\<close>

definition aes_create_context ::
  "bool \<Rightarrow> AES_MODE \<Rightarrow> bool \<Rightarrow> bytes \<Rightarrow> hw_security_aes \<Rightarrow> (aes_context option \<times> hw_security_aes) option" where
  "aes_create_context room mode encode key hw =
     (if \<not> room then Some (None, hw)
      else if length key < aes_key_bytes mode then None
      else
        let ctx = \<lparr>ac_mode = mode, ac_encode = encode, ac_key = buf_write 0 (take (aes_key_bytes mode) key) (replicate 32 0)\<rparr>
        in Some (Some ctx, engine_init ctx hw))"

text \<open>The loop of \<open>aes_update\<close> over the blocks \<open>i\<close>, \<open>i + 1\<close> and so on, \<open>n\<close> of them.\<close>

fun aes_update_loop :: "aes_engine \<Rightarrow> nat \<Rightarrow> nat \<Rightarrow> nat \<Rightarrow> nat \<Rightarrow> bytes \<times> hw_security_aes \<Rightarrow> (bytes \<times> hw_security_aes) option" where
  "aes_update_loop eng input output i 0 mh = Some mh"
| "aes_update_loop eng input output i (Suc n) mh = do {
     mh \<leftarrow> aes_process_block eng (input + i * 16) (output + i * 16) mh;
     aes_update_loop eng input output (i + 1) n mh
   }"

definition aes_update ::
  "aes_engine \<Rightarrow> aes_context \<Rightarrow> nat \<Rightarrow> nat \<Rightarrow> nat \<Rightarrow> bytes \<times> hw_security_aes \<Rightarrow> (int \<times> bytes \<times> hw_security_aes) option" where
  "aes_update eng ctx input output len mh =
     (if len mod 16 \<noteq> 0 then Some (-1, mh) else map_option (Pair 0) (aes_update_loop eng input output 0 (len div 16) mh))"

definition aes_oneshot ::
  "aes_engine \<Rightarrow> bool \<Rightarrow> AES_MODE \<Rightarrow> bool \<Rightarrow> bytes \<Rightarrow> nat \<Rightarrow> nat \<Rightarrow> nat \<Rightarrow> bytes \<times> hw_security_aes
     \<Rightarrow> (int \<times> bytes \<times> hw_security_aes) option" where
  "aes_oneshot eng room mode encode key input output len = (\<lambda>(mem, hw).
     if len mod 16 \<noteq> 0 then Some (-1, mem, hw)
     else do {
       (ctx, hw) \<leftarrow> aes_create_context room mode encode key hw;
       case ctx of None \<Rightarrow> Some (-1, mem, hw) | Some ctx \<Rightarrow> aes_update eng ctx input output len (mem, hw)
     })"

section \<open>Reference\<close>

text \<open>One block, and the electronic code book.\<close>

definition aes_block :: "(u32 list \<Rightarrow> nat \<Rightarrow> u32) \<Rightarrow> bytes \<Rightarrow> bytes" where
  "aes_block f b = concat (map (\<lambda>i. be32_bytes (f (be_words b) i)) [0..<4])"

definition aes_ecb :: "(u32 list \<Rightarrow> nat \<Rightarrow> u32) \<Rightarrow> bytes \<Rightarrow> bytes" where
  "aes_ecb f m = concat (map (aes_block f) (sha_blocks 16 m))"

definition aes_cipher :: "aes_engine \<Rightarrow> AES_MODE \<Rightarrow> bool \<Rightarrow> bytes \<Rightarrow> u32 list \<Rightarrow> nat \<Rightarrow> u32" where
  "aes_cipher eng mode encode key = eng (aes_mode_code mode) encode (be_words (take (aes_key_bytes mode) key))"

lemma upt4: "[0..<4] = [0, 1, 2, 3 :: nat]"
  by (simp add: upt_rec)

lemma length_aes_block [simp]: "length (aes_block f b) = 16"
  by (simp add: aes_block_def upt4)

lemma length_aes_ecb: "16 dvd length m \<Longrightarrow> length (aes_ecb f m) = length m"
proof -
  assume "16 dvd length m"
  then obtain k where "length m = 16 * k" by auto
  then show ?thesis using length_concat_const [of "map (aes_block f) (sha_blocks 16 m)" 16] by (auto simp: aes_ecb_def sha_blocks_def)
qed

section \<open>A block\<close>

text \<open>The engine with a key schedule for \<open>f\<close>.\<close>

definition engine_for :: "aes_engine \<Rightarrow> (u32 list \<Rightarrow> nat \<Rightarrow> u32) \<Rightarrow> hw_security_aes \<Rightarrow> bool" where
  "engine_for eng f hw \<longleftrightarrow> (let (m, e, k) = aes_schedule hw in eng m e k = f)"

lemma create_engine:
  assumes "aes_key_bytes mode \<le> length key"
  shows "\<exists>ctx hw'. aes_create_context True mode encode key hw = Some (Some ctx, hw') \<and> engine_for eng (aes_cipher eng mode encode key) hw'"
proof -
  let ?k = "aes_key_bytes mode" and ?key = "buf_write 0 (take (aes_key_bytes mode) key) (replicate 32 0)"
  have k: "engine_key_words (aes_mode_code mode) = ?k div 4" "?k \<le> 32" "4 * (?k div 4) = ?k" by (cases mode; simp add: engine_key_words_def)+
  have "slice (4 * i) 4 ?key = slice (4 * i) 4 (take ?k key)" if "i < ?k div 4" for i
  proof -
    have "4 * i + 4 \<le> ?k" using that k(3) by linarith
    then show ?thesis using assms by (simp add: buf_write_def)
  qed
  then have "map (fold (\<lambda>i regs. regs(i := be32 (slice (4 * i) 4 ?key))) [0..<?k div 4] r) [0..<?k div 4] = be_words (take ?k key)" for r
    using assms fold_regs [of 0 "\<lambda>i. be32 (slice (4 * i) 4 ?key)"] by (auto simp: be_words_def)
  then show ?thesis
    using assms k(1) by (auto simp: aes_create_context_def engine_init_def aes_store_init_def engine_for_def aes_cipher_def Let_def)
qed

lemma process_block_ecb:
  assumes "engine_for eng f hw" "pin + 16 \<le> length mem" "pout + 16 \<le> length mem"
  shows "\<exists>hw'. aes_process_block eng pin pout (mem, hw) = Some (buf_write pout (aes_block f (slice pin 16 mem)) mem, hw') \<and> engine_for eng f hw'"
proof -
  have w: "be_words (slice pin 16 mem) = map (\<lambda>i. be32 (slice (pin + 4 * i) 4 mem)) [0..<4]"
    using assms(2) by (simp add: be_words_def slice_slice upt4)
  have st: "buf_write (pout + 12) d (buf_write (pout + 8) c (buf_write (pout + 4) b (buf_write pout a mem))) = buf_write pout (a @ b @ c @ d) mem"
    if "length a = 4" "length b = 4" "length c = 4" "length d = 4" for a b c d :: bytes
    using that assms(3) by (simp add: buf_write_def add.commute)
  show ?thesis
    using assms w
    by (auto simp: aes_process_block_def aes_store_next_def engine_for_def aes_block_def upt4 st Let_def split: prod.splits)
qed

section \<open>The loop\<close>

lemma aes_ecb_snoc:
  assumes "length x = 16 * i" "length b = 16"
  shows "aes_ecb f (x @ b) = aes_ecb f x @ aes_block f b"
proof -
  have "map (\<lambda>j. slice (16 * j) 16 (x @ b)) [0..<i] = map (\<lambda>j. slice (16 * j) 16 x) [0..<i]"
    using assms by (intro map_cong refl slice_append_left) auto
  moreover have "slice (16 * i) 16 (x @ b) = b" using assms by (simp add: slice_def)
  ultimately have "sha_blocks 16 (x @ b) = sha_blocks 16 x @ [b]" using assms by (simp add: sha_blocks_def)
  then show ?thesis by (simp add: aes_ecb_def)
qed

lemma buf_write_extend:
  "off + length x + length b \<le> length m \<Longrightarrow> buf_write (off + length x) b (buf_write off x m) = buf_write off (x @ b) m"
  by (simp add: buf_write_def add.assoc add.commute add.left_commute)

lemma update_loop_ecb:
  assumes "engine_for eng f hw" "pin + 16 * (i + n) \<le> length m" "pout + 16 * (i + n) \<le> length m"
    and "pin = pout \<or> pin + 16 * (i + n) \<le> pout \<or> pout + 16 * (i + n) \<le> pin"
  shows "\<exists>hw'. aes_update_loop eng pin pout i n (buf_write pout (aes_ecb f (slice pin (16 * i) m)) m, hw)
    = Some (buf_write pout (aes_ecb f (slice pin (16 * (i + n)) m)) m, hw')"
  using assms
proof (induction n arbitrary: i hw)
  case (Suc n)
  let ?x = "aes_ecb f (slice pin (16 * i) m)" let ?b = "slice (pin + 16 * i) 16 m"
  have l: "length (slice pin (16 * i) m) = 16 * i" "length ?b = 16" using Suc.prems(2) by simp_all
  then have lx: "length ?x = 16 * i" using length_aes_ecb [of "slice pin (16 * i) m" f] by simp
  have lm: "length (buf_write pout ?x m) = length m" using lx Suc.prems(3) by simp
  have sl: "slice (pin + 16 * i) 16 (buf_write pout ?x m) = ?b"
    using Suc.prems(2-4) lx by (intro slice_buf_write_other) auto
  have "pin + 16 * i + 16 \<le> length (buf_write pout ?x m)" "pout + 16 * i + 16 \<le> length (buf_write pout ?x m)"
    unfolding lm using Suc.prems(2,3) by simp_all
  from process_block_ecb [OF Suc.prems(1) this] obtain hw1 where
    p: "aes_process_block eng (pin + 16 * i) (pout + 16 * i) (buf_write pout ?x m, hw)
      = Some (buf_write (pout + 16 * i) (aes_block f ?b) (buf_write pout ?x m), hw1)" "engine_for eng f hw1"
    unfolding sl by blast
  have "buf_write (pout + 16 * i) (aes_block f ?b) (buf_write pout ?x m) = buf_write pout (?x @ aes_block f ?b) m"
    using buf_write_extend [of pout ?x "aes_block f ?b" m] Suc.prems(3) lx by simp
  also have "?x @ aes_block f ?b = aes_ecb f (slice pin (16 * Suc i) m)"
    using aes_ecb_snoc [OF l, of f] slice_split [of pin "16 * i" 16 m] by (simp add: add.commute)
  finally have q: "aes_process_block eng (pin + i * 16) (pout + i * 16) (buf_write pout ?x m, hw)
      = Some (buf_write pout (aes_ecb f (slice pin (16 * Suc i) m)) m, hw1)"
    using p(1) by (simp add: mult.commute)
  have e: "i + Suc n = Suc i + n" by simp
  have "aes_update_loop eng pin pout i (Suc n) (buf_write pout ?x m, hw)
      = aes_update_loop eng pin pout (Suc i) n (buf_write pout (aes_ecb f (slice pin (16 * Suc i) m)) m, hw1)"
    using q by simp
  then show ?case using Suc.IH [OF p(2), of "Suc i"] Suc.prems(2-4) unfolding e by simp
qed simp

section \<open>Properties\<close>

lemma update_ecb:
  assumes "engine_for eng f hw" "pin + len \<le> length m" "pout + len \<le> length m" "16 dvd len"
    and "pin = pout \<or> pin + len \<le> pout \<or> pout + len \<le> pin"
  shows "\<exists>hw'. aes_update eng ctx pin pout len (m, hw) = Some (0, buf_write pout (aes_ecb f (slice pin len m)) m, hw')"
proof -
  obtain n where n: "len = 16 * n" using assms(4) by auto
  have "buf_write pout (aes_ecb f (slice pin (16 * 0) m)) m = m" by (simp add: aes_ecb_def sha_blocks_def buf_write_def)
  then show ?thesis using update_loop_ecb [of eng f hw pin 0 n m pout] assms(1-3,5) n by (auto simp: aes_update_def)
qed

text \<open>(C32) 
  (C923) The one-shot functions. With a key of the length of the mode and buffers inside the memory, the same or disjoint, a length
  that is a multiple of 16 gives the electronic code book of the input under the key in the output, nothing else written, and 0;
  any other length gives \<open>-1\<close> with the memory and the engine untouched, and so does a lack of memory for the context.
\<close>

theorem aes_oneshot_ecb:
  assumes "aes_key_bytes mode \<le> length key" "input + len \<le> length mem" "output + len \<le> length mem"
    and "input = output \<or> input + len \<le> output \<or> output + len \<le> input"
  shows "(16 dvd len \<longrightarrow> (\<exists>hw'. aes_oneshot eng True mode encode key input output len (mem, hw)
            = Some (0, buf_write output (aes_ecb (aes_cipher eng mode encode key) (slice input len mem)) mem, hw')))
    \<and> (\<not> 16 dvd len \<or> \<not> room \<longrightarrow> aes_oneshot eng room mode encode key input output len (mem, hw) = Some (-1, mem, hw))"
proof -
  obtain ctx hw1 where c: "aes_create_context True mode encode key hw = Some (Some ctx, hw1)" "engine_for eng (aes_cipher eng mode encode key) hw1"
    using create_engine [OF assms(1)] by blast
  show ?thesis
    using update_ecb [OF c(2) assms(2,3) _ assms(4), of ctx] c(1)
    by (auto simp: aes_oneshot_def aes_create_context_def dvd_eq_mod_eq_0)
qed

text \<open>
  (C924) One engine. A context does not carry its key schedule: after a second context is made, an update through the first one
  uses the key, the size and the direction of the second.
\<close>

theorem aes_contexts_share_engine:
  assumes "aes_key_bytes mode1 \<le> length key1" "aes_key_bytes mode2 \<le> length key2" "16 dvd len" "pos + len \<le> length mem"
  shows "\<exists>ctx1 hw1 ctx2 hw2 hw3. aes_create_context True mode1 encode1 key1 hw = Some (Some ctx1, hw1)
    \<and> aes_create_context True mode2 encode2 key2 hw1 = Some (Some ctx2, hw2)
    \<and> aes_update eng ctx1 pos pos len (mem, hw2) = Some (0, buf_write pos (aes_ecb (aes_cipher eng mode2 encode2 key2) (slice pos len mem)) mem, hw3)"
proof -
  obtain ctx1 hw1 where "aes_create_context True mode1 encode1 key1 hw = Some (Some ctx1, hw1)" using create_engine [OF assms(1)] by blast
  moreover obtain ctx2 hw2 where "aes_create_context True mode2 encode2 key2 hw1 = Some (Some ctx2, hw2)"
    and e: "engine_for eng (aes_cipher eng mode2 encode2 key2) hw2"
    using create_engine [OF assms(2)] by blast
  ultimately show ?thesis using update_ecb [OF e assms(4,4,3)] by blast
qed

section \<open>Decryption\<close>

text \<open>The two directions of the cipher under a key are inverse.\<close>

definition aes_inverse :: "aes_engine \<Rightarrow> AES_MODE \<Rightarrow> bytes \<Rightarrow> bool" where
  "aes_inverse eng mode key \<longleftrightarrow> (\<forall>w. length w = 4
     \<longrightarrow> map (aes_cipher eng mode False key (map (aes_cipher eng mode True key w) [0..<4])) [0..<4] = w)"

lemma be_words_bytes: "be_words (concat (map be32_bytes [a, b, c, d])) = [a, b, c, d]"
  by (simp add: be_words_def upt4 slice_def)

lemma concat_be_words16: "length b = 16 \<Longrightarrow> concat (map be32_bytes (be_words b)) = b"
  using concat_be_words [of 4 b] by (simp add: be_words_def comp_def del: upt_rec_numeral)

lemma length_be_words16: "length b = 16 \<Longrightarrow> length (be_words b) = 4"
  by (simp add: be_words_def)

lemma be_words_aes_block: "be_words (aes_block f b) = map (f (be_words b)) [0..<4]"
  using be_words_bytes by (simp add: aes_block_def upt4)

lemma aes_block_inverse:
  assumes "aes_inverse eng mode key" "length b = 16"
  shows "aes_block (aes_cipher eng mode False key) (aes_block (aes_cipher eng mode True key) b) = b"
proof -
  let ?d = "aes_cipher eng mode False key" and ?e = "aes_cipher eng mode True key"
  have "aes_block ?d (aes_block ?e b) = concat (map be32_bytes (map (?d (map (?e (be_words b)) [0..<4])) [0..<4]))"
    by (simp only: aes_block_def [of ?d] be_words_aes_block map_map comp_def)
  also have "map (?d (map (?e (be_words b)) [0..<4])) [0..<4] = be_words b"
    using assms length_be_words16 by (simp only: aes_inverse_def)
  finally show ?thesis using assms(2) by (simp only: concat_be_words16)
qed

lemma aes_ecb_inverse:
  assumes "aes_inverse eng mode key"
  shows "length m = 16 * n \<Longrightarrow> aes_ecb (aes_cipher eng mode False key) (aes_ecb (aes_cipher eng mode True key) m) = m"
proof (induction n arbitrary: m)
  case 0
  then show ?case by (simp add: aes_ecb_def sha_blocks_def)
next
  case (Suc n)
  define x b where "x = take (16 * n) m" and "b = drop (16 * n) m"
  have m: "m = x @ b" "length x = 16 * n" "length b = 16" using Suc.prems by (simp_all add: x_def b_def)
  then show ?case
    using Suc.IH [of x] aes_ecb_snoc [of x n b] aes_ecb_snoc [of "aes_ecb (aes_cipher eng mode True key) x" n]
    by (simp add: length_aes_ecb aes_block_inverse [OF assms])
qed

text \<open>
  (C925) The round trip. With an engine whose decryption inverts its encryption, encrypting a buffer in place and decrypting it in
  place with the same key gives back the memory as it was.
\<close>

theorem hw_aes_roundtrip:
  assumes "aes_inverse eng mode key" "aes_key_bytes mode \<le> length key" "pos + len \<le> length mem" "16 dvd len"
  shows "\<exists>mem1 hw1 hw2. aes_oneshot eng True mode True key pos pos len (mem, hw) = Some (0, mem1, hw1)
    \<and> aes_oneshot eng True mode False key pos pos len (mem1, hw1) = Some (0, mem, hw2)"
proof -
  let ?e = "aes_cipher eng mode True key" and ?d = "aes_cipher eng mode False key" and ?m = "slice pos len mem"
  define mem1 where "mem1 = buf_write pos (aes_ecb ?e ?m) mem"
  have lm: "length ?m = len" using assms(3) by simp
  then have le: "length (aes_ecb ?e ?m) = len" using length_aes_ecb [of ?m ?e] assms(4) by simp
  then have l1: "length mem1 = length mem" "slice pos len mem1 = aes_ecb ?e ?m" using assms(3) by (simp_all add: mem1_def)
  obtain n where "len = 16 * n" using assms(4) by auto
  then have "aes_ecb ?d (slice pos len mem1) = ?m" unfolding l1(2) using aes_ecb_inverse [OF assms(1), of ?m n] lm by simp
  moreover have "buf_write pos ?m mem1 = mem" using le lm assms(3) by (simp add: mem1_def buf_write_def slice_def min_def)
      (metis add.commute append_take_drop_id drop_drop)
  moreover obtain ctx hw0 where c: "aes_create_context True mode True key hw = Some (Some ctx, hw0)" "engine_for eng ?e hw0"
    using create_engine [OF assms(2)] by blast
  moreover obtain hw1 where u: "aes_update eng ctx pos pos len (mem, hw0) = Some (0, mem1, hw1)"
    using update_ecb [OF c(2) assms(3,3,4), of ctx] unfolding mem1_def by blast
  moreover obtain ctx2 hw2 where d: "aes_create_context True mode False key hw1 = Some (Some ctx2, hw2)" "engine_for eng ?d hw2"
    using create_engine [OF assms(2)] by blast
  moreover obtain hw3 where "aes_update eng ctx2 pos pos len (mem1, hw2) = Some (0, buf_write pos (aes_ecb ?d (slice pos len mem1)) mem1, hw3)"
    using update_ecb [OF d(2), of pos len mem1 pos ctx2] assms(3,4) l1(1) by auto
  ultimately show ?thesis using assms(4) by (auto simp: aes_oneshot_def dvd_eq_mod_eq_0)
qed

text \<open>The witnesses use an engine that runs the software AES-128 of the WPA2 code.\<close>

definition soft_aes :: aes_engine where
  "soft_aes = (\<lambda>m e k w i. be_words
     ((if e then wpa2_aes128_encrypt else wpa2_aes128_decrypt) (concat (map be32_bytes k)) (concat (map be32_bytes w))) ! i)"

definition aes_idle :: hw_security_aes where
  "aes_idle = \<lparr>aes_key_0to7 = (\<lambda>_. 0), aes_cfg_encode = False, aes_cfg_mode = 0, aes_block_0to3 = (\<lambda>_. 0), aes_result_0to3 = (\<lambda>_. 0),
     aes_schedule = (0, False, [])\<rparr>"

lemma soft_aes_inverse:
  assumes "length key = 16"
  shows "aes_inverse soft_aes AES128 key"
  unfolding aes_inverse_def
proof (intro allI impI)
  fix w :: "u32 list" assume "length w = 4"
  then obtain a b c d where w: "w = [a, b, c, d]" by (auto simp: numeral_eq_Suc length_Suc_conv)
  define p where "p = concat (map be32_bytes w)"
  have p: "length p = 16" "be_words p = w" using be_words_bytes by (simp_all add: p_def w)
  have k: "concat (map be32_bytes (be_words (take 16 key))) = key" using assms by (simp add: concat_be_words16)
  have m: "map (\<lambda>i. be_words x ! i) [0..<4] = be_words x" if "length x = 16" for x
    using length_be_words16 [OF that] by (metis map_nth)
  define q where "q = wpa2_aes128_encrypt key p"
  have q: "length q = 16" "wpa2_aes128_decrypt key q = p" using assms p by (simp_all add: q_def aes_decrypt_encrypt)
  have "map (aes_cipher soft_aes AES128 True key w) [0..<4] = be_words q"
    using m [OF q(1)] by (simp add: aes_cipher_def soft_aes_def k p_def [symmetric] q_def [symmetric])
  then have "map (aes_cipher soft_aes AES128 False key (map (aes_cipher soft_aes AES128 True key w) [0..<4])) [0..<4] = be_words p"
    using m [OF p(1)] q by (simp add: aes_cipher_def soft_aes_def k concat_be_words16)
  then show "map (aes_cipher soft_aes AES128 False key (map (aes_cipher soft_aes AES128 True key w) [0..<4])) [0..<4] = w"
    by (simp only: p(2))
qed

theorem aes_oneshot_ecb_witness:
  "\<exists>hw'. aes_oneshot soft_aes True AES128 True (replicate 16 1) 0 32 32 (replicate 64 0, aes_idle)
     = Some (0, buf_write 32 (aes_ecb (aes_cipher soft_aes AES128 True (replicate 16 1)) (slice 0 32 (replicate 64 0))) (replicate 64 0), hw')"
  by (rule aes_oneshot_ecb [THEN conjunct1, THEN mp]) simp_all

theorem aes_contexts_share_engine_witness:
  "\<exists>ctx1 hw1 ctx2 hw2 hw3. aes_create_context True AES128 True (replicate 16 1) aes_idle = Some (Some ctx1, hw1)
    \<and> aes_create_context True AES128 False (replicate 16 2) hw1 = Some (Some ctx2, hw2)
    \<and> aes_update soft_aes ctx1 0 0 16 (replicate 16 0, hw2)
        = Some (0, buf_write 0 (aes_ecb (aes_cipher soft_aes AES128 False (replicate 16 2)) (slice 0 16 (replicate 16 0))) (replicate 16 0), hw3)"
  using aes_contexts_share_engine [of AES128 "replicate 16 1" AES128 "replicate 16 2" 16 0 "replicate 16 0" True aes_idle False soft_aes] by simp

theorem hw_aes_roundtrip_witness:
  "\<exists>mem1 hw1 hw2. aes_oneshot soft_aes True AES128 True (replicate 16 7) 0 0 32 (replicate 32 5, aes_idle) = Some (0, mem1, hw1)
    \<and> aes_oneshot soft_aes True AES128 False (replicate 16 7) 0 0 32 (mem1, hw1) = Some (0, replicate 32 5, hw2)"
  using hw_aes_roundtrip [of soft_aes AES128 "replicate 16 7" 0 32 "replicate 32 5" aes_idle] soft_aes_inverse [of "replicate 16 7"] by simp

end
