(* ===== verification/Fal.thy ===== *)
theory Fal
  imports Flash
begin

text \<open>
  The partition table: \<open>src/src/platform/misc/fal/fal.c\<close> and the table the bootloader carries,
  \<open>src/src/applications/bootloader/partition_table.c\<close>. The memory the processor sees is a function from addresses to bytes; raw
  flash is read through the flash driver.
\<close>

section \<open>Entries\<close>

abbreviation FAL_PART_MAGIC_WORD :: u32 where "FAL_PART_MAGIC_WORD \<equiv> 0x45503130"
abbreviation FAL_DEV_NAME_MAX :: nat where "FAL_DEV_NAME_MAX \<equiv> 24"

record fal_partition =
  fp_magic_word :: u32
  fp_name       :: bytes
  fp_flash_name :: bytes
  fp_offset     :: u32
  fp_len        :: u32
  fp_reserved   :: u32

type_synonym xip = "nat \<Rightarrow> u8"

definition xip_bytes :: "xip \<Rightarrow> nat \<Rightarrow> nat \<Rightarrow> bytes" where
  "xip_bytes rom a n = map (\<lambda>i. rom (a + i)) [0..<n]"

text \<open>The entry at an address, as the compiler lays the structure out: 64 bytes.\<close>

definition partition_at :: "xip \<Rightarrow> nat \<Rightarrow> fal_partition" where
  "partition_at rom a =
     \<lparr>fp_magic_word = le32 (xip_bytes rom a 4), fp_name = xip_bytes rom (a + 4) 24, fp_flash_name = xip_bytes rom (a + 28) 24,
      fp_offset = le32 (xip_bytes rom (a + 52) 4), fp_len = le32 (xip_bytes rom (a + 56) 4), fp_reserved = le32 (xip_bytes rom (a + 60) 4)\<rparr>"

text \<open>\<open>strncmp(a, b, n) == 0\<close>; a list stands for its bytes and a zero after them.\<close>

definition first_byte :: "bytes \<Rightarrow> u8" where
  "first_byte xs = (case xs of [] \<Rightarrow> 0 | x # _ \<Rightarrow> x)"

fun strncmp_eq :: "nat \<Rightarrow> bytes \<Rightarrow> bytes \<Rightarrow> bool" where
  "strncmp_eq 0 a b = True"
| "strncmp_eq (Suc n) a b = (first_byte a = first_byte b \<and> (first_byte a = 0 \<or> strncmp_eq n (tl a) (tl b)))"

definition c_string :: "string \<Rightarrow> bytes" where
  "c_string s = map of_char s"

abbreviation FLASH_BEKEN_ONCHIP_CRC :: bytes where "FLASH_BEKEN_ONCHIP_CRC \<equiv> c_string ''beken_onchip_crc''"
abbreviation FLASH_BEKEN_ONCHIP :: bytes where "FLASH_BEKEN_ONCHIP \<equiv> c_string ''beken_onchip''"

section \<open>Finding a partition\<close>

text \<open>The scan looks at the addresses from \<open>0xd000\<close> below \<open>0xf000\<close>, four apart.\<close>

definition fal_partition_table :: "xip \<Rightarrow> nat option" where
  "fal_partition_table rom =
     find (\<lambda>addr. le32 (xip_bytes rom addr 4) = FAL_PART_MAGIC_WORD) (map (\<lambda>i. 0xd000 + 4 * i) [0..<(0xf000 - 0xd000) div 4])"

partial_function (option) fal_find_loop :: "xip \<Rightarrow> bytes \<Rightarrow> nat \<Rightarrow> nat option option" where
  "fal_find_loop rom name p =
     (let e = partition_at rom p
      in if fp_magic_word e \<noteq> FAL_PART_MAGIC_WORD then Some None
         else if strncmp_eq FAL_DEV_NAME_MAX (fp_name e) name then Some (Some p)
         else fal_find_loop rom name (p + 64))"

definition fal_find_partition :: "xip \<Rightarrow> bytes \<Rightarrow> nat option option" where
  "fal_find_partition rom name =
     (case fal_partition_table rom of None \<Rightarrow> Some None | Some p \<Rightarrow> fal_find_loop rom name p)"

text \<open>\<open>None\<close> is the result \<open>-1\<close>. The flash name ends inside its field, so 24 bytes are enough for the two comparisons.\<close>

definition fal_read :: "'h platform \<Rightarrow> xip \<Rightarrow> fal_partition \<Rightarrow> u32 \<Rightarrow> u32 \<Rightarrow> 'h \<Rightarrow> bytes option \<times> 'h" where
  "fal_read pf rom part offset len h =
     (if offset + len > fp_len part then (None, h)
      else if strncmp_eq 24 (fp_flash_name part) FLASH_BEKEN_ONCHIP_CRC
      then (Some (map (\<lambda>i. rom (unat (offset + fp_offset part + of_nat i))) [0..<unat len]), h)
      else let (buf, h) = flash_read pf (fp_offset part + offset) (unat len) h in (Some buf, h))"

section \<open>The table of the bootloader\<close>

definition name_field :: "string \<Rightarrow> bytes" where
  "name_field s = c_string s @ replicate (24 - length s) 0"

definition table_entry :: "string \<Rightarrow> string \<Rightarrow> u32 \<Rightarrow> u32 \<Rightarrow> fal_partition" where
  "table_entry name flash offset len =
     \<lparr>fp_magic_word = FAL_PART_MAGIC_WORD, fp_name = name_field name, fp_flash_name = name_field flash, fp_offset = offset, fp_len = len,
      fp_reserved = 0\<rparr>"

definition partition_table_def :: "fal_partition list" where
  "partition_table_def =
     [table_entry ''bootloader'' ''beken_onchip_crc'' 0 (60 * 1024),
      table_entry ''app'' ''beken_onchip_crc'' 0x10000 (1152 * 1024),
      table_entry ''download'' ''beken_onchip'' 0x132000 (696 * 1024),
      table_entry ''rf_param'' ''beken_onchip'' 0x10000 0x1000,
      table_entry ''unused'' ''beken_onchip'' 0x1e0000 ((128 - 8) * 1024),
      table_entry ''param1'' ''beken_onchip'' 0x1fe000 0x1000,
      table_entry ''param2'' ''beken_onchip'' 0x1ff000 0x1000,
      \<lparr>fp_magic_word = 0, fp_name = replicate 24 0, fp_flash_name = replicate 24 0, fp_offset = 0, fp_len = 0, fp_reserved = 0\<rparr>]"

section \<open>The search\<close>

text \<open>A table in memory: the entries of \<open>es\<close> and an entry without the magic word.\<close>

definition table_in :: "xip \<Rightarrow> nat \<Rightarrow> fal_partition list \<Rightarrow> bool" where
  "table_in rom a es \<longleftrightarrow> (\<forall>k < length es. partition_at rom (a + 64 * k) = es ! k \<and> fp_magic_word (es ! k) = FAL_PART_MAGIC_WORD)
     \<and> fp_magic_word (partition_at rom (a + 64 * length es)) \<noteq> FAL_PART_MAGIC_WORD"

lemma find_loop_table:
  assumes "table_in rom a es" "i \<le> length es"
  shows "fal_find_loop rom name (a + 64 * i)
    = Some (map_option (\<lambda>k. a + 64 * k) (find (\<lambda>k. strncmp_eq 24 (fp_name (es ! k)) name) [i..<length es]))"
  using assms(2)
proof (induction "length es - i" arbitrary: i)
  case 0
  then show ?case using assms(1) by (subst fal_find_loop.simps) (simp add: table_in_def)
next
  case (Suc n)
  then have i: "i < length es" by simp
  then have "fal_find_loop rom name (a + 64 * i) = (if strncmp_eq 24 (fp_name (es ! i)) name then Some (Some (a + 64 * i))
      else fal_find_loop rom name (a + 64 * Suc i))"
    using assms(1) by (subst fal_find_loop.simps) (simp add: table_in_def ac_simps)
  then show ?case using Suc.hyps(1) [of "Suc i"] Suc.hyps(2) i by (simp add: upt_conv_Cons)
qed

lemma table_magic: "table_in rom a es \<Longrightarrow> es \<noteq> [] \<Longrightarrow> le32 (xip_bytes rom a 4) = FAL_PART_MAGIC_WORD"
proof -
  assume "table_in rom a es" "es \<noteq> []"
  then have "fp_magic_word (partition_at rom (a + 64 * 0)) = FAL_PART_MAGIC_WORD" unfolding table_in_def by (metis length_greater_0_conv)
  then show ?thesis by (simp add: partition_at_def)
qed

lemma find_first:
  assumes "P (f i)" "i < n" "\<forall>j < i. \<not> P (f j)"
  shows "find P (map f [0..<n]) = Some (f i)"
  using assms by (auto simp: find_Some_iff intro!: exI [of _ i])

text \<open>
  (C930) The search. When a table of any entries lies at an address of the scanned range and the magic word is at none of the
  addresses before it, the search returns: it gives the first entry with the name, and none when there is no such entry.
\<close>

theorem fal_find_correct:
  assumes "table_in rom (0xd000 + 4 * i) es" "es \<noteq> []" "i < 2048" "\<forall>j < i. le32 (xip_bytes rom (0xd000 + 4 * j) 4) \<noteq> FAL_PART_MAGIC_WORD"
  shows "fal_find_partition rom name
    = Some (map_option (\<lambda>k. 0xd000 + 4 * i + 64 * k) (find (\<lambda>k. strncmp_eq 24 (fp_name (es ! k)) name) [0..<length es]))"
proof -
  have "le32 (xip_bytes rom (0xd000 + 4 * i) 4) = FAL_PART_MAGIC_WORD"
    using assms(1,2) table_magic [of rom "0xd000 + 4 * i" es] by simp
  then have "fal_partition_table rom = Some (0xd000 + 4 * i)"
    unfolding fal_partition_table_def using assms(3,4)
    by (intro find_first [where f = "\<lambda>i. 0xd000 + 4 * i"]) simp_all
  then show ?thesis using find_loop_table [OF assms(1), of 0 name] by (simp add: fal_find_partition_def)
qed

text \<open>The image of a table, as the linker places it in the flash, and the memory with it at an address.\<close>

definition partition_bytes :: "fal_partition \<Rightarrow> bytes" where
  "partition_bytes e = le32_bytes (fp_magic_word e) @ fp_name e @ fp_flash_name e @ le32_bytes (fp_offset e) @ le32_bytes (fp_len e)
     @ le32_bytes (fp_reserved e)"

definition rom_with :: "nat \<Rightarrow> bytes \<Rightarrow> xip" where
  "rom_with a bs x = (if a \<le> x \<and> x < a + length bs then bs ! (x - a) else 0xFF)"

definition name_fields :: "fal_partition \<Rightarrow> bool" where
  "name_fields e \<longleftrightarrow> length (fp_name e) = 24 \<and> length (fp_flash_name e) = 24"

lemma length_partition_bytes: "name_fields e \<Longrightarrow> length (partition_bytes e) = 64"
  by (simp add: partition_bytes_def name_fields_def)

lemma xip_bytes_rom: "off + n \<le> length bs \<Longrightarrow> xip_bytes (rom_with a bs) (a + off) n = slice off n bs"
  by (rule sym, rule slice_eqI) (simp_all add: xip_bytes_def rom_with_def)

lemma partition_at_rom:
  assumes "off + 64 \<le> length bs" "slice off 64 bs = partition_bytes e" "name_fields e"
  shows "partition_at (rom_with a bs) (a + off) = e"
proof -
  have x: "xip_bytes (rom_with a bs) (a + off + o') n = slice o' n (partition_bytes e)" if "o' + n \<le> 64" for o' n
    using xip_bytes_rom [of "off + o'" n bs a] slice_slice [of o' n 64 off bs] assms(1,2) that by (simp add: add.assoc)
  show ?thesis
    using x [of 0 4] x [of 4 24] x [of 28 24] x [of 52 4] x [of 56 4] x [of 60 4] assms(3)
    by (simp add: partition_at_def partition_bytes_def name_fields_def slice_def)
qed

lemma table_image:
  assumes "\<forall>e \<in> set (es @ [t]). name_fields e" "\<forall>e \<in> set es. fp_magic_word e = FAL_PART_MAGIC_WORD" "fp_magic_word t \<noteq> FAL_PART_MAGIC_WORD"
  shows "table_in (rom_with a (concat (map partition_bytes (es @ [t])))) a es"
proof -
  let ?bs = "concat (map partition_bytes (es @ [t]))"
  have l64: "length (concat (map partition_bytes xs)) = 64 * length xs" if "set xs \<subseteq> set (es @ [t])" for xs
    using that assms(1) by (induction xs) (auto simp: length_partition_bytes)
  have "partition_at (rom_with a ?bs) (a + 64 * k) = (es @ [t]) ! k" if k: "k < length (es @ [t])" for k
  proof -
    let ?e = "(es @ [t]) ! k"
    have "es @ [t] = take k (es @ [t]) @ ?e # drop (Suc k) (es @ [t])" using k by (rule id_take_nth_drop)
    then have "?bs = concat (map partition_bytes (take k (es @ [t]))) @ partition_bytes ?e @ concat (map partition_bytes (drop (Suc k) (es @ [t])))"
      by (metis concat.simps(2) concat_append list.simps(9) map_append)
    moreover have "length (concat (map partition_bytes (take k (es @ [t])))) = 64 * k"
    proof -
      have "length (take k (es @ [t])) = k" using k by simp
      then show ?thesis by (simp only: l64 [OF set_take_subset])
    qed
    moreover have "name_fields ?e" using assms(1) k nth_mem by blast
    moreover have "64 * k + 64 \<le> length ?bs" using l64 [of "es @ [t]"] k by simp
    ultimately show ?thesis by (intro partition_at_rom) (simp_all add: slice_def length_partition_bytes)
  qed
  from this [of "length es"] this show ?thesis
    using assms(2,3) by (auto simp: table_in_def nth_append)
qed

text \<open>The table of the bootloader at \<open>0xe000\<close>, where the linker script puts it.\<close>

theorem fal_find_correct_witness:
  "fal_find_partition (rom_with 0xe000 (concat (map partition_bytes partition_table_def))) (c_string ''download'') = Some (Some (0xe000 + 2 * 64))"
proof -
  let ?rom = "rom_with 0xe000 (concat (map partition_bytes partition_table_def))" and ?es = "butlast partition_table_def"
  have p: "partition_table_def = ?es @ [last partition_table_def]" by (simp add: partition_table_def_def)
  have "\<forall>e \<in> set (?es @ [last partition_table_def]). name_fields e"
    by (simp add: partition_table_def_def name_fields_def table_entry_def name_field_def c_string_def)
  then have "table_in (rom_with 0xe000 (concat (map partition_bytes (?es @ [last partition_table_def])))) 0xe000 ?es"
    by (rule table_image) (simp_all add: partition_table_def_def table_entry_def)
  then have t: "table_in ?rom (0xd000 + 4 * 1024) ?es" using p by simp
  have r: "le32 [0xFF, 0xFF, 0xFF, 0xFF] \<noteq> FAL_PART_MAGIC_WORD" by code_simp
  have "le32 (xip_bytes ?rom (0xd000 + 4 * j) 4) \<noteq> FAL_PART_MAGIC_WORD" if "j < 1024" for j
  proof -
    have "xip_bytes ?rom (0xd000 + 4 * j) 4 = [0xFF, 0xFF, 0xFF, 0xFF]" using that by (simp add: xip_bytes_def rom_with_def upt_rec)
    then show ?thesis using r by simp
  qed
  moreover have "\<not> strncmp_eq 24 (name_field ''bootloader'') (c_string ''download'')" "\<not> strncmp_eq 24 (name_field ''app'') (c_string ''download'')"
    "strncmp_eq 24 (name_field ''download'') (c_string ''download'')"
    by code_simp+
  then have "find (\<lambda>k. strncmp_eq 24 (fp_name (?es ! k)) (c_string ''download'')) [0..<length ?es] = Some 2"
    by (simp add: partition_table_def_def table_entry_def upt_rec)
  moreover have "?es \<noteq> []" by (simp add: partition_table_def_def)
  ultimately show ?thesis using fal_find_correct [OF t, of "c_string ''download''"] by simp
qed

section \<open>Layout\<close>

text \<open>The bytes of the flash chip a partition takes. In the space with checksums 32 bytes take 34.\<close>

definition physical_range :: "fal_partition \<Rightarrow> nat \<times> nat" where
  "physical_range p =
     (let a = unat (fp_offset p); b = a + unat (fp_len p)
      in if strncmp_eq 24 (fp_flash_name p) FLASH_BEKEN_ONCHIP_CRC then (a div 32 * 34, b div 32 * 34) else (a, b))"

definition overlap :: "nat \<times> nat \<Rightarrow> nat \<times> nat \<Rightarrow> bool" where
  "overlap = (\<lambda>(a, b) (c, d). a < d \<and> c < b)"

definition layout :: "(nat \<times> nat) list" where
  "layout = map physical_range (butlast partition_table_def)"

definition overlaps :: "(nat \<times> nat) list \<Rightarrow> (nat \<times> nat) list" where
  "overlaps rs = [(i, j). j \<leftarrow> [0..<length rs], i \<leftarrow> [0..<j], overlap (rs ! i) (rs ! j)]"

lemma crc_names:
  "strncmp_eq 24 (name_field ''beken_onchip_crc'') FLASH_BEKEN_ONCHIP_CRC"
  "\<not> strncmp_eq 24 (name_field ''beken_onchip'') FLASH_BEKEN_ONCHIP_CRC"
  by code_simp+

lemma range_crc:
  "physical_range (table_entry name ''beken_onchip_crc'' off len) = (unat off div 32 * 34, (unat off + unat len) div 32 * 34)"
  by (simp add: physical_range_def table_entry_def crc_names Let_def)

lemma range_raw: "physical_range (table_entry name ''beken_onchip'' off len) = (unat off, unat off + unat len)"
  by (simp add: physical_range_def table_entry_def crc_names Let_def)

lemma layout_eq:
  "layout = [(0, 0xFF00), (0x11000, 0x143000), (0x132000, 0x1E0000), (0x10000, 0x11000), (0x1E0000, 0x1FE000), (0x1FE000, 0x1FF000),
     (0x1FF000, 0x200000)]"
  by (simp add: layout_def partition_table_def_def range_crc range_raw)


section \<open>Reading\<close>

text \<open>
  (C932) Reading a raw partition that lies within the chip. When \<open>offset + len\<close> does not pass \<open>2 ^ 32\<close>, a read within the partition
  gives its bytes and any other is refused with nothing done; a sum that wraps around gets past the check, and the flash outside
  the partition is read.
\<close>

theorem fal_read_within:
  assumes "nor_flash pf chip sz" "\<not> strncmp_eq 24 (fp_flash_name part) FLASH_BEKEN_ONCHIP_CRC" "unat (fp_offset part) + unat (fp_len part) \<le> sz"
    and "sz < 2 ^ 32"
  shows "(unat offset + unat len \<le> unat (fp_len part) \<longrightarrow>
      fst (fal_read pf rom part offset len h) = Some (mem_bytes (nor_mem (chip h)) (unat (fp_offset part) + unat offset) (unat len)))
    \<and> (unat (fp_len part) < unat offset + unat len \<and> unat offset + unat len < 2 ^ 32 \<longrightarrow> fal_read pf rom part offset len h = (None, h))
    \<and> (0 < fp_offset part \<longrightarrow>
      fst (fal_read pf rom part (- 1) 1 h) = Some (mem_bytes (nor_mem (chip h)) (unat (fp_offset part) - 1) 1))"
proof -
  have sum: "unat (offset + len) = unat offset + unat len" if "unat offset + unat len < 2 ^ 32"
    using that by (simp add: unat_word_ariths(1))
  have a: "fst (fal_read pf rom part offset len h) = Some (mem_bytes (nor_mem (chip h)) (unat (fp_offset part) + unat offset) (unat len))"
    if le: "unat offset + unat len \<le> unat (fp_len part)"
  proof -
    have "unat offset + unat len < 2 ^ 32" using le unsigned_less [of "fp_len part", where 'a = nat] by simp
    then have "\<not> fp_len part < offset + len" using sum le by (simp add: word_less_nat_alt)
    moreover have "unat (fp_offset part + offset) = unat (fp_offset part) + unat offset"
      using le assms(3,4) by (simp add: unat_word_ariths(1))
    ultimately show ?thesis
      using assms(2,3) le nor_flash.flash_read_eq [OF assms(1), of "fp_offset part + offset" "unat len" h]
      by (simp add: fal_read_def split_beta)
  qed
  have b: "fal_read pf rom part offset len h = (None, h)" if "unat (fp_len part) < unat offset + unat len" "unat offset + unat len < 2 ^ 32"
    using that sum by (simp add: fal_read_def word_less_nat_alt)
  have c: "fst (fal_read pf rom part (- 1) 1 h) = Some (mem_bytes (nor_mem (chip h)) (unat (fp_offset part) - 1) 1)" if "0 < fp_offset part"
  proof -
    have "fp_offset part \<noteq> 0" using that by auto
    then have u: "unat (fp_offset part - 1) = unat (fp_offset part) - 1" "0 < unat (fp_offset part)" by (simp_all add: unat_minus_one unat_gt_0)
    then have "unat (fp_offset part - 1) + 1 \<le> sz" using assms(3) by simp
    from nor_flash.flash_read_eq [OF assms(1) this, of h] show ?thesis
      using assms(2) u by (simp add: fal_read_def split_beta)
  qed
  show ?thesis using a b c by blast
qed

theorem fal_read_within_witness:
  "fst (fal_read chip_platform (\<lambda>_. 0) (partition_table_def ! 5) 0x10 4 blank_chip) = Some [0xFF, 0xFF, 0xFF, 0xFF]"
  using fal_read_within [OF chip.nor_flash_axioms, of "partition_table_def ! 5" "0x10" 4 "\<lambda>_. 0" blank_chip] crc_names
  by (simp add: partition_table_def_def table_entry_def mem_bytes_def blank_chip_def upt_rec)

end
