(* ===== verification/Clocks.thy ===== *)
theory Clocks
  imports Prelude
begin

text \<open>
  Clocks and waiting: the processor clock (\<open>src/src/platform/drivers/hardware_sctrl/cpu_freq.c\<close>), waiting by counting
  (\<open>src/src/platform/misc/busy_wait/busy_wait.c\<close>) and the 48-bit microsecond counter
  (\<open>src/src/platform/drivers/hardware_time/time.c\<close>), which the processor reads as two words while it runs.
\<close>

section \<open>The processor clock\<close>

abbreviation DPLL_CLOCK_HZ :: u32 where "DPLL_CLOCK_HZ \<equiv> 480000000"
abbreviation XTAL_CLOCK_HZ :: u32 where "XTAL_CLOCK_HZ \<equiv> 26000000"

datatype mclk_source = MCLK_SOURCE_DCO | MCLK_SOURCE_26M_XTAL | MCLK_SOURCE_DPLL | MCLK_SOURCE_LPO

fun mclk_code :: "mclk_source \<Rightarrow> 2 word" where
  "mclk_code MCLK_SOURCE_DCO = 0"
| "mclk_code MCLK_SOURCE_26M_XTAL = 1"
| "mclk_code MCLK_SOURCE_DPLL = 2"
| "mclk_code MCLK_SOURCE_LPO = 3"

text \<open>The two fields of \<open>hw_sctrl->control\<close> and the rest of the register.\<close>

record sctrl_control =
  sc_mclk_source :: "2 word"
  sc_divider     :: "4 word"
  sc_rest        :: u32

definition dpll_config :: "u32 \<Rightarrow> u32 \<times> mclk_source \<times> u32" where
  "dpll_config freq = (freq, MCLK_SOURCE_DPLL, DPLL_CLOCK_HZ div freq - 1)"

definition cpu_configs :: "(u32 \<times> mclk_source \<times> u32) list" where
  "cpu_configs =
     map dpll_config [160000000, 120000000, 96000000, 80000000, 60000000, 48000000, 40000000, 32000000, 30000000]
       @ [(26000000, MCLK_SOURCE_26M_XTAL, 0), (13000000, MCLK_SOURCE_26M_XTAL, 1)]"

definition sctrl_set_cpu_freq_hz :: "u32 \<Rightarrow> sctrl_control \<Rightarrow> bool \<times> sctrl_control" where
  "sctrl_set_cpu_freq_hz freq reg =
     (case find (\<lambda>(f, src, d). f = freq) cpu_configs of
        None \<Rightarrow> (False, reg)
      | Some (f, src, d) \<Rightarrow> (True, reg\<lparr>sc_mclk_source := mclk_code src, sc_divider := ucast d\<rparr>))"

definition sctrl_get_cpu_freq_hz :: "sctrl_control \<Rightarrow> u32" where
  "sctrl_get_cpu_freq_hz reg =
     (let clk_freq = (if sc_mclk_source reg = mclk_code MCLK_SOURCE_DPLL then DPLL_CLOCK_HZ else XTAL_CLOCK_HZ)
      in clk_freq div (ucast (sc_divider reg) + 1))"

text \<open>Each of the eleven frequencies can be set and is read back; any other value is refused and changes nothing.\<close>

theorem cpu_freq_roundtrip:
  "if freq \<in> {160000000, 120000000, 96000000, 80000000, 60000000, 48000000, 40000000, 32000000, 30000000, 26000000, 13000000}
   then fst (sctrl_set_cpu_freq_hz freq reg) \<and> sctrl_get_cpu_freq_hz (snd (sctrl_set_cpu_freq_hz freq reg)) = freq
     \<and> sc_rest (snd (sctrl_set_cpu_freq_hz freq reg)) = sc_rest reg
   else sctrl_set_cpu_freq_hz freq reg = (False, reg)"
  by (auto simp: sctrl_set_cpu_freq_hz_def sctrl_get_cpu_freq_hz_def cpu_configs_def dpll_config_def)

section \<open>Waiting by counting\<close>

text \<open>The passes of the loop in assembly: subtract four, and again when there was no borrow. A pass that goes on takes four cycles.\<close>

fun wait_passes :: "nat \<Rightarrow> nat" where
  "wait_passes n = (if 4 \<le> n then 1 + wait_passes (n - 4) else 1)"

declare wait_passes.simps [simp del]

definition busy_wait_at_least_cycles :: "u32 \<Rightarrow> nat" where
  "busy_wait_at_least_cycles minimum_cycles = wait_passes (unat minimum_cycles)"

definition cycles_per_half_us :: "sctrl_control \<Rightarrow> u32" where
  "cycles_per_half_us reg = sctrl_get_cpu_freq_hz reg div 2000000"

definition busy_wait_half_us :: "u32 \<Rightarrow> sctrl_control \<Rightarrow> nat" where
  "busy_wait_half_us half_us reg = busy_wait_at_least_cycles (half_us * cycles_per_half_us reg)"

definition busy_wait_us :: "u32 \<Rightarrow> sctrl_control \<Rightarrow> nat" where
  "busy_wait_us us reg = busy_wait_at_least_cycles (us * 2 * cycles_per_half_us reg)"

definition busy_wait_ms :: "u32 \<Rightarrow> sctrl_control \<Rightarrow> nat" where
  "busy_wait_ms ms reg = busy_wait_us (ms * 1000) reg"

definition busy_wait :: "u32 \<Rightarrow> sctrl_control \<Rightarrow> nat" where
  "busy_wait sec reg = sum_list (map (\<lambda>i. busy_wait_us 1000000 reg) [0..<unat sec])"

lemma wait_passes_eq: "wait_passes n = n div 4 + 1"
  by (induction n rule: wait_passes.induct) (subst wait_passes.simps, simp add: div_if [of _ 4])

lemma half_us_cycles:
  assumes "fst (sctrl_set_cpu_freq_hz freq reg0)"
  shows "unat freq = (if freq = 13000000 then 13000000 else unat (cycles_per_half_us (snd (sctrl_set_cpu_freq_hz freq reg0))) * 2000000)"
    and "freq = 13000000 \<Longrightarrow> cycles_per_half_us (snd (sctrl_set_cpu_freq_hz freq reg0)) = 6"
  using assms
  by (auto simp: sctrl_set_cpu_freq_hz_def cycles_per_half_us_def sctrl_get_cpu_freq_hz_def cpu_configs_def dpll_config_def split: if_splits)

lemma busy_wait_us_passes:
  assumes "unat us * 2 * unat (cycles_per_half_us reg) < 2 ^ 32"
  shows "busy_wait_us us reg = unat us * 2 * unat (cycles_per_half_us reg) div 4 + 1"
proof -
  have "us * 2 * cycles_per_half_us reg = of_nat (unat us * 2 * unat (cycles_per_half_us reg))" by simp
  then have "unat (us * 2 * cycles_per_half_us reg) = unat us * 2 * unat (cycles_per_half_us reg)"
    using assms by (simp only: unat_of_nat) (simp add: take_bit_nat_eq_self)
  then show ?thesis by (simp add: busy_wait_us_def busy_wait_at_least_cycles_def wait_passes_eq)
qed

text \<open>(C33) 
  (C941) How long \<open>busy_wait_us\<close> counts, at every frequency that can be set, as long as the number of cycles fits in 32 bits: its passes
  take more cycles than the processor does in the time asked for, except at 13 MHz, where half a microsecond is not a whole number
  of cycles, and the count is one cycle in thirteen short.
\<close>

theorem busy_wait_duration:
  assumes "fst (sctrl_set_cpu_freq_hz freq reg0)" "unat us * unat freq < 2 ^ 32 * 1000000"
  defines "passes \<equiv> busy_wait_us us (snd (sctrl_set_cpu_freq_hz freq reg0))"
  shows "if freq = 13000000 then 4 * passes \<le> 12 * unat us + 4 else unat us * unat freq < 4 * passes * 1000000"
proof (cases "freq = 13000000")
  case True
  let ?reg = "snd (sctrl_set_cpu_freq_hz freq reg0)"
  have c: "cycles_per_half_us ?reg = 6" by (rule half_us_cycles(2) [OF assms(1) True])
  have "unat us * 13000000 < 2 ^ 32 * 1000000" using assms(2) True by simp
  then have "unat us * 2 * unat (cycles_per_half_us ?reg) < 2 ^ 32" unfolding c by simp
  from busy_wait_us_passes [OF this] have "passes = unat us * 12 div 4 + 1" unfolding passes_def c by simp
  then show ?thesis using True by simp
next
  case False
  let ?reg = "snd (sctrl_set_cpu_freq_hz freq reg0)"
  define c where "c = unat us * 2 * unat (cycles_per_half_us ?reg)"
  have f: "unat us * unat freq = c * 1000000" using half_us_cycles(1) [OF assms(1)] False by (simp add: c_def)
  then have "c < 2 ^ 32" using assms(2) by simp
  then have "passes = c div 4 + 1" using busy_wait_us_passes unfolding passes_def c_def by blast
  then have "c < 4 * passes" by (simp add: dividend_less_div_times)
  then show ?thesis using False f by simp
qed

theorem busy_wait_duration_witness:
  "500 * 120000000 < 4 * busy_wait_us 500 (snd (sctrl_set_cpu_freq_hz 120000000 \<lparr>sc_mclk_source = 0, sc_divider = 0, sc_rest = 0\<rparr>)) * 1000000"
  using busy_wait_duration [of 120000000 "\<lparr>sc_mclk_source = 0, sc_divider = 0, sc_rest = 0\<rparr>" 500]
  by (simp add: sctrl_set_cpu_freq_hz_def cpu_configs_def dpll_config_def)

section \<open>The microsecond counter\<close>

text \<open>The counter of the MAC block: its value at the \<open>k\<close>-th access of the processor to it. Its two words are read one at a time.\<close>

type_synonym counter = "nat \<Rightarrow> nat"

definition counter_hi :: "counter \<Rightarrow> nat \<Rightarrow> u32" where
  "counter_hi ctr k = of_nat (ctr k div 2 ^ 32)"

definition counter_lo :: "counter \<Rightarrow> nat \<Rightarrow> u32" where
  "counter_lo ctr k = of_nat (ctr k)"

definition time_counter_is_running :: "(nat \<Rightarrow> u32) \<Rightarrow> bool" where
  "time_counter_is_running hf = (let first = hf 0 in list_ex (\<lambda>i. hf (i + 1) \<noteq> first) [0..<16])"

definition get_us_counter :: "counter \<Rightarrow> nat \<Rightarrow> u32" where
  "get_us_counter ctr k = counter_lo ctr k"

partial_function (option) get_absolute_time :: "counter \<Rightarrow> nat \<Rightarrow> (u64 \<times> nat) option" where
  "get_absolute_time ctr k =
     (let hi1 = counter_hi ctr k; lo = counter_lo ctr (k + 1); hi2 = counter_hi ctr (k + 2)
      in if hi1 \<noteq> hi2 then get_absolute_time ctr (k + 3) else Some (push_bit 32 (ucast hi2) OR ucast lo, k + 3))"

definition to_us_since_boot :: "u64 \<Rightarrow> u64" where
  "to_us_since_boot t = t"

definition to_ms_since_boot :: "u64 \<Rightarrow> u64" where
  "to_ms_since_boot t = t div 1000"

definition delayed_by_us :: "u64 \<Rightarrow> u64 \<Rightarrow> u64" where
  "delayed_by_us t us = t + us"

definition make_timeout_time_us :: "counter \<Rightarrow> nat \<Rightarrow> u64 \<Rightarrow> (u64 \<times> nat) option" where
  "make_timeout_time_us ctr k us = map_option (\<lambda>(t, k). (delayed_by_us t us, k)) (get_absolute_time ctr k)"

definition absolute_time_diff_us :: "u64 \<Rightarrow> u64 \<Rightarrow> int" where
  "absolute_time_diff_us from to = sint (to_us_since_boot to - to_us_since_boot from)"

lemma join_words: "unat (push_bit 32 (ucast (hi :: u32)) OR ucast (lo :: u32) :: u64) = unat hi * 2 ^ 32 + unat lo"
proof -
  have "(push_bit 32 (ucast hi) :: u64) AND ucast lo = 0"
    by (rule bit_word_eqI) (auto simp: bit_simps dest: bit_imp_le_length)
  then have "(push_bit 32 (ucast hi) OR ucast lo :: u64) = push_bit 32 (ucast hi) + ucast lo" by (rule disjunctive_add_eq_or [symmetric])
  also have "\<dots> = of_nat (unat hi * 2 ^ 32 + unat lo)" by (simp add: push_bit_eq_mult mult.commute)
  finally have e: "(push_bit 32 (ucast hi) OR ucast lo :: u64) = of_nat (unat hi * 2 ^ 32 + unat lo)" .
  have "unat hi \<le> 2 ^ 32 - 1" "unat lo < 2 ^ 32" using unsigned_less [of hi, where 'a = nat] unsigned_less [of lo, where 'a = nat] by simp_all
  then have "unat hi * 2 ^ 32 + unat lo < 2 ^ 64" by simp
  moreover have "unat (of_nat n :: u64) = n" if "n < 2 ^ 64" for n using that by (simp add: unat_of_nat take_bit_nat_eq_self)
  ultimately show ?thesis unfolding e by blast
qed

lemma counter_value:
  assumes "mono ctr" "\<forall>n. ctr n < 2 ^ 48" "counter_hi ctr k = counter_hi ctr (k + 2)"
  shows "unat (push_bit 32 (ucast (counter_hi ctr (k + 2))) OR ucast (counter_lo ctr (k + 1)) :: u64) = ctr (k + 1)"
proof -
  have hi: "unat (counter_hi ctr n) = ctr n div 2 ^ 32" for n
  proof -
    have "ctr n div 2 ^ 32 < 2 ^ 16" using assms(2) by (intro less_mult_imp_div_less) simp
    then show ?thesis by (simp add: counter_hi_def unat_of_nat take_bit_nat_eq_self)
  qed
  have "ctr k div 2 ^ 32 \<le> ctr (k + 1) div 2 ^ 32" "ctr (k + 1) div 2 ^ 32 \<le> ctr (k + 2) div 2 ^ 32"
    using assms(1) by (simp_all add: div_le_mono monoD)
  then have "ctr (k + 2) div 2 ^ 32 = ctr (k + 1) div 2 ^ 32" using assms(3) hi by (metis order_antisym)
  moreover have "unat (counter_lo ctr (k + 1)) = ctr (k + 1) mod 2 ^ 32" by (simp add: counter_lo_def unat_of_nat take_bit_eq_mod)
  ultimately show ?thesis using hi div_mult_mod_eq [of "ctr (k + 1)" "2 ^ 32"] by (simp only: join_words)
qed

text \<open>(C29) 
  (C942) The time is not torn. While the counter runs forward, stays below \<open>2 ^ 48\<close> and takes less than \<open>2 ^ 32\<close> microseconds for six
  accesses, \<open>get_absolute_time\<close> returns after at most two rounds, and its result is the value the counter had at one moment during
  the call, although its two halves are read apart.
\<close>

theorem absolute_time_not_torn:
  assumes "mono ctr" "\<forall>n. ctr n < 2 ^ 48" "\<forall>n. ctr (n + 5) < ctr n + 2 ^ 32"
  shows "\<exists>t k' j. get_absolute_time ctr k = Some (t, k') \<and> k' \<le> k + 6 \<and> k < j \<and> j < k' \<and> unat t = ctr j"
proof -
  have val: "\<exists>t. get_absolute_time ctr n = Some (t, n + 3) \<and> unat t = ctr (n + 1)" if "counter_hi ctr n = counter_hi ctr (n + 2)" for n
    using counter_value [OF assms(1,2) that] that by (subst get_absolute_time.simps) simp
  have step: "ctr n div 2 ^ 32 < ctr (n + 2) div 2 ^ 32" if "counter_hi ctr n \<noteq> counter_hi ctr (n + 2)" for n
  proof -
    have "ctr n div 2 ^ 32 \<noteq> ctr (n + 2) div 2 ^ 32" using that by (auto simp: counter_hi_def)
    moreover have "ctr n div 2 ^ 32 \<le> ctr (n + 2) div 2 ^ 32" using assms(1) by (simp add: div_le_mono monoD)
    ultimately show ?thesis by simp
  qed
  show ?thesis
  proof (cases "counter_hi ctr k = counter_hi ctr (k + 2)")
    case True
    then obtain t where "get_absolute_time ctr k = Some (t, k + 3)" "unat t = ctr (k + 1)" using val by blast
    then show ?thesis by (intro exI [of _ t] exI [of _ "k + 3"] exI [of _ "k + 1"]) simp
  next
    case False
    have "counter_hi ctr (k + 3) = counter_hi ctr (k + 3 + 2)"
    proof (rule ccontr)
      assume n: "counter_hi ctr (k + 3) \<noteq> counter_hi ctr (k + 3 + 2)"
      define a b c d where "a = ctr k div 2 ^ 32" and "b = ctr (k + 2) div 2 ^ 32" and "c = ctr (k + 3) div 2 ^ 32" and "d = ctr (k + 5) div 2 ^ 32"
      have "a < b" "c < d" using step [OF False] step [OF n] by (simp_all add: a_def b_def c_def d_def add.commute)
      moreover have "b \<le> c" using assms(1) by (simp add: b_def c_def div_le_mono monoD)
      ultimately have "a + 2 \<le> d" by simp
      moreover have "(ctr k + 2 ^ 32) div 2 ^ 32 = a + 1" by (simp add: a_def)
      moreover have "d \<le> (ctr k + 2 ^ 32) div 2 ^ 32" unfolding d_def using assms(3) by (intro div_le_mono less_imp_le) simp
      ultimately show False by simp
    qed
    then obtain t where t: "get_absolute_time ctr (k + 3) = Some (t, k + 3 + 3)" "unat t = ctr (k + 3 + 1)" using val by blast
    then have "get_absolute_time ctr k = Some (t, k + 3 + 3)" using False by (subst get_absolute_time.simps) simp
    then show ?thesis using t(2) by (intro exI [of _ t] exI [of _ "k + 6"] exI [of _ "k + 4"]) (simp add: add.commute)
  qed
qed

text \<open>The witness: a counter that carries between the first two accesses.\<close>

theorem absolute_time_not_torn_witness:
  "\<exists>t k' j. get_absolute_time (\<lambda>n. min (2 ^ 32 - 1 + n) (2 ^ 40)) 0 = Some (t, k') \<and> k' \<le> 6 \<and> 0 < j \<and> j < k' \<and> unat t = min (2 ^ 32 - 1 + j) (2 ^ 40)"
proof -
  let ?ctr = "\<lambda>n :: nat. min (2 ^ 32 - 1 + n) (2 ^ 40 :: nat)"
  have "mono ?ctr" "\<forall>n. ?ctr n < 2 ^ 48" "\<forall>n. ?ctr (n + 5) < ?ctr n + 2 ^ 32" by (auto simp: mono_def min_def)
  from absolute_time_not_torn [OF this, of 0] show ?thesis by simp
qed

text \<open>
  (C943) A timeout: the difference between the time of the call and the time \<open>us\<close> later is \<open>us\<close>, also when the sum wraps around, for every delay
  below \<open>2 ^ 63\<close>.
\<close>

theorem timeout_difference:
  assumes "unat us < 2 ^ 63"
  shows "absolute_time_diff_us t (delayed_by_us t us) = int (unat us)"
proof -
  have "int (unat us) < int (2 ^ 63)" using assms by (simp only: of_nat_less_iff)
  then have "uint us < 2 ^ 63" by simp
  then have "sint us = uint us" unfolding sint_uint by (intro signed_take_bit_int_eq_self) (simp_all add: order_trans [OF _ uint_nonnegative])
  then show ?thesis by (simp add: absolute_time_diff_us_def delayed_by_us_def to_us_since_boot_def)
qed

theorem timeout_difference_witness: "absolute_time_diff_us (- 1) (delayed_by_us (- 1) 1500) = 1500"
  using timeout_difference [of 1500 "- 1"] by simp

end
