(* ===== verification/Peripherals.thy ===== *)
theory Peripherals
  imports Intc
begin

text \<open>
  The small drivers: the fuses (\<open>src/src/platform/drivers/hardware_efuse/efuse.c\<close>), the PWM channels
  (\<open>hardware_pwm/pwm.c\<close>), the random generator (\<open>hardware_random/random.c\<close>) and the watchdog (\<open>hardware_wdt/wdt.c\<close>).
\<close>

section \<open>Fuses\<close>

text \<open>The fuses as the driver sees them: how many times \<open>en\<close> reads 1 after a read of an address is started, whether the byte is valid,
  and the byte.\<close>

record efuse =
  ef_polls :: "u8 \<Rightarrow> nat"
  ef_valid :: "u8 \<Rightarrow> bool"
  ef_data  :: "u8 \<Rightarrow> u8"

text \<open>The loop that polls \<open>en\<close>; \<open>False\<close> is the return of \<open>-2\<close>.\<close>

fun efuse_wait :: "nat \<Rightarrow> int \<Rightarrow> bool" where
  "efuse_wait 0 timeout = True"
| "efuse_wait (Suc polls) timeout = (if timeout \<le> 0 then False else efuse_wait polls (timeout - 1))"

definition efuse_read_byte :: "efuse \<Rightarrow> u8 \<Rightarrow> int" where
  "efuse_read_byte hw addr =
     (if addr > 0x1F then -1
      else if \<not> efuse_wait (ef_polls hw addr) 1000 then -2
      else if \<not> ef_valid hw addr then -3
      else uint (ef_data hw addr))"

text \<open>The loop of \<open>efuse_read_block\<close> from byte \<open>i\<close>, with \<open>n\<close> bytes left.\<close>

fun efuse_read_block :: "efuse \<Rightarrow> u8 \<Rightarrow> nat \<Rightarrow> nat \<Rightarrow> bytes \<Rightarrow> int \<times> bytes" where
  "efuse_read_block hw offset i 0 dst = (0, dst)"
| "efuse_read_block hw offset i (Suc n) dst =
     (let byte = efuse_read_byte hw (offset + of_nat i)
      in if byte < 0 then (byte, dst) else efuse_read_block hw offset (i + 1) n (dst[i := word_of_int byte]))"

definition efuse_read_encrypt_word :: "efuse \<Rightarrow> bytes \<Rightarrow> int \<times> bytes" where
  "efuse_read_encrypt_word hw buf = efuse_read_block hw 0 0 16 buf"

definition efuse_read_charge_cal :: "efuse \<Rightarrow> bytes \<Rightarrow> int \<times> bytes" where
  "efuse_read_charge_cal hw buf = efuse_read_block hw 16 0 4 buf"

definition efuse_read_uid :: "efuse \<Rightarrow> bytes \<Rightarrow> int \<times> bytes" where
  "efuse_read_uid hw uid = efuse_read_block hw 20 0 4 uid"

definition efuse_read_mac :: "efuse \<Rightarrow> bytes \<Rightarrow> int \<times> bytes" where
  "efuse_read_mac hw mac = efuse_read_block hw 24 0 6 mac"

definition efuse_read_user_area :: "efuse \<Rightarrow> u8 \<Rightarrow> int \<times> u8" where
  "efuse_read_user_area hw buf =
     (let result = efuse_read_byte hw 30 in if result < 0 then (result, buf) else (0, word_of_int result))"

definition efuse_read_ctrl :: "efuse \<Rightarrow> u8 \<Rightarrow> int \<times> u8" where
  "efuse_read_ctrl hw buf =
     (let result = efuse_read_byte hw 31 in if result < 0 then (result, buf) else (0, word_of_int result))"

lemma efuse_wait_eq: "efuse_wait p t \<longleftrightarrow> int p \<le> max 0 t"
  by (induction p t rule: efuse_wait.induct) auto

lemma efuse_byte_ok:
  "efuse_read_byte hw a = (if a > 0x1F then -1 else if 1000 < ef_polls hw a then -2 else if \<not> ef_valid hw a then -3 else uint (ef_data hw a))"
  by (auto simp: efuse_read_byte_def efuse_wait_eq)

definition efuse_good :: "efuse \<Rightarrow> u8 \<Rightarrow> bool" where
  "efuse_good hw a \<longleftrightarrow> a \<le> 0x1F \<and> ef_polls hw a \<le> 1000 \<and> ef_valid hw a"

lemma efuse_good_iff: "efuse_good hw a \<longleftrightarrow> 0 \<le> efuse_read_byte hw a"
  by (auto simp: efuse_good_def efuse_byte_ok not_less)

text \<open>A block up to the first byte that cannot be read, or whole.\<close>

lemma read_block_eq:
  assumes "i + n \<le> length dst" "m \<le> n" "\<forall>j < m. efuse_good hw (offset + of_nat (i + j))"
    and "m < n \<longrightarrow> \<not> efuse_good hw (offset + of_nat (i + m))"
  shows "efuse_read_block hw offset i n dst
    = (if m = n then 0 else efuse_read_byte hw (offset + of_nat (i + m)), buf_write i (map (\<lambda>j. ef_data hw (offset + of_nat (i + j))) [0..<m]) dst)"
  using assms
proof (induction n arbitrary: i m dst)
  case 0
  then show ?case by (simp add: buf_write_def)
next
  case (Suc n)
  show ?case
  proof (cases m)
    case 0
    then have "\<not> efuse_good hw (offset + of_nat i)" using Suc.prems(4) by simp
    then have "efuse_read_byte hw (offset + of_nat i) < 0" by (simp add: efuse_good_iff)
    then show ?thesis using 0 by (simp add: Let_def buf_write_def)
  next
    case (Suc m')
    let ?a = "offset + of_nat i" let ?dst = "dst[i := ef_data hw ?a]"
    have g: "efuse_good hw ?a" using Suc.prems(3) Suc by (auto dest: spec [of _ 0])
    then have b: "efuse_read_byte hw ?a = uint (ef_data hw ?a)" by (auto simp: efuse_byte_ok efuse_good_def)
    have "efuse_read_block hw offset (i + 1) n ?dst
      = (if m' = n then 0 else efuse_read_byte hw (offset + of_nat (i + 1 + m')),
         buf_write (i + 1) (map (\<lambda>j. ef_data hw (offset + of_nat (i + 1 + j))) [0..<m']) ?dst)"
    proof (rule Suc.IH)
      show "\<forall>j < m'. efuse_good hw (offset + of_nat (i + 1 + j))"
        using Suc.prems(3) Suc by (metis Suc_less_eq add_Suc_right add_Suc_shift Suc_eq_plus1)
    qed (use Suc.prems(1,2,4) Suc in auto)
    moreover have "map (\<lambda>j. ef_data hw (offset + of_nat (i + j))) [0..<Suc m']
        = ef_data hw ?a # map (\<lambda>j. ef_data hw (offset + of_nat (i + 1 + j))) [0..<m']"
      by (simp add: upt_conv_Cons map_Suc_upt [symmetric] comp_def ac_simps del: upt_Suc)
    moreover have "buf_write (i + 1) xs ?dst = buf_write i (ef_data hw ?a # xs) dst" for xs
      using Suc.prems(1) by (simp add: buf_write_def upd_conv_take_nth_drop add.commute)
    ultimately show ?thesis using Suc b by (simp add: Let_def)
  qed
qed

text \<open>
  (C950) Reading the MAC address. With every fuse of the address readable the result is 0 and the buffer holds its six bytes; when the
  first fuse that cannot be read is number \<open>m\<close> of them, the result is the error of that fuse, \<open>-2\<close> for one that is busy for more than a
  thousand polls and \<open>-3\<close> for one that is not valid, and the buffer holds the bytes before it and is otherwise as it was.
\<close>

theorem efuse_mac:
  assumes "length mac = 6" "m \<le> 6" "\<forall>j < m. efuse_good hw (24 + of_nat j)" "m < 6 \<longrightarrow> \<not> efuse_good hw (24 + of_nat m)"
  shows "efuse_read_mac hw mac
    = (if m = 6 then 0 else if 1000 < ef_polls hw (24 + of_nat m) then -2 else -3, map (\<lambda>j. ef_data hw (24 + of_nat j)) [0..<m] @ drop m mac)"
proof -
  have "efuse_read_byte hw (24 + of_nat m) = (if 1000 < ef_polls hw (24 + of_nat m) then -2 else -3)" if "m \<noteq> 6"
  proof -
    have m: "m < 6" using that assms(2) by simp
    then have "m \<in> {0, 1, 2, 3, 4, 5}" by auto
    then have "24 + of_nat m \<le> (31 :: u8)" by auto
    then show ?thesis using assms(4) m by (auto simp: efuse_byte_ok efuse_good_def)
  qed
  then show ?thesis
    using read_block_eq [of 0 6 mac m hw 24] assms by (simp add: efuse_read_mac_def buf_write_def)
qed

theorem efuse_mac_witness:
  "efuse_read_mac \<lparr>ef_polls = (\<lambda>_. 3), ef_valid = (\<lambda>a. a < 28), ef_data = (\<lambda>a. a * 2)\<rparr> (replicate 6 0) = (-3, [48, 50, 52, 54, 0, 0])"
proof -
  let ?hw = "\<lparr>ef_polls = (\<lambda>_. 3), ef_valid = (\<lambda>a. a < 28), ef_data = (\<lambda>a. a * 2)\<rparr>"
  have "efuse_good ?hw (24 + of_nat j)" if "j < 4" for j
  proof -
    from that have "j \<in> {0, 1, 2, 3}" by auto
    then show ?thesis by (auto simp: efuse_good_def)
  qed
  moreover have "replicate 6 0 = [0, 0, 0, 0, 0, 0 :: u8]" by (simp add: numeral_eq_Suc)
  ultimately show ?thesis using efuse_mac [of "replicate 6 0" 4 ?hw] by (simp add: efuse_good_def upt_rec)
qed

section \<open>PWM\<close>

abbreviation PWM_CHANNELS :: nat where "PWM_CHANNELS \<equiv> 6"
abbreviation IRQ_SOURCE_PWM :: u32 where "IRQ_SOURCE_PWM \<equiv> 0x200"
abbreviation PWM_MODE_PWM :: u32 where "PWM_MODE_PWM \<equiv> 0"
abbreviation PWM_MODE_TIMER :: u32 where "PWM_MODE_TIMER \<equiv> 1"

text \<open>The registers, the clock gates of the channels and the callbacks; a callback is its address, 0 for none. The interrupt status
  clears the bits that are written as ones.\<close>

record pwm =
  pw_ctl    :: u32
  pw_status :: u32
  pw_period :: "nat \<Rightarrow> u32"
  pw_duty   :: "nat \<Rightarrow> u32"
  pw_clk    :: u32
  pw_cbs    :: "nat \<Rightarrow> nat"

definition pwm_clock_up :: "nat \<Rightarrow> pwm \<Rightarrow> pwm" where
  "pwm_clock_up ch h = h\<lparr>pw_clk := pw_clk h AND NOT (push_bit (9 + ch) 1)\<rparr>"

definition pwm_clock_down :: "nat \<Rightarrow> pwm \<Rightarrow> pwm" where
  "pwm_clock_down ch h = h\<lparr>pw_clk := pw_clk h OR push_bit (9 + ch) 1\<rparr>"

definition pwm_ch_enable :: "nat \<Rightarrow> u32 \<Rightarrow> bool \<Rightarrow> pwm \<Rightarrow> pwm" where
  "pwm_ch_enable ch mode int_en h =
     (let shift = ch * 4;
          ctl = pw_ctl h AND NOT (push_bit shift 0xF);
          ctl = ctl OR push_bit shift (1 OR push_bit 1 (if int_en then 1 else 0) OR push_bit 2 mode)
      in h\<lparr>pw_ctl := ctl\<rparr>)"

definition pwm_ch_disable :: "nat \<Rightarrow> pwm \<Rightarrow> pwm" where
  "pwm_ch_disable ch h = h\<lparr>pw_ctl := pw_ctl h AND NOT (push_bit (ch * 4) 0xF)\<rparr>"

text \<open>The callbacks that run, in order.\<close>

definition pwm_isr :: "pwm \<Rightarrow> nat list \<times> pwm" where
  "pwm_isr h =
     (let fired = pw_status h; h = h\<lparr>pw_status := pw_status h AND NOT fired\<rparr>
      in (map (pw_cbs h) (filter (\<lambda>i. fired AND push_bit i 1 \<noteq> 0 \<and> pw_cbs h i \<noteq> 0) [0..<PWM_CHANNELS]), h))"

definition pwm_output_init :: "nat \<Rightarrow> u32 \<Rightarrow> u32 \<Rightarrow> pwm \<Rightarrow> pwm" where
  "pwm_output_init ch period duty h =
     (let h = pwm_clock_up ch h;
          h = h\<lparr>pw_period := (pw_period h)(ch := period), pw_duty := (pw_duty h)(ch := duty)\<rparr>
      in pwm_ch_enable ch PWM_MODE_PWM False h)"

definition pwm_output_set_duty :: "nat \<Rightarrow> u32 \<Rightarrow> pwm \<Rightarrow> pwm" where
  "pwm_output_set_duty ch duty h = h\<lparr>pw_duty := (pw_duty h)(ch := duty)\<rparr>"

definition pwm_output_deinit :: "nat \<Rightarrow> pwm \<Rightarrow> pwm" where
  "pwm_output_deinit ch h = pwm_clock_down ch (pwm_ch_disable ch h)"

definition pwm_timer_init :: "nat \<Rightarrow> nat \<Rightarrow> u32 \<Rightarrow> nat \<Rightarrow> pwm \<times> intc_state \<Rightarrow> (pwm \<times> intc_state) option" where
  "pwm_timer_init isr ch period cb = (\<lambda>(h, ic).
     let h = h\<lparr>pw_cbs := (pw_cbs h)(ch := cb)\<rparr>;
         h = pwm_clock_up ch h;
         h = h\<lparr>pw_period := (pw_period h)(ch := period), pw_duty := (pw_duty h)(ch := 0)\<rparr>
     in do {
       ic \<leftarrow> intc_register_irq_handler IRQ_SOURCE_PWM isr ic;
       let ic = intc_enable_irq_source IRQ_SOURCE_PWM ic;
       Some (pwm_ch_enable ch PWM_MODE_TIMER True h, ic)
     })"

definition pwm_timer_deinit :: "nat \<Rightarrow> pwm \<Rightarrow> pwm" where
  "pwm_timer_deinit ch h =
     (let h = pwm_ch_disable ch h; h = h\<lparr>pw_cbs := (pw_cbs h)(ch := 0)\<rparr> in pwm_clock_down ch h)"

text \<open>One channel: its four control bits, its registers, its clock gate and its callback.\<close>

definition pwm_channel :: "nat \<Rightarrow> pwm \<Rightarrow> u32 \<times> u32 \<times> u32 \<times> bool \<times> nat" where
  "pwm_channel c h = (take_bit 4 (drop_bit (c * 4) (pw_ctl h)), pw_period h c, pw_duty h c, bit (pw_clk h) (9 + c), pw_cbs h c)"

lemma nibble_other:
  assumes "c \<noteq> ch" "\<And>n. 4 \<le> n \<Longrightarrow> \<not> bit w n"
  shows "take_bit 4 (drop_bit (c * 4) ((v AND NOT (push_bit (ch * 4) 0xF)) OR push_bit (ch * 4) (w :: u32))) = take_bit 4 (drop_bit (c * 4) v)"
proof (rule bit_word_eqI)
  have f: "\<not> bit (push_bit (ch * 4) x) (c * 4 + n)" if "n < 4" "\<And>n. 4 \<le> n \<Longrightarrow> \<not> bit x n" for n and x :: u32
  proof (cases "ch * 4 \<le> c * 4 + n")
    case True
    then have "ch \<le> c" using that(1) by linarith
    then have "4 \<le> c * 4 + n - ch * 4" using assms(1) by linarith
    then show ?thesis using that(2) by (simp add: bit_push_bit_iff)
  qed (simp add: bit_push_bit_iff)
  have "\<not> bit (0xF :: u32) n" if "4 \<le> n" for n
  proof -
    have "(0xF :: u32) = mask 4" by (simp add: mask_eq_exp_minus_1)
    then show ?thesis using that by (simp only: bit_mask_iff) simp
  qed
  then show "bit (take_bit 4 (drop_bit (c * 4) ((v AND NOT (push_bit (ch * 4) 0xF)) OR push_bit (ch * 4) w))) n
      = bit (take_bit 4 (drop_bit (c * 4) v)) n" if "n < LENGTH(32)" for n
    using f [of n w] f [of n "0xF"] assms(2) by (auto simp: bit_take_bit_iff bit_drop_bit_eq bit_or_iff bit_and_iff bit_not_iff dest: bit_imp_le_length)
qed

lemma nibble_own:
  assumes "ch < 6" "\<And>n. 4 \<le> n \<Longrightarrow> \<not> bit w n"
  shows "take_bit 4 (drop_bit (ch * 4) ((v AND NOT (push_bit (ch * 4) 0xF)) OR push_bit (ch * 4) (w :: u32))) = w"
proof (rule bit_word_eqI)
  have m: "(0xF :: u32) = mask 4" by (simp add: mask_eq_exp_minus_1)
  show "bit (take_bit 4 (drop_bit (ch * 4) ((v AND NOT (push_bit (ch * 4) 0xF)) OR push_bit (ch * 4) w))) n = bit w n" if "n < LENGTH(32)" for n
    using assms unfolding m
    by (cases "n < 4") (auto simp: bit_take_bit_iff bit_drop_bit_eq bit_or_iff bit_and_iff bit_not_iff bit_push_bit_iff bit_mask_iff)
qed

lemma nibble_zero: "v AND NOT x = (v AND NOT x) OR push_bit n (0 :: u32)"
  by simp

lemma pwm_bits:
  "4 \<le> n \<Longrightarrow> \<not> bit (1 :: u32) n" "4 \<le> n \<Longrightarrow> \<not> bit (7 :: u32) n" "4 \<le> n \<Longrightarrow> \<not> bit (0 :: u32) n"
proof -
  have "(7 :: u32) = mask 3" by (simp add: mask_eq_exp_minus_1)
  then show "4 \<le> n \<Longrightarrow> \<not> bit (7 :: u32) n" by (simp only: bit_mask_iff) simp
qed (simp_all add: bit_1_iff)

lemma clock_bits:
  "c < 6 \<Longrightarrow> ch < 6 \<Longrightarrow> bit (v AND NOT (push_bit (9 + ch) (1 :: u32))) (9 + c) = (c \<noteq> ch \<and> bit v (9 + c))"
  "c < 6 \<Longrightarrow> ch < 6 \<Longrightarrow> bit (v OR push_bit (9 + ch) (1 :: u32)) (9 + c) = (c = ch \<or> bit v (9 + c))"
  by (auto simp: bit_and_iff bit_or_iff bit_not_iff bit_push_bit_iff bit_1_iff bit_exp_iff dest: bit_imp_le_length)

lemma ch_enable_channel:
  assumes "c < 6" "ch < 6" "(mode, int_en) \<in> {(0, False), (1, True)}"
  shows "pwm_channel c (pwm_ch_enable ch mode int_en h)
    = (if c = ch then (1 OR push_bit 1 (if int_en then 1 else 0) OR push_bit 2 mode, snd (pwm_channel c h)) else pwm_channel c h)"
proof -
  let ?w = "1 OR push_bit 1 (if int_en then 1 else 0) OR push_bit 2 mode :: u32"
  have "?w = 1 \<or> ?w = 7" using assms(3) by auto
  then have w: "4 \<le> n \<Longrightarrow> \<not> bit ?w n" for n using pwm_bits by metis
  show ?thesis
    using nibble_own [OF assms(2) w] nibble_other [of c ch, OF _ w]
    by (simp add: pwm_channel_def pwm_ch_enable_def Let_def)
qed

lemma ch_disable_channel:
  assumes "c < 6" "ch < 6"
  shows "pwm_channel c (pwm_ch_disable ch h) = (if c = ch then (0, snd (pwm_channel c h)) else pwm_channel c h)"
  using nibble_own [OF assms(2) pwm_bits(3)] nibble_other [of c ch, OF _ pwm_bits(3)]
  by (simp add: pwm_channel_def pwm_ch_disable_def)

text \<open>
  (C951) The channels. Starting an output or a timer and stopping it sets the control bits, the registers, the clock gate and the callback
  of its channel, and leaves every other channel as it was, although the control bits of all of them share a register.
\<close>

theorem pwm_channels_independent:
  assumes "c < 6" "ch < 6"
  shows "pwm_channel c (pwm_output_init ch period duty h) = (if c = ch then (1, period, duty, False, pw_cbs h ch) else pwm_channel c h)
    \<and> pwm_channel c (pwm_output_deinit ch h) = (if c = ch then (0, pw_period h ch, pw_duty h ch, True, pw_cbs h ch) else pwm_channel c h)
    \<and> pwm_channel c (pwm_timer_deinit ch h) = (if c = ch then (0, pw_period h ch, pw_duty h ch, True, 0) else pwm_channel c h)
    \<and> (\<forall>h' ic'. pwm_timer_init isr ch period cb (h, ic) = Some (h', ic')
         \<longrightarrow> pwm_channel c h' = (if c = ch then (7, period, 0, False, cb) else pwm_channel c h) \<and> IRQ_SOURCE_PWM AND NOT (ic_enable ic') = 0)"
proof (intro conjI allI impI)
  have clk: "pwm_channel c (pwm_clock_up ch h) = (let (a, p, d, k, f) = pwm_channel c h in (a, p, d, c \<noteq> ch \<and> k, f))"
    "pwm_channel c (pwm_clock_down ch h) = (let (a, p, d, k, f) = pwm_channel c h in (a, p, d, c = ch \<or> k, f))" for h
    using clock_bits [OF assms] by (simp_all add: pwm_channel_def pwm_clock_up_def pwm_clock_down_def)
  have en: "pwm_channel c (pwm_ch_enable ch PWM_MODE_PWM False h) = (if c = ch then (1, snd (pwm_channel c h)) else pwm_channel c h)"
    "pwm_channel c (pwm_ch_enable ch PWM_MODE_TIMER True h) = (if c = ch then (7, snd (pwm_channel c h)) else pwm_channel c h)" for h
    by (simp_all add: ch_enable_channel [OF assms])
  note dis = ch_disable_channel [OF assms]
  show "pwm_channel c (pwm_output_init ch period duty h) = (if c = ch then (1, period, duty, False, pw_cbs h ch) else pwm_channel c h)"
    unfolding pwm_output_init_def Let_def en using clk(1) [of h] by (auto simp: pwm_channel_def pwm_clock_up_def)
  show "pwm_channel c (pwm_output_deinit ch h) = (if c = ch then (0, pw_period h ch, pw_duty h ch, True, pw_cbs h ch) else pwm_channel c h)"
    by (simp add: pwm_output_deinit_def clk dis Let_def) (simp add: pwm_channel_def)
  show "pwm_channel c (pwm_timer_deinit ch h) = (if c = ch then (0, pw_period h ch, pw_duty h ch, True, 0) else pwm_channel c h)"
    using dis [of h] by (simp add: pwm_timer_deinit_def clk Let_def) (auto simp: pwm_channel_def pwm_ch_disable_def)
  fix h' ic' assume "pwm_timer_init isr ch period cb (h, ic) = Some (h', ic')"
  then obtain h1 ic1 where h: "h' = pwm_ch_enable ch PWM_MODE_TIMER True h1" "ic' = intc_enable_irq_source IRQ_SOURCE_PWM ic1"
    "h1 = (pwm_clock_up ch (h\<lparr>pw_cbs := (pw_cbs h)(ch := cb)\<rparr>))\<lparr>pw_period := (pw_period h)(ch := period), pw_duty := (pw_duty h)(ch := 0)\<rparr>"
    by (auto simp: pwm_timer_init_def pwm_clock_up_def Let_def split: bind_splits)
  show "pwm_channel c h' = (if c = ch then (7, period, 0, False, cb) else pwm_channel c h)"
    unfolding h(1) en using clk(1) [of h] by (auto simp: pwm_channel_def pwm_clock_up_def h(3))
  have "x AND NOT (v OR x) = 0" for x v :: u32 by (auto simp: bit_eq_iff bit_simps)
  moreover have "ic_enable ic' = ic_enable ic1 OR IRQ_SOURCE_PWM" by (simp add: h(2) intc_enable_irq_source_def)
  ultimately show "IRQ_SOURCE_PWM AND NOT (ic_enable ic') = 0" by (simp only:)
qed

theorem pwm_channels_independent_witness:
  "pwm_channel 2 (pwm_output_init 3 100 40 \<lparr>pw_ctl = 0x700, pw_status = 0, pw_period = (\<lambda>_. 9), pw_duty = (\<lambda>_. 0), pw_clk = 0x7E00, pw_cbs = (\<lambda>_. 5)\<rparr>)
     = (7, 9, 0, True, 5)"
proof -
  let ?h = "\<lparr>pw_ctl = 0x700, pw_status = 0, pw_period = (\<lambda>_. 9), pw_duty = (\<lambda>_. 0), pw_clk = 0x7E00, pw_cbs = (\<lambda>_. 5)\<rparr>"
  have "pwm_channel 2 ?h = (7, 9, 0, True, 5)" by (simp add: pwm_channel_def)
  then show ?thesis using pwm_channels_independent [of 2 3 100 40 ?h] by simp
qed

section \<open>Random numbers\<close>

text \<open>The generator: the words its data register gives, one after the other.\<close>

definition random_mix :: "u32 \<Rightarrow> u32 \<Rightarrow> u32" where
  "random_mix word data = (word * 1664525 + 1013904223) XOR data"

definition get_random :: "(nat \<Rightarrow> u32) \<Rightarrow> nat \<Rightarrow> u32 \<times> nat" where
  "get_random trng k = (foldl (\<lambda>word i. random_mix word (trng (k + 1 + i))) (trng k) [0..<16], k + 17)"

text \<open>The loop of \<open>get_random_bytes\<close>, from the position \<open>dst\<close> of the buffer.\<close>

function get_random_bytes :: "(nat \<Rightarrow> u32) \<Rightarrow> nat \<Rightarrow> nat \<Rightarrow> nat \<Rightarrow> bytes \<Rightarrow> bytes \<times> nat" where
  "get_random_bytes trng k dst len buf =
     (if len = 0 then (buf, k)
      else
        let (word, k) = get_random trng k; n = (if len < 4 then len else 4)
        in get_random_bytes trng k (dst + n) (len - n) (buf_write dst (take n (le32_bytes word)) buf))"
  by pat_completeness auto
termination by (relation "measure (\<lambda>(trng, k, dst, len, buf). len)") (auto split: if_splits)

declare get_random_bytes.simps [simp del]

section \<open>Watchdog\<close>

abbreviation WDT_KEY_1ST :: u8 where "WDT_KEY_1ST \<equiv> 0x5A"
abbreviation WDT_KEY_2ND :: u8 where "WDT_KEY_2ND \<equiv> 0xA5"

text \<open>The watchdog: the register, the reload the two keys make when they come in turn with a period, and the gate of its clock.\<close>

record wdt =
  wd_period :: u16
  wd_key    :: u8
  wd_loaded :: "u16 option"
  wd_off    :: bool

definition wdt_store :: "u16 \<Rightarrow> u8 \<Rightarrow> wdt \<Rightarrow> wdt" where
  "wdt_store period key w =
     w\<lparr>wd_period := period, wd_key := key,
       wd_loaded := (if wd_key w = WDT_KEY_1ST \<and> key = WDT_KEY_2ND then Some period else wd_loaded w)\<rparr>"

definition wdt_reload :: "u16 \<Rightarrow> wdt \<Rightarrow> wdt" where
  "wdt_reload period w = wdt_store period WDT_KEY_2ND (wdt_store period WDT_KEY_1ST w)"

definition wdt_ping :: "wdt \<Rightarrow> wdt" where
  "wdt_ping w = wdt_reload (wd_period w) w"

definition wdt_set :: "u16 \<Rightarrow> wdt \<Rightarrow> wdt" where
  "wdt_set period w = wdt_reload period w"

definition wdt_up :: "wdt \<Rightarrow> wdt" where
  "wdt_up w = w\<lparr>wd_off := False\<rparr>"

definition wdt_down :: "wdt \<Rightarrow> wdt" where
  "wdt_down w = w\<lparr>wd_off := True\<rparr>"

definition wdt_is_active :: "wdt \<Rightarrow> bool" where
  "wdt_is_active w = (\<not> wd_off w)"

text \<open>The state in which \<open>wdt_reboot\<close> waits for the reset.\<close>

definition wdt_reboot :: "u16 \<Rightarrow> wdt \<Rightarrow> wdt" where
  "wdt_reboot delay w = wdt_up (wdt_set delay w)"

text \<open>After a reboot is asked for, the watchdog is active and loaded with the delay, and no number of pings changes the period.\<close>

theorem wdt_reboot_armed:
  "wdt_is_active (wdt_reboot delay w) \<and> wd_loaded (wdt_reboot delay w) = Some delay
   \<and> wd_loaded ((wdt_ping ^^ n) (wdt_set delay w)) = Some delay \<and> wd_period ((wdt_ping ^^ n) (wdt_set delay w)) = delay"
proof -
  have s: "wd_loaded (wdt_set delay w) = Some delay" "wd_period (wdt_set delay w) = delay"
    by (simp_all add: wdt_set_def wdt_reload_def wdt_store_def)
  have "wd_loaded ((wdt_ping ^^ n) (wdt_set delay w)) = Some delay \<and> wd_period ((wdt_ping ^^ n) (wdt_set delay w)) = delay"
    by (induction n) (simp_all add: s wdt_ping_def wdt_reload_def wdt_store_def)
  then show ?thesis using s by (simp add: wdt_reboot_def wdt_up_def wdt_is_active_def)
qed

section \<open>Random bytes\<close>

text \<open>The bytes of the words from the \<open>k\<close>-th reading on.\<close>

definition random_stream :: "(nat \<Rightarrow> u32) \<Rightarrow> nat \<Rightarrow> nat \<Rightarrow> bytes" where
  "random_stream trng k n = concat (map (\<lambda>i. le32_bytes (fst (get_random trng (k + 17 * i)))) [0..<n])"

lemma length_random_stream: "length (random_stream trng k n) = 4 * n"
  by (induction n) (simp_all add: random_stream_def)

lemma random_stream_Suc: "random_stream trng k (Suc n) = le32_bytes (fst (get_random trng k)) @ random_stream trng (k + 17) n"
proof -
  have "[0..<Suc n] = 0 # map Suc [0..<n]" by (simp add: upt_conv_Cons map_Suc_upt del: upt_Suc)
  then show ?thesis by (simp add: random_stream_def comp_def add.assoc del: upt_Suc)
qed

text \<open>
  (C952) \<open>get_random_bytes\<close> ends and fills exactly the \<open>len\<close> bytes it is asked for, with the bytes of successive words, each word made of seventeen
  readings of the generator that no other word uses.
\<close>

theorem random_bytes_fill:
  assumes "dst + len \<le> length buf"
  shows "get_random_bytes trng k dst len buf = (buf_write dst (take len (random_stream trng k ((len + 3) div 4))) buf, k + 17 * ((len + 3) div 4))"
  using assms
proof (induction trng k dst len buf rule: get_random_bytes.induct)
  case (1 trng k dst len buf)
  show ?case
  proof (cases "len = 0")
    case True
    then show ?thesis by (simp add: get_random_bytes.simps buf_write_def random_stream_def)
  next
    case False
    define n where "n = (if len < 4 then len else 4)"
    define w where "w = le32_bytes (fst (get_random trng k))"
    have n: "0 < n" "n \<le> len" "n \<le> 4" "len < 4 \<longrightarrow> n = len" "\<not> len < 4 \<longrightarrow> n = 4" using False by (auto simp: n_def)
    have lw: "length w = 4" "length (take n w) = n" using n by (simp_all add: w_def)
    define q where "q = (len - n + 3) div 4"
    have q: "(len + 3) div 4 = Suc q"
    proof (cases "len < 4")
      case True
      then have "len \<in> {1, 2, 3}" using False by auto
      then show ?thesis using True by (auto simp: q_def n_def)
    next
      case f: False
      then show ?thesis unfolding q_def n_def by (simp add: le_div_geq [of 4 "len + 3"])
    qed
    have "get_random_bytes trng k dst len buf = get_random_bytes trng (k + 17) (dst + n) (len - n) (buf_write dst (take n w) buf)"
      using False by (subst get_random_bytes.simps) (simp add: get_random_def n_def w_def Let_def)
    also have "\<dots> = (buf_write (dst + n) (take (len - n) (random_stream trng (k + 17) q)) (buf_write dst (take n w) buf), k + 17 + 17 * q)"
      unfolding q_def w_def
    proof (rule 1(1) [OF False refl])
      show "dst + n + (len - n) \<le> length (buf_write dst (take n (le32_bytes (fst (get_random trng k)))) buf)"
        using 1(2) lw n unfolding w_def by simp
    qed (simp_all add: get_random_def n_def)
    also have "buf_write (dst + n) (take (len - n) (random_stream trng (k + 17) q)) (buf_write dst (take n w) buf)
        = buf_write dst (take n w @ take (len - n) (random_stream trng (k + 17) q)) buf"
      using 1(2) lw n by (simp add: buf_write_def length_random_stream min_def ac_simps)
    also have "take n w @ take (len - n) (random_stream trng (k + 17) q) = take len (random_stream trng k (Suc q))"
      using n lw unfolding random_stream_Suc w_def [symmetric] by (cases "len < 4") auto
    finally show ?thesis using q by simp
  qed
qed

theorem random_bytes_fill_witness:
  "get_random_bytes (\<lambda>_. 0) 0 1 2 [7, 7, 7, 7] = (buf_write 1 (take 2 (random_stream (\<lambda>_. 0) 0 ((2 + 3) div 4))) [7, 7, 7, 7], 0 + 17 * ((2 + 3) div 4))"
  by (rule random_bytes_fill) simp

end
