(* ===== verification/Wifi_Msg.thy ===== *)
theory Wifi_Msg
  imports Prelude
begin

text \<open>
  The messages between the host and the MAC: the bus queue (\<open>src/src/platform/port_wifi/core/bmsg.c\<close>), the requests that wait for a
  confirmation (\<open>rw_msg.c\<close>) and the task that matches them (\<open>rwnx_intf.c\<close>). Tasks interleave: a sender parks a node, sends and waits; the
  receiving task, which has a higher priority than the senders, drains the received messages without a sender in between; a sender
  wakes up with its confirmation or with a timeout. Nodes are addresses; an access to one that is not allocated is \<open>None\<close>. The lists
  are the archive's \<open>co_list\<close>, by what its functions are named for; taking out an element that is not there leaves a list as it is.
\<close>

section \<open>State\<close>

record ke_msg =
  km_id    :: u16
  km_param :: bytes

datatype bus_msg = BMSG_NULL | BMSG_RX u32 | BMSG_TX u32 u8 | BMSG_IOCTL ke_msg

text \<open>The buffer of the caller is \<open>sn_cfm\<close>, as long as \<open>cfm_size\<close>, or none.\<close>

record msg_snd_node =
  sn_reqid :: u16
  sn_cfm   :: "bytes option"
  sn_sem   :: bool

datatype indication =
    scan_ind_add bytes | scan_survey_add bytes | scan_finish | sm_connect_ind bytes | sm_disconnect_ind bytes
  | ap_assoc_ind bytes | ap_deassoc_ind bytes | ind_logged u16

record wifi =
  wf_queue :: "bus_msg list"
  wf_tx    :: "nat list"
  wf_rx    :: "ke_msg list"
  wf_nodes :: "nat \<rightharpoonup> msg_snd_node"
  wf_inds  :: "indication list"
  wf_freed :: "ke_msg list"

section \<open>The bus\<close>

abbreviation BMSG_QUEUE_LEN :: nat where "BMSG_QUEUE_LEN \<equiv> 64"

definition bmsg_push :: "bus_msg \<Rightarrow> wifi \<Rightarrow> bool \<times> wifi" where
  "bmsg_push m w = (if length (wf_queue w) < BMSG_QUEUE_LEN then (True, w\<lparr>wf_queue := wf_queue w @ [m]\<rparr>) else (False, w))"

definition bmsg_null_sender :: "wifi \<Rightarrow> wifi" where
  "bmsg_null_sender w = (if wf_queue w \<noteq> [] then w else snd (bmsg_push BMSG_NULL w))"

definition bmsg_rx_sender :: "u32 \<Rightarrow> wifi \<Rightarrow> wifi" where
  "bmsg_rx_sender arg w = snd (bmsg_push (BMSG_RX arg) w)"

definition bmsg_tx_sender :: "u32 \<Rightarrow> u8 \<Rightarrow> wifi \<Rightarrow> int \<times> wifi" where
  "bmsg_tx_sender p vif_idx w = (let (ok, w) = bmsg_push (BMSG_TX p vif_idx) w in (if ok then 0 else -1, w))"

definition bmsg_ioctl_sender :: "ke_msg \<Rightarrow> wifi \<Rightarrow> int \<times> wifi" where
  "bmsg_ioctl_sender m w = (let (ok, w) = bmsg_push (BMSG_IOCTL m) w in (if ok then 0 else -1, w))"

section \<open>Requests\<close>

definition ke_msg_free :: "ke_msg \<Rightarrow> wifi \<Rightarrow> wifi" where
  "ke_msg_free m w = w\<lparr>wf_freed := m # wf_freed w\<rparr>"

definition rw_msg_post :: "ke_msg \<Rightarrow> wifi \<Rightarrow> int \<times> wifi" where
  "rw_msg_post m w = (let (r, w) = bmsg_ioctl_sender m w in if r = 0 then (0, w) else (-1, ke_msg_free m w))"

text \<open>\<open>rw_msg_send\<close> with a confirmation, up to its wait: \<open>Inl\<close> is the value returned, \<open>Inr\<close> the node it waits on. \<open>node\<close> is the address
  \<open>pvPortMalloc\<close> gives, if any, and \<open>sem\<close> that the semaphore can be made.\<close>

definition rw_msg_send :: "nat option \<Rightarrow> bool \<Rightarrow> ke_msg \<Rightarrow> u16 \<Rightarrow> bytes option \<Rightarrow> wifi \<Rightarrow> (int + nat) \<times> wifi" where
  "rw_msg_send node sem m cfm_id cfm w =
     (case node of
        None \<Rightarrow> (Inl (-1), ke_msg_free m w)
      | Some a \<Rightarrow>
          if \<not> sem then (Inl (-1), ke_msg_free m w)
          else
            let w = w\<lparr>wf_nodes := (wf_nodes w)(a \<mapsto> \<lparr>sn_reqid = cfm_id, sn_cfm = cfm, sn_sem = False\<rparr>)\<rparr>;
                w = w\<lparr>wf_tx := wf_tx w @ [a]\<rparr>;
                (r, w) = bmsg_ioctl_sender m w
            in if r \<noteq> 0
               then (Inl (-1), ke_msg_free m (w\<lparr>wf_tx := removeAll a (wf_tx w), wf_nodes := (wf_nodes w)(a := None)\<rparr>))
               else (Inr a, w))"

abbreviation kTimeoutErr :: int where "kTimeoutErr \<equiv> - 6722"

text \<open>The rest of \<open>rw_msg_send\<close>, when the wait ends: \<open>timeout\<close> tells how. The buffer of the caller comes with the value returned.\<close>

definition rw_msg_wake :: "bool \<Rightarrow> nat \<Rightarrow> wifi \<Rightarrow> ((int \<times> bytes option) \<times> wifi) option" where
  "rw_msg_wake timeout a w =
     (case wf_nodes w a of
        None \<Rightarrow> None
      | Some nd \<Rightarrow>
          let w = (if timeout then w\<lparr>wf_tx := removeAll a (wf_tx w)\<rparr> else w)
          in Some ((if timeout then kTimeoutErr else 0, sn_cfm nd), w\<lparr>wf_nodes := (wf_nodes w)(a := None)\<rparr>))"

section \<open>Receiving\<close>

definition mr_kmsg_fwd :: "ke_msg \<Rightarrow> wifi \<Rightarrow> wifi" where
  "mr_kmsg_fwd m w = w\<lparr>wf_rx := wf_rx w @ [m]\<rparr>"

text \<open>The walk along the pending requests.\<close>

fun find_node :: "wifi \<Rightarrow> u16 \<Rightarrow> nat list \<Rightarrow> nat option option" where
  "find_node w mid [] = Some None"
| "find_node w mid (a # as) =
     (case wf_nodes w a of
        None \<Rightarrow> None
      | Some nd \<Rightarrow> if mid = sn_reqid nd then Some (Some a) else find_node w mid as)"

text \<open>The copy of the confirmation, cut to the buffer.\<close>

definition copy_cfm :: "bytes \<Rightarrow> msg_snd_node \<Rightarrow> msg_snd_node" where
  "copy_cfm param nd =
     (case sn_cfm nd of
        None \<Rightarrow> nd
      | Some buf \<Rightarrow>
          if param = [] then nd
          else let n = (if length param > length buf then length buf else length param)
               in nd\<lparr>sn_cfm := Some (buf_write 0 (take n param) buf)\<rparr>)"

definition dispatch :: "ke_msg \<Rightarrow> indication list" where
  "dispatch m =
     (if km_id m = 0x804 then [scan_ind_add (km_param m)]
      else if km_id m = 79 then [scan_survey_add (km_param m)]
      else if km_id m = 0x801 then [scan_finish]
      else if km_id m = 0x1004 then [sm_connect_ind (km_param m)]
      else if km_id m = 0x1007 then [sm_disconnect_ind (km_param m)]
      else if km_id m = 0x1408 then [ap_assoc_ind (km_param m)]
      else if km_id m = 0x1409 then [ap_deassoc_ind (km_param m)]
      else if km_id m = 68 \<or> km_id m = 69 then []
      else [ind_logged (km_id m)])"

definition recv_one :: "ke_msg \<Rightarrow> wifi \<Rightarrow> wifi option" where
  "recv_one m w = do {
     found \<leftarrow> find_node w (km_id m) (wf_tx w);
     case found of
       None \<Rightarrow> Some (ke_msg_free m (w\<lparr>wf_inds := wf_inds w @ dispatch m\<rparr>))
     | Some a \<Rightarrow> do {
         nd \<leftarrow> wf_nodes w a;
         let w = w\<lparr>wf_tx := removeAll a (wf_tx w)\<rparr>;
         Some (ke_msg_free m (w\<lparr>wf_nodes := (wf_nodes w)(a \<mapsto> (copy_cfm (km_param m) nd)\<lparr>sn_sem := True\<rparr>)\<rparr>))
       }
   }"

lemma recv_one_rx: "recv_one m w = Some w' \<Longrightarrow> wf_rx w' = wf_rx w"
  by (auto simp: recv_one_def ke_msg_free_def Let_def split: bind_splits option.splits)

function rwnx_recv_msg :: "wifi \<Rightarrow> wifi option" where
  "rwnx_recv_msg w =
     (case wf_rx w of
        [] \<Rightarrow> Some w
      | m # ms \<Rightarrow> (case recv_one m (w\<lparr>wf_rx := ms\<rparr>) of None \<Rightarrow> None | Some w \<Rightarrow> rwnx_recv_msg w))"
  by pat_completeness auto
termination by (relation "measure (\<lambda>w. length (wf_rx w))") (auto dest!: recv_one_rx)

declare rwnx_recv_msg.simps [simp del]

section \<open>Interleaving\<close>

text \<open>What can happen: a request of any task with a node at an address that is free, the wake-up of a sender with its confirmation or
  with a timeout, the receiving task, the core task that takes a message off the bus, and the MAC, which sends any message at any
  time. \<open>ws\<close> are the nodes the waiting senders hold.\<close>

inductive wifi_step :: "wifi \<times> nat set \<Rightarrow> wifi \<times> nat set \<Rightarrow> bool" where
  send_wait: "wf_nodes w a = None \<Longrightarrow> rw_msg_send (Some a) sem m cid cfm w = (Inr b, w') \<Longrightarrow> wifi_step (w, ws) (w', insert b ws)"
| send_fail: "node = None \<or> (\<exists>a. node = Some a \<and> wf_nodes w a = None) \<Longrightarrow> rw_msg_send node sem m cid cfm w = (Inl r, w')
    \<Longrightarrow> wifi_step (w, ws) (w', ws)"
| wake_cfm: "a \<in> ws \<Longrightarrow> wf_nodes w a = Some nd \<Longrightarrow> sn_sem nd \<Longrightarrow> rw_msg_wake False a w = Some (r, w') \<Longrightarrow> wifi_step (w, ws) (w', ws - {a})"
| wake_timeout: "a \<in> ws \<Longrightarrow> rw_msg_wake True a w = Some (r, w') \<Longrightarrow> wifi_step (w, ws) (w', ws - {a})"
| post: "rw_msg_post m w = (r, w') \<Longrightarrow> wifi_step (w, ws) (w', ws)"
| bus_in: "snd (bmsg_push m w) = w' \<Longrightarrow> wifi_step (w, ws) (w', ws)"
| bus_out: "wf_queue w = m # ms \<Longrightarrow> wifi_step (w, ws) (w\<lparr>wf_queue := ms\<rparr>, ws)"
| mac: "wifi_step (w, ws) (mr_kmsg_fwd m w, ws)"
| recv: "rwnx_recv_msg w = Some w' \<Longrightarrow> wifi_step (w, ws) (w', ws)"

definition wifi_init :: wifi where
  "wifi_init = \<lparr>wf_queue = [], wf_tx = [], wf_rx = [], wf_nodes = Map.empty, wf_inds = [], wf_freed = []\<rparr>"

text \<open>The invariant: the pending list has each node once and only nodes that are held, allocated and not signalled; a node that is held and not
  in the list is signalled; the bus is not over its length.\<close>

definition wifi_inv :: "wifi \<times> nat set \<Rightarrow> bool" where
  "wifi_inv = (\<lambda>(w, ws). distinct (wf_tx w) \<and> ws = dom (wf_nodes w) \<and> length (wf_queue w) \<le> BMSG_QUEUE_LEN
     \<and> set (wf_tx w) = {a. \<exists>nd. wf_nodes w a = Some nd \<and> \<not> sn_sem nd})"

section \<open>The invariant\<close>

text \<open>The oldest pending request for an id.\<close>

definition pending :: "u16 \<Rightarrow> wifi \<Rightarrow> nat option" where
  "pending mid w = find (\<lambda>a. map_option sn_reqid (wf_nodes w a) = Some mid) (wf_tx w)"

lemma find_node_find:
  "\<forall>a \<in> set as. wf_nodes w a \<noteq> None \<Longrightarrow> find_node w mid as = Some (find (\<lambda>a. map_option sn_reqid (wf_nodes w a) = Some mid) as)"
  by (induction as) (auto split: option.splits)

lemma recv_one_pending:
  assumes "\<forall>a \<in> set (wf_tx w). wf_nodes w a \<noteq> None"
  shows "recv_one m w = Some (ke_msg_free m
    (case pending (km_id m) w of
       None \<Rightarrow> w\<lparr>wf_inds := wf_inds w @ dispatch m\<rparr>
     | Some a \<Rightarrow> w\<lparr>wf_tx := removeAll a (wf_tx w), wf_nodes := (wf_nodes w)(a \<mapsto> (copy_cfm (km_param m) (the (wf_nodes w a)))\<lparr>sn_sem := True\<rparr>)\<rparr>))"
  and "pending mid w = Some a \<Longrightarrow> a \<in> set (wf_tx w) \<and> (\<exists>nd. wf_nodes w a = Some nd \<and> sn_reqid nd = mid)"
proof -
  show p: "pending mid w = Some a \<Longrightarrow> a \<in> set (wf_tx w) \<and> (\<exists>nd. wf_nodes w a = Some nd \<and> sn_reqid nd = mid)" for mid a
    by (auto simp: pending_def find_Some_iff)
  have f: "find_node w (km_id m) (wf_tx w) = Some (pending (km_id m) w)" unfolding pending_def by (rule find_node_find [OF assms])
  show "recv_one m w = Some (ke_msg_free m
    (case pending (km_id m) w of
       None \<Rightarrow> w\<lparr>wf_inds := wf_inds w @ dispatch m\<rparr>
     | Some a \<Rightarrow> w\<lparr>wf_tx := removeAll a (wf_tx w), wf_nodes := (wf_nodes w)(a \<mapsto> (copy_cfm (km_param m) (the (wf_nodes w a)))\<lparr>sn_sem := True\<rparr>)\<rparr>))"
    using f p [of "km_id m"] by (auto simp: recv_one_def Let_def split: option.splits)
qed

lemma sn_sem_copy [simp]: "sn_sem (copy_cfm p nd) = sn_sem nd" "sn_reqid (copy_cfm p nd) = sn_reqid nd"
  by (simp_all add: copy_cfm_def Let_def split: option.splits)

lemma inv_tx: "wifi_inv (w, ws) \<Longrightarrow> (\<forall>a \<in> set (wf_tx w). wf_nodes w a \<noteq> None) \<and> distinct (wf_tx w)"
  by (auto simp: wifi_inv_def)

lemma recv_one_inv:
  assumes "wifi_inv (w, ws)"
  shows "\<exists>w'. recv_one m w = Some w' \<and> wifi_inv (w', ws)"
proof -
  have ok: "\<forall>a \<in> set (wf_tx w). wf_nodes w a \<noteq> None" "distinct (wf_tx w)" using inv_tx [OF assms] by simp_all
  note r = recv_one_pending [OF ok(1)]
  show ?thesis
  proof (cases "pending (km_id m) w")
    case None
    then show ?thesis using assms r(1) [of m] by (auto simp: wifi_inv_def ke_msg_free_def)
  next
    case (Some a)
    then show ?thesis using assms r(1) [of m] r(2) [OF Some] by (auto simp: wifi_inv_def ke_msg_free_def distinct_removeAll)
  qed
qed

lemma recv_msg_inv: "wifi_inv (w, ws) \<Longrightarrow> \<exists>w'. rwnx_recv_msg w = Some w' \<and> wifi_inv (w', ws)"
proof (induction w rule: rwnx_recv_msg.induct)
  case (1 w)
  show ?case
  proof (cases "wf_rx w")
    case Nil
    then show ?thesis using 1(2) by (subst rwnx_recv_msg.simps) simp
  next
    case (Cons m ms)
    have "wifi_inv (w\<lparr>wf_rx := ms\<rparr>, ws)" using 1(2) by (simp add: wifi_inv_def)
    then obtain w1 where w1: "recv_one m (w\<lparr>wf_rx := ms\<rparr>) = Some w1" "wifi_inv (w1, ws)" using recv_one_inv by blast
    then show ?thesis using 1(1) [OF Cons w1] Cons by (subst rwnx_recv_msg.simps) simp
  qed
qed

lemma push_inv: "wifi_inv (w, ws) \<Longrightarrow> wifi_inv (snd (bmsg_push m w), ws)"
  by (simp add: wifi_inv_def bmsg_push_def)

lemma send_inv:
  assumes "wifi_inv (w, ws)" "\<forall>a. node = Some a \<longrightarrow> wf_nodes w a = None" "rw_msg_send node sem m cid cfm w = (r, w')"
  shows "wifi_inv (w', case r of Inl _ \<Rightarrow> ws | Inr b \<Rightarrow> insert b ws)"
proof (cases "\<exists>a. node = Some a \<and> sem")
  case True
  then obtain a where a: "node = Some a" "sem" "wf_nodes w a = None" using assms(2) by auto
  then have "a \<notin> set (wf_tx w)" using assms(1) by (auto simp: wifi_inv_def)
  then show ?thesis
    using assms(1,3) a
    by (auto simp: rw_msg_send_def bmsg_ioctl_sender_def bmsg_push_def ke_msg_free_def wifi_inv_def Let_def removeAll_id split: if_splits)
qed (use assms in \<open>auto simp: rw_msg_send_def ke_msg_free_def wifi_inv_def split: option.splits if_splits\<close>)

lemma wake_inv:
  assumes "wifi_inv (w, ws)" "timeout \<or> (\<exists>nd. wf_nodes w a = Some nd \<and> sn_sem nd)" "rw_msg_wake timeout a w = Some (r, w')"
  shows "wifi_inv (w', ws - {a})"
  using assms by (auto simp: rw_msg_wake_def wifi_inv_def Let_def distinct_removeAll split: option.splits if_splits)

lemma step_inv: "wifi_step s s' \<Longrightarrow> wifi_inv s \<Longrightarrow> wifi_inv s'"
proof (induction rule: wifi_step.induct)
  case (send_wait w a sem m cid cfm b w' ws)
  then show ?case using send_inv [of w ws "Some a" sem m cid cfm "Inr b" w'] by simp
next
  case (send_fail node w sem m cid cfm r w' ws)
  then show ?case using send_inv [of w ws node sem m cid cfm "Inl r" w'] by auto
next
  case (wake_cfm a ws w nd r w')
  then show ?case using wake_inv by blast
next
  case (wake_timeout a ws w r w')
  then show ?case using wake_inv by blast
next
  case (post m w r w' ws)
  then show ?case using push_inv [of w ws "BMSG_IOCTL m"]
    by (auto simp: rw_msg_post_def bmsg_ioctl_sender_def ke_msg_free_def wifi_inv_def Let_def split: prod.splits if_splits)
next
  case (recv w w' ws)
  then show ?case using recv_msg_inv [of w ws] by auto
qed (auto simp: push_inv wifi_inv_def mr_kmsg_fwd_def bmsg_push_def)

lemma reachable_inv: "wifi_step\<^sup>*\<^sup>* (wifi_init, {}) s \<Longrightarrow> wifi_inv s"
proof (induction rule: rtranclp_induct)
  case base
  then show ?case by (simp add: wifi_inv_def wifi_init_def)
qed (rule step_inv)

section \<open>Properties\<close>




text \<open>The second witness is in the middle of a request.\<close>

definition one_waiting :: wifi where
  "one_waiting = snd (rw_msg_send (Some 7) True \<lparr>km_id = 0, km_param = []\<rparr> 1 (Some [0, 0]) wifi_init)"

lemma one_waiting_step: "wifi_step (wifi_init, {}) (one_waiting, {7})"
proof -
  have "rw_msg_send (Some 7) True \<lparr>km_id = 0, km_param = []\<rparr> 1 (Some [0, 0]) wifi_init = (Inr 7, one_waiting)"
    by (simp add: one_waiting_def rw_msg_send_def bmsg_ioctl_sender_def bmsg_push_def wifi_init_def Let_def)
  from wifi_step.send_wait [OF _ this, of "{}"] show ?thesis by (simp add: wifi_init_def)
qed


text \<open>(C34) 
  (C962) A late confirmation. Nothing ties a confirmation to its request but the id: when a request times out and another with the same confirmation
  is sent, the confirmation of the first ends the wait of the second, which returns 0 with the first one's answer while its own
  message is still on the bus.
\<close>

theorem wifi_late_confirmation:
  assumes "p \<noteq> []" "length b2 = length p"
  shows "\<exists>w1 w2 w3 w5 w6. rw_msg_send (Some 1) True m1 cid (Some b1) wifi_init = (Inr 1, w1)
    \<and> rw_msg_wake True 1 w1 = Some ((kTimeoutErr, Some b1), w2)
    \<and> rw_msg_send (Some 2) True m2 cid (Some b2) w2 = (Inr 2, w3)
    \<and> rwnx_recv_msg (mr_kmsg_fwd \<lparr>km_id = cid, km_param = p\<rparr> w3) = Some w5
    \<and> rw_msg_wake False 2 w5 = Some ((0, Some p), w6) \<and> BMSG_IOCTL m2 \<in> set (wf_queue w6)"
  using assms
  by (simp add: rw_msg_send_def rw_msg_wake_def bmsg_ioctl_sender_def bmsg_push_def wifi_init_def mr_kmsg_fwd_def rwnx_recv_msg.simps
      recv_one_def copy_cfm_def ke_msg_free_def buf_write_def Let_def)

theorem wifi_late_confirmation_witness:
  "\<exists>w1 w2 w3 w5 w6. rw_msg_send (Some 1) True \<lparr>km_id = 36, km_param = [1]\<rparr> 37 (Some [0, 0]) wifi_init = (Inr 1, w1)
    \<and> rw_msg_wake True 1 w1 = Some ((kTimeoutErr, Some [0, 0]), w2)
    \<and> rw_msg_send (Some 2) True \<lparr>km_id = 36, km_param = [2]\<rparr> 37 (Some [0, 0]) w2 = (Inr 2, w3)
    \<and> rwnx_recv_msg (mr_kmsg_fwd \<lparr>km_id = 37, km_param = [0, 9]\<rparr> w3) = Some w5
    \<and> rw_msg_wake False 2 w5 = Some ((0, Some [0, 9]), w6) \<and> BMSG_IOCTL \<lparr>km_id = 36, km_param = [2]\<rparr> \<in> set (wf_queue w6)"
  by (rule wifi_late_confirmation) simp_all

section \<open>Channels and requests\<close>

definition s_2ghz_freq :: "u16 list" where
  "s_2ghz_freq = [2412, 2417, 2422, 2427, 2432, 2437, 2442, 2447, 2452, 2457, 2462, 2467, 2472, 2484]"

definition rw_ieee80211_get_chan_id :: "u16 \<Rightarrow> u8" where
  "rw_ieee80211_get_chan_id freq = (case find (\<lambda>i. s_2ghz_freq ! i = freq) [0..<14] of None \<Rightarrow> 0 | Some i \<Rightarrow> of_nat i + 1)"

definition rw_ieee80211_get_centre_frequency :: "u32 \<Rightarrow> u16" where
  "rw_ieee80211_get_centre_frequency chan_id = (if chan_id < 1 \<or> chan_id > 14 then 0 else s_2ghz_freq ! unat (chan_id - 1))"

record mm_key_add_req =
  ka_key_idx      :: u8
  ka_sta_idx      :: u8
  ka_key          :: bytes
  ka_cipher_suite :: u8
  ka_inst_nbr     :: u8
  ka_pairwise     :: u8

text \<open>The request for a key, or none when the arguments are refused. \<open>send\<close> is \<open>ke_msg_alloc\<close> and \<open>rw_msg_send\<close>: the value returned and the
  confirmation, status and key index.\<close>

definition mm_key_add_request :: "u8 \<Rightarrow> u8 \<Rightarrow> u8 \<Rightarrow> bytes option \<Rightarrow> mm_key_add_req option" where
  "mm_key_add_request vif_idx sta_idx key_idx key =
     (let group = (sta_idx = 0xFF)
      in case key of
           None \<Rightarrow> None
         | Some k \<Rightarrow>
             if vif_idx \<ge> 2 \<or> (if group then key_idx > 3 else sta_idx > 3 \<or> key_idx \<noteq> 0) then None
             else Some \<lparr>ka_key_idx = key_idx, ka_sta_idx = sta_idx, ka_key = take 16 k, ka_cipher_suite = 2, ka_inst_nbr = vif_idx,
                        ka_pairwise = (if group then 0 else 1)\<rparr>)"

definition rw_msg_send_mm_key_add ::
  "(mm_key_add_req \<Rightarrow> int \<times> u8 \<times> u8) \<Rightarrow> u8 \<Rightarrow> u8 \<Rightarrow> u8 \<Rightarrow> bytes option \<Rightarrow> int \<times> u8 option" where
  "rw_msg_send_mm_key_add send vif_idx sta_idx key_idx key =
     (case mm_key_add_request vif_idx sta_idx key_idx key of
        None \<Rightarrow> (-1, None)
      | Some req \<Rightarrow>
          let (r, status, hw_key_idx) = send req
          in if r \<noteq> 0 then (-1, None) else if status \<noteq> 0 then (-1, None) else (0, Some hw_key_idx))"

record sm_connect_req =
  sq_ssid   :: bytes
  sq_bssid  :: bytes
  sq_freq   :: u16
  sq_flags  :: u32
  sq_port   :: u16
  sq_ie     :: bytes
  sq_listen :: u16
  sq_vif    :: u8

definition sm_connect_request :: "u8 \<Rightarrow> bytes \<Rightarrow> bytes \<Rightarrow> u8 \<Rightarrow> bytes option \<Rightarrow> sm_connect_req option" where
  "sm_connect_request vif_idx ssid bssid channel ie =
     (if length ssid > 32 then None
      else if (case ie of None \<Rightarrow> False | Some x \<Rightarrow> length x > 256) then None
      else Some \<lparr>sq_ssid = ssid, sq_bssid = bssid, sq_freq = rw_ieee80211_get_centre_frequency (ucast channel),
                 sq_flags = (if ie = None then 0 else 0x09), sq_port = (if ie = None then 0 else 0x8E88),
                 sq_ie = (case ie of None \<Rightarrow> [] | Some x \<Rightarrow> x), sq_listen = 100, sq_vif = vif_idx\<rparr>)"

lemma chan_table: "list_all (\<lambda>n. rw_ieee80211_get_chan_id (rw_ieee80211_get_centre_frequency (of_nat n)) = of_nat n) [1..<15]"
  by code_simp

text \<open>Channels: the frequency of a channel is turned back into it, and every other number has no frequency.\<close>

theorem channel_roundtrip:
  "if 1 \<le> c \<and> c \<le> 14 then rw_ieee80211_get_chan_id (rw_ieee80211_get_centre_frequency c) = ucast c else rw_ieee80211_get_centre_frequency c = 0"
proof (cases "1 \<le> c \<and> c \<le> 14")
  case True
  then have "1 \<le> unat c" "unat c \<le> 14" by (simp_all add: word_le_nat_alt)
  then have "unat c \<in> set [1..<15]" by simp
  then have "rw_ieee80211_get_chan_id (rw_ieee80211_get_centre_frequency (of_nat (unat c))) = of_nat (unat c)"
    using chan_table unfolding list_all_iff by blast
  then show ?thesis using True by simp
qed (auto simp: rw_ieee80211_get_centre_frequency_def not_le)

text \<open>
  (C964) Requests stay in the MAC's tables and buffers: a key request names one of the two interfaces, is pairwise exactly when it is not for the
  group, and then names one of four stations and key 0, else one of four group keys; a connection request has a name of at most 32 bytes and
  elements of at most 256; any other arguments are refused and nothing is sent.
\<close>

theorem requests_in_bounds:
  "(case mm_key_add_request v s k key of
      None \<Rightarrow> rw_msg_send_mm_key_add send v s k key = (-1, None)
    | Some r \<Rightarrow> ka_inst_nbr r < 2 \<and> length (ka_key r) \<le> 16 \<and> (ka_pairwise r = 0 \<longleftrightarrow> ka_sta_idx r = 0xFF)
        \<and> (if ka_pairwise r = 0 then ka_key_idx r \<le> 3 else ka_sta_idx r \<le> 3 \<and> ka_key_idx r = 0))
   \<and> (case sm_connect_request v ssid bssid c ie of
        None \<Rightarrow> 32 < length ssid \<or> (\<exists>x. ie = Some x \<and> 256 < length x)
      | Some r \<Rightarrow> length (sq_ssid r) \<le> 32 \<and> length (sq_ie r) \<le> 256)"
  by (auto simp: mm_key_add_request_def rw_msg_send_mm_key_add_def sm_connect_request_def Let_def not_less not_le split: option.splits if_splits)

end
