(* ===== verification/Spec2Isabelle.thy ===== *)
theory Spec2Isabelle
  imports Crc Ring_Buffer Flash_Kv_Thms Tlv Dhcp_Server Http_Server Wpa2_Sm Ap_Frames Xmodem Uart Camera_Stream Telnet
    Soft_Rtc I2c Hw_Aes Fal Clocks Peripherals Wifi_Msg
begin

text \<open>
  A verification library of the firmware of the BK7252 camera, an ARM968 chip with 2.4 GHz WiFi. The sources are the C files under
  \<open>src/src/platform\<close> (drivers, devices, servers, the WiFi port) and \<open>src/src/utils\<close>.

  \<^bold>\<open>How the program is put together.\<close> Drivers own the peripherals: the serial ports, timers, DMA channels and the sensor bus raise interrupts that
  the interrupt controller dispatches. On top of them are devices (the camera, the clock), a key-value store in two sectors of the flash,
  and network servers (DHCP, HTTP, Telnet) on lwIP. The WiFi port talks to a binary MAC archive through a message bus and does the WPA2
  handshake and the frames of the access point itself. The bootloader finds its partitions and receives images by XMODEM.

  \<^bold>\<open>How it is modelled.\<close> A C structure is a record, an enumeration a datatype, a fixed-width integer a word of its width, a buffer a list of
  bytes. A function returns its value and the new state; an access outside a buffer, a failed assertion and a loop that does not end are
  \<open>None\<close> or a value of an error type, so a theorem that gives a result says that none of them happens. Hardware, the kernel, lwIP and the MAC
  archive are outside the repository: they are arguments of the definitions, with what the code relies on as assumptions of a locale or
  hypotheses of a theorem, and a witness on a concrete instance. Interrupts and tasks that interleave are step relations, or functions of the
  sequence of events.

  \<^bold>\<open>Theories.\<close>
    \<^item> \<open>Prelude\<close>: machine integers, error numbers, byte order, byte buffers.
    \<^item> \<open>Crc\<close> (\<open>utils/crc\<close>): the table-driven checksums equal polynomial division bit by bit; burst errors are detected.
    \<^item> \<open>Ring_Buffer\<close> (\<open>misc/ring_buffer\<close>): a bounded queue; one producer and one consumer need no lock.
    \<^item> \<open>Flash\<close> (\<open>hardware_flash/flash.c\<close>): writing, erasing and reading a NOR chip, whose laws are the locale \<open>nor_flash\<close>.
    \<^item> \<open>Flash_Kv\<close>, \<open>Flash_Kv_Log\<close>, \<open>Flash_Kv_Spec\<close>, \<open>Flash_Kv_Thms\<close> (\<open>misc/flash_kv/flash_kv.c\<close>): the store as a log in two sectors refines a finite
      map, on the flash driver through the locale of its interface; power may fail in the middle of an append.
    \<^item> \<open>Tlv\<close> (\<open>misc/tlv\<close>): the walk over a calibration image.
    \<^item> \<open>Dhcp_Leases\<close>, \<open>Dhcp_Server\<close> (\<open>misc/dhcp_server\<close>): leases are not given twice; replies parse.
    \<^item> \<open>Http_Request\<close>, \<open>Http_Response\<close>, \<open>Http_Server\<close> (\<open>misc/http_server\<close>): parsing, framing of responses, the life of the server.
    \<^item> \<open>Telnet\<close> (\<open>misc/telnet_server\<close>): the option filter, the output and the life of the server.
    \<^item> \<open>Wpa2_Aes\<close>, \<open>Wpa2_Sha1\<close>, \<open>Wpa2_Kdf\<close>, \<open>Wpa2_Eapol\<close>, \<open>Wpa2_Sm\<close> (\<open>port_wifi/api/wpa2_*.c\<close>): the ciphers and hashes equal their references, keys are
      derived as the standard has it, frames round trip, and the handshake installs a key once and refuses replays.
    \<^item> \<open>Ap_Frames\<close> (\<open>port_wifi/api/ap_*.c\<close>): frames of the access point and its table of clients.
    \<^item> \<open>Wifi_Msg\<close> (\<open>port_wifi/core\<close>): requests to the MAC and their confirmations, as tasks that interleave.
    \<^item> \<open>Xmodem\<close>: what a transfer delivers, and that it ends.
    \<^item> \<open>Intc\<close>, \<open>Timer\<close>, \<open>Timeout\<close>, \<open>Gdma\<close>, \<open>Gpio\<close>, \<open>Uart\<close>, \<open>Jpeg\<close>, \<open>I2c\<close>, \<open>Clocks\<close>, \<open>Peripherals\<close>, \<open>Hw_Sha\<close>, \<open>Hw_Aes\<close> (\<open>drivers/hardware_*\<close>, \<open>misc/timeout\<close>,
      \<open>misc/busy_wait\<close>): dispatch, timers and the software timeouts on one of them, DMA transfers, the serial ports with their buffers, bus transfers,
      waiting and time, the small drivers, and the hash and cipher engines, whose drivers pad and chain for every engine.
    \<^item> \<open>Camera\<close>, \<open>Camera_Stream\<close> (\<open>devices/camera\<close>): the queue of frames between the interrupts and the reader refines a bounded queue of whole frames.
    \<^item> \<open>Soft_Rtc\<close> (\<open>devices/soft_rtc\<close>): the calendar equals counting days.
    \<^item> \<open>Fal\<close> (\<open>misc/fal\<close>, the partition table of the bootloader): the search for a partition and the layout of the flash.

  \<^bold>\<open>Bounds and fuel.\<close> A loop with an argument that falls is a terminating function. Loops that depend on input or hardware are partial functions, whose
  termination is proved where it holds (\<open>Hw_Sha\<close>, \<open>Clocks\<close>, \<open>Fal\<close>), or take a number of turns: the bytes of the input (\<open>Wpa2_Sha1\<close>), the bytes
  the bus moves before a timeout (\<open>I2c\<close>), the events of a session. Theorems say how many turns are enough, or hold for every number. The walk over a
  calibration image is proved to hang on an image whose first entry has a length that wraps around.

  \<^bold>\<open>Assumptions worth knowing.\<close> Sections with interrupts disabled are atomic. The task that receives messages of the MAC runs above its senders. A
  register operation the driver polls for comes to its end where the driver has no timeout. Chips behave as their documents in \<open>src/docs\<close> say.

  \<^bold>\<open>Not modelled.\<close> The vendor archive, the kernel, lwIP, the C library and the allocator are not in the repository, and the code that only forwards to
  them has no behaviour of its own. The shell, the applications and the WiFi tasks are C++ around the modelled parts. Start-up code, the calibration of
  the radio and power sequences are register writes whose effect is analogue. Register headers are covered by the records of the drivers that use them.
\<close>

end
